(* ===== verification/Prelude.thy ===== *)
theory Prelude
  imports Main "HOL-Library.Sublist"
begin

text \<open>
  Vocabulary shared by every component: JavaScript strings as lists of UTF-16 code units, the
  character classes and string methods the sources use, results that carry an error, and the
  generic list lemmas and fact collections the component proofs draw on.

  A code unit is an \<open>int\<close> (the program only ever builds values from 0 to 65535; no theorem
  needs the bound). \<open>js ''abc''\<close> is the literal \<open>"abc"\<close>, \<open>ch CHR ''a''\<close> its code unit.
\<close>

section \<open>Fact collections\<close>

named_theorems text_eval \<open>evaluation of string literals and character classes\<close>
named_theorems reader_simps \<open>equations of the line readers and their state updates\<close>
named_theorems verdict_simps \<open>facts on permission verdicts and their ranks\<close>
named_theorems ledger_simps \<open>facts on usage, budgets and ledgers\<close>

section \<open>Strings as code units\<close>

type_synonym cu = int
type_synonym jstring = "cu list"

abbreviation ch :: "char \<Rightarrow> cu" where
  "ch c \<equiv> of_char c"

definition js :: "string \<Rightarrow> jstring" where
  "js s = map of_char s"

lemma js_simps [text_eval]:
  "js [] = []"
  "js (c # s) = ch c # js s"
  by (simp_all add: js_def)

lemma js_inj [simp]: "js a = js b \<longleftrightarrow> a = b"
  by (simp add: js_def inj_map_eq_map inj_def)

lemma js_append: "js (a @ b) = js a @ js b"
  by (simp add: js_def)

lemma js_eq_Nil [simp]: "js s = [] \<longleftrightarrow> s = []"
  by (simp add: js_def)

text \<open>Characters that need a name: quotes, backslash, backtick and the breaks.\<close>

abbreviation cSQ :: cu where "cSQ \<equiv> 39"
abbreviation cDQ :: cu where "cDQ \<equiv> 34"
abbreviation cBSL :: cu where "cBSL \<equiv> 92"
abbreviation cBT :: cu where "cBT \<equiv> 96"
abbreviation cNL :: cu where "cNL \<equiv> 10"
abbreviation cCR :: cu where "cCR \<equiv> 13"
abbreviation cTAB :: cu where "cTAB \<equiv> 9"
abbreviation cSP :: cu where "cSP \<equiv> 32"

text \<open>Membership in a bracketed character class given by its characters.\<close>

definition one_of :: "cu \<Rightarrow> string \<Rightarrow> bool" where
  "one_of c s \<longleftrightarrow> c \<in> set (js s)"

lemma one_of_simps [text_eval]:
  "one_of c [] = False"
  "one_of c (d # s) = (c = ch d \<or> one_of c s)"
  by (simp_all add: one_of_def js_simps)

lemma one_of_code [code]:
  "one_of c [] = False"
  "one_of c (d # s) = (if c = ch d then True else one_of c s)"
  by (simp_all add: one_of_simps)

subsection \<open>Character classes of the regular expressions\<close>

definition is_digit :: "cu \<Rightarrow> bool" where
  "is_digit c \<longleftrightarrow> 48 \<le> c \<and> c \<le> 57"

definition is_upper :: "cu \<Rightarrow> bool" where
  "is_upper c \<longleftrightarrow> 65 \<le> c \<and> c \<le> 90"

definition is_lower :: "cu \<Rightarrow> bool" where
  "is_lower c \<longleftrightarrow> 97 \<le> c \<and> c \<le> 122"

definition is_alpha :: "cu \<Rightarrow> bool" where
  "is_alpha c \<longleftrightarrow> is_upper c \<or> is_lower c"

definition is_alnum :: "cu \<Rightarrow> bool" where
  "is_alnum c \<longleftrightarrow> is_alpha c \<or> is_digit c"

text \<open>\<open>[A-Za-z0-9_]\<close>.\<close>

definition is_wordch :: "cu \<Rightarrow> bool" where
  "is_wordch c \<longleftrightarrow> is_alnum c \<or> c = ch CHR ''_''"

text \<open>The class \<open>\s\<close>: white space and line terminators of ECMAScript.\<close>

definition is_space :: "cu \<Rightarrow> bool" where
  "is_space c \<longleftrightarrow> (9 \<le> c \<and> c \<le> 13) \<or> c = 32 \<or> c = 160 \<or> c = 5760 \<or> (8192 \<le> c \<and> c \<le> 8202)
     \<or> c \<in> {8232, 8233, 8239, 8287, 12288, 65279}"

lemma is_space_code [code]:
  "is_space c = ((9 \<le> c \<and> c \<le> 13) \<or> c = 32 \<or> c = 160 \<or> c = 5760 \<or> (8192 \<le> c \<and> c \<le> 8202)
     \<or> c = 8232 \<or> c = 8233 \<or> c = 8239 \<or> c = 8287 \<or> c = 12288 \<or> c = 65279)"
  by (auto simp: is_space_def)

text \<open>\<open>[\\/]\<close>, the separators of a path in the rules.\<close>

definition path_sep :: "cu \<Rightarrow> bool" where
  "path_sep c \<longleftrightarrow> c = cBSL \<or> c = ch CHR ''/''"

subsection \<open>Case folding\<close>

text \<open>
  \<open>String.prototype.toLowerCase\<close> on ASCII and Latin-1, and on the two characters beyond them
  whose lower case contains an ASCII letter (U+212A gives \<open>k\<close>, U+0130 gives \<open>i\<close> and a
  combining dot). Other characters are left alone: the sources only compare lower-cased
  text with ASCII words, where this mapping and the Unicode one agree.
\<close>

definition lower_cu :: "cu \<Rightarrow> jstring" where
  "lower_cu c =
     (if is_upper c then [c + 32]
      else if 192 \<le> c \<and> c \<le> 222 \<and> c \<noteq> 215 then [c + 32]
      else if c = 8490 then [107]
      else if c = 304 then [105, 775]
      else [c])"

definition to_lower :: "jstring \<Rightarrow> jstring" where
  "to_lower s = concat (map lower_cu s)"

lemma to_lower_simps [simp]:
  "to_lower [] = []"
  "to_lower (c # s) = lower_cu c @ to_lower s"
  by (simp_all add: to_lower_def)

text \<open>The letter a regular expression with flag \<open>i\<close> compares (ASCII letters fold, nothing else does).\<close>

definition fold_i :: "cu \<Rightarrow> cu" where
  "fold_i c = (if is_upper c then c + 32 else c)"

lemma lower_cu_idem: "d \<in> set (lower_cu c) \<Longrightarrow> lower_cu d = [d]"
  by (auto simp: lower_cu_def is_upper_def split: if_splits)

lemma to_lower_idem [simp]: "to_lower (to_lower s) = to_lower s"
proof (induction s)
  case Nil
  then show ?case by simp
next
  case (Cons c s)
  have fix1: "to_lower xs = xs" if "\<forall>d \<in> set xs. lower_cu d = [d]" for xs
    using that by (induction xs) auto
  have app: "to_lower (xs @ ys) = to_lower xs @ to_lower ys" for xs ys
    by (simp add: to_lower_def)
  have "to_lower (lower_cu c) = lower_cu c"
    by (rule fix1) (blast dest: lower_cu_idem)
  then show ?case by (simp add: app Cons.IH)
qed

lemma to_lower_append: "to_lower (a @ b) = to_lower a @ to_lower b"
  by (simp add: to_lower_def)

subsection \<open>JSON text of a string\<close>

definition hex_digit :: "cu \<Rightarrow> cu" where
  "hex_digit n = (if n < 10 then 48 + n else 87 + n)"

text \<open>Hexadecimal digits that are read, in either case.\<close>

definition is_hex :: "cu \<Rightarrow> bool" where
  "is_hex c \<longleftrightarrow> is_digit c \<or> (97 \<le> c \<and> c \<le> 102) \<or> (65 \<le> c \<and> c \<le> 70)"

definition hex_digit_value :: "cu \<Rightarrow> int" where
  "hex_digit_value c = (if c \<le> 57 then c - 48 else if c \<le> 70 then c - 55 else c - 87)"

lemma hex_digit_hex: "0 \<le> n \<Longrightarrow> n < 16 \<Longrightarrow> is_hex (hex_digit n) \<and> hex_digit_value (hex_digit n) = n"
  by (auto simp: is_hex_def hex_digit_def hex_digit_value_def is_digit_def)

definition hex4 :: "cu \<Rightarrow> jstring" where
  "hex4 c = [hex_digit (c div 4096 mod 16), hex_digit (c div 256 mod 16), hex_digit (c div 16 mod 16),
             hex_digit (c mod 16)]"

definition json_escape :: "cu \<Rightarrow> jstring" where
  "json_escape c = cBSL # ch CHR ''u'' # hex4 c"

definition json_char :: "cu \<Rightarrow> jstring" where
  "json_char c =
     (if c = cDQ \<or> c = cBSL then [cBSL, c]
      else if c = 8 then [cBSL, ch CHR ''b'']
      else if c = 12 then [cBSL, ch CHR ''f'']
      else if c = cNL then [cBSL, ch CHR ''n'']
      else if c = cCR then [cBSL, ch CHR ''r'']
      else if c = cTAB then [cBSL, ch CHR ''t'']
      else if c < 32 then json_escape c
      else [c])"

text \<open>Lone surrogates are escaped; a pair is kept.\<close>

fun json_chars :: "jstring \<Rightarrow> jstring" where
  "json_chars [] = []"
| "json_chars (c # r) =
     (if 55296 \<le> c \<and> c \<le> 56319 then
        (case r of
           d # r' \<Rightarrow> if 56320 \<le> d \<and> d \<le> 57343 then c # d # json_chars r' else json_escape c @ json_chars r
         | [] \<Rightarrow> json_escape c)
      else if 56320 \<le> c \<and> c \<le> 57343 then json_escape c @ json_chars r
      else json_char c @ json_chars r)"

definition json_string :: "jstring \<Rightarrow> jstring" where
  "json_string s = cDQ # json_chars s @ [cDQ]"

subsection \<open>String methods\<close>

definition starts_with :: "jstring \<Rightarrow> jstring \<Rightarrow> bool" where
  "starts_with s p \<longleftrightarrow> take (length p) s = p"

definition ends_with :: "jstring \<Rightarrow> jstring \<Rightarrow> bool" where
  "ends_with s p \<longleftrightarrow> length p \<le> length s \<and> drop (length s - length p) s = p"

text \<open>The separator of versions and dotted addresses.\<close>

definition is_dot :: "cu \<Rightarrow> bool" where
  "is_dot c \<longleftrightarrow> c = ch CHR ''.''"

text \<open>Decimal digits of a number, as in a template string.\<close>

fun digits_of :: "nat \<Rightarrow> jstring" where
  "digits_of n = (if n < 10 then [48 + int n] else digits_of (n div 10) @ [48 + int (n mod 10)])"

declare digits_of.simps [simp del]

text \<open>\<open>s.split(sep)\<close> for a separator that is one character of a class.\<close>

fun split_by :: "(cu \<Rightarrow> bool) \<Rightarrow> jstring \<Rightarrow> jstring list" where
  "split_by p [] = [[]]"
| "split_by p (c # s) =
     (if p c then [] # split_by p s
      else case split_by p s of [] \<Rightarrow> [[c]] | w # ws \<Rightarrow> (c # w) # ws)"

text \<open>\<open>parts.join(sep)\<close>.\<close>

fun join_with :: "jstring \<Rightarrow> jstring list \<Rightarrow> jstring" where
  "join_with sep [] = []"
| "join_with sep [w] = w"
| "join_with sep (w # v # ws) = w @ sep @ join_with sep (v # ws)"

definition trim_start :: "jstring \<Rightarrow> jstring" where
  "trim_start s = dropWhile is_space s"

definition trim_end :: "jstring \<Rightarrow> jstring" where
  "trim_end s = rev (dropWhile is_space (rev s))"

definition trim :: "jstring \<Rightarrow> jstring" where
  "trim s = trim_end (trim_start s)"

definition json_strings :: "jstring list \<Rightarrow> jstring" where
  "json_strings ws = [91] @ join_with [44] (map json_string ws) @ [93]"

lemma split_by_ne [simp]: "split_by p s \<noteq> []"
  by (cases s) (auto split: list.splits)

lemma split_by_no_sep: "w \<in> set (split_by p s) \<Longrightarrow> c \<in> set w \<Longrightarrow> \<not> p c"
  by (induction s arbitrary: w) (auto split: if_splits list.splits, fastforce)

lemma split_by_plain: "(\<forall>c \<in> set s. \<not> p c) \<Longrightarrow> split_by p s = [s]"
  by (induction s) auto

lemma split_by_append_sep:
  "p c \<Longrightarrow> split_by p (a @ c # b) = split_by p a @ split_by p b"
  by (induction a) (auto split: list.splits)

lemma join_split_by:
  "p = (\<lambda>c. c = x) \<Longrightarrow> join_with [x] (split_by p s) = s"
proof (induction s)
  case Nil
  then show ?case by simp
next
  case (Cons c s)
  obtain w ws where w: "split_by p s = w # ws"
    by (cases "split_by p s") auto
  with Cons have IH: "join_with [x] (w # ws) = s" by simp
  show ?case
  proof (cases "c = x")
    case True
    then show ?thesis using Cons.prems w IH by simp
  next
    case False
    then show ?thesis using Cons.prems w IH by (cases ws) auto
  qed
qed

lemma ends_with_append [simp]: "ends_with (a @ b) b"
  by (simp add: ends_with_def)

lemma starts_with_append [simp]: "starts_with (a @ b) a"
  by (simp add: starts_with_def)

section \<open>Lists\<close>

text \<open>\<open>[...new Set(xs)]\<close>: the first occurrence of every element, in order.\<close>

definition dedup :: "'a list \<Rightarrow> 'a list" where
  "dedup xs = rev (remdups (rev xs))"

lemma set_dedup [simp]: "set (dedup xs) = set xs"
  by (simp add: dedup_def)

lemma distinct_dedup [simp]: "distinct (dedup xs)"
  by (simp add: dedup_def)

text \<open>The text before and after the first occurrence of a character.\<close>

definition before :: "cu \<Rightarrow> jstring \<Rightarrow> jstring" where
  "before c s = takeWhile (\<lambda>x. x \<noteq> c) s"

definition after :: "cu \<Rightarrow> jstring \<Rightarrow> jstring" where
  "after c s = drop 1 (dropWhile (\<lambda>x. x \<noteq> c) s)"

lemma before_after: "c \<in> set s \<Longrightarrow> s = before c s @ c # after c s"
proof -
  assume "c \<in> set s"
  then have ne: "dropWhile (\<lambda>x. x \<noteq> c) s \<noteq> []" by simp
  then have hd: "hd (dropWhile (\<lambda>x. x \<noteq> c) s) = c"
    using hd_dropWhile [of "\<lambda>x. x \<noteq> c" s] by blast
  with ne have "dropWhile (\<lambda>x. x \<noteq> c) s = c # after c s"
    unfolding after_def by (cases "dropWhile (\<lambda>x. x \<noteq> c) s") auto
  then show ?thesis
    unfolding before_def by (metis takeWhile_dropWhile_id)
qed

lemma before_append: "c \<in> set s \<Longrightarrow> before c (s @ t) = before c s"
  by (simp add: before_def)

lemma after_append: "c \<in> set s \<Longrightarrow> after c (s @ t) = after c s @ t"
  by (induction s) (auto simp: after_def)

lemma length_after_le: "length (after c s) \<le> length s"
  by (simp add: after_def le_trans [OF diff_le_self length_dropWhile_le])

lemma length_after_less: "c \<in> set s \<Longrightarrow> length (after c s) < length s"
  by (induction s) (auto simp: after_def less_Suc_eq)

lemma suffix_after: "suffix (after c s) s"
  unfolding after_def by (metis suffix_drop suffix_dropWhile suffix_order.trans)

section \<open>Lines\<close>

text \<open>The characters \<open>.\<close> does not match in a regular expression.\<close>

definition line_end :: "cu \<Rightarrow> bool" where
  "line_end c \<longleftrightarrow> c = cNL \<or> c = cCR \<or> c = 8232 \<or> c = 8233"

text \<open>\<open>text.split(/\r?\n/)\<close>.\<close>

fun split_lines :: "jstring \<Rightarrow> jstring list" where
  "split_lines [] = [[]]"
| "split_lines (c # r) =
     (if c = cNL then [] # split_lines r
      else if c = cCR \<and> r \<noteq> [] \<and> hd r = cNL then [] # split_lines (tl r)
      else case split_lines r of [] \<Rightarrow> [[c]] | w # ws \<Rightarrow> (c # w) # ws)"

text \<open>\<open>(.+)\<close> up to the end of the text, and after a literal prefix; the first of several matches.\<close>

definition dots :: "jstring \<Rightarrow> jstring option" where
  "dots s = (if s \<noteq> [] \<and> list_all (\<lambda>c. \<not> line_end c) s then Some s else None)"

definition after_prefix :: "jstring \<Rightarrow> jstring \<Rightarrow> jstring option" where
  "after_prefix p line = (if starts_with line p then dots (drop (length p) line) else None)"

fun first_some :: "'a option list \<Rightarrow> 'a option" where
  "first_some [] = None"
| "first_some (x # xs) = (case x of Some v \<Rightarrow> Some v | None \<Rightarrow> first_some xs)"

end
