(* ===== verification/LineReader.thy ===== *)
theory LineReader
  imports Prelude
begin

text \<open>
  The contract a line reader of the permission policy keeps, as two locales, and what follows
  from it once and for all: a clean reading of a line does not depend on the lines after it.
  The bash and the PowerShell readers are the two interpretations.
\<close>

section \<open>Readers that scan from left to right\<close>

text \<open>
  \<open>step st c r\<close> reads the character \<open>c\<close> with \<open>r\<close> still to come and returns the new state and
  the rest. \<open>clean\<close> says no reason to give up has been found, \<open>ok_end\<close> that a text does not end
  in the middle of an escape, \<open>close\<close> what a line break does to the state.
\<close>

locale line_reader =
  fixes step :: "'s \<Rightarrow> cu \<Rightarrow> jstring \<Rightarrow> 's \<times> jstring"
    and run :: "'s \<Rightarrow> jstring \<Rightarrow> 's"
    and close :: "'s \<Rightarrow> 's"
    and clean :: "'s \<Rightarrow> bool"
    and ok_end :: "jstring \<Rightarrow> bool"
  assumes run_Nil: "run st [] = st"
    and run_Cons: "run st (c # r) = (case step st c r of (st', r') \<Rightarrow> run st' r')"
    and step_suffix: "step st c r = (st', r') \<Longrightarrow> suffix r' r"
    and step_clean: "step st c r = (st', r') \<Longrightarrow> clean st' \<Longrightarrow> clean st"
    and step_NL: "step st cNL r = (close st, r)"
    and step_local: "step st c r = (st', r') \<Longrightarrow> clean st' \<Longrightarrow> ok_end (c # r) \<Longrightarrow>
          step st c (r @ cNL # b) = (st', r' @ cNL # b)"
    and ok_end_suffix: "ok_end a \<Longrightarrow> suffix r a \<Longrightarrow> ok_end r"
begin

lemma run_clean: "clean (run st a) \<Longrightarrow> clean st"
proof (induction "length a" arbitrary: st a rule: less_induct)
  case less
  show ?case
  proof (cases a)
    case Nil
    with less.prems show ?thesis by (simp add: run_Nil)
  next
    case (Cons c r)
    obtain st' r' where s: "step st c r = (st', r')" by force
    have "length r' < length a"
      using step_suffix [OF s] Cons suffix_length_le by fastforce
    with less s Cons have "clean st'" by (auto simp: run_Cons)
    then show ?thesis by (rule step_clean [OF s])
  qed
qed

lemma run_newline:
  "clean (run st a) \<Longrightarrow> ok_end a \<Longrightarrow> run st (a @ cNL # b) = run (close (run st a)) b"
proof (induction "length a" arbitrary: st a rule: less_induct)
  case less
  show ?case
  proof (cases a)
    case Nil
    then show ?thesis by (simp add: run_Nil run_Cons step_NL)
  next
    case (Cons c r)
    obtain st' r' where s: "step st c r = (st', r')" by force
    have suf: "suffix r' r" by (rule step_suffix [OF s])
    have eq: "run st a = run st' r'" using s Cons by (simp add: run_Cons)
    have "clean st'" using less.prems(1) eq run_clean by simp
    then have "step st c (r @ cNL # b) = (st', r' @ cNL # b)"
      using step_local [OF s] less.prems(2) Cons by simp
    then have "run st (a @ cNL # b) = run st' (r' @ cNL # b)"
      using Cons by (simp add: run_Cons)
    also have "\<dots> = run (close (run st' r')) b"
    proof (rule less.hyps)
      show "length r' < length a" using suf Cons suffix_length_le by fastforce
      show "clean (run st' r')" using less.prems(1) eq by simp
      show "ok_end r'"
        using ok_end_suffix [OF less.prems(2)] suf Cons by (simp add: suffix_ConsI)
    qed
    finally show ?thesis using eq by simp
  qed
qed

end

section \<open>Readers that collect commands\<close>

text \<open>
  \<open>shift p st\<close> is the state with the commands \<open>p\<close> read before; no step looks at them. After a
  clean line break nothing of the line is left in the state but its commands.
\<close>

locale command_reader = line_reader step run close clean ok_end
  for step :: "'s \<Rightarrow> cu \<Rightarrow> jstring \<Rightarrow> 's \<times> jstring"
    and run :: "'s \<Rightarrow> jstring \<Rightarrow> 's"
    and close :: "'s \<Rightarrow> 's"
    and clean :: "'s \<Rightarrow> bool"
    and ok_end :: "jstring \<Rightarrow> bool" +
  fixes start :: 's
    and inv :: "'s \<Rightarrow> bool"
    and emitted :: "'s \<Rightarrow> jstring list list"
    and shift :: "jstring list list \<Rightarrow> 's \<Rightarrow> 's"
  assumes step_shift: "step (shift p st) c r = map_prod (shift p) id (step st c r)"
    and close_shift: "close (shift p st) = shift p (close st)"
    and clean_shift: "clean (shift p st) = clean st"
    and emitted_shift: "emitted (shift p st) = p @ emitted st"
    and inv_start: "inv start"
    and inv_step: "inv st \<Longrightarrow> step st c r = (st', r') \<Longrightarrow> inv st'"
    and close_resets: "inv st \<Longrightarrow> clean (close st) \<Longrightarrow> close st = shift (emitted (close st)) start"
    and close_clean: "clean (close st) \<Longrightarrow> clean st"
begin

lemma run_shift: "run (shift p st) a = shift p (run st a)"
proof (induction "length a" arbitrary: st a rule: less_induct)
  case less
  show ?case
  proof (cases a)
    case Nil
    then show ?thesis by (simp add: run_Nil)
  next
    case (Cons c r)
    obtain st' r' where s: "step st c r = (st', r')" by force
    have "length r' < length a"
      using step_suffix [OF s] Cons suffix_length_le by fastforce
    then have "run (shift p st') r' = shift p (run st' r')" by (rule less.hyps)
    with s Cons show ?thesis by (simp add: run_Cons step_shift)
  qed
qed

lemma run_inv: "inv st \<Longrightarrow> inv (run st a)"
proof (induction "length a" arbitrary: st a rule: less_induct)
  case less
  show ?case
  proof (cases a)
    case Nil
    with less.prems show ?thesis by (simp add: run_Nil)
  next
    case (Cons c r)
    obtain st' r' where s: "step st c r = (st', r')" by force
    have "length r' < length a"
      using step_suffix [OF s] Cons suffix_length_le by fastforce
    moreover have "inv st'" by (rule inv_step [OF less.prems s])
    ultimately have "inv (run st' r')" by (rule less.hyps)
    with s Cons show ?thesis by (simp add: run_Cons)
  qed
qed

theorem read_lines:
  assumes "clean (close (run start a))" "ok_end a"
  shows "close (run start (a @ cNL # b))
    = shift (emitted (close (run start a))) (close (run start b))"
proof -
  have "clean (run start a)" using assms(1) by (rule close_clean)
  then have "run start (a @ cNL # b) = run (close (run start a)) b"
    using assms(2) by (rule run_newline)
  also have "close (run start a) = shift (emitted (close (run start a))) start"
    using run_inv [OF inv_start] assms(1) by (rule close_resets)
  finally show ?thesis by (metis run_shift close_shift)
qed

corollary read_lines_emitted:
  assumes "clean (close (run start a))" "ok_end a"
  shows "emitted (close (run start (a @ cNL # b)))
      = emitted (close (run start a)) @ emitted (close (run start b))"
    and "clean (close (run start (a @ cNL # b))) = clean (close (run start b))"
  using read_lines [OF assms] by (simp_all add: emitted_shift clean_shift)

end

end
