(* ===== verification/ShellParse.thy ===== *)
theory ShellParse
  imports LineReader
begin

text \<open>
  The conservative readers of shell command lines
  (\<open>packages/core/src/permissions/shell-parse.ts\<close>): \<open>parseBash\<close> and \<open>parsePowerShell\<close>
  split a line into simple commands and mark it complex when they cannot read it word by
  word. The closures' variables are the record \<open>line_st\<close> (and \<open>bash_st\<close>, which adds the two
  glob flags); the index \<open>i\<close> into \<open>src\<close> is the rest of the text still to read. One iteration of
  the scanning loop is \<open>bash_step\<close> / \<open>ps_step\<close>; the loop itself is \<open>bash_run\<close> / \<open>ps_run\<close>.
\<close>

section \<open>Command names and word tests\<close>

definition shellNames :: "jstring list" where
  "shellNames = map js
    [''bash'', ''cmd'', ''cscript'', ''csh'', ''dash'', ''fish'', ''ksh'', ''lua'', ''mshta'',
     ''node'', ''osascript'', ''perl'', ''php'', ''powershell'', ''pwsh'', ''py'', ''python'',
     ''python2'', ''python3'', ''ruby'', ''sh'', ''tcsh'', ''wscript'', ''zsh'']"

definition BASH_WRAPPERS :: "jstring list" where
  "BASH_WRAPPERS = map js
    [''.'', ''alias'', ''enable'', ''hash'', ''shopt'', ''builtin'', ''busybox'', ''chroot'',
     ''command'', ''doas'', ''env'', ''eval'', ''exec'', ''flock'', ''ionice'', ''ltrace'',
     ''nice'', ''nohup'', ''pkexec'', ''runuser'', ''script'', ''setsid'', ''source'', ''stdbuf'',
     ''strace'', ''su'', ''sudo'', ''systemd-run'', ''taskset'', ''time'', ''timeout'',
     ''unbuffer'', ''watch'', ''winpty'', ''wsl'', ''xargs''] @ shellNames"

definition POWERSHELL_WRAPPERS :: "jstring list" where
  "POWERSHELL_WRAPPERS = map js
    [''.'', ''function'', ''nal'', ''new-alias'', ''sal'', ''set-alias'', ''icm'', ''iex'', ''ii'',
     ''invoke-command'', ''invoke-expression'', ''invoke-item'', ''saps'', ''start'',
     ''start-job'', ''start-process'', ''start-threadjob'', ''wsl''] @ shellNames"

definition BASH_KEYWORDS :: "jstring list" where
  "BASH_KEYWORDS = map js
    [''!'', ''[['', '']]'', ''case'', ''coproc'', ''do'', ''done'', ''elif'', ''else'', ''esac'',
     ''fi'', ''for'', ''function'', ''if'', ''select'', ''then'', ''until'', ''while'']"

definition FIND_EXEC :: "jstring list" where
  "FIND_EXEC = map js [''-exec'', ''-execdir'', ''-ok'', ''-okdir'']"

definition odd_break :: "cu \<Rightarrow> bool" where
  "odd_break c \<longleftrightarrow> c = 133 \<or> c = 8232 \<or> c = 8233"

datatype shell_kind = Bash | PowerShell

instantiation shell_kind :: linorder
begin

definition less_eq_shell_kind :: "shell_kind \<Rightarrow> shell_kind \<Rightarrow> bool" where
  "less_eq_shell_kind a b \<longleftrightarrow> a = Bash \<or> b = PowerShell"

definition less_shell_kind :: "shell_kind \<Rightarrow> shell_kind \<Rightarrow> bool" where
  "less_shell_kind a b \<longleftrightarrow> a = Bash \<and> b = PowerShell"

instance
proof
  fix x y z :: shell_kind
  show "(x < y) = (x \<le> y \<and> \<not> y \<le> x)"
    by (cases x; cases y) (simp_all add: less_eq_shell_kind_def less_shell_kind_def)
  show "x \<le> x" by (cases x) (simp_all add: less_eq_shell_kind_def)
  show "x \<le> y \<Longrightarrow> y \<le> z \<Longrightarrow> x \<le> z"
    by (cases x; cases y; cases z) (simp_all add: less_eq_shell_kind_def)
  show "x \<le> y \<Longrightarrow> y \<le> x \<Longrightarrow> x = y"
    by (cases x; cases y) (simp_all add: less_eq_shell_kind_def)
  show "x \<le> y \<or> y \<le> x"
    by (cases x; cases y) (simp_all add: less_eq_shell_kind_def)
qed

end

text \<open>The last path part, lower case, without one Windows program extension.\<close>

definition strip_ext :: "jstring list \<Rightarrow> jstring \<Rightarrow> jstring" where
  "strip_ext exts w =
     (case List.find (\<lambda>e. ends_with w e) exts of
        None \<Rightarrow> w | Some e \<Rightarrow> take (length w - length e) w)"

definition commandName :: "jstring \<Rightarrow> jstring" where
  "commandName word =
     strip_ext (map js [''.exe'', ''.cmd'', ''.bat'', ''.com'', ''.ps1''])
       (to_lower (last (split_by path_sep word)))"

definition isWrapper :: "jstring \<Rightarrow> shell_kind \<Rightarrow> bool" where
  "isWrapper name shell \<longleftrightarrow>
     commandName name \<in> set (case shell of Bash \<Rightarrow> BASH_WRAPPERS | PowerShell \<Rightarrow> POWERSHELL_WRAPPERS)"

definition arg0 :: "jstring list \<Rightarrow> jstring" where
  "arg0 argv = (case argv of [] \<Rightarrow> [] | w # _ \<Rightarrow> w)"

definition gitRenames :: "jstring list \<Rightarrow> bool" where
  "gitRenames argv \<longleftrightarrow>
     commandName (arg0 argv) = js ''git'' \<and>
     list_ex (\<lambda>w. w = js ''-c'' \<or> starts_with w (js ''--config-env'')
                \<or> starts_with (map fold_i w) (js ''alias.'')) (drop 1 argv)"

definition isScript :: "jstring \<Rightarrow> bool" where
  "isScript word \<longleftrightarrow>
     (case word of
        a # b # r \<Rightarrow> a = ch CHR ''.'' \<and>
          (path_sep b \<or> (b = ch CHR ''.'' \<and> (case r of d # _ \<Rightarrow> path_sep d | [] \<Rightarrow> False)))
      | _ \<Rightarrow> False) \<or>
     list_ex (ends_with (map fold_i word))
       (map js [''.sh'', ''.bash'', ''.zsh'', ''.ps1'', ''.psm1'', ''.bat'', ''.cmd'', ''.py'',
          ''.js'', ''.mjs'', ''.cjs'', ''.ts'', ''.rb'', ''.pl'', ''.vbs''])"

definition plain_cu :: "cu \<Rightarrow> cu" where
  "plain_cu c =
     (if c = 8216 \<or> c = 8217 \<or> c = 8218 \<or> c = 8219 then cSQ
      else if c = 8220 \<or> c = 8221 \<or> c = 8222 then cDQ
      else if c = 8211 \<or> c = 8212 \<or> c = 8213 then ch CHR ''-''
      else c)"

definition plainPunctuation :: "jstring \<Rightarrow> jstring" where
  "plainPunctuation src = map plain_cu src"

section \<open>The state of a reader\<close>

record parsed_line =
  commands :: "jstring list list"
  complex :: "jstring option"

record line_st =
  st_commands :: "jstring list list"
  st_words :: "jstring list"
  st_cur :: "jstring option"
  st_complex :: "jstring option"

record bash_st = line_st +
  st_glob :: bool
  st_globName :: bool

definition mark :: "jstring \<Rightarrow> 'a line_st_scheme \<Rightarrow> 'a line_st_scheme" where
  "mark why st = st\<lparr>st_complex := (case st_complex st of None \<Rightarrow> Some why | Some w \<Rightarrow> Some w)\<rparr>"

definition add :: "jstring \<Rightarrow> 'a line_st_scheme \<Rightarrow> 'a line_st_scheme" where
  "add s st = st\<lparr>st_cur := Some ((case st_cur st of None \<Rightarrow> [] | Some c \<Rightarrow> c) @ s)\<rparr>"

definition mark_if :: "bool \<Rightarrow> jstring \<Rightarrow> 'a line_st_scheme \<Rightarrow> 'a line_st_scheme" where
  "mark_if b why st = (if b then mark why st else st)"

section \<open>Reading bash\<close>

definition bash_flush :: "bash_st \<Rightarrow> bash_st" where
  "bash_flush st =
     (case st_cur st of
        None \<Rightarrow> st
      | Some w \<Rightarrow>
          let st1 = (if st_glob st \<and> st_words st = [] then st\<lparr>st_globName := True\<rparr>
                     else mark_if (st_glob st) (js ''a file name pattern'') st)
          in st1\<lparr>st_words := st_words st1 @ [w], st_cur := None, st_glob := False\<rparr>)"

definition bash_end :: "bash_st \<Rightarrow> bash_st" where
  "bash_end st =
     (let st1 = bash_flush st;
          st2 = (if st_words st1 \<noteq> [] then
                   let st' = mark_if (st_globName st1) (js ''a pattern in the command name'') st1
                   in st'\<lparr>st_commands := st_commands st' @ [st_words st']\<rparr>
                 else st1)
      in st2\<lparr>st_words := [], st_globName := False\<rparr>)"

text \<open>The word after a redirection operator, quotes removed.\<close>

function bash_target_loop ::
  "jstring \<Rightarrow> 'a line_st_scheme \<Rightarrow> jstring \<Rightarrow> jstring \<times> 'a line_st_scheme \<times> jstring" where
  "bash_target_loop out st [] = (out, st, [])"
| "bash_target_loop out st (c # r) =
     (if is_space c \<or> one_of c '';&|<>()'' then (out, st, c # r)
      else if c = cSQ \<or> c = cDQ then
        (if c \<in> set r then bash_target_loop (out @ before c r) st (after c r)
         else (out @ r, mark (js ''an unterminated quote'') st, []))
      else
        let st1 = mark_if (c = ch CHR ''$'' \<or> c = cBT) (js ''an expansion in a redirection'') st
        in if c = cBSL \<and> r \<noteq> [] then bash_target_loop (out @ [hd r]) st1 (tl r)
           else bash_target_loop (out @ [c]) st1 r)"
  by pat_completeness auto
termination
  by (relation "measure (\<lambda>(out, st, r). length r)")
     (auto simp: length_after_less less_Suc_eq_le length_after_le)

definition bash_target ::
  "'a line_st_scheme \<Rightarrow> jstring \<Rightarrow> jstring \<times> 'a line_st_scheme \<times> jstring" where
  "bash_target st r = bash_target_loop [] st (dropWhile (\<lambda>c. c = cSP \<or> c = cTAB) r)"

text \<open>The inside of double quotes: the text read, whether the closing quote was found.\<close>

fun bash_dquote ::
  "jstring \<Rightarrow> 'a line_st_scheme \<Rightarrow> jstring \<Rightarrow> jstring \<times> bool \<times> 'a line_st_scheme \<times> jstring" where
  "bash_dquote s st [] = (s, False, st, [])"
| "bash_dquote s st (d # r) =
     (if d = cDQ then (s, True, st, r)
      else if d = cBSL \<and> r \<noteq> [] then
        (if hd r = cNL then bash_dquote s st (tl r)
         else if one_of (hd r) ''$`'' \<or> hd r = cDQ \<or> hd r = cBSL then bash_dquote (s @ [hd r]) st (tl r)
         else bash_dquote (s @ [d]) st r)
      else
        bash_dquote (s @ [d])
          (mark_if (d = ch CHR ''$'' \<and> r \<noteq> [] \<and> (is_wordch (hd r) \<or> one_of (hd r) ''{(@*#?$!-''))
             (js ''an expansion'')
             (mark_if (d = cBT) (js ''a command substitution'') st))
          r)"

definition all_digits :: "jstring \<Rightarrow> bool" where
  "all_digits w \<longleftrightarrow> w \<noteq> [] \<and> list_all is_digit w"

definition next_is :: "jstring \<Rightarrow> cu \<Rightarrow> bool" where
  "next_is r c \<longleftrightarrow> (case r of [] \<Rightarrow> False | d # _ \<Rightarrow> d = c)"

text \<open>The branch for \<open><\<close> and \<open>>\<close>.\<close>

definition bash_redirect :: "bash_st \<Rightarrow> cu \<Rightarrow> jstring \<Rightarrow> bash_st \<times> jstring" where
  "bash_redirect st c r =
     (let st1 = bash_flush
            (case st_cur st of
               Some w \<Rightarrow> if all_digits w then st\<lparr>st_cur := None\<rparr> else st
             | None \<Rightarrow> st)
      in if next_is r (ch CHR ''('') then (add [c] (mark (js ''a process substitution'') st1), r)
         else
           let op = c # takeWhile (\<lambda>d. one_of d ''<>&|'') (take 2 r);
               r1 = drop (length op - 1) r
           in if starts_with op (js ''<<'') then
                (case bash_target
                    (mark (if op = js ''<<<'' then js ''a here-string'' else js ''a here-document'') st1) r1
                 of (_, st2, r2) \<Rightarrow> (st2, r2))
              else
                (case bash_target st1 r1 of (to, st2, r2) \<Rightarrow>
                   let dup = ends_with op (js ''&'') \<and> (all_digits to \<or> to = js ''-'')
                   in (mark_if (\<not> dup \<and> to \<noteq> js ''/dev/null'')
                         (if c = ch CHR ''<'' then js ''an input redirection''
                          else js ''a redirection to a file'') st2, r2)))"

text \<open>One iteration of the scanning loop: the character read, and the text after it.\<close>

definition bash_step :: "bash_st \<Rightarrow> cu \<Rightarrow> jstring \<Rightarrow> bash_st \<times> jstring" where
  "bash_step st c r =
     (if c = cSP \<or> c = cTAB \<or> c = cCR then (bash_flush st, r)
      else if c = cNL then (bash_end st, r)
      else if c = cBSL then
        (case r of
           [] \<Rightarrow> (add [cBSL] st, [])
         | d # r' \<Rightarrow> if d = cNL then (st, r') else (add [d] st, r'))
      else if c = cSQ then
        (if cSQ \<in> set r then (add (before cSQ r) st, after cSQ r)
         else (add r (mark (js ''an unterminated quote'') st), []))
      else if c = cDQ then
        (case bash_dquote [] st r of (s, closed, st1, r1) \<Rightarrow>
           (add s (mark_if (\<not> closed) (js ''an unterminated quote'') st1), r1))
      else if c = ch CHR ''$'' then
        (add [c]
           (mark_if (r \<noteq> [] \<and> (is_wordch (hd r) \<or> one_of (hd r) ''{(@*#?$!-'' \<or> hd r = cSQ \<or> hd r = cDQ))
              (if next_is r (ch CHR ''('') then js ''a command substitution'' else js ''an expansion'') st), r)
      else if c = cBT then (add [c] (mark (js ''a command substitution'') st), r)
      else if c = ch CHR ''#'' \<and> st_cur st = None then (st, dropWhile (\<lambda>d. d \<noteq> cNL) r)
      else if c = ch CHR '';'' then
        (bash_end (mark_if (next_is r (ch CHR '';'') \<or> next_is r (ch CHR ''&'')) (js ''a case clause'') st), r)
      else if c = ch CHR ''&'' then
        (if next_is r (ch CHR ''&'') then (bash_end st, tl r)
         else if next_is r (ch CHR ''>'') then
           (case bash_target (bash_flush st) (if next_is (tl r) (ch CHR ''>'') then drop 2 r else tl r) of
              (to, st1, r1) \<Rightarrow>
                (mark_if (to \<noteq> js ''/dev/null'') (js ''a redirection to a file'') st1, r1))
         else (bash_end st, r))
      else if c = ch CHR ''|'' then
        (bash_end st, if next_is r (ch CHR ''|'') \<or> next_is r (ch CHR ''&'') then tl r else r)
      else if c = ch CHR ''<'' \<or> c = ch CHR ''>'' then bash_redirect st c r
      else if c = ch CHR ''('' \<or> c = ch CHR '')'' then
        (bash_end (mark (js ''a subshell or grouping'') st), r)
      else if c = ch CHR ''{'' \<or> c = ch CHR ''}'' then
        (add [c] (mark (js ''braces (grouping or brace expansion)'') st), r)
      else
        (add [c] (if c = ch CHR ''*'' \<or> c = ch CHR ''?'' \<or> c = ch CHR ''['' then st\<lparr>st_glob := True\<rparr> else st), r))"

text \<open>Every helper leaves a suffix of the text it was given, so the loop ends.\<close>

lemma suffix_tl: "suffix (tl r) r"
  by (cases r) (auto simp: suffix_ConsI)

lemma bash_target_loop_suffix:
  "bash_target_loop out st r = (out', st', r') \<Longrightarrow> suffix r' r"
proof (induction out st r rule: bash_target_loop.induct)
  case (1 out st)
  then show ?case by simp
next
  case (2 out st c r)
  have "suffix x r \<Longrightarrow> suffix x (c # r)" for x
    by (rule suffix_ConsI)
  moreover have "suffix x (after c r) \<Longrightarrow> suffix x r" for x
    using suffix_after suffix_order.trans by blast
  moreover have "suffix x (tl r) \<Longrightarrow> suffix x r" for x
    using suffix_tl suffix_order.trans by blast
  ultimately show ?case
    using 2 by (auto simp: Let_def split: if_splits)
qed

lemma bash_target_suffix: "bash_target st r = (out, st', r') \<Longrightarrow> suffix r' r"
  unfolding bash_target_def
  using bash_target_loop_suffix suffix_dropWhile suffix_order.trans by blast

lemma bash_dquote_suffix: "bash_dquote s st r = (s', cl, st', r') \<Longrightarrow> suffix r' r"
proof (induction s st r rule: bash_dquote.induct)
  case (1 s st)
  then show ?case by simp
next
  case (2 s st d r)
  have "suffix x r \<Longrightarrow> suffix x (d # r)" for x
    by (rule suffix_ConsI)
  moreover have "suffix x (tl r) \<Longrightarrow> suffix x r" for x
    using suffix_tl suffix_order.trans by blast
  ultimately show ?case
    using 2 by (auto split: if_splits)
qed

lemma bash_redirect_suffix: "bash_redirect st c r = (st', r') \<Longrightarrow> suffix r' r"
  unfolding bash_redirect_def Let_def
  by (auto split: if_splits prod.splits dest!: bash_target_suffix
      intro: suffix_order.trans [OF _ suffix_drop])

lemma bash_step_suffix: "bash_step st c r = (st', r') \<Longrightarrow> suffix r' r"
  unfolding bash_step_def
  by (auto split: if_splits prod.splits list.splits simp: suffix_after suffix_tl
      dest!: bash_target_suffix bash_dquote_suffix bash_redirect_suffix
      intro: suffix_order.trans [OF _ suffix_drop] suffix_order.trans [OF _ suffix_tl]
        suffix_ConsI suffix_dropWhile)

lemma bash_step_shorter: "bash_step st c r = (st', r') \<Longrightarrow> length r' < length (c # r)"
  using bash_step_suffix suffix_length_le by fastforce

function bash_run :: "bash_st \<Rightarrow> jstring \<Rightarrow> bash_st" where
  "bash_run st [] = st"
| "bash_run st (c # r) = (case bash_step st c r of (st', r') \<Rightarrow> bash_run st' r')"
  by pat_completeness auto
termination
  by (relation "measure (\<lambda>(st, r). length r)") (auto split: prod.splits dest: bash_step_shorter)

definition assigns :: "jstring \<Rightarrow> bool" where
  "assigns w \<longleftrightarrow>
     (case w of
        [] \<Rightarrow> False
      | a # _ \<Rightarrow> (is_alpha a \<or> a = ch CHR ''_'') \<and>
          (case dropWhile is_wordch w of
             x # y # _ \<Rightarrow> x = ch CHR ''='' \<or> (x = ch CHR ''+'' \<and> y = ch CHR ''='')
           | [x] \<Rightarrow> x = ch CHR ''=''
           | [] \<Rightarrow> False))"

definition quoted :: "jstring \<Rightarrow> jstring" where
  "quoted w = [cDQ] @ w @ [cDQ]"

text \<open>What the words of one command say about the line, tested after the scan.\<close>

definition bash_why :: "jstring list \<Rightarrow> jstring option" where
  "bash_why argv =
     (let first = arg0 argv in
      if assigns first then Some (js ''a variable assignment before the command'')
      else if first \<in> set BASH_KEYWORDS then Some (js ''the shell keyword '' @ quoted first)
      else if commandName first \<in> set BASH_WRAPPERS then Some (quoted first @ js '', which runs other commands'')
      else if isScript first then Some (js ''the script '' @ quoted first)
      else if commandName first = js ''find'' \<and> list_ex (\<lambda>w. w \<in> set FIND_EXEC) argv
        then Some (js ''find running a command for each file'')
      else if gitRenames argv then Some (js ''git settings that change what git runs'')
      else None)"

fun first_why :: "(jstring list \<Rightarrow> jstring option) \<Rightarrow> jstring list list \<Rightarrow> jstring option" where
  "first_why why [] = None"
| "first_why why (argv # rest) = (case why argv of Some w \<Rightarrow> Some w | None \<Rightarrow> first_why why rest)"

definition first_reason :: "jstring option \<Rightarrow> jstring option \<Rightarrow> jstring option" where
  "first_reason a b = (case a of Some w \<Rightarrow> Some w | None \<Rightarrow> b)"

definition odd_why :: "jstring \<Rightarrow> jstring option" where
  "odd_why src = (if list_ex odd_break src then Some (js ''an unusual line break'') else None)"

definition bash_start :: bash_st where
  "bash_start = \<lparr>st_commands = [], st_words = [], st_cur = None, st_complex = None,
                 st_glob = False, st_globName = False\<rparr>"

definition parseBash :: "jstring \<Rightarrow> parsed_line" where
  "parseBash src =
     (let st = bash_end (bash_run bash_start src)
      in \<lparr>commands = st_commands st,
          complex = first_reason (st_complex st)
            (first_reason (first_why bash_why (st_commands st)) (odd_why src))\<rparr>)"

section \<open>The bash reader keeps the reader contract\<close>

subsection \<open>Reasons are kept\<close>

definition clean_st :: "'a line_st_scheme \<Rightarrow> bool" where
  "clean_st st \<longleftrightarrow> st_complex st = None"

lemma mark_unclean [simp]: "\<not> clean_st (mark why st)"
  by (simp add: clean_st_def mark_def split: option.splits)

lemma mark_if_clean [simp]: "clean_st (mark_if b why st) \<longleftrightarrow> \<not> b \<and> clean_st st"
  by (simp add: mark_if_def)

lemma add_clean [simp]: "clean_st (add s st) = clean_st st"
  by (simp add: add_def clean_st_def)

lemma update_clean [simp]:
  "clean_st (st\<lparr>st_words := ws\<rparr>) = clean_st st"
  "clean_st (st\<lparr>st_cur := cur\<rparr>) = clean_st st"
  "clean_st (st\<lparr>st_commands := cs\<rparr>) = clean_st st"
  by (simp_all add: clean_st_def)

lemma bash_update_clean [simp]:
  "clean_st (bst\<lparr>st_glob := g\<rparr>) = clean_st bst"
  "clean_st (bst\<lparr>st_globName := g\<rparr>) = clean_st bst"
  by (simp_all add: clean_st_def)

lemma mark_if_False [simp]: "mark_if False why st = st"
  by (simp add: mark_if_def)

lemma bash_flush_clean: "clean_st (bash_flush st) \<Longrightarrow> clean_st st"
  by (auto simp: bash_flush_def Let_def split: option.splits if_splits)

lemma bash_end_clean: "clean_st (bash_end st) \<Longrightarrow> clean_st st"
  by (auto simp: bash_end_def Let_def split: if_splits dest: bash_flush_clean)

lemma bash_target_loop_clean:
  "bash_target_loop out st r = (out', st', r') \<Longrightarrow> clean_st st' \<Longrightarrow> clean_st st"
  by (induction out st r rule: bash_target_loop.induct) (auto simp: Let_def split: if_splits)

lemma bash_target_clean:
  "bash_target st r = (out', st', r') \<Longrightarrow> clean_st st' \<Longrightarrow> clean_st st"
  unfolding bash_target_def by (rule bash_target_loop_clean)

lemma bash_dquote_clean:
  "bash_dquote s st r = (s', cl, st', r') \<Longrightarrow> clean_st st' \<Longrightarrow> clean_st st"
  by (induction s st r rule: bash_dquote.induct) (auto split: if_splits)

lemma bash_redirect_clean:
  "bash_redirect st c r = (st', r') \<Longrightarrow> clean_st st' \<Longrightarrow> clean_st st"
  unfolding bash_redirect_def Let_def
  by (auto split: if_splits prod.splits option.splits dest!: bash_target_clean bash_flush_clean)

lemma bash_step_clean:
  "bash_step st c r = (st', r') \<Longrightarrow> clean_st st' \<Longrightarrow> clean_st st"
  unfolding bash_step_def
  by (auto split: if_splits prod.splits list.splits
      dest!: bash_target_clean bash_flush_clean bash_end_clean bash_dquote_clean bash_redirect_clean)

subsection \<open>A clean step sees nothing beyond the line break\<close>

text \<open>A text that does not end in a backslash.\<close>

definition no_escape_end :: "cu \<Rightarrow> jstring \<Rightarrow> bool" where
  "no_escape_end e a \<longleftrightarrow> a = [] \<or> last a \<noteq> e"

lemma no_escape_end_suffix: "no_escape_end e a \<Longrightarrow> suffix r a \<Longrightarrow> no_escape_end e r"
  by (auto simp: no_escape_end_def suffix_def)

lemma next_is_append_NL: "c \<noteq> cNL \<Longrightarrow> next_is (r @ cNL # b) c = next_is r c"
  by (cases r) (auto simp: next_is_def)

lemma next_is_ne: "next_is r c \<Longrightarrow> r \<noteq> []"
  by (auto simp: next_is_def)

lemma tl_append_ne: "r \<noteq> [] \<Longrightarrow> tl (r @ b) = tl r @ b"
  by (cases r) auto

lemma bash_target_loop_local:
  "bash_target_loop out st r = (out', st', r') \<Longrightarrow> clean_st st' \<Longrightarrow> no_escape_end cBSL r \<Longrightarrow>
   bash_target_loop out st (r @ cNL # b) = (out', st', r' @ cNL # b)"
proof (induction out st r rule: bash_target_loop.induct)
  case (1 out st)
  then show ?case by (simp add: is_space_def)
next
  case (2 out st c r)
  have ends: "no_escape_end cBSL r" "no_escape_end cBSL (after c r)" "no_escape_end cBSL (tl r)"
    using 2(6) by (auto elim!: no_escape_end_suffix intro: suffix_ConsI suffix_after suffix_tl)
  have bsl: "c = cBSL \<Longrightarrow> r \<noteq> []"
    using 2(6) by (auto simp: no_escape_end_def)
  show ?case
  proof (cases "is_space c \<or> one_of c '';&|<>()''")
    case True
    with "2.prems"(1) show ?thesis by auto
  next
    case plain: False
    show ?thesis
    proof (cases "c = cSQ \<or> c = cDQ")
      case True
      then show ?thesis
      proof (cases "c \<in> set r")
        case False
        with plain True "2.prems"(1) have "st' = mark (js ''an unterminated quote'') st" by simp
        with "2.prems"(2) have False by simp
        then show ?thesis ..
      qed (use plain True "2.prems" "2.IH"(1) ends in \<open>simp add: before_append after_append\<close>)
    next
      case False
      then show ?thesis
      proof (cases "c = cBSL")
        case True
        with plain "2.prems" "2.IH"(2) ends bsl show ?thesis
          by (simp add: Let_def tl_append_ne)
      next
        case other: False
        with plain False "2.prems" "2.IH"(3) ends show ?thesis by (simp add: Let_def)
      qed
    qed
  qed
qed

lemma dropWhile_blank_NL:
  "dropWhile (\<lambda>c. c = cSP \<or> c = cTAB) (r @ cNL # b) = dropWhile (\<lambda>c. c = cSP \<or> c = cTAB) r @ cNL # b"
  by (induction r) auto

lemma bash_target_local:
  "bash_target st r = (out', st', r') \<Longrightarrow> clean_st st' \<Longrightarrow> no_escape_end cBSL r \<Longrightarrow>
   bash_target st (r @ cNL # b) = (out', st', r' @ cNL # b)"
  unfolding bash_target_def dropWhile_blank_NL
  by (rule bash_target_loop_local) (auto elim: no_escape_end_suffix intro: suffix_dropWhile)

lemma bash_dquote_closed:
  "bash_dquote s st r = (s', True, st', r') \<Longrightarrow> bash_dquote s st (r @ x) = (s', True, st', r' @ x)"
proof (induction s st r rule: bash_dquote.induct)
  case (1 s st)
  then show ?case by simp
next
  case (2 s st d r)
  have "r = [] \<Longrightarrow> d = cDQ" using 2(5) by (auto split: if_splits)
  then show ?case
    using 2 by (cases "r = []") (auto simp: tl_append_ne split: if_splits)
qed

lemma redirect_op_local:
  "\<not> p cNL \<Longrightarrow> takeWhile p (take n (r @ cNL # b)) = takeWhile p (take n r)"
proof (induction r arbitrary: n)
  case Nil
  then show ?case by (cases n) auto
next
  case (Cons a r)
  then show ?case by (cases n) auto
qed

lemma redirect_rest_local:
  "drop (length (takeWhile p (take n r))) (r @ x) = drop (length (takeWhile p (take n r))) r @ x"
proof -
  have "length (takeWhile p (take n r)) \<le> length r"
    using length_takeWhile_le [of p "take n r"] by simp
  then show ?thesis by (simp only: drop_append) simp
qed

lemma bash_redirect_local:
  assumes "bash_redirect st c r = (st', r')" "clean_st st'" "no_escape_end cBSL r"
  shows "bash_redirect st c (r @ cNL # b) = (st', r' @ cNL # b)"
proof -
  define op where "op = c # takeWhile (\<lambda>d. one_of d ''<>&|'') (take 2 r)"
  have op: "c # takeWhile (\<lambda>d. one_of d ''<>&|'') (take 2 (r @ cNL # b)) = op"
    unfolding op_def by (subst redirect_op_local) (simp_all add: one_of_simps)
  have rest: "drop (length op - 1) (r @ cNL # b) = drop (length op - 1) r @ cNL # b"
    unfolding op_def using redirect_rest_local by simp
  have ends: "no_escape_end cBSL (drop (length op - 1) r)"
    using assms(3) by (rule no_escape_end_suffix) (rule suffix_drop)
  have next_is_paren: "next_is (r @ cNL # b) (ch CHR ''('') = next_is r (ch CHR ''('')"
    by (rule next_is_append_NL) simp
  define st1 where "st1 = bash_flush
      (case st_cur st of Some w \<Rightarrow> if all_digits w then st\<lparr>st_cur := None\<rparr> else st | None \<Rightarrow> st)"
  have plain: "\<not> next_is r (ch CHR ''('')" "\<not> starts_with op (js ''<<'')"
    using assms(1,2) unfolding bash_redirect_def Let_def op_def [symmetric]
    by (auto split: if_splits prod.splits dest!: bash_target_clean)
  obtain to st2 r2 where t: "bash_target st1 (drop (length op - 1) r) = (to, st2, r2)"
    by (metis prod_cases3)
  have "clean_st st2" "r2 = r'"
    using assms(1,2) plain t unfolding bash_redirect_def Let_def op_def [symmetric] st1_def [symmetric]
    by (auto split: if_splits)
  then have t': "bash_target st1 (drop (length op - 1) r @ cNL # b) = (to, st2, r' @ cNL # b)"
    using bash_target_local [OF t _ ends] by simp
  show ?thesis
    using assms(1) plain t t' unfolding bash_redirect_def Let_def op op_def [symmetric] rest
      st1_def [symmetric] next_is_paren
    by auto
qed

lemma dropWhile_to_NL:
  "dropWhile (\<lambda>d. d \<noteq> cNL) (r @ cNL # b) = dropWhile (\<lambda>d. d \<noteq> cNL) r @ cNL # b"
  by (induction r) auto

lemma bash_step_eqs [reader_simps]:
  "bash_step st cSP r = (bash_flush st, r)"
  "bash_step st cNL r = (bash_end st, r)"
  "bash_step st cBSL (d # r) = (if d = cNL then (st, r) else (add [d] st, r))"
  "bash_step st cSQ r =
     (if cSQ \<in> set r then (add (before cSQ r) st, after cSQ r)
      else (add r (mark (js ''an unterminated quote'') st), []))"
  "bash_step st cDQ r =
     (case bash_dquote [] st r of (s, closed, st1, r1) \<Rightarrow>
        (add s (mark_if (\<not> closed) (js ''an unterminated quote'') st1), r1))"
  by (simp_all add: bash_step_def)

definition bash_special :: "cu list" where
  "bash_special = [cSP, cTAB, cCR, cNL, cBSL, cSQ, cDQ, cBT] @ map of_char ''$#;&|<>(){}''"

lemma bash_step_plain:
  assumes "c \<notin> set bash_special"
  shows "bash_step st c r =
    (add [c] (if one_of c ''*?['' then st\<lparr>st_glob := True\<rparr> else st), r)"
  using assms by (simp add: bash_special_def bash_step_def one_of_simps)

lemma bash_step_dquote_local:
  assumes "bash_step st cDQ r = (st', r')" "clean_st st'"
  shows "bash_step st cDQ (r @ x) = (st', r' @ x)"
proof -
  obtain s closed st1 r1 where d: "bash_dquote [] st r = (s, closed, st1, r1)"
    by (metis prod_cases4)
  with assms have "closed" by (auto simp: reader_simps)
  with d have "bash_dquote [] st (r @ x) = (s, True, st1, r1 @ x)"
    using bash_dquote_closed by auto
  with d \<open>closed\<close> assms(1) show ?thesis by (auto simp: reader_simps)
qed

lemma bash_step_redirect:
  "c = ch CHR ''<'' \<or> c = ch CHR ''>'' \<Longrightarrow> bash_step st c r = bash_redirect st c r"
  by (elim disjE) (simp_all add: bash_step_def)

lemma bash_step_amp_local:
  assumes "bash_step st (ch CHR ''&'') r = (st', r')" "clean_st st'" "no_escape_end cBSL r"
  shows "bash_step st (ch CHR ''&'') (r @ cNL # b) = (st', r' @ cNL # b)"
proof (cases r)
  case Nil
  with assms(1) show ?thesis by (simp add: bash_step_def next_is_def)
next
  case (Cons d q)
  define q' where "q' = (if next_is q (ch CHR ''>'') then drop 1 q else q)"
  have nl: "next_is (q @ cNL # b) (ch CHR ''>'') = next_is q (ch CHR ''>'')"
    by (rule next_is_append_NL) simp
  have q': "(if next_is q (ch CHR ''>'') then drop 1 (q @ cNL # b) else q @ cNL # b) = q' @ cNL # b"
    by (auto simp: q'_def next_is_def split: list.splits)
  have "no_escape_end cBSL q'"
    using assms(3) unfolding q'_def Cons
    by (auto elim!: no_escape_end_suffix intro!: suffix_ConsI suffix_drop)
  then have tgt: "bash_target s (q' @ cNL # b) =
      (case bash_target s q' of (to, st2, r2) \<Rightarrow> (to, st2, r2 @ cNL # b))"
    if "clean_st (fst (snd (bash_target s q')))" for s :: bash_st
    using that bash_target_local [of s q'] by (cases "bash_target s q'") auto
  have step: "bash_step st (ch CHR ''&'') (d # x) =
     (if d = ch CHR ''&'' then (bash_end st, x)
      else if d = ch CHR ''>'' then
        (case bash_target (bash_flush st) (if next_is x (ch CHR ''>'') then drop 1 x else x) of
           (to, st1, r1) \<Rightarrow> (mark_if (to \<noteq> js ''/dev/null'') (js ''a redirection to a file'') st1, r1))
      else (bash_end st, d # x))" for x
    by (simp add: bash_step_def next_is_def)
  show ?thesis
    using assms(1,2) unfolding Cons append_Cons step nl q' unfolding q'_def [symmetric]
    by (cases "bash_target (bash_flush st) q'") (auto simp: tgt split: if_splits)
qed

lemma bash_step_local:
  assumes "bash_step st c r = (st', r')" "clean_st st'" "no_escape_end cBSL (c # r)"
  shows "bash_step st c (r @ cNL # b) = (st', r' @ cNL # b)"
proof -
  have r: "no_escape_end cBSL r"
    using assms(3) by (rule no_escape_end_suffix) (simp add: suffix_ConsI)
  have cls: "\<not> is_wordch cNL"
    by (simp add: is_wordch_def is_alnum_def is_alpha_def is_upper_def is_lower_def is_digit_def)
  consider (amp) "c = ch CHR ''&''" | (dq) "c = cDQ" | (redir) "c = ch CHR ''<'' \<or> c = ch CHR ''>''"
    | (bsl) "c = cBSL" | (dollar) "c = ch CHR ''$''"
    | (quote) "c = cSQ"
    | (pipe) "c = ch CHR ''|''" | (hash) "c = ch CHR ''#''" | (semi) "c = ch CHR '';''"
    | (mark) "c = cBT \<or> c = ch CHR ''('' \<or> c = ch CHR '')'' \<or> c = ch CHR ''{'' \<or> c = ch CHR ''}''"
    | (blank) "c = cSP \<or> c = cTAB \<or> c = cCR \<or> c = cNL"
    | (plain) "c \<notin> set bash_special"
    unfolding bash_special_def by auto
  then show ?thesis
  proof cases
    case amp
    with assms r show ?thesis using bash_step_amp_local by simp
  next
    case dq
    with assms show ?thesis using bash_step_dquote_local by simp
  next
    case redir
    then show ?thesis
      using assms r bash_redirect_local by (simp add: bash_step_redirect)
  next
    case bsl
    then obtain d q where "r = d # q"
      using assms(3) by (cases r) (auto simp: no_escape_end_def)
    with bsl assms(1) show ?thesis by (auto simp: reader_simps split: if_splits)
  next
    case dollar
    with assms(1) show ?thesis
      by (cases r) (auto simp: bash_step_def next_is_def cls one_of_simps)
  next
    case quote
    with assms(1,2) show ?thesis
      by (auto simp: reader_simps before_append after_append split: if_splits)
  next
    case pipe
    with assms(1) show ?thesis
      by (cases r) (auto simp: bash_step_def next_is_def split: if_splits)
  next
    case hash
    with assms(1) show ?thesis
      by (auto simp: bash_step_def dropWhile_to_NL split: if_splits)
  next
    case semi
    with assms(1) show ?thesis
      by (simp add: bash_step_def next_is_append_NL) blast
  next
    case mark
    with assms(1) show ?thesis by (elim disjE) (simp_all add: bash_step_def)
  next
    case blank
    with assms(1) show ?thesis by (elim disjE) (simp_all add: bash_step_def)
  next
    case plain
    with assms(1) show ?thesis by (simp add: bash_step_plain)
  qed
qed

subsection \<open>Commands already read are never looked at\<close>

definition shift :: "jstring list list \<Rightarrow> 'a line_st_scheme \<Rightarrow> 'a line_st_scheme" where
  "shift p st = st\<lparr>st_commands := p @ st_commands st\<rparr>"

lemma shift_select [simp]:
  "st_commands (shift p st) = p @ st_commands st"
  "st_words (shift p st) = st_words st"
  "st_cur (shift p st) = st_cur st"
  "clean_st (shift p st) = clean_st st"
  "st_glob (shift p bst) = st_glob bst"
  "st_globName (shift p bst) = st_globName bst"
  by (simp_all add: shift_def clean_st_def)

lemma shift_update:
  "(shift p st)\<lparr>st_cur := cur\<rparr> = shift p (st\<lparr>st_cur := cur\<rparr>)"
  "(shift p st)\<lparr>st_words := ws\<rparr> = shift p (st\<lparr>st_words := ws\<rparr>)"
  "(shift p bst)\<lparr>st_glob := g\<rparr> = shift p (bst\<lparr>st_glob := g\<rparr>)"
  "(shift p bst)\<lparr>st_globName := g\<rparr> = shift p (bst\<lparr>st_globName := g\<rparr>)"
  "(shift p st)\<lparr>st_commands := (p @ cs)\<rparr> = shift p (st\<lparr>st_commands := cs\<rparr>)"
  by (simp_all add: shift_def)

lemma shift_mark:
  "mark why (shift p st) = shift p (mark why st)"
  "mark_if b why (shift p st) = shift p (mark_if b why st)"
  "add s (shift p st) = shift p (add s st)"
  by (simp_all add: shift_def mark_if_def mark_def add_def)

lemma shift_flush: "bash_flush (shift p st) = shift p (bash_flush st)"
  by (simp add: bash_flush_def Let_def shift_update shift_mark split: option.split)

lemma shift_end: "bash_end (shift p st) = shift p (bash_end st)"
  by (simp add: bash_end_def Let_def shift_flush shift_update shift_mark)

definition shift_target where
  "shift_target p = map_prod id (map_prod (shift p) id)"

lemma shift_target_loop:
  "bash_target_loop out (shift p st) r = shift_target p (bash_target_loop out st r)"
proof (induction out st r rule: bash_target_loop.induct)
  case (1 out st)
  then show ?case by (simp add: shift_target_def)
next
  case (2 out st c r)
  then show ?case
    by (auto simp: Let_def shift_mark shift_target_def)
qed

lemma shift_bash_target: "bash_target (shift p st) r = shift_target p (bash_target st r)"
  by (simp add: bash_target_def shift_target_loop)

lemma shift_dquote:
  "bash_dquote s (shift p st) r = map_prod id (map_prod id (map_prod (shift p) id)) (bash_dquote s st r)"
  by (induction s st r rule: bash_dquote.induct) (simp_all add: shift_mark)

lemma shift_redirect:
  "bash_redirect (shift p st) c r = map_prod (shift p) id (bash_redirect st c r)"
proof -
  have cur: "(case st_cur (shift p st) of
        Some w \<Rightarrow> if all_digits w then (shift p st)\<lparr>st_cur := None\<rparr> else shift p st | None \<Rightarrow> shift p st)
      = shift p (case st_cur st of
        Some w \<Rightarrow> if all_digits w then st\<lparr>st_cur := None\<rparr> else st | None \<Rightarrow> st)"
    by (simp add: shift_update split: option.split)
  show ?thesis
    unfolding bash_redirect_def Let_def cur shift_flush shift_mark shift_bash_target shift_target_def
    by (simp add: shift_mark split: prod.split)
qed

lemma shift_step: "bash_step (shift p st) c r = map_prod (shift p) id (bash_step st c r)"
proof -
  consider (amp) "c = ch CHR ''&''" | (dq) "c = cDQ" | (redir) "c = ch CHR ''<'' \<or> c = ch CHR ''>''"
    | (bsl) "c = cBSL" | (hash) "c = ch CHR ''#''"
    | (mark) "c = cSQ \<or> c = ch CHR ''|'' \<or> c = ch CHR '';'' \<or> c = ch CHR ''$''
        \<or> c = cBT \<or> c = ch CHR ''('' \<or> c = ch CHR '')'' \<or> c = ch CHR ''{'' \<or> c = ch CHR ''}''"
    | (blank) "c = cSP \<or> c = cTAB \<or> c = cCR \<or> c = cNL"
    | (plain) "c \<notin> set bash_special"
    unfolding bash_special_def by auto
  then show ?thesis
  proof cases
    case amp
    then show ?thesis
      by (simp add: bash_step_def shift_flush shift_end shift_bash_target shift_mark shift_target_def
          split: prod.split)
  next
    case dq
    then show ?thesis by (simp add: reader_simps shift_dquote shift_mark split: prod.split)
  next
    case redir
    then show ?thesis by (simp add: bash_step_redirect shift_redirect)
  next
    case bsl
    then show ?thesis by (cases r) (simp_all add: bash_step_def shift_mark)
  next
    case hash
    then show ?thesis by (simp add: bash_step_def shift_mark)
  next
    case mark
    then show ?thesis
      by (elim disjE) (simp_all add: bash_step_def shift_mark shift_flush shift_end)
  next
    case blank
    then show ?thesis
      by (elim disjE) (simp_all add: bash_step_def shift_flush shift_end)
  next
    case plain
    then show ?thesis by (simp add: bash_step_plain shift_update shift_mark)
  qed
qed

subsection \<open>What a clean line break leaves\<close>

text \<open>The glob flag is only up while the word being read holds a character that is no digit.\<close>

definition bash_inv :: "bash_st \<Rightarrow> bool" where
  "bash_inv st \<longleftrightarrow>
     (st_glob st \<longrightarrow> (\<exists>w. st_cur st = Some w \<and> (\<exists>c \<in> set w. \<not> is_digit c))) \<and>
     (st_globName st \<longrightarrow> st_words st \<noteq> [])"

lemma bash_inv_mark [simp]:
  "bash_inv (mark why st) = bash_inv st"
  "bash_inv (mark_if b why st) = bash_inv st"
  by (auto simp: bash_inv_def mark_if_def mark_def)

lemma bash_inv_add: "bash_inv st \<Longrightarrow> bash_inv (add s st)"
  by (auto simp: bash_inv_def add_def)

lemma bash_inv_flush: "bash_inv st \<Longrightarrow> bash_inv (bash_flush st)"
  by (auto simp: bash_inv_def bash_flush_def Let_def mark_if_def mark_def split: option.splits)

lemma bash_flush_idle: "bash_inv st \<Longrightarrow> st_cur (bash_flush st) = None \<and> \<not> st_glob (bash_flush st)"
  by (auto simp: bash_inv_def bash_flush_def Let_def mark_if_def mark_def split: option.splits)

lemma bash_inv_end: "bash_inv st \<Longrightarrow> bash_inv (bash_end st)"
  using bash_flush_idle [of st]
  by (auto simp: bash_inv_def bash_end_def Let_def mark_if_def mark_def split: option.splits)

lemma bash_inv_target:
  "bash_target_loop out st r = (out', st', r') \<Longrightarrow> bash_inv st \<Longrightarrow> bash_inv st'"
  by (induction out st r rule: bash_target_loop.induct) (auto simp: Let_def split: if_splits)

lemma bash_inv_dquote: "bash_dquote s st r = (s', cl, st', r') \<Longrightarrow> bash_inv st \<Longrightarrow> bash_inv st'"
  by (induction s st r rule: bash_dquote.induct) (auto split: if_splits)

lemma bash_inv_drop_digits:
  "bash_inv st \<Longrightarrow> st_cur st = Some w \<Longrightarrow> all_digits w \<Longrightarrow> bash_inv (st\<lparr>st_cur := None\<rparr>)"
  by (auto simp: bash_inv_def all_digits_def list_all_iff)

lemma bash_inv_redirect:
  assumes "bash_redirect st c r = (st', r')" "bash_inv st"
  shows "bash_inv st'"
proof -
  let ?st1 = "bash_flush
      (case st_cur st of Some w \<Rightarrow> if all_digits w then st\<lparr>st_cur := None\<rparr> else st | None \<Rightarrow> st)"
  have "bash_inv ?st1"
    using assms(2) by (auto split: option.split intro!: bash_inv_flush bash_inv_drop_digits)
  then show ?thesis
    using assms(1) unfolding bash_redirect_def Let_def bash_target_def
    by (auto split: if_splits prod.splits intro: bash_inv_add dest!: bash_inv_target)
qed

lemma bash_inv_step:
  assumes "bash_step st c r = (st', r')" "bash_inv st"
  shows "bash_inv st'"
proof (cases "c \<in> set bash_special")
  case False
  have "one_of c ''*?['' \<Longrightarrow> \<not> is_digit c" by (auto simp: one_of_simps is_digit_def)
  then have "bash_inv (add [c] (if one_of c ''*?['' then st\<lparr>st_glob := True\<rparr> else st))"
    using assms(2) by (auto simp: bash_inv_def add_def split: option.splits)
  with assms(1) False show ?thesis by (simp add: bash_step_plain)
next
  case True
  then show ?thesis
    using assms unfolding bash_special_def
    by (auto simp: bash_step_def bash_target_def split: if_splits prod.splits list.splits
        intro!: bash_inv_add bash_inv_flush bash_inv_end
        dest: bash_inv_redirect bash_inv_dquote bash_inv_target [OF _ bash_inv_flush])
qed

lemma bash_end_resets:
  assumes "bash_inv st" "clean_st (bash_end st)"
  shows "bash_end st = shift (st_commands (bash_end st)) bash_start"
proof -
  have idle: "st_cur (bash_flush st) = None" "\<not> st_glob (bash_flush st)"
    using bash_flush_idle [OF assms(1)] by auto
  have "st_complex (bash_end st) = None" using assms(2) by (simp add: clean_st_def)
  moreover have "st_cur (bash_end st) = None" "\<not> st_glob (bash_end st)"
    "st_words (bash_end st) = []" "\<not> st_globName (bash_end st)"
    using idle by (auto simp: bash_end_def Let_def mark_if_def mark_def)
  ultimately show ?thesis by (simp add: shift_def bash_start_def)
qed

interpretation bash: command_reader bash_step bash_run bash_end clean_st "no_escape_end cBSL"
  bash_start bash_inv st_commands shift
proof
  show "bash_run st [] = st" for st by simp
  show "bash_run st (c # r) = (case bash_step st c r of (st', r') \<Rightarrow> bash_run st' r')" for st c r
    by simp
  show "bash_step st cNL r = (bash_end st, r)" for st r by (simp add: reader_simps)
  show "bash_inv bash_start" by (simp add: bash_inv_def bash_start_def)
qed (use bash_step_suffix bash_step_clean bash_step_local no_escape_end_suffix shift_step
      shift_end bash_inv_step bash_end_resets bash_end_clean in \<open>auto\<close>)

section \<open>Properties of parseBash\<close>

lemma first_reason_None [simp]: "first_reason a b = None \<longleftrightarrow> a = None \<and> b = None"
  by (simp add: first_reason_def split: option.split)

lemma first_reason_left [simp]: "first_reason None b = b"
  by (simp add: first_reason_def)

lemma first_reason_assoc: "first_reason (first_reason a b) c = first_reason a (first_reason b c)"
  by (simp add: first_reason_def split: option.split)

lemma first_why_append: "first_why why (xs @ ys) = first_reason (first_why why xs) (first_why why ys)"
  by (induction xs) (auto simp: first_reason_def split: option.splits)

lemma first_why_None: "first_why why cs = None \<longleftrightarrow> (\<forall>argv \<in> set cs. why argv = None)"
  by (induction cs) (auto split: option.splits)

lemma odd_why_append: "odd_why (a @ b) = first_reason (odd_why a) (odd_why b)"
  by (simp add: odd_why_def first_reason_def)

lemma odd_why_NL: "odd_why (cNL # b) = odd_why b"
  by (simp add: odd_why_def odd_break_def)

lemma shift_complex [simp]: "st_complex (shift p st) = st_complex st"
  by (simp add: shift_def)

text \<open>
  Reading a script line by line: when a line is read word by word (no reason to call it
  complex, no backslash at its end), the commands of the whole text are the line's commands
  followed by those of the rest, and the rest alone decides whether the text is complex. So a
  readable first line can neither hide nor alter a command that follows it.
\<close>

theorem parseBash_lines:
  assumes "complex (parseBash a) = None" "no_escape_end cBSL a"
  shows "parseBash (a @ cNL # b) =
    \<lparr>commands = commands (parseBash a) @ commands (parseBash b), complex = complex (parseBash b)\<rparr>"
proof -
  let ?e = "\<lambda>s. bash_end (bash_run bash_start s)"
  have "st_complex (?e a) = None" and why: "first_why bash_why (st_commands (?e a)) = None"
    and odd: "odd_why a = None"
    using assms(1) by (simp_all add: parseBash_def Let_def)
  then have "?e (a @ cNL # b) = shift (st_commands (?e a)) (?e b)"
    using bash.read_lines [OF _ assms(2)] by (simp add: clean_st_def)
  with why odd show ?thesis
    by (simp add: parseBash_def Let_def first_why_append odd_why_append odd_why_NL)
qed

theorem parseBash_lines_example:
  "parseBash (js ''git status'' @ cNL # js ''rm -rf x'') =
    \<lparr>commands = [[js ''git'', js ''status''], [js ''rm'', js ''-rf'', js ''x'']], complex = None\<rparr>"
proof -
  have "complex (parseBash (js ''git status'')) = None" by code_simp
  moreover have "no_escape_end cBSL (js ''git status'')"
    by (simp add: no_escape_end_def js_simps)
  ultimately have "parseBash (js ''git status'' @ cNL # js ''rm -rf x'') =
     \<lparr>commands = commands (parseBash (js ''git status'')) @ commands (parseBash (js ''rm -rf x'')),
      complex = complex (parseBash (js ''rm -rf x''))\<rparr>"
    by (rule parseBash_lines)
  also have "\<dots> = \<lparr>commands = [[js ''git'', js ''status''], [js ''rm'', js ''-rf'', js ''x'']], complex = None\<rparr>"
    by code_simp
  finally show ?thesis .
qed

subsection \<open>Quoted words come back unchanged\<close>

definition single_quoted :: "jstring \<Rightarrow> jstring" where
  "single_quoted w = cSQ # w @ [cSQ]"

fun quoted_line :: "jstring list \<Rightarrow> jstring" where
  "quoted_line [] = []"
| "quoted_line (w # ws) = single_quoted w @ cSP # quoted_line ws"

definition quoted_script :: "jstring list list \<Rightarrow> jstring" where
  "quoted_script cmds = concat (map (\<lambda>argv. quoted_line argv @ [cNL]) cmds)"

lemma bash_run_quoted:
  assumes "cSQ \<notin> set w"
  shows "bash_run st (single_quoted w @ r) = bash_run (add w st) r"
proof -
  have "before cSQ (w @ cSQ # r) = w" "after cSQ (w @ cSQ # r) = r"
    using assms by (induction w) (auto simp: before_def after_def)
  then show ?thesis by (simp add: single_quoted_def reader_simps)
qed

lemma bash_run_quoted_line:
  assumes "\<forall>w \<in> set ws. cSQ \<notin> set w" "st_cur st = None" "\<not> st_glob st"
  shows "bash_run st (quoted_line ws @ r) = bash_run (st\<lparr>st_words := st_words st @ ws\<rparr>) r"
  using assms
proof (induction ws arbitrary: st)
  case Nil
  then show ?case by simp
next
  case (Cons w ws)
  let ?st = "st\<lparr>st_words := st_words st @ [w]\<rparr>"
  have "bash_run st (quoted_line (w # ws) @ r) = bash_run (bash_flush (add w st)) (quoted_line ws @ r)"
    using Cons.prems by (simp add: bash_run_quoted reader_simps)
  also have "bash_flush (add w st) = ?st"
    using Cons.prems by (simp add: bash_flush_def add_def Let_def)
  also have "bash_run ?st (quoted_line ws @ r) = bash_run (?st\<lparr>st_words := st_words ?st @ ws\<rparr>) r"
    using Cons.prems by (intro Cons.IH) auto
  finally show ?case by simp
qed

lemma bash_run_quoted_script:
  assumes "\<forall>argv \<in> set cmds. argv \<noteq> [] \<and> (\<forall>w \<in> set argv. cSQ \<notin> set w)"
  shows "bash_run (shift p bash_start) (quoted_script cmds) = shift (p @ cmds) bash_start"
  using assms
proof (induction cmds arbitrary: p)
  case Nil
  then show ?case by (simp add: quoted_script_def)
next
  case (Cons argv cmds)
  let ?st = "(shift p bash_start)\<lparr>st_words := argv\<rparr>"
  have "bash_run (shift p bash_start) (quoted_script (argv # cmds)) =
      bash_run (shift p bash_start) (quoted_line argv @ cNL # quoted_script cmds)"
    by (simp add: quoted_script_def)
  also have "\<dots> = bash_run ?st (cNL # quoted_script cmds)"
    by (subst bash_run_quoted_line) (use Cons.prems in \<open>auto simp: bash_start_def\<close>)
  also have "\<dots> = bash_run (bash_end ?st) (quoted_script cmds)"
    by (simp add: reader_simps)
  also have "bash_end ?st = shift (p @ [argv]) bash_start"
    using Cons.prems by (simp add: bash_end_def bash_flush_def shift_def bash_start_def Let_def)
  also have "bash_run \<dots> (quoted_script cmds) = shift ((p @ [argv]) @ cmds) bash_start"
    using Cons.prems by (intro Cons.IH) auto
  finally show ?case by simp
qed

text \<open>
  C40. Round trip: a script that writes every word in single quotes, one command per line, is
  read back as exactly those commands; no word is split, dropped, joined or expanded, whatever
  characters it holds (a single quote excepted).
\<close>

theorem parseBash_quoted_script:
  assumes "\<forall>argv \<in> set cmds. argv \<noteq> [] \<and> (\<forall>w \<in> set argv. cSQ \<notin> set w)"
  shows "commands (parseBash (quoted_script cmds)) = cmds"
proof -
  have "bash_run bash_start (quoted_script cmds) = shift cmds bash_start"
    using bash_run_quoted_script [OF assms, of "[]"] by (simp add: shift_def)
  then show ?thesis
    by (simp add: parseBash_def Let_def shift_end) (simp add: bash_end_def bash_flush_def bash_start_def)
qed

theorem parseBash_quoted_script_witness:
  "commands (parseBash (quoted_script [[js ''git'', js ''a b''], [js ''rm'', js ''$(x); y'']]))
    = [[js ''git'', js ''a b''], [js ''rm'', js ''$(x); y'']]"
  by (rule parseBash_quoted_script) (simp add: js_simps)

text \<open>
  What a readable line runs is what its first words say: when the reader finds no reason to
  call a line complex, no command of it is an assignment, a keyword, a wrapper or shell that
  runs other commands, a script, a find that executes, or a git that renames commands.
\<close>

theorem parseBash_plain_heads:
  assumes "complex (parseBash src) = None" "argv \<in> set (commands (parseBash src))"
  shows "\<not> isWrapper (arg0 argv) Bash \<and> arg0 argv \<notin> set BASH_KEYWORDS \<and> \<not> assigns (arg0 argv)
    \<and> \<not> isScript (arg0 argv) \<and> \<not> gitRenames argv
    \<and> \<not> (commandName (arg0 argv) = js ''find'' \<and> list_ex (\<lambda>w. w \<in> set FIND_EXEC) argv)"
proof -
  have "bash_why argv = None"
    using assms by (auto simp: parseBash_def Let_def first_why_None)
  then show ?thesis
    by (auto simp: bash_why_def Let_def isWrapper_def split: if_splits)
qed

theorem parseBash_plain_heads_example:
  "\<not> isWrapper (arg0 [js ''git'', js ''push'']) Bash"
proof -
  have "complex (parseBash (js ''ls; git push'')) = None"
    "[js ''git'', js ''push''] \<in> set (commands (parseBash (js ''ls; git push'')))"
    by code_simp+
  then show ?thesis using parseBash_plain_heads by blast
qed

subsection \<open>Unquoted substitutions and groupings are never missed\<close>

definition bash_quoting :: "cu \<Rightarrow> bool" where
  "bash_quoting c \<longleftrightarrow> c = cSQ \<or> c = cDQ \<or> c = cBSL \<or> c = ch CHR ''#''"

definition bash_grouping :: "cu \<Rightarrow> bool" where
  "bash_grouping c \<longleftrightarrow> c = cBT \<or> one_of c ''(){}''"

lemma bash_target_plain:
  "bash_target_loop out st r = (out', st', r') \<Longrightarrow> \<forall>c \<in> set r. \<not> bash_quoting c \<Longrightarrow>
   \<exists>w. r = w @ r' \<and> out' = out @ w"
proof (induction out st r rule: bash_target_loop.induct)
  case (1 out st)
  then show ?case by simp
next
  case (2 out st c r)
  have c: "c \<noteq> cSQ" "c \<noteq> cDQ" "c \<noteq> cBSL" using "2.prems"(2) by (auto simp: bash_quoting_def)
  show ?case
  proof (cases "is_space c \<or> one_of c '';&|<>()''")
    case True
    with "2.prems"(1) show ?thesis by auto
  next
    case False
    with c "2.prems" "2.IH"(3) show ?thesis by (fastforce simp: Let_def)
  qed
qed

lemma bash_target_grouping:
  assumes "bash_target st r = (to, st', r')" "\<forall>c \<in> set r. \<not> bash_quoting c"
    "\<forall>c \<in> set to. \<not> bash_grouping c" "\<forall>c \<in> set r'. \<not> bash_grouping c"
  shows "\<forall>c \<in> set r. \<not> bash_grouping c"
proof -
  let ?blank = "\<lambda>c. c = cSP \<or> c = cTAB"
  have r: "r = takeWhile ?blank r @ dropWhile ?blank r" by simp
  have sub: "set (dropWhile ?blank r) \<subseteq> set r" using set_dropWhileD by fast
  obtain w where w: "dropWhile ?blank r = w @ r'" "to = w"
    using bash_target_plain [OF assms(1)[unfolded bash_target_def]] assms(2) sub by auto
  have "\<not> bash_grouping c" if "c \<in> set (takeWhile ?blank r)" for c
    using set_takeWhileD [OF that] by (auto simp: bash_grouping_def one_of_simps)
  moreover have "\<not> bash_grouping c" if "c \<in> set (dropWhile ?blank r)" for c
    using that w assms(3,4) by auto
  moreover have "set r = set (takeWhile ?blank r) \<union> set (dropWhile ?blank r)"
    by (metis set_append takeWhile_dropWhile_id)
  ultimately show ?thesis by blast
qed

lemma dev_null_plain: "\<forall>c \<in> set (js ''/dev/null''). \<not> bash_grouping c"
  by (simp add: js_simps bash_grouping_def one_of_simps)

lemma dup_plain: "all_digits to \<or> to = js ''-'' \<Longrightarrow> \<forall>c \<in> set to. \<not> bash_grouping c"
  by (auto simp: all_digits_def list_all_iff is_digit_def bash_grouping_def one_of_simps js_simps)

lemma bash_redirect_grouping:
  assumes "bash_redirect st c r = (st', r')" "clean_st st'"
    "\<forall>c \<in> set r. \<not> bash_quoting c" "\<forall>c \<in> set r'. \<not> bash_grouping c"
  shows "\<forall>c \<in> set r. \<not> bash_grouping c"
proof -
  define op where "op = c # takeWhile (\<lambda>d. one_of d ''<>&|'') (take 2 r)"
  define n where "n = length op - 1"
  obtain st1 st2 :: bash_st and to where t: "bash_target st1 (drop n r) = (to, st2, r')"
    and to: "all_digits to \<or> to = js ''-'' \<or> to = js ''/dev/null''"
    using assms(1,2) unfolding bash_redirect_def Let_def op_def [symmetric] n_def [symmetric]
    by (auto split: if_splits prod.splits dest: bash_target_clean)
  have "\<forall>c \<in> set (drop n r). \<not> bash_grouping c"
    by (rule bash_target_grouping [OF t])
      (use assms(3,4) to dev_null_plain dup_plain [of to] in \<open>auto dest: in_set_dropD\<close>)
  moreover have "take n r = takeWhile (\<lambda>d. one_of d ''<>&|'') (take 2 r)"
  proof -
    have "n \<le> 2"
      using length_takeWhile_le [of "\<lambda>d. one_of d ''<>&|''" "take 2 r"] by (simp add: n_def op_def)
    then have "take n (take 2 r) = take n r" by (simp add: min_absorb1)
    moreover have "n = length (takeWhile (\<lambda>d. one_of d ''<>&|'') (take 2 r))"
      by (simp add: n_def op_def)
    then have "takeWhile (\<lambda>d. one_of d ''<>&|'') (take 2 r) = take n (take 2 r)"
      using takeWhile_eq_take by metis
    ultimately show ?thesis by simp
  qed
  then have "\<forall>c \<in> set (take n r). \<not> bash_grouping c"
    by (auto simp: bash_grouping_def one_of_simps dest!: set_takeWhileD)
  ultimately show ?thesis by (metis Un_iff append_take_drop_id set_append)
qed

lemma bash_step_amp:
  "bash_step st (ch CHR ''&'') r =
     (if next_is r (ch CHR ''&'') then (bash_end st, tl r)
      else if next_is r (ch CHR ''>'') then
        (case bash_target (bash_flush st) (if next_is (tl r) (ch CHR ''>'') then drop 2 r else tl r) of
           (to, st1, r1) \<Rightarrow> (mark_if (to \<noteq> js ''/dev/null'') (js ''a redirection to a file'') st1, r1))
      else (bash_end st, r))"
  by (simp add: bash_step_def)

lemma bash_step_pipe:
  "bash_step st (ch CHR ''|'') r =
     (bash_end st, if next_is r (ch CHR ''|'') \<or> next_is r (ch CHR ''&'') then tl r else r)"
  by (simp add: bash_step_def)

lemma bash_grouping_iff: "bash_grouping c \<longleftrightarrow> c \<in> {96, 40, 41, 123, 125}"
  by (auto simp: bash_grouping_def one_of_simps)

lemma not_grouping [simp]:
  "\<not> bash_grouping 38" "\<not> bash_grouping 62" "\<not> bash_grouping 60" "\<not> bash_grouping 124"
  "\<not> bash_grouping 9" "\<not> bash_grouping 10" "\<not> bash_grouping 13" "\<not> bash_grouping 32"
  "\<not> bash_grouping 36" "\<not> bash_grouping 59"
  by (simp_all add: bash_grouping_iff)

lemma grouping_tl:
  "\<forall>c \<in> set (tl r). \<not> bash_grouping c \<Longrightarrow> next_is r d \<Longrightarrow> \<not> bash_grouping d \<Longrightarrow>
   \<forall>c \<in> set r. \<not> bash_grouping c"
  by (cases r) (auto simp: next_is_def)

lemma bash_amp_grouping:
  assumes "bash_step st (ch CHR ''&'') r = (st', r')" "clean_st st'"
    "\<forall>c \<in> set r. \<not> bash_quoting c" "\<forall>c \<in> set r'. \<not> bash_grouping c"
  shows "\<forall>c \<in> set r. \<not> bash_grouping c"
proof (cases "next_is r (ch CHR ''>'') \<and> \<not> next_is r (ch CHR ''&'')")
  case False
  then have "r' = r \<or> (r' = tl r \<and> next_is r (ch CHR ''&''))"
    using assms(1) unfolding bash_step_amp by (auto split: if_splits)
  then show ?thesis
    using assms(4) by (elim disjE conjE) (simp, (rule grouping_tl, simp, assumption, simp))
next
  case True
  define q where "q = (if next_is (tl r) (ch CHR ''>'') then drop 2 r else tl r)"
  have tl: "\<forall>c \<in> set q. \<not> bash_grouping c \<Longrightarrow> \<forall>c \<in> set (tl r). \<not> bash_grouping c"
    using grouping_tl [of "tl r" "ch CHR ''>''"]
    by (auto simp: q_def drop_Suc numeral_2_eq_2 split: if_splits)
  have "set q \<subseteq> set r"
    unfolding q_def using set_mono_suffix [OF suffix_tl [of r]] set_drop_subset [of 2 r] by auto
  then have nq: "\<forall>c \<in> set q. \<not> bash_quoting c" using assms(3) by blast
  obtain to st1 where t: "bash_target (bash_flush st) q = (to, st1, r')" "to = js ''/dev/null''"
    using assms(1,2) True unfolding bash_step_amp q_def [symmetric]
    by (auto split: prod.splits if_splits)
  have "\<forall>c \<in> set q. \<not> bash_grouping c"
    by (rule bash_target_grouping [OF t(1) nq]) (use t(2) dev_null_plain assms(4) in auto)
  then have "\<forall>c \<in> set (tl r). \<not> bash_grouping c" by (rule tl)
  then show ?thesis by (rule grouping_tl [where d = 62]) (use True in simp_all)
qed

lemma bash_step_grouping:
  assumes "bash_step st c r = (st', r')" "clean_st st'"
    "\<forall>c \<in> set (c # r). \<not> bash_quoting c" "\<forall>c \<in> set r'. \<not> bash_grouping c"
  shows "\<forall>c \<in> set (c # r). \<not> bash_grouping c"
proof -
  have c: "\<not> bash_quoting c" using assms(3) by simp
  consider (amp) "c = ch CHR ''&''" | (redir) "c = ch CHR ''<'' \<or> c = ch CHR ''>''"
    | (marked) "bash_grouping c" | (pipe) "c = ch CHR ''|''"
    | (single) "c = cSP \<or> c = cTAB \<or> c = cCR \<or> c = cNL \<or> c = ch CHR ''$'' \<or> c = ch CHR '';''"
    | (plain) "c \<notin> set bash_special"
    using c unfolding bash_special_def bash_quoting_def bash_grouping_def by (auto simp: one_of_simps)
  then show ?thesis
  proof cases
    case amp
    then have "\<forall>c \<in> set r. \<not> bash_grouping c"
      using assms by (intro bash_amp_grouping [of st r st' r']) auto
    with amp show ?thesis by simp
  next
    case redir
    then have "\<forall>c \<in> set r. \<not> bash_grouping c"
      using assms by (intro bash_redirect_grouping [of st c r st' r']) (simp_all add: bash_step_redirect)
    with redir show ?thesis by auto
  next
    case marked
    then have "\<not> clean_st (fst (bash_step st c r))"
      unfolding bash_grouping_iff
      by (elim insertE emptyE) (auto simp: bash_step_def dest: bash_end_clean)
    with assms(1,2) show ?thesis by simp
  next
    case pipe
    from assms(1) have "r' = r \<or> (r' = tl r \<and> (next_is r (ch CHR ''|'') \<or> next_is r (ch CHR ''&'')))"
      unfolding pipe bash_step_pipe by (simp split: if_splits)
    then have "\<forall>c \<in> set r. \<not> bash_grouping c"
      using assms(4) by (elim disjE conjE) (simp, (rule grouping_tl, simp, assumption, simp)+)
    with pipe show ?thesis by simp
  next
    case single
    then have "snd (bash_step st c r) = r" by (elim disjE) (simp_all add: bash_step_def)
    with assms(1,4) single show ?thesis by auto
  next
    case plain
    then have "\<not> bash_grouping c" by (auto simp: bash_special_def bash_grouping_iff)
    with plain assms(1,4) show ?thesis by (simp add: bash_step_plain)
  qed
qed

lemma bash_run_grouping:
  "clean_st (bash_run st s) \<Longrightarrow> \<forall>c \<in> set s. \<not> bash_quoting c \<Longrightarrow> \<forall>c \<in> set s. \<not> bash_grouping c"
proof (induction st s rule: bash_run.induct)
  case (1 st)
  then show ?case by simp
next
  case (2 st c r)
  obtain st' r' where s: "bash_step st c r = (st', r')" by force
  have run: "clean_st (bash_run st' r')" using "2.prems"(1) s by simp
  have "set r' \<subseteq> set r" using bash_step_suffix [OF s] by (rule set_mono_suffix)
  then have "\<forall>c \<in> set r'. \<not> bash_grouping c"
    using "2.IH" [OF s [symmetric] run] "2.prems"(2) by auto
  then show ?case
    using bash_step_grouping [OF s bash.run_clean [OF run] "2.prems"(2)] by blast
qed

text \<open>
  In a line without quotes, backslashes and comments, every backtick, parenthesis and brace
  makes the line complex: a substitution, subshell, group or brace expansion cannot pass as a
  line that was read word by word.
\<close>

theorem parseBash_finds_grouping:
  assumes "complex (parseBash src) = None" "\<forall>c \<in> set src. \<not> bash_quoting c"
  shows "\<forall>c \<in> set src. \<not> bash_grouping c"
proof -
  have "clean_st (bash_end (bash_run bash_start src))"
    using assms(1) by (simp add: parseBash_def Let_def clean_st_def)
  then have "clean_st (bash_run bash_start src)" by (rule bash_end_clean)
  then show ?thesis using assms(2) by (rule bash_run_grouping)
qed

theorem parseBash_finds_grouping_example:
  "list_all (\<lambda>c. \<not> bash_grouping c) (js ''make 2>&1 &> /dev/null; ls'')"
proof -
  have "complex (parseBash (js ''make 2>&1 &> /dev/null; ls'')) = None" by code_simp
  moreover have "\<forall>c \<in> set (js ''make 2>&1 &> /dev/null; ls''). \<not> bash_quoting c" by code_simp
  ultimately show ?thesis unfolding list_all_iff by (rule parseBash_finds_grouping)
qed

end
