(* ===== verification/ShellPower.thy ===== *)
theory ShellPower
  imports ShellParse
begin

text \<open>
  The PowerShell reader (\<open>parsePowerShell\<close> of
  \<open>packages/core/src/permissions/shell-parse.ts\<close>), on the state \<open>line_st\<close> it shares with the
  bash reader: quoting with doubled quotes and backtick escapes, stream redirections, the call
  operator, script blocks, type expressions and splatting.
\<close>

section \<open>The reader\<close>

type_synonym ps_st = line_st

definition ps_flush :: "ps_st \<Rightarrow> ps_st" where
  "ps_flush st =
     (case st_cur st of
        None \<Rightarrow> st
      | Some w \<Rightarrow> st\<lparr>st_words := st_words st @ [w], st_cur := None\<rparr>)"

definition ps_end :: "ps_st \<Rightarrow> ps_st" where
  "ps_end st =
     (let st1 = ps_flush st;
          st2 = (if st_words st1 \<noteq> [] then st1\<lparr>st_commands := st_commands st1 @ [st_words st1]\<rparr> else st1)
      in st2\<lparr>st_words := []\<rparr>)"

function ps_target_loop :: "jstring \<Rightarrow> ps_st \<Rightarrow> jstring \<Rightarrow> jstring \<times> ps_st \<times> jstring" where
  "ps_target_loop out st [] = (out, st, [])"
| "ps_target_loop out st (c # r) =
     (if is_space c \<or> one_of c '';&|<>(){}'' then (out, st, c # r)
      else if c = cSQ \<or> c = cDQ then
        (if c \<in> set r then ps_target_loop (out @ before c r) st (after c r)
         else (out @ r, mark (js ''an unterminated quote'') st, []))
      else ps_target_loop (out @ [c]) st r)"
  by pat_completeness auto
termination
  by (relation "measure (\<lambda>(out, st, r). length r)") (auto simp: less_Suc_eq_le length_after_le)

definition ps_target :: "ps_st \<Rightarrow> jstring \<Rightarrow> jstring \<times> ps_st \<times> jstring" where
  "ps_target st r = ps_target_loop [] st (dropWhile (\<lambda>c. c \<noteq> cNL \<and> is_space c) r)"

text \<open>Inside single quotes a doubled quote is one quote.\<close>

fun ps_squote :: "jstring \<Rightarrow> jstring \<Rightarrow> jstring \<times> bool \<times> jstring" where
  "ps_squote s [] = (s, False, [])"
| "ps_squote s (c # r) =
     (if c = cSQ then (if next_is r cSQ then ps_squote (s @ [cSQ]) (tl r) else (s, True, r))
      else ps_squote (s @ [c]) r)"

definition ps_var_start :: "cu \<Rightarrow> bool" where
  "ps_var_start c \<longleftrightarrow> is_wordch c \<or> one_of c ''{(?^$:''"

fun ps_dquote :: "jstring \<Rightarrow> ps_st \<Rightarrow> jstring \<Rightarrow> jstring \<times> bool \<times> ps_st \<times> jstring" where
  "ps_dquote s st [] = (s, False, st, [])"
| "ps_dquote s st (d # r) =
     (if d = cDQ then (if next_is r cDQ then ps_dquote (s @ [cDQ]) st (tl r) else (s, True, st, r))
      else if d = cBT \<and> r \<noteq> [] then
        ps_dquote (s @ [hd r])
          (mark_if (one_of (hd r) ''u0abefnrtv'') (js ''an escape sequence in a string'') st) (tl r)
      else
        ps_dquote (s @ [d])
          (mark_if (d = ch CHR ''$'' \<and> r \<noteq> [] \<and> ps_var_start (hd r)) (js ''an expansion'') st) r)"

definition ps_redirect :: "ps_st \<Rightarrow> cu \<Rightarrow> jstring \<Rightarrow> ps_st \<times> jstring" where
  "ps_redirect st c r =
     (if c = ch CHR ''<'' then (mark (js ''an input redirection'') st, r)
      else
        let st1 = ps_flush
              (case st_cur st of
                 Some [d] \<Rightarrow> if is_digit d \<or> d = ch CHR ''*'' then st\<lparr>st_cur := None\<rparr> else st
               | _ \<Rightarrow> st);
            op = c # takeWhile (\<lambda>d. one_of d ''>&'') (take 2 r);
            r1 = drop (length op - 1) r
        in (case ps_target st1 r1 of (to, st2, r2) \<Rightarrow>
             let dup = ends_with op (js ''&'') \<and> (case to of [d] \<Rightarrow> is_digit d | _ \<Rightarrow> False)
             in (mark_if (\<not> dup \<and> to_lower to \<noteq> js ''$null'') (js ''a redirection to a file'') st2, r2)))"

definition ps_step :: "ps_st \<Rightarrow> cu \<Rightarrow> jstring \<Rightarrow> ps_st \<times> jstring" where
  "ps_step st c r =
     (if c \<noteq> cNL \<and> c \<noteq> cCR \<and> is_space c then (ps_flush st, r)
      else if c = cNL \<or> c = cCR then (ps_end st, r)
      else if c = cBT then
        (case r of
           [] \<Rightarrow> (add [cBT] st, [])
         | d # r' \<Rightarrow>
             if d = cNL \<or> d = cCR then (st, if d = cCR \<and> next_is r' cNL then tl r' else r')
             else (add [d] st, r'))
      else if c = cSQ then
        (case ps_squote [] r of (s, closed, r1) \<Rightarrow>
           (add s (mark_if (\<not> closed) (js ''an unterminated quote'') st), r1))
      else if c = cDQ then
        (case ps_dquote [] st r of (s, closed, st1, r1) \<Rightarrow>
           (add s (mark_if (\<not> closed) (js ''an unterminated quote'') st1), r1))
      else if c = ch CHR ''$'' then
        (add [c]
           (mark_if (r \<noteq> [] \<and> ps_var_start (hd r))
              (if next_is r (ch CHR ''('') then js ''a subexpression'' else js ''a variable'') st), r)
      else if c = ch CHR ''@'' \<and> st_cur st = None \<and> r \<noteq> [] \<and>
          (one_of (hd r) ''({_'' \<or> hd r = cSQ \<or> hd r = cDQ \<or> is_alpha (hd r)) then
        (add [c]
           (mark (if next_is r cDQ \<or> next_is r cSQ then js ''a here-string''
                  else js ''an array, hashtable or splatting'') st), r)
      else if c = ch CHR ''#'' \<and> st_cur st = None then (st, dropWhile (\<lambda>d. d \<noteq> cNL) r)
      else if c = ch CHR ''<'' \<and> next_is r (ch CHR ''#'') then (mark (js ''a block comment'') st, tl r)
      else if c = ch CHR '';'' then (ps_end st, r)
      else if c = ch CHR ''|'' then (ps_end st, if next_is r (ch CHR ''|'') then tl r else r)
      else if c = ch CHR ''&'' then
        (if next_is r (ch CHR ''&'') then (ps_end st, tl r)
         else (ps_flush
                 (mark (if st_cur st = None \<and> st_words st = [] then js ''the call operator &''
                        else js ''a background job'') st), r))
      else if c = ch CHR ''>'' \<or> (c = ch CHR ''<'' \<and> st_cur st = None) then ps_redirect st c r
      else if c = ch CHR ''('' \<or> c = ch CHR '')'' then
        (ps_end (mark (js ''a subexpression or grouping'') st), r)
      else if c = ch CHR ''{'' \<or> c = ch CHR ''}'' then (add [c] (mark (js ''a script block'') st), r)
      else if c = ch CHR ''['' \<and> st_cur st = None then
        (add [c] (mark (js ''a type expression'') st), r)
      else (add [c] st, r))"

text \<open>Every helper leaves a suffix of the text it was given, so the loop ends.\<close>

lemma ps_target_loop_suffix: "ps_target_loop out st r = (out', st', r') \<Longrightarrow> suffix r' r"
proof (induction out st r rule: ps_target_loop.induct)
  case (1 out st)
  then show ?case by simp
next
  case (2 out st c r)
  have "suffix x (after c r) \<Longrightarrow> suffix x (c # r)" for x
    by (rule suffix_ConsI [OF suffix_order.trans [OF _ suffix_after]])
  with 2 show ?case
    by (auto split: if_splits intro: suffix_ConsI)
qed

lemma ps_target_suffix: "ps_target st r = (out, st', r') \<Longrightarrow> suffix r' r"
  unfolding ps_target_def
  using ps_target_loop_suffix suffix_dropWhile suffix_order.trans by blast

lemma suffix_Cons_tl: "suffix x (tl r) \<Longrightarrow> suffix x (d # r)"
  by (rule suffix_ConsI [OF suffix_order.trans [OF _ suffix_tl]])

lemma ps_squote_suffix: "ps_squote s r = (s', cl, r') \<Longrightarrow> suffix r' r"
  by (induction s r rule: ps_squote.induct)
    (auto split: if_splits intro: suffix_ConsI suffix_Cons_tl)

lemma ps_dquote_suffix: "ps_dquote s st r = (s', cl, st', r') \<Longrightarrow> suffix r' r"
  by (induction s st r rule: ps_dquote.induct)
    (auto split: if_splits intro: suffix_ConsI suffix_Cons_tl)

lemma ps_redirect_suffix: "ps_redirect st c r = (st', r') \<Longrightarrow> suffix r' r"
  unfolding ps_redirect_def Let_def
  by (auto split: if_splits prod.splits dest!: ps_target_suffix
      intro: suffix_order.trans [OF _ suffix_drop])

lemma ps_step_suffix: "ps_step st c r = (st', r') \<Longrightarrow> suffix r' r"
  unfolding ps_step_def
  by (auto split: if_splits prod.splits list.splits simp: suffix_tl
      dest!: ps_squote_suffix ps_dquote_suffix ps_redirect_suffix
      intro: suffix_Cons_tl suffix_ConsI suffix_dropWhile)

lemma ps_step_shorter: "ps_step st c r = (st', r') \<Longrightarrow> length r' < length (c # r)"
  using ps_step_suffix suffix_length_le by fastforce

function ps_run :: "ps_st \<Rightarrow> jstring \<Rightarrow> ps_st" where
  "ps_run st [] = st"
| "ps_run st (c # r) = (case ps_step st c r of (st', r') \<Rightarrow> ps_run st' r')"
  by pat_completeness auto
termination
  by (relation "measure (\<lambda>(st, r). length r)") (auto split: prod.splits dest: ps_step_shorter)

definition ps_why :: "jstring list \<Rightarrow> jstring option" where
  "ps_why argv =
     (let first = arg0 argv in
      if js ''--%'' \<in> set argv then Some (js ''the stop-parsing token --%'')
      else if starts_with first (js ''$'') then Some (js ''a variable or assignment'')
      else if commandName first \<in> set POWERSHELL_WRAPPERS
        then Some (quoted first @ js '', which runs other commands'')
      else if isScript first then Some (js ''the script '' @ quoted first)
      else if gitRenames argv then Some (js ''git settings that change what git runs'')
      else None)"

definition ps_start :: ps_st where
  "ps_start = \<lparr>st_commands = [], st_words = [], st_cur = None, st_complex = None\<rparr>"

definition parsePowerShell :: "jstring \<Rightarrow> parsed_line" where
  "parsePowerShell line =
     (let src = plainPunctuation line;
          st = ps_end (ps_run ps_start src)
      in \<lparr>commands = st_commands st,
          complex = first_reason (st_complex st)
            (first_reason (first_why ps_why (st_commands st)) (odd_why src))\<rparr>)"

section \<open>The PowerShell reader keeps the reader contract\<close>

lemma ps_flush_clean [simp]: "clean_st (ps_flush st) = clean_st st"
  by (simp add: ps_flush_def split: option.split)

lemma ps_end_clean [simp]: "clean_st (ps_end st) = clean_st st"
  by (simp add: ps_end_def Let_def)

lemma ps_target_loop_clean:
  "ps_target_loop out st r = (out', st', r') \<Longrightarrow> clean_st st' \<Longrightarrow> clean_st st"
  by (induction out st r rule: ps_target_loop.induct) (auto split: if_splits)

lemma ps_dquote_clean:
  "ps_dquote s st r = (s', cl, st', r') \<Longrightarrow> clean_st st' \<Longrightarrow> clean_st st"
  by (induction s st r rule: ps_dquote.induct) (auto split: if_splits)

definition drop_stream :: "ps_st \<Rightarrow> ps_st" where
  "drop_stream st =
     (case st_cur st of
        Some [d] \<Rightarrow> if is_digit d \<or> d = ch CHR ''*'' then st\<lparr>st_cur := None\<rparr> else st
      | _ \<Rightarrow> st)"

lemma drop_stream_clean [simp]: "clean_st (drop_stream st) = clean_st st"
  by (simp add: drop_stream_def split: option.split list.split)

lemma ps_redirect_eq:
  "ps_redirect st 62 r =
     (let op = 62 # takeWhile (\<lambda>d. one_of d ''>&'') (take 2 r)
      in case ps_target (ps_flush (drop_stream st)) (drop (length op - 1) r) of (to, st2, r2) \<Rightarrow>
           (mark_if (\<not> (ends_with op (js ''&'') \<and> (case to of [d] \<Rightarrow> is_digit d | _ \<Rightarrow> False))
               \<and> to_lower to \<noteq> js ''$null'') (js ''a redirection to a file'') st2, r2))"
  by (simp add: ps_redirect_def drop_stream_def Let_def)

lemma ps_redirect_less: "ps_redirect st 60 r = (mark (js ''an input redirection'') st, r)"
  by (simp add: ps_redirect_def)

lemma ps_redirect_clean:
  assumes "ps_redirect st 62 r = (st', r')" "clean_st st'"
  shows "clean_st st"
  using assms unfolding ps_redirect_eq Let_def ps_target_def
  by (auto split: prod.splits dest: ps_target_loop_clean)

text \<open>The characters with a branch of their own, and the equations of the step on each.\<close>

definition ps_special :: "cu \<Rightarrow> bool" where
  "ps_special c \<longleftrightarrow> is_space c \<or> c \<in> {96, 39, 34, 36, 64, 35, 60, 59, 124, 38, 62, 40, 41, 123, 125, 91}"

lemma ps_step_plain: "\<not> ps_special c \<Longrightarrow> ps_step st c r = (add [c] st, r)"
  by (auto simp: ps_special_def ps_step_def is_space_def)

lemma ps_step_space: "c \<noteq> cNL \<Longrightarrow> c \<noteq> cCR \<Longrightarrow> is_space c \<Longrightarrow> ps_step st c r = (ps_flush st, r)"
  by (simp add: ps_step_def)

lemma ps_step_eqs [reader_simps]:
  "ps_step st cNL r = (ps_end st, r)"
  "ps_step st cCR r = (ps_end st, r)"
  "ps_step st 96 (d # r') =
     (if d = cNL \<or> d = cCR then (st, if d = cCR \<and> next_is r' cNL then tl r' else r')
      else (add [d] st, r'))"
  "ps_step st 39 r =
     (case ps_squote [] r of (s, closed, r1) \<Rightarrow>
        (add s (mark_if (\<not> closed) (js ''an unterminated quote'') st), r1))"
  "ps_step st 34 r =
     (case ps_dquote [] st r of (s, closed, st1, r1) \<Rightarrow>
        (add s (mark_if (\<not> closed) (js ''an unterminated quote'') st1), r1))"
  "ps_step st 36 r =
     (add [36]
        (mark_if (r \<noteq> [] \<and> ps_var_start (hd r))
           (if next_is r 40 then js ''a subexpression'' else js ''a variable'') st), r)"
  "ps_step st 59 r = (ps_end st, r)"
  "ps_step st 124 r = (ps_end st, if next_is r 124 then tl r else r)"
  "ps_step st 38 r =
     (if next_is r 38 then (ps_end st, tl r)
      else (ps_flush
              (mark (if st_cur st = None \<and> st_words st = [] then js ''the call operator &''
                     else js ''a background job'') st), r))"
  "ps_step st 62 r = ps_redirect st 62 r"
  "ps_step st 60 r =
     (if next_is r 35 then (mark (js ''a block comment'') st, tl r)
      else if st_cur st = None then ps_redirect st 60 r else (add [60] st, r))"
  "ps_step st 35 r =
     (if st_cur st = None then (st, dropWhile (\<lambda>d. d \<noteq> cNL) r) else (add [35] st, r))"
  "ps_step st 64 r =
     (if st_cur st = None \<and> r \<noteq> [] \<and> (one_of (hd r) ''({_'' \<or> hd r = cSQ \<or> hd r = cDQ \<or> is_alpha (hd r))
      then (add [64] (mark (if next_is r cDQ \<or> next_is r cSQ then js ''a here-string''
                            else js ''an array, hashtable or splatting'') st), r)
      else (add [64] st, r))"
  "ps_step st 40 r = (ps_end (mark (js ''a subexpression or grouping'') st), r)"
  "ps_step st 41 r = (ps_end (mark (js ''a subexpression or grouping'') st), r)"
  "ps_step st 123 r = (add [123] (mark (js ''a script block'') st), r)"
  "ps_step st 125 r = (add [125] (mark (js ''a script block'') st), r)"
  "ps_step st 91 r =
     (if st_cur st = None then (add [91] (mark (js ''a type expression'') st), r) else (add [91] st, r))"
  by (simp_all add: ps_step_def is_space_def)

lemma ps_step_tick_end [reader_simps]: "ps_step st 96 [] = (add [96] st, [])"
  by (simp add: ps_step_def is_space_def)

lemma ps_cases:
  obtains (space) "c \<noteq> cNL" "c \<noteq> cCR" "is_space c" | (nl) "c = cNL" | (cr) "c = cCR"
  | (tick) "c = 96" | (sq) "c = 39" | (dq) "c = 34" | (dollar) "c = 36" | (semi) "c = 59"
  | (pipe) "c = 124" | (amp) "c = 38" | (gt) "c = 62" | (lt) "c = 60" | (hash) "c = 35"
  | (at) "c = 64" | (group) "c = 40 \<or> c = 41 \<or> c = 123 \<or> c = 125" | (bracket) "c = 91"
  | (plain) "\<not> ps_special c"
  unfolding ps_special_def by blast

lemma ps_step_clean:
  assumes "ps_step st c r = (st', r')" "clean_st st'"
  shows "clean_st st"
proof (cases c rule: ps_cases)
  case tick
  with assms show ?thesis by (cases r) (auto simp: reader_simps split: if_splits)
next
  case dq
  with assms show ?thesis by (auto simp: reader_simps split: prod.splits dest: ps_dquote_clean)
next
  case gt
  with assms show ?thesis by (auto simp: reader_simps dest: ps_redirect_clean)
qed (use assms in \<open>auto simp: reader_simps ps_step_space ps_step_plain ps_redirect_less
    split: prod.splits if_splits\<close>)

subsection \<open>A clean step sees nothing beyond the line break\<close>

definition ps_ok_end :: "jstring \<Rightarrow> bool" where
  "ps_ok_end a \<longleftrightarrow> no_escape_end cBT a \<and> no_escape_end cCR a"

lemma ps_ok_end_suffix: "ps_ok_end a \<Longrightarrow> suffix r a \<Longrightarrow> ps_ok_end r"
  by (auto simp: ps_ok_end_def intro: no_escape_end_suffix)

lemma ps_target_loop_local:
  "ps_target_loop out st r = (out', st', r') \<Longrightarrow> clean_st st' \<Longrightarrow>
   ps_target_loop out st (r @ cNL # b) = (out', st', r' @ cNL # b)"
proof (induction out st r rule: ps_target_loop.induct)
  case (1 out st)
  then show ?case by (simp add: is_space_def)
next
  case (2 out st c r)
  then show ?case by (auto simp: before_append after_append split: if_splits)
qed

lemma ps_target_local:
  assumes "ps_target st r = (out', st', r')" "clean_st st'"
  shows "ps_target st (r @ cNL # b) = (out', st', r' @ cNL # b)"
proof -
  have "dropWhile (\<lambda>c. c \<noteq> cNL \<and> is_space c) (r @ cNL # b)
      = dropWhile (\<lambda>c. c \<noteq> cNL \<and> is_space c) r @ cNL # b"
    by (induction r) auto
  with assms show ?thesis by (simp add: ps_target_def ps_target_loop_local)
qed

lemma ps_squote_local:
  "ps_squote s r = (s', True, r') \<Longrightarrow> ps_squote s (r @ cNL # b) = (s', True, r' @ cNL # b)"
  by (induction s r rule: ps_squote.induct)
    (auto simp: next_is_append_NL tl_append_ne next_is_ne split: if_splits)

lemma ps_dquote_local:
  "ps_dquote s st r = (s', True, st', r') \<Longrightarrow> ps_dquote s st (r @ cNL # b) = (s', True, st', r' @ cNL # b)"
proof (induction s st r rule: ps_dquote.induct)
  case (1 s st)
  then show ?case by simp
next
  case (2 s st d r)
  have "r = [] \<Longrightarrow> d = cDQ" using "2.prems" by (auto split: if_splits)
  then show ?case
    using 2 by (cases "r = []")
      (auto simp: next_is_append_NL tl_append_ne next_is_ne split: if_splits, simp add: next_is_def)
qed

lemma ps_redirect_local:
  assumes "ps_redirect st 62 r = (st', r')" "clean_st st'"
  shows "ps_redirect st 62 (r @ cNL # b) = (st', r' @ cNL # b)"
proof -
  define op where "op = (62::cu) # takeWhile (\<lambda>d. one_of d ''>&'') (take 2 r)"
  have op: "62 # takeWhile (\<lambda>d. one_of d ''>&'') (take 2 (r @ cNL # b)) = op"
    unfolding op_def by (subst redirect_op_local) (simp_all add: one_of_simps)
  have rest: "drop (length op - 1) (r @ cNL # b) = drop (length op - 1) r @ cNL # b"
    unfolding op_def using redirect_rest_local by simp
  obtain to st2 r2 where t: "ps_target (ps_flush (drop_stream st)) (drop (length op - 1) r) = (to, st2, r2)"
    by (metis prod_cases3)
  have "clean_st st2"
    using assms t unfolding ps_redirect_eq Let_def op_def [symmetric] by auto
  then have t': "ps_target (ps_flush (drop_stream st)) (drop (length op - 1) r @ cNL # b)
      = (to, st2, r2 @ cNL # b)"
    by (rule ps_target_local [OF t])
  show ?thesis
    using assms(1) t t' unfolding ps_redirect_eq Let_def op op_def [symmetric] rest by auto
qed

lemma class_NL: "\<not> ps_var_start cNL" "\<not> is_alpha cNL" "\<not> one_of cNL ''({_''"
  by (simp_all add: ps_var_start_def one_of_simps is_wordch_def is_alnum_def is_alpha_def is_upper_def
      is_lower_def is_digit_def)

lemma ps_step_local:
  assumes "ps_step st c r = (st', r')" "clean_st st'" "ps_ok_end (c # r)"
  shows "ps_step st c (r @ cNL # b) = (st', r' @ cNL # b)"
proof (cases c rule: ps_cases)
  case tick
  then obtain d q where r: "r = d # q" "d = cCR \<Longrightarrow> q \<noteq> []"
    using assms(3) by (cases r) (auto simp: ps_ok_end_def no_escape_end_def split: if_splits)
  show ?thesis
  proof (cases q)
    case Nil
    with tick r assms(1) show ?thesis by (auto simp: reader_simps split: if_splits)
  next
    case (Cons e q')
    with tick r assms(1) show ?thesis
      by (auto simp: reader_simps next_is_def split: if_splits)
  qed
next
  case sq
  with assms(1,2) show ?thesis
    by (auto simp: reader_simps ps_squote_local split: prod.splits)
next
  case dq
  obtain s closed st1 r1 where d: "ps_dquote [] st r = (s, closed, st1, r1)"
    by (metis prod_cases4)
  with dq assms(1,2) have closed by (auto simp: reader_simps)
  with d have "ps_dquote [] st (r @ cNL # b) = (s, True, st1, r1 @ cNL # b)"
    using ps_dquote_local by auto
  with dq d \<open>closed\<close> assms(1) show ?thesis by (auto simp: reader_simps)
next
  case gt
  with assms(1,2) show ?thesis using ps_redirect_local by (simp add: reader_simps)
next
  case lt
  with assms(1,2) have "st_cur st \<noteq> None \<and> \<not> next_is r 35"
    by (auto simp: reader_simps ps_redirect_less split: if_splits)
  with lt assms(1) show ?thesis by (auto simp: reader_simps next_is_append_NL)
next
  case dollar
  with assms(1) show ?thesis by (cases r) (auto simp: reader_simps next_is_def class_NL)
next
  case at
  with assms(1,2) show ?thesis
    by (cases r) (auto simp: reader_simps next_is_def class_NL split: if_splits)
next
  case pipe
  with assms(1) show ?thesis
    by (cases r) (auto simp: reader_simps next_is_def split: if_splits)
next
  case amp
  with assms(1,2) have "next_is r 38" by (auto simp: reader_simps split: if_splits)
  with amp assms(1) show ?thesis by (cases r) (auto simp: reader_simps next_is_def)
next
  case hash
  with assms(1) show ?thesis by (auto simp: reader_simps dropWhile_to_NL split: if_splits)
qed (use assms(1,2) in \<open>auto simp: reader_simps ps_step_space ps_step_plain split: if_splits\<close>)

subsection \<open>Commands already read are never looked at\<close>

lemma shift_ps_flush: "ps_flush (shift p st) = shift p (ps_flush st)"
  by (simp add: ps_flush_def shift_update split: option.split)

lemma shift_ps_end: "ps_end (shift p st) = shift p (ps_end st)"
  by (simp add: ps_end_def Let_def shift_ps_flush shift_update)

lemma shift_ps_target: "ps_target (shift p st) r = shift_target p (ps_target st r)"
proof -
  have "ps_target_loop out (shift p st) r = shift_target p (ps_target_loop out st r)" for out r
    by (induction out st r rule: ps_target_loop.induct) (auto simp: shift_mark shift_target_def)
  then show ?thesis by (simp add: ps_target_def)
qed

lemma shift_ps_dquote:
  "ps_dquote s (shift p st) r = map_prod id (map_prod id (map_prod (shift p) id)) (ps_dquote s st r)"
  by (induction s st r rule: ps_dquote.induct) (simp_all add: shift_mark)

lemma shift_drop_stream: "drop_stream (shift p st) = shift p (drop_stream st)"
  by (simp add: drop_stream_def shift_update split: option.split list.split)

lemma shift_ps_redirect: "ps_redirect (shift p st) 62 r = map_prod (shift p) id (ps_redirect st 62 r)"
  by (simp add: ps_redirect_eq Let_def shift_drop_stream shift_ps_flush shift_ps_target shift_target_def
      shift_mark split: prod.split)

lemma shift_ps_step: "ps_step (shift p st) c r = map_prod (shift p) id (ps_step st c r)"
proof (cases c rule: ps_cases)
  case tick
  then show ?thesis by (cases r) (simp_all add: reader_simps shift_mark)
next
  case dq
  then show ?thesis by (simp add: reader_simps shift_ps_dquote shift_mark split: prod.split)
qed (auto simp: reader_simps ps_step_space ps_step_plain ps_redirect_less shift_ps_redirect shift_mark
    shift_ps_flush shift_ps_end split: prod.split)

lemma ps_end_resets: "clean_st (ps_end st) \<Longrightarrow> ps_end st = shift (st_commands (ps_end st)) ps_start"
proof -
  assume "clean_st (ps_end st)"
  then have "st_complex (ps_end st) = None" by (simp add: clean_st_def del: ps_end_clean)
  moreover have "st_cur (ps_end st) = None"
    by (auto simp: ps_end_def ps_flush_def Let_def split: option.split)
  moreover have "st_words (ps_end st) = []" by (simp add: ps_end_def Let_def)
  ultimately show ?thesis by (simp add: shift_def ps_start_def)
qed

interpretation power: command_reader ps_step ps_run ps_end clean_st ps_ok_end
  ps_start "\<lambda>_. True" st_commands shift
proof
  show "ps_run st [] = st" for st by simp
  show "ps_run st (c # r) = (case ps_step st c r of (st', r') \<Rightarrow> ps_run st' r')" for st c r by simp
  show "ps_step st cNL r = (ps_end st, r)" for st r by (simp add: reader_simps)
qed (use ps_step_suffix ps_step_clean ps_step_local ps_ok_end_suffix shift_ps_step
      shift_ps_end ps_end_resets in \<open>auto\<close>)

section \<open>Properties of parsePowerShell\<close>

lemma plain_cu_NL [simp]: "plain_cu cNL = cNL"
  by (simp add: plain_cu_def)

text \<open>
  The same independence for PowerShell: after a readable line that does not end in a
  backtick or a carriage return, the commands and the verdict of the rest are what the rest
  reads as on its own.
\<close>

theorem parsePowerShell_lines:
  assumes "complex (parsePowerShell a) = None" "ps_ok_end a"
  shows "parsePowerShell (a @ cNL # b) =
    \<lparr>commands = commands (parsePowerShell a) @ commands (parsePowerShell b),
     complex = complex (parsePowerShell b)\<rparr>"
proof -
  let ?p = plainPunctuation
  let ?e = "\<lambda>s. ps_end (ps_run ps_start s)"
  have p: "?p (a @ cNL # b) = ?p a @ cNL # ?p b" by (simp add: plainPunctuation_def)
  have ok: "ps_ok_end (?p a)"
    using assms(2)
    by (auto simp: ps_ok_end_def no_escape_end_def plainPunctuation_def last_map plain_cu_def
        split: if_splits)
  have "st_complex (?e (?p a)) = None" and why: "first_why ps_why (st_commands (?e (?p a))) = None"
    and odd: "odd_why (?p a) = None"
    using assms(1) by (simp_all add: parsePowerShell_def Let_def)
  then have "?e (?p a @ cNL # ?p b) = shift (st_commands (?e (?p a))) (?e (?p b))"
    using power.read_lines [OF _ ok] by (simp add: clean_st_def)
  with why odd p show ?thesis
    by (simp add: parsePowerShell_def Let_def first_why_append odd_why_append odd_why_NL)
qed

theorem parsePowerShell_lines_example:
  "parsePowerShell (js ''git status'' @ cNL # js ''del x'') =
    \<lparr>commands = [[js ''git'', js ''status''], [js ''del'', js ''x'']], complex = None\<rparr>"
proof -
  have "complex (parsePowerShell (js ''git status'')) = None" by code_simp
  moreover have "ps_ok_end (js ''git status'')"
    by (simp add: ps_ok_end_def no_escape_end_def js_simps)
  ultimately have "parsePowerShell (js ''git status'' @ cNL # js ''del x'') =
     \<lparr>commands = commands (parsePowerShell (js ''git status'')) @ commands (parsePowerShell (js ''del x'')),
      complex = complex (parsePowerShell (js ''del x''))\<rparr>"
    by (rule parsePowerShell_lines)
  also have "\<dots> = \<lparr>commands = [[js ''git'', js ''status''], [js ''del'', js ''x'']], complex = None\<rparr>"
    by code_simp
  finally show ?thesis .
qed

end
