(* ===== verification/NodePath.thy ===== *)
theory NodePath
  imports Prelude
begin

text \<open>
  What the sources use of Node's standard library about paths and files: the POSIX flavour of
  \<open>node:path\<close> (\<open>normalize\<close>, \<open>resolve\<close>, \<open>join\<close>, \<open>dirname\<close>, \<open>basename\<close>, \<open>isAbsolute\<close>), and the
  file system as the record \<open>host\<close> of what its calls answer. A call that throws is \<open>None\<close>.
\<close>

section \<open>Path strings\<close>

abbreviation cSLASH :: cu where "cSLASH \<equiv> 47"

abbreviation dot :: jstring where "dot \<equiv> [46]"
abbreviation dotdot :: jstring where "dotdot \<equiv> [46, 46]"

definition parts :: "jstring \<Rightarrow> jstring list" where
  "parts p = filter (\<lambda>s. s \<noteq> []) (split_by (\<lambda>c. c = cSLASH) p)"

definition isAbsolute :: "jstring \<Rightarrow> bool" where
  "isAbsolute p \<longleftrightarrow> (case p of c # _ \<Rightarrow> c = cSLASH | [] \<Rightarrow> False)"

text \<open>
  \<open>normalizeString\<close>: the components without empty ones and \<open>.\<close>, each \<open>..\<close> taking back the
  component before it. The accumulator holds the components kept, last one first.
\<close>

fun norm_parts :: "bool \<Rightarrow> jstring list \<Rightarrow> jstring list \<Rightarrow> jstring list" where
  "norm_parts up acc [] = rev acc"
| "norm_parts up acc (s # ss) =
     (if s = [] \<or> s = dot then norm_parts up acc ss
      else if s = dotdot then
        (case acc of
           [] \<Rightarrow> norm_parts up (if up then [dotdot] else []) ss
         | t # ts \<Rightarrow>
             if t = dotdot then norm_parts up (if up then dotdot # acc else acc) ss
             else norm_parts up ts ss)
      else norm_parts up (s # acc) ss)"

definition slashed :: "jstring list \<Rightarrow> jstring" where
  "slashed ss = join_with [cSLASH] ss"

definition path_normalize :: "jstring \<Rightarrow> jstring" where
  "path_normalize p =
     (if p = [] then dot
      else
        let abs = isAbsolute p;
            trailing = (last p = cSLASH);
            body = slashed (norm_parts (\<not> abs) [] (parts p))
        in if body = [] then (if abs then [cSLASH] else if trailing then [46, 47] else dot)
           else (if abs then [cSLASH] else []) @ body @ (if trailing then [cSLASH] else []))"

definition path_join :: "jstring list \<Rightarrow> jstring" where
  "path_join ps =
     (let joined = join_with [cSLASH] (filter (\<lambda>p. p \<noteq> []) ps)
      in if joined = [] then dot else path_normalize joined)"

text \<open>\<open>path.resolve(a, b)\<close> in the process directory \<open>pwd\<close>; absolute when \<open>pwd\<close> is.\<close>

definition path_resolve :: "jstring \<Rightarrow> jstring \<Rightarrow> jstring \<Rightarrow> jstring" where
  "path_resolve pwd a b =
     (let full = (if isAbsolute b then b
                  else if isAbsolute a then a @ [cSLASH] @ b
                  else pwd @ [cSLASH] @ a @ [cSLASH] @ b)
      in cSLASH # slashed (norm_parts False [] (parts full)))"

definition strip_slashes :: "jstring \<Rightarrow> jstring" where
  "strip_slashes p = rev (dropWhile (\<lambda>c. c = cSLASH) (rev p))"

definition path_basename :: "jstring \<Rightarrow> jstring" where
  "path_basename p = last (split_by (\<lambda>c. c = cSLASH) (strip_slashes p))"

text \<open>
  \<open>dirname\<close>: everything before the slash of the last component (a path of the form \<open>//a\<close> keeps
  both slashes).
\<close>

definition path_dirname :: "jstring \<Rightarrow> jstring" where
  "path_dirname p =
     (if p = [] then dot
      else
        let root = isAbsolute p;
            body = strip_slashes (tl p);
            upto = rev (dropWhile (\<lambda>c. c \<noteq> cSLASH) (rev body))
        in if upto = [] then (if root then [cSLASH] else dot)
           else if root \<and> length upto = 1 then [cSLASH, cSLASH]
           else take (length upto) p)"

section \<open>The file system\<close>

text \<open>What \<open>lstat\<close> says of a path: no such entry, another error, or the entry's kind.\<close>

datatype lstat = Missing | Failed | Entry bool bool \<comment> \<open>symbolic link, directory\<close>

record host =
  h_pwd :: jstring
  h_home :: jstring
  h_realpath :: "jstring \<Rightarrow> jstring option"
  h_exists :: "jstring \<Rightarrow> bool"
  h_isFile :: "jstring \<Rightarrow> bool option"
  h_isDirectory :: "jstring \<Rightarrow> bool option"
  h_lstat :: "jstring \<Rightarrow> lstat"
  h_read :: "jstring \<Rightarrow> jstring option"

section \<open>Lemmas\<close>

lemma parts_no_slash: "s \<in> set (parts p) \<Longrightarrow> s \<noteq> [] \<and> cSLASH \<notin> set s"
  using split_by_no_sep [of s "\<lambda>c. c = cSLASH" p cSLASH] by (auto simp: parts_def)

lemma parts_append_slash: "parts (a @ cSLASH # b) = parts a @ parts b"
  by (simp add: parts_def split_by_append_sep)

lemma parts_slash [simp]: "parts (cSLASH # b) = parts b"
  by (simp add: parts_def)

lemma parts_Nil [simp]: "parts [] = []"
  by (simp add: parts_def)

lemma parts_plain:
  assumes "w \<noteq> []" "cSLASH \<notin> set w"
  shows "parts w = [w]"
proof -
  have "split_by (\<lambda>c. c = cSLASH) w = [w]"
    by (rule split_by_plain) (use assms(2) in auto)
  with assms(1) show ?thesis by (simp only: parts_def) simp
qed

lemma parts_slashed:
  "\<forall>s \<in> set ss. s \<noteq> [] \<and> cSLASH \<notin> set s \<Longrightarrow> parts (slashed ss) = ss"
proof (induction ss rule: induct_list012)
  case 1
  then show ?case by (simp add: slashed_def parts_def)
next
  case (2 x)
  then show ?case by (simp add: slashed_def parts_plain)
next
  case (3 x y zs)
  then show ?case by (simp add: slashed_def parts_append_slash parts_plain)
qed

lemma norm_parts_sub:
  "s \<in> set (norm_parts up acc ss) \<Longrightarrow> s \<in> set acc \<or> s \<in> set ss \<or> (up \<and> s = dotdot)"
  by (induction up acc ss rule: norm_parts.induct) (auto split: if_splits list.splits)

lemma norm_parts_no_dot:
  "s \<in> set (norm_parts up acc ss) \<Longrightarrow> s \<notin> set acc \<Longrightarrow> s \<noteq> [] \<and> s \<noteq> dot"
  by (induction up acc ss rule: norm_parts.induct) (auto split: if_splits list.splits)

lemma norm_parts_absolute_no_dotdot:
  "dotdot \<notin> set acc \<Longrightarrow> dotdot \<notin> set (norm_parts False acc ss)"
  by (induction False acc ss rule: norm_parts.induct) (auto split: if_splits list.splits)

lemma norm_parts_append_plain:
  "\<forall>s \<in> set ss. s \<noteq> [] \<and> s \<noteq> dot \<and> s \<noteq> dotdot \<Longrightarrow> norm_parts up acc ss = rev acc @ ss"
  by (induction ss arbitrary: acc) auto

text \<open>A component that no later \<open>..\<close> takes back is still there after normalizing.\<close>

lemma norm_parts_keeps_acc:
  "dotdot \<notin> set ss \<Longrightarrow> set acc \<subseteq> set (norm_parts up acc ss)"
proof (induction ss arbitrary: acc)
  case Nil
  then show ?case by simp
next
  case (Cons s ss)
  have "set (s # acc) \<subseteq> set (norm_parts up (s # acc) ss)" "set acc \<subseteq> set (norm_parts up acc ss)"
    using Cons.IH [of "s # acc"] Cons.IH [of acc] Cons.prems by auto
  with Cons.prems show ?case by auto
qed

lemma norm_parts_keeps:
  assumes "dotdot \<notin> set post" "x \<noteq> []" "x \<noteq> dot" "x \<noteq> dotdot"
  shows "x \<in> set (norm_parts up acc (pre @ x # post))"
proof (induction up acc pre rule: norm_parts.induct)
  case (1 up acc)
  have "set (x # acc) \<subseteq> set (norm_parts up (x # acc) post)"
    using assms(1) by (rule norm_parts_keeps_acc)
  with assms show ?case by simp
next
  case (2 up acc s ss)
  then show ?case by (auto split: list.splits)
qed

lemma path_resolve_parts:
  "parts (path_resolve pwd a b) =
     norm_parts False [] (parts (if isAbsolute b then b else if isAbsolute a then a @ [cSLASH] @ b
       else pwd @ [cSLASH] @ a @ [cSLASH] @ b))"
  unfolding path_resolve_def Let_def parts_slash
  by (rule parts_slashed) (auto dest!: norm_parts_sub dest: parts_no_slash)

lemma path_resolve_absolute: "isAbsolute (path_resolve pwd a b)"
  by (simp add: path_resolve_def Let_def isAbsolute_def)

lemma path_resolve_clean:
  "s \<in> set (parts (path_resolve pwd a b)) \<Longrightarrow> s \<noteq> [] \<and> s \<noteq> dot \<and> s \<noteq> dotdot"
  unfolding path_resolve_parts
  using norm_parts_no_dot [of s False "[]"] norm_parts_absolute_no_dotdot [of "[]"] by auto

end
