(* ===== verification/Protected.thy ===== *)
theory Protected
  imports NodePath
begin

text \<open>
  The protected paths of the file tools (\<open>packages/core/src/permissions/protected.ts\<close> and the
  checks of \<open>path-containment.ts\<close> and \<open>extension-data.ts\<close>) on a POSIX host: how a tool's path is
  resolved, the names it can go by, Git's directories and hook paths read from the file system,
  and the decision \<open>protectedWritePath\<close>. The branches for \<open>win32\<close> are not modelled: there
  \<open>localShare\<close> answers undefined, so every path has names. File system answers come from \<open>host\<close>.
\<close>

section \<open>Paths of the file tools\<close>

record protect_options =
  o_amiraHome :: "jstring option"
  o_homedir :: "jstring option"
  o_env :: "jstring \<Rightarrow> jstring option"

definition home_of :: "host \<Rightarrow> protect_options \<Rightarrow> jstring" where
  "home_of h opts = (case o_homedir opts of Some d \<Rightarrow> d | None \<Rightarrow> h_home h)"

text \<open>A leading \<open>~\<close> alone or before a separator; the rest of the path.\<close>

definition tilde_rest :: "jstring \<Rightarrow> jstring option" where
  "tilde_rest p =
     (case p of
        c # r \<Rightarrow> if c = ch CHR ''~'' \<and> (r = [] \<or> hd r = cSLASH \<or> hd r = cBSL) then Some r else None
      | [] \<Rightarrow> None)"

definition toolPath :: "host \<Rightarrow> jstring \<Rightarrow> jstring \<Rightarrow> protect_options \<Rightarrow> jstring" where
  "toolPath h cwd p opts =
     (let expanded = (case tilde_rest p of Some r \<Rightarrow> path_join [home_of h opts, r] | None \<Rightarrow> p)
      in if isAbsolute expanded then path_resolve (h_pwd h) expanded []
         else path_resolve (h_pwd h) cwd expanded)"

definition comparable :: "jstring \<Rightarrow> jstring" where
  "comparable p = to_lower p"

text \<open>The deepest existing ancestor resolved through links, 64 levels up at most.\<close>

fun real_up :: "host \<Rightarrow> nat \<Rightarrow> jstring \<Rightarrow> jstring list \<Rightarrow> jstring option" where
  "real_up h 0 dir rest = None"
| "real_up h (Suc n) dir rest =
     (case h_realpath h dir of
        Some real \<Rightarrow> Some (if rest \<noteq> [] then path_join (real # rest) else real)
      | None \<Rightarrow>
          let parent = path_dirname dir
          in if parent = dir then None else real_up h n parent (path_basename dir # rest))"

definition realName :: "host \<Rightarrow> jstring \<Rightarrow> jstring option" where
  "realName h p = real_up h 64 p []"

definition segments :: "jstring \<Rightarrow> jstring list" where
  "segments p = filter (\<lambda>s. s \<noteq> []) (split_by path_sep p)"

definition is_prefix :: "jstring list \<Rightarrow> jstring list \<Rightarrow> bool" where
  "is_prefix p c \<longleftrightarrow> length p \<le> length c \<and> take (length p) c = p"

definition within :: "jstring \<Rightarrow> jstring \<Rightarrow> bool" where
  "within child parent \<longleftrightarrow> parent \<noteq> [] \<and> is_prefix (segments parent) (segments child)"

definition pathNames :: "host \<Rightarrow> jstring \<Rightarrow> jstring list" where
  "pathNames h p =
     map comparable (filter (\<lambda>x. x \<noteq> [])
       (p # (case realName h p of Some r \<Rightarrow> [r] | None \<Rightarrow> [])))"

section \<open>Git's directories\<close>

text \<open>
  \<open>/^gitdir:\s*(.+?)\s*$/m\<close>: the value after the first \<open>gitdir:\<close> at the start of a line that
  matches. White space before it may run over lines; when nothing else follows, the group takes
  the last blank that is no line end.
\<close>

definition gitdir_value :: "jstring \<Rightarrow> jstring option" where
  "gitdir_value r =
     (case dropWhile is_space r of
        [] \<Rightarrow> (case filter (\<lambda>c. \<not> line_end c) r of [] \<Rightarrow> None | xs \<Rightarrow> Some [last xs])
      | s \<Rightarrow> Some (trim_end (takeWhile (\<lambda>c. \<not> line_end c) s)))"

fun gitdir_scan :: "bool \<Rightarrow> jstring \<Rightarrow> jstring option" where
  "gitdir_scan at_start [] = None"
| "gitdir_scan at_start (c # r) =
     (let here = (if at_start \<and> starts_with (c # r) (js ''gitdir:'')
                  then gitdir_value (drop 7 (c # r)) else None)
      in case here of Some v \<Rightarrow> Some v | None \<Rightarrow> gitdir_scan (line_end c) r)"

definition git_dir_at :: "host \<Rightarrow> jstring \<Rightarrow> jstring list" where
  "git_dir_at h dir =
     (let dotGit = path_join [dir, js ''.git''];
          gitDir = (if h_isFile h dotGit = Some True then
                      (case h_read h dotGit of
                         Some text \<Rightarrow>
                           (case gitdir_scan True text of
                              Some m \<Rightarrow> path_resolve (h_pwd h) dir m | None \<Rightarrow> dotGit)
                       | None \<Rightarrow> dotGit)
                    else dotGit);
          common = (case h_read h (path_join [gitDir, js ''commondir'']) of
                      Some text \<Rightarrow> (let t = trim text in if t \<noteq> [] then [path_resolve (h_pwd h) gitDir t] else [])
                    | None \<Rightarrow> [])
      in gitDir # common)"

fun git_up :: "host \<Rightarrow> nat \<Rightarrow> jstring \<Rightarrow> jstring list" where
  "git_up h 0 dir = []"
| "git_up h (Suc n) dir =
     (if h_exists h (path_join [dir, js ''.git'']) then git_dir_at h dir
      else let parent = path_dirname dir in if parent = dir then [] else git_up h n parent)"

definition gitDirs :: "host \<Rightarrow> jstring \<Rightarrow> jstring list" where
  "gitDirs h cwd = git_up h 128 (path_resolve (h_pwd h) cwd [])"

fun tree_up :: "host \<Rightarrow> nat \<Rightarrow> jstring \<Rightarrow> jstring option" where
  "tree_up h 0 dir = None"
| "tree_up h (Suc n) dir =
     (if h_exists h (path_join [dir, js ''.git'']) then Some dir
      else let parent = path_dirname dir in if parent = dir then None else tree_up h n parent)"

definition workTree :: "host \<Rightarrow> jstring \<Rightarrow> jstring option" where
  "workTree h cwd = tree_up h 128 (path_resolve (h_pwd h) cwd [])"

section \<open>core.hooksPath in a Git config file\<close>

text \<open>A Git config value: quoted parts kept whole, a comment outside quotes dropped, escapes read.\<close>

fun config_chars :: "bool \<Rightarrow> jstring \<Rightarrow> jstring" where
  "config_chars quoted [] = []"
| "config_chars quoted (c # r) =
     (if c = cBSL \<and> r \<noteq> [] then
        (if hd r = ch CHR ''n'' then cNL else if hd r = ch CHR ''t'' then cTAB else hd r)
          # config_chars quoted (tl r)
      else if c = cDQ then config_chars (\<not> quoted) r
      else if \<not> quoted \<and> (c = ch CHR ''#'' \<or> c = ch CHR '';'') then []
      else c # config_chars quoted r)"

definition configValue :: "jstring \<Rightarrow> jstring" where
  "configValue raw = trim (config_chars False raw)"

text \<open>A backslash at the end of a line continues it.\<close>

fun join_continued :: "jstring \<Rightarrow> jstring" where
  "join_continued [] = []"
| "join_continued (c # r) =
     (if c = cBSL then
        (case r of
           d # r' \<Rightarrow>
             if d = cNL then join_continued r'
             else if d = cCR then
               (case r' of
                  e # r'' \<Rightarrow> if e = cNL then join_continued r'' else c # join_continued r
                | [] \<Rightarrow> c # join_continued r)
             else c # join_continued r
         | [] \<Rightarrow> [c])
      else c # join_continued r)"

definition section_name_char :: "cu \<Rightarrow> bool" where
  "section_name_char c \<longleftrightarrow> \<not> (c = ch CHR '']'' \<or> is_space c \<or> c = cDQ)"

text \<open>
  The section header \<open>/^\s*\[\s*([^\]\s"]+)[^\]]*\]\s*(.*)$/\<close>: its name and what follows the
  bracket on the line.
\<close>

definition section_header :: "jstring \<Rightarrow> (jstring \<times> jstring) option" where
  "section_header raw =
     (case dropWhile is_space raw of
        c # r \<Rightarrow>
          if c = ch CHR ''['' then
            let r1 = dropWhile is_space r;
                name = takeWhile section_name_char r1;
                r2 = dropWhile (\<lambda>d. d \<noteq> ch CHR '']'') r1;
                body = dropWhile is_space (drop 1 r2)
            in if name \<noteq> [] \<and> r2 \<noteq> [] \<and> list_all (\<lambda>d. \<not> line_end d) body then Some (name, body) else None
          else None
      | [] \<Rightarrow> None)"

text \<open>\<open>/^hookspath\s*=\s*(.*)$/i\<close>.\<close>

definition hookspath_value :: "jstring \<Rightarrow> jstring option" where
  "hookspath_value body =
     (if starts_with (map fold_i body) (js ''hookspath'') then
        (case dropWhile is_space (drop 9 body) of
           c # r \<Rightarrow>
             (let v = dropWhile is_space r
              in if c = ch CHR ''='' \<and> list_all (\<lambda>d. \<not> line_end d) v then Some v else None)
         | [] \<Rightarrow> None)
      else None)"

fun hooks_lines :: "bool \<Rightarrow> jstring list \<Rightarrow> jstring list" where
  "hooks_lines core [] = []"
| "hooks_lines core (raw # rest) =
     (let (core', body) = (case section_header raw of
            Some (name, b) \<Rightarrow> (to_lower name = js ''core'', trim b)
          | None \<Rightarrow> (core, trim raw))
      in if \<not> core' \<or> body = [] then hooks_lines core' rest
         else (case hookspath_value body of Some v \<Rightarrow> [configValue v] | None \<Rightarrow> []) @ hooks_lines core' rest)"

definition hooksPathsIn :: "jstring \<Rightarrow> jstring list" where
  "hooksPathsIn text = filter (\<lambda>v. v \<noteq> []) (hooks_lines False (split_lines (join_continued text)))"

definition readText :: "host \<Rightarrow> jstring \<Rightarrow> jstring" where
  "readText h file = (case h_read h file of Some t \<Rightarrow> t | None \<Rightarrow> [])"

definition nonempty :: "jstring option \<Rightarrow> jstring option" where
  "nonempty v = (case v of Some s \<Rightarrow> if s = [] then None else Some s | None \<Rightarrow> None)"

definition globalGitConfigs :: "host \<Rightarrow> jstring \<Rightarrow> (jstring \<Rightarrow> jstring option) \<Rightarrow> jstring list" where
  "globalGitConfigs h home env =
     (let xdg = (case nonempty (env (js ''XDG_CONFIG_HOME'')) of
                   Some d \<Rightarrow> d | None \<Rightarrow> path_join [home, js ''.config''])
      in [path_join [home, js ''.gitconfig''], path_join [xdg, js ''git'', js ''config'']]
         @ (case nonempty (env (js ''GIT_CONFIG_GLOBAL'')) of
              Some f \<Rightarrow> [path_resolve (h_pwd h) f []] | None \<Rightarrow> []))"

section \<open>The decision\<close>

record protected_match =
  m_path :: jstring
  m_what :: jstring

definition git_what :: "jstring list \<Rightarrow> jstring" where
  "git_what inside =
     (if js ''hooks'' \<in> set inside then js ''Git hooks (.git/hooks)''
      else if inside \<noteq> [] \<and> (last inside = js ''config'' \<or> last inside = js ''config.worktree'')
        then js ''Git config (.git/config)''
      else js ''Git metadata (.git), where hooks and config live'')"

text \<open>What the loop over a path's names compares with.\<close>

record roots =
  r_amiraHomes :: "jstring list"
  r_dataRoots :: "jstring list"
  r_enclosing :: "jstring list"
  r_hasData :: bool
  r_dirs :: "jstring list list"
  r_hooks :: "jstring list list"
  r_configs :: "jstring list list"

definition amira_segments :: "roots \<Rightarrow> jstring \<Rightarrow> jstring list" where
  "amira_segments rs name =
     (case List.find (\<lambda>root. within name root) (r_dataRoots rs @ r_enclosing rs) of
        Some root \<Rightarrow> drop (length (segments root)) (segments name)
      | None \<Rightarrow> segments name)"

definition name_what :: "roots \<Rightarrow> jstring \<Rightarrow> jstring option" where
  "name_what rs name =
     (let segs = segments name in
      if js ''.amira'' \<in> set (amira_segments rs name)
          \<or> (\<not> r_hasData rs \<and> list_ex (within name) (r_amiraHomes rs))
        then Some (js ''Amira'' @ [cSQ] @ js ''s settings, packages and lock files (.amira)'')
      else if js ''.git'' \<in> set segs
        then Some (git_what (drop 1 (dropWhile (\<lambda>s. s \<noteq> js ''.git'') segs)))
      else if segs \<noteq> [] \<and> last segs = js ''.gitmodules'' then Some (js ''Git submodule config (.gitmodules)'')
      else if list_ex (list_ex (within name)) (r_dirs rs)
        then Some (js ''Git metadata, where hooks and config live'')
      else if list_ex (list_ex (within name)) (r_hooks rs) then Some (js ''Git hooks (core.hooksPath)'')
      else if list_ex (\<lambda>g. name \<in> set g) (r_configs rs) then Some (js ''your Git config'')
      else None)"

fun first_what :: "roots \<Rightarrow> jstring list \<Rightarrow> jstring option" where
  "first_what rs [] = None"
| "first_what rs (n # ns) = (case name_what rs n of Some w \<Rightarrow> Some w | None \<Rightarrow> first_what rs ns)"

definition hook_dirs :: "host \<Rightarrow> jstring \<Rightarrow> jstring \<Rightarrow> jstring list \<Rightarrow> jstring list \<Rightarrow> jstring list" where
  "hook_dirs h home cwd dirs gitConfigs =
     (let top = (case workTree h cwd of Some t \<Rightarrow> t | None \<Rightarrow> cwd)
      in concat (map (\<lambda>file. map (\<lambda>hp.
            path_resolve (h_pwd h) top
              (if starts_with hp (js ''~'') then path_join [home, drop 1 hp] else hp))
          (hooksPathsIn (readText h file)))
        (map (\<lambda>d. path_join [d, js ''config'']) dirs @ gitConfigs)))"

definition protected_roots ::
  "host \<Rightarrow> jstring \<Rightarrow> protect_options \<Rightarrow> jstring option \<Rightarrow> roots" where
  "protected_roots h cwd opts dataRoot =
     (let home = home_of h opts;
          cmp = (\<lambda>x. pathNames h (path_resolve (h_pwd h) x []));
          gitConfigs = globalGitConfigs h home (o_env opts);
          dirs = gitDirs h cwd
      in \<lparr>r_amiraHomes = (case nonempty (o_amiraHome opts) of Some a \<Rightarrow> cmp a | None \<Rightarrow> []),
          r_dataRoots = (case dataRoot of Some d \<Rightarrow> cmp d | None \<Rightarrow> []),
          r_enclosing = (case dataRoot of Some d \<Rightarrow> cmp (path_dirname (path_dirname d)) | None \<Rightarrow> []),
          r_hasData = (dataRoot \<noteq> None),
          r_dirs = map cmp dirs,
          r_hooks = map cmp (hook_dirs h home cwd dirs gitConfigs),
          r_configs = map cmp gitConfigs\<rparr>)"

definition protectedWritePath ::
  "host \<Rightarrow> jstring \<Rightarrow> jstring \<Rightarrow> protect_options \<Rightarrow> jstring option \<Rightarrow> protected_match option" where
  "protectedWritePath h cwd p opts dataRoot0 =
     (let dataRoot = nonempty dataRoot0;
          target = toolPath h cwd p opts;
          names = pathNames h target;
          rs = protected_roots h cwd opts dataRoot
      in if dataRoot \<noteq> None \<and> \<not> list_ex (\<lambda>name. list_ex (within name) (r_dataRoots rs)) names
         then Some \<lparr>m_path = target,
            m_what = js ''an extension data path whose protected roots cannot be resolved safely''\<rparr>
         else map_option (\<lambda>w. \<lparr>m_path = target, m_what = w\<rparr>) (first_what rs names))"

definition protectedPath ::
  "host \<Rightarrow> jstring \<Rightarrow> jstring \<Rightarrow> protect_options \<Rightarrow> protected_match option" where
  "protectedPath h cwd p opts = protectedWritePath h cwd p opts None"

section \<open>Containment in an extension's data directory\<close>

text \<open>
  \<open>safeName\<close> on POSIX: no empty or ill-formed name, no control characters, and an absolute
  name normalized.
\<close>

fun well_formed :: "jstring \<Rightarrow> bool" where
  "well_formed [] = True"
| "well_formed (c # r) =
     (if 55296 \<le> c \<and> c \<le> 56319 then
        (case r of d # r' \<Rightarrow> 56320 \<le> d \<and> d \<le> 57343 \<and> well_formed r' | [] \<Rightarrow> False)
      else \<not> (56320 \<le> c \<and> c \<le> 57343) \<and> well_formed r)"

definition safeName :: "jstring \<Rightarrow> bool \<Rightarrow> jstring option" where
  "safeName input absolute =
     (if input = [] \<or> \<not> well_formed input \<or> list_ex (\<lambda>c. (0 \<le> c \<and> c \<le> 31) \<or> c = 127) input then None
      else if \<not> absolute then Some input
      else if \<not> isAbsolute input then None
      else Some (path_normalize input))"

text \<open>The text before each \<open>..\<close> component, where traversal would leave the directory named there.\<close>

fun before_dotdot :: "jstring \<Rightarrow> bool \<Rightarrow> jstring \<Rightarrow> jstring list" where
  "before_dotdot pre at_start [] = []"
| "before_dotdot pre at_start (c # r) =
     (if at_start \<and> c = 46 \<and> r \<noteq> [] \<and> hd r = 46 \<and> (tl r = [] \<or> hd (tl r) = cSLASH) then [pre] else [])
     @ before_dotdot (pre @ [c]) (c = cSLASH) r"

fun safe_prefixes :: "host \<Rightarrow> jstring \<Rightarrow> protect_options \<Rightarrow> jstring list \<Rightarrow> bool option" where
  "safe_prefixes h cwd opts [] = Some True"
| "safe_prefixes h cwd opts (pre # rest) =
     (case h_lstat h (toolPath h cwd (if pre = [] then dot else pre) opts) of
        Entry link dir \<Rightarrow> if link \<or> \<not> dir then Some False else safe_prefixes h cwd opts rest
      | _ \<Rightarrow> None)"

definition safeParents :: "host \<Rightarrow> jstring \<Rightarrow> jstring \<Rightarrow> protect_options \<Rightarrow> bool option" where
  "safeParents h cwd input opts = safe_prefixes h cwd opts (before_dotdot [] True input)"

fun existing_up :: "host \<Rightarrow> bool \<Rightarrow> nat \<Rightarrow> jstring \<Rightarrow> jstring list \<Rightarrow> jstring option" where
  "existing_up h directory 0 current below = None"
| "existing_up h directory (Suc n) current below =
     (case h_lstat h current of
        Failed \<Rightarrow> None
      | Missing \<Rightarrow>
          (let parent = path_dirname current
           in if parent = current then None
              else existing_up h directory n parent (path_basename current # below))
      | Entry _ _ \<Rightarrow>
          (case h_realpath h current of
             None \<Rightarrow> None
           | Some r \<Rightarrow>
               (case safeName r True of
                  None \<Rightarrow> None
                | Some real \<Rightarrow>
                    if (below \<noteq> [] \<or> directory) \<and> h_isDirectory h current \<noteq> Some True then None
                    else Some (if below \<noteq> [] then path_join (real # below) else real))))"

definition existingPrefix :: "host \<Rightarrow> jstring \<Rightarrow> bool \<Rightarrow> jstring option" where
  "existingPrefix h p directory = existing_up h directory 128 p []"

definition containment_within :: "jstring \<Rightarrow> jstring \<Rightarrow> bool" where
  "containment_within child parent \<longleftrightarrow>
     isAbsolute child = isAbsolute parent \<and> is_prefix (parts parent) (parts child)"

record data_owner =
  d_home :: jstring
  d_dataDir :: jstring

datatype containment = Inside | Outside | Unknown

definition ownerRoot :: "host \<Rightarrow> data_owner \<Rightarrow> jstring option" where
  "ownerRoot h ow =
     (case (safeName (d_home ow) True, safeName (d_dataDir ow) True) of
        (Some home, Some dir) \<Rightarrow>
          if path_dirname dir \<noteq> path_join [home, js ''extension-data''] then None
          else (case existingPrefix h home True of
             None \<Rightarrow> None
           | Some realHome \<Rightarrow>
               (case existingPrefix h (path_join [home, js ''extension-data'']) True of
                  None \<Rightarrow> None
                | Some namespace \<Rightarrow>
                    if namespace \<noteq> path_join [realHome, js ''extension-data''] then None
                    else (case existingPrefix h dir True of
                       None \<Rightarrow> None
                     | Some realDir \<Rightarrow>
                         if realDir = path_join [namespace, path_basename dir] then Some realDir else None)))
      | _ \<Rightarrow> None)"

definition extensionDataContainment ::
  "host \<Rightarrow> data_owner \<Rightarrow> jstring \<Rightarrow> jstring \<Rightarrow> protect_options \<Rightarrow> containment" where
  "extensionDataContainment h ow cwd reported opts =
     (case ownerRoot h ow of
        None \<Rightarrow> Unknown
      | Some root \<Rightarrow>
          (case safeName reported False of
             None \<Rightarrow> Unknown
           | Some input \<Rightarrow>
               if safeParents h cwd input opts \<noteq> Some True then Unknown
               else (case safeName (toolPath h cwd reported opts) True of
                  None \<Rightarrow> Unknown
                | Some target \<Rightarrow>
                    (case existingPrefix h target False of
                       None \<Rightarrow> Unknown
                     | Some real \<Rightarrow> if containment_within real root then Inside else Outside))))"

section \<open>Components and names\<close>

lemma is_prefix_iff: "is_prefix p c \<longleftrightarrow> prefix p c"
  by (auto simp: is_prefix_def prefix_def) (metis append_take_drop_id)

lemma join_with_middle:
  "join_with sep (us @ w # vs) =
     (if us = [] then [] else join_with sep us @ sep) @ w @ (if vs = [] then [] else sep @ join_with sep vs)"
proof (induction us)
  case Nil
  then show ?case by (cases vs) auto
next
  case (Cons u us)
  then show ?case by (cases us) auto
qed

lemma parts_occurrence:
  assumes "w \<in> set (parts s)"
  obtains a b where "s = a @ w @ b" "a = [] \<or> (\<exists>a'. a = a' @ [cSLASH])" "b = [] \<or> (\<exists>b'. b = cSLASH # b')"
proof -
  have "w \<in> set (split_by (\<lambda>c. c = cSLASH) s)" using assms by (simp add: parts_def)
  then obtain us vs where "split_by (\<lambda>c. c = cSLASH) s = us @ w # vs" by (meson split_list)
  then have "s = join_with [cSLASH] (us @ w # vs)"
    using join_split_by [of "\<lambda>c. c = cSLASH" cSLASH s] by simp
  then show thesis
    by (intro that [of "if us = [] then [] else join_with [cSLASH] us @ [cSLASH]"
          "if vs = [] then [] else cSLASH # join_with [cSLASH] vs"])
      (auto simp: join_with_middle)
qed

lemma split_by_surrounded:
  assumes "\<forall>c \<in> set w. \<not> p c" "a = [] \<or> (\<exists>a' x. a = a' @ [x] \<and> p x)" "b = [] \<or> (\<exists>x b'. b = x # b' \<and> p x)"
  shows "w \<in> set (split_by p (a @ w @ b))"
proof -
  have wb: "w \<in> set (split_by p (w @ b))"
    using assms(3) split_by_plain [OF assms(1)] by (auto simp: split_by_append_sep)
  show ?thesis
    using assms(2) wb by (auto simp: split_by_append_sep)
qed

lemma lower_slash: "to_lower [cSLASH] = [cSLASH]"
  by (simp add: lower_cu_def is_upper_def)

text \<open>A component of a path is a component of the name it is compared by, in lower case.\<close>

lemma segments_comparable:
  assumes "w \<in> set (parts s)" "\<forall>c \<in> set (to_lower w). \<not> path_sep c" "to_lower w \<noteq> []"
  shows "to_lower w \<in> set (segments (comparable s))"
proof -
  obtain a b where ab: "s = a @ w @ b" "a = [] \<or> (\<exists>a'. a = a' @ [cSLASH])" "b = [] \<or> (\<exists>b'. b = cSLASH # b')"
    using assms(1) by (rule parts_occurrence)
  have "to_lower a = [] \<or> (\<exists>a' x. to_lower a = a' @ [x] \<and> path_sep x)"
    using ab(2) lower_slash by (auto simp: to_lower_append path_sep_def to_lower_def [of "[]"] simp del: to_lower_simps)
  moreover have "to_lower b = [] \<or> (\<exists>x b'. to_lower b = x # b' \<and> path_sep x)"
    using ab(3) lower_slash by (auto simp: path_sep_def)
  ultimately have "to_lower w \<in> set (split_by path_sep (to_lower a @ to_lower w @ to_lower b))"
    using assms(2) by (intro split_by_surrounded) auto
  with ab(1) assms(3) show ?thesis by (simp add: segments_def comparable_def to_lower_append)
qed

lemma git_name_protected: "js ''.git'' \<in> set (segments name) \<Longrightarrow> name_what rs name \<noteq> None"
  by (auto simp: name_what_def Let_def)

lemma first_what_some: "n \<in> set names \<Longrightarrow> name_what rs n \<noteq> None \<Longrightarrow> first_what rs names \<noteq> None"
  by (induction names) (auto split: option.splits)

lemma protected_by_name:
  assumes "n \<in> set (pathNames h (toolPath h cwd p opts))"
    "name_what (protected_roots h cwd opts (nonempty dataRoot)) n \<noteq> None"
  shows "protectedWritePath h cwd p opts dataRoot \<noteq> None"
  using first_what_some [OF assms] by (auto simp: protectedWritePath_def Let_def)

lemma toolPath_absolute: "isAbsolute (toolPath h cwd p opts)"
  by (simp add: toolPath_def Let_def path_resolve_absolute)

lemma own_name: "comparable (toolPath h cwd p opts) \<in> set (pathNames h (toolPath h cwd p opts))"
  using toolPath_absolute [of h cwd p opts] by (auto simp: pathNames_def isAbsolute_def)

lemma toolPath_keeps:
  assumes "parts p = pre @ w # post" "dotdot \<notin> set post" "w \<noteq> []" "w \<noteq> dot" "w \<noteq> dotdot"
    "tilde_rest p = None"
  shows "w \<in> set (parts (toolPath h cwd p opts))"
proof -
  have keep: "w \<in> set (norm_parts False [] (q @ pre @ w # post))" for q
    using norm_parts_keeps [OF assms(2-5), of False "[]" "q @ pre"] by simp
  then show ?thesis
    using assms(1,6) keep [of "[]"] keep [of "parts cwd"] keep [of "parts (h_pwd h) @ parts cwd"]
    by (auto simp: toolPath_def Let_def path_resolve_parts parts_append_slash isAbsolute_def [of "[]"])
qed

text \<open>
  Whatever spelling a tool uses, a path with a component that is \<open>.git\<close> or \<open>.amira\<close> in
  any letter case, and no \<open>..\<close> after it, is protected: the check asks. For \<open>.amira\<close> this is
  when no extension data exemption is in force; nothing exempts \<open>.git\<close>.
\<close>

theorem metadata_component_protected:
  assumes "parts p = pre @ w # post" "dotdot \<notin> set post" "tilde_rest p = None"
    "to_lower w = js ''.git'' \<or> (to_lower w = js ''.amira'' \<and> nonempty dataRoot = None)"
  shows "protectedWritePath h cwd p opts dataRoot \<noteq> None"
proof (rule protected_by_name [OF own_name])
  let ?rs = "protected_roots h cwd opts (nonempty dataRoot)"
  let ?name = "comparable (toolPath h cwd p opts)"
  have "w \<noteq> []" "w \<noteq> dot" "w \<noteq> dotdot"
    using assms(4) by (auto simp: js_simps lower_cu_def is_upper_def)
  then have "w \<in> set (parts (toolPath h cwd p opts))"
    using assms(1-3) by (intro toolPath_keeps)
  then have seg: "to_lower w \<in> set (segments ?name)"
    by (rule segments_comparable) (use assms(4) in \<open>auto simp: js_simps path_sep_def\<close>)
  show "name_what ?rs ?name \<noteq> None"
    using assms(4)
  proof
    assume "to_lower w = js ''.git''"
    with seg show ?thesis by (intro git_name_protected) simp
  next
    assume w: "to_lower w = js ''.amira'' \<and> nonempty dataRoot = None"
    then have "amira_segments ?rs ?name = segments ?name"
      by (simp add: amira_segments_def protected_roots_def Let_def)
    with seg w show ?thesis by (simp add: name_what_def Let_def)
  qed
qed

definition plain_host :: host where
  "plain_host = \<lparr>h_pwd = js ''/home/u/repo'', h_home = js ''/home/u'', h_realpath = Some,
     h_exists = (\<lambda>p. p = js ''/home/u/repo/.git''), h_isFile = (\<lambda>_. Some False),
     h_isDirectory = (\<lambda>_. Some True), h_lstat = (\<lambda>_. Entry False True), h_read = (\<lambda>_. None)\<rparr>"

definition plain_options :: protect_options where
  "plain_options = \<lparr>o_amiraHome = Some (js ''/home/u/.amira''), o_homedir = None, o_env = (\<lambda>_. None)\<rparr>"

theorem metadata_component_protected_example:
  "protectedWritePath plain_host (js ''/home/u/repo'') (js ''src/../.GIT/hooks/x'') plain_options None \<noteq> None"
proof (rule metadata_component_protected)
  show "parts (js ''src/../.GIT/hooks/x'')
      = [js ''src'', js ''..''] @ js ''.GIT'' # [js ''hooks'', js ''x'']"
    by code_simp
  show "dotdot \<notin> set [js ''hooks'', js ''x'']" by (simp add: js_simps)
  show "tilde_rest (js ''src/../.GIT/hooks/x'') = None" by (simp add: tilde_rest_def js_simps)
  show "to_lower (js ''.GIT'') = js ''.git''
      \<or> to_lower (js ''.GIT'') = js ''.amira'' \<and> nonempty None = None"
    by (simp add: js_simps lower_cu_def is_upper_def)
qed

text \<open>
  Links do not help: when the file system resolves a path to a name with a \<open>.git\<close>
  component, the path is protected, however it was spelled.
\<close>

theorem resolved_git_protected:
  assumes "realName h (toolPath h cwd p opts) = Some real" "w \<in> set (parts real)"
    "to_lower w = js ''.git''"
  shows "protectedWritePath h cwd p opts dataRoot \<noteq> None"
proof (rule protected_by_name)
  have "real \<noteq> []" using assms(2) by auto
  then show "comparable real \<in> set (pathNames h (toolPath h cwd p opts))"
    using assms(1) by (simp add: pathNames_def)
  show "name_what (protected_roots h cwd opts (nonempty dataRoot)) (comparable real) \<noteq> None"
    using segments_comparable [OF assms(2)] assms(3)
    by (intro git_name_protected) (simp add: js_simps path_sep_def)
qed

definition linked_host :: host where
  "linked_host = plain_host\<lparr>h_realpath := (\<lambda>p. if p = js ''/home/u/repo/link'' then Some (js ''/home/u/repo/.git'') else None)\<rparr>"

theorem resolved_git_protected_example:
  "protectedWritePath linked_host (js ''/home/u/repo'') (js ''link/config'') plain_options None \<noteq> None"
proof (rule resolved_git_protected)
  show "realName linked_host (toolPath linked_host (js ''/home/u/repo'') (js ''link/config'') plain_options)
      = Some (js ''/home/u/repo/.git/config'')"
    by code_simp
  show "js ''.git'' \<in> set (parts (js ''/home/u/repo/.git/config''))" by code_simp
  show "to_lower (js ''.git'') = js ''.git''" by code_simp
qed

text \<open>
  An extension data root exempts only Amira's own home: a path that is protected for any
  other reason stays protected when a data root is given.
\<close>

theorem data_root_exempts_amira_only:
  assumes "protectedWritePath h cwd p opts None = Some m"
    "m_what m \<noteq> js ''Amira'' @ [cSQ] @ js ''s settings, packages and lock files (.amira)''"
  shows "protectedWritePath h cwd p opts dataRoot \<noteq> None"
proof -
  let ?rs = "protected_roots h cwd opts None" and ?rd = "protected_roots h cwd opts (nonempty dataRoot)"
  let ?names = "pathNames h (toolPath h cwd p opts)"
  have same: "r_dirs ?rd = r_dirs ?rs" "r_hooks ?rd = r_hooks ?rs" "r_configs ?rd = r_configs ?rs"
    by (simp_all add: protected_roots_def Let_def)
  have "first_what ?rs ?names = Some (m_what m)"
    using assms(1) by (auto simp: protectedWritePath_def Let_def nonempty_def)
  moreover have "\<exists>n \<in> set ns. name_what rs n = Some w" if "first_what rs ns = Some w" for rs ns w
    using that by (induction ns) (auto split: option.splits)
  ultimately obtain n where n: "n \<in> set ?names" "name_what ?rs n = Some (m_what m)" by blast
  have "name_what ?rd n \<noteq> None"
    using n(2) assms(2) by (auto simp: name_what_def Let_def same split: if_splits)
  then show ?thesis by (rule protected_by_name [OF n(1)])
qed

theorem data_root_exempts_amira_only_example:
  "protectedWritePath plain_host (js ''/home/u/repo'') (js ''.gitmodules'') plain_options
     (Some (js ''/home/u/repo'')) \<noteq> None"
proof (rule data_root_exempts_amira_only)
  show "protectedWritePath plain_host (js ''/home/u/repo'') (js ''.gitmodules'') plain_options None
     = Some \<lparr>m_path = js ''/home/u/repo/.gitmodules'', m_what = js ''Git submodule config (.gitmodules)''\<rparr>"
    by code_simp
  show "m_what \<lparr>m_path = js ''/home/u/repo/.gitmodules'', m_what = js ''Git submodule config (.gitmodules)''\<rparr>
     \<noteq> js ''Amira'' @ [cSQ] @ js ''s settings, packages and lock files (.amira)''"
    by (simp add: js_simps)
qed

text \<open>A configured hooks directory is read back from the section it was written in.\<close>

definition plain_value :: "jstring \<Rightarrow> bool" where
  "plain_value v \<longleftrightarrow> v \<noteq> [] \<and> (\<forall>c \<in> set v. c \<noteq> cBSL \<and> c \<noteq> cDQ \<and> c \<noteq> ch CHR ''#'' \<and> c \<noteq> ch CHR '';''
     \<and> \<not> is_space c)"

lemma join_continued_plain: "cBSL \<notin> set s \<Longrightarrow> join_continued s = s"
  by (induction s) auto

lemma split_lines_line: "cNL \<notin> set a \<Longrightarrow> cCR \<notin> set a \<Longrightarrow> split_lines (a @ cNL # b) = a # split_lines b"
  by (induction a) auto

lemma config_chars_plain: "plain_value v \<or> v = [] \<Longrightarrow> config_chars False v = v"
  by (induction v) (auto simp: plain_value_def)

lemma trim_plain: "\<forall>c \<in> set v. \<not> is_space c \<Longrightarrow> trim v = v"
proof -
  assume v: "\<forall>c \<in> set v. \<not> is_space c"
  have drop: "dropWhile is_space xs = xs" if "\<forall>c \<in> set xs. \<not> is_space c" for xs
    using that by (cases xs) auto
  show ?thesis using v by (simp add: trim_def trim_start_def trim_end_def drop)
qed

lemma trim_tab_line:
  assumes "\<not> is_space (hd s)" "\<not> is_space (last s)" "s \<noteq> []"
  shows "trim (cTAB # s) = s"
proof -
  have "dropWhile is_space (cTAB # s) = s"
    using assms(1,3) by (cases s) (auto simp: is_space_def)
  moreover have "dropWhile is_space (rev s) = rev s"
    using assms(2,3) by (cases "rev s") (auto simp: hd_rev [symmetric])
  ultimately show ?thesis by (simp add: trim_def trim_start_def trim_end_def)
qed

lemma hookspath_value_plain:
  assumes "plain_value v"
  shows "hookspath_value (js ''hooksPath = '' @ v) = Some v"
proof -
  have "dropWhile is_space v = v" using assms by (cases v) (auto simp: plain_value_def)
  moreover have "\<not> line_end d" if "d \<in> set v" for d
  proof -
    have "\<not> is_space d" using that assms by (simp add: plain_value_def)
    then show ?thesis by (auto simp: line_end_def is_space_def)
  qed
  then have "list_all (\<lambda>d. \<not> line_end d) v" by (simp add: list_all_iff)
  ultimately have "dropWhile is_space v = v" "list_all (\<lambda>d. \<not> line_end d) v" by auto
  then show ?thesis
    by (simp add: hookspath_value_def js_simps starts_with_def fold_i_def is_upper_def is_space_def)
qed

text \<open>
  Round trip with Git's config format: the hooks directory written as
  \<open>hooksPath = v\<close> under \<open>[core]\<close> is the one read back.
\<close>

theorem hooksPathsIn_written:
  assumes "plain_value v"
  shows "hooksPathsIn (js ''[core]'' @ cNL # cTAB # js ''hooksPath = '' @ v @ [cNL]) = [v]"
proof -
  let ?line = "cTAB # js ''hooksPath = '' @ v"
  have v: "v \<noteq> []" "\<forall>c \<in> set v. \<not> is_space c" "cBSL \<notin> set v" "cNL \<notin> set v" "cCR \<notin> set v"
  proof -
    have space: "is_space cNL" "is_space cCR" by (simp_all add: is_space_def)
    show "v \<noteq> []" "\<forall>c \<in> set v. \<not> is_space c" "cBSL \<notin> set v"
      using assms by (auto simp: plain_value_def)
    then show "cNL \<notin> set v" "cCR \<notin> set v" using space by auto
  qed
  have "join_continued (js ''[core]'' @ cNL # ?line @ [cNL]) = js ''[core]'' @ cNL # ?line @ [cNL]"
    by (rule join_continued_plain) (use v in \<open>simp add: js_simps\<close>)
  moreover have "split_lines (js ''[core]'' @ cNL # ?line @ [cNL]) = [js ''[core]'', ?line, []]"
    using v by (simp add: split_lines_line js_simps)
  moreover have "section_header (js ''[core]'') = Some (js ''core'', [])" by code_simp
  moreover have "section_header ?line = None"
    by (simp add: section_header_def js_simps is_space_def)
  moreover have "trim ?line = js ''hooksPath = '' @ v"
    by (rule trim_tab_line) (use v in \<open>auto simp: js_simps is_space_def [of 104]\<close>)
  moreover have "section_header [] = None" "trim [] = []" "to_lower (js ''core'') = js ''core''"
    by code_simp+
  moreover have "configValue v = v"
    using assms v by (simp add: configValue_def config_chars_plain trim_plain)
  ultimately show ?thesis
    using v by (simp add: hooksPathsIn_def hookspath_value_plain [OF assms])
qed

theorem hooksPathsIn_written_example:
  "hooksPathsIn (js ''[core]'' @ cNL # cTAB # js ''hooksPath = '' @ js ''.githooks'' @ [cNL]) = [js ''.githooks'']"
  by (rule hooksPathsIn_written) (simp add: plain_value_def js_simps is_space_def)

end
