(* ===== verification/Permissions.thy ===== *)
theory Permissions
  imports ShellPower Protected
begin

text \<open>
  The permission policy (\<open>packages/core/src/permissions/policy.ts\<close>), the layers of settings it
  is built from (\<open>settings.ts\<close>), and the traits of tools it asks (\<open>tool-traits.ts\<close>,
  \<open>classifyShell\<close> of \<open>shell-tool.ts\<close>). A tool's own methods are represented by what they answer
  during the call.
\<close>

section \<open>Modes and decisions\<close>

datatype mode = Auto | Edits | Plan
datatype decision = Allow | Ask | Deny

definition STRICTNESS :: "mode \<Rightarrow> nat" where
  "STRICTNESS m = (case m of Auto \<Rightarrow> 0 | Edits \<Rightarrow> 1 | Plan \<Rightarrow> 2)"

definition RANK :: "decision \<Rightarrow> nat" where
  "RANK d = (case d of Allow \<Rightarrow> 0 | Ask \<Rightarrow> 1 | Deny \<Rightarrow> 2)"

instantiation mode :: linorder
begin

definition less_eq_mode :: "mode \<Rightarrow> mode \<Rightarrow> bool" where
  "less_eq_mode a b \<longleftrightarrow> STRICTNESS a \<le> STRICTNESS b"

definition less_mode :: "mode \<Rightarrow> mode \<Rightarrow> bool" where
  "less_mode a b \<longleftrightarrow> STRICTNESS a < STRICTNESS b"

instance
proof
  fix x y :: mode
  show "x \<le> y \<Longrightarrow> y \<le> x \<Longrightarrow> x = y"
    by (cases x; cases y) (simp_all add: less_eq_mode_def STRICTNESS_def)
qed (auto simp: less_eq_mode_def less_mode_def)

end

instantiation decision :: linorder
begin

definition less_eq_decision :: "decision \<Rightarrow> decision \<Rightarrow> bool" where
  "less_eq_decision a b \<longleftrightarrow> RANK a \<le> RANK b"

definition less_decision :: "decision \<Rightarrow> decision \<Rightarrow> bool" where
  "less_decision a b \<longleftrightarrow> RANK a < RANK b"

instance
proof
  fix x y :: decision
  show "x \<le> y \<Longrightarrow> y \<le> x \<Longrightarrow> x = y"
    by (cases x; cases y) (simp_all add: less_eq_decision_def RANK_def)
qed (auto simp: less_eq_decision_def less_decision_def)

end

definition stricterMode :: "mode \<Rightarrow> mode \<Rightarrow> mode" where
  "stricterMode a b = (if STRICTNESS b > STRICTNESS a then b else a)"

definition DEFAULT_PERMISSION_MODE :: mode where
  "DEFAULT_PERMISSION_MODE = Auto"

definition PERMISSION_MODES :: "mode list" where
  "PERMISSION_MODES = [Auto, Edits, Plan]"

definition mode_text :: "mode \<Rightarrow> jstring" where
  "mode_text m = (case m of Auto \<Rightarrow> js ''auto'' | Edits \<Rightarrow> js ''edits'' | Plan \<Rightarrow> js ''plan'')"

definition decision_text :: "decision \<Rightarrow> jstring" where
  "decision_text d = (case d of Allow \<Rightarrow> js ''allow'' | Ask \<Rightarrow> js ''ask'' | Deny \<Rightarrow> js ''deny'')"

section \<open>Rules and verdicts\<close>

datatype rule_scope = User | Project

record command_rule =
  r_command :: "jstring list"
  r_decision :: decision
  r_reason :: "jstring option"

record permission_rule = command_rule +
  r_scope :: rule_scope
  r_file :: jstring

datatype cause = CMode | CRule | CComplex | CProtected | CTool

record verdict =
  v_decision :: decision
  v_reason :: jstring
  v_cause :: "cause option"
  v_rule :: "permission_rule option"

definition ALLOW :: verdict where
  "ALLOW = \<lparr>v_decision = Allow, v_reason = [], v_cause = None, v_rule = None\<rparr>"

definition ask_for :: "jstring \<Rightarrow> cause \<Rightarrow> verdict" where
  "ask_for why c = \<lparr>v_decision = Ask, v_reason = why, v_cause = Some c, v_rule = None\<rparr>"

definition deny_for :: "jstring \<Rightarrow> cause \<Rightarrow> verdict" where
  "deny_for why c = \<lparr>v_decision = Deny, v_reason = why, v_cause = Some c, v_rule = None\<rparr>"

definition strictest :: "verdict list \<Rightarrow> verdict" where
  "strictest vs =
     (case vs of
        [] \<Rightarrow> ALLOW
      | v # rest \<Rightarrow> foldl (\<lambda>a b. if RANK (v_decision b) > RANK (v_decision a) then b else a) v rest)"

definition scope_text :: "rule_scope \<Rightarrow> jstring" where
  "scope_text s = (case s of User \<Rightarrow> js ''user'' | Project \<Rightarrow> js ''project'')"

definition ruleLabel :: "permission_rule \<Rightarrow> jstring" where
  "ruleLabel r =
     js ''rule '' @ json_strings (r_command r) @ js '' ('' @ decision_text (r_decision r) @ js '', ''
     @ scope_text (r_scope r) @ js '' settings '' @ r_file r @ js '')''"

definition ruleReason :: "permission_rule \<Rightarrow> jstring" where
  "ruleReason r =
     ruleLabel r @ (case r_reason r of Some w \<Rightarrow> if w = [] then [] else js '': '' @ w | None \<Rightarrow> [])"

text \<open>The words of an ask or deny rule, in order, with other words in between, whatever their case.\<close>

fun words_between :: "jstring list \<Rightarrow> jstring list \<Rightarrow> bool" where
  "words_between [] args = True"
| "words_between (w # ws) args =
     (case dropWhile (\<lambda>a. to_lower a \<noteq> to_lower w) args of
        [] \<Rightarrow> False
      | _ # rest \<Rightarrow> words_between ws rest)"

definition ruleMatches ::
  "'a command_rule_scheme \<Rightarrow> jstring list \<Rightarrow> (jstring \<Rightarrow> jstring) \<Rightarrow> bool" where
  "ruleMatches rule argv canon =
     (case (r_command rule, argv) of
        (name # rest, first # args) \<Rightarrow>
          if canon name \<noteq> canon first then False
          else if r_decision rule = Allow then
            \<not> (list_ex path_sep first \<and> first \<noteq> name) \<and> take (length rest) args = rest
          else words_between rest args
      | _ \<Rightarrow> False)"

section \<open>Words hidden in a complex line\<close>

definition bare :: "jstring \<Rightarrow> jstring" where
  "bare word =
     (let s = dropWhile (\<lambda>c. c = cBT \<or> c = cDQ \<or> c = cSQ \<or> one_of c ''$(){}@&'') word
      in rev (dropWhile (\<lambda>c. c = cBT \<or> c = cDQ \<or> c = cSQ \<or> one_of c ''(){};&'') (rev s)))"

definition bares :: "jstring list \<Rightarrow> jstring list" where
  "bares ws = filter (\<lambda>w. w \<noteq> []) (map bare ws)"

definition opens :: "jstring \<Rightarrow> bool" where
  "opens word \<longleftrightarrow> (case word of c # _ \<Rightarrow> c = cBT \<or> c = ch CHR ''('' \<or> c = ch CHR ''{'' | [] \<Rightarrow> False)"

definition hidden_in :: "shell_kind \<Rightarrow> jstring list \<Rightarrow> jstring list list" where
  "hidden_in shell argv =
     (let wrapped = isWrapper (arg0 argv) shell
      in bares argv #
         map (\<lambda>k. bares (drop k argv))
           (filter (\<lambda>k. wrapped \<or> opens (argv ! k)) [1..<length argv]))"

definition hidden :: "jstring list list \<Rightarrow> shell_kind \<Rightarrow> jstring list list" where
  "hidden cmds shell = filter (\<lambda>argv. argv \<noteq> []) (concat (map (hidden_in shell) cmds))"

definition POWERSHELL_ALIASES :: "(jstring \<times> jstring) list" where
  "POWERSHELL_ALIASES = map (map_prod js js)
    [(''ac'', ''add-content''), (''cat'', ''get-content''), (''cd'', ''set-location''),
     (''chdir'', ''set-location''), (''clc'', ''clear-content''), (''copy'', ''copy-item''),
     (''cp'', ''copy-item''), (''cpi'', ''copy-item''), (''curl'', ''invoke-webrequest''),
     (''del'', ''remove-item''), (''dir'', ''get-childitem''), (''erase'', ''remove-item''),
     (''gc'', ''get-content''), (''gci'', ''get-childitem''), (''irm'', ''invoke-restmethod''),
     (''iwr'', ''invoke-webrequest''), (''kill'', ''stop-process''), (''ls'', ''get-childitem''),
     (''mi'', ''move-item''), (''move'', ''move-item''), (''mv'', ''move-item''),
     (''ni'', ''new-item''), (''rd'', ''remove-item''), (''ren'', ''rename-item''),
     (''ri'', ''remove-item''), (''rm'', ''remove-item''), (''rmdir'', ''remove-item''),
     (''rni'', ''rename-item''), (''sc'', ''set-content''), (''sl'', ''set-location''),
     (''spps'', ''stop-process''), (''type'', ''get-content''), (''wget'', ''invoke-webrequest'')]"

text \<open>
  The lookup also finds the two lower-case names every JavaScript object inherits
  (\<open>constructor\<close>, \<open>__proto__\<close>); their values differ from every string and from each other, so
  comparing canonical names is the same as with the names left alone.
\<close>

definition powershellName :: "jstring \<Rightarrow> jstring" where
  "powershellName word =
     (let name = commandName word
      in case map_of POWERSHELL_ALIASES name of Some c \<Rightarrow> c | None \<Rightarrow> name)"

section \<open>Shell commands against the rules\<close>

definition rule_verdict :: "permission_rule \<Rightarrow> verdict" where
  "rule_verdict r =
     \<lparr>v_decision = r_decision r, v_reason = ruleReason r, v_cause = Some CRule, v_rule = Some r\<rparr>"

definition strongest ::
  "permission_rule list \<Rightarrow> (jstring \<Rightarrow> jstring) \<Rightarrow> bool \<Rightarrow> jstring list \<Rightarrow> verdict" where
  "strongest rules canon restrictOnly argv =
     strictest (map rule_verdict
       (filter (\<lambda>r. (\<not> restrictOnly \<or> r_decision r \<noteq> Allow) \<and> ruleMatches r argv canon) rules))"

definition is_complex :: "parsed_line \<Rightarrow> bool" where
  "is_complex line \<longleftrightarrow> (case complex line of Some w \<Rightarrow> w \<noteq> [] | None \<Rightarrow> False)"

text \<open>The readings only ask and deny rules see.\<close>

definition extra_verdicts :: "permission_rule list \<Rightarrow> parsed_line \<Rightarrow> shell_kind \<Rightarrow> verdict list" where
  "extra_verdicts rules line shell =
     (let hid = (if is_complex line then hidden (commands line) shell else [])
      in map (strongest rules commandName True) hid
         @ (if shell = PowerShell
            then map (strongest rules powershellName True) (commands line @ hid) else []))"

text \<open>What is left to decide when no rule asks or denies.\<close>

definition shell_fallback ::
  "permission_rule list \<Rightarrow> parsed_line \<Rightarrow> mode \<Rightarrow> verdict list \<Rightarrow> verdict" where
  "shell_fallback rules line m decided =
     (if is_complex line \<and> (m \<noteq> Auto \<or> list_ex (\<lambda>r. r_decision r \<noteq> Allow) rules) then
        ask_for (js ''the command has '' @ the (complex line)
          @ js '', so the rules cannot check it word by word'') CComplex
      else if \<not> is_complex line \<and> decided \<noteq> []
          \<and> list_all (\<lambda>v. v_decision v = Allow \<and> v_rule v \<noteq> None) decided then
        (let r = the (v_rule (hd decided))
         in \<lparr>v_decision = Allow, v_reason = ruleReason r, v_cause = Some CRule, v_rule = Some r\<rparr>)
      else if m = Edits then
        ask_for (js ''mode '' @ quoted (js ''edits'') @ js '': shell commands ask first'') CMode
      else ALLOW)"

definition first_denied :: "verdict list \<Rightarrow> verdict \<Rightarrow> verdict" where
  "first_denied all otherwise =
     (case List.find (\<lambda>v. v_decision v = Deny) all of
        Some v \<Rightarrow> v
      | None \<Rightarrow>
          (case List.find (\<lambda>v. v_decision v = Ask) all of Some v \<Rightarrow> v | None \<Rightarrow> otherwise))"

definition shell_verdict ::
  "permission_rule list \<Rightarrow> parsed_line \<Rightarrow> mode \<Rightarrow> shell_kind \<Rightarrow> verdict" where
  "shell_verdict rules line m shell =
     (let decided = map (strongest rules commandName False) (commands line)
      in first_denied (decided @ extra_verdicts rules line shell) (shell_fallback rules line m decided))"

section \<open>Tools\<close>

datatype writes = NoWrites | Writes | WritesPaths

record tool_traits =
  t_readOnly :: "bool option"
  t_writesFiles :: "writes option"
  t_shell :: "shell_kind option"
  t_editor :: "jstring option"
  t_usesMutationHook :: "bool option"
  t_artifactReader :: "bool option"
  t_toolSearch :: "bool option"
  t_interactive :: "bool option"

definition no_traits :: tool_traits where
  "no_traits = \<lparr>t_readOnly = None, t_writesFiles = None, t_shell = None, t_editor = None,
     t_usesMutationHook = None, t_artifactReader = None, t_toolSearch = None, t_interactive = None\<rparr>"

definition NAME_FLOOR :: "(jstring \<times> tool_traits) list" where
  "NAME_FLOOR =
     [(js ''write'', no_traits\<lparr>t_writesFiles := Some WritesPaths\<rparr>),
      (js ''edit'', no_traits\<lparr>t_writesFiles := Some WritesPaths, t_editor := Some (js ''edit'')\<rparr>),
      (js ''apply_patch'', no_traits\<lparr>t_writesFiles := Some WritesPaths, t_editor := Some (js ''apply_patch'')\<rparr>),
      (js ''bash'', no_traits\<lparr>t_shell := Some Bash\<rparr>),
      (js ''powershell'', no_traits\<lparr>t_shell := Some PowerShell\<rparr>),
      (js ''monitor'', no_traits\<lparr>t_shell := Some Bash\<rparr>),
      (js ''ask_user'', no_traits\<lparr>t_interactive := Some True\<rparr>)]"

text \<open>\<open>{ ...a, ...b }\<close>: the fields of \<open>b\<close> over those of \<open>a\<close>.\<close>

definition over :: "'a option \<Rightarrow> 'a option \<Rightarrow> 'a option" where
  "over a b = (case b of Some x \<Rightarrow> Some x | None \<Rightarrow> a)"

definition overlay :: "tool_traits \<Rightarrow> tool_traits \<Rightarrow> tool_traits" where
  "overlay a b =
     \<lparr>t_readOnly = over (t_readOnly a) (t_readOnly b),
      t_writesFiles = over (t_writesFiles a) (t_writesFiles b),
      t_shell = over (t_shell a) (t_shell b),
      t_editor = over (t_editor a) (t_editor b),
      t_usesMutationHook = over (t_usesMutationHook a) (t_usesMutationHook b),
      t_artifactReader = over (t_artifactReader a) (t_artifactReader b),
      t_toolSearch = over (t_toolSearch a) (t_toolSearch b),
      t_interactive = over (t_interactive a) (t_interactive b)\<rparr>"

definition writing :: "writes option \<Rightarrow> bool" where
  "writing w \<longleftrightarrow> w = Some Writes \<or> w = Some WritesPaths"

datatype arg = Text jstring | Other

type_synonym args = "jstring \<Rightarrow> arg option"

text \<open>
  A tool with what its methods answer: \<open>tl_shellKind\<close> is \<open>None\<close> without the method and
  \<open>Some None\<close> when it fails or answers no shell; \<open>tl_report\<close> likewise for \<open>getWrittenPaths\<close>.
\<close>

record tool =
  tl_name :: jstring
  tl_traits :: "tool_traits option"
  tl_shellKind :: "shell_kind option option"
  tl_report :: "arg list option option"

definition toolTraits :: "tool \<Rightarrow> tool_traits option" where
  "toolTraits t =
     (case map_of NAME_FLOOR (tl_name t) of
        None \<Rightarrow> tl_traits t
      | Some floor \<Rightarrow>
          let declared = (case tl_traits t of Some d \<Rightarrow> d | None \<Rightarrow> no_traits);
              o1 = overlay declared floor;
              o2 = (if tl_name t = js ''monitor'' \<and> t_shell declared \<noteq> None
                    then o1\<lparr>t_shell := t_shell declared\<rparr> else o1);
              o3 = (if writing (t_writesFiles floor) \<and> writing (t_writesFiles declared)
                    then o2\<lparr>t_writesFiles := t_writesFiles declared\<rparr> else o2);
              o4 = (if writing (t_writesFiles o3) \<or> t_shell o3 \<noteq> None then o3\<lparr>t_readOnly := None\<rparr> else o3)
          in Some o4)"

text \<open>The file named by a header line of a patch.\<close>

definition patch_header :: "jstring \<Rightarrow> jstring option" where
  "patch_header line = first_some (map (\<lambda>p. after_prefix (js p) line)
     [''*** Add File: '', ''*** Delete File: '', ''*** Update File: '', ''*** Move to: ''])"

definition builtinWrittenPaths :: "jstring \<Rightarrow> args \<Rightarrow> jstring list option" where
  "builtinWrittenPaths name a =
     (if name = js ''write'' \<or> name = js ''edit'' then
        Some (case a (js ''path'') of Some (Text p) \<Rightarrow> if p \<noteq> [] then [p] else [] | _ \<Rightarrow> [])
      else if name \<noteq> js ''apply_patch'' then None
      else case a (js ''patch'') of
          Some (Text patch) \<Rightarrow>
            Some (concat (map (\<lambda>raw. case patch_header (trim raw) of Some f \<Rightarrow> [f] | None \<Rightarrow> [])
              (split_lines patch)))
        | _ \<Rightarrow> Some [])"

definition text_of :: "arg \<Rightarrow> jstring option" where
  "text_of a = (case a of Text s \<Rightarrow> if s = [] then None else Some s | Other \<Rightarrow> None)"

definition writtenPaths :: "tool \<Rightarrow> args \<Rightarrow> jstring list option" where
  "writtenPaths t a =
     (let builtin = builtinWrittenPaths (tl_name t) a
      in case tl_report t of
           None \<Rightarrow> builtin
         | Some None \<Rightarrow> None
         | Some (Some items) \<Rightarrow>
             if list_all (\<lambda>i. text_of i \<noteq> None) items then
               (let reported = map (\<lambda>i. the (text_of i)) items
                in case builtin of
                     None \<Rightarrow> Some reported
                   | Some b \<Rightarrow> Some (dedup (reported @ b)))
             else None)"

text \<open>\<open>classifyShell\<close>: the dialects a call's command may run in; \<open>None\<close> for no shell tool.\<close>

definition classifyShell :: "tool \<Rightarrow> (shell_kind option \<times> shell_kind list) option" where
  "classifyShell t =
     (let declared = (case toolTraits t of Some tr \<Rightarrow> t_shell tr | None \<Rightarrow> None)
      in if declared = None \<and> tl_shellKind t = None then None
         else case tl_shellKind t of
             Some (Some k) \<Rightarrow> Some (Some k, [k])
           | _ \<Rightarrow> Some (None,
               if tl_name t \<noteq> js ''bash'' \<and> tl_name t \<noteq> js ''monitor'' \<and> declared \<noteq> None
               then [the declared] else [Bash, PowerShell]))"

section \<open>The policy\<close>

record permissions =
  p_rules :: "permission_rule list"
  p_warnings :: "jstring list"
  p_mode :: mode
  p_modeSource :: jstring
  p_protect :: protect_options
  p_listeners :: "nat list"

text \<open>Changing the mode, with the calls made to the listeners.\<close>

definition setMode :: "mode \<Rightarrow> jstring \<Rightarrow> permissions \<Rightarrow> permissions \<times> (nat \<times> mode) list" where
  "setMode m source p =
     (if m = p_mode p then (p, [])
      else (p\<lparr>p_mode := m, p_modeSource := source\<rparr>, map (\<lambda>l. (l, m)) (p_listeners p)))"

fun index_of :: "'a \<Rightarrow> 'a list \<Rightarrow> nat" where
  "index_of x [] = 0"
| "index_of x (y # ys) = (if x = y then 0 else Suc (index_of x ys))"

definition cycleMode :: "permissions \<Rightarrow> permissions \<times> (nat \<times> mode) list" where
  "cycleMode p =
     setMode (PERMISSION_MODES ! ((index_of (p_mode p) PERMISSION_MODES + 1) mod length PERMISSION_MODES))
       (js ''this session'') p"

definition onModeChange :: "nat \<Rightarrow> permissions \<Rightarrow> permissions" where
  "onModeChange l p = p\<lparr>p_listeners := p_listeners p @ (if l \<in> set (p_listeners p) then [] else [l])\<rparr>"

definition stopModeChange :: "nat \<Rightarrow> permissions \<Rightarrow> permissions" where
  "stopModeChange l p = p\<lparr>p_listeners := filter (\<lambda>x. x \<noteq> l) (p_listeners p)\<rparr>"

text \<open>The first protected file among the paths a call writes.\<close>

fun first_hit ::
  "host \<Rightarrow> jstring \<Rightarrow> protect_options \<Rightarrow> data_owner option \<Rightarrow> jstring option \<Rightarrow> jstring list
     \<Rightarrow> protected_match option" where
  "first_hit h cwd protect owner dataRoot [] = None"
| "first_hit h cwd protect owner dataRoot (p # ps) =
     (let hit = protectedWritePath h cwd p protect dataRoot;
          hit' = (case (hit, owner) of
              (None, Some ow) \<Rightarrow>
                if Some (d_home ow) \<noteq> o_amiraHome protect
                then protectedWritePath h cwd p (protect\<lparr>o_amiraHome := Some (d_home ow)\<rparr>) dataRoot else None
            | _ \<Rightarrow> hit)
      in case hit' of Some m \<Rightarrow> Some m | None \<Rightarrow> first_hit h cwd protect owner dataRoot ps)"

definition protectedWrites ::
  "host \<Rightarrow> permissions \<Rightarrow> tool \<Rightarrow> args \<Rightarrow> jstring \<Rightarrow> data_owner option \<Rightarrow> bool \<Rightarrow> verdict" where
  "protectedWrites h p t a cwd owner exemptData =
     (case writtenPaths t a of
        None \<Rightarrow>
          ask_for (tl_name t @ js '' may change protected files, but could not report its write paths'') CProtected
      | Some paths \<Rightarrow>
          let containment = (case owner of
                Some ow \<Rightarrow> if exemptData
                  then Some (map (\<lambda>q. extensionDataContainment h ow cwd q (p_protect p)) paths) else None
              | None \<Rightarrow> None)
          in if containment \<noteq> None \<and> Unknown \<in> set (the containment) then
               ask_for (tl_name t @ js '' returned a write path whose extension data ownership could not be resolved safely'')
                 CProtected
             else
               let dataRoot = (if containment \<noteq> None \<and> list_all (\<lambda>c. c = Inside) (the containment)
                     then map_option d_dataDir owner else None)
               in case first_hit h cwd (p_protect p) owner dataRoot paths of
                    Some m \<Rightarrow> ask_for (js ''it changes '' @ m_what m @ js '', which requires approval'') CProtected
                  | None \<Rightarrow> ALLOW)"

definition shellCall :: "permissions \<Rightarrow> tool \<Rightarrow> args \<Rightarrow> mode \<Rightarrow> verdict" where
  "shellCall p t a m =
     (case a (js ''command'') of
        Some (Text command) \<Rightarrow>
          let kinds = (case classifyShell t of Some (_, ks) \<Rightarrow> ks | None \<Rightarrow> [Bash, PowerShell])
          in strictest (map (\<lambda>k. shell_verdict (p_rules p)
               (case k of Bash \<Rightarrow> parseBash command | PowerShell \<Rightarrow> parsePowerShell command) m k) kinds)
      | _ \<Rightarrow> shell_verdict (p_rules p) \<lparr>commands = [], complex = Some (js ''no command text'')\<rparr> m Bash)"

definition plan_text :: jstring where
  "plan_text = js ''mode '' @ quoted (js ''plan'')"

definition check ::
  "host \<Rightarrow> permissions \<Rightarrow> tool \<Rightarrow> args \<Rightarrow> jstring \<Rightarrow> data_owner option \<Rightarrow> verdict" where
  "check h p t a cwd owner =
     (let m = p_mode p;
          traits = toolTraits t;
          writes = (case traits of Some tr \<Rightarrow> writing (t_writesFiles tr) | None \<Rightarrow> False);
          shell = ((case traits of Some tr \<Rightarrow> t_shell tr \<noteq> None | None \<Rightarrow> False) \<or> tl_shellKind t \<noteq> None)
      in if m = Plan \<and> writes then deny_for (plan_text @ js '' is read-only: files are not changed'') CMode
         else if m = Plan \<and> shell then
           deny_for (plan_text @ js '' is read-only: shell commands are not run (none can be proven read-only yet)'') CMode
         else if writes \<or> shell then
           strictest
             ((if writes then
                 [protectedWrites h p t a cwd owner
                   ((case tl_traits t of Some tr \<Rightarrow> t_writesFiles tr = Some WritesPaths | None \<Rightarrow> False)
                    \<and> tl_report t \<noteq> None)]
               else []) @
              (if shell then [shellCall p t a m] else []))
         else if m = Plan \<and> (case traits of Some tr \<Rightarrow> t_readOnly tr \<noteq> Some True | None \<Rightarrow> True) then
           ask_for (plan_text @ js '': '' @ tl_name t @ js '' is not known to be read-only'') CTool
         else ALLOW)"

section \<open>Settings layers\<close>

datatype layer_scope = LUser | LProject | LFlags

record permission_layer =
  l_scope :: layer_scope
  l_file :: jstring
  l_mode :: "mode option"
  l_rules :: "command_rule list option"

record resolved =
  res_mode :: mode
  res_modeSource :: jstring
  res_rules :: "permission_rule list"
  res_warnings :: "jstring list"

definition layer_rules :: "permission_layer \<Rightarrow> command_rule list" where
  "layer_rules l = (case l_rules l of Some rs \<Rightarrow> rs | None \<Rightarrow> [])"

definition with_source :: "rule_scope \<Rightarrow> jstring \<Rightarrow> command_rule \<Rightarrow> permission_rule" where
  "with_source sc file r =
     \<lparr>r_command = r_command r, r_decision = r_decision r, r_reason = r_reason r, r_scope = sc, r_file = file\<rparr>"

definition user_layer :: "permission_layer \<Rightarrow> resolved \<Rightarrow> resolved" where
  "user_layer l r =
     (let r1 = (case l_mode l of
            Some m \<Rightarrow> r\<lparr>res_mode := m, res_modeSource := l_file l\<rparr> | None \<Rightarrow> r)
      in r1\<lparr>res_rules := res_rules r1 @ map (with_source User (l_file l)) (layer_rules l)\<rparr>)"

definition project_layer :: "bool \<Rightarrow> permission_layer \<Rightarrow> resolved \<Rightarrow> resolved" where
  "project_layer trusted l r =
     (let r1 = (case l_mode l of
            Some wanted \<Rightarrow>
              if stricterMode (res_mode r) wanted = wanted \<and> wanted \<noteq> res_mode r
              then r\<lparr>res_mode := wanted, res_modeSource := l_file l\<rparr>
              else if wanted \<noteq> res_mode r then
                r\<lparr>res_warnings := res_warnings r @
                  [l_file l @ js '': '' @ quoted (js ''permissions.mode'') @ js '' '' @ quoted (mode_text wanted)
                   @ js '' is ignored; a project file can only choose a stricter mode than ''
                   @ quoted (mode_text (res_mode r))]\<rparr>
              else r
          | None \<Rightarrow> r);
          kept = filter (\<lambda>c. \<not> (r_decision c = Allow \<and> \<not> trusted)) (layer_rules l);
          dropped = length (filter (\<lambda>c. r_decision c = Allow \<and> \<not> trusted) (layer_rules l));
          r2 = r1\<lparr>res_rules := res_rules r1 @ map (with_source Project (l_file l)) kept\<rparr>
      in if dropped \<noteq> 0 then
           r2\<lparr>res_warnings := res_warnings r2 @
             [l_file l @ js '': '' @ digits_of dropped @ js '' '' @ quoted (js ''allow'') @ js '' ''
              @ (if dropped = 1 then js ''rule is'' else js ''rules are'')
              @ js '' ignored; this project is not trusted (amira ext trust trusts it). Its ask and deny rules apply'']\<rparr>
         else r2)"

definition flags_layer :: "permission_layer \<Rightarrow> resolved \<Rightarrow> resolved" where
  "flags_layer l r =
     (case l_mode l of Some m \<Rightarrow> r\<lparr>res_mode := m, res_modeSource := l_file l\<rparr> | None \<Rightarrow> r)"

definition resolve_start :: resolved where
  "resolve_start = \<lparr>res_mode = DEFAULT_PERMISSION_MODE, res_modeSource = js ''default'',
     res_rules = [], res_warnings = []\<rparr>"

definition of_scope :: "layer_scope \<Rightarrow> permission_layer list \<Rightarrow> permission_layer list" where
  "of_scope sc ls = filter (\<lambda>l. l_scope l = sc) ls"

definition resolvePermissions :: "permission_layer list \<Rightarrow> bool \<Rightarrow> resolved" where
  "resolvePermissions layers trusted =
     fold flags_layer (of_scope LFlags layers)
       (fold (project_layer trusted) (of_scope LProject layers)
         (fold user_layer (of_scope LUser layers) resolve_start))"


section \<open>Verdicts\<close>

lemma decision_order [verdict_simps]:
  "Allow \<le> d" "d \<le> Deny" "Deny \<le> d \<longleftrightarrow> d = Deny" "d \<le> Allow \<longleftrightarrow> d = Allow"
  "Ask \<le> d \<longleftrightarrow> d \<noteq> Allow"
  by (cases d; simp add: less_eq_decision_def RANK_def)+

lemma mode_order [verdict_simps]:
  "Auto \<le> m" "m \<le> Plan" "Plan \<le> m \<longleftrightarrow> m = Plan" "m \<le> Auto \<longleftrightarrow> m = Auto"
  "Edits \<le> m \<longleftrightarrow> m \<noteq> Auto"
  by (cases m; simp add: less_eq_mode_def STRICTNESS_def)+

lemma verdict_fields [simp]:
  "v_decision ALLOW = Allow" "v_rule ALLOW = None"
  "v_decision (ask_for w c) = Ask" "v_decision (deny_for w c) = Deny"
  "v_decision (rule_verdict r) = r_decision r" "v_rule (rule_verdict r) = Some r"
  by (simp_all add: ALLOW_def ask_for_def deny_for_def rule_verdict_def)

definition stricter_verdict :: "verdict \<Rightarrow> verdict \<Rightarrow> verdict" where
  "stricter_verdict a b = (if RANK (v_decision b) > RANK (v_decision a) then b else a)"

lemma stricter_verdict_ge:
  "v_decision a \<le> v_decision (stricter_verdict a b)" "v_decision b \<le> v_decision (stricter_verdict a b)"
  "stricter_verdict a b = a \<or> stricter_verdict a b = b"
  by (simp_all add: stricter_verdict_def less_eq_decision_def)

lemma foldl_stricter_ge: "v_decision v \<le> v_decision (foldl stricter_verdict v vs)"
proof (induction vs arbitrary: v)
  case (Cons y ys)
  show ?case using order_trans [OF stricter_verdict_ge(1) Cons.IH] by simp
qed simp

lemma foldl_stricter_ge_elem: "x \<in> set vs \<Longrightarrow> v_decision x \<le> v_decision (foldl stricter_verdict v vs)"
proof (induction vs arbitrary: v)
  case (Cons y ys)
  have "v_decision y \<le> v_decision (foldl stricter_verdict (stricter_verdict v y) ys)"
    by (rule order_trans [OF stricter_verdict_ge(2) foldl_stricter_ge])
  with Cons show ?case by auto
qed simp

lemma foldl_stricter_in: "foldl stricter_verdict v vs \<in> insert v (set vs)"
proof (induction vs arbitrary: v)
  case (Cons y ys)
  show ?case using Cons.IH [of "stricter_verdict v y"] stricter_verdict_ge(3) [of v y] by auto
qed simp

lemma strictest_foldl: "strictest (v # vs) = foldl stricter_verdict v vs"
  by (simp add: strictest_def stricter_verdict_def [abs_def])

lemma strictest_ge: "v \<in> set vs \<Longrightarrow> v_decision v \<le> v_decision (strictest vs)"
  by (cases vs) (auto simp: strictest_foldl intro: foldl_stricter_ge foldl_stricter_ge_elem)

lemma strictest_in: "vs \<noteq> [] \<Longrightarrow> strictest vs \<in> set vs"
  using foldl_stricter_in by (cases vs) (auto simp: strictest_foldl)

lemma strictest_Nil [simp]: "strictest [] = ALLOW"
  by (simp add: strictest_def)

lemma strictest_eq_Deny: "v_decision (strictest vs) = Deny \<longleftrightarrow> (\<exists>v \<in> set vs. v_decision v = Deny)"
proof
  assume "v_decision (strictest vs) = Deny"
  then show "\<exists>v \<in> set vs. v_decision v = Deny" using strictest_in [of vs] by (cases vs) auto
next
  assume "\<exists>v \<in> set vs. v_decision v = Deny"
  then show "v_decision (strictest vs) = Deny" using strictest_ge [of _ vs] by (metis decision_order(3))
qed

lemma strictest_eq_Allow: "v_decision (strictest vs) = Allow \<longleftrightarrow> (\<forall>v \<in> set vs. v_decision v = Allow)"
proof
  assume "v_decision (strictest vs) = Allow"
  then show "\<forall>v \<in> set vs. v_decision v = Allow" using strictest_ge [of _ vs] by (metis decision_order(4))
next
  assume "\<forall>v \<in> set vs. v_decision v = Allow"
  then show "v_decision (strictest vs) = Allow" using strictest_in [of vs] by (cases vs) auto
qed

lemma decision_cases_le:
  "(a = Deny \<Longrightarrow> b = Deny) \<Longrightarrow> (a = Ask \<Longrightarrow> b \<noteq> Allow) \<Longrightarrow> a \<le> (b::decision)"
  by (cases a; cases b) (auto simp: verdict_simps)

lemma strictest_mono:
  assumes "\<And>v. v \<in> set vs \<Longrightarrow> \<exists>w \<in> set ws. v_decision v \<le> v_decision w"
  shows "v_decision (strictest vs) \<le> v_decision (strictest ws)"
proof (cases vs)
  case Nil
  then show ?thesis by (simp add: verdict_simps)
next
  case (Cons v vs')
  then obtain w where "w \<in> set ws" "v_decision (strictest vs) \<le> v_decision w"
    using strictest_in [of vs] assms by auto
  then show ?thesis using strictest_ge order_trans by blast
qed

section \<open>Rules\<close>

lemma words_between_subseq_iff:
  "words_between ws args \<longleftrightarrow> subseq (map to_lower ws) (map to_lower args)"
proof (induction ws arbitrary: args)
  case Nil
  then show ?case by simp
next
  case (Cons w ws)
  show ?case
  proof (induction args)
    case Nil
    then show ?case by simp
  next
    case (Cons a args)
    show ?case
    proof (cases "to_lower a = to_lower w")
      case True
      then show ?thesis using Cons.IH \<open>\<And>args. words_between ws args = _\<close> by simp
    next
      case False
      then show ?thesis using Cons.IH by simp
    qed
  qed
qed

lemma strongest_Deny:
  "v_decision (strongest rules canon b argv) = Deny \<longleftrightarrow>
     (\<exists>r \<in> set rules. r_decision r = Deny \<and> ruleMatches r argv canon)"
  by (auto simp: strongest_def strictest_eq_Deny)

lemma strongest_Allow:
  "v_decision (strongest rules canon b argv) = Allow \<longleftrightarrow>
     (\<forall>r \<in> set rules. ruleMatches r argv canon \<longrightarrow> r_decision r = Allow)"
  by (auto simp: strongest_def strictest_eq_Allow)

lemma strongest_rule:
  "v_rule (strongest rules canon b argv) \<noteq> None \<longleftrightarrow>
     (\<exists>r \<in> set rules. (\<not> b \<or> r_decision r \<noteq> Allow) \<and> ruleMatches r argv canon)"
proof -
  let ?rs = "filter (\<lambda>r. (\<not> b \<or> r_decision r \<noteq> Allow) \<and> ruleMatches r argv canon) rules"
  have "v_rule (strictest (map rule_verdict ?rs)) \<noteq> None \<longleftrightarrow> ?rs \<noteq> []"
    using strictest_in [of "map rule_verdict ?rs"] by (cases "?rs = []") auto
  then show ?thesis unfolding strongest_def by (simp only: filter_empty_conv) blast
qed

section \<open>Shell commands\<close>

lemma find_None: "List.find P xs = None \<longleftrightarrow> (\<forall>x \<in> set xs. \<not> P x)"
  by (auto simp: find_None_iff)

lemma fallback_not_Deny: "v_decision (shell_fallback rules line m decided) \<noteq> Deny"
  by (simp add: shell_fallback_def Let_def)

lemma fallback_Allow:
  "v_decision (shell_fallback rules line m decided) = Allow \<longleftrightarrow>
     (if is_complex line then m = Auto \<and> (\<forall>r \<in> set rules. r_decision r = Allow) 
      else m \<noteq> Edits \<or> (decided \<noteq> [] \<and> (\<forall>v \<in> set decided. v_decision v = Allow \<and> v_rule v \<noteq> None)))"
  by (auto simp: shell_fallback_def Let_def list_ex_iff list_all_iff)

lemma first_denied_Deny:
  assumes "v_decision otherwise \<noteq> Deny"
  shows "v_decision (first_denied all otherwise) = Deny \<longleftrightarrow> (\<exists>v \<in> set all. v_decision v = Deny)"
proof (cases "List.find (\<lambda>v. v_decision v = Deny) all")
  case None
  then have "\<forall>v \<in> set all. v_decision v \<noteq> Deny" by (simp add: find_None)
  then show ?thesis
    using assms None by (auto simp: first_denied_def find_Some_iff split: option.split)
next
  case (Some v)
  then have "v \<in> set all" "v_decision v = Deny" by (auto simp: find_Some_iff)
  then show ?thesis using Some by (auto simp: first_denied_def)
qed

lemma first_denied_Allow:
  "v_decision (first_denied all otherwise) = Allow \<longleftrightarrow>
     (\<forall>v \<in> set all. v_decision v = Allow) \<and> v_decision otherwise = Allow"
proof (cases "\<forall>v \<in> set all. v_decision v = Allow")
  case True
  then have "List.find (\<lambda>v. v_decision v = Deny) all = None" "List.find (\<lambda>v. v_decision v = Ask) all = None"
    by (auto simp: find_None)
  with True show ?thesis by (simp add: first_denied_def)
next
  case False
  then obtain v where v: "v \<in> set all" "v_decision v = Ask \<or> v_decision v = Deny"
    by (meson decision.exhaust)
  have "v_decision (first_denied all otherwise) \<noteq> Allow"
  proof (cases "List.find (\<lambda>v. v_decision v = Deny) all")
    case None
    with v have "List.find (\<lambda>v. v_decision v = Ask) all \<noteq> None" by (auto simp: find_None)
    then obtain w where w: "List.find (\<lambda>v. v_decision v = Ask) all = Some w" by blast
    then have "v_decision w = Ask" by (auto simp: find_Some_iff)
    with None w show ?thesis by (simp add: first_denied_def)
  next
    case (Some w)
    then have "v_decision w = Deny" by (auto simp: find_Some_iff)
    with Some show ?thesis by (simp add: first_denied_def)
  qed
  with False show ?thesis by simp
qed

lemma shell_verdict_Deny:
  "v_decision (shell_verdict rules line m k) = Deny \<longleftrightarrow>
     (\<exists>v \<in> set (map (strongest rules commandName False) (commands line) @ extra_verdicts rules line k).
        v_decision v = Deny)"
  unfolding shell_verdict_def Let_def by (rule first_denied_Deny [OF fallback_not_Deny])

text \<open>Restricting rules and a stricter mode never relax a verdict.\<close>

lemma strongest_more:
  "v_decision (strongest rules canon b argv) \<le> v_decision (strongest (rules @ added) canon b argv)"
  unfolding strongest_def by (rule strictest_mono) auto

lemma strongest_more_rule:
  assumes "\<forall>r \<in> set added. r_decision r \<noteq> Allow"
    "v_decision (strongest (rules @ added) canon b argv) = Allow"
    "v_rule (strongest (rules @ added) canon b argv) \<noteq> None"
  shows "v_rule (strongest rules canon b argv) \<noteq> None"
  using assms unfolding strongest_Allow strongest_rule by auto

lemma extra_more:
  assumes "v \<in> set (extra_verdicts rules line k)"
  shows "\<exists>w \<in> set (extra_verdicts (rules @ added) line k). v_decision v \<le> v_decision w"
  using assms strongest_more unfolding extra_verdicts_def Let_def
  by (auto split: if_splits) blast+

lemma shell_verdict_mono:
  assumes added: "\<forall>r \<in> set added. r_decision r \<noteq> Allow" and m: "m \<le> m'" "m' \<noteq> Plan"
  shows "v_decision (shell_verdict rules line m k) \<le> v_decision (shell_verdict (rules @ added) line m' k)"
proof (rule decision_cases_le)
  let ?dec = "\<lambda>rs. map (strongest rs commandName False) (commands line)"
  have up: "\<exists>w \<in> set (?dec (rules @ added) @ extra_verdicts (rules @ added) line k). v_decision v \<le> v_decision w"
    if "v \<in> set (?dec rules @ extra_verdicts rules line k)" for v
  proof (cases "v \<in> set (extra_verdicts rules line k)")
    case True
    then show ?thesis using extra_more [OF True, of added] by (auto simp: bex_Un)
  next
    case False
    with that obtain argv where "argv \<in> set (commands line)" "v = strongest rules commandName False argv" by auto
    then show ?thesis by (intro bexI [of _ "strongest (rules @ added) commandName False argv"])
      (auto simp: strongest_more)
  qed
  show "v_decision (shell_verdict (rules @ added) line m' k) = Deny"
    if "v_decision (shell_verdict rules line m k) = Deny"
    using that up unfolding shell_verdict_Deny by (metis decision_order(3))
  show "v_decision (shell_verdict (rules @ added) line m' k) \<noteq> Allow"
    if ask: "v_decision (shell_verdict rules line m k) = Ask"
  proof
    assume allow: "v_decision (shell_verdict (rules @ added) line m' k) = Allow"
    then have all: "\<forall>v \<in> set (?dec (rules @ added) @ extra_verdicts (rules @ added) line k). v_decision v = Allow"
      and fb: "v_decision (shell_fallback (rules @ added) line m' (?dec (rules @ added))) = Allow"
      by (simp_all add: shell_verdict_def Let_def first_denied_Allow del: set_append)
    have all': "\<forall>v \<in> set (?dec rules @ extra_verdicts rules line k). v_decision v = Allow"
      using all up by (metis decision_order(4))
    have allowed: "v_decision (strongest rules commandName False argv) = Allow"
      "v_decision (strongest (rules @ added) commandName False argv) = Allow"
      if "argv \<in> set (commands line)" for argv
      using bspec [OF all'] bspec [OF all] that unfolding set_append set_map by blast+
    have dec: "v_decision v = Allow \<and> v_rule v \<noteq> None"
      if in_dec: "v \<in> set (?dec rules)" "\<forall>w \<in> set (?dec (rules @ added)). v_decision w = Allow \<and> v_rule w \<noteq> None" for v
    proof -
      obtain argv where a: "argv \<in> set (commands line)" "v = strongest rules commandName False argv"
        using in_dec(1) unfolding set_map by blast
      have "v_rule (strongest (rules @ added) commandName False argv) \<noteq> None"
        using in_dec(2) a(1) unfolding set_map by blast
      then show ?thesis unfolding a(2)
        by (intro conjI allowed(1) [OF a(1)] strongest_more_rule [OF added allowed(2) [OF a(1)]])
    qed
    have auto_m: "m = Auto" if "m' = Auto" using that m by (simp add: verdict_simps)
    have "v_decision (shell_fallback rules line m (?dec rules)) = Allow"
    proof (cases "is_complex line")
      case True
      then show ?thesis using fb auto_m by (simp add: fallback_Allow)
    next
      case simple: False
      show ?thesis
      proof (cases "m = Edits")
        case False
        then show ?thesis using simple by (simp add: fallback_Allow)
      next
      case True
      then have "m' = Edits" using m by (cases m') (auto simp: less_eq_mode_def STRICTNESS_def)
      with simple fb have "commands line \<noteq> []"
        and every: "\<forall>w \<in> set (?dec (rules @ added)). v_decision w = Allow \<and> v_rule w \<noteq> None"
        unfolding fallback_Allow by (simp only: simp_thms if_False map_is_Nil_conv; blast)+
      then show ?thesis using simple dec [OF _ every] by (simp only: fallback_Allow simp_thms if_False map_is_Nil_conv) blast
      qed
    qed
    with all' have "v_decision (shell_verdict rules line m k) = Allow"
      by (simp add: shell_verdict_def Let_def first_denied_Allow del: set_append)
    with ask show False by simp
  qed
qed


section \<open>The decision on a call\<close>

definition tool_writes :: "tool \<Rightarrow> bool" where
  "tool_writes t \<longleftrightarrow> (case toolTraits t of Some tr \<Rightarrow> writing (t_writesFiles tr) | None \<Rightarrow> False)"

definition tool_shell :: "tool \<Rightarrow> bool" where
  "tool_shell t \<longleftrightarrow>
     (case toolTraits t of Some tr \<Rightarrow> t_shell tr \<noteq> None | None \<Rightarrow> False) \<or> tl_shellKind t \<noteq> None"

lemma check_plan_Deny:
  "p_mode p = Plan \<Longrightarrow> tool_writes t \<or> tool_shell t \<Longrightarrow> v_decision (check h p t a cwd owner) = Deny"
  by (auto simp: check_def tool_writes_def tool_shell_def Let_def)

lemma check_eq:
  assumes "p_mode p \<noteq> Plan" "tool_writes t \<or> tool_shell t"
  shows "check h p t a cwd owner = strictest
     ((if tool_writes t then [protectedWrites h p t a cwd owner
         ((case tl_traits t of Some tr \<Rightarrow> t_writesFiles tr = Some WritesPaths | None \<Rightarrow> False)
          \<and> tl_report t \<noteq> None)] else []) @
      (if tool_shell t then [shellCall p t a (p_mode p)] else []))"
  using assms by (auto simp: check_def tool_writes_def tool_shell_def Let_def)

lemma check_active:
  assumes "p_mode p \<noteq> Plan" "tool_writes t \<or> tool_shell t"
  obtains vs ex where "check h p t a cwd owner = strictest vs"
    "tool_shell t \<Longrightarrow> shellCall p t a (p_mode p) \<in> set vs"
    "tool_writes t \<Longrightarrow> protectedWrites h p t a cwd owner ex \<in> set vs"
  using check_eq [OF assms, of h a cwd owner] by (rule that) auto

lemma check_idle:
  assumes "\<not> tool_writes t" "\<not> tool_shell t"
  shows "v_decision (check h p t a cwd owner) =
     (if p_mode p = Plan \<and> (case toolTraits t of Some tr \<Rightarrow> t_readOnly tr \<noteq> Some True | None \<Rightarrow> True)
      then Ask else Allow)"
  using assms by (auto simp: check_def tool_writes_def tool_shell_def Let_def)

lemma floor_writes:
  "tl_name t \<in> {js ''write'', js ''edit'', js ''apply_patch''} \<Longrightarrow> tool_writes t"
  by (auto simp: tool_writes_def toolTraits_def NAME_FLOOR_def Let_def overlay_def over_def no_traits_def
      writing_def split: option.splits)

lemma floor_shell:
  "tl_name t \<in> {js ''bash'', js ''powershell'', js ''monitor''} \<Longrightarrow> tool_shell t"
  by (auto simp: tool_shell_def toolTraits_def NAME_FLOOR_def Let_def overlay_def over_def no_traits_def
      writing_def split: option.splits)

text \<open>
  In plan mode the built-in file and shell tools are denied by their names, whatever traits
  or methods the tool registered under the name declares and whatever the rules are.
\<close>

theorem plan_denies_builtin_names:
  assumes "p_mode p = Plan"
    and "tl_name t \<in> {js ''write'', js ''edit'', js ''apply_patch'', js ''bash'', js ''powershell'', js ''monitor''}"
  shows "v_decision (check h p t a cwd owner) = Deny"
  using assms floor_writes floor_shell by (intro check_plan_Deny) auto

text \<open>The dialects a call's command is read in, and the readings.\<close>

definition call_kinds :: "tool \<Rightarrow> shell_kind list" where
  "call_kinds t = (case classifyShell t of Some (_, ks) \<Rightarrow> ks | None \<Rightarrow> [Bash, PowerShell])"

definition reading :: "shell_kind \<Rightarrow> jstring \<Rightarrow> parsed_line" where
  "reading k command = (case k of Bash \<Rightarrow> parseBash command | PowerShell \<Rightarrow> parsePowerShell command)"

lemma shellCall_text:
  "a (js ''command'') = Some (Text command) \<Longrightarrow>
   shellCall p t a m = strictest (map (\<lambda>k. shell_verdict (p_rules p) (reading k command) m k) (call_kinds t))"
  by (simp add: shellCall_def call_kinds_def reading_def)

lemma shellCall_other:
  "\<nexists>c. a (js ''command'') = Some (Text c) \<Longrightarrow>
   shellCall p t a m = shell_verdict (p_rules p) \<lparr>commands = [], complex = Some (js ''no command text'')\<rparr> m Bash"
  by (auto simp: shellCall_def split: option.splits arg.splits)

lemma check_Deny_of_shell:
  assumes "tool_shell t" "a (js ''command'') = Some (Text command)" "k \<in> set (call_kinds t)"
    and "\<And>m. v_decision (shell_verdict (p_rules p) (reading k command) m k) = Deny"
  shows "v_decision (check h p t a cwd owner) = Deny"
proof (cases "p_mode p = Plan")
  case True
  then show ?thesis using assms(1) by (simp add: check_plan_Deny)
next
  case False
  then obtain vs where vs: "check h p t a cwd owner = strictest vs" "shellCall p t a (p_mode p) \<in> set vs"
    using check_active assms(1) by metis
  have "v_decision (shellCall p t a (p_mode p)) = Deny"
    unfolding shellCall_text [where a = a, OF assms(2)] strictest_eq_Deny using assms(3,4) by auto
  then show ?thesis unfolding vs(1) strictest_eq_Deny using vs(2) by blast
qed

lemma ruleMatches_restrict:
  "r_decision r \<noteq> Allow \<Longrightarrow>
   ruleMatches r (first # args) canon \<longleftrightarrow>
     (case r_command r of [] \<Rightarrow> False | name # rest \<Rightarrow> canon name = canon first \<and> words_between rest args)"
  by (auto simp: ruleMatches_def split: list.splits)

text \<open>
  C2. A deny rule decides: when some simple command of the line, in some dialect the call may
  run in, has the rule's command (by its canonical name) and the rule's words in order among its
  arguments, the call is denied, in every mode and whatever other rules allow. In PowerShell an
  alias and the cmdlet it stands for are the same command.
\<close>

theorem deny_rule_decides:
  assumes "tool_shell t" "a (js ''command'') = Some (Text command)" "k \<in> set (call_kinds t)"
    and "first # args \<in> set (commands (reading k command))"
    and "r \<in> set (p_rules p)" "r_decision r = Deny" "r_command r = name # rest"
    and "commandName name = commandName first \<or> k = PowerShell \<and> powershellName name = powershellName first"
    and "subseq (map to_lower rest) (map to_lower args)"
  shows "v_decision (check h p t a cwd owner) = Deny"
proof (rule check_Deny_of_shell [where a = a, OF assms(1-3)])
  fix m
  have words: "words_between rest args" using assms(9) by (simp add: words_between_subseq_iff)
  show "v_decision (shell_verdict (p_rules p) (reading k command) m k) = Deny"
    using assms(8)
  proof
    assume "commandName name = commandName first"
    then have "ruleMatches r (first # args) commandName" using assms words by (simp add: ruleMatches_restrict)
    then have "v_decision (strongest (p_rules p) commandName False (first # args)) = Deny"
      using assms(5,6) unfolding strongest_Deny by blast
    then show ?thesis unfolding shell_verdict_Deny using assms(4) by (auto simp: bex_Un)
  next
    assume ps: "k = PowerShell \<and> powershellName name = powershellName first"
    then have "ruleMatches r (first # args) powershellName" using assms words by (simp add: ruleMatches_restrict)
    then have "v_decision (strongest (p_rules p) powershellName True (first # args)) = Deny"
      using assms(5,6) unfolding strongest_Deny by blast
    then show ?thesis unfolding shell_verdict_Deny extra_verdicts_def Let_def
      using assms(4) ps by (auto simp: bex_Un)
  qed
qed


lemma hidden_word:
  assumes "argv \<in> set cmds" "0 < i" "i < length argv" "isWrapper (arg0 argv) k \<or> opens (argv ! i)"
    and "bares (drop i argv) \<noteq> []"
  shows "bares (drop i argv) \<in> set (hidden cmds k)"
proof -
  have "bares (drop i argv) \<in> set (hidden_in k argv)"
    using assms(2-4) by (auto simp: hidden_in_def Let_def)
  then show ?thesis using assms(1,5) by (auto simp: hidden_def)
qed


text \<open>
  The settings a path is looked at with: those of the policy, and for the tool of an extension also those with
  the home that the extension was installed in.
\<close>

definition looks :: "protect_options \<Rightarrow> data_owner option \<Rightarrow> protect_options list" where
  "looks protect owner =
     protect # (case owner of Some ow \<Rightarrow> [protect\<lparr>o_amiraHome := Some (d_home ow)\<rparr>] | None \<Rightarrow> [])"

lemma first_hit_some:
  assumes "q \<in> set paths" "opts \<in> set (looks protect owner)" "protectedWritePath h cwd q opts dataRoot \<noteq> None"
  shows "first_hit h cwd protect owner dataRoot paths \<noteq> None"
  using assms
proof (induction paths)
  case (Cons p ps)
  show ?case
  proof (cases "p = q")
    case True
    have same: "protect\<lparr>o_amiraHome := Some home\<rparr> = protect" if "Some home = o_amiraHome protect" for home
      using that by simp
    show ?thesis
      using Cons.prems(2,3) True same
      by (cases "protectedWritePath h cwd q protect dataRoot") (auto simp: looks_def Let_def split: option.splits)
  next
    case False
    then have "first_hit h cwd protect owner dataRoot ps \<noteq> None" using Cons by simp
    then show ?thesis by (auto simp: Let_def split: option.splits)
  qed
qed simp

text \<open>
  The one exemption: the tool of an extension says which paths it writes, and every one of them is proven to lie
  in that extension's own data directory.
\<close>

definition declares_paths :: "tool \<Rightarrow> bool" where
  "declares_paths t \<longleftrightarrow>
     (case tl_traits t of Some tr \<Rightarrow> t_writesFiles tr = Some WritesPaths | None \<Rightarrow> False) \<and> tl_report t \<noteq> None"

definition in_own_data :: "host \<Rightarrow> protect_options \<Rightarrow> tool \<Rightarrow> jstring \<Rightarrow> data_owner option \<Rightarrow> jstring list \<Rightarrow> bool" where
  "in_own_data h protect t cwd owner paths \<longleftrightarrow>
     (case owner of None \<Rightarrow> False
      | Some ow \<Rightarrow> declares_paths t \<and> list_all (\<lambda>q. extensionDataContainment h ow cwd q protect = Inside) paths)"

definition amira_what :: jstring where
  "amira_what = js ''Amira'' @ [cSQ] @ js ''s settings, packages and lock files (.amira)''"

lemma protectedWrites_asks:
  assumes "writtenPaths t a = Some paths" "q \<in> set paths" "opts \<in> set (looks (p_protect p) owner)"
    "protectedWritePath h cwd q opts None = Some m"
    "in_own_data h (p_protect p) t cwd owner paths \<Longrightarrow> m_what m \<noteq> amira_what"
  shows "v_decision (protectedWrites h p t a cwd owner (declares_paths t)) = Ask"
proof -
  define contain where "contain = (case owner of
      Some ow \<Rightarrow> if declares_paths t then Some (map (\<lambda>q. extensionDataContainment h ow cwd q (p_protect p)) paths) else None
    | None \<Rightarrow> None)"
  define root where "root = (if contain \<noteq> None \<and> list_all (\<lambda>c. c = Inside) (the contain) then map_option d_dataDir owner else None)"
  have "root = None \<or> in_own_data h (p_protect p) t cwd owner paths"
    by (auto simp: root_def contain_def in_own_data_def list_all_iff split: option.splits if_splits)
  then have "protectedWritePath h cwd q opts root \<noteq> None"
    using assms(4,5) data_root_exempts_amira_only [OF assms(4), of root] by (auto simp: amira_what_def)
  then have "first_hit h cwd (p_protect p) owner root paths \<noteq> None"
    by (rule first_hit_some [OF assms(2,3)])
  moreover have "protectedWrites h p t a cwd owner (declares_paths t) =
      (if contain \<noteq> None \<and> Unknown \<in> set (the contain)
       then ask_for (tl_name t @ js '' returned a write path whose extension data ownership could not be resolved safely'') CProtected
       else case first_hit h cwd (p_protect p) owner root paths of
              Some m \<Rightarrow> ask_for (js ''it changes '' @ m_what m @ js '', which requires approval'') CProtected
            | None \<Rightarrow> ALLOW)"
    unfolding protectedWrites_def assms(1) contain_def [symmetric] Let_def option.case root_def ..
  ultimately show ?thesis by (auto simp: verdict_simps)
qed

text \<open>
  C3. No rule and no mode lifts the protection of a file: a call that writes a protected path is never simply
  allowed, whoever registered the tool, also when the tool cannot say what it writes. For the tool of an extension
  a path is also protected that lies in the home the extension was installed in. The one exemption is a call whose
  paths all lie in the data directory of that extension, and it lifts the protection of Amira's home only.
\<close>

theorem protected_write_never_allowed:
  assumes "tool_writes t"
    and "case writtenPaths t a of
           None \<Rightarrow> True
         | Some paths \<Rightarrow> \<exists>q \<in> set paths. \<exists>opts \<in> set (looks (p_protect p) owner). \<exists>m.
             protectedWritePath h cwd q opts None = Some m
             \<and> (in_own_data h (p_protect p) t cwd owner paths \<longrightarrow> m_what m \<noteq> amira_what)"
  shows "v_decision (check h p t a cwd owner) \<noteq> Allow"
proof (cases "p_mode p = Plan")
  case True
  then show ?thesis using assms(1) by (simp add: check_plan_Deny)
next
  case False
  have "v_decision (protectedWrites h p t a cwd owner (declares_paths t)) = Ask"
  proof (cases "writtenPaths t a")
    case None
    then show ?thesis by (simp add: protectedWrites_def verdict_simps)
  next
    case (Some paths)
    with assms(2) show ?thesis using protectedWrites_asks [OF Some] by fastforce
  qed
  then have "\<exists>v \<in> set ([protectedWrites h p t a cwd owner (declares_paths t)]
      @ (if tool_shell t then [shellCall p t a (p_mode p)] else [])). v_decision v \<noteq> Allow"
    by simp
  then show ?thesis
    unfolding check_eq [OF False disjI1 [OF assms(1)]] strictest_eq_Allow declares_paths_def using assms(1) by auto
qed

section \<open>Stricter settings\<close>

definition tighter :: "permissions \<Rightarrow> permissions \<Rightarrow> bool" where
  "tighter p p' \<longleftrightarrow> p_protect p' = p_protect p \<and> p_mode p \<le> p_mode p' \<and>
     (\<exists>added. p_rules p' = p_rules p @ added \<and> (\<forall>r \<in> set added. r_decision r \<noteq> Allow))"

lemma shellCall_mono:
  assumes "tighter p p'" "p_mode p' \<noteq> Plan"
  shows "v_decision (shellCall p t a (p_mode p)) \<le> v_decision (shellCall p' t a (p_mode p'))"
proof -
  obtain added where added: "p_rules p' = p_rules p @ added" "\<forall>r \<in> set added. r_decision r \<noteq> Allow"
    and m: "p_mode p \<le> p_mode p'"
    using assms(1) by (auto simp: tighter_def)
  note mono = shell_verdict_mono [OF added(2) m assms(2), of "p_rules p", folded added(1)]
  show ?thesis
  proof (cases "\<exists>c. a (js ''command'') = Some (Text c)")
    case True
    then obtain c where c: "a (js ''command'') = Some (Text c)" by blast
    show ?thesis unfolding shellCall_text [where a = a, OF c]
      by (rule strictest_mono) (use mono in auto)
  next
    case False
    then show ?thesis using mono by (simp add: shellCall_other)
  qed
qed

lemma protectedWrites_cong:
  "p_protect p = p_protect p' \<Longrightarrow> protectedWrites h p t a cwd owner e = protectedWrites h p' t a cwd owner e"
  by (simp only: protectedWrites_def)

lemma check_tighter_step:
  assumes "tighter p p'"
  shows "v_decision (check h p t a cwd owner) \<le> v_decision (check h p' t a cwd owner)"
proof (cases "tool_writes t \<or> tool_shell t")
  case False
  then show ?thesis using assms by (auto simp: check_idle tighter_def verdict_simps)
next
  case active: True
  show ?thesis
  proof (cases "p_mode p' = Plan")
    case True
    then show ?thesis using active by (simp add: check_plan_Deny verdict_simps)
  next
    case False
    then have "p_mode p \<noteq> Plan" using assms by (auto simp: tighter_def verdict_simps)
    moreover have "protectedWrites h p t a cwd owner e = protectedWrites h p' t a cwd owner e" for e
      by (rule protectedWrites_cong) (use assms in \<open>simp add: tighter_def\<close>)
    ultimately show ?thesis
      unfolding check_eq [OF \<open>p_mode p \<noteq> Plan\<close> active] check_eq [OF False active]
      using shellCall_mono [OF assms False, of t a] by (intro strictest_mono) (auto split: if_splits)
  qed
qed

text \<open>
  C33. Settings compose safely: rules that ask or deny, added to a policy, and a stricter mode
  never make the decision on any call more permissive.
\<close>

theorem check_tighter:
  assumes "tighter p p'"
  shows "v_decision (check h p t a cwd owner) \<le> v_decision (check h p' t a cwd owner)"
  using assms by (rule check_tighter_step)


section \<open>Layers\<close>

definition restricting :: "permission_rule list \<Rightarrow> bool" where
  "restricting rs \<longleftrightarrow> (\<forall>r \<in> set rs. r_decision r \<noteq> Allow)"

lemma stricterMode_max: "stricterMode a b = max a b"
  by (cases a; cases b) (simp_all add: stricterMode_def max_def less_eq_mode_def STRICTNESS_def)

lemma project_layer_mode: "res_mode (project_layer trusted l r) = (case l_mode l of Some w \<Rightarrow> max (res_mode r) w | None \<Rightarrow> res_mode r)"
  by (auto simp: project_layer_def Let_def stricterMode_max max_def split: option.splits)

lemma project_layer_rules: "res_rules (project_layer trusted l r) = res_rules r @
    map (with_source Project (l_file l)) (filter (\<lambda>c. r_decision c \<noteq> Allow \<or> trusted) (layer_rules l))"
  by (auto simp: project_layer_def Let_def split: option.splits intro: arg_cong [where f = "map _"] filter_cong)

lemma project_layers_mode: "res_mode r \<le> res_mode (fold (project_layer trusted) ls r)"
proof (induction ls arbitrary: r)
  case (Cons l ls)
  have "res_mode r \<le> res_mode (project_layer trusted l r)"
    by (simp add: project_layer_mode split: option.split)
  then show ?case using Cons.IH [of "project_layer trusted l r"] by simp
qed simp

lemma project_layers_rules:
  "\<exists>added. res_rules (fold (project_layer False) ls r) = res_rules r @ added \<and> restricting added"
proof (induction ls arbitrary: r)
  case Nil
  then show ?case by (simp add: restricting_def)
next
  case (Cons l ls)
  then obtain added where "res_rules (fold (project_layer False) (l # ls) r)
      = res_rules (project_layer False l r) @ added" "restricting added" by fastforce
  then show ?case by (auto simp: project_layer_rules restricting_def with_source_def)
qed

lemma flags_layers_rules: "res_rules (fold flags_layer ls r) = res_rules r"
  by (induction ls arbitrary: r) (auto simp: flags_layer_def split: option.splits)

lemma flags_layers_mode:
  "res_mode r \<le> res_mode r' \<Longrightarrow> res_mode (fold flags_layer ls r) \<le> res_mode (fold flags_layer ls r')"
proof (induction ls arbitrary: r r')
  case (Cons l ls)
  then show ?case by (simp add: flags_layer_def split: option.split)
qed simp

lemma of_scope_drop [simp]:
  "of_scope sc (filter (\<lambda>l. l_scope l \<noteq> LProject) ls) = (if sc = LProject then [] else of_scope sc ls)"
  by (auto simp: of_scope_def intro: filter_cong)

definition apply_resolved :: "resolved \<Rightarrow> protect_options \<Rightarrow> permissions" where
  "apply_resolved r protect =
     \<lparr>p_rules = res_rules r, p_warnings = res_warnings r, p_mode = res_mode r,
      p_modeSource = res_modeSource r, p_protect = protect, p_listeners = []\<rparr>"

text \<open>
  C37. The settings of a project that is not trusted only tighten: whatever its files say, no call
  is decided more permissively than with the user's settings and the flags alone.
\<close>

theorem untrusted_project_tightens:
  "v_decision (check h (apply_resolved (resolvePermissions (filter (\<lambda>l. l_scope l \<noteq> LProject) layers) False) protect)
      t a cwd owner)
   \<le> v_decision (check h (apply_resolved (resolvePermissions layers False) protect) t a cwd owner)"
proof (rule check_tighter_step)
  let ?user = "fold user_layer (of_scope LUser layers) resolve_start"
  obtain added where "res_rules (fold (project_layer False) (of_scope LProject layers) ?user) = res_rules ?user @ added"
    "restricting added" using project_layers_rules by blast
  then show "tighter (apply_resolved (resolvePermissions (filter (\<lambda>l. l_scope l \<noteq> LProject) layers) False) protect)
      (apply_resolved (resolvePermissions layers False) protect)"
    using flags_layers_mode [OF project_layers_mode]
    by (simp add: tighter_def apply_resolved_def resolvePermissions_def flags_layers_rules restricting_def)
qed

text \<open>
  Even a trusted project can never choose a laxer mode than the user's settings, and every
  rule of the user's settings stays in force, in order.
\<close>

theorem project_keeps_user_settings:
  "res_mode (resolvePermissions (filter (\<lambda>l. l_scope l \<noteq> LProject) layers) trusted)
     \<le> res_mode (resolvePermissions layers trusted)
   \<and> filter (\<lambda>r. r_scope r = User) (res_rules (resolvePermissions layers trusted))
     = res_rules (resolvePermissions (filter (\<lambda>l. l_scope l \<noteq> LProject) layers) trusted)"
proof -
  let ?user = "fold user_layer (of_scope LUser layers) resolve_start"
  have user: "\<forall>x \<in> set (res_rules r). r_scope x = User \<Longrightarrow>
      \<forall>x \<in> set (res_rules (fold user_layer ls r)). r_scope x = User" for ls r
    by (rule fold_invariant [where Q = "\<lambda>_. True"])
      (auto simp: user_layer_def with_source_def Let_def split: option.splits)
  have project: "filter (\<lambda>x. r_scope x = User) (res_rules (fold (project_layer trusted) ls r))
      = filter (\<lambda>x. r_scope x = User) (res_rules r)" for ls r
    by (induction ls arbitrary: r) (auto simp: project_layer_rules with_source_def filter_empty_conv)
  have "\<forall>x \<in> set (res_rules ?user). r_scope x = User" by (rule user) (simp add: resolve_start_def)
  then show ?thesis
    using flags_layers_mode [OF project_layers_mode]
    by (simp add: resolvePermissions_def flags_layers_rules project filter_id_conv)
qed

section \<open>Changing the mode\<close>

text \<open>
  Cycling the mode changes it every time, visits all the modes and returns after three steps
  with rules, listeners and protected files untouched; each step tells every listener the new
  mode, once.
\<close>

theorem cycleMode_cycles:
  "(let (p1, calls1) = cycleMode p; (p2, calls2) = cycleMode p1; (p3, calls3) = cycleMode p2
    in {p_mode p1, p_mode p2, p_mode p3} = UNIV
       \<and> p3 = p\<lparr>p_modeSource := js ''this session''\<rparr>
       \<and> calls1 = map (\<lambda>l. (l, p_mode p1)) (p_listeners p)
       \<and> calls2 = map (\<lambda>l. (l, p_mode p2)) (p_listeners p)
       \<and> calls3 = map (\<lambda>l. (l, p_mode p3)) (p_listeners p))"
proof -
  have "UNIV = {Auto, Edits, Plan}" by (auto intro: mode.exhaust)
  then show ?thesis
    by (cases "p_mode p") (auto simp: cycleMode_def setMode_def PERMISSION_MODES_def)
qed


section \<open>Witnesses of the decision on a call\<close>

definition named_tool :: "string \<Rightarrow> tool" where
  "named_tool n = \<lparr>tl_name = js n, tl_traits = None, tl_shellKind = None, tl_report = None\<rparr>"

definition one_arg :: "string \<Rightarrow> string \<Rightarrow> args" where
  "one_arg k v = (\<lambda>n. if n = js k then Some (Text (js v)) else None)"

definition deny_rule :: "string list \<Rightarrow> permission_rule" where
  "deny_rule ws = \<lparr>r_command = map js ws, r_decision = Deny, r_reason = None, r_scope = User, r_file = js ''settings''\<rparr>"

definition policy :: "mode \<Rightarrow> permission_rule list \<Rightarrow> permissions" where
  "policy m rs = \<lparr>p_rules = rs, p_warnings = [], p_mode = m, p_modeSource = [],
     p_protect = plain_options, p_listeners = []\<rparr>"

theorem plan_denies_builtin_names_example:
  "v_decision (check plain_host (policy Plan [])
     ((named_tool ''write'')\<lparr>tl_traits := Some (no_traits\<lparr>t_readOnly := Some True\<rparr>)\<rparr>)
     (one_arg ''path'' ''notes.txt'') (js ''/home/u/repo'') None) = Deny"
  by (rule plan_denies_builtin_names) (simp_all add: policy_def named_tool_def)

theorem deny_rule_decides_witness:
  "v_decision (check plain_host (policy Auto [deny_rule [''remove-item'', ''-recurse'']])
     (named_tool ''powershell'') (one_arg ''command'' ''cd x; RM -Force -Recurse y'') (js ''/home/u/repo'') None) = Deny"
  by (rule deny_rule_decides [where command = "js ''cd x; RM -Force -Recurse y''" and k = PowerShell
        and first = "js ''RM''" and args = "map js [''-Force'', ''-Recurse'', ''y'']"
        and name = "js ''remove-item''" and rest = "[js ''-recurse'']"
        and r = "deny_rule [''remove-item'', ''-recurse'']"]) code_simp+


definition data_tool :: tool where
  "data_tool = (named_tool ''notes'')\<lparr>tl_traits := Some (no_traits\<lparr>t_writesFiles := Some WritesPaths\<rparr>),
     tl_report := Some (Some [Text (js ''/home/u/repo/.git/config'')])\<rparr>"

theorem protected_write_never_allowed_witness:
  "v_decision (check plain_host (policy Auto []) data_tool (one_arg ''path'' ''x'') (js ''/home/u/repo'')
     (Some \<lparr>d_home = js ''/home/u/.amira'', d_dataDir = js ''/home/u/.amira/extension-data/notes''\<rparr>)) \<noteq> Allow"
proof (rule protected_write_never_allowed)
  let ?owner = "Some \<lparr>d_home = js ''/home/u/.amira'', d_dataDir = js ''/home/u/.amira/extension-data/notes''\<rparr>"
  let ?m = "\<lparr>m_path = js ''/home/u/repo/.git/config'', m_what = js ''Git config (.git/config)''\<rparr>"
  show "tool_writes data_tool" by code_simp
  have "writtenPaths data_tool (one_arg ''path'' ''x'') = Some [js ''/home/u/repo/.git/config'']" by code_simp
  moreover have "protectedWritePath plain_host (js ''/home/u/repo'') (js ''/home/u/repo/.git/config'')
      (p_protect (policy Auto [])) None = Some ?m" by code_simp
  moreover have "m_what ?m \<noteq> amira_what" by code_simp
  ultimately show "case writtenPaths data_tool (one_arg ''path'' ''x'') of None \<Rightarrow> True
    | Some paths \<Rightarrow> \<exists>q \<in> set paths. \<exists>opts \<in> set (looks (p_protect (policy Auto [])) ?owner). \<exists>m.
        protectedWritePath plain_host (js ''/home/u/repo'') q opts None = Some m
        \<and> (in_own_data plain_host (p_protect (policy Auto [])) data_tool (js ''/home/u/repo'') ?owner paths \<longrightarrow> m_what m \<noteq> amira_what)"
    by (auto simp: looks_def)
qed

theorem check_tighter_witness:
  "v_decision (check plain_host (policy Auto []) (named_tool ''bash'') (one_arg ''command'' ''rm x'') (js ''/r'') None)
   \<le> v_decision (check plain_host (policy Edits [deny_rule [''rm'']]) (named_tool ''bash'')
        (one_arg ''command'' ''rm x'') (js ''/r'') None)"
  by (rule check_tighter) (simp add: tighter_def policy_def deny_rule_def verdict_simps)

end
