(* ===== verification/Json.thy ===== *)
theory Json
  imports Prelude "HOL-Library.List_Lexorder" "HOL-Library.Multiset"
begin

text \<open>
  JSON as the daemon passes it around: inert values, their text, and \<open>copyRemoteJson\<close>
  (\<open>packages/cli/src/remote/schema/json.ts\<close>), the only way a value of the host or of a client
  becomes one. A value to be copied is given by what reflection shows of it: own keys and their
  property descriptors, never a getter that could run.
\<close>

section \<open>Inert JSON\<close>

text \<open>A number is given by the text \<open>JSON.stringify\<close> prints for it.\<close>

datatype json =
  JNull
| JBool bool
| JNum jstring
| JStr jstring
| JArr "json list"
| JObj "(jstring \<times> json) list"

fun stringify :: "json \<Rightarrow> jstring" where
  "stringify JNull = js ''null''"
| "stringify (JBool b) = (if b then js ''true'' else js ''false'')"
| "stringify (JNum n) = n"
| "stringify (JStr s) = json_string s"
| "stringify (JArr vs) = js ''['' @ join_with (js '','') (map stringify vs) @ js '']''"
| "stringify (JObj kvs) =
     js ''{'' @ join_with (js '','') (map (\<lambda>(k, v). json_string k @ js '':'' @ stringify v) kvs) @ js ''}''"

text \<open>The bytes of a string in UTF-8; a surrogate without its other half counts as U+FFFD.\<close>

fun utf8_length :: "jstring \<Rightarrow> nat" where
  "utf8_length [] = 0"
| "utf8_length (c # r) =
     (if c < 128 then 1 + utf8_length r
      else if c < 2048 then 2 + utf8_length r
      else case r of
          d # r' \<Rightarrow>
            if 55296 \<le> c \<and> c \<le> 56319 \<and> 56320 \<le> d \<and> d \<le> 57343 then 4 + utf8_length r'
            else 3 + utf8_length r
        | [] \<Rightarrow> 3)"

section \<open>Values of the host\<close>

text \<open>
  What \<open>Reflect.ownKeys\<close> and the descriptors show. \<open>Seen\<close> is a reference to an object that
  encloses it. An array has its length, when that is a safe integer; its own key \<open>length\<close> is not
  among the entries. \<open>Inert\<close> is a property with a value, \<open>Active\<close> one with accessors.
\<close>

datatype raw_kind = Record | Array "nat option"

datatype raw =
  RNull
| RBool bool
| RNum bool jstring \<comment> \<open>finite, text\<close>
| RStr jstring
| ROther
| Seen
| RObject raw_kind bool bool "entry list" \<comment> \<open>plain prototype, \<open>toJSON\<close> inherited\<close>
and entry =
  Symbol
| Inert jstring bool raw \<comment> \<open>key, enumerable, value\<close>
| Active jstring

datatype remote_error =
  InvalidFrame | IncompatibleProtocol | LimitExceeded | Disconnected | Cancelled | OperationFailed | UnsupportedOperation

definition NODES :: nat where "NODES = 1000000"
definition DEPTH :: nat where "DEPTH = 64"
definition LOGICAL_BYTES :: nat where "LOGICAL_BYTES = 64 * 1024 * 1024"

text \<open>\<open>/^(0|[1-9][0-9]*)$/\<close> and a number below the length.\<close>

definition array_index :: "jstring \<Rightarrow> nat \<Rightarrow> bool" where
  "array_index k n \<longleftrightarrow>
     k \<noteq> [] \<and> list_all is_digit k \<and> (hd k = ch CHR ''0'' \<longrightarrow> length k = 1)
     \<and> foldl (\<lambda>v c. v * 10 + nat (c - 48)) 0 k < n"

text \<open>The checks on an object before its properties are visited.\<close>

definition object_error :: "raw_kind \<Rightarrow> bool \<Rightarrow> bool \<Rightarrow> entry list \<Rightarrow> nat \<Rightarrow> remote_error option" where
  "object_error kind plain hooked es nodes =
     (let keys = length es + (if kind = Record then 0 else 1) in
      if \<not> plain then Some InvalidFrame
      else if hooked then Some InvalidFrame
      else if list_ex (\<lambda>e. e = Symbol) es then Some InvalidFrame
      else if NODES < keys + nodes then Some LimitExceeded
      else case kind of
          Record \<Rightarrow> None
        | Array None \<Rightarrow> Some InvalidFrame
        | Array (Some n) \<Rightarrow>
            if NODES < n + nodes then Some LimitExceeded
            else if keys \<noteq> n + 1 then Some InvalidFrame else None)"

definition bad_key :: "raw_kind \<Rightarrow> jstring \<Rightarrow> bool" where
  "bad_key kind k = (case kind of Array (Some n) \<Rightarrow> \<not> array_index k n | _ \<Rightarrow> False)"

text \<open>The copy and the nodes counted so far.\<close>

fun copy_json :: "nat \<Rightarrow> nat \<Rightarrow> raw \<Rightarrow> remote_error + json \<times> nat"
  and copy_entries :: "raw_kind \<Rightarrow> nat \<Rightarrow> nat \<Rightarrow> entry list \<Rightarrow> remote_error + (jstring \<times> json) list \<times> nat"
where
  "copy_json depth nodes v =
     (if NODES < nodes + 1 then Inl LimitExceeded
      else if DEPTH < depth then Inl LimitExceeded
      else case v of
          RNull \<Rightarrow> Inr (JNull, nodes + 1)
        | RBool b \<Rightarrow> Inr (JBool b, nodes + 1)
        | RStr s \<Rightarrow> if LOGICAL_BYTES < length s then Inl LimitExceeded else Inr (JStr s, nodes + 1)
        | RNum fin n \<Rightarrow> if fin then Inr (JNum n, nodes + 1) else Inl InvalidFrame
        | ROther \<Rightarrow> Inl InvalidFrame
        | Seen \<Rightarrow> Inl InvalidFrame
        | RObject kind plain hooked es \<Rightarrow>
            (case object_error kind plain hooked es (nodes + 1) of
               Some e \<Rightarrow> Inl e
             | None \<Rightarrow>
                 (case copy_entries kind (depth + 1) (nodes + 1) es of
                    Inl e \<Rightarrow> Inl e
                  | Inr (kvs, n) \<Rightarrow> Inr (if kind = Record then JObj kvs else JArr (map snd kvs), n))))"
| "copy_entries kind depth nodes [] = Inr ([], nodes)"
| "copy_entries kind depth nodes (e # es) =
     (case e of
        Inert k enumerable v \<Rightarrow>
          if \<not> enumerable \<or> bad_key kind k then Inl InvalidFrame
          else (case copy_json depth nodes v of
              Inl x \<Rightarrow> Inl x
            | Inr (j, n) \<Rightarrow>
                (case copy_entries kind depth n es of
                   Inl x \<Rightarrow> Inl x | Inr (kvs, m) \<Rightarrow> Inr ((k, j) # kvs, m)))
      | _ \<Rightarrow> Inl InvalidFrame)"

definition copyRemoteJson :: "raw \<Rightarrow> remote_error + json" where
  "copyRemoteJson v = (case copy_json 0 0 v of Inl e \<Rightarrow> Inl e | Inr (j, _) \<Rightarrow> Inr j)"

declare copy_json.simps [simp del]

section \<open>What a copy may hold\<close>

fun json_nodes :: "json \<Rightarrow> nat" where
  "json_nodes (JArr vs) = Suc (sum_list (map json_nodes vs))"
| "json_nodes (JObj kvs) = Suc (sum_list (map (\<lambda>(k, v). json_nodes v) kvs))"
| "json_nodes v = 1"

text \<open>Whether a value fits at a depth, with strings that are not too long.\<close>

fun json_fits :: "nat \<Rightarrow> json \<Rightarrow> bool" where
  "json_fits d (JStr s) \<longleftrightarrow> d \<le> DEPTH \<and> length s \<le> LOGICAL_BYTES"
| "json_fits d (JArr vs) \<longleftrightarrow> d \<le> DEPTH \<and> list_all (json_fits (Suc d)) vs"
| "json_fits d (JObj kvs) \<longleftrightarrow> d \<le> DEPTH \<and> list_all (\<lambda>(k, v). json_fits (Suc d) v) kvs"
| "json_fits d v \<longleftrightarrow> d \<le> DEPTH"

lemma copy_json_ok:
  "copy_json d n v = Inr (j, m) \<Longrightarrow> m = n + json_nodes j \<and> m \<le> NODES \<and> json_fits d j"
  "copy_entries kind d n es = Inr (kvs, m) \<Longrightarrow> n \<le> NODES \<Longrightarrow>
    m = n + sum_list (map (\<lambda>(k, v). json_nodes v) kvs) \<and> m \<le> NODES \<and> list_all (\<lambda>(k, v). json_fits d v) kvs"
proof (induction d n v and kind d n es arbitrary: j m and kvs m rule: copy_json_copy_entries.induct)
  case (1 d n v)
  have n: "n + 1 \<le> NODES" "d \<le> DEPTH" using "1.prems" by (simp_all add: copy_json.simps split: if_splits)
  show ?case
  proof (cases v)
    case (RObject kind plain hooked es)
    obtain kvs where k: "object_error kind plain hooked es (n + 1) = None"
      "copy_entries kind (d + 1) (n + 1) es = Inr (kvs, m)" "j = (if kind = Record then JObj kvs else JArr (map snd kvs))"
      using "1.prems" RObject n by (auto simp: copy_json.simps split: option.splits sum.splits prod.splits)
    have "m = n + 1 + sum_list (map (\<lambda>(k, v). json_nodes v) kvs) \<and> m \<le> NODES \<and> list_all (\<lambda>(k, v). json_fits (d + 1) v) kvs"
      using "1.IH" [OF _ _ RObject k(1,2)] n by simp
    then show ?thesis using n k(3) by (simp add: case_prod_unfold comp_def list_all_iff)
  qed (use "1.prems" n in \<open>auto simp: copy_json.simps split: if_splits\<close>)
next
  case (3 kind d n e es)
  obtain k b v where e: "e = Inert k b v" using "3.prems" by (cases e) auto
  obtain j l ts where j: "b" "\<not> bad_key kind k" "copy_json d n v = Inr (j, l)" "copy_entries kind d l es = Inr (ts, m)"
    "kvs = (k, j) # ts"
    using "3.prems" e by (auto split: if_splits sum.splits)
  have one: "l = n + json_nodes j" "l \<le> NODES" "json_fits d j" using "3.IH"(1) [OF e _ j(3)] j(1,2) by auto
  have "m = l + sum_list (map (\<lambda>(k, v). json_nodes v) ts) \<and> m \<le> NODES \<and> list_all (\<lambda>(k, v). json_fits d v) ts"
    using "3.IH"(2) [OF e _ j(3) refl j(4) one(2)] j(1,2) by simp
  then show ?case using one j(5) by simp
qed auto

lemma list_all_mono_in: "list_all P xs \<Longrightarrow> (\<And>x. x \<in> set xs \<Longrightarrow> P x \<Longrightarrow> Q x) \<Longrightarrow> list_all Q xs"
  by (simp add: list_all_iff)

text \<open>A value as the host would hold it.\<close>

fun raw_of :: "json \<Rightarrow> raw" where
  "raw_of JNull = RNull"
| "raw_of (JBool b) = RBool b"
| "raw_of (JNum n) = RNum True n"
| "raw_of (JStr s) = RStr s"
| "raw_of (JArr vs) = RObject (Array (Some (length vs))) True False
     (map (\<lambda>(i, v). Inert (digits_of i) True v) (zip [0..<length vs] (map raw_of vs)))"
| "raw_of (JObj kvs) = RObject Record True False (map (\<lambda>(k, v). Inert k True (raw_of v)) kvs)"

lemma digit_48 [simp]: "n < 10 \<Longrightarrow> is_digit (48 + int n)"
  by (simp add: is_digit_def)

lemma digits_of_value: "foldl (\<lambda>v c. v * 10 + nat (c - 48)) 0 (digits_of n) = n"
proof (induction n rule: digits_of.induct)
  case (1 n)
  then show ?case by (subst digits_of.simps) simp
qed

lemma digits_of_form: "digits_of n \<noteq> [] \<and> list_all is_digit (digits_of n) \<and> (hd (digits_of n) = 48 \<longrightarrow> n = 0)"
proof (induction n rule: digits_of.induct)
  case (1 n)
  then show ?case by (subst (1 2 3) digits_of.simps) (auto simp: hd_append)
qed

lemma digits_of_index: "i < n \<Longrightarrow> array_index (digits_of i) n"
  using digits_of_form [of i] digits_of_value [of i] by (auto simp: array_index_def js_simps digits_of.simps [of 0])

lemma copy_entries_ok:
  "n + sum_list (map (\<lambda>(k, v). json_nodes v) kvs) < NODES \<Longrightarrow> list_all (\<lambda>(k, v). \<not> bad_key kind k) kvs \<Longrightarrow>
   (\<And>k v n. (k, v) \<in> set kvs \<Longrightarrow> n + json_nodes v < NODES \<Longrightarrow> copy_json d n (raw_of v) = Inr (v, n + json_nodes v)) \<Longrightarrow>
   copy_entries kind d n (map (\<lambda>(k, v). Inert k True (raw_of v)) kvs)
     = Inr (kvs, n + sum_list (map (\<lambda>(k, v). json_nodes v) kvs))"
proof (induction kvs arbitrary: n)
  case (Cons kv kvs)
  obtain k v where kv: "kv = (k, v)" by (cases kv)
  have "copy_json d n (raw_of v) = Inr (v, n + json_nodes v)" using Cons.prems(1) kv by (intro Cons.prems(3) [of k]) simp_all
  moreover have "copy_entries kind d (n + json_nodes v) (map (\<lambda>(k, v). Inert k True (raw_of v)) kvs)
      = Inr (kvs, n + json_nodes v + sum_list (map (\<lambda>(k, v). json_nodes v) kvs))"
    using Cons.prems kv by (intro Cons.IH) auto
  ultimately show ?case using Cons.prems(2) kv by simp
qed simp

lemma length_le_nodes: "length vs \<le> sum_list (map json_nodes vs)"
proof (induction vs)
  case (Cons v vs)
  have "1 \<le> json_nodes v" by (cases v) simp_all
  then show ?case using Cons by simp
qed simp

lemma copy_json_raw_of:
  "json_fits d j \<Longrightarrow> n + json_nodes j < NODES \<Longrightarrow> copy_json d n (raw_of j) = Inr (j, n + json_nodes j)"
proof (induction d j arbitrary: n rule: json_fits.induct)
  case (2 d vs)
  let ?kvs = "map (\<lambda>(i, v). (digits_of i, v)) (zip [0..<length vs] vs)"
  have snd: "map snd ?kvs = vs" by (rule nth_equalityI) simp_all
  have "sum_list (map (\<lambda>(k, v). json_nodes v) ?kvs) = sum_list (map json_nodes (map snd ?kvs))"
    by (rule arg_cong [where f = sum_list]) (simp add: case_prod_unfold)
  then have sum: "sum_list (map (\<lambda>(k, v). json_nodes v) ?kvs) = sum_list (map json_nodes vs)" unfolding snd .
  have "copy_entries (Array (Some (length vs))) (d + 1) (n + 1) (map (\<lambda>(k, v). Inert k True (raw_of v)) ?kvs)
      = Inr (?kvs, n + 1 + sum_list (map (\<lambda>(k, v). json_nodes v) ?kvs))"
  proof (rule copy_entries_ok)
    show "n + 1 + sum_list (map (\<lambda>(k, v). json_nodes v) ?kvs) < NODES" using 2 sum by simp
    show "list_all (\<lambda>(k, v). \<not> bad_key (Array (Some (length vs))) k) ?kvs"
      by (auto simp: list_all_iff bad_key_def set_zip intro: digits_of_index)
    fix k v n assume "(k, v) \<in> set ?kvs" "n + json_nodes v < NODES"
    moreover from this have "v \<in> set vs" by (auto dest: set_zip_rightD)
    ultimately show "copy_json (d + 1) n (raw_of v) = Inr (v, n + json_nodes v)"
      using 2 by (auto simp: list_all_iff)
  qed
  moreover have "map (\<lambda>(k, v). Inert k True (raw_of v)) ?kvs
      = map (\<lambda>(i, v). Inert (digits_of i) True v) (zip [0..<length vs] (map raw_of vs))"
    by (simp add: zip_map2 comp_def case_prod_unfold)
  moreover have "object_error (Array (Some (length vs))) True False
      (map (\<lambda>(i, v). Inert (digits_of i) True v) (zip [0..<length vs] (map raw_of vs))) (n + 1) = None"
    using 2 length_le_nodes [of vs] by (auto simp: object_error_def list_ex_iff)
  ultimately show ?case using 2 sum snd by (simp add: copy_json.simps)
next
  case (3 d kvs)
  have "copy_entries Record (d + 1) (n + 1) (map (\<lambda>(k, v). Inert k True (raw_of v)) kvs)
      = Inr (kvs, n + 1 + sum_list (map (\<lambda>(k, v). json_nodes v) kvs))"
    using 3 by (intro copy_entries_ok) (auto simp: bad_key_def list_all_iff)
  moreover have "object_error Record True False (map (\<lambda>(k, v). Inert k True (raw_of v)) kvs) (n + 1) = None"
    using 3 length_le_nodes [of "map snd kvs"]
    by (auto simp: object_error_def Let_def list_ex_iff comp_def case_prod_unfold)
  ultimately show ?case using 3 by (simp add: copy_json.simps)
qed (simp_all add: copy_json.simps)

text \<open>
  Copying is exact and bounded: a value of the host that is plain JSON is copied to itself when
  it has fewer than a million nodes, nests at most 64 deep and has no string over the limit; and
  whatever is accepted, of whatever shape, is within these limits.
\<close>

theorem copyRemoteJson_exact:
  shows "(json_fits 0 j \<and> json_nodes j < NODES \<longrightarrow> copyRemoteJson (raw_of j) = Inr j)
    \<and> (copyRemoteJson v = Inr k \<longrightarrow> json_fits 0 k \<and> json_nodes k \<le> NODES)"
  using copy_json_raw_of [of 0 j 0] copy_json_ok(1) [of 0 0 v k]
  by (auto simp: copyRemoteJson_def split: sum.splits prod.splits)

theorem copyRemoteJson_exact_example:
  "copyRemoteJson (raw_of (JObj [(js ''a'', JArr [JNull, JNum (js ''1'')])]))
    = Inr (JObj [(js ''a'', JArr [JNull, JNum (js ''1'')])])"
  using copyRemoteJson_exact [of "JObj [(js ''a'', JArr [JNull, JNum (js ''1'')])]"]
  by (simp add: NODES_def DEPTH_def)

end
