(* ===== verification/OperationLedger.thy ===== *)
theory OperationLedger
  imports Json
begin

text \<open>
  The daemon's at-most-once admission of remote operations
  (\<open>packages/cli/src/server/operation-ledger.ts\<close>). A ledger keeps scopes (one per controller
  lease) in the order of their activity; a scope keeps the ids it admitted, each with its live
  entry or a tombstone. Entries are objects that are shared and updated, so they live in a store
  addressed by number. The digest (SHA-256 in the code) and the host's \<open>inUse\<close> are parameters,
  and no property assumes that the digest is injective. A call of the code is one or several
  steps: admission may be entered again while a payload is copied or an effect runs, and a
  result is retained and settled later.
\<close>

section \<open>Payloads\<close>

text \<open>Inert JSON with the fields of every object in order.\<close>

fun canonicalJson :: "json \<Rightarrow> jstring" where
  "canonicalJson JNull = js ''null''"
| "canonicalJson (JBool b) = (if b then js ''true'' else js ''false'')"
| "canonicalJson (JNum n) = n"
| "canonicalJson (JStr s) = json_string s"
| "canonicalJson (JArr vs) = js ''['' @ join_with (js '','') (map canonicalJson vs) @ js '']''"
| "canonicalJson (JObj kvs) =
     js ''{'' @ join_with (js '','') (map (\<lambda>(k, text). json_string k @ js '':'' @ text)
       (sort_key fst (map (\<lambda>(k, v). (k, canonicalJson v)) kvs))) @ js ''}''"

text \<open>\<open>/^[a-zA-Z0-9_.:-]+$/\<close> and a length of at most 128.\<close>

definition id_char :: "cu \<Rightarrow> bool" where
  "id_char c \<longleftrightarrow> is_wordch c \<or> c = ch CHR ''.'' \<or> c = ch CHR '':'' \<or> c = ch CHR ''-''"

definition validIdentity :: "jstring \<Rightarrow> bool" where
  "validIdentity v \<longleftrightarrow> v \<noteq> [] \<and> length v \<le> 128 \<and> list_all id_char v"

section \<open>State\<close>

record limits =
  maxEntries :: nat
  windowIds :: nat
  maxIds :: nat
  idleScopeMs :: int
  maxForgotten :: nat
  retentionMs :: int
  maxPayloadBytes :: nat
  maxBytes :: nat

definition MAX_SAFE_INTEGER :: int where
  "MAX_SAFE_INTEGER = 9007199254740991"

definition default_limits :: limits where
  "default_limits = \<lparr>maxEntries = 128, windowIds = 4096, maxIds = 65536,
     idleScopeMs = 24 * 60 * 60 * 1000, maxForgotten = 65536, retentionMs = 10 * 60 * 1000,
     maxPayloadBytes = 64 * 1024 * 1024, maxBytes = 32 * 1024 * 1024\<rparr>"

definition limits_ok :: "limits \<Rightarrow> bool" where
  "limits_ok opt \<longleftrightarrow>
     list_all (\<lambda>v. 1 \<le> v \<and> v \<le> MAX_SAFE_INTEGER)
       [int (maxEntries opt), int (windowIds opt), int (maxIds opt), idleScopeMs opt, int (maxForgotten opt),
        int (maxPayloadBytes opt), int (maxBytes opt)]
     \<and> 0 \<le> retentionMs opt \<and> retentionMs opt \<le> MAX_SAFE_INTEGER"

record live_entry =
  en_key :: jstring
  en_hash :: jstring
  en_scope :: jstring
  en_canonical :: jstring
  en_bytes :: nat
  en_expires :: "int option"
  en_unretained :: bool

text \<open>
  A scope's window in admission order; \<open>None\<close> marks an id whose result is gone. A scope leaves
  the ledger only by being forgotten, with nothing running, so an entry names its scope by key.
\<close>

record scope_state =
  sc_key :: jstring
  sc_client :: jstring
  sc_window :: "(jstring \<times> nat option) list"
  sc_running :: int
  sc_last :: int

record ledger =
  lg_scopes :: "scope_state list"
  lg_forgotten :: "jstring list"
  lg_settled :: "nat list"
  lg_entries :: "nat \<Rightarrow> live_entry"
  lg_next :: nat
  lg_live :: int
  lg_ids :: int
  lg_bytes :: int
  lg_runningBytes :: int
  lg_last :: int

definition no_entry :: live_entry where
  "no_entry = \<lparr>en_key = [], en_hash = [], en_scope = [], en_canonical = [], en_bytes = 0,
     en_expires = None, en_unretained = False\<rparr>"

definition new_ledger :: ledger where
  "new_ledger = \<lparr>lg_scopes = [], lg_forgotten = [], lg_settled = [], lg_entries = (\<lambda>_. no_entry),
     lg_next = 0, lg_live = 0, lg_ids = 0, lg_bytes = 0, lg_runningBytes = 0, lg_last = 0\<rparr>"

definition find_scope :: "jstring \<Rightarrow> scope_state list \<Rightarrow> scope_state option" where
  "find_scope k ss = List.find (\<lambda>s. sc_key s = k) ss"

definition update_scope :: "jstring \<Rightarrow> (scope_state \<Rightarrow> scope_state) \<Rightarrow> ledger \<Rightarrow> ledger" where
  "update_scope k f L = L\<lparr>lg_scopes := map (\<lambda>s. if sc_key s = k then f s else s) (lg_scopes L)\<rparr>"

text \<open>The clock never goes back; a reading moves it.\<close>

definition tick :: "int \<Rightarrow> ledger \<Rightarrow> ledger" where
  "tick t L = L\<lparr>lg_last := max (lg_last L) t\<rparr>"

section \<open>Operations\<close>

text \<open>The slot of an entry in its scope's window.\<close>

definition slot_of :: "ledger \<Rightarrow> live_entry \<Rightarrow> nat option option" where
  "slot_of L e = (case find_scope (en_scope e) (lg_scopes L) of
     Some s \<Rightarrow> map_of (sc_window s) (en_hash e) | None \<Rightarrow> None)"

definition bury :: "jstring \<Rightarrow> scope_state \<Rightarrow> scope_state" where
  "bury hash s = s\<lparr>sc_window := map (\<lambda>(k, v). (k, if k = hash then None else v)) (sc_window s)\<rparr>"

definition tombstone :: "nat \<Rightarrow> ledger \<Rightarrow> ledger" where
  "tombstone i L =
     (let e = lg_entries L i in
      if slot_of L e \<noteq> Some (Some i) then L
      else (update_scope (en_scope e) (bury (en_hash e)) L)
             \<lparr>lg_settled := filter (\<lambda>x. x \<noteq> i) (lg_settled L),
              lg_live := lg_live L - 1, lg_bytes := lg_bytes L - int (en_bytes e)\<rparr>)"

definition live_slots :: "scope_state \<Rightarrow> nat list" where
  "live_slots s = map the (filter (\<lambda>x. x \<noteq> None) (map snd (sc_window s)))"

definition forget :: "limits \<Rightarrow> (jstring \<Rightarrow> jstring) \<Rightarrow> scope_state \<Rightarrow> ledger \<Rightarrow> ledger" where
  "forget opt digest s L =
     (let L1 = fold tombstone (live_slots s) L;
          f = (if digest (sc_key s) \<in> set (lg_forgotten L1) then lg_forgotten L1
               else lg_forgotten L1 @ [digest (sc_key s)])
      in L1\<lparr>lg_ids := lg_ids L1 - int (length (sc_window s)),
            lg_scopes := filter (\<lambda>x. sc_key x \<noteq> sc_key s) (lg_scopes L1),
            lg_forgotten := drop (length f - maxForgotten opt) f\<rparr>)"

fun expire_settled :: "int \<Rightarrow> nat list \<Rightarrow> ledger \<Rightarrow> ledger" where
  "expire_settled now [] L = L"
| "expire_settled now (i # is) L =
     (if (case en_expires (lg_entries L i) of Some t \<Rightarrow> now < t | None \<Rightarrow> False) then L
      else expire_settled now is (tombstone i L))"

definition idle_scope :: "(jstring \<Rightarrow> bool) \<Rightarrow> scope_state \<Rightarrow> bool" where
  "idle_scope inUse s \<longleftrightarrow> sc_running s = 0 \<and> \<not> inUse (sc_client s)"

fun expire_scopes ::
  "limits \<Rightarrow> (jstring \<Rightarrow> jstring) \<Rightarrow> (jstring \<Rightarrow> bool) \<Rightarrow> int \<Rightarrow> scope_state list \<Rightarrow> ledger \<Rightarrow> ledger" where
  "expire_scopes opt digest inUse now [] L = L"
| "expire_scopes opt digest inUse now (s # ss) L =
     (if now - sc_last s < idleScopeMs opt then L
      else expire_scopes opt digest inUse now ss (if idle_scope inUse s then forget opt digest s L else L))"

definition prune ::
  "limits \<Rightarrow> (jstring \<Rightarrow> jstring) \<Rightarrow> (jstring \<Rightarrow> bool) \<Rightarrow> int \<Rightarrow> ledger \<Rightarrow> ledger" where
  "prune opt digest inUse t L =
     (let L1 = tick t L;
          L2 = expire_settled (lg_last L1) (lg_settled L1) L1
      in expire_scopes opt digest inUse (lg_last L1) (lg_scopes L2) L2)"

datatype refusal =
  InvalidIdentity | InvalidPayload | PayloadLimit | Conflict | Expired | Forgotten | Capacity

definition ledger_lookup ::
  "(jstring \<Rightarrow> jstring) \<Rightarrow> jstring \<Rightarrow> jstring \<Rightarrow> ledger \<Rightarrow> refusal + nat option" where
  "ledger_lookup digest scopeKey key L =
     (if digest scopeKey \<in> set (lg_forgotten L) then Inl Forgotten
      else case find_scope scopeKey (lg_scopes L) of
          None \<Rightarrow> Inr None
        | Some s \<Rightarrow>
            (case map_of (sc_window s) (digest key) of
               None \<Rightarrow> Inr None
             | Some None \<Rightarrow> Inl Expired
             | Some (Some i) \<Rightarrow> if en_key (lg_entries L i) \<noteq> key then Inl Expired else Inr (Some i)))"

definition fits :: "limits \<Rightarrow> nat \<Rightarrow> nat \<Rightarrow> ledger \<Rightarrow> bool" where
  "fits opt entries bytes L \<longleftrightarrow>
     lg_live L + int entries \<le> int (maxEntries opt) \<and> int bytes \<le> int (maxBytes opt) - lg_bytes L"

fun reserve_from :: "limits \<Rightarrow> nat \<Rightarrow> nat \<Rightarrow> nat list \<Rightarrow> ledger \<Rightarrow> ledger" where
  "reserve_from opt entries bytes [] L = L"
| "reserve_from opt entries bytes (i # is) L =
     (if fits opt entries bytes L then L else reserve_from opt entries bytes is (tombstone i L))"

definition reserve :: "limits \<Rightarrow> nat \<Rightarrow> nat \<Rightarrow> ledger \<Rightarrow> bool \<times> ledger" where
  "reserve opt entries bytes L =
     (let L1 = reserve_from opt entries bytes (lg_settled L) L in (fits opt entries bytes L1, L1))"

fun trim_window :: "int \<Rightarrow> (jstring \<times> nat option) list \<Rightarrow> (jstring \<times> nat option) list" where
  "trim_window excess [] = []"
| "trim_window excess ((h, v) # w) =
     (if excess \<le> 0 then (h, v) # w
      else if v \<noteq> None then (h, v) # trim_window (excess - 1) w
      else trim_window (excess - 1) w)"

definition trim_scope :: "nat \<Rightarrow> scope_state \<Rightarrow> ledger \<Rightarrow> ledger" where
  "trim_scope keep s L =
     (let w = trim_window (int (length (sc_window s)) - int keep) (sc_window s)
      in (update_scope (sc_key s) (\<lambda>x. x\<lparr>sc_window := w\<rparr>) L)
           \<lparr>lg_ids := lg_ids L - (int (length (sc_window s)) - int (length w))\<rparr>)"

fun forget_idle ::
  "limits \<Rightarrow> (jstring \<Rightarrow> jstring) \<Rightarrow> (jstring \<Rightarrow> bool) \<Rightarrow> jstring \<Rightarrow> scope_state list \<Rightarrow> ledger \<Rightarrow> ledger" where
  "forget_idle opt digest inUse except [] L = L"
| "forget_idle opt digest inUse except (s # ss) L =
     (if lg_ids L < int (maxIds opt) then L
      else forget_idle opt digest inUse except ss
        (if sc_key s \<noteq> except \<and> idle_scope inUse s then forget opt digest s L else L))"

definition touch :: "int \<Rightarrow> jstring \<Rightarrow> ledger \<Rightarrow> ledger" where
  "touch t k L =
     (let L1 = tick t L in
      case find_scope k (lg_scopes L1) of
        None \<Rightarrow> L1
      | Some s \<Rightarrow>
          L1\<lparr>lg_scopes := filter (\<lambda>x. sc_key x \<noteq> k) (lg_scopes L1) @ [s\<lparr>sc_last := lg_last L1\<rparr>]\<rparr>)"

definition trimmed :: "limits \<Rightarrow> jstring \<Rightarrow> ledger \<Rightarrow> ledger" where
  "trimmed opt k L = (case find_scope k (lg_scopes L) of Some s \<Rightarrow> trim_scope (windowIds opt - 1) s L | None \<Rightarrow> L)"

text \<open>What an admission returns: the number of a new entry, whose effect runs, or of a retained one.\<close>

datatype admission = Admitted nat | Retained nat

definition install ::
  "(jstring \<Rightarrow> jstring) \<Rightarrow> int \<Rightarrow> jstring \<Rightarrow> jstring \<Rightarrow> jstring \<Rightarrow> jstring \<Rightarrow> nat \<Rightarrow> ledger \<Rightarrow> ledger" where
  "install digest t client scopeKey key canonical n L =
     (let L1 = (if find_scope scopeKey (lg_scopes L) = None
                then L\<lparr>lg_scopes := lg_scopes L @ [\<lparr>sc_key = scopeKey, sc_client = client, sc_window = [],
                       sc_running = 0, sc_last = 0\<rparr>]\<rparr>
                else L);
          L2 = touch t scopeKey L1;
          i = lg_next L2;
          e = \<lparr>en_key = key, en_hash = digest key, en_scope = scopeKey, en_canonical = canonical,
               en_bytes = n, en_expires = None, en_unretained = False\<rparr>;
          L3 = update_scope scopeKey
                 (\<lambda>s. s\<lparr>sc_window := sc_window s @ [(digest key, Some i)], sc_running := sc_running s + 1\<rparr>) L2
      in L3\<lparr>lg_entries := (lg_entries L3)(i := e), lg_next := i + 1, lg_ids := lg_ids L3 + 1,
            lg_live := lg_live L3 + 1, lg_bytes := lg_bytes L3 + int n,
            lg_runningBytes := lg_runningBytes L3 + int n\<rparr>)"

definition admit ::
  "limits \<Rightarrow> (jstring \<Rightarrow> jstring) \<Rightarrow> (jstring \<Rightarrow> bool) \<Rightarrow> int \<Rightarrow> jstring \<Rightarrow> jstring \<Rightarrow> jstring \<Rightarrow> jstring \<Rightarrow> ledger
     \<Rightarrow> (refusal + admission) \<times> ledger" where
  "admit opt digest inUse t client scopeKey key canonical L =
     (let n = utf8_length canonical in
      if n > maxPayloadBytes opt then (Inl PayloadLimit, L)
      else case ledger_lookup digest scopeKey key L of
          Inl r \<Rightarrow> (Inl r, L)
        | Inr (Some i) \<Rightarrow>
            if en_canonical (lg_entries L i) \<noteq> canonical then (Inl Conflict, L) else (Inr (Retained i), L)
        | Inr None \<Rightarrow>
            if lg_live L - int (length (lg_settled L)) \<ge> int (maxEntries opt)
               \<or> int n > int (maxBytes opt) - lg_runningBytes L
            then (Inl Capacity, L)
            else
              let L1 = trimmed opt scopeKey L;
                  L2 = (if lg_ids L1 \<ge> int (maxIds opt)
                        then forget_idle opt digest inUse scopeKey (lg_scopes L1) L1 else L1)
              in if lg_ids L2 \<ge> int (maxIds opt) then (Inl Capacity, L2)
                 else case reserve opt 1 n L2 of
                     (False, L3) \<Rightarrow> (Inl Capacity, L3)
                   | (True, L3) \<Rightarrow>
                       (Inr (Admitted (lg_next L3)), install digest t client scopeKey key canonical n L3))"

definition scope_key :: "jstring \<Rightarrow> jstring \<Rightarrow> jstring" where
  "scope_key client token = json_strings [client, token]"

definition operation_key :: "jstring \<Rightarrow> jstring \<Rightarrow> jstring \<Rightarrow> jstring" where
  "operation_key client token ident = json_strings [client, token, ident]"

text \<open>
  A whole call of \<open>run\<close>, whose payload is copied between the two lookups; \<open>t\<close>, \<open>t'\<close> are the readings of the clock.
\<close>

definition ledger_run ::
  "limits \<Rightarrow> (jstring \<Rightarrow> jstring) \<Rightarrow> (jstring \<Rightarrow> bool) \<Rightarrow> int \<Rightarrow> int \<Rightarrow> jstring \<Rightarrow> jstring \<Rightarrow> jstring \<Rightarrow> raw
     \<Rightarrow> ledger \<Rightarrow> (refusal + admission) \<times> ledger" where
  "ledger_run opt digest inUse t t' client token ident payload L =
     (if \<not> validIdentity client \<or> \<not> validIdentity token \<or> \<not> validIdentity ident then (Inl InvalidIdentity, L)
      else
        let L1 = prune opt digest inUse t L;
            scopeKey = scope_key client token;
            key = operation_key client token ident
        in case ledger_lookup digest scopeKey key L1 of
             Inl r \<Rightarrow> (Inl r, L1)
           | Inr _ \<Rightarrow>
               (case copyRemoteJson payload of
                  Inl _ \<Rightarrow> (Inl InvalidPayload, L1)
                | Inr p \<Rightarrow> admit opt digest inUse t' client scopeKey key (canonicalJson p) L1))"

text \<open>
  The terminal value of entry \<open>i\<close>: \<open>fit\<close> is the size of its JSON text, \<open>None\<close> when it cannot be
  kept as inert JSON.
\<close>

definition retainTerminal :: "limits \<Rightarrow> nat \<Rightarrow> nat option \<Rightarrow> ledger \<Rightarrow> ledger" where
  "retainTerminal opt i fit L =
     (let drop_it = (\<lambda>L. L\<lparr>lg_entries := (lg_entries L)(i := (lg_entries L i)\<lparr>en_unretained := True\<rparr>)\<rparr>)
      in case fit of
           None \<Rightarrow> drop_it L
         | Some bytes \<Rightarrow>
             (case reserve opt 0 bytes L of
                (False, L1) \<Rightarrow> drop_it L1
              | (True, L1) \<Rightarrow>
                  L1\<lparr>lg_entries := (lg_entries L1)(i := (lg_entries L1 i)\<lparr>en_bytes := en_bytes (lg_entries L1 i) + bytes\<rparr>),
                     lg_bytes := lg_bytes L1 + int bytes,
                     lg_runningBytes := lg_runningBytes L1 + int bytes\<rparr>))"

definition settle_start :: "nat \<Rightarrow> ledger \<Rightarrow> ledger" where
  "settle_start i L =
     (let e = lg_entries L i in
      (update_scope (en_scope e) (\<lambda>s. s\<lparr>sc_running := sc_running s - 1\<rparr>) L)
        \<lparr>lg_runningBytes := lg_runningBytes L - int (en_bytes e)\<rparr>)"

definition settle :: "limits \<Rightarrow> int \<Rightarrow> int \<Rightarrow> nat \<Rightarrow> ledger \<Rightarrow> ledger" where
  "settle opt t t' i L =
     (let e = lg_entries L i;
          L1 = settle_start i L;
          L2 = (if find_scope (en_scope e) (lg_scopes L1) \<noteq> None then touch t (en_scope e) L1 else L1)
      in if en_unretained e then tombstone i L2
         else
           let L3 = tick t' L2
           in L3\<lparr>lg_entries := (lg_entries L3)(i := e\<lparr>en_expires :=
                    Some (min MAX_SAFE_INTEGER (lg_last L3 + retentionMs opt))\<rparr>),
                 lg_settled := lg_settled L3 @ (if i \<in> set (lg_settled L3) then [] else [i])\<rparr>)"

definition isForgotten ::
  "limits \<Rightarrow> (jstring \<Rightarrow> jstring) \<Rightarrow> (jstring \<Rightarrow> bool) \<Rightarrow> int \<Rightarrow> jstring \<Rightarrow> jstring \<Rightarrow> ledger \<Rightarrow> bool \<times> ledger" where
  "isForgotten opt digest inUse t client token L =
     (let L1 = prune opt digest inUse t L in (digest (scope_key client token) \<in> set (lg_forgotten L1), L1))"


section \<open>What a ledger remembers\<close>

text \<open>The ids each scope remembers, in order, and the forgotten scopes.\<close>

type_synonym view = "(jstring \<times> jstring list) list \<times> jstring list"

definition view :: "ledger \<Rightarrow> view" where
  "view L = (map (\<lambda>s. (sc_key s, map fst (sc_window s))) (lg_scopes L), lg_forgotten L)"

lemma view_cong: "lg_scopes L = lg_scopes L' \<Longrightarrow> lg_forgotten L = lg_forgotten L' \<Longrightarrow> view L = view L'"
  by (simp add: view_def)

lemma bury_fst [simp]: "map fst (sc_window (bury h s)) = map fst (sc_window s)" "sc_key (bury h s) = sc_key s"
  by (auto simp: bury_def)

lemma view_tombstone [simp]: "view (tombstone i L) = view L"
  by (auto simp: tombstone_def Let_def view_def update_scope_def)

lemma view_fold_tombstone [simp]: "view (fold tombstone is L) = view L"
  by (induction "is" arbitrary: L) auto

lemma view_expire_settled [simp]: "view (expire_settled now is L) = view L"
  by (induction now "is" L rule: expire_settled.induct) simp_all

lemma view_reserve_from [simp]: "view (reserve_from opt e b is L) = view L"
  by (induction opt e b "is" L rule: reserve_from.induct) simp_all

lemma view_tick [simp]: "view (tick t L) = view L"
  by (simp add: view_def tick_def)

definition add_forgotten :: "nat \<Rightarrow> jstring \<Rightarrow> jstring list \<Rightarrow> jstring list" where
  "add_forgotten m d fs = (let f = (if d \<in> set fs then fs else fs @ [d]) in drop (length f - m) f)"

definition forget_view :: "nat \<Rightarrow> (jstring \<Rightarrow> jstring) \<Rightarrow> jstring \<Rightarrow> view \<Rightarrow> view" where
  "forget_view m digest k V = (filter (\<lambda>x. fst x \<noteq> k) (fst V), add_forgotten m (digest k) (snd V))"

lemma view_forget: "view (forget opt digest s L) = forget_view (maxForgotten opt) digest (sc_key s) (view L)"
proof -
  let ?L = "fold tombstone (live_slots s) L"
  have "view (forget opt digest s L) = forget_view (maxForgotten opt) digest (sc_key s) (view ?L)"
    by (simp add: view_def forget_view_def forget_def Let_def add_forgotten_def filter_map comp_def)
  then show ?thesis by simp
qed

definition view_ok :: "view \<Rightarrow> bool" where
  "view_ok V \<longleftrightarrow> distinct (map fst (fst V)) \<and> (\<forall>x \<in> set (fst V). distinct (snd x))"

lemma view_ok_forget: "view_ok V \<Longrightarrow> view_ok (forget_view m digest k V)"
  by (auto simp: view_ok_def forget_view_def distinct_map_filter)

text \<open>How many elements follow the last occurrence of one.\<close>

definition newer :: "'a \<Rightarrow> 'a list \<Rightarrow> nat" where
  "newer x xs = length (takeWhile (\<lambda>y. y \<noteq> x) (rev xs))"

lemma newer_snoc: "newer x (xs @ [y]) = (if y = x then 0 else Suc (newer x xs))"
  by (simp add: newer_def)

lemma newer_Cons_in: "x \<in> set ys \<Longrightarrow> newer x (y # ys) = newer x ys"
  by (simp add: newer_def takeWhile_append1)

lemma newer_notin: "x \<notin> set xs \<Longrightarrow> newer x xs = length xs"
proof -
  assume "x \<notin> set xs"
  then have "takeWhile (\<lambda>y. y \<noteq> x) (rev xs) = rev xs" by (subst takeWhile_eq_all_conv) auto
  then show ?thesis unfolding newer_def by (simp only: length_rev)
qed

lemma newer_head: "x \<notin> set ys \<Longrightarrow> newer x (x # ys) = length ys"
  using newer_notin [of x ys] by (auto simp: newer_def takeWhile_append)

lemma newer_drop: 
  assumes "x \<in> set xs" "newer x xs < m"
  shows "x \<in> set (drop (length xs - m) xs)" "newer x (drop (length xs - m) xs) = newer x xs"
  using assms
proof (induction xs)
  case (Cons y ys)
  { case 1
    then show ?case
      using Cons.IH newer_head [of x ys] newer_Cons_in [of x ys y] by (cases "x \<in> set ys") (auto simp: Suc_diff_le drop_Cons')
  next
    case 2
    then show ?case
      using Cons.IH newer_head [of x ys] newer_Cons_in [of x ys y] by (cases "x \<in> set ys") (auto simp: Suc_diff_le drop_Cons')
  }
qed simp_all

lemma trim_window_newer:
  assumes "h \<in> fst ` set w" "distinct (map fst w)" "int (newer h (map fst w)) + e < int (length w)"
  shows "h \<in> fst ` set (trim_window e w) \<and> newer h (map fst (trim_window e w)) \<le> newer h (map fst w)"
  using assms
proof (induction e w rule: trim_window.induct)
  case (2 e k v w)
  show ?case
  proof (cases "e \<le> 0")
    case True
    then show ?thesis using 2(3) by simp
  next
    case False
    have "h \<noteq> k"
    proof
      assume "h = k"
      with 2(4) have "newer h (map fst ((k, v) # w)) = length w" by (simp add: newer_head)
      with 2(5) False show False by simp
    qed
    with 2(3) have in_w: "h \<in> fst ` set w" by auto
    then have eq: "newer h (map fst ((k, v) # w)) = newer h (map fst w)" by (simp add: newer_Cons_in)
    have *: "h \<in> fst ` set (trim_window (e - 1) w) \<and> newer h (map fst (trim_window (e - 1) w)) \<le> newer h (map fst w)"
      using 2(1,2) False in_w 2(4,5) eq by (cases v) auto
    then have "newer h (k # map fst (trim_window (e - 1) w)) = newer h (map fst (trim_window (e - 1) w))"
      by (intro newer_Cons_in) auto
    with * eq False show ?thesis by (auto simp: image_iff)
  qed
qed simp

lemma trim_window_keys: "set (map fst (trim_window e w)) \<subseteq> set (map fst w)"
  "distinct (map fst w) \<Longrightarrow> distinct (map fst (trim_window e w))"
proof (induction e w rule: trim_window.induct)
  case (2 e k v w)
  { case 1 then show ?case using 2 by (cases v) auto }
  { case 2
    then show ?case using "2.IH" by (cases v) auto }
qed simp_all


section \<open>Admitted at most once\<close>

text \<open>
  What stays known of an admitted id: its scope keeps it with at most \<open>n\<close> newer ids, or the scope
  is refused; and the scopes of the ledger together with those forgotten after it are at most \<open>m\<close>.
\<close>

definition room :: "jstring \<Rightarrow> nat \<Rightarrow> view \<Rightarrow> bool" where
  "room d m V \<longleftrightarrow> length (fst V) \<le> m \<and> (d \<in> set (snd V) \<longrightarrow> newer d (snd V) + length (fst V) < m)"

definition remembers :: "jstring \<Rightarrow> jstring \<Rightarrow> jstring \<Rightarrow> nat \<Rightarrow> nat \<Rightarrow> view \<Rightarrow> bool" where
  "remembers k h d n m V \<longleftrightarrow>
     length (fst V) \<le> m
     \<and> (d \<in> set (snd V) \<or> (\<exists>ks. (k, ks) \<in> set (fst V) \<and> h \<in> set ks \<and> newer h ks \<le> n))
     \<and> (d \<in> set (snd V) \<longrightarrow> newer d (snd V) + length (fst V) < m)"

lemma filter_key_shorter:
  "distinct (map fst ws) \<Longrightarrow> k \<in> fst ` set ws \<Longrightarrow> Suc (length (filter (\<lambda>x. fst x \<noteq> k) ws)) = length ws"
proof (induction ws)
  case (Cons w ws)
  show ?case
  proof (cases "fst w = k")
    case True
    then have "filter (\<lambda>x. fst x \<noteq> k) ws = ws" using Cons.prems(1)
      by (intro filter_True) (metis distinct.simps(2) list.simps(9) image_eqI set_map)
    with True show ?thesis by simp
  next
    case False
    then show ?thesis using Cons by auto
  qed
qed simp

lemma room_forget:
  assumes "room (digest k) m V" "view_ok V" "k' \<in> fst ` set (fst V)" "m \<le> mf"
  shows "room (digest k) m (forget_view mf digest k' V)"
    and "digest k \<in> set (snd V) \<or> k' = k \<Longrightarrow> digest k \<in> set (snd (forget_view mf digest k' V))"
proof -
  obtain ws fs where V: "V = (ws, fs)" by (cases V)
  let ?d = "digest k" and ?d' = "digest k'"
  let ?ws = "filter (\<lambda>x. fst x \<noteq> k') ws"
  let ?f = "if ?d' \<in> set fs then fs else fs @ [?d']"
  let ?fs = "drop (length ?f - mf) ?f"
  have less: "Suc (length ?ws) = length ws"
    using assms(2,3) by (intro filter_key_shorter) (auto simp: V view_ok_def)
  have len: "length ws \<le> m" using assms(1) by (simp add: V room_def)
  have new: "newer ?d ?f + length ?ws < m" if "?d \<in> set ?f"
  proof (cases "?d \<in> set fs")
    case True
    then have "newer ?d fs + length ws < m" using assms(1) by (simp add: V room_def)
    moreover have "newer ?d ?f \<le> Suc (newer ?d fs)" by (simp add: newer_snoc)
    ultimately show ?thesis using less by linarith
  next
    case False
    with that have "newer ?d ?f = 0" by (auto simp: newer_snoc split: if_splits)
    then show ?thesis using less len by linarith
  qed
  have keep: "?d \<in> set ?fs \<and> newer ?d ?fs = newer ?d ?f" if "?d \<in> set ?f"
    using newer_drop [OF that, of mf] new [OF that] assms(4) by simp
  have was: "?d \<in> set ?f" if "?d \<in> set ?fs" using that in_set_dropD by fast
  have fv: "forget_view mf digest k' V = (?ws, ?fs)"
    by (simp add: forget_view_def add_forgotten_def V Let_def)
  have "newer ?d ?fs + length ?ws < m" if "?d \<in> set ?fs"
    using keep [OF was [OF that]] new [OF was [OF that]] by simp
  moreover have "length ?ws \<le> m" using less len by linarith
  ultimately show "room (digest k) m (forget_view mf digest k' V)"
    unfolding fv room_def fst_conv snd_conv by (intro conjI impI)
  assume "?d \<in> set (snd V) \<or> k' = k"
  then have "?d \<in> set ?f" by (auto simp: V)
  then show "?d \<in> set (snd (forget_view mf digest k' V))" using keep unfolding fv by simp
qed

lemma remembers_room:
  "remembers k h d n m V \<longleftrightarrow> room d m V
     \<and> (d \<in> set (snd V) \<or> (\<exists>ks. (k, ks) \<in> set (fst V) \<and> h \<in> set ks \<and> newer h ks \<le> n))"
  by (auto simp: remembers_def room_def)

lemma remembers_forget:
  assumes "remembers k h (digest k) n m V" "view_ok V" "k' \<in> fst ` set (fst V)" "m \<le> mf"
  shows "remembers k h (digest k) n m (forget_view mf digest k' V)"
proof -
  have room: "room (digest k) m V" using assms(1) by (simp add: remembers_room)
  note step = room_forget [where digest = digest, OF room assms(2-4)]
  show ?thesis
  proof (cases "digest k \<in> set (snd V) \<or> k' = k")
    case True
    then show ?thesis using step by (simp add: remembers_room)
  next
    case False
    then show ?thesis using step(1) assms(1) by (auto simp: remembers_room forget_view_def)
  qed
qed

lemma remembers_mono: "remembers k h d n m V \<Longrightarrow> n \<le> n' \<Longrightarrow> m \<le> m' \<Longrightarrow> remembers k h d n' m' V"
  by (auto simp: remembers_def)

lemma view_map_keys: "map fst (fst (view L)) = map sc_key (lg_scopes L)"
  by (simp add: view_def)

lemma view_keys: "fst ` set (fst (view L)) = sc_key ` set (lg_scopes L)"
  by (force simp: view_def)

text \<open>A sequence of scopes forgotten, each among the keys \<open>K\<close>.\<close>

definition vkeys :: "view \<Rightarrow> jstring set" where
  "vkeys V = fst ` set (fst V)"

lemma vkeys_forget_view: "vkeys (forget_view mf digest k V) = vkeys V - {k}"
  by (auto simp: vkeys_def forget_view_def)

inductive forgets :: "nat \<Rightarrow> (jstring \<Rightarrow> jstring) \<Rightarrow> jstring set \<Rightarrow> view \<Rightarrow> view \<Rightarrow> bool"
  for mf digest K where
  none: "forgets mf digest K V V"
| more: "k \<in> K \<Longrightarrow> k \<in> vkeys V \<Longrightarrow> forgets mf digest K (forget_view mf digest k V) V'
    \<Longrightarrow> forgets mf digest K V V'"

lemma forgets_ok: "forgets mf digest K V V' \<Longrightarrow> view_ok V \<Longrightarrow> view_ok V'"
  by (induction rule: forgets.induct) (simp_all add: view_ok_forget)

lemma forgets_remembers:
  "forgets mf digest K V V' \<Longrightarrow> view_ok V \<Longrightarrow> remembers k h (digest k) n m V \<Longrightarrow> m \<le> mf
    \<Longrightarrow> remembers k h (digest k) n m V'"
  by (induction rule: forgets.induct) (simp_all add: remembers_forget view_ok_forget vkeys_def)

lemma forgets_room:
  "forgets mf digest K V V' \<Longrightarrow> view_ok V \<Longrightarrow> room (digest k) m V \<Longrightarrow> m \<le> mf \<Longrightarrow> room (digest k) m V'"
  by (induction rule: forgets.induct) (simp_all add: room_forget view_ok_forget vkeys_def)

lemma forgets_spared:
  "forgets mf digest K V V' \<Longrightarrow> k \<notin> K \<Longrightarrow> (k, ks) \<in> set (fst V') \<longleftrightarrow> (k, ks) \<in> set (fst V)"
  by (induction rule: forgets.induct) (auto simp: forget_view_def)

lemma vkeys_forget: "vkeys (view (forget opt digest s L)) = vkeys (view L) - {sc_key s}"
  by (auto simp: view_forget vkeys_forget_view)

lemma forgets_scope:
  assumes "sc_key s \<in> K" "sc_key s \<in> vkeys (view L)"
    "forgets (maxForgotten opt) digest K (view (forget opt digest s L)) V"
  shows "forgets (maxForgotten opt) digest K (view L) V"
  using forgets.more [OF assms(1) assms(2) assms(3) [unfolded view_forget]] .

lemma expire_scopes_forgets:
  assumes "sc_key ` set ss \<subseteq> vkeys (view L)" "distinct (map sc_key ss)"
  shows "forgets (maxForgotten opt) digest UNIV (view L) (view (expire_scopes opt digest inUse now ss L))"
  using assms
proof (induction opt digest inUse now ss L rule: expire_scopes.induct)
  case (2 opt digest inUse now s ss L)
  let ?L = "forget opt digest s L"
  have keys: "sc_key ` set ss \<subseteq> vkeys (view ?L)" "sc_key s \<in> vkeys (view L)"
    unfolding vkeys_forget using 2(2,3) by (simp_all add: subset_Diff_insert)
  show ?case
  proof (cases "now - sc_last s < idleScopeMs opt")
    case False
    show ?thesis
    proof (cases "idle_scope inUse s")
      case True
      then have "forgets (maxForgotten opt) digest UNIV (view ?L) (view (expire_scopes opt digest inUse now ss ?L))"
        using 2(1) [OF False] 2(3) keys(1) by simp
      then show ?thesis using forgets_scope [OF UNIV_I keys(2)] False True by simp
    next
      case busy: False
      then show ?thesis using 2 False by simp
    qed
  qed (simp add: forgets.none)
qed (simp add: forgets.none)

lemma forget_idle_forgets:
  assumes "sc_key ` set ss \<subseteq> vkeys (view L)" "distinct (map sc_key ss)"
  shows "forgets (maxForgotten opt) digest (- {except}) (view L) (view (forget_idle opt digest inUse except ss L))"
  using assms
proof (induction opt digest inUse except ss L rule: forget_idle.induct)
  case (2 opt digest inUse except s ss L)
  let ?L = "forget opt digest s L"
  have keys: "sc_key ` set ss \<subseteq> vkeys (view ?L)" "sc_key s \<in> vkeys (view L)"
    unfolding vkeys_forget using 2(2,3) by (simp_all add: subset_Diff_insert)
  show ?case
  proof (cases "lg_ids L < int (maxIds opt)")
    case False
    show ?thesis
    proof (cases "sc_key s \<noteq> except \<and> idle_scope inUse s")
      case True
      then have "forgets (maxForgotten opt) digest (- {except}) (view ?L) (view (forget_idle opt digest inUse except ss ?L))"
        using 2(1) [OF False] 2(3) keys(1) by simp
      then show ?thesis using forgets_scope [OF _ keys(2), of "- {except}"] False True by simp
    next
      case busy: False
      then have skip: "(if sc_key s \<noteq> except \<and> idle_scope inUse s then ?L else L) = L" by auto
      then have "forgets (maxForgotten opt) digest (- {except}) (view L) (view (forget_idle opt digest inUse except ss L))"
        using 2(1) [OF False] 2(2,3) by simp
      then show ?thesis using False skip by simp
    qed
  qed (simp add: forgets.none)
qed (simp add: forgets.none)

lemma own_scopes:
  assumes "view_ok (view L)"
  shows "distinct (map sc_key (lg_scopes L))" "sc_key ` set (lg_scopes L) \<subseteq> vkeys (view L)"
  using assms by (simp_all add: view_ok_def view_map_keys vkeys_def view_keys)

lemma prune_forgets:
  assumes "view_ok (view L)"
  shows "forgets (maxForgotten opt) digest UNIV (view L) (view (prune opt digest inUse t L))"
proof -
  let ?L = "expire_settled (lg_last (tick t L)) (lg_settled (tick t L)) (tick t L)"
  have v: "view ?L = view L" by simp
  have ok: "view_ok (view ?L)" unfolding v by (rule assms)
  have "forgets (maxForgotten opt) digest UNIV (view ?L)
      (view (expire_scopes opt digest inUse (lg_last (tick t L)) (lg_scopes ?L) ?L))"
    by (rule expire_scopes_forgets [OF own_scopes(2,1) [OF ok]])
  then show ?thesis unfolding v by (simp add: prune_def Let_def)
qed


definition set_window :: "jstring \<Rightarrow> jstring list \<Rightarrow> view \<Rightarrow> view" where
  "set_window k ks V = (map (\<lambda>x. if fst x = k then (k, ks) else x) (fst V), snd V)"

lemma find_scope_Some: "find_scope k ss = Some s \<Longrightarrow> s \<in> set ss \<and> sc_key s = k"
  by (auto simp: find_scope_def find_Some_iff)

lemma find_scope_None: "find_scope k ss = None \<longleftrightarrow> k \<notin> sc_key ` set ss"
  by (auto simp: find_scope_def find_None_iff)

lemma find_scope_view:
  "find_scope k (lg_scopes L) = Some s \<Longrightarrow> (k, map fst (sc_window s)) \<in> set (fst (view L))"
  by (drule find_scope_Some) (auto simp: view_def)

lemma view_ok_unique:
  "view_ok V \<Longrightarrow> (k, ks) \<in> set (fst V) \<Longrightarrow> (k, ks') \<in> set (fst V) \<Longrightarrow> ks = ks'"
  unfolding view_ok_def by (metis eq_key_imp_eq_value)

lemma view_trim:
  "view (trim_scope keep s L) =
     set_window (sc_key s) (map fst (trim_window (int (length (sc_window s)) - int keep) (sc_window s))) (view L)"
  by (auto simp: view_def trim_scope_def Let_def update_scope_def set_window_def)

lemma set_window_ok:
  assumes "view_ok V" "distinct ks"
  shows "view_ok (set_window k ks V)"
proof -
  have "map fst (fst (set_window k ks V)) = map fst (fst V)" by (auto simp: set_window_def)
  moreover have "\<forall>x \<in> set (fst (set_window k ks V)). distinct (snd x)"
    using assms by (auto simp: view_ok_def set_window_def)
  ultimately show ?thesis using assms(1) unfolding view_ok_def by argo
qed

definition move_last :: "jstring \<Rightarrow> jstring list \<Rightarrow> view \<Rightarrow> view" where
  "move_last k ks V = (filter (\<lambda>x. fst x \<noteq> k) (fst V) @ [(k, ks)], snd V)"

lemma move_last_ok: "view_ok V \<Longrightarrow> distinct ks \<Longrightarrow> view_ok (move_last k ks V)"
  by (auto simp: view_ok_def move_last_def distinct_map_filter)

lemma view_touch:
  "view (touch t k L) =
     (case find_scope k (lg_scopes L) of None \<Rightarrow> view L
      | Some s \<Rightarrow> move_last k (map fst (sc_window s)) (view L))"
  by (auto simp: touch_def Let_def tick_def view_def move_last_def filter_map comp_def
      split: option.split dest: find_scope_Some)

lemma find_scope_append:
  "find_scope k (ss @ [x]) = (case find_scope k ss of Some s \<Rightarrow> Some s | None \<Rightarrow> if sc_key x = k then Some x else None)"
  by (induction ss) (auto simp: find_scope_def)

lemma view_install:
  "view (install digest t client k key canonical n L) =
     move_last k ((case find_scope k (lg_scopes L) of Some s \<Rightarrow> map fst (sc_window s) | None \<Rightarrow> []) @ [digest key]) (view L)"
proof (cases "find_scope k (lg_scopes L)")
  case None
  then have "filter (\<lambda>x. sc_key x \<noteq> k) (lg_scopes L) = lg_scopes L"
    by (intro filter_True) (auto simp: find_scope_None)
  moreover have "\<forall>x \<in> set (lg_scopes L). sc_key x \<noteq> k" using None by (auto simp: find_scope_None)
  ultimately show ?thesis using None
    by (auto simp: install_def Let_def touch_def tick_def view_def move_last_def update_scope_def
        find_scope_append filter_map comp_def)
next
  case (Some s)
  then show ?thesis
    using find_scope_Some [OF Some]
    by (auto simp: install_def Let_def touch_def tick_def view_def move_last_def update_scope_def
        filter_map comp_def)
qed

lemma lookup_remembers:
  assumes "remembers k h (digest k) n m (view L)" "view_ok (view L)" "h = digest key"
  shows "ledger_lookup digest k key L \<noteq> Inr None"
proof (cases "digest k \<in> set (lg_forgotten L)")
  case True
  then show ?thesis by (simp add: ledger_lookup_def)
next
  case False
  then obtain ks where ks: "(k, ks) \<in> set (fst (view L))" "h \<in> set ks"
    using assms(1) by (auto simp: remembers_def view_def)
  then have "k \<in> sc_key ` set (lg_scopes L)" by (force simp: view_def)
  then obtain s where s: "find_scope k (lg_scopes L) = Some s" using find_scope_None by blast
  then have "ks = map fst (sc_window s)"
    using view_ok_unique [OF assms(2) ks(1) find_scope_view] by blast
  then have "map_of (sc_window s) (digest key) \<noteq> None"
    using ks(2) assms(3) by (simp add: map_of_eq_None_iff)
  then show ?thesis using s False by (auto simp: ledger_lookup_def split: option.split)
qed

lemma lookup_new:
  assumes "ledger_lookup digest k key L = Inr None" "find_scope k (lg_scopes L) = Some s"
  shows "digest key \<notin> set (map fst (sc_window s))"
  using assms by (auto simp: ledger_lookup_def map_of_eq_None_iff split: if_splits option.splits)

lemma lookup_not_forgotten:
  "ledger_lookup digest k key L = Inr None \<Longrightarrow> digest k \<notin> set (snd (view L))"
  by (auto simp: ledger_lookup_def view_def split: if_splits)

lemma remembers_move_last_other:
  assumes "remembers k h d n m V" "k' \<noteq> k" "view_ok V"
  shows "remembers k h d n (if k' \<in> vkeys V then m else Suc m) (move_last k' ks V)"
proof -
  let ?f = "filter (\<lambda>x. fst x \<noteq> k') (fst V)" and ?m = "if k' \<in> vkeys V then m else Suc m"
  have "k' \<in> vkeys V \<Longrightarrow> Suc (length ?f) = length (fst V)"
    using assms(3) by (intro filter_key_shorter) (auto simp: view_ok_def vkeys_def)
  moreover have "length ?f \<le> length (fst V)" by simp
  ultimately have less: "length ?f + 1 + m \<le> length (fst V) + ?m" by (cases "k' \<in> vkeys V") simp_all
  have "length ?f + 1 \<le> ?m" using less assms(1) unfolding remembers_def by linarith
  moreover have "newer d (snd V) + (length ?f + 1) < ?m" if "d \<in> set (snd V)"
    using less assms(1) that unfolding remembers_def by linarith
  moreover have "d \<in> set (snd V) \<or> (\<exists>ks. (k, ks) \<in> set ?f \<and> h \<in> set ks \<and> newer h ks \<le> n)"
    using assms(1,2) by (auto simp: remembers_def)
  ultimately show ?thesis unfolding remembers_def move_last_def by auto
qed

lemma remembers_move_last_own:
  assumes "remembers k h d n m V" "view_ok V" "(k, ks) \<in> set (fst V)" "h \<in> set ks \<longrightarrow> h \<in> set ks' \<and> newer h ks' \<le> newer h ks + j"
  shows "remembers k h d (n + j) m (move_last k ks' V)"
proof -
  have len: "Suc (length (filter (\<lambda>x. fst x \<noteq> k) (fst V))) = length (fst V)"
    using assms(2,3) by (intro filter_key_shorter) (auto simp: view_ok_def image_iff intro: bexI [of _ "(k, ks)"])
  have "d \<in> set (snd V) \<or> (h \<in> set ks \<and> newer h ks \<le> n)"
    using assms(1) view_ok_unique [OF assms(2,3)] by (auto simp: remembers_def)
  then show ?thesis
    using assms(1,4) len by (auto simp: remembers_def move_last_def)
qed


definition admitted :: "refusal + admission \<Rightarrow> bool" where
  "admitted r \<longleftrightarrow> (case r of Inr (Admitted i) \<Rightarrow> True | _ \<Rightarrow> False)"

lemma admitted_simps [simp]:
  "\<not> admitted (Inl e)" "\<not> admitted (Inr (Retained i))" "admitted (Inr (Admitted i))"
  by (simp_all add: admitted_def)

lemma trimmed_ok: "view_ok (view L) \<Longrightarrow> view_ok (view (trimmed opt k L))"
proof (cases "find_scope k (lg_scopes L)")
  case (Some s)
  assume ok: "view_ok (view L)"
  then have "distinct (map fst (sc_window s))" using find_scope_view [OF Some] by (auto simp: view_ok_def)
  then show ?thesis using Some ok by (simp add: trimmed_def view_trim set_window_ok trim_window_keys)
qed (simp add: trimmed_def)

lemma admit_view:
  assumes "view_ok (view L)" "admit opt digest inUse t client k key canonical L = (r, L')"
  shows "\<not> admitted r \<and> view L' = view L \<or>
    ledger_lookup digest k key L = Inr None \<and>
    (\<exists>L3. forgets (maxForgotten opt) digest (- {k}) (view (trimmed opt k L)) (view L3) \<and>
      (if admitted r then view L' = view (install digest t client k key canonical (utf8_length canonical) L3)
       else view L' = view L3))"
proof (cases "utf8_length canonical > maxPayloadBytes opt \<or> ledger_lookup digest k key L \<noteq> Inr None
    \<or> lg_live L - int (length (lg_settled L)) \<ge> int (maxEntries opt)
    \<or> int (utf8_length canonical) > int (maxBytes opt) - lg_runningBytes L")
  case True
  then show ?thesis using assms(2)
    by (auto simp: admit_def Let_def split: if_splits sum.splits option.splits)
next
  case False
  let ?L1 = "trimmed opt k L" and ?n = "utf8_length canonical"
  let ?L2 = "if lg_ids ?L1 \<ge> int (maxIds opt) then forget_idle opt digest inUse k (lg_scopes ?L1) ?L1 else ?L1"
  have "forgets (maxForgotten opt) digest (- {k}) (view ?L1) (view ?L2)"
    using forget_idle_forgets [OF own_scopes(2,1) [OF trimmed_ok [OF assms(1)]]] by (simp add: forgets.none)
  moreover have "view (snd (reserve opt 1 ?n ?L2)) = view ?L2" by (simp add: reserve_def Let_def)
  moreover have "(r, L') = (if lg_ids ?L2 \<ge> int (maxIds opt) then (Inl Capacity, ?L2)
      else case reserve opt 1 ?n ?L2 of (False, L3) \<Rightarrow> (Inl Capacity, L3)
        | (True, L3) \<Rightarrow> (Inr (Admitted (lg_next L3)), install digest t client k key canonical ?n L3))"
    using False assms(2) by (simp add: admit_def Let_def)
  ultimately obtain L2 where f: "forgets (maxForgotten opt) digest (- {k}) (view ?L1) (view L2)"
    and v: "view (snd (reserve opt 1 ?n L2)) = view L2"
    and eq: "(r, L') = (if lg_ids L2 \<ge> int (maxIds opt) then (Inl Capacity, L2)
      else case reserve opt 1 ?n L2 of (False, L3) \<Rightarrow> (Inl Capacity, L3)
        | (True, L3) \<Rightarrow> (Inr (Admitted (lg_next L3)), install digest t client k key canonical ?n L3))"
    by blast
  have look: "ledger_lookup digest k key L = Inr None" using False by blast
  obtain ok L3 where res: "reserve opt 1 ?n L2 = (ok, L3)" by force
  with f v have f3: "forgets (maxForgotten opt) digest (- {k}) (view ?L1) (view L3)" by simp
  consider "\<not> admitted r" "L' = L2" | "\<not> admitted r" "L' = L3"
    | "admitted r" "L' = install digest t client k key canonical ?n L3"
    using eq res by (cases ok) (auto split: if_splits)
  then show ?thesis using look f f3 by cases auto
qed

lemma install_ok:
  assumes "view_ok (view L)" "\<And>ks. (k, ks) \<in> set (fst (view L)) \<Longrightarrow> digest key \<notin> set ks"
  shows "view_ok (view (install digest t client k key canonical n L))"
proof (cases "find_scope k (lg_scopes L)")
  case (Some s)
  have "(k, map fst (sc_window s)) \<in> set (fst (view L))" by (rule find_scope_view [OF Some])
  moreover from this have "distinct (map fst (sc_window s))" using assms(1) by (auto simp: view_ok_def)
  moreover have "digest key \<notin> set (map fst (sc_window s))" using assms(2) calculation(1) by blast
  ultimately show ?thesis using Some unfolding view_install
    by (intro move_last_ok [OF assms(1)]) simp
qed (use assms(1) in \<open>simp add: view_install move_last_ok\<close>)

lemma trimmed_window:
  assumes "view_ok (view L)" "ledger_lookup digest k key L = Inr None" "(k, ks) \<in> set (fst (view (trimmed opt k L)))"
  shows "digest key \<notin> set ks"
proof (cases "find_scope k (lg_scopes L)")
  case None
  then have "k \<notin> sc_key ` set (lg_scopes L)" by (simp add: find_scope_None)
  then show ?thesis using None assms(3) by (force simp: trimmed_def view_def)
next
  case (Some s)
  then have "ks = map fst (trim_window (int (length (sc_window s)) - int (windowIds opt - 1)) (sc_window s))"
    using assms(3) find_scope_Some [OF Some] by (auto simp: trimmed_def view_trim set_window_def split: if_splits)
  then show ?thesis using lookup_new [OF assms(2) Some] trim_window_keys(1) by blast
qed

lemma admit_ok:
  assumes "view_ok (view L)" "admit opt digest inUse t client k key canonical L = (r, L')"
  shows "view_ok (view L')"
  using admit_view [OF assms]
proof (elim disjE conjE exE)
  fix L3
  assume look: "ledger_lookup digest k key L = Inr None"
    and f: "forgets (maxForgotten opt) digest (- {k}) (view (trimmed opt k L)) (view L3)"
    and out: "if admitted r then view L' = view (install digest t client k key canonical (utf8_length canonical) L3)
       else view L' = view L3"
  have "view_ok (view L3)" by (rule forgets_ok [OF f trimmed_ok [OF assms(1)]])
  moreover have "digest key \<notin> set ks" if "(k, ks) \<in> set (fst (view L3))" for ks
    using trimmed_window [OF assms(1) look] that forgets_spared [OF f, of k] by auto
  ultimately show ?thesis using out install_ok by (auto split: if_splits)
qed (use assms(1) in simp)

lemma trimmed_remembers:
  assumes "view_ok (view L)" "remembers k h d n m (view L)" "n + 2 \<le> windowIds opt"
  shows "remembers k h d n m (view (trimmed opt k' L))"
proof (cases "find_scope k' (lg_scopes L)")
  case (Some s)
  let ?ks = "map fst (sc_window s)"
    and ?w = "trim_window (int (length (sc_window s)) - int (windowIds opt - 1)) (sc_window s)"
  have v: "view (trimmed opt k' L) = set_window k' (map fst ?w) (view L)"
    using Some find_scope_Some [OF Some] by (simp add: trimmed_def view_trim)
  have s: "(k', ?ks) \<in> set (fst (view L))" by (rule find_scope_view [OF Some])
  have "\<exists>ks. (k, ks) \<in> set (fst (set_window k' (map fst ?w) (view L))) \<and> h \<in> set ks \<and> newer h ks \<le> n"
    if ks: "(k, ks) \<in> set (fst (view L))" "h \<in> set ks" "newer h ks \<le> n" for ks
  proof (cases "k = k'")
    case True
    then have [simp]: "ks = ?ks" using view_ok_unique [OF assms(1) s] ks(1) by simp
    have "h \<in> fst ` set ?w \<and> newer h (map fst ?w) \<le> newer h ?ks"
      using ks assms(3) s assms(1) by (intro trim_window_newer) (auto simp: view_ok_def)
    then show ?thesis using True s ks(3) by (force simp: set_window_def)
  next
    case False
    then show ?thesis using ks by (force simp: set_window_def)
  qed
  then show ?thesis using assms(2) unfolding v by (auto simp: remembers_def set_window_def)
qed (use assms(2) in \<open>simp add: trimmed_def\<close>)

lemma find_scope_ok: "view_ok (view L) \<Longrightarrow> find_scope k (lg_scopes L) = Some s \<Longrightarrow> distinct (map fst (sc_window s))"
  by (drule find_scope_view) (auto simp: view_ok_def)

lemma touch_ok: "view_ok (view L) \<Longrightarrow> view_ok (view (touch t k L))"
  by (auto simp: view_touch move_last_ok find_scope_ok simp del: distinct_map split: option.split)

lemma touch_remembers:
  assumes "view_ok (view L)" "remembers k h d n m (view L)"
  shows "remembers k h d n m (view (touch t k' L))"
proof (cases "find_scope k' (lg_scopes L)")
  case (Some s)
  note s = find_scope_view [OF Some]
  show ?thesis
  proof (cases "k' = k")
    case True
    then show ?thesis using Some s remembers_move_last_own [OF assms(2,1), of "map fst (sc_window s)" _ 0]
      by (simp add: view_touch)
  next
    case False
    moreover have "k' \<in> vkeys (view L)" using s by (force simp: vkeys_def)
    ultimately show ?thesis using Some remembers_move_last_other [OF assms(2) False assms(1)]
      by (simp add: view_touch)
  qed
qed (use assms in \<open>simp add: view_touch\<close>)

lemma view_settle_start: "view (settle_start i L) = view L"
  by (auto simp: settle_start_def Let_def view_def update_scope_def)

lemma view_settle:
  "view (settle opt t t' i L) = view L \<or> view (settle opt t t' i L) = view (touch t (en_scope (lg_entries L i)) (settle_start i L))"
proof -
  have "view (L\<lparr>lg_entries := es, lg_settled := ss\<rparr>) = view L" for L es ss by (simp add: view_def)
  then show ?thesis
    by (auto simp: settle_def Let_def view_settle_start)
qed

lemma view_retain: "view (retainTerminal opt i fit L) = view L"
proof -
  have "view (snd (reserve opt 0 b L)) = view L" for b by (simp add: reserve_def Let_def)
  then have "reserve opt 0 b L = (ok, L1) \<Longrightarrow> view L1 = view L" for b ok L1 by (metis snd_conv)
  moreover have "view (L\<lparr>lg_entries := es\<rparr>) = view L" "view (L\<lparr>lg_entries := es, lg_bytes := b, lg_runningBytes := r\<rparr>) = view L"
    for L es b r by (simp_all add: view_def)
  ultimately show ?thesis
    by (auto simp: retainTerminal_def Let_def split: option.split prod.split bool.split)
qed

section \<open>Histories\<close>

text \<open>What can happen to a ledger, in any order; the host's answers to \<open>inUse\<close> and the clock vary freely.\<close>

datatype ledger_op =
  Prune "jstring \<Rightarrow> bool" int
| Admit "jstring \<Rightarrow> bool" int jstring jstring jstring jstring
| Retain nat "nat option"
| Settle nat int int

definition ledger_step ::
  "limits \<Rightarrow> (jstring \<Rightarrow> jstring) \<Rightarrow> ledger_op \<Rightarrow> ledger \<Rightarrow> (refusal + admission) option \<times> ledger" where
  "ledger_step opt digest op L =
     (case op of
        Prune inUse t \<Rightarrow> (None, prune opt digest inUse t L)
      | Admit inUse t client token ident canonical \<Rightarrow>
          map_prod Some id (admit opt digest inUse t client (scope_key client token)
            (operation_key client token ident) canonical L)
      | Retain i fit \<Rightarrow> (None, retainTerminal opt i fit L)
      | Settle i t t' \<Rightarrow> (None, settle opt t t' i L))"

definition op_scope :: "ledger_op \<Rightarrow> jstring" where
  "op_scope op = (case op of Admit _ _ client token _ _ \<Rightarrow> scope_key client token | _ \<Rightarrow> [])"

definition admits :: "(refusal + admission) option \<Rightarrow> bool" where
  "admits r \<longleftrightarrow> (case r of Some x \<Rightarrow> admitted x | None \<Rightarrow> False)"

text \<open>The state after a history, and how many effects it started in the scopes of interest.\<close>

fun play :: "limits \<Rightarrow> (jstring \<Rightarrow> jstring) \<Rightarrow> ledger_op list \<Rightarrow> ledger \<Rightarrow> ledger" where
  "play opt digest [] L = L"
| "play opt digest (op # ops) L = play opt digest ops (snd (ledger_step opt digest op L))"

fun started :: "limits \<Rightarrow> (jstring \<Rightarrow> jstring) \<Rightarrow> (jstring \<Rightarrow> bool) \<Rightarrow> ledger_op list \<Rightarrow> ledger \<Rightarrow> nat" where
  "started opt digest P [] L = 0"
| "started opt digest P (op # ops) L =
     (if P (op_scope op) \<and> admits (fst (ledger_step opt digest op L)) then 1 else 0)
     + started opt digest P ops (snd (ledger_step opt digest op L))"

lemma ledger_step_ok: "view_ok (view L) \<Longrightarrow> view_ok (view (snd (ledger_step opt digest op L)))"
proof (cases op)
  case (Prune inUse t)
  then show "view_ok (view L) \<Longrightarrow> ?thesis" using forgets_ok [OF prune_forgets] by (simp add: ledger_step_def)
next
  case (Admit inUse t client token ident canonical)
  then show "view_ok (view L) \<Longrightarrow> ?thesis" using admit_ok by (simp add: ledger_step_def) (metis prod.collapse)
next
  case (Settle i t t')
  then show "view_ok (view L) \<Longrightarrow> ?thesis"
    using view_settle [of opt t t' i L] touch_ok [of "settle_start i L"]
    by (auto simp: ledger_step_def view_settle_start)
qed (simp add: ledger_step_def view_retain)

lemma play_ok: "view_ok (view L) \<Longrightarrow> view_ok (view (play opt digest ops L))"
  by (induction ops arbitrary: L) (simp_all add: ledger_step_ok)


lemma install_remembers:
  assumes "view_ok (view L)" "remembers k h (digest k) n m (view L)"
    and "k' = k \<Longrightarrow> digest key \<noteq> h"
  shows "remembers k h (digest k) (n + (if k' = k then 1 else 0)) (Suc m)
     (view (install digest t client k' key canonical b L))"
proof (cases "k' = k")
  case False
  show ?thesis unfolding view_install
    by (rule remembers_mono [OF remembers_move_last_other [OF assms(2) False assms(1)]]) auto
next
  case True
  show ?thesis
  proof (cases "find_scope k (lg_scopes L)")
    case (Some s)
    let ?ks = "map fst (sc_window s)"
    have "h \<in> set ?ks \<longrightarrow> h \<in> set (?ks @ [digest key]) \<and> newer h (?ks @ [digest key]) \<le> newer h ?ks + 1"
      using assms(3) True by (auto simp: newer_snoc)
    then have "remembers k h (digest k) (n + 1) m (move_last k (?ks @ [digest key]) (view L))"
      by (rule remembers_move_last_own [OF assms(2,1) find_scope_view [OF Some]])
    then show ?thesis using Some True by (auto simp: view_install remembers_def)
  next
    case None
    then have no: "(k, ks) \<notin> set (fst (view L))" for ks by (force simp: find_scope_None view_def)
    then have "digest k \<in> set (snd (view L))" "newer (digest k) (snd (view L)) + length (fst (view L)) < m"
      using assms(2) by (auto simp: remembers_def)
    moreover obtain w where "length (filter (\<lambda>x. fst x \<noteq> k) (fst (view L))) = w" "w \<le> length (fst (view L))"
      using length_filter_le by blast
    ultimately show ?thesis using None True
      by (auto simp: view_install remembers_def move_last_def)
  qed
qed

lemma step_remembers:
  assumes "view_ok (view L)" "remembers k (digest key) (digest k) n m (view L)"
    and "n + 2 \<le> windowIds opt" "m \<le> maxForgotten opt"
  shows "remembers k (digest key) (digest k)
     (n + (if op_scope op = k \<and> admits (fst (ledger_step opt digest op L)) then 1 else 0))
     (m + (if admits (fst (ledger_step opt digest op L)) then 1 else 0))
     (view (snd (ledger_step opt digest op L)))"
proof (cases op)
  case (Prune inUse t)
  then show ?thesis using forgets_remembers [where digest = digest and k = k, OF prune_forgets [OF assms(1)] assms(1,2,4)]
    by (simp add: ledger_step_def admits_def)
next
  case (Retain i fit)
  then show ?thesis using assms(2) by (simp add: ledger_step_def admits_def view_retain)
next
  case (Settle i t t')
  then show ?thesis
    using view_settle [of opt t t' i L] assms(2) touch_remembers [of "settle_start i L" k "digest key" "digest k" n m t]
      assms(1) by (auto simp: ledger_step_def admits_def view_settle_start)
next
  case (Admit inUse t client token ident canonical)
  let ?k = "scope_key client token" and ?key = "operation_key client token ident"
  obtain r L' where res: "admit opt digest inUse t client ?k ?key canonical L = (r, L')" by force
  have step: "ledger_step opt digest op L = (Some r, L')" "op_scope op = ?k" "admits (Some r) = admitted r"
    using Admit res by (simp_all add: ledger_step_def op_scope_def admits_def)
  show ?thesis using admit_view [OF assms(1) res]
  proof (elim disjE conjE exE)
    fix L3
    assume look: "ledger_lookup digest ?k ?key L = Inr None"
      and f: "forgets (maxForgotten opt) digest (- {?k}) (view (trimmed opt ?k L)) (view L3)"
      and out: "if admitted r then view L' = view (install digest t client ?k ?key canonical (utf8_length canonical) L3)
        else view L' = view L3"
    have ok: "view_ok (view (trimmed opt ?k L))" by (rule trimmed_ok [OF assms(1)])
    have rem: "remembers k (digest key) (digest k) n m (view L3)"
      by (rule forgets_remembers [where digest = digest and k = k, OF f ok trimmed_remembers [OF assms(1-3)] assms(4)])
    have "digest ?key \<noteq> digest key" if "?k = k"
    proof
      assume "digest ?key = digest key"
      then have "ledger_lookup digest k ?key L \<noteq> Inr None"
        by (intro lookup_remembers [where digest = digest and k = k, OF assms(2,1)]) simp
      then show False using look that by simp
    qed
    then have "remembers k (digest key) (digest k) (n + (if ?k = k then 1 else 0)) (Suc m)
        (view (install digest t client ?k ?key canonical (utf8_length canonical) L3))"
      by (rule install_remembers [where digest = digest and k = k, OF forgets_ok [OF f ok] rem])
    then show ?thesis using out rem unfolding step fst_conv snd_conv by (cases "admitted r") simp_all
  qed (use assms(2) step in simp)
qed

lemma play_remembers:
  assumes "view_ok (view L)" "remembers k (digest key) (digest k) n m (view L)"
    and "n + started opt digest (\<lambda>s. s = k) ops L + 2 \<le> windowIds opt"
    and "m + started opt digest (\<lambda>_. True) ops L \<le> maxForgotten opt"
  shows "\<exists>n m. remembers k (digest key) (digest k) n m (view (play opt digest ops L))"
  using assms
proof (induction ops arbitrary: L n m)
  case (Cons op ops)
  note rem = step_remembers [OF Cons.prems(1,2), of opt op]
  show ?case using Cons.IH [OF ledger_step_ok [OF Cons.prems(1)] rem] Cons.prems(3,4) by (auto split: if_splits)
qed auto

lemma view_length: "length (fst (view L)) = length (lg_scopes L)"
  by (simp add: view_def)

lemma install_remembered:
  assumes "room (digest k) m (view L)"
  shows "remembers k (digest key) (digest k) 0 (m + 1) (view (install digest t client k key canonical b L))"
proof -
  show ?thesis using assms
    by (auto simp: view_install remembers_def room_def move_last_def newer_snoc
        intro: le_less_trans [OF add_left_mono [OF length_filter_le]] order_trans [OF length_filter_le])
qed

text \<open>
  C1. An accepted operation runs at most once. Take any reachable ledger that admits an id, and
  any later history in which fewer than \<open>windowIds - 1\<close> other ids are admitted in its scope and
  which admits too few operations to push its scope out of the forgotten ones. However results
  settle, expire, are evicted or whole scopes are forgotten, the same id is not admitted again,
  whatever the payload. Nothing is assumed of the digest: a collision can only refuse an id.
\<close>

theorem admitted_at_most_once:
  assumes "L = play opt digest before_ops new_ledger"
    and "admit opt digest inUse t client (scope_key client token) (operation_key client token ident) canonical L
       = (Inr (Admitted i), L1)"
    and "started opt digest (\<lambda>s. s = scope_key client token) ops L1 + 2 \<le> windowIds opt"
    and "length (lg_scopes L) + 1 + started opt digest (\<lambda>_. True) ops L1 \<le> maxForgotten opt"
  shows "fst (admit opt digest inUse' t' client (scope_key client token) (operation_key client token ident)
      canonical' (play opt digest ops L1)) \<noteq> Inr (Admitted j)"
proof -
  let ?k = "scope_key client token" and ?key = "operation_key client token ident"
  have "view_ok (view new_ledger)" by (simp add: view_ok_def view_def new_ledger_def)
  then have ok: "view_ok (view L)" unfolding assms(1) by (rule play_ok)
  have ok1: "view_ok (view L1)" by (rule admit_ok [OF ok assms(2)])
  obtain L3 where look: "ledger_lookup digest ?k ?key L = Inr None"
    and f: "forgets (maxForgotten opt) digest (- {?k}) (view (trimmed opt ?k L)) (view L3)"
    and out: "view L1 = view (install digest t client ?k ?key canonical (utf8_length canonical) L3)"
    using admit_view [OF ok assms(2)] by auto
  have "room (digest ?k) (length (lg_scopes L)) (view (trimmed opt ?k L))"
    using lookup_not_forgotten [OF look]
    by (cases "find_scope ?k (lg_scopes L)") (simp_all add: room_def trimmed_def view_trim set_window_def view_length)
  then have "room (digest ?k) (length (lg_scopes L)) (view L3)"
    using forgets_room [where digest = digest and k = ?k, OF f trimmed_ok [OF ok]] assms(4) by simp
  then have "remembers ?k (digest ?key) (digest ?k) 0 (length (lg_scopes L) + 1) (view L1)"
    unfolding out by (rule install_remembered)
  then obtain n m where rem: "remembers ?k (digest ?key) (digest ?k) n m (view (play opt digest ops L1))"
    using play_remembers [OF ok1] assms(3,4) by (metis add_0)
  have "ledger_lookup digest ?k ?key (play opt digest ops L1) \<noteq> Inr None"
    by (rule lookup_remembers [OF rem play_ok [OF ok1] refl])
  then show ?thesis
    using admit_view [OF play_ok [OF ok1], of opt digest inUse' t' client ?k ?key canonical' opt digest ops]
    by (metis admitted_simps(3) prod.collapse)
qed


definition small_limits :: limits where
  "small_limits = \<lparr>maxEntries = 2, windowIds = 3, maxIds = 8, idleScopeMs = 10, maxForgotten = 3,
     retentionMs = 10, maxPayloadBytes = 64, maxBytes = 64\<rparr>"

text \<open>The result of id \<open>a\<close> was too large to keep.\<close>

definition sample_history :: "ledger_op list" where
  "sample_history =
     [Retain 0 None]"

definition sample_start :: ledger where
  "sample_start = snd (admit small_limits (\<lambda>x. x) (\<lambda>_. False) 1 (js ''c'') (scope_key (js ''c'') (js ''t''))
     (operation_key (js ''c'') (js ''t'') (js ''a'')) (js ''1'') new_ledger)"

lemma sample_start_admitted:
  "admit small_limits (\<lambda>x. x) (\<lambda>_. False) 1 (js ''c'') (scope_key (js ''c'') (js ''t''))
     (operation_key (js ''c'') (js ''t'') (js ''a'')) (js ''1'') new_ledger = (Inr (Admitted 0), sample_start)"
proof -
  have "fst (admit small_limits (\<lambda>x. x) (\<lambda>_. False) 1 (js ''c'') (scope_key (js ''c'') (js ''t''))
     (operation_key (js ''c'') (js ''t'') (js ''a'')) (js ''1'') new_ledger) = Inr (Admitted 0)" by code_simp
  then show ?thesis unfolding sample_start_def by (metis prod.collapse)
qed

theorem admitted_at_most_once_witness:
  "fst (admit small_limits (\<lambda>x. x) (\<lambda>_. False) 25 (js ''c'') (scope_key (js ''c'') (js ''t''))
      (operation_key (js ''c'') (js ''t'') (js ''a'')) (js ''2'')
      (play small_limits (\<lambda>x. x) sample_history sample_start)) \<noteq> Inr (Admitted 0)"
proof (rule admitted_at_most_once [OF _ sample_start_admitted])
  show "new_ledger = play small_limits (\<lambda>x. x) [] new_ledger" by simp
  show "started small_limits (\<lambda>x. x) (\<lambda>s. s = scope_key (js ''c'') (js ''t'')) sample_history sample_start + 2
      \<le> windowIds small_limits" by code_simp
  show "length (lg_scopes new_ledger) + 1 + started small_limits (\<lambda>x. x) (\<lambda>_. True) sample_history sample_start
      \<le> maxForgotten small_limits" by code_simp
qed

section \<open>Keys and payloads\<close>

lemma id_char_plain:
  "id_char c \<Longrightarrow> c \<noteq> cDQ \<and> c \<noteq> 44 \<and> json_char c = [c] \<and> \<not> (55296 \<le> c \<and> c \<le> 56319) \<and> \<not> (56320 \<le> c \<and> c \<le> 57343)"
  by (auto simp: id_char_def is_wordch_def is_alnum_def is_alpha_def is_upper_def is_lower_def is_digit_def json_char_def)

lemma identity_chars: "list_all id_char v \<Longrightarrow> json_chars v = v"
  by (induction v rule: json_chars.induct) (auto simp: id_char_plain dest: id_char_plain)

lemma identity_quote: "validIdentity v \<Longrightarrow> json_string v = cDQ # v @ [cDQ]"
  by (simp add: json_string_def validIdentity_def identity_chars)

lemma quoted_split:
  assumes "cDQ \<notin> set v" "cDQ \<notin> set w" "v @ cDQ # x = w @ cDQ # y"
  shows "v = w \<and> x = y"
proof -
  have "takeWhile (\<lambda>c. c \<noteq> cDQ) (v @ cDQ # x) = v" using assms(1) by (subst takeWhile_append2) auto
  moreover have "takeWhile (\<lambda>c. c \<noteq> cDQ) (w @ cDQ # y) = w" using assms(2) by (subst takeWhile_append2) auto
  ultimately show ?thesis using assms(3) by simp
qed

lemma identity_no_quote: "validIdentity v \<Longrightarrow> cDQ \<notin> set v"
  by (auto simp: validIdentity_def list_all_iff dest: id_char_plain)

text \<open>
  Distinct operations have distinct keys, although ids may contain the characters that
  separate the parts: no two triples of client, token and id share one.
\<close>

theorem operation_key_injective:
  assumes "validIdentity c" "validIdentity t" "validIdentity i" "validIdentity c'" "validIdentity t'" "validIdentity i'"
    and "operation_key c t i = operation_key c' t' i'"
  shows "c = c' \<and> t = t' \<and> i = i'"
proof -
  have key: "operation_key c t i = 91 # cDQ # (c @ cDQ # (44 # cDQ # (t @ cDQ # (44 # cDQ # (i @ cDQ # [93])))))"
    if "validIdentity c" "validIdentity t" "validIdentity i" for c t i
    using that by (simp add: operation_key_def json_strings_def identity_quote)
  have "c @ cDQ # (44 # cDQ # (t @ cDQ # (44 # cDQ # (i @ cDQ # [93]))))
      = c' @ cDQ # (44 # cDQ # (t' @ cDQ # (44 # cDQ # (i' @ cDQ # [93]))))"
    using assms(7) unfolding key [OF assms(1-3)] key [OF assms(4-6)] by (simp only: list.inject)
  note c = quoted_split [OF assms(1,4) [THEN identity_no_quote] this]
  then have "t @ cDQ # (44 # cDQ # (i @ cDQ # [93])) = t' @ cDQ # (44 # cDQ # (i' @ cDQ # [93]))"
    by (simp only: list.inject)
  note t = quoted_split [OF assms(2,5) [THEN identity_no_quote] this]
  then have "i @ cDQ # [93] = i' @ cDQ # [93]" by (simp only: list.inject)
  with c t show ?thesis by simp
qed

theorem operation_key_injective_example:
  "js ''a.b'' = js ''a.b'' \<and> js ''t'' = js ''t'' \<and> js ''1:2'' = js ''1:2''"
  by (rule operation_key_injective) code_simp+

text \<open>
  The order in which a client writes the fields of a payload does not matter: objects with
  the same fields have the same canonical text, so a resend is never taken for a conflict.
\<close>

theorem canonicalJson_field_order:
  assumes "mset kvs = mset kvs'" "distinct (map fst kvs)"
  shows "canonicalJson (JObj kvs) = canonicalJson (JObj kvs')"
proof -
  let ?f = "\<lambda>(k, v). (k, canonicalJson v)"
  have "mset (map ?f kvs) = mset (map ?f kvs')" using assms(1) by simp
  moreover have "inj_on fst (set (map ?f kvs))"
  proof -
    have "distinct (map fst (map ?f kvs))" using assms(2) by (simp add: comp_def case_prod_beta)
    then show ?thesis by (simp only: distinct_map)
  qed
  ultimately have "sort_key fst (map ?f kvs) = sort_key fst (map ?f kvs')"
    by (intro sort_key_inj_key_eq) simp_all
  then show ?thesis by simp
qed

theorem canonicalJson_field_order_example:
  "canonicalJson (JObj [(js ''b'', JNum (js ''1'')), (js ''a'', JNull)])
   = canonicalJson (JObj [(js ''a'', JNull), (js ''b'', JNum (js ''1''))])"
  by (rule canonicalJson_field_order) (simp_all add: js_inj)

end
