(* ===== verification/PatchFormat.thy ===== *)
theory PatchFormat
  imports Prelude "HOL-Library.Sublist"
begin

text \<open>
  The patch format of the editing tool (\<open>extensions/builtin-tools/src/patch-format.ts\<close>): the
  parser \<open>parsePatch\<close>, which reads lines one after another into a list of operations whose last
  one is still open, and \<open>applyUpdate\<close>, which finds the hunks of one update in a file and
  replaces their lines. Errors are values; the text shown for a hunk that does not match is left
  out, except for what it is about.
\<close>

section \<open>Patches\<close>

record hunk =
  h_context :: "jstring option"
  h_old :: "jstring list"
  h_new :: "jstring list"
  h_indices :: "(nat \<times> nat) list"
  h_eof :: bool

datatype operation =
  AddFile jstring jstring
| DeleteFile jstring
| UpdateFile jstring "jstring option" "hunk list"

definition op_path :: "operation \<Rightarrow> jstring" where
  "op_path p = (case p of AddFile f _ \<Rightarrow> f | DeleteFile f \<Rightarrow> f | UpdateFile f _ _ \<Rightarrow> f)"

datatype patch_error =
  FirstLine
| LastLine
| BadLine nat "jstring option" jstring \<comment> \<open>the line from 1, the file being read, the message\<close>
| Mismatch jstring nat "jstring list" nat \<comment> \<open>file, hunk from 1, expected lines, first line searched from 1\<close>

definition begin_patch :: jstring where "begin_patch = js ''*** Begin Patch''"
definition end_patch :: jstring where "end_patch = js ''*** End Patch''"
definition end_of_file :: jstring where "end_of_file = js ''*** End of File''"

text \<open>The operation still open: the last one.\<close>

definition current :: "operation list \<Rightarrow> operation option" where
  "current ops = (if ops = [] then None else Some (last ops))"

definition single :: "string \<Rightarrow> jstring" where
  "single s = [cSQ] @ js s @ [cSQ]"

definition fail_at :: "nat \<Rightarrow> operation list \<Rightarrow> jstring \<Rightarrow> patch_error" where
  "fail_at i ops message = BadLine (i + 1) (map_option op_path (current ops)) message"

definition empty_hunk :: "jstring option \<Rightarrow> hunk" where
  "empty_hunk c = \<lparr>h_context = c, h_old = [], h_new = [], h_indices = [], h_eof = False\<rparr>"

definition no_lines :: "hunk \<Rightarrow> bool" where
  "no_lines h \<longleftrightarrow> h_old h = [] \<and> h_new h = []"

definition checkUpdate :: "nat \<Rightarrow> operation list \<Rightarrow> patch_error option" where
  "checkUpdate i ops =
     (case current ops of
        Some (UpdateFile _ _ hunks) \<Rightarrow>
          if hunks = [] then Some (fail_at i ops (js ''Update file hunk is empty''))
          else if no_lines (last hunks) then Some (fail_at i ops (js ''Update hunk does not contain any lines''))
          else None
      | _ \<Rightarrow> None)"

datatype file_kind = Add | Delete | Update

definition file_header :: "jstring \<Rightarrow> (file_kind \<times> jstring) option" where
  "file_header marker = first_some (map (\<lambda>(k, p). map_option (Pair k) (after_prefix (js p) marker))
     [(Add, ''*** Add File: ''), (Delete, ''*** Delete File: ''), (Update, ''*** Update File: '')])"

definition new_operation :: "file_kind \<Rightarrow> jstring \<Rightarrow> operation" where
  "new_operation k path = (case k of
     Add \<Rightarrow> AddFile path [] | Delete \<Rightarrow> DeleteFile path | Update \<Rightarrow> UpdateFile path None [])"

text \<open>One line of a hunk: context, removed or added.\<close>

definition add_line :: "jstring \<Rightarrow> hunk \<Rightarrow> hunk" where
  "add_line line h =
     (let value = drop 1 line in
      if line = [] \<or> hd line = cSP then
        h\<lparr>h_indices := h_indices h @ [(length (h_old h), length (h_new h))],
          h_old := h_old h @ [value], h_new := h_new h @ [value]\<rparr>
      else if hd line = ch CHR ''-'' then h\<lparr>h_old := h_old h @ [value]\<rparr>
      else h\<lparr>h_new := h_new h @ [value]\<rparr>)"

definition hunk_start :: "jstring \<Rightarrow> bool" where
  "hunk_start marker \<longleftrightarrow> marker = js ''@@'' \<or> starts_with marker (js ''@@ '')"

text \<open>A line inside an update: its path, its move and its hunks so far.\<close>

definition update_line ::
  "nat \<Rightarrow> operation list \<Rightarrow> jstring \<Rightarrow> jstring \<Rightarrow> jstring option \<Rightarrow> hunk list
     \<Rightarrow> patch_error + jstring option \<times> hunk list" where
  "update_line i ops line marker moveTo hunks =
     (let h = (if hunks = [] then None else Some (last hunks));
          closed = (case h of Some x \<Rightarrow> h_eof x | None \<Rightarrow> False)
      in if closed \<and> marker = [] then Inr (moveTo, hunks)
         else if closed \<and> \<not> hunk_start marker then Inl (fail_at i ops (js ''Expected @@ after End of File''))
         else if hunks = [] \<and> moveTo = None \<and> starts_with marker (js ''*** Move to: '')
           then Inr (Some (drop (length ''*** Move to: '') marker), hunks)
         else if hunk_start marker then
           (if h \<noteq> None \<and> no_lines (the h) then Inl (fail_at i ops (js ''Update hunk does not contain any lines''))
            else Inr (moveTo, hunks @ [empty_hunk (if marker = js ''@@'' then None else Some (drop 3 marker))]))
         else if marker = end_of_file then
           (if h = None \<or> no_lines (the h) then Inl (fail_at i ops (js ''End of File requires a nonempty update hunk''))
            else Inr (moveTo, butlast hunks @ [(last hunks)\<lparr>h_eof := True\<rparr>]))
         else if line \<noteq> [] \<and> \<not> one_of (hd line) '' +-'' then
           Inl (fail_at i ops (js ''Every update line must start with '' @ single '' '' @ js '' (context), '' @ single ''+''
             @ js '' (added), or '' @ single ''-'' @ js '' (removed)''))
         else let hs = (if h = None then [empty_hunk None] else hunks)
              in Inr (moveTo, butlast hs @ [add_line line (last hs)]))"

text \<open>
  One line of a patch: the operations after it, and whether it ended the patch. \<open>final\<close> tells
  whether it is the last line.
\<close>

definition patch_line ::
  "nat \<Rightarrow> bool \<Rightarrow> jstring \<Rightarrow> operation list \<Rightarrow> patch_error + bool \<times> operation list" where
  "patch_line i final line ops =
     (let updating = (case current ops of Some (UpdateFile _ _ _) \<Rightarrow> True | _ \<Rightarrow> False);
          marker = (if updating then trim_end line else trim line)
      in if starts_with marker (js ''*** Environment ID:'') then
           Inl (fail_at i ops (js ''Environment ID is unsupported; patches apply to the current workspace''))
         else if marker = end_patch \<or> (final \<and> trim line = end_patch) then
           (case checkUpdate i ops of
              Some e \<Rightarrow> Inl e
            | None \<Rightarrow> if \<not> final then Inl (fail_at i ops (js ''Unexpected content after End Patch'')) else Inr (True, ops))
         else case file_header marker of
             Some (k, path) \<Rightarrow>
               (case checkUpdate i ops of
                  Some e \<Rightarrow> Inl e | None \<Rightarrow> Inr (False, ops @ [new_operation k path]))
           | None \<Rightarrow>
               (case current ops of
                  Some (AddFile path content) \<Rightarrow>
                    if \<not> starts_with line (js ''+'') then
                      Inl (fail_at i ops (js ''Every line of an added file must start with '' @ single ''+''))
                    else Inr (False, butlast ops @ [AddFile path (content @ drop 1 line @ [cNL])])
                | Some (UpdateFile path moveTo hunks) \<Rightarrow>
                    (case update_line i ops line marker moveTo hunks of
                       Inl e \<Rightarrow> Inl e
                     | Inr (m, hs) \<Rightarrow> Inr (False, butlast ops @ [UpdateFile path m hs]))
                | _ \<Rightarrow> Inl (fail_at i ops (js ''Expected an Add File, Delete File, or Update File header''))))"

fun patch_lines :: "nat \<Rightarrow> jstring list \<Rightarrow> operation list \<Rightarrow> patch_error + operation list" where
  "patch_lines i [] ops = Inl LastLine"
| "patch_lines i (line # rest) ops =
     (case patch_line i (rest = []) line ops of
        Inl e \<Rightarrow> Inl e
      | Inr (True, ops') \<Rightarrow> Inr ops'
      | Inr (False, ops') \<Rightarrow> patch_lines (i + 1) rest ops')"

text \<open>A patch wrapped as a here-document loses its first and last line.\<close>

definition unwrap :: "jstring list \<Rightarrow> jstring list" where
  "unwrap ls =
     (if ls \<noteq> [] \<and> hd ls \<in> {js ''<<EOF'', js ''<<'' @ [cSQ] @ js ''EOF'' @ [cSQ], js ''<<'' @ [cDQ] @ js ''EOF'' @ [cDQ]}
         \<and> ends_with (last ls) (js ''EOF'')
      then butlast (drop 1 ls) else ls)"

definition parsePatch :: "jstring \<Rightarrow> patch_error + operation list" where
  "parsePatch input =
     (let ls = unwrap (split_lines (trim input)) in
      if ls = [] \<or> trim (hd ls) \<noteq> begin_patch then Inl FirstLine
      else if trim (last ls) \<noteq> end_patch then Inl LastLine
      else patch_lines 1 (drop 1 ls) [])"

section \<open>Applying an update\<close>

type_synonym source_line = "jstring \<times> jstring" \<comment> \<open>text and line ending\<close>

text \<open>\<open>/([^\r\n]*)(\r\n|\n|\r|$)/g\<close>, the empty match left out.\<close>

fun source_from :: "jstring \<Rightarrow> jstring \<Rightarrow> source_line list" where
  "source_from acc [] = (if acc = [] then [] else [(acc, [])])"
| "source_from acc (c # r) =
     (if c = cCR then
        (case r of
           d # r' \<Rightarrow> if d = cNL then (acc, [cCR, cNL]) # source_from [] r' else (acc, [cCR]) # source_from [] r
         | [] \<Rightarrow> [(acc, [cCR])])
      else if c = cNL then (acc, [cNL]) # source_from [] r
      else source_from (acc @ [c]) r)"

definition sourceLines :: "jstring \<Rightarrow> source_line list" where
  "sourceLines t = source_from [] t"

definition plain_mark :: "cu \<Rightarrow> cu" where
  "plain_mark c =
     (if (8208 \<le> c \<and> c \<le> 8213) \<or> c = 8722 then ch CHR ''-''
      else if 8216 \<le> c \<and> c \<le> 8219 then cSQ
      else if 8220 \<le> c \<and> c \<le> 8223 then cDQ
      else if c = 160 \<or> (8194 \<le> c \<and> c \<le> 8202) \<or> c = 8239 \<or> c = 8287 \<or> c = 12288 then cSP
      else c)"

definition normalize :: "jstring \<Rightarrow> jstring" where
  "normalize line = map plain_mark (trim line)"

definition line_matches :: "(jstring \<Rightarrow> jstring) \<Rightarrow> source_line list \<Rightarrow> jstring list \<Rightarrow> nat \<Rightarrow> bool" where
  "line_matches f ls pattern i \<longleftrightarrow>
     list_all (\<lambda>(p, l). f p = f (fst l)) (zip pattern (drop i ls))"

definition seek :: "source_line list \<Rightarrow> jstring list \<Rightarrow> nat \<Rightarrow> bool \<Rightarrow> nat option" where
  "seek ls pattern start atEnd =
     (if pattern = [] then Some start
      else
        let first = (if atEnd then max start (length ls - length pattern) else start)
        in first_some (map (\<lambda>f. List.find (line_matches f ls pattern) [first ..< Suc (length ls) - length pattern])
             [(\<lambda>s. s), trim_end, trim, normalize]))"

record replacement =
  rp_start :: nat
  rp_count :: nat
  rp_lines :: "source_line list"

definition eol_at :: "source_line list \<Rightarrow> int \<Rightarrow> jstring" where
  "eol_at ls i = (if 0 \<le> i \<and> nat i < length ls then snd (ls ! nat i) else [])"

definition or_eol :: "jstring \<Rightarrow> jstring \<Rightarrow> jstring" where
  "or_eol a b = (if a \<noteq> [] then a else b)"

text \<open>
  The lines put in place of the old ones: context lines are copied from the file, added ones take
  the line ending found there. \<open>pos\<close> walks over the old lines.
\<close>

fun new_lines ::
  "source_line list \<Rightarrow> nat \<Rightarrow> nat \<Rightarrow> (nat \<rightharpoonup> nat) \<Rightarrow> jstring \<Rightarrow> nat \<Rightarrow> nat \<Rightarrow> jstring list \<Rightarrow> source_line list" where
  "new_lines ls start olds ctx eol i pos [] = []"
| "new_lines ls start olds ctx eol i pos (value # values) =
     (case ctx i of
        Some oldIndex \<Rightarrow>
          if oldIndex < olds then
            ls ! (start + oldIndex) # new_lines ls start olds ctx eol (i + 1) (oldIndex + 1) values
          else (value, or_eol (eol_at ls (int (start + pos))) (or_eol (eol_at ls (int (start + pos) - 1)) eol))
            # new_lines ls start olds ctx eol (i + 1) (if pos < olds then pos + 1 else pos) values
      | None \<Rightarrow>
          (value, or_eol (eol_at ls (int (start + pos))) (or_eol (eol_at ls (int (start + pos) - 1)) eol))
            # new_lines ls start olds ctx eol (i + 1) (if pos < olds then pos + 1 else pos) values)"

definition drop_blank :: "jstring list \<Rightarrow> jstring list" where
  "drop_blank xs = (if xs \<noteq> [] \<and> last xs = [] then butlast xs else xs)"

text \<open>Where one hunk applies, and what it puts there; the cursor after it.\<close>

definition place_hunk ::
  "jstring \<Rightarrow> source_line list \<Rightarrow> jstring \<Rightarrow> nat \<Rightarrow> hunk \<Rightarrow> nat \<Rightarrow> patch_error + replacement \<times> nat" where
  "place_hunk path ls eol index h cursor0 =
     (let found = (case h_context h of
            None \<Rightarrow> Inr cursor0
          | Some c \<Rightarrow> (case seek ls [c] cursor0 False of
               None \<Rightarrow> Inl (Mismatch path (index + 1) [c] (cursor0 + 1)) | Some i \<Rightarrow> Inr (i + 1)))
      in case found of
           Inl e \<Rightarrow> Inl e
         | Inr cursor \<Rightarrow>
             let at0 = (if h_old h \<noteq> [] then seek ls (h_old h) cursor (h_eof h) else Some (length ls));
                 retry = (at0 = None \<and> h_old h \<noteq> [] \<and> last (h_old h) = []);
                 olds = (if retry then butlast (h_old h) else h_old h);
                 news = (if retry then drop_blank (h_new h) else h_new h);
                 at = (if retry then seek ls olds cursor (h_eof h) else at0)
             in case at of
                  None \<Rightarrow> Inl (Mismatch path (index + 1) (h_old h) (cursor + 1))
                | Some start \<Rightarrow>
                    Inr (\<lparr>rp_start = start, rp_count = length olds,
                          rp_lines = new_lines ls start (length olds)
                            (map_of (rev (map (\<lambda>(a, b). (b, a)) (h_indices h)))) eol 0 0 news\<rparr>,
                         if olds \<noteq> [] then start + length olds else cursor))"

fun place_hunks ::
  "jstring \<Rightarrow> source_line list \<Rightarrow> jstring \<Rightarrow> nat \<Rightarrow> hunk list \<Rightarrow> nat \<Rightarrow> patch_error + replacement list" where
  "place_hunks path ls eol index [] cursor = Inr []"
| "place_hunks path ls eol index (h # hs) cursor =
     (case place_hunk path ls eol index h cursor of
        Inl e \<Rightarrow> Inl e
      | Inr (r, cursor') \<Rightarrow>
          (case place_hunks path ls eol (index + 1) hs cursor' of Inl e \<Rightarrow> Inl e | Inr rs \<Rightarrow> Inr (r # rs)))"

definition splice_at :: "replacement \<Rightarrow> source_line list \<Rightarrow> source_line list" where
  "splice_at r xs = take (rp_start r) xs @ rp_lines r @ drop (rp_start r + rp_count r) xs"

definition defaultEol :: "source_line list \<Rightarrow> jstring" where
  "defaultEol ls = (case List.find (\<lambda>l. snd l \<noteq> []) ls of Some l \<Rightarrow> snd l | None \<Rightarrow> [cNL])"

text \<open>Every line but the last ends; the last ends as the file did.\<close>

definition finish_lines :: "source_line list \<Rightarrow> source_line list \<Rightarrow> source_line list" where
  "finish_lines ls result =
     (if result = [] then []
      else map (\<lambda>(t, e). (t, or_eol e (defaultEol ls))) (butlast result)
           @ [(fst (last result),
               if ls = [] then defaultEol ls
               else if snd (last ls) \<noteq> [] then or_eol (snd (last result)) (defaultEol ls) else [])])"

definition line_text :: "source_line list \<Rightarrow> jstring" where
  "line_text ls = concat (map (\<lambda>(t, e). t @ e) ls)"

definition applyUpdate :: "jstring \<Rightarrow> jstring \<Rightarrow> hunk list \<Rightarrow> patch_error + jstring" where
  "applyUpdate file path hunks =
     (let ls = sourceLines file in
      case place_hunks path ls (defaultEol ls) 0 hunks 0 of
        Inl e \<Rightarrow> Inl e
      | Inr rs \<Rightarrow> Inr (line_text (finish_lines ls (foldr splice_at (sort_key rp_start rs) ls))))"


section \<open>Writing patches\<close>

text \<open>A patch as one would write it: a hunk is a list of kept, removed and added lines.\<close>

datatype edit = Keep jstring | Remove jstring | Put jstring

type_synonym source_hunk = "jstring option \<times> edit list \<times> bool"

datatype source_op =
  SAdd jstring "jstring list"
| SDelete jstring
| SUpdate jstring "jstring option" "source_hunk list"

fun edit_line :: "edit \<Rightarrow> jstring" where
  "edit_line (Keep s) = cSP # s"
| "edit_line (Remove s) = ch CHR ''-'' # s"
| "edit_line (Put s) = ch CHR ''+'' # s"

fun hunk_lines :: "source_hunk \<Rightarrow> jstring list" where
  "hunk_lines (c, es, eof) =
     (case c of None \<Rightarrow> js ''@@'' | Some t \<Rightarrow> js ''@@ '' @ t) # map edit_line es
     @ (if eof then [end_of_file] else [])"

fun op_lines :: "source_op \<Rightarrow> jstring list" where
  "op_lines (SAdd p ls) = (js ''*** Add File: '' @ p) # map (Cons (ch CHR ''+'')) ls"
| "op_lines (SDelete p) = [js ''*** Delete File: '' @ p]"
| "op_lines (SUpdate p m hs) =
     (js ''*** Update File: '' @ p) # (case m of None \<Rightarrow> [] | Some q \<Rightarrow> [js ''*** Move to: '' @ q])
     @ concat (map hunk_lines hs)"

definition patch_text :: "source_op list \<Rightarrow> jstring" where
  "patch_text ops = join_with [cNL] (begin_patch # concat (map op_lines ops) @ [end_patch])"

text \<open>What the parser should make of it.\<close>

fun olds :: "edit list \<Rightarrow> jstring list" where
  "olds [] = []"
| "olds (Keep s # es) = s # olds es"
| "olds (Remove s # es) = s # olds es"
| "olds (Put s # es) = olds es"

fun news :: "edit list \<Rightarrow> jstring list" where
  "news [] = []"
| "news (Keep s # es) = s # news es"
| "news (Remove s # es) = news es"
| "news (Put s # es) = s # news es"

fun kept_at :: "nat \<Rightarrow> nat \<Rightarrow> edit list \<Rightarrow> (nat \<times> nat) list" where
  "kept_at a b [] = []"
| "kept_at a b (Keep s # es) = (a, b) # kept_at (a + 1) (b + 1) es"
| "kept_at a b (Remove s # es) = kept_at (a + 1) b es"
| "kept_at a b (Put s # es) = kept_at a (b + 1) es"

fun hunk_of :: "source_hunk \<Rightarrow> hunk" where
  "hunk_of (c, es, eof) =
     \<lparr>h_context = c, h_old = olds es, h_new = news es, h_indices = kept_at 0 0 es, h_eof = eof\<rparr>"

fun operation_of :: "source_op \<Rightarrow> operation" where
  "operation_of (SAdd p ls) = AddFile p (concat (map (\<lambda>l. l @ [cNL]) ls))"
| "operation_of (SDelete p) = DeleteFile p"
| "operation_of (SUpdate p m hs) = UpdateFile p m (map hunk_of hs)"

definition one_line :: "jstring \<Rightarrow> bool" where
  "one_line s \<longleftrightarrow> cNL \<notin> set s \<and> (s \<noteq> [] \<longrightarrow> last s \<noteq> cCR)"

text \<open>A name that ends no line and is not cut by trimming.\<close>

definition plain_name :: "jstring \<Rightarrow> bool" where
  "plain_name s \<longleftrightarrow> s \<noteq> [] \<and> list_all (\<lambda>c. \<not> line_end c) s \<and> \<not> is_space (last s)"

fun edit_ok :: "edit \<Rightarrow> bool" where
  "edit_ok (Keep s) = one_line s"
| "edit_ok (Remove s) = one_line s"
| "edit_ok (Put s) = one_line s"

fun hunk_ok :: "source_hunk \<Rightarrow> bool" where
  "hunk_ok (c, es, eof) \<longleftrightarrow> es \<noteq> [] \<and> list_all edit_ok es \<and> (case c of Some t \<Rightarrow> plain_name t | None \<Rightarrow> True)"

fun source_ok :: "source_op \<Rightarrow> bool" where
  "source_ok (SAdd p ls) \<longleftrightarrow> plain_name p \<and> list_all one_line ls"
| "source_ok (SDelete p) \<longleftrightarrow> plain_name p"
| "source_ok (SUpdate p m hs) \<longleftrightarrow>
     plain_name p \<and> (case m of Some q \<Rightarrow> plain_name q | None \<Rightarrow> True) \<and> hs \<noteq> [] \<and> list_all hunk_ok hs"

section \<open>Lines of a patch\<close>

lemma trim_end_id: "s = [] \<or> \<not> is_space (last s) \<Longrightarrow> trim_end s = s"
  by (cases s rule: rev_cases) (auto simp: trim_end_def)

lemma trim_start_id: "s = [] \<or> \<not> is_space (hd s) \<Longrightarrow> trim_start s = s"
  by (cases s) (auto simp: trim_start_def)

lemma trim_id: "s \<noteq> [] \<Longrightarrow> \<not> is_space (hd s) \<Longrightarrow> \<not> is_space (last s) \<Longrightarrow> trim s = s"
  by (simp add: trim_def trim_start_id trim_end_id)

lemma trim_end_Cons: "trim_end (c # s) = (if trim_end s = [] \<and> is_space c then [] else c # trim_end s)"
  by (auto simp: trim_end_def dropWhile_append)

lemma trim_Cons: "\<not> is_space c \<Longrightarrow> trim (c # s) = c # trim_end s"
  by (simp add: trim_def trim_start_def trim_end_Cons)

lemma space_codes [simp]: "\<not> is_space 42" "\<not> is_space 43" "\<not> is_space 45" "\<not> is_space 64" "\<not> is_space 104" "is_space 32"
  "is_space 10" "is_space 13"
  by (simp_all add: is_space_def)

lemma split_lines_join:
  assumes "ls \<noteq> []" "\<forall>l \<in> set ls. one_line l"
  shows "split_lines (join_with [cNL] ls) = ls"
  using assms
proof (induction ls rule: induct_list012)
  case (2 l)
  have "one_line l \<Longrightarrow> split_lines l = [l]"
  proof (induction l)
    case (Cons c l)
    then show ?case by (cases l) (auto simp: one_line_def)
  qed simp
  then show ?case using 2 by simp
next
  case (3 l v ws)
  have "one_line l \<Longrightarrow> split_lines (l @ cNL # r) = l # split_lines r" for r
  proof (induction l)
    case (Cons c l)
    then show ?case by (cases l) (auto simp: one_line_def)
  qed simp
  then show ?case using 3 by simp
qed simp

definition starred :: "jstring \<Rightarrow> bool" where
  "starred m \<longleftrightarrow> m \<noteq> [] \<and> hd m = 42"

lemma unstarred_marker:
  assumes "\<not> starred m"
  shows "\<not> starts_with m (js ''*** Environment ID:'')" "m \<noteq> end_patch" "file_header m = None"
    "m \<noteq> end_of_file" "\<not> starts_with m (js ''*** Move to: '')"
  using assms
  by (cases m; auto simp: starred_def starts_with_def js_simps end_patch_def end_of_file_def file_header_def
      after_prefix_def)+

lemma line_not_final: "patch_lines i (line # rest) ops =
    (case patch_line i False line ops of Inl e \<Rightarrow> Inl e | Inr (True, ops') \<Rightarrow> Inr ops'
     | Inr (False, ops') \<Rightarrow> patch_lines (i + 1) rest ops')" if "rest \<noteq> []"
  using that by simp

lemma current_snoc [simp]: "current (ops @ [x]) = Some x"
  by (simp add: current_def)

definition marker_of :: "jstring \<Rightarrow> operation list \<Rightarrow> jstring" where
  "marker_of line ops = (if (case current ops of Some (UpdateFile _ _ _) \<Rightarrow> True | _ \<Rightarrow> False) then trim_end line else trim line)"

lemma marker_starred:
  "hd line = 42 \<Longrightarrow> line \<noteq> [] \<Longrightarrow> \<not> is_space (last line) \<Longrightarrow> marker_of line ops = line"
  by (simp add: marker_of_def trim_id trim_end_id)

lemma after_prefix_append:
  "plain_name p \<Longrightarrow> after_prefix q (q @ p) = Some p"
  by (simp add: after_prefix_def dots_def plain_name_def)

lemma header_line:
  assumes "plain_name p" "checkUpdate i ops = None"
    and "(k, h) \<in> {(Add, ''*** Add File: ''), (Delete, ''*** Delete File: ''), (Update, ''*** Update File: '')}"
  shows "patch_line i False (js h @ p) ops = Inr (False, ops @ [new_operation k p])"
proof -
  have m: "marker_of (js h @ p) ops = js h @ p"
    by (rule marker_starred) (use assms(1,3) in \<open>auto simp: js_simps plain_name_def\<close>)
  have "file_header (js h @ p) = Some (k, p)"
    using assms(3) after_prefix_append [OF assms(1)]
    by (auto simp: file_header_def after_prefix_def starts_with_def js_simps)
  moreover have "\<not> starts_with (js h @ p) (js ''*** Environment ID:'')" "js h @ p \<noteq> end_patch"
    using assms(3) by (auto simp: starts_with_def js_simps end_patch_def)
  ultimately show ?thesis using assms(2) m
    by (simp add: patch_line_def marker_of_def Let_def)
qed

lemma add_file_line:
  "patch_line i False (43 # l) (ops @ [AddFile p c]) = Inr (False, ops @ [AddFile p (c @ l @ [cNL])])"
proof -
  have "\<not> starred (trim (43 # l))" by (simp add: trim_Cons starred_def)
  from unstarred_marker [OF this] show ?thesis
    by (simp add: patch_line_def Let_def starts_with_def js_simps)
qed

lemma update_file_line:
  assumes "\<not> starred (trim_end l)"
    "update_line i (ops @ [UpdateFile p m hs]) l (trim_end l) m hs = Inr (m', hs')"
  shows "patch_line i False l (ops @ [UpdateFile p m hs]) = Inr (False, ops @ [UpdateFile p m' hs'])"
  using unstarred_marker [OF assms(1)] assms(2) by (simp add: patch_line_def Let_def)


section \<open>Hunks\<close>

lemma edit_line_marker: "\<not> starred (trim_end (edit_line e))"
  by (cases e) (auto simp: trim_end_Cons starred_def)

lemma hunk_start_edit: "\<not> hunk_start (trim_end (edit_line e))"
  by (cases e) (auto simp: trim_end_Cons hunk_start_def starts_with_def js_simps)

lemma add_line_eof [simp]: "h_eof (add_line l h) = h_eof h"
  by (simp add: add_line_def Let_def)

lemma edit_step:
  "\<not> h_eof h \<Longrightarrow> update_line i ops (edit_line e) (trim_end (edit_line e)) m (hs @ [h])
     = Inr (m, hs @ [add_line (edit_line e) h])"
  using unstarred_marker [OF edit_line_marker [of e]] hunk_start_edit [of e]
  by (cases e) (simp_all add: update_line_def Let_def one_of_simps)

lemma edits_run:
  assumes "\<not> h_eof h" "rest \<noteq> []"
  shows "patch_lines i (map edit_line es @ rest) (ops @ [UpdateFile p m (hs @ [h])])
    = patch_lines (i + length es) rest (ops @ [UpdateFile p m (hs @ [fold add_line (map edit_line es) h])])"
  using assms
proof (induction es arbitrary: i h)
  case (Cons e es)
  have "patch_line i False (edit_line e) (ops @ [UpdateFile p m (hs @ [h])])
      = Inr (False, ops @ [UpdateFile p m (hs @ [add_line (edit_line e) h])])"
    by (rule update_file_line [OF edit_line_marker edit_step [OF Cons.prems(1)]])
  then show ?case using Cons.IH [of "add_line (edit_line e) h" "i + 1"] Cons.prems by simp
qed simp

lemma fold_add_line:
  "fold add_line (map edit_line es) h = h\<lparr>h_old := h_old h @ olds es, h_new := h_new h @ news es,
     h_indices := h_indices h @ kept_at (length (h_old h)) (length (h_new h)) es\<rparr>"
  by (induction es arbitrary: h rule: olds.induct) (simp_all add: add_line_def)

lemma start_line:
  assumes "hs = [] \<or> \<not> no_lines (last hs)" "case c of Some t \<Rightarrow> plain_name t | None \<Rightarrow> True"
    and "line = (case c of None \<Rightarrow> js ''@@'' | Some t \<Rightarrow> js ''@@ '' @ t)"
  shows "patch_line i False line (ops @ [UpdateFile p m hs]) = Inr (False, ops @ [UpdateFile p m (hs @ [empty_hunk c])])"
proof -
  have m: "trim_end line = line"
    by (rule trim_end_id) (use assms(2,3) in \<open>auto simp: js_simps plain_name_def split: option.splits\<close>)
  have un: "\<not> starred (trim_end line)"
    unfolding m using assms(3) by (auto simp: starred_def js_simps split: option.splits)
  have st: "hunk_start line" and is_c: "(if line = js ''@@'' then None else Some (drop 3 line)) = c"
    and ne: "line \<noteq> []"
    using assms(2,3) by (auto simp: hunk_start_def starts_with_def js_simps plain_name_def split: option.splits)
  have "update_line i (ops @ [UpdateFile p m hs]) line line m hs = Inr (m, hs @ [empty_hunk c])"
    using unstarred_marker(5) [OF un] assms(1) st is_c ne unfolding m
    by (auto simp: update_line_def Let_def)
  then show ?thesis by (intro update_file_line [OF un]) (simp add: m)
qed

lemma eof_line:
  assumes "\<not> no_lines h" "\<not> h_eof h"
  shows "patch_line i False end_of_file (ops @ [UpdateFile p m (hs @ [h])])
    = Inr (False, ops @ [UpdateFile p m (hs @ [h\<lparr>h_eof := True\<rparr>])])"
proof -
  have m: "trim_end end_of_file = end_of_file" by code_simp
  have "\<not> starts_with end_of_file (js ''*** Environment ID:'')" "end_of_file \<noteq> end_patch"
    "file_header end_of_file = None" "\<not> hunk_start end_of_file" by code_simp+
  then show ?thesis using assms by (simp add: patch_line_def update_line_def Let_def m)
qed

lemma move_line:
  assumes "plain_name q"
  shows "patch_line i False (js ''*** Move to: '' @ q) (ops @ [UpdateFile p None []])
    = Inr (False, ops @ [UpdateFile p (Some q) []])"
proof -
  let ?l = "js ''*** Move to: '' @ q"
  have m: "trim_end ?l = ?l"
    by (rule trim_end_id) (use assms in \<open>auto simp: js_simps plain_name_def\<close>)
  have "\<not> starts_with ?l (js ''*** Environment ID:'')" "?l \<noteq> end_patch"
    "file_header ?l = None" "starts_with ?l (js ''*** Move to: '')"
    by (simp_all add: starts_with_def js_simps end_patch_def file_header_def after_prefix_def)
  moreover have "drop (length ''*** Move to: '') ?l = q" by (simp add: js_simps)
  ultimately show ?thesis unfolding patch_line_def update_line_def Let_def current_snoc m by simp
qed

lemma hunk_run:
  assumes "hunk_ok sh" "hs = [] \<or> \<not> no_lines (last hs)" "rest \<noteq> []"
  shows "patch_lines i (hunk_lines sh @ rest) (ops @ [UpdateFile p m hs])
    = patch_lines (i + length (hunk_lines sh)) rest (ops @ [UpdateFile p m (hs @ [hunk_of sh])])"
proof (cases sh)
  case (fields c es eof)
  let ?h = "\<lparr>h_context = c, h_old = olds es, h_new = news es, h_indices = kept_at 0 0 es, h_eof = False\<rparr>"
  have f: "fold add_line (map edit_line es) (empty_hunk c) = ?h"
    by (simp add: fold_add_line empty_hunk_def)
  have full: "\<not> no_lines ?h"
    using assms(1) fields by (cases es; cases "hd es") (auto simp: no_lines_def)
  have first: "patch_lines i (hunk_lines sh @ rest) (ops @ [UpdateFile p m hs])
      = patch_lines (i + 1) (map edit_line es @ (if eof then [end_of_file] else []) @ rest) (ops @ [UpdateFile p m (hs @ [empty_hunk c])])"
    using start_line [OF assms(2) _ refl, of c i ops p m] assms(1,3) fields
    by (auto simp: line_not_final split: option.splits)
  also have "\<dots> = patch_lines (i + 1 + length es) ((if eof then [end_of_file] else []) @ rest) (ops @ [UpdateFile p m (hs @ [?h])])"
    using edits_run [of "empty_hunk c"] assms(3) f by (simp add: empty_hunk_def)
  also have "\<dots> = patch_lines (i + length (hunk_lines sh)) rest (ops @ [UpdateFile p m (hs @ [hunk_of sh])])"
    using eof_line [OF full] assms(3) fields by (auto simp: line_not_final)
  finally show ?thesis .
qed

lemma hunk_of_full: "hunk_ok sh \<Longrightarrow> \<not> no_lines (hunk_of sh)"
proof (cases sh)
  case (fields c es eof)
  assume "hunk_ok sh"
  then show ?thesis using fields by (cases es; cases "hd es") (auto simp: no_lines_def)
qed

lemma hunks_run:
  assumes "list_all hunk_ok shs" "hs = [] \<or> \<not> no_lines (last hs)" "rest \<noteq> []"
  shows "patch_lines i (concat (map hunk_lines shs) @ rest) (ops @ [UpdateFile p m hs])
    = patch_lines (i + length (concat (map hunk_lines shs))) rest (ops @ [UpdateFile p m (hs @ map hunk_of shs)])"
  using assms
proof (induction shs arbitrary: i hs)
  case (Cons sh shs)
  then show ?case
    using hunk_run [of sh hs "concat (map hunk_lines shs) @ rest" i ops p m] hunk_of_full [of sh]
      Cons.IH [of "hs @ [hunk_of sh]" "i + length (hunk_lines sh)"]
    by (simp add: add.assoc)
qed simp

section \<open>Operations\<close>

lemma op_checked: "source_ok op \<Longrightarrow> checkUpdate i (ops @ [operation_of op]) = None"
  by (cases op) (auto simp: checkUpdate_def hunk_of_full list_all_iff last_map)

lemma add_lines_run:
  "rest \<noteq> [] \<Longrightarrow> patch_lines i (map (Cons 43) ls @ rest) (ops @ [AddFile p c])
    = patch_lines (i + length ls) rest (ops @ [AddFile p (c @ concat (map (\<lambda>l. l @ [cNL]) ls))])"
proof (induction ls arbitrary: i c)
  case (Cons l ls)
  then show ?case using Cons.IH [of "i + 1" "c @ l @ [cNL]"] by (simp add: line_not_final add_file_line)
qed simp

lemma op_run:
  assumes "source_ok op" "\<And>j. checkUpdate j ops = None" "rest \<noteq> []"
  shows "patch_lines i (op_lines op @ rest) ops = patch_lines (i + length (op_lines op)) rest (ops @ [operation_of op])"
proof (cases op)
  case (SAdd p ls)
  have h: "patch_line i False (js ''*** Add File: '' @ p) ops = Inr (False, ops @ [AddFile p []])" for i
    using header_line [of p i ops Add] assms(1,2) SAdd by (simp add: new_operation_def)
  show ?thesis using assms(3) add_lines_run [of rest "i + 1" ls ops p "[]"] SAdd
    by (simp add: line_not_final h)
next
  case (SDelete p)
  have h: "patch_line i False (js ''*** Delete File: '' @ p) ops = Inr (False, ops @ [DeleteFile p])" for i
    using header_line [of p i ops Delete] assms(1,2) SDelete by (simp add: new_operation_def)
  show ?thesis using assms(3) SDelete by (simp add: line_not_final h)
next
  case (SUpdate p m hs)
  have h: "patch_line i False (js ''*** Update File: '' @ p) ops = Inr (False, ops @ [UpdateFile p None []])" for i
    using header_line [of p i ops Update] assms(1,2) SUpdate by (simp add: new_operation_def)
  have ne: "concat (map hunk_lines hs) @ rest \<noteq> []" using assms(3) by simp
  show ?thesis
  proof (cases m)
    case None
    then show ?thesis using SUpdate assms(1,3) ne hunks_run [of hs "[]" rest "i + 1" ops p None]
      by (simp add: line_not_final h)
  next
    case (Some q)
    then show ?thesis
      using SUpdate assms(1,3) ne hunks_run [of hs "[]" rest "i + 1 + 1" ops p m] move_line [of q _ ops p]
      by (simp add: line_not_final h)
  qed
qed

lemma ops_run:
  assumes "list_all source_ok sops" "\<And>j. checkUpdate j ops = None" "rest \<noteq> []"
  shows "patch_lines i (concat (map op_lines sops) @ rest) ops
    = patch_lines (i + length (concat (map op_lines sops))) rest (ops @ map operation_of sops)"
  using assms
proof (induction sops arbitrary: i ops)
  case (Cons op sops)
  then show ?case
    using op_run [of op ops "concat (map op_lines sops) @ rest" i] op_checked [of op _ ops]
      Cons.IH [of "ops @ [operation_of op]" "i + length (op_lines op)"]
    by (simp add: add.assoc)
qed simp


lemma end_run:
  assumes "checkUpdate i ops = None"
  shows "patch_lines i [end_patch] ops = Inr ops"
proof -
  have "trim end_patch = end_patch" "trim_end end_patch = end_patch"
    "\<not> starts_with end_patch (js ''*** Environment ID:'')" by code_simp+
  then show ?thesis using assms by (simp add: patch_line_def Let_def)
qed

lemma one_line_Cons: "c \<noteq> cNL \<Longrightarrow> c \<noteq> cCR \<Longrightarrow> one_line (c # s) \<longleftrightarrow> one_line s"
  by (auto simp: one_line_def)

lemma one_line_name: "plain_name p \<Longrightarrow> one_line (js t @ p) \<longleftrightarrow> cNL \<notin> set (js t)"
  by (auto simp: one_line_def plain_name_def list_all_iff line_end_def)

lemma plain_name_one_line: "plain_name p \<Longrightarrow> one_line p"
  by (auto simp: one_line_def plain_name_def list_all_iff line_end_def)

lemma op_lines_single:
  assumes "source_ok op" "l \<in> set (op_lines op)"
  shows "one_line l"
proof -
  have edit: "edit_ok e \<Longrightarrow> one_line (edit_line e)" for e by (cases e) (simp_all add: one_line_Cons)
  have hunk: "hunk_ok sh \<Longrightarrow> l \<in> set (hunk_lines sh) \<Longrightarrow> one_line l" for sh
    by (cases sh) (auto simp: list_all_iff edit one_line_name end_of_file_def split: option.splits if_splits;
        simp add: one_line_def js_simps)
  show ?thesis
    using assms hunk
    by (cases op) (auto simp: list_all_iff one_line_Cons plain_name_one_line js_simps simp del: hunk_lines.simps hunk_ok.simps
        split: option.splits)
qed

lemma join_with_Cons: "join_with s (x # xs) = x @ concat (map (\<lambda>w. s @ w) xs)"
  by (induction xs arbitrary: x) auto

lemma patch_text_trim: "trim (patch_text sops) = patch_text sops"
proof (rule trim_id)
  let ?mid = "concat (map (\<lambda>w. cNL # w) (concat (map op_lines sops)))"
  have eq: "patch_text sops = begin_patch @ ?mid @ cNL # end_patch"
    by (simp add: patch_text_def join_with_Cons)
  have "begin_patch \<noteq> []" "hd begin_patch = 42" "end_patch \<noteq> []" "last end_patch = 104" by code_simp+
  then show "patch_text sops \<noteq> []" "\<not> is_space (hd (patch_text sops))" "\<not> is_space (last (patch_text sops))"
    unfolding eq by simp_all
qed

lemma parsePatch_text:
  assumes "list_all source_ok sops"
  shows "parsePatch (patch_text sops) = Inr (map operation_of sops)"
proof -
  let ?body = "concat (map op_lines sops)"
  let ?ls = "begin_patch # ?body @ [end_patch]"
  have "one_line begin_patch" "one_line end_patch" by code_simp+
  moreover have "one_line l" if "l \<in> set ?body" for l
    using that assms op_lines_single by (auto simp: list_all_iff)
  ultimately have "split_lines (patch_text sops) = ?ls"
    unfolding patch_text_def by (intro split_lines_join) auto
  moreover have "unwrap ?ls = ?ls"
    by (simp add: unwrap_def begin_patch_def js_simps)
  moreover have "trim begin_patch = begin_patch" "trim end_patch = end_patch" by code_simp+
  ultimately have "parsePatch (patch_text sops) = patch_lines 1 (?body @ [end_patch]) []"
    by (simp add: parsePatch_def patch_text_trim)
  also have "\<dots> = patch_lines (1 + length ?body) [end_patch] (map operation_of sops)"
    using ops_run [OF assms, of "[]" "[end_patch]" 1] by (simp add: checkUpdate_def current_def)
  also have "\<dots> = Inr (map operation_of sops)"
  proof (rule end_run)
    show "checkUpdate i (map operation_of sops) = None" for i
    proof (cases sops rule: rev_cases)
      case (snoc ys op)
      then show ?thesis using op_checked [of op i "map operation_of ys"] assms by simp
    qed (simp add: checkUpdate_def current_def)
  qed
  finally show ?thesis .
qed

text \<open>
  C28. Patches round-trip: every patch written in the format (files added, deleted, moved and
  updated by any hunks of kept, removed and added lines, with or without context headers and
  end-of-file marks) is parsed back to exactly the operations it stands for.
\<close>

theorem parsePatch_roundtrip:
  assumes "list_all source_ok sops"
  shows "parsePatch (patch_text sops) = Inr (map operation_of sops)"
  using assms by (rule parsePatch_text)

theorem parsePatch_roundtrip_witness:
  "parsePatch (patch_text [SAdd (js ''a.acc'') [js ''x'', []], SUpdate (js ''b'') (Some (js ''c''))
     [(Some (js ''f()''), [Keep (js ''k''), Remove (js ''r''), Put (js ''p'')], True)]])
   = Inr [AddFile (js ''a.acc'') (js ''x'' @ [cNL, cNL]), UpdateFile (js ''b'') (Some (js ''c''))
     [\<lparr>h_context = Some (js ''f()''), h_old = [js ''k'', js ''r''], h_new = [js ''k'', js ''p''],
       h_indices = [(0, 0)], h_eof = True\<rparr>]]"
proof -
  have "list_all source_ok [SAdd (js ''a.acc'') [js ''x'', []], SUpdate (js ''b'') (Some (js ''c''))
     [(Some (js ''f()''), [Keep (js ''k''), Remove (js ''r''), Put (js ''p'')], True)]]" by code_simp
  from parsePatch_roundtrip [OF this] show ?thesis by simp
qed


section \<open>The lines of a file\<close>

lemma source_from_eqs:
  "source_from acc (13 # 10 # r) = (acc, [cCR, cNL]) # source_from [] r"
  "r = [] \<or> hd r \<noteq> 10 \<Longrightarrow> source_from acc (13 # r) = (acc, [cCR]) # source_from [] r"
  "source_from acc (10 # r) = (acc, [cNL]) # source_from [] r"
  "c \<noteq> 13 \<Longrightarrow> c \<noteq> 10 \<Longrightarrow> source_from acc (c # r) = source_from (acc @ [c]) r"
  by (cases r; simp)+

declare source_from.simps(2) [simp del]

lemma source_from_induct [case_names Nil CRNL CR NL other]:
  assumes "\<And>acc. P acc []" "\<And>acc r. P [] r \<Longrightarrow> P acc (13 # 10 # r)"
    "\<And>acc r. r = [] \<or> hd r \<noteq> 10 \<Longrightarrow> P [] r \<Longrightarrow> P acc (13 # r)" "\<And>acc r. P [] r \<Longrightarrow> P acc (10 # r)"
    "\<And>acc c r. c \<noteq> 13 \<Longrightarrow> c \<noteq> 10 \<Longrightarrow> P (acc @ [c]) r \<Longrightarrow> P acc (c # r)"
  shows "P acc (s :: jstring)"
proof (induction "length s" arbitrary: acc s rule: less_induct)
  case less
  show ?case
  proof (cases s)
    case (Cons c r)
    consider "c = 13" "r \<noteq> []" "hd r = 10" | "c = 13" "r = [] \<or> hd r \<noteq> 10" | "c = 10" | "c \<noteq> 13" "c \<noteq> 10" by blast
    then show ?thesis
    proof cases
      case 1
      then show ?thesis using Cons less assms(2) by (cases r) auto
    qed (use Cons less assms in auto)
  qed (use assms(1) in simp)
qed

lemma source_from_text: "line_text (source_from acc s) = acc @ s"
  by (induction acc s rule: source_from_induct) (auto simp: line_text_def source_from_eqs)

definition closed_line :: "source_line \<Rightarrow> bool" where
  "closed_line l \<longleftrightarrow> snd l \<noteq> []"

lemma source_from_closed: "\<forall>l \<in> set (butlast (source_from acc s)). closed_line l"
  by (induction acc s rule: source_from_induct) (auto simp: closed_line_def source_from_eqs)

lemma source_from_plain:
  "cNL \<notin> set acc \<Longrightarrow> cCR \<notin> set acc \<Longrightarrow> l \<in> set (source_from acc s) \<Longrightarrow>
    cNL \<notin> set (fst l) \<and> cCR \<notin> set (fst l) \<and> snd l \<in> {[], [cNL], [cCR], [cCR, cNL]}"
  by (induction acc s rule: source_from_induct) (auto simp: source_from_eqs split: if_splits)

text \<open>
  A file is its lines: joining the lines with their endings gives the file back, no line text
  holds a line break, and only the last line may lack an ending.
\<close>

theorem sourceLines_exact:
  "line_text (sourceLines t) = t
   \<and> (\<forall>l \<in> set (sourceLines t). cNL \<notin> set (fst l) \<and> cCR \<notin> set (fst l) \<and> snd l \<in> {[], [cNL], [cCR], [cCR, cNL]})
   \<and> (\<forall>l \<in> set (butlast (sourceLines t)). snd l \<noteq> [])"
  using source_from_text [of "[]" t] source_from_plain [of "[]" _ t] source_from_closed [of "[]" t]
  by (auto simp: sourceLines_def closed_line_def)

theorem sourceLines_exact_example:
  "(js ''b'', [cCR, cNL]) \<in> set (sourceLines (js ''a'' @ [cNL] @ js ''b'' @ [cCR, cNL]))
   \<and> cNL \<notin> set (fst (js ''b'', [cCR, cNL]))"
proof -
  have "(js ''b'', [cCR, cNL]) \<in> set (sourceLines (js ''a'' @ [cNL] @ js ''b'' @ [cCR, cNL]))" by code_simp
  then show ?thesis using sourceLines_exact [of "js ''a'' @ [cNL] @ js ''b'' @ [cCR, cNL]"] by blast
qed

section \<open>Finding the lines of a hunk\<close>

lemma line_matches_nth:
  "i + length p \<le> length ls \<Longrightarrow>
   line_matches f ls p i \<longleftrightarrow> (\<forall>j < length p. f (p ! j) = f (fst (ls ! (i + j))))"
  by (auto simp: line_matches_def list_all_length)

lemma first_some_Some: "first_some xs = Some v \<Longrightarrow> Some v \<in> set xs"
  by (induction xs) (auto split: option.splits)

lemma seek_Some:
  assumes "seek ls p start atEnd = Some i"
  shows "start \<le> i" "p \<noteq> [] \<Longrightarrow> i + length p \<le> length ls"
    "p \<noteq> [] \<Longrightarrow> \<exists>f \<in> {\<lambda>s. s, trim_end, trim, normalize}. \<forall>j < length p. f (p ! j) = f (fst (ls ! (i + j)))"
proof -
  have "start \<le> i \<and> (p \<noteq> [] \<longrightarrow> i + length p \<le> length ls
      \<and> (\<exists>f \<in> {\<lambda>s. s, trim_end, trim, normalize}. \<forall>j < length p. f (p ! j) = f (fst (ls ! (i + j)))))"
  proof (cases "p = []")
    case False
    let ?first = "if atEnd then max start (length ls - length p) else start"
    from assms False have "Some i \<in> set (map (\<lambda>f. List.find (line_matches f ls p) [?first ..< Suc (length ls) - length p])
             [(\<lambda>s. s), trim_end, trim, normalize])"
      unfolding seek_def Let_def by (intro first_some_Some) simp
    then obtain f where "f \<in> set [(\<lambda>s. s), trim_end, trim, normalize]"
      "Some i = List.find (line_matches f ls p) [?first ..< Suc (length ls) - length p]"
      unfolding set_map by (rule imageE)
    then have f: "f \<in> {\<lambda>s. s, trim_end, trim, normalize}"
      "List.find (line_matches f ls p) [?first ..< Suc (length ls) - length p] = Some i"
      by (simp_all only: list.set)
    then obtain m where m: "m < length [?first ..< Suc (length ls) - length p]"
      "line_matches f ls p ([?first ..< Suc (length ls) - length p] ! m)" "i = [?first ..< Suc (length ls) - length p] ! m"
      unfolding find_Some_iff by blast
    have i: "line_matches f ls p i" using m(2) unfolding m(3) .
    have "i \<in> set [?first ..< Suc (length ls) - length p]" unfolding m(3) by (rule nth_mem [OF m(1)])
    then have "?first \<le> i" "i < Suc (length ls) - length p" unfolding set_upt by (simp_all only: atLeastLessThan_iff)
    then have "?first \<le> i" "i + length p \<le> length ls" by linarith+
    moreover have "start \<le> ?first" by simp
    ultimately have "start \<le> i" "i + length p \<le> length ls" by linarith+
    then show ?thesis using f(1) i line_matches_nth by blast
  qed (use assms in \<open>simp add: seek_def\<close>)
  then show "start \<le> i" "p \<noteq> [] \<Longrightarrow> i + length p \<le> length ls"
    "p \<noteq> [] \<Longrightarrow> \<exists>f \<in> {\<lambda>s. s, trim_end, trim, normalize}. \<forall>j < length p. f (p ! j) = f (fst (ls ! (i + j)))"
    by blast+
qed

lemma find_skip: "\<forall>x \<in> set xs. \<not> P x \<Longrightarrow> List.find P (xs @ ys) = List.find P ys"
  by (induction xs) auto

lemma find_upt:
  assumes "start \<le> i" "i < b" "P i" "\<And>k. start \<le> k \<Longrightarrow> k < i \<Longrightarrow> \<not> P k"
  shows "List.find P [start ..< b] = Some i"
proof -
  have "[start ..< b] = [start ..< i] @ i # [Suc i ..< b]"
    using assms(1,2) by (metis le_add_diff_inverse less_imp_le_nat upt_add_eq_append upt_conv_Cons)
  then show ?thesis using assms(3,4) by (simp add: find_skip)
qed

lemma seek_first:
  assumes "p \<noteq> []" and lo: "start \<le> i" and hi: "i + length p \<le> length ls"
    and here: "\<forall>j < length p. p ! j = fst (ls ! (i + j))"
    and before: "\<And>k. start \<le> k \<Longrightarrow> k < i \<Longrightarrow> \<exists>j < length p. p ! j \<noteq> fst (ls ! (k + j))"
  shows "seek ls p start False = Some i"
proof -
  have "List.find (line_matches (\<lambda>s. s) ls p) [start ..< Suc (length ls) - length p] = Some i"
  proof (rule find_upt [OF lo])
    show "i < Suc (length ls) - length p" using hi by linarith
    show "line_matches (\<lambda>s. s) ls p i" unfolding line_matches_nth [OF hi] by (rule here)
    fix k assume k: "start \<le> k" "k < i"
    then have "k + length p \<le> length ls" using hi by linarith
    then show "\<not> line_matches (\<lambda>s. s) ls p k" using before [OF k] by (simp only: line_matches_nth) blast
  qed
  then show ?thesis using assms(1) by (simp add: seek_def)
qed

text \<open>
  A hunk is applied only where it matches: the lines found are inside the file, at or after
  the search start, and equal the expected ones up to one of the four normalizations. If the
  expected lines stand somewhere exactly, the first exact place is taken, whatever else matches
  loosely before it.
\<close>

theorem seek_finds:
  assumes "p \<noteq> []"
  shows "(seek ls p start False = Some i \<longrightarrow> start \<le> i \<and> i + length p \<le> length ls
      \<and> (\<exists>f \<in> {\<lambda>s. s, trim_end, trim, normalize}. \<forall>j < length p. f (p ! j) = f (fst (ls ! (i + j)))))
    \<and> (start \<le> i \<and> i + length p \<le> length ls \<and> (\<forall>j < length p. p ! j = fst (ls ! (i + j)))
       \<and> (\<forall>k. start \<le> k \<and> k < i \<longrightarrow> (\<exists>j < length p. p ! j \<noteq> fst (ls ! (k + j))))
       \<longrightarrow> seek ls p start False = Some i)"
proof (intro conjI impI)
  assume exact: "start \<le> i \<and> i + length p \<le> length ls \<and> (\<forall>j < length p. p ! j = fst (ls ! (i + j)))
       \<and> (\<forall>k. start \<le> k \<and> k < i \<longrightarrow> (\<exists>j < length p. p ! j \<noteq> fst (ls ! (k + j))))"
  then show "seek ls p start False = Some i" using assms by (intro seek_first) blast+
next
  assume "seek ls p start False = Some i"
  from seek_Some [OF this] assms
  show "start \<le> i" "i + length p \<le> length ls"
    "\<exists>f \<in> {\<lambda>s. s, trim_end, trim, normalize}. \<forall>j < length p. f (p ! j) = f (fst (ls ! (i + j)))"
    by simp_all
qed

theorem seek_finds_example:
  "seek [(js ''x '', [cNL]), (js ''x'', [cNL])] [js ''x''] 0 False = Some 1"
  using seek_finds [of "[js ''x'']" "[(js ''x '', [cNL]), (js ''x'', [cNL])]" 0 1]
  by (simp add: js_simps)

section \<open>Replacing lines\<close>

text \<open>One pass over the file that copies what no replacement covers.\<close>

fun weave :: "source_line list \<Rightarrow> nat \<Rightarrow> replacement list \<Rightarrow> source_line list" where
  "weave ls pos [] = drop pos ls"
| "weave ls pos (r # rs) =
     take (rp_start r - pos) (drop pos ls) @ rp_lines r @ weave ls (rp_start r + rp_count r) rs"

definition disjoint_from :: "replacement \<Rightarrow> replacement \<Rightarrow> bool" where
  "disjoint_from r r' \<longleftrightarrow> rp_start r + rp_count r \<le> rp_start r'"

lemma weave_drop:
  assumes "sorted_wrt disjoint_from rs" "\<forall>r \<in> set rs. pos \<le> rp_start r \<and> rp_start r + rp_count r \<le> length ls"
  shows "foldr splice_at rs ls = take pos ls @ weave ls pos rs"
  using assms
proof (induction rs arbitrary: pos)
  case (Cons r rs)
  let ?q = "rp_start r + rp_count r"
  have "foldr splice_at rs ls = take ?q ls @ weave ls ?q rs"
    using Cons.prems by (intro Cons.IH) (auto simp: disjoint_from_def)
  moreover have "?q \<le> length ls" "pos \<le> rp_start r" using Cons.prems(2) by auto
  moreover have "take (rp_start r) ls = take pos ls @ take (rp_start r - pos) (drop pos ls)"
    using \<open>pos \<le> rp_start r\<close> by (metis le_add_diff_inverse take_add)
  ultimately show ?case unfolding foldr.simps comp_def splice_at_def by simp
qed simp

lemma sort_disjoint:
  assumes "sorted_wrt (\<lambda>r t. disjoint_from r t \<or> (rp_count r = 0 \<and> disjoint_from t r)) rs"
  shows "sorted_wrt disjoint_from (sort_key rp_start rs)"
  using assms
proof (induction rs)
  case (Cons r rs)
  have ins: "sorted_wrt disjoint_from (insort_key rp_start r ts)"
    if "sorted_wrt disjoint_from ts" "\<forall>t \<in> set ts. disjoint_from r t \<or> (rp_count r = 0 \<and> disjoint_from t r)" for ts
    using that
  proof (induction ts)
    case (Cons t ts)
    then show ?case by (auto simp: disjoint_from_def set_insort_key)
  qed simp
  show ?case using Cons by (auto intro!: ins)
qed simp

lemma place_hunk_start:
  assumes "place_hunk path ls eol index h cursor0 = Inr (r, cursor')" "cursor0 \<le> length ls"
  obtains cursor olds where "cursor0 \<le> cursor" "cursor \<le> cursor'" "cursor' \<le> length ls" "cursor \<le> rp_start r"
    "rp_count r = length olds" "rp_start r + length olds \<le> length ls"
    "rp_start r + length olds \<le> cursor' \<or> length olds = 0 \<and> rp_start r = length ls"
    "olds = h_old h \<or> olds = butlast (h_old h) \<and> h_old h \<noteq> []"
    "rp_lines r = new_lines ls (rp_start r) (length olds) (map_of (rev (map (\<lambda>(a, b). (b, a)) (h_indices h)))) eol 0 0
       (if olds = h_old h then h_new h else drop_blank (h_new h))"
proof -
  obtain cursor where c: "cursor0 \<le> cursor" "cursor \<le> length ls"
    "(case h_context h of None \<Rightarrow> Inr cursor0
      | Some c \<Rightarrow> (case seek ls [c] cursor0 False of
               None \<Rightarrow> Inl (Mismatch path (index + 1) [c] (cursor0 + 1)) | Some i \<Rightarrow> Inr (i + 1))) = Inr cursor"
  proof (cases "h_context h")
    case None
    then show ?thesis using that [of cursor0] assms(2) by simp
  next
    case (Some t)
    then obtain i where i: "seek ls [t] cursor0 False = Some i"
      using assms(1) by (cases "seek ls [t] cursor0 False") (auto simp: place_hunk_def Let_def)
    then show ?thesis using that [of "i + 1"] Some seek_Some(1,2) [OF i] by simp
  qed
  let ?at = "if h_old h \<noteq> [] then seek ls (h_old h) cursor (h_eof h) else Some (length ls)"
  define retry where "retry = (?at = None \<and> h_old h \<noteq> [] \<and> last (h_old h) = [])"
  define olds where "olds = (if retry then butlast (h_old h) else h_old h)"
  have eq: "place_hunk path ls eol index h cursor0 =
      (case (if retry then seek ls olds cursor (h_eof h) else ?at) of
         None \<Rightarrow> Inl (Mismatch path (index + 1) (h_old h) (cursor + 1))
       | Some start \<Rightarrow> Inr (\<lparr>rp_start = start, rp_count = length olds,
                          rp_lines = new_lines ls start (length olds)
                            (map_of (rev (map (\<lambda>(a, b). (b, a)) (h_indices h)))) eol 0 0
                            (if retry then drop_blank (h_new h) else h_new h)\<rparr>,
                         if olds \<noteq> [] then start + length olds else cursor))"
    unfolding place_hunk_def c(3) Let_def retry_def olds_def by simp
  obtain start where st: "(if retry then seek ls olds cursor (h_eof h) else ?at) = Some start"
    using assms(1) unfolding eq by (cases "if retry then seek ls olds cursor (h_eof h) else ?at") auto
  have r: "r = \<lparr>rp_start = start, rp_count = length olds, rp_lines = new_lines ls start (length olds)
        (map_of (rev (map (\<lambda>(a, b). (b, a)) (h_indices h)))) eol 0 0 (if retry then drop_blank (h_new h) else h_new h)\<rparr>"
    "cursor' = (if olds \<noteq> [] then start + length olds else cursor)"
    using assms(1) unfolding eq st by simp_all
  have at: "cursor \<le> start \<and> start + length olds \<le> length ls \<and> (olds = [] \<longrightarrow> start = cursor \<or> start = length ls)"
  proof (cases "olds = []")
    case True
    then show ?thesis using st c(2) by (auto simp: seek_def olds_def split: if_splits)
  next
    case False
    then have "seek ls olds cursor (h_eof h) = Some start" using st by (auto simp: olds_def split: if_splits)
    then show ?thesis using seek_Some(1,2) False by blast
  qed
  have "retry \<Longrightarrow> olds \<noteq> h_old h" unfolding olds_def retry_def by (metis append_butlast_last_id append_self_conv list.distinct(1))
  then have news: "(if olds = h_old h then h_new h else drop_blank (h_new h)) = (if retry then drop_blank (h_new h) else h_new h)"
    by (auto simp: olds_def)
  have olds: "olds = h_old h \<or> olds = butlast (h_old h) \<and> h_old h \<noteq> []"
    by (simp add: olds_def retry_def)
  show ?thesis
  proof (rule that [of cursor olds])
    show "cursor0 \<le> cursor" by (rule c(1))
    show "cursor \<le> cursor'" using at r(2) by simp
    show "cursor' \<le> length ls" using at r(2) c(2) by simp
    show "cursor \<le> rp_start r" "rp_count r = length olds" "rp_start r + length olds \<le> length ls" using at r(1) by simp_all
    show "rp_start r + length olds \<le> cursor' \<or> length olds = 0 \<and> rp_start r = length ls" using at r by auto
    show "olds = h_old h \<or> olds = butlast (h_old h) \<and> h_old h \<noteq> []" by (rule olds)
    show "rp_lines r = new_lines ls (rp_start r) (length olds) (map_of (rev (map (\<lambda>(a, b). (b, a)) (h_indices h)))) eol 0 0
       (if olds = h_old h then h_new h else drop_blank (h_new h))" using r(1) news by simp
  qed
qed

text \<open>In the order of the hunks, a replacement may precede an earlier one only if that one adds at the end.\<close>

abbreviation placed :: "replacement \<Rightarrow> replacement \<Rightarrow> bool" where
  "placed r t \<equiv> disjoint_from r t \<or> (rp_count r = 0 \<and> disjoint_from t r)"

lemma place_hunks_placed:
  "place_hunks path ls eol index hs cursor = Inr rs \<Longrightarrow> cursor \<le> length ls \<Longrightarrow>
   sorted_wrt placed rs \<and> length rs = length hs
   \<and> (\<forall>r \<in> set rs. cursor \<le> rp_start r \<and> rp_start r + rp_count r \<le> length ls)"
proof (induction path ls eol index hs cursor arbitrary: rs rule: place_hunks.induct)
  case (2 path ls eol index h hs cursor)
  obtain r cursor' where one: "place_hunk path ls eol index h cursor = Inr (r, cursor')"
    using "2.prems"(1) by (cases "place_hunk path ls eol index h cursor") auto
  then obtain ts where ts: "place_hunks path ls eol (index + 1) hs cursor' = Inr ts" "rs = r # ts"
    using "2.prems"(1) by (cases "place_hunks path ls eol (index + 1) hs cursor'") auto
  obtain c where c: "cursor \<le> c" "c \<le> cursor'" "cursor' \<le> length ls" "c \<le> rp_start r"
    "rp_start r + rp_count r \<le> length ls"
    "rp_start r + rp_count r \<le> cursor' \<or> rp_count r = 0 \<and> rp_start r = length ls"
    using place_hunk_start [OF one "2.prems"(2)] by metis
  have "sorted_wrt placed ts" "length ts = length hs"
    and rest: "\<forall>t \<in> set ts. cursor' \<le> rp_start t \<and> rp_start t + rp_count t \<le> length ls"
    using "2.IH" [OF one refl ts(1) c(3)] by blast+
  moreover have "placed r t" if "t \<in> set ts" for t
    using rest that c(6) unfolding disjoint_from_def by force
  moreover have "\<forall>t \<in> set ts. cursor \<le> rp_start t" using rest c(1,2) by force
  ultimately show ?case unfolding ts(2) using c rest by auto
qed simp

text \<open>
  C35. An edit touches nothing but the lines its hunks name: the new file is the old one read once
  from top to bottom, copied everywhere except at one replacement for each hunk; the replaced
  stretches lie inside the file and do not overlap, whatever order they were applied in.
\<close>

theorem applyUpdate_weaves:
  assumes "applyUpdate file path hunks = Inr out"
  shows "\<exists>rs. place_hunks path (sourceLines file) (defaultEol (sourceLines file)) 0 hunks 0 = Inr rs
    \<and> length rs = length hunks
    \<and> sorted_wrt disjoint_from (sort_key rp_start rs)
    \<and> (\<forall>r \<in> set rs. rp_start r + rp_count r \<le> length (sourceLines file))
    \<and> out = line_text (finish_lines (sourceLines file) (weave (sourceLines file) 0 (sort_key rp_start rs)))"
proof -
  let ?ls = "sourceLines file"
  obtain rs where rs: "place_hunks path ?ls (defaultEol ?ls) 0 hunks 0 = Inr rs"
    "out = line_text (finish_lines ?ls (foldr splice_at (sort_key rp_start rs) ?ls))"
    using assms by (auto simp: applyUpdate_def Let_def split: sum.splits)
  have "sorted_wrt placed rs \<and> length rs = length hunks
      \<and> (\<forall>r \<in> set rs. 0 \<le> rp_start r \<and> rp_start r + rp_count r \<le> length ?ls)"
    using place_hunks_placed [OF rs(1)] by simp
  moreover from this have "sorted_wrt disjoint_from (sort_key rp_start rs)" by (intro sort_disjoint) blast
  moreover from calculation have "foldr splice_at (sort_key rp_start rs) ?ls = weave ?ls 0 (sort_key rp_start rs)"
    by (subst weave_drop [where pos = 0]) auto
  ultimately show ?thesis using rs by metis
qed

theorem applyUpdate_weaves_witness:
  "\<exists>rs. length rs = length [Put (js ''z''), Remove (js ''a'')] \<and> sorted_wrt disjoint_from (sort_key rp_start rs)
    \<and> js ''b'' @ [cNL] @ js ''z'' @ [cNL]
      = line_text (finish_lines (sourceLines (js ''a'' @ [cNL] @ js ''b'' @ [cNL]))
          (weave (sourceLines (js ''a'' @ [cNL] @ js ''b'' @ [cNL])) 0 (sort_key rp_start rs)))"
proof -
  have "applyUpdate (js ''a'' @ [cNL] @ js ''b'' @ [cNL]) (js ''f'')
      (map (\<lambda>e. hunk_of (None, [e], False)) [Put (js ''z''), Remove (js ''a'')])
    = Inr (js ''b'' @ [cNL] @ js ''z'' @ [cNL])" by code_simp
  from applyUpdate_weaves [OF this] show ?thesis unfolding length_map by blast
qed

section \<open>What an edit says is what it does\<close>

text \<open>The lines of a hunk's new text that were kept, by their place in the old text and in the new.\<close>

lemma kept_at_in:
  "(a, b) \<in> set (kept_at x y es) \<Longrightarrow> x \<le> a \<and> y \<le> b \<and> a - x < length (olds es) \<and> b - y < length (news es)
     \<and> olds es ! (a - x) = news es ! (b - y)"
proof (induction x y es rule: kept_at.induct)
  case (2 x y s es)
  then consider "a = x" "b = y" | "Suc x \<le> a" "Suc y \<le> b" "a - Suc x < length (olds es)" "b - Suc y < length (news es)"
    "olds es ! (a - Suc x) = news es ! (b - Suc y)" by auto
  then show ?case
  proof cases
    case 2
    then have "a - x = Suc (a - Suc x)" "b - y = Suc (b - Suc y)" by simp_all
    then show ?thesis using 2 by simp
  qed simp
next
  case (3 x y s es)
  then have h: "Suc x \<le> a" "y \<le> b" "a - Suc x < length (olds es)" "b - y < length (news es)"
    "olds es ! (a - Suc x) = news es ! (b - y)" by auto
  then have "a - x = Suc (a - Suc x)" by simp
  then show ?case using h by simp
next
  case (4 x y s es)
  then have h: "x \<le> a" "Suc y \<le> b" "a - x < length (olds es)" "b - Suc y < length (news es)"
    "olds es ! (a - x) = news es ! (b - Suc y)" by auto
  then have "b - y = Suc (b - Suc y)" by simp
  then show ?case using h by simp
qed simp

lemma kept_at_distinct: "distinct (map snd (kept_at x y es))"
  by (induction x y es rule: kept_at.induct) (auto dest: kept_at_in)

abbreviation kept_from :: "edit list \<Rightarrow> nat \<rightharpoonup> nat" where
  "kept_from es \<equiv> map_of (rev (map (\<lambda>(a, b). (b, a)) (kept_at 0 0 es)))"

lemma kept_from_iff: "kept_from es b = Some a \<longleftrightarrow> (a, b) \<in> set (kept_at 0 0 es)"
proof -
  have "map fst (rev (map (\<lambda>(a, b). (b, a)) (kept_at 0 0 es))) = rev (map snd (kept_at 0 0 es))"
    by (simp add: rev_map case_prod_unfold)
  then have "distinct (map fst (rev (map (\<lambda>(a, b). (b, a)) (kept_at 0 0 es))))" using kept_at_distinct by simp
  from map_of_eq_Some_iff [OF this] show ?thesis by auto
qed

lemma kept_at_text:
  assumes "(a, b) \<in> set (kept_at 0 0 es)"
  shows "a < length (olds es)" "b < length (news es)" "olds es ! a = news es ! b"
  using kept_at_in [OF assms] by auto

text \<open>An ending is one the file uses, or the one taken for a file that uses none.\<close>

definition endings :: "source_line list \<Rightarrow> jstring set" where
  "endings ls = insert (defaultEol ls) (snd ` set ls)"

lemma endings_found: "eol_at ls k = [] \<or> eol_at ls k \<in> endings ls" "defaultEol ls \<in> endings ls"
  by (auto simp: eol_at_def endings_def)

lemma defaultEol_full: "defaultEol ls \<noteq> []"
  by (auto simp: defaultEol_def find_Some_iff split: option.splits) (metis snd_conv)

text \<open>The line put for the new line \<open>v\<close> with number \<open>i\<close>: a kept one as it stands, or \<open>v\<close> with an ending found there.\<close>

definition put_for :: "source_line list \<Rightarrow> nat \<Rightarrow> nat \<Rightarrow> (nat \<rightharpoonup> nat) \<Rightarrow> jstring \<Rightarrow> nat \<Rightarrow> jstring \<Rightarrow> source_line \<Rightarrow> bool" where
  "put_for ls start n ctx eol i v l \<longleftrightarrow>
     (case ctx i of
        Some m \<Rightarrow> if m < n then l = ls ! (start + m) else (\<exists>k. l = (v, or_eol (eol_at ls k) (or_eol (eol_at ls (k - 1)) eol)))
      | None \<Rightarrow> \<exists>k. l = (v, or_eol (eol_at ls k) (or_eol (eol_at ls (k - 1)) eol)))"

lemma new_lines_nth:
  "length (new_lines ls start n ctx eol i pos vs) = length vs
   \<and> (\<forall>j < length vs. put_for ls start n ctx eol (i + j) (vs ! j) (new_lines ls start n ctx eol i pos vs ! j))"
proof (induction vs arbitrary: i pos)
  case (Cons v vs)
  let ?fresh = "(v, or_eol (eol_at ls (int (start + pos))) (or_eol (eol_at ls (int (start + pos) - 1)) eol))"
  let ?kept = "case ctx i of Some m \<Rightarrow> m < n | None \<Rightarrow> False"
  let ?l = "if ?kept then ls ! (start + the (ctx i)) else ?fresh"
  let ?pos = "if ?kept then the (ctx i) + 1 else if pos < n then pos + 1 else pos"
  have l: "new_lines ls start n ctx eol i pos (v # vs) = ?l # new_lines ls start n ctx eol (i + 1) ?pos vs"
    by (simp split: option.splits)
  have "put_for ls start n ctx eol i v ?l"
    by (auto simp: put_for_def simp del: of_nat_add split: option.splits)
  moreover obtain rest where r: "new_lines ls start n ctx eol (i + 1) ?pos vs = rest" "length rest = length vs"
    "\<And>j. j < length vs \<Longrightarrow> put_for ls start n ctx eol (i + 1 + j) (vs ! j) (rest ! j)"
    using Cons.IH [of "i + 1" ?pos] by blast
  ultimately show ?case unfolding l r(1) using r(2,3) by (auto simp: less_Suc_eq_0_disj simp del: of_nat_add)
qed simp

lemma new_lines_edit:
  fixes as os bs :: "source_line list"
  assumes "map fst os = olds es"
  defines "ns \<equiv> new_lines (as @ os @ bs) (length as) (length os) (kept_from es) (defaultEol (as @ os @ bs)) 0 0 (news es)"
  shows "map fst ns = news es" "\<forall>l \<in> set ns. snd l = [] \<or> snd l \<in> endings (as @ os @ bs)"
    "(a, b) \<in> set (kept_at 0 0 es) \<Longrightarrow> ns ! b = os ! a"
proof -
  let ?ls = "as @ os @ bs"
  have len: "length os = length (olds es)" using assms(1) by (metis length_map)
  have n: "length ns = length (news es)" using new_lines_nth [of ?ls "length as" "length os"] unfolding ns_def by blast
  have here: "put_for ?ls (length as) (length os) (kept_from es) (defaultEol ?ls) j (news es ! j) (ns ! j)"
    if "j < length (news es)" for j
    using new_lines_nth [of ?ls "length as" "length os" "kept_from es" "defaultEol ?ls" 0 0 "news es"] that
    unfolding ns_def by simp
  have kept: "ns ! j = os ! m" if "j < length (news es)" "kept_from es j = Some m" for j m
  proof -
    have "m < length os" using that(2) kept_at_text(1) unfolding len kept_from_iff by blast
    then show ?thesis using here [OF that(1)] that(2) by (simp add: put_for_def nth_append)
  qed
  have put: "\<exists>k. ns ! j = (news es ! j, or_eol (eol_at ?ls k) (or_eol (eol_at ?ls (k - 1)) (defaultEol ?ls)))"
    if "j < length (news es)" "kept_from es j = None" for j
    using here [OF that(1)] that(2) by (simp add: put_for_def)
  have same: "fst (os ! m) = news es ! j" if "kept_from es j = Some m" for j m
    using kept_at_text [OF that [unfolded kept_from_iff]] assms(1) len by (metis nth_map)
  show "map fst ns = news es"
    by (rule nth_equalityI) (use n kept put same in \<open>auto, metis fst_conv not_None_eq\<close>)
  show "\<forall>l \<in> set ns. snd l = [] \<or> snd l \<in> endings ?ls"
  proof
    fix l assume "l \<in> set ns"
    then obtain j where j: "j < length (news es)" "l = ns ! j" using n by (metis in_set_conv_nth)
    show "snd l = [] \<or> snd l \<in> endings ?ls"
    proof (cases "kept_from es j")
      case None
      then obtain k where "l = (news es ! j, or_eol (eol_at ?ls k) (or_eol (eol_at ?ls (k - 1)) (defaultEol ?ls)))"
        using put j by blast
      then show ?thesis using endings_found(1) [of ?ls k] endings_found(1) [of ?ls "k - 1"] endings_found(2) [of ?ls]
        by (auto simp: or_eol_def)
    next
      case (Some m)
      then have "m < length os" using kept_at_text(1) unfolding len kept_from_iff by blast
      then show ?thesis using kept [OF j(1) Some] j(2) by (auto simp: endings_def)
    qed
  qed
  show "ns ! b = os ! a" if "(a, b) \<in> set (kept_at 0 0 es)"
    using kept that kept_at_text(2) [OF that] by (simp add: kept_from_iff)
qed

lemma finish_lines_length [simp]: "length (finish_lines ls res) = length res"
  by (simp add: finish_lines_def)

lemma finish_lines_nth:
  assumes "j < length res"
  shows "finish_lines ls res ! j = (fst (res ! j),
      if Suc j < length res then or_eol (snd (res ! j)) (defaultEol ls)
      else if ls = [] then defaultEol ls
      else if snd (last ls) \<noteq> [] then or_eol (snd (res ! j)) (defaultEol ls) else [])"
proof (cases res rule: rev_cases)
  case (snoc ys y)
  then show ?thesis using assms by (auto simp: finish_lines_def nth_append case_prod_unfold split: if_splits)
qed (use assms in simp)

lemma finish_lines_texts: "map fst (finish_lines ls res) = map fst res"
  by (rule nth_equalityI) (simp_all add: finish_lines_nth)

lemma finish_lines_ended: "l \<in> set (butlast (finish_lines ls res)) \<Longrightarrow> snd l \<noteq> []"
  by (auto simp: finish_lines_def or_eol_def defaultEol_full split: if_splits)

lemma finish_lines_last:
  "res \<noteq> [] \<Longrightarrow> snd (last (finish_lines ls res)) = [] \<longleftrightarrow> ls \<noteq> [] \<and> snd (last ls) = []"
  by (auto simp: finish_lines_def or_eol_def defaultEol_full)

lemma finish_lines_endings:
  assumes "\<forall>l \<in> set res. snd l = [] \<or> snd l \<in> endings ls" "l \<in> set (finish_lines ls res)"
  shows "snd l = [] \<or> snd l \<in> endings ls"
proof -
  obtain j where "j < length res" "l = finish_lines ls res ! j" using assms(2) by (auto simp: in_set_conv_nth)
  then show ?thesis using assms(1) endings_found(2) by (auto simp: finish_lines_nth or_eol_def split: if_splits)
qed

lemma window_eq:
  "k + length p \<le> length xs \<Longrightarrow> \<forall>j < length p. p ! j = xs ! (k + j) \<Longrightarrow> take (length p) (drop k xs) = p"
  by (rule nth_equalityI) simp_all

lemma seek_window:
  assumes "p \<noteq> []" "map fst os = p" "n \<le> length as"
    and "\<forall>k. n \<le> k \<and> k < length as \<longrightarrow> take (length p) (drop k (map fst (as @ os @ bs))) \<noteq> p"
  shows "seek (as @ os @ bs) p n False = Some (length as)"
proof (rule seek_first [OF assms(1,3)])
  let ?ls = "as @ os @ bs"
  have len: "length os = length p" using assms(2) by (metis length_map)
  then show "length as + length p \<le> length ?ls" by simp
  show "\<forall>j < length p. p ! j = fst (?ls ! (length as + j))"
    using assms(2) len by (auto simp: nth_append)
  fix k assume k: "n \<le> k" "k < length as"
  show "\<exists>j < length p. p ! j \<noteq> fst (?ls ! (k + j))"
  proof (rule ccontr)
    assume "\<not> ?thesis"
    moreover have "fst (?ls ! (k + j)) = map fst ?ls ! (k + j)" if "j < length p" for j
      using that k(2) len by (subst nth_map) simp_all
    ultimately have "\<forall>j < length p. p ! j = map fst ?ls ! (k + j)" by metis
    then have "take (length p) (drop k (map fst ?ls)) = p" using k(2) len by (intro window_eq) auto
    then show False using assms(4) k by blast
  qed
qed

lemma seek_at_end:
  assumes "p \<noteq> []" "map fst os = p" "n \<le> length as"
  shows "seek (as @ os) p n True = Some (length as)"
proof -
  have "length os = length p" using assms(2) by (metis length_map)
  then have "seek (as @ os) p n True = seek (as @ os @ []) p (length as) False"
    using assms(1,3) by (simp add: seek_def max_def)
  moreover have "seek (as @ os @ []) p (length as) False = Some (length as)"
    by (rule seek_window [OF assms(1,2)]) auto
  ultimately show ?thesis by (rule trans)
qed

text \<open>
  Where the search for a hunk's lines starts: at the top, or after the first line that is the
  hunk's context header.
\<close>

definition starts_after :: "jstring option \<Rightarrow> jstring list \<Rightarrow> nat \<Rightarrow> bool" where
  "starts_after header ts n =
     (case header of
        None \<Rightarrow> n = 0
      | Some c \<Rightarrow> 0 < n \<and> n \<le> length ts \<and> ts ! (n - 1) = c \<and> c \<notin> set (take (n - 1) ts))"

lemma starts_after_le: "starts_after header ts n \<Longrightarrow> n \<le> length ts"
  by (auto simp: starts_after_def split: option.splits)

lemma seek_header:
  assumes "starts_after (Some c) (map fst as) n"
  shows "seek (as @ rest) [c] 0 False = Some (n - 1)"
proof (rule seek_first)
  have n: "0 < n" "n \<le> length as" "fst (as ! (n - 1)) = c" "c \<notin> set (take (n - 1) (map fst as))"
    using assms by (auto simp: starts_after_def)
  then show "n - 1 + length [c] \<le> length (as @ rest)" "\<forall>j < length [c]. [c] ! j = fst ((as @ rest) ! (n - 1 + j))"
    by (auto simp: nth_append)
  fix k assume k: "0 \<le> k" "k < n - 1"
  then have "map fst as ! k \<in> set (take (n - 1) (map fst as))" using n(2) by (auto simp: in_set_conv_nth)
  then show "\<exists>j < length [c]. [c] ! j \<noteq> fst ((as @ rest) ! (k + j))" using n k by (auto simp: nth_append)
qed simp_all

text \<open>Where the lines of a file that an edit keeps stand before it and after it.\<close>

definition carried :: "nat \<Rightarrow> edit list \<Rightarrow> nat \<Rightarrow> (nat \<times> nat) list" where
  "carried n es m = map (\<lambda>i. (i, i)) [0 ..< n] @ map (\<lambda>(a, b). (n + a, n + b)) (kept_at 0 0 es)
     @ map (\<lambda>k. (n + length (olds es) + k, n + length (news es) + k)) [0 ..< m]"

lemma carried_kept:
  assumes "(i, j) \<in> set (carried (length as) es (length bs))" "length os = length (olds es)" "length ns = length (news es)"
    and "\<And>a b. (a, b) \<in> set (kept_at 0 0 es) \<Longrightarrow> ns ! b = os ! a"
  shows "(as @ ns @ bs) ! j = (as @ os @ bs) ! i \<and> i < length (as @ os @ bs) \<and> j < length (as @ ns @ bs)"
  using assms by (auto simp: carried_def nth_append dest: kept_at_text(1,2))

lemma place_hunk_found:
  assumes "(case h_context h of None \<Rightarrow> Inr cursor
      | Some c \<Rightarrow> (case seek ls [c] cursor False of None \<Rightarrow> Inl (Mismatch path (index + 1) [c] (cursor + 1)) | Some i \<Rightarrow> Inr (i + 1))) = Inr n"
    and "(if h_old h \<noteq> [] then seek ls (h_old h) n (h_eof h) else Some (length ls)) = Some start"
  shows "place_hunk path ls eol index h cursor
    = Inr (\<lparr>rp_start = start, rp_count = length (h_old h),
            rp_lines = new_lines ls start (length (h_old h)) (map_of (rev (map (\<lambda>(a, b). (b, a)) (h_indices h)))) eol 0 0 (h_new h)\<rparr>,
           if h_old h \<noteq> [] then start + length (h_old h) else n)"
  unfolding place_hunk_def assms(1) Let_def sum.case assms(2) by simp

lemma place_edit:
  assumes "map fst os = olds es" "starts_after header (map fst as) n"
    and "if eof \<or> olds es = [] then bs = []
         else \<forall>k. n \<le> k \<and> k < length as \<longrightarrow> take (length (olds es)) (drop k (map fst (as @ os @ bs))) \<noteq> olds es"
  shows "place_hunks path (as @ os @ bs) eol 0 [hunk_of (header, es, eof)] 0
    = Inr [\<lparr>rp_start = length as, rp_count = length os,
           rp_lines = new_lines (as @ os @ bs) (length as) (length os) (kept_from es) eol 0 0 (news es)\<rparr>]"
proof -
  let ?ls = "as @ os @ bs"
  have len: "length os = length (olds es)" using assms(1) by (metis length_map)
  have n: "n \<le> length as" using starts_after_le [OF assms(2)] by simp
  have at: "(if olds es \<noteq> [] then seek ?ls (olds es) n eof else Some (length ?ls)) = Some (length as)"
  proof (cases "olds es = []")
    case True
    then show ?thesis using assms(3) len by simp
  next
    case False
    then show ?thesis using seek_window [OF False assms(1) n] seek_at_end [OF False assms(1) n] assms(3) by (cases eof) auto
  qed
  have header: "(case header of None \<Rightarrow> Inr 0
        | Some c \<Rightarrow> (case seek ?ls [c] 0 False of None \<Rightarrow> Inl (Mismatch path (0 + 1) [c] (0 + 1)) | Some i \<Rightarrow> Inr (i + 1))) = Inr n"
    using assms(2) seek_header [of _ as n "os @ bs"] by (cases header) (auto simp: starts_after_def)
  define h where "h = hunk_of (header, es, eof)"
  have fs: "h_context h = header" "h_old h = olds es" "h_new h = news es" "h_indices h = kept_at 0 0 es" "h_eof h = eof"
    by (simp_all add: h_def)
  have "place_hunk path ?ls eol 0 h 0 = Inr (\<lparr>rp_start = length as, rp_count = length (olds es),
        rp_lines = new_lines ?ls (length as) (length (olds es)) (kept_from es) eol 0 0 (news es)\<rparr>,
      if olds es \<noteq> [] then length as + length (olds es) else n)"
    using place_hunk_found [where h = h and ls = "?ls" and cursor = 0 and index = 0 and path = path and n = n
        and start = "length as" and eol = eol, unfolded fs, OF header at] .
  then show ?thesis unfolding h_def [symmetric] len by simp
qed

text \<open>
  C8. What a hunk says is what happens, in any file, whatever its line endings: when the kept and
  removed lines of a hunk stand exactly in the file (first at that place, counted from its context
  header if it has one; at the very end if the hunk says so or has only added lines), applying it
  gives the file with the kept and added lines in their place, in the order the hunk gives them,
  and the lines before and after. Every kept line keeps its ending, also in a file of mixed
  endings; added lines take an ending of the file; the new file ends its last line exactly if the
  old one did.
\<close>

theorem applyUpdate_edit:
  assumes "sourceLines file = as @ os @ bs" "map fst os = olds es"
    and "starts_after header (map fst as) n"
    and "if eof \<or> olds es = [] then bs = []
         else \<forall>k. n \<le> k \<and> k < length as \<longrightarrow> take (length (olds es)) (drop k (map fst (as @ os @ bs))) \<noteq> olds es"
  shows "\<exists>res. applyUpdate file path [hunk_of (header, es, eof)] = Inr (line_text res)
    \<and> map fst res = map fst as @ news es @ map fst bs
    \<and> (\<forall>(i, j) \<in> set (carried (length as) es (length bs)).
         snd (sourceLines file ! i) \<noteq> [] \<and> (Suc j < length res \<or> snd (last (sourceLines file)) \<noteq> []) \<longrightarrow> res ! j = sourceLines file ! i)
    \<and> (\<forall>l \<in> set res. snd l = [] \<or> snd l \<in> endings (sourceLines file))
    \<and> (\<forall>l \<in> set (butlast res). snd l \<noteq> [])
    \<and> (res \<noteq> [] \<longrightarrow> (snd (last res) = [] \<longleftrightarrow> sourceLines file \<noteq> [] \<and> snd (last (sourceLines file)) = []))"
proof -
  let ?ls = "as @ os @ bs"
  define ns where "ns = new_lines ?ls (length as) (length os) (kept_from es) (defaultEol ?ls) 0 0 (news es)"
  note ns = new_lines_edit [OF assms(2), where as = as and bs = bs, folded ns_def]
  have len: "length os = length (olds es)" "length ns = length (news es)"
    using assms(2) ns(1) by (metis length_map)+
  let ?res = "finish_lines ?ls (as @ ns @ bs)"
  have out: "applyUpdate file path [hunk_of (header, es, eof)] = Inr (line_text ?res)"
    unfolding applyUpdate_def Let_def assms(1) place_edit [OF assms(2-4)]
    by (simp add: splice_at_def ns_def)
  have carry: "?res ! j = ?ls ! i"
    if "(i, j) \<in> set (carried (length as) es (length bs))" "snd (?ls ! i) \<noteq> []"
      "Suc j < length ?res \<or> snd (last ?ls) \<noteq> []" for i j
  proof -
    have "(as @ ns @ bs) ! j = ?ls ! i" "j < length (as @ ns @ bs)"
      using carried_kept [OF that(1) len ns(3)] by simp_all
    moreover have "?ls \<noteq> []" using carried_kept [OF that(1) len ns(3)] by (metis less_nat_zero_code list.size(3))
    ultimately show ?thesis using that(2,3) by (auto simp: finish_lines_nth or_eol_def prod_eq_iff)
  qed
  have "\<forall>l \<in> set (as @ ns @ bs). snd l = [] \<or> snd l \<in> endings ?ls"
    using ns(2) by (auto simp: endings_def)
  then have ends: "\<forall>l \<in> set ?res. snd l = [] \<or> snd l \<in> endings ?ls" using finish_lines_endings by blast
  have texts: "map fst ?res = map fst as @ news es @ map fst bs" by (simp add: finish_lines_texts ns(1))
  have closed: "\<forall>l \<in> set (butlast ?res). snd l \<noteq> []" using finish_lines_ended by blast
  have final: "?res \<noteq> [] \<longrightarrow> (snd (last ?res) = [] \<longleftrightarrow> ?ls \<noteq> [] \<and> snd (last ?ls) = [])"
    using finish_lines_last [of "as @ ns @ bs" ?ls] by (metis finish_lines_length length_0_conv)
  show ?thesis unfolding assms(1) using out texts carry ends closed final by (intro exI [of _ ?res]) blast
qed

text \<open>A file of mixed endings without a final line break, edited after its context header, at its end.\<close>

theorem applyUpdate_edit_witness:
  "\<exists>res. applyUpdate (js ''f()'' @ [cNL] @ js ''k'' @ [cCR, cNL] @ js ''r'') (js ''file'')
       [hunk_of (Some (js ''f()''), [Keep (js ''k''), Put (js ''x''), Remove (js ''r'')], True)] = Inr (line_text res)
     \<and> map fst res = [js ''f()'', js ''k'', js ''x''] \<and> length res = 3
     \<and> res ! 0 = (js ''f()'', [cNL]) \<and> res ! 1 = (js ''k'', [cCR, cNL]) \<and> snd (last res) = []"
proof -
  define f where "f = js ''f()'' @ [cNL] @ js ''k'' @ [cCR, cNL] @ js ''r''"
  define es where "es = [Keep (js ''k''), Put (js ''x''), Remove (js ''r'')]"
  have ls: "sourceLines f = [(js ''f()'', [cNL])] @ [(js ''k'', [cCR, cNL]), (js ''r'', [])] @ []"
    unfolding f_def by code_simp
  have h: "starts_after (Some (js ''f()'')) (map fst [(js ''f()'', [cNL])]) 1" by code_simp
  have o: "map fst [(js ''k'', [cCR, cNL]), (js ''r'', [] :: jstring)] = olds es" by (simp add: es_def)
  have new: "news es = [js ''k'', js ''x'']" by (simp add: es_def)
  have carry: "carried (length [(js ''f()'', [cNL])]) es (length ([] :: source_line list)) = [(0, 0), (1, 1)]"
    unfolding es_def by code_simp
  have c: "if True \<or> olds es = [] then [] = ([] :: source_line list) else Q" for Q by simp
  obtain res where r: "applyUpdate f (js ''file'') [hunk_of (Some (js ''f()''), es, True)] = Inr (line_text res)"
    "map fst res = [js ''f()'', js ''k'', js ''x'']"
    "\<forall>(i, j) \<in> set [(0, 0), (1, 1)]. snd (sourceLines f ! i) \<noteq> [] \<and> (Suc j < length res \<or> snd (last (sourceLines f)) \<noteq> [])
       \<longrightarrow> res ! j = sourceLines f ! i"
    "res \<noteq> [] \<longrightarrow> (snd (last res) = [] \<longleftrightarrow> sourceLines f \<noteq> [] \<and> snd (last (sourceLines f)) = [])"
    using applyUpdate_edit [OF ls o h c, of "js ''file''", unfolded new carry]
    by (elim exE conjE) (rule that, (assumption | simp only: list.map append.simps fst_conv)+)
  have len: "length res = 3" using arg_cong [OF r(2), of length] by simp
  have "res ! 0 = sourceLines f ! 0" "res ! 1 = sourceLines f ! 1"
    using r(3) len by (simp_all add: ls)
  moreover have "res \<noteq> []" using len by force
  ultimately have "res ! 0 = (js ''f()'', [cNL])" "res ! 1 = (js ''k'', [cCR, cNL])" "snd (last res) = []"
    using r(4) by (simp_all add: ls)
  then show ?thesis using r(1,2) len unfolding f_def [symmetric] es_def [symmetric] by (intro exI [of _ res] conjI)
qed

end
