(* ===== verification/Journal.thy ===== *)
theory Journal
  imports Json
begin

text \<open>
  Watching a session from elsewhere: the daemon's journal of display events
  (\<open>packages/cli/src/server/journal.ts\<close>) and the replay of a client that may lose its connection
  (\<open>packages/cli/src/remote/replay.ts\<close>). The journal numbers events, keeps the last ones within a
  bound and delivers them to listeners, which may append, open and close themselves while they are
  called; so a delivery is a sequence of steps. A client applies a reset or the next event.
\<close>

section \<open>The journal\<close>

record event =
  ev_epoch :: jstring
  ev_seq :: nat
  ev_payload :: json

record journal_limits =
  jl_bytes :: nat
  jl_events :: nat

text \<open>
  \<open>jn_index\<close> and \<open>jn_visited\<close> belong to the call of \<open>append\<close> that delivers: the notification it is
  at, and the listeners already called with it. Listeners are numbered as they are registered.
\<close>

record journal =
  jn_epoch :: jstring
  jn_seq :: nat
  jn_entries :: "(event \<times> nat) option list"
  jn_bytes :: int
  jn_head :: nat
  jn_delivering :: bool
  jn_notifications :: "event list"
  jn_index :: nat
  jn_visited :: "nat list"
  jn_listeners :: "nat list"
  jn_next :: nat
  jn_degraded :: bool

definition journal_limits_ok :: "journal_limits \<Rightarrow> bool" where
  "journal_limits_ok lim \<longleftrightarrow> 0 < jl_bytes lim \<and> 0 < jl_events lim"

definition new_journal :: "jstring \<Rightarrow> journal" where
  "new_journal epoch = \<lparr>jn_epoch = epoch, jn_seq = 0, jn_entries = [], jn_bytes = 0, jn_head = 0,
     jn_delivering = False, jn_notifications = [], jn_index = 0, jn_visited = [], jn_listeners = [],
     jn_next = 0, jn_degraded = False\<rparr>"

text \<open>The oldest entries go until the rest fits; an empty slot at the head cannot occur.\<close>

function evict :: "journal_limits \<Rightarrow> journal \<Rightarrow> journal" where
  "evict lim J =
     (if jn_head J < length (jn_entries J)
         \<and> (jl_events lim < length (jn_entries J) - jn_head J \<or> int (jl_bytes lim) < jn_bytes J)
      then case jn_entries J ! jn_head J of
          Some (_, b) \<Rightarrow>
            evict lim (J\<lparr>jn_bytes := jn_bytes J - int b, jn_entries := (jn_entries J)[jn_head J := None],
                        jn_head := jn_head J + 1\<rparr>)
        | None \<Rightarrow> J
      else J)"
  by pat_completeness auto
termination by (relation "measure (\<lambda>(_, J). length (jn_entries J) - jn_head J)") auto

declare evict.simps [simp del]

definition compact :: "journal \<Rightarrow> journal" where
  "compact J =
     (if 4096 < jn_head J \<and> length (jn_entries J) < 2 * jn_head J
      then J\<lparr>jn_entries := drop (jn_head J) (jn_entries J), jn_head := 0\<rparr> else J)"

definition json_bytes :: "json \<Rightarrow> nat" where
  "json_bytes p = utf8_length (stringify p)"

definition next_event :: "json \<Rightarrow> journal \<Rightarrow> event" where
  "next_event p J = \<lparr>ev_epoch = jn_epoch J, ev_seq = jn_seq J + 1, ev_payload = p\<rparr>"

text \<open>A delivery starts unless one is under way, which will come to the event itself.\<close>

definition notify :: "event \<Rightarrow> journal \<Rightarrow> journal" where
  "notify ev J =
     (let J1 = J\<lparr>jn_notifications := jn_notifications J @ [ev]\<rparr>
      in if jn_delivering J then J1 else J1\<lparr>jn_delivering := True, jn_index := 0, jn_visited := []\<rparr>)"

definition retain :: "journal_limits \<Rightarrow> event \<Rightarrow> journal \<Rightarrow> journal" where
  "retain lim ev J =
     (let b = json_bytes (ev_payload ev)
      in compact (evict lim (J\<lparr>jn_seq := ev_seq ev, jn_entries := jn_entries J @ [Some (ev, b)],
                              jn_bytes := jn_bytes J + int b\<rparr>)))"

definition journal_append :: "journal_limits \<Rightarrow> raw \<Rightarrow> journal \<Rightarrow> (remote_error + event) \<times> journal" where
  "journal_append lim payload J =
     (case copyRemoteJson payload of
        Inl e \<Rightarrow> (Inl e, J)
      | Inr p \<Rightarrow>
          if LOGICAL_BYTES - 1024 < json_bytes p then (Inl LimitExceeded, J)
          else let ev = next_event p J in (Inr ev, notify ev (retain lim ev J)))"

text \<open>The next listener to call with the current notification, and the call.\<close>

definition next_listener :: "journal \<Rightarrow> nat option" where
  "next_listener J = List.find (\<lambda>l. l \<notin> set (jn_visited J)) (jn_listeners J)"

definition deliver :: "journal \<Rightarrow> ((nat \<times> event) \<times> journal) option" where
  "deliver J =
     (if jn_delivering J \<and> jn_index J < length (jn_notifications J) then
        (case next_listener J of
           Some l \<Rightarrow> Some ((l, jn_notifications J ! jn_index J), J\<lparr>jn_visited := jn_visited J @ [l]\<rparr>)
         | None \<Rightarrow> None)
      else None)"

text \<open>The loop goes on to the next notification, or ends.\<close>

definition advance :: "journal \<Rightarrow> journal" where
  "advance J =
     (if jn_index J < length (jn_notifications J) then J\<lparr>jn_index := jn_index J + 1, jn_visited := []\<rparr>
      else J\<lparr>jn_notifications := [], jn_delivering := False\<rparr>)"

definition close_listener :: "nat \<Rightarrow> journal \<Rightarrow> journal" where
  "close_listener l J = J\<lparr>jn_listeners := filter (\<lambda>x. x \<noteq> l) (jn_listeners J)\<rparr>"

definition publicUpdateError :: json where
  "publicUpdateError = JObj [(js ''kind'', JStr (js ''error'')),
     (js ''error'', JObj [(js ''code'', JStr (js ''invalid_snapshot'')),
       (js ''message'', JStr (js ''Workspace display state is unavailable.''))])]"

definition invalidate :: "journal_limits \<Rightarrow> journal \<Rightarrow> journal" where
  "invalidate lim J =
     (if jn_degraded J then J else snd (journal_append lim (raw_of publicUpdateError) (J\<lparr>jn_degraded := True\<rparr>)))"

section \<open>Opening a connection\<close>

datatype reset_reason = Fresh | EpochChanged | CursorExpired | FutureCursor | CaptureFailed

datatype frame =
  Reset jstring nat reset_reason json \<comment> \<open>epoch, watermark, reason, snapshot\<close>
| Event event bool \<comment> \<open>whether it is a replay\<close>

definition reason_text :: "reset_reason \<Rightarrow> jstring" where
  "reason_text r = (case r of Fresh \<Rightarrow> js ''fresh'' | EpochChanged \<Rightarrow> js ''epoch_changed''
     | CursorExpired \<Rightarrow> js ''cursor_expired'' | FutureCursor \<Rightarrow> js ''future_cursor''
     | CaptureFailed \<Rightarrow> js ''capture_failed'')"

definition reset_json :: "jstring \<Rightarrow> nat \<Rightarrow> reset_reason \<Rightarrow> json \<Rightarrow> json" where
  "reset_json epoch q r snap = JObj [(js ''v'', JNum (js ''1'')), (js ''kind'', JStr (js ''reset'')),
     (js ''daemonEpoch'', JStr epoch), (js ''seq'', JNum (digits_of q)), (js ''reason'', JStr (reason_text r)),
     (js ''snapshot'', snap)]"

text \<open>A cursor is an epoch and the last sequence number the client applied.\<close>

type_synonym cursor = "jstring \<times> int"

definition kept :: "journal \<Rightarrow> (event \<times> nat) list" where
  "kept J = map the (filter (\<lambda>x. x \<noteq> None) (drop (jn_head J) (jn_entries J)))"

definition oldest :: "journal \<Rightarrow> nat" where
  "oldest J = (if jn_head J < length (jn_entries J)
     then case jn_entries J ! jn_head J of Some (ev, _) \<Rightarrow> ev_seq ev | None \<Rightarrow> jn_seq J + 1
     else jn_seq J + 1)"

definition reset_reason_of :: "cursor option \<Rightarrow> bool \<Rightarrow> journal \<Rightarrow> reset_reason option" where
  "reset_reason_of cur force J =
     (case cur of
        None \<Rightarrow> if jn_degraded J then Some CaptureFailed else Some Fresh
      | Some (epoch, aft) \<Rightarrow>
          if epoch \<noteq> jn_epoch J then Some EpochChanged
          else if int (jn_seq J) < aft then Some FutureCursor
          else if jn_degraded J then Some CaptureFailed
          else if aft < int (oldest J) - 1 then Some CursorExpired
          else if force then Some Fresh
          else None)"

text \<open>
  \<open>snapshot\<close> is what the host shows, and the journal after it was asked. A client is given what it
  missed, the watermark, and its listener.
\<close>

definition journal_open ::
  "cursor option \<Rightarrow> (journal \<Rightarrow> raw \<times> journal) \<Rightarrow> bool \<Rightarrow> journal
     \<Rightarrow> (remote_error + frame list \<times> nat \<times> nat) \<times> journal" where
  "journal_open cur snapshot force J =
     (let why = reset_reason_of cur force J;
          register = (\<lambda>J initial.
            (Inr (initial, jn_seq J, jn_next J),
             J\<lparr>jn_listeners := jn_listeners J @ [jn_next J], jn_next := jn_next J + 1\<rparr>))
      in if (case cur of Some (_, aft) \<Rightarrow> aft < 0 \<or> 9007199254740991 < aft | None \<Rightarrow> False)
         then (Inl InvalidFrame, J)
         else case why of
             None \<Rightarrow>
               register J (map (\<lambda>(ev, _). Event ev True)
                 (filter (\<lambda>(ev, _). snd (the cur) < int (ev_seq ev)) (kept J)))
           | Some r \<Rightarrow>
               (let (shown, J1) = snapshot J in
                case copyRemoteJson shown of
                  Inl e \<Rightarrow> (Inl e, J1)
                | Inr snap \<Rightarrow>
                    if LOGICAL_BYTES < json_bytes (reset_json (jn_epoch J) (jn_seq J) r snap)
                    then (Inl LimitExceeded, J1)
                    else if jn_seq J1 \<noteq> jn_seq J then (Inl OperationFailed, J1)
                    else register J1 [Reset (jn_epoch J) (jn_seq J) r snap]))"

section \<open>The client\<close>

datatype replay_error = ResyncRequired | ReplayGap | ApplyFailed

record 's client =
  cl_cursor :: "(jstring \<times> nat) option"
  cl_applied :: "(jstring \<times> nat) option"
  cl_state :: 's

text \<open>What the client does with a snapshot and with an event; \<open>None\<close> is an exception.\<close>

record 's client_apply =
  on_reset :: "json \<Rightarrow> reset_reason \<Rightarrow> 's \<Rightarrow> 's option"
  on_event :: "json \<Rightarrow> bool \<Rightarrow> nat \<Rightarrow> 's \<Rightarrow> 's option"

definition moved :: "jstring \<times> nat \<Rightarrow> 's \<Rightarrow> 's client \<Rightarrow> 's client" where
  "moved at s C = C\<lparr>cl_cursor := Some at, cl_applied := Some at, cl_state := s\<rparr>"

definition receive :: "'s client_apply \<Rightarrow> frame \<Rightarrow> 's client \<Rightarrow> (replay_error + bool) \<times> 's client" where
  "receive f fr C =
     (case fr of
        Reset epoch q why snap \<Rightarrow>
          if (case cl_cursor C of Some (e, aft) \<Rightarrow> e = epoch \<and> q < aft | None \<Rightarrow> False) \<and> why \<noteq> FutureCursor
          then (Inr False, C)
          else (case on_reset f snap why (cl_state C) of
              None \<Rightarrow> (Inl ApplyFailed, C) | Some s \<Rightarrow> (Inr True, moved (epoch, q) s C))
      | Event ev replayed \<Rightarrow>
          (case cl_cursor C of
             None \<Rightarrow> (Inl ResyncRequired, C)
           | Some (e, aft) \<Rightarrow>
               if e \<noteq> ev_epoch ev then (Inl ResyncRequired, C)
               else if ev_seq ev \<le> aft then (Inr False, C)
               else if ev_seq ev \<noteq> aft + 1 then (Inl ReplayGap, C)
               else (case on_event f (ev_payload ev) replayed (ev_seq ev) (cl_state C) of
                   None \<Rightarrow> (Inl ApplyFailed, C) | Some s \<Rightarrow> (Inr True, moved (ev_epoch ev, ev_seq ev) s C))))"

definition acknowledgement :: "'s client \<Rightarrow> (jstring \<times> nat) option" where
  "acknowledgement C = cl_applied C"

definition new_client :: "(jstring \<times> nat) option \<Rightarrow> 's \<Rightarrow> 's client" where
  "new_client retained s = \<lparr>cl_cursor = retained, cl_applied = None, cl_state = s\<rparr>"

fun receive_all :: "'s client_apply \<Rightarrow> frame list \<Rightarrow> 's client \<Rightarrow> replay_error + 's client" where
  "receive_all f [] C = Inr C"
| "receive_all f (fr # frs) C =
     (case receive f fr C of (Inl e, _) \<Rightarrow> Inl e | (Inr _, C') \<Rightarrow> receive_all f frs C')"

section \<open>The system over time\<close>

text \<open>
  A journal with what has happened to it: every payload ever appended, and every call of a
  listener. A listener that throws is closed; whatever it does while it is called is a step between
  two deliveries.
\<close>

record system =
  sy_journal :: journal
  sy_history :: "json list"
  sy_calls :: "(nat \<times> event) list"
  sy_opened :: "nat \<Rightarrow> nat" \<comment> \<open>the watermark a listener was opened at\<close>

definition new_system :: "jstring \<Rightarrow> system" where
  "new_system epoch = \<lparr>sy_journal = new_journal epoch, sy_history = [], sy_calls = [], sy_opened = (\<lambda>_. 0)\<rparr>"

inductive journal_step :: "journal_limits \<Rightarrow> system \<Rightarrow> system \<Rightarrow> bool" for lim where
  append: "journal_append lim payload (sy_journal S) = (Inr ev, J) \<Longrightarrow>
    journal_step lim S (S\<lparr>sy_journal := J, sy_history := sy_history S @ [ev_payload ev]\<rparr>)"
| degrade: "journal_step lim S (S\<lparr>sy_journal := (sy_journal S)\<lparr>jn_degraded := True\<rparr>\<rparr>)"
| opened: "journal_open cur (\<lambda>J. (shown, J)) force (sy_journal S) = (Inr (initial, w, l), J) \<Longrightarrow>
    journal_step lim S (S\<lparr>sy_journal := J, sy_opened := (sy_opened S)(l := w)\<rparr>)"
| call: "deliver (sy_journal S) = Some (c, J) \<Longrightarrow>
    journal_step lim S (S\<lparr>sy_journal := J, sy_calls := sy_calls S @ [c]\<rparr>)"
| advanced: "jn_delivering (sy_journal S) \<Longrightarrow> deliver (sy_journal S) = None \<Longrightarrow>
    journal_step lim S (S\<lparr>sy_journal := advance (sy_journal S)\<rparr>)"
| closed: "journal_step lim S (S\<lparr>sy_journal := close_listener l (sy_journal S)\<rparr>)"

inductive reachable :: "journal_limits \<Rightarrow> system \<Rightarrow> system \<Rightarrow> bool" for lim S where
  here: "reachable lim S S"
| there: "reachable lim S T \<Longrightarrow> journal_step lim T U \<Longrightarrow> reachable lim S U"

inductive_cases journal_stepE: "journal_step lim S T"

text \<open>Event number \<open>i + 1\<close> of a history.\<close>

definition event_at :: "jstring \<Rightarrow> json list \<Rightarrow> nat \<Rightarrow> event" where
  "event_at epoch hist i = \<lparr>ev_epoch = epoch, ev_seq = i + 1, ev_payload = hist ! i\<rparr>"

definition events_between :: "jstring \<Rightarrow> json list \<Rightarrow> nat \<Rightarrow> nat \<Rightarrow> event list" where
  "events_between epoch hist a b = map (event_at epoch hist) [a..<b]"

definition entry_of :: "event \<Rightarrow> (event \<times> nat) option" where
  "entry_of ev = Some (ev, json_bytes (ev_payload ev))"

lemma events_between_extend:
  "b \<le> length hist \<Longrightarrow> events_between epoch (hist @ ps) a b = events_between epoch hist a b"
  by (auto simp: events_between_def event_at_def nth_append)

lemma events_between_snoc:
  "a \<le> b \<Longrightarrow> events_between epoch hist a (Suc b) = events_between epoch hist a b @ [event_at epoch hist b]"
  by (simp add: events_between_def)

lemma length_events_between [simp]: "length (events_between epoch hist a b) = b - a"
  by (simp add: events_between_def)

lemma nth_events_between: "i < b - a \<Longrightarrow> events_between epoch hist a b ! i = event_at epoch hist (a + i)"
  by (simp add: events_between_def)

section \<open>What the journal keeps\<close>

text \<open>
  The entries from the head on are the last events, with their sizes; the slots before it are
  empty.
\<close>

definition is_tail :: "jstring \<Rightarrow> json list \<Rightarrow> (event \<times> nat) option list \<Rightarrow> bool" where
  "is_tail epoch hist es \<longleftrightarrow> length es \<le> length hist
     \<and> es = map entry_of (events_between epoch hist (length hist - length es) (length hist))"

definition keeps :: "json list \<Rightarrow> journal \<Rightarrow> bool" where
  "keeps hist J \<longleftrightarrow>
     jn_seq J = length hist \<and> jn_head J \<le> length (jn_entries J)
     \<and> is_tail (jn_epoch J) hist (drop (jn_head J) (jn_entries J))
     \<and> jn_bytes J = sum_list (map (\<lambda>(_, b). int b) (kept J))"

lemma is_tail_Cons:
  assumes "is_tail epoch hist (e # es)"
  shows "is_tail epoch hist es" "e = entry_of (event_at epoch hist (length hist - Suc (length es)))"
proof -
  have "Suc (length es) \<le> length hist" using assms by (simp add: is_tail_def)
  then have "length hist - length es = Suc (length hist - Suc (length es))" "length hist - Suc (length es) < length hist"
    by linarith+
  then have "events_between epoch hist (length hist - Suc (length es)) (length hist)
      = event_at epoch hist (length hist - Suc (length es)) # events_between epoch hist (length hist - length es) (length hist)"
    unfolding events_between_def by (simp add: upt_conv_Cons del: upt_Suc)
  then show "is_tail epoch hist es" "e = entry_of (event_at epoch hist (length hist - Suc (length es)))"
    using assms unfolding is_tail_def by simp_all
qed

lemma is_tail_snoc:
  assumes "is_tail epoch hist es"
  shows "is_tail epoch (hist @ [p]) (es @ [entry_of (event_at epoch (hist @ [p]) (length hist))])"
proof -
  let ?k = "length hist - length es"
  have "events_between epoch (hist @ [p]) ?k (Suc (length hist))
      = events_between epoch hist ?k (length hist) @ [event_at epoch (hist @ [p]) (length hist)]"
    by (subst events_between_snoc) (simp_all add: events_between_extend)
  then show ?thesis using assms by (auto simp: is_tail_def)
qed

definition within_limits :: "journal_limits \<Rightarrow> journal \<Rightarrow> bool" where
  "within_limits lim J \<longleftrightarrow>
     length (jn_entries J) - jn_head J \<le> jl_events lim \<and> jn_bytes J \<le> int (jl_bytes lim)
     \<and> (jn_head J \<le> 4096 \<or> 2 * jn_head J \<le> length (jn_entries J))"

lemma kept_entries:
  assumes "keeps hist J"
  shows "kept J = map (\<lambda>ev. (ev, json_bytes (ev_payload ev)))
    (events_between (jn_epoch J) hist (length hist - (length (jn_entries J) - jn_head J)) (length hist))"
proof -
  have all: "map the (filter (\<lambda>x. x \<noteq> None) (map entry_of evs)) = map (\<lambda>ev. (ev, json_bytes (ev_payload ev))) evs" for evs
    by (induction evs) (simp_all add: entry_of_def)
  have "drop (jn_head J) (jn_entries J) = map entry_of
      (events_between (jn_epoch J) hist (length hist - (length (jn_entries J) - jn_head J)) (length hist))"
    using assms by (simp add: keeps_def is_tail_def)
  then show ?thesis unfolding kept_def by (simp only: all)
qed

lemma keeps_same:
  "keeps hist J \<Longrightarrow> jn_seq J' = jn_seq J \<Longrightarrow> jn_entries J' = jn_entries J \<Longrightarrow> jn_head J' = jn_head J \<Longrightarrow>
   jn_epoch J' = jn_epoch J \<Longrightarrow> jn_bytes J' = jn_bytes J \<Longrightarrow> keeps hist J'"
  by (simp add: keeps_def kept_def)

lemma keeps_evict:
  "keeps hist J \<Longrightarrow> keeps hist (evict lim J) \<and> length (jn_entries (evict lim J)) - jn_head (evict lim J) \<le> jl_events lim
     \<and> jn_bytes (evict lim J) \<le> int (jl_bytes lim)"
proof (induction lim J rule: evict.induct)
  case (1 lim J)
  let ?h = "jn_head J" and ?es = "jn_entries J"
  show ?case
  proof (cases "?h < length ?es \<and> (jl_events lim < length ?es - ?h \<or> int (jl_bytes lim) < jn_bytes J)")
    case False
    have "jn_bytes J = 0" if "?h \<ge> length ?es"
      using that "1.prems" by (simp add: keeps_def kept_def)
    then have "length ?es - ?h \<le> jl_events lim \<and> jn_bytes J \<le> int (jl_bytes lim)" using False by force
    moreover have "evict lim J = J" by (subst evict.simps) (simp only: False if_False)
    ultimately show ?thesis using "1.prems" by simp
  next
    case True
    have d0: "drop ?h ?es = ?es ! ?h # drop (Suc ?h) ?es" using True by (simp add: Cons_nth_drop_Suc)
    have tail: "is_tail (jn_epoch J) hist (?es ! ?h # drop (Suc ?h) ?es)"
      using "1.prems" unfolding keeps_def d0 by blast
    obtain ev b where head: "?es ! ?h = Some (ev, b)"
      using is_tail_Cons(2) [OF tail] by (simp add: entry_of_def)
    let ?J = "J\<lparr>jn_bytes := jn_bytes J - int b, jn_entries := ?es[?h := None], jn_head := ?h + 1\<rparr>"
    have "kept J = (ev, b) # kept ?J" by (simp add: kept_def d0 head)
    then have "keeps hist ?J"
      using "1.prems" is_tail_Cons(1) [OF tail] True by (simp add: keeps_def)
    from "1.IH" [OF True head refl this] have "keeps hist (evict lim ?J) \<and>
      length (jn_entries (evict lim ?J)) - jn_head (evict lim ?J) \<le> jl_events lim \<and>
      jn_bytes (evict lim ?J) \<le> int (jl_bytes lim)" .
    moreover have "evict lim J = evict lim ?J" using True head by (subst evict.simps) simp
    ultimately show ?thesis by simp
  qed
qed

lemma compact_drop: "drop (jn_head (compact J)) (jn_entries (compact J)) = drop (jn_head J) (jn_entries J)"
  by (simp add: compact_def)

lemma compact_other [simp]:
  "jn_epoch (compact J) = jn_epoch J" "jn_seq (compact J) = jn_seq J" "jn_bytes (compact J) = jn_bytes J"
  "jn_delivering (compact J) = jn_delivering J" "jn_notifications (compact J) = jn_notifications J"
  "jn_index (compact J) = jn_index J" "jn_visited (compact J) = jn_visited J"
  "jn_listeners (compact J) = jn_listeners J" "jn_next (compact J) = jn_next J"
  by (simp_all add: compact_def)

lemma keeps_compact: "keeps hist J \<Longrightarrow> keeps hist (compact J)"
  unfolding keeps_def kept_def compact_drop by (simp add: compact_def)

lemma compact_limits:
  "length (jn_entries (compact J)) - jn_head (compact J) = length (jn_entries J) - jn_head J"
  "jn_head (compact J) \<le> 4096 \<or> 2 * jn_head (compact J) \<le> length (jn_entries (compact J))"
  by (auto simp: compact_def)

lemma evict_other [simp]:
  "jn_epoch (evict lim J) = jn_epoch J" "jn_seq (evict lim J) = jn_seq J"
  "jn_delivering (evict lim J) = jn_delivering J" "jn_notifications (evict lim J) = jn_notifications J"
  "jn_index (evict lim J) = jn_index J" "jn_visited (evict lim J) = jn_visited J"
  "jn_listeners (evict lim J) = jn_listeners J" "jn_next (evict lim J) = jn_next J"
proof (induction lim J rule: evict.induct)
  case (1 lim J)
  { case 1 show ?case using "1.IH" by (subst evict.simps) (auto split: option.splits)
  next case 2 show ?case using "1.IH" by (subst evict.simps) (auto split: option.splits)
  next case 3 show ?case using "1.IH" by (subst evict.simps) (auto split: option.splits)
  next case 4 show ?case using "1.IH" by (subst evict.simps) (auto split: option.splits)
  next case 5 show ?case using "1.IH" by (subst evict.simps) (auto split: option.splits)
  next case 6 show ?case using "1.IH" by (subst evict.simps) (auto split: option.splits)
  next case 7 show ?case using "1.IH" by (subst evict.simps) (auto split: option.splits)
  next case 8 show ?case using "1.IH" by (subst evict.simps) (auto split: option.splits) }
qed

lemma retain_keeps:
  assumes "keeps hist J"
  shows "keeps (hist @ [p]) (retain lim (next_event p J) J) \<and> within_limits lim (retain lim (next_event p J) J)"
proof -
  let ?ev = "next_event p J"
  let ?b = "json_bytes p"
  let ?J = "J\<lparr>jn_seq := ev_seq ?ev, jn_entries := jn_entries J @ [Some (?ev, ?b)], jn_bytes := jn_bytes J + int ?b\<rparr>"
  have "?ev = event_at (jn_epoch J) (hist @ [p]) (length hist)"
    using assms by (simp add: next_event_def event_at_def keeps_def)
  then have "entry_of (event_at (jn_epoch J) (hist @ [p]) (length hist)) = Some (?ev, ?b)"
    by (simp add: entry_of_def next_event_def event_at_def)
  moreover have "kept ?J = kept J @ [(?ev, ?b)]" using assms by (simp add: kept_def keeps_def)
  ultimately have "keeps (hist @ [p]) ?J"
    using assms is_tail_snoc [of "jn_epoch J" hist "drop (jn_head J) (jn_entries J)" p]
    by (simp add: keeps_def next_event_def)
  note E = keeps_evict [OF this, of lim]
  have r: "retain lim ?ev J = compact (evict lim ?J)" by (simp add: retain_def next_event_def Let_def)
  show ?thesis unfolding r within_limits_def compact_limits(1)
    using E keeps_compact [of "hist @ [p]" "evict lim ?J"] compact_limits(2) [of "evict lim ?J"]
    by (simp only: compact_other simp_thms)
qed

section \<open>Deliveries\<close>

text \<open>How many events a live listener is past.\<close>

definition position :: "journal \<Rightarrow> nat \<Rightarrow> nat" where
  "position J l =
     (if jn_delivering J
      then jn_seq J - length (jn_notifications J) + jn_index J + (if l \<in> set (jn_visited J) then 1 else 0)
      else jn_seq J)"

definition received :: "system \<Rightarrow> nat \<Rightarrow> event list" where
  "received S l = map snd (filter (\<lambda>c. fst c = l) (sy_calls S))"

definition delivery_ok :: "json list \<Rightarrow> journal \<Rightarrow> bool" where
  "delivery_ok hist J \<longleftrightarrow>
     (if jn_delivering J then
        length (jn_notifications J) \<le> length hist
        \<and> jn_notifications J = events_between (jn_epoch J) hist (length hist - length (jn_notifications J)) (length hist)
        \<and> jn_index J \<le> length (jn_notifications J)
        \<and> (jn_index J = length (jn_notifications J) \<longrightarrow> jn_visited J = [])
      else jn_notifications J = [])
     \<and> (\<forall>l \<in> set (jn_listeners J) \<union> set (jn_visited J). l < jn_next J)"

definition in_order :: "system \<Rightarrow> nat \<Rightarrow> bool" where
  "in_order S l \<longleftrightarrow>
     (\<exists>s \<le> sy_opened S l. s \<le> position (sy_journal S) l \<and> sy_opened S l \<le> length (sy_history S)
        \<and> received S l = events_between (jn_epoch (sy_journal S)) (sy_history S) s (position (sy_journal S) l))"

lemma in_orderI:
  "s \<le> sy_opened S l \<Longrightarrow> s \<le> position (sy_journal S) l \<Longrightarrow> sy_opened S l \<le> length (sy_history S) \<Longrightarrow>
   received S l = events_between (jn_epoch (sy_journal S)) (sy_history S) s (position (sy_journal S) l) \<Longrightarrow>
   in_order S l"
  unfolding in_order_def by blast

definition system_ok :: "journal_limits \<Rightarrow> system \<Rightarrow> bool" where
  "system_ok lim S \<longleftrightarrow>
     keeps (sy_history S) (sy_journal S) \<and> within_limits lim (sy_journal S)
     \<and> delivery_ok (sy_history S) (sy_journal S)
     \<and> (\<forall>c \<in> set (sy_calls S). fst c < jn_next (sy_journal S))
     \<and> (\<forall>l \<in> set (jn_listeners (sy_journal S)). in_order S l)"

lemma journal_append_Inr:
  assumes "journal_append lim payload J = (Inr ev, J')"
  obtains p where "copyRemoteJson payload = Inr p" "ev = next_event p J" "J' = notify ev (retain lim ev J)" "ev_payload ev = p"
  using assms by (auto simp: journal_append_def Let_def next_event_def split: sum.splits if_splits)

lemma retain_other [simp]:
  "jn_epoch (retain lim ev J) = jn_epoch J" "jn_seq (retain lim ev J) = ev_seq ev"
  "jn_delivering (retain lim ev J) = jn_delivering J" "jn_notifications (retain lim ev J) = jn_notifications J"
  "jn_index (retain lim ev J) = jn_index J" "jn_visited (retain lim ev J) = jn_visited J"
  "jn_listeners (retain lim ev J) = jn_listeners J" "jn_next (retain lim ev J) = jn_next J"
  by (simp_all add: retain_def Let_def)

lemma notify_other [simp]:
  "jn_epoch (notify ev J) = jn_epoch J" "jn_seq (notify ev J) = jn_seq J" "jn_entries (notify ev J) = jn_entries J"
  "jn_bytes (notify ev J) = jn_bytes J" "jn_head (notify ev J) = jn_head J" "jn_delivering (notify ev J)"
  "jn_notifications (notify ev J) = jn_notifications J @ [ev]"
  "jn_listeners (notify ev J) = jn_listeners J" "jn_next (notify ev J) = jn_next J"
  by (simp_all add: notify_def Let_def)

lemma within_limits_same:
  "within_limits lim J \<Longrightarrow> jn_entries J' = jn_entries J \<Longrightarrow> jn_head J' = jn_head J \<Longrightarrow> jn_bytes J' = jn_bytes J \<Longrightarrow>
   within_limits lim J'"
  by (simp add: within_limits_def)

lemma deliver_Some:
  assumes "deliver J = Some (c, J')"
  obtains l where "jn_delivering J" "jn_index J < length (jn_notifications J)" "l \<in> set (jn_listeners J)"
    "l \<notin> set (jn_visited J)" "c = (l, jn_notifications J ! jn_index J)" "J' = J\<lparr>jn_visited := jn_visited J @ [l]\<rparr>"
proof -
  have d: "jn_delivering J" "jn_index J < length (jn_notifications J)"
    using assms by (auto simp: deliver_def split: if_splits)
  then obtain l where l: "next_listener J = Some l" "c = (l, jn_notifications J ! jn_index J)"
    "J' = J\<lparr>jn_visited := jn_visited J @ [l]\<rparr>"
    using assms by (auto simp: deliver_def split: option.splits)
  have "l \<in> set (jn_listeners J)" "l \<notin> set (jn_visited J)"
    using l(1) unfolding next_listener_def find_Some_iff by auto
  then show ?thesis using that d l by blast
qed

lemma deliver_None:
  assumes "jn_delivering J" "deliver J = None" "jn_index J < length (jn_notifications J)"
  shows "set (jn_listeners J) \<subseteq> set (jn_visited J)"
proof -
  have "next_listener J = None" using assms by (auto simp: deliver_def split: option.splits)
  then show ?thesis unfolding next_listener_def find_None_iff by blast
qed

lemma system_ok_append:
  assumes "system_ok lim S" "journal_append lim payload (sy_journal S) = (Inr ev, J)"
  shows "system_ok lim (S\<lparr>sy_journal := J, sy_history := sy_history S @ [ev_payload ev]\<rparr>)"
proof -
  let ?J = "sy_journal S" and ?h = "sy_history S"
  obtain p where p: "ev = next_event p ?J" "J = notify ev (retain lim ev ?J)" "ev_payload ev = p"
    using assms(2) by (rule journal_append_Inr)
  have ok: "keeps ?h ?J" "within_limits lim ?J" "delivery_ok ?h ?J"
    "\<forall>c \<in> set (sy_calls S). fst c < jn_next ?J" "\<forall>l \<in> set (jn_listeners ?J). in_order S l"
    using assms(1) by (auto simp: system_ok_def)
  have seq: "jn_seq ?J = length ?h" using ok(1) by (simp add: keeps_def)
  have evs: "ev_seq ev = Suc (length ?h)" "ev = event_at (jn_epoch ?J) (?h @ [p]) (length ?h)"
    using p(1) seq by (simp_all add: next_event_def event_at_def)
  have r: "keeps (?h @ [p]) J" "within_limits lim J"
    using retain_keeps [OF ok(1), of p lim] unfolding p(1) [symmetric] p(2)
    by (auto intro: keeps_same within_limits_same)
  have del: "delivery_ok (?h @ [p]) J"
  proof (cases "jn_delivering ?J")
    case True
    let ?n = "jn_notifications ?J"
    have n: "length ?n \<le> length ?h" "?n = events_between (jn_epoch ?J) ?h (length ?h - length ?n) (length ?h)"
      "jn_index ?J \<le> length ?n" "jn_index ?J = length ?n \<longrightarrow> jn_visited ?J = []"
      "\<forall>l \<in> set (jn_listeners ?J) \<union> set (jn_visited ?J). l < jn_next ?J"
      using ok(3) True by (simp_all add: delivery_ok_def)
    have "events_between (jn_epoch ?J) (?h @ [p]) (length ?h - length ?n) (Suc (length ?h)) = ?n @ [ev]"
      using n(1,2) evs(2) by (subst events_between_snoc) (simp_all add: events_between_extend)
    then show ?thesis using True n p(2) by (simp add: delivery_ok_def notify_def Let_def)
  next
    case False
    have "events_between (jn_epoch ?J) (?h @ [p]) (length ?h) (Suc (length ?h)) = [ev]"
      using evs(2) by (simp add: events_between_def)
    then show ?thesis using False ok(3) p(2) by (simp add: delivery_ok_def notify_def Let_def)
  qed
  have pos: "position J l = position ?J l" for l
  proof (cases "jn_delivering ?J")
    case True
    then have "length (jn_notifications ?J) \<le> length ?h" using ok(3) by (simp add: delivery_ok_def)
    then show ?thesis using True p(2) evs(1) seq by (simp add: position_def notify_def Let_def)
  next
    case False
    then show ?thesis using ok(3) p(2) evs(1) seq by (simp add: position_def notify_def Let_def delivery_ok_def)
  qed
  have le: "position ?J l \<le> length ?h" if "l \<in> set (jn_listeners ?J)" for l
    using ok(3) seq by (auto simp: position_def delivery_ok_def split: if_splits)
  have "in_order (S\<lparr>sy_journal := J, sy_history := ?h @ [p]\<rparr>) l" if l: "l \<in> set (jn_listeners ?J)" for l
  proof -
    obtain s where s: "s \<le> sy_opened S l" "s \<le> position ?J l" "sy_opened S l \<le> length ?h"
      "received S l = events_between (jn_epoch ?J) ?h s (position ?J l)"
      using ok(5) l unfolding in_order_def by blast
    moreover have "jn_epoch J = jn_epoch ?J" using p(2) by simp
    ultimately show ?thesis
      using events_between_extend [OF le [OF l], of "jn_epoch ?J" "[p]" s]
      by (intro in_orderI [of s]) (simp_all add: received_def pos)
  qed
  then show ?thesis using r del ok(4) p(2,3) by (simp add: system_ok_def)
qed

text \<open>A step that changes neither the events nor the calls.\<close>

lemma system_ok_frame:
  assumes "system_ok lim S" "jn_epoch J = jn_epoch (sy_journal S)" "jn_seq J = jn_seq (sy_journal S)"
    "jn_entries J = jn_entries (sy_journal S)" "jn_head J = jn_head (sy_journal S)" "jn_bytes J = jn_bytes (sy_journal S)"
    "jn_next (sy_journal S) \<le> jn_next J" "delivery_ok (sy_history S) J"
    "\<And>l. l \<in> set (jn_listeners J) \<Longrightarrow> in_order (S\<lparr>sy_journal := J, sy_opened := f\<rparr>) l"
  shows "system_ok lim (S\<lparr>sy_journal := J, sy_opened := f\<rparr>)"
  using assms keeps_same [of "sy_history S" "sy_journal S" J] within_limits_same [of lim "sy_journal S" J]
  by (auto simp: system_ok_def)

lemma in_order_same:
  assumes "in_order S l" "position J l = position (sy_journal S) l" "jn_epoch J = jn_epoch (sy_journal S)" "f l = sy_opened S l"
  shows "in_order (S\<lparr>sy_journal := J, sy_opened := f\<rparr>) l"
  using assms by (simp add: in_order_def received_def)

lemma set_same: "system_ok lim (S\<lparr>sy_journal := J, sy_opened := sy_opened S\<rparr>) \<Longrightarrow> system_ok lim (S\<lparr>sy_journal := J\<rparr>)"
  by simp

lemma journal_open_Inr:
  assumes "journal_open cur (\<lambda>J. (shown, J)) force J = (Inr (initial, w, l), J')"
  shows "w = jn_seq J" "l = jn_next J"
    "J' = J\<lparr>jn_listeners := jn_listeners J @ [jn_next J], jn_next := jn_next J + 1\<rparr>"
  using assms by (auto simp: journal_open_def Let_def split: if_splits option.splits sum.splits)

lemma system_ok_opened:
  assumes "system_ok lim S" "journal_open cur (\<lambda>J. (shown, J)) force (sy_journal S) = (Inr (initial, w, l), J)"
  shows "system_ok lim (S\<lparr>sy_journal := J, sy_opened := (sy_opened S)(l := w)\<rparr>)"
proof (rule system_ok_frame [OF assms(1)])
  let ?J = "sy_journal S"
  note J = journal_open_Inr [OF assms(2)]
  have ok: "keeps (sy_history S) ?J" "delivery_ok (sy_history S) ?J" "\<forall>c \<in> set (sy_calls S). fst c < jn_next ?J"
    "\<forall>l \<in> set (jn_listeners ?J). in_order S l" using assms(1) by (auto simp: system_ok_def)
  have new: "\<forall>k \<in> set (jn_listeners ?J) \<union> set (jn_visited ?J). k < l" using ok(2) J(2) by (auto simp: delivery_ok_def)
  show "delivery_ok (sy_history S) J" using ok(2) J(2,3) by (auto simp: delivery_ok_def less_Suc_eq)
  fix k assume k: "k \<in> set (jn_listeners J)"
  show "in_order (S\<lparr>sy_journal := J, sy_opened := (sy_opened S)(l := w)\<rparr>) k"
  proof (cases "k = l")
    case True
    have "received S l = []" using ok(3) J(2) by (force simp: received_def filter_empty_conv)
    moreover have "position J l \<le> w" "w \<le> length (sy_history S)"
      using ok(1,2) J new by (auto simp: position_def delivery_ok_def keeps_def)
    ultimately show ?thesis using True
      by (intro in_orderI [of "position J l"]) (simp_all add: received_def events_between_def)
  next
    case False
    then have "in_order S k" using k J(2,3) ok(4) by auto
    then show ?thesis using False J(3) by (intro in_order_same) (simp_all add: position_def)
  qed
qed (use journal_open_Inr [OF assms(2)] in simp_all)

lemma system_ok_call:
  assumes "system_ok lim S" "deliver (sy_journal S) = Some (c, J)"
  shows "system_ok lim (S\<lparr>sy_journal := J, sy_calls := sy_calls S @ [c]\<rparr>)"
proof -
  let ?J = "sy_journal S" and ?h = "sy_history S"
  have ok: "keeps ?h ?J" "within_limits lim ?J" "delivery_ok ?h ?J"
    "\<forall>c \<in> set (sy_calls S). fst c < jn_next ?J" "\<forall>l \<in> set (jn_listeners ?J). in_order S l"
    using assms(1) by (auto simp: system_ok_def)
  obtain l where l: "jn_delivering ?J" "jn_index ?J < length (jn_notifications ?J)" "l \<in> set (jn_listeners ?J)"
    "l \<notin> set (jn_visited ?J)" "c = (l, jn_notifications ?J ! jn_index ?J)" "J = ?J\<lparr>jn_visited := jn_visited ?J @ [l]\<rparr>"
    using assms(2) by (rule deliver_Some)
  have len: "length (jn_notifications ?J) \<le> length ?h"
    and n: "jn_notifications ?J = events_between (jn_epoch ?J) ?h (length ?h - length (jn_notifications ?J)) (length ?h)"
    using ok(3) l(1) by (simp_all add: delivery_ok_def)
  have "position ?J l = length ?h - length (jn_notifications ?J) + jn_index ?J"
    using l(1,4) ok(1) by (simp add: position_def keeps_def)
  then have ev: "jn_notifications ?J ! jn_index ?J = event_at (jn_epoch ?J) ?h (position ?J l)"
    using nth_events_between [of "jn_index ?J" "length ?h" "length ?h - length (jn_notifications ?J)" "jn_epoch ?J" ?h]
      n [symmetric] l(2) len by simp
  have pos: "position J k = (if k = l then Suc (position ?J l) else position ?J k)" for k
    using l by (simp add: position_def)
  have "in_order (S\<lparr>sy_journal := J, sy_calls := sy_calls S @ [c]\<rparr>) k" if k: "k \<in> set (jn_listeners ?J)" for k
  proof -
    obtain s where s: "s \<le> sy_opened S k" "s \<le> position ?J k" "sy_opened S k \<le> length ?h"
      "received S k = events_between (jn_epoch ?J) ?h s (position ?J k)"
      using ok(5) k unfolding in_order_def by blast
    have "received (S\<lparr>sy_journal := J, sy_calls := sy_calls S @ [c]\<rparr>) k
        = received S k @ (if k = l then [event_at (jn_epoch ?J) ?h (position ?J l)] else [])"
      using l(5) ev by (simp add: received_def)
    then show ?thesis using s pos l(6)
      by (intro in_orderI [of s]) (auto simp: events_between_snoc)
  qed
  moreover have "delivery_ok ?h J" using ok(3) l by (auto simp: delivery_ok_def)
  moreover have "keeps ?h J" "within_limits lim J"
    using ok(1,2) l(6) by (auto intro: keeps_same within_limits_same)
  moreover have "\<forall>c' \<in> set (sy_calls S @ [c]). fst c' < jn_next J"
    using ok(3,4) l by (auto simp: delivery_ok_def)
  ultimately show ?thesis using l(6) by (simp add: system_ok_def)
qed

lemma system_ok_advance:
  assumes "system_ok lim S" "jn_delivering (sy_journal S)" "deliver (sy_journal S) = None"
  shows "system_ok lim (S\<lparr>sy_journal := advance (sy_journal S)\<rparr>)"
proof (rule set_same, rule system_ok_frame [OF assms(1)])
  let ?J = "sy_journal S"
  have ok: "keeps (sy_history S) ?J" "delivery_ok (sy_history S) ?J" "\<forall>l \<in> set (jn_listeners ?J). in_order S l"
    using assms(1) by (auto simp: system_ok_def)
  show "delivery_ok (sy_history S) (advance ?J)"
    using ok(2) assms(2) by (auto simp: delivery_ok_def advance_def)
  fix l assume "l \<in> set (jn_listeners (advance ?J))"
  then have l: "l \<in> set (jn_listeners ?J)" by (simp add: advance_def split: if_splits)
  have "position (advance ?J) l = position ?J l"
  proof (cases "jn_index ?J < length (jn_notifications ?J)")
    case True
    then have "l \<in> set (jn_visited ?J)" using deliver_None [OF assms(2,3)] l by blast
    then show ?thesis using True assms(2) by (simp add: position_def advance_def)
  next
    case False
    then have "jn_index ?J = length (jn_notifications ?J)" "jn_visited ?J = []" "length (jn_notifications ?J) \<le> jn_seq ?J"
      using ok(1,2) assms(2) by (auto simp: delivery_ok_def keeps_def)
    then show ?thesis using False assms(2) by (simp add: position_def advance_def)
  qed
  then show "in_order (S\<lparr>sy_journal := advance ?J, sy_opened := sy_opened S\<rparr>) l"
    using ok(3) l by (intro in_order_same) (auto simp: advance_def)
qed (simp_all add: advance_def)

lemma system_ok_simple:
  assumes "system_ok lim S" "jn_epoch J = jn_epoch (sy_journal S)" "jn_seq J = jn_seq (sy_journal S)"
    "jn_entries J = jn_entries (sy_journal S)" "jn_head J = jn_head (sy_journal S)" "jn_bytes J = jn_bytes (sy_journal S)"
    "jn_next J = jn_next (sy_journal S)" "jn_delivering J = jn_delivering (sy_journal S)"
    "jn_notifications J = jn_notifications (sy_journal S)" "jn_index J = jn_index (sy_journal S)"
    "jn_visited J = jn_visited (sy_journal S)" "set (jn_listeners J) \<subseteq> set (jn_listeners (sy_journal S))"
  shows "system_ok lim (S\<lparr>sy_journal := J\<rparr>)"
proof (rule set_same, rule system_ok_frame [OF assms(1)])
  show "delivery_ok (sy_history S) J" using assms by (auto simp: system_ok_def delivery_ok_def)
  fix l assume "l \<in> set (jn_listeners J)"
  then have "in_order S l" using assms(1,12) by (auto simp: system_ok_def)
  then show "in_order (S\<lparr>sy_journal := J, sy_opened := sy_opened S\<rparr>) l"
    using assms by (intro in_order_same) (simp_all add: position_def)
qed (use assms in simp_all)

lemma system_ok_step: "journal_step lim S T \<Longrightarrow> system_ok lim S \<Longrightarrow> system_ok lim T"
proof (induction rule: journal_step.induct)
  case (degrade S)
  then show ?case by (intro system_ok_simple) simp_all
next
  case (closed S l)
  then show ?case by (intro system_ok_simple) (auto simp: close_listener_def)
qed (auto intro: system_ok_append system_ok_opened system_ok_call system_ok_advance)

lemma system_ok_new: "system_ok lim (new_system epoch)"
  by (simp add: system_ok_def new_system_def new_journal_def keeps_def is_tail_def kept_def within_limits_def
      delivery_ok_def events_between_def)

lemma system_ok_reachable: "reachable lim S T \<Longrightarrow> system_ok lim S \<Longrightarrow> system_ok lim T"
  by (induction rule: reachable.induct) (auto intro: system_ok_step)

lemma journal_step_epoch: "journal_step lim S T \<Longrightarrow> jn_epoch (sy_journal T) = jn_epoch (sy_journal S)"
proof (induction rule: journal_step.induct)
  case (append payload S ev J)
  then show ?case by (auto elim: journal_append_Inr)
next
  case (opened cur shown force S initial w l J)
  then show ?case using journal_open_Inr(3) by fastforce
next
  case (call S c J)
  then show ?case by (auto elim: deliver_Some)
qed (simp_all add: advance_def close_listener_def)

lemma journal_step_history:
  "journal_step lim S T \<Longrightarrow> \<exists>ps. sy_history T = sy_history S @ ps"
  by (induction rule: journal_step.induct) auto

lemma reachable_epoch: "reachable lim S T \<Longrightarrow> jn_epoch (sy_journal T) = jn_epoch (sy_journal S)"
  by (induction rule: reachable.induct) (auto dest: journal_step_epoch)

lemma reachable_history: "reachable lim S T \<Longrightarrow> \<exists>ps. sy_history T = sy_history S @ ps"
  by (induction rule: reachable.induct) (auto dest!: journal_step_history)

text \<open>A listener is opened once: its watermark stays while it is there.\<close>

lemma journal_step_opened:
  assumes "journal_step lim S T" "l < jn_next (sy_journal S)"
  shows "sy_opened T l = sy_opened S l \<and> l < jn_next (sy_journal T)"
  using assms
proof (induction rule: journal_step.induct)
  case (append payload S ev J)
  then show ?case by (auto elim: journal_append_Inr)
next
  case (opened cur shown force S initial w k J)
  then show ?case using journal_open_Inr(2,3) by fastforce
next
  case (call S c J)
  then show ?case by (auto elim: deliver_Some)
qed (auto simp: advance_def close_listener_def)

lemma reachable_opened:
  "reachable lim S T \<Longrightarrow> l < jn_next (sy_journal S) \<Longrightarrow> sy_opened T l = sy_opened S l \<and> l < jn_next (sy_journal T)"
  by (induction rule: reachable.induct) (auto dest: journal_step_opened)

lemma reachable_ok:
  assumes "reachable lim (new_system epoch) S"
  shows "system_ok lim S" "jn_epoch (sy_journal S) = epoch"
  using system_ok_reachable [OF assms system_ok_new] reachable_epoch [OF assms]
  by (simp_all add: new_system_def new_journal_def)

text \<open>
  The journal is bounded memory over the last events: whatever is appended, watched and closed,
  in whatever order, it keeps exactly the last few events of the history with their numbers, no more
  and no larger than the limits say, and the array behind it never grows past twice the number of
  events it may keep and 4096 slots.
\<close>

theorem journal_bounded:
  assumes "reachable lim (new_system epoch) S"
  shows "jn_seq (sy_journal S) = length (sy_history S)
    \<and> (\<exists>k \<le> length (sy_history S). map fst (kept (sy_journal S))
          = events_between epoch (sy_history S) k (length (sy_history S)))
    \<and> length (kept (sy_journal S)) \<le> jl_events lim
    \<and> sum_list (map (\<lambda>(_, b). int b) (kept (sy_journal S))) \<le> int (jl_bytes lim)
    \<and> length (jn_entries (sy_journal S)) \<le> 2 * jl_events lim + 4096"
proof -
  let ?J = "sy_journal S" and ?h = "sy_history S"
  have ok: "keeps ?h ?J" "within_limits lim ?J" "jn_epoch ?J = epoch"
    using reachable_ok [OF assms] by (simp_all add: system_ok_def)
  have len: "length (jn_entries ?J) - jn_head ?J \<le> length ?h" using ok(1) by (simp add: keeps_def is_tail_def)
  have "map fst (kept ?J) = events_between epoch ?h (length ?h - (length (jn_entries ?J) - jn_head ?J)) (length ?h)"
    using kept_entries [OF ok(1)] ok(3) by (simp add: comp_def)
  moreover have "length (kept ?J) \<le> jl_events lim"
    using kept_entries [OF ok(1)] ok(2) len by (simp add: within_limits_def)
  moreover have "length (jn_entries ?J) \<le> 2 * jl_events lim + 4096" using ok(2) by (auto simp: within_limits_def)
  moreover have "jn_seq ?J = length ?h" "sum_list (map (\<lambda>(_, b). int b) (kept ?J)) \<le> int (jl_bytes lim)"
    using ok(1,2) by (simp_all add: keeps_def within_limits_def)
  ultimately show ?thesis using diff_le_self by blast
qed

lemma listener_hears:
  assumes "reachable lim (new_system epoch) S" "l \<in> set (jn_listeners (sy_journal S))"
  shows "\<exists>s t. s \<le> sy_opened S l \<and> received S l = events_between epoch (sy_history S) s t
    \<and> t \<le> length (sy_history S) \<and> (\<not> jn_delivering (sy_journal S) \<longrightarrow> t = length (sy_history S))"
proof -
  let ?J = "sy_journal S"
  have ok: "in_order S l" "keeps (sy_history S) ?J" "delivery_ok (sy_history S) ?J" "jn_epoch ?J = epoch"
    using reachable_ok [OF assms(1)] assms(2) by (auto simp: system_ok_def)
  have "position ?J l \<le> length (sy_history S)"
    using ok(2,3) by (auto simp: position_def delivery_ok_def keeps_def)
  moreover have "\<not> jn_delivering ?J \<longrightarrow> position ?J l = length (sy_history S)"
    using ok(2) by (simp add: position_def keeps_def)
  ultimately show ?thesis using ok(1,4) unfolding in_order_def by blast
qed

text \<open>
  A listener hears every event once and in order, from one no later than the first after it
  was opened, even when listeners append, open and close while they are called; when the journal is
  idle it has heard them all.
\<close>

theorem listener_hears_all:
  assumes "reachable lim (new_system epoch) S" "l \<in> set (jn_listeners (sy_journal S))"
  shows "\<exists>s t. s \<le> sy_opened S l \<and> received S l = events_between epoch (sy_history S) s t
    \<and> t \<le> length (sy_history S) \<and> (\<not> jn_delivering (sy_journal S) \<longrightarrow> t = length (sy_history S))"
  using assms by (rule listener_hears)

section \<open>A client that comes back\<close>

definition play_events :: "'s client_apply \<Rightarrow> json list \<Rightarrow> nat \<Rightarrow> nat \<Rightarrow> nat \<Rightarrow> 's \<Rightarrow> 's" where
  "play_events f hist w a b s = fold (\<lambda>i s. the (on_event f (hist ! i) (i < w) (i + 1) s)) [a..<b] s"

lemma receive_all_append:
  "receive_all f (xs @ ys) C = (case receive_all f xs C of Inl e \<Rightarrow> Inl e | Inr C' \<Rightarrow> receive_all f ys C')"
  by (induction xs arbitrary: C) (auto split: sum.splits prod.splits)

lemma receive_events:
  assumes "\<forall>p r q s. on_event f p r q s \<noteq> None" "s \<le> c" "cl_cursor C = Some (epoch, c)"
    "\<forall>i. c \<le> i \<and> i < t \<longrightarrow> replayed = (i < w)"
  shows "\<exists>C'. receive_all f (map (\<lambda>ev. Event ev replayed) (events_between epoch hist s t)) C = Inr C'
    \<and> cl_cursor C' = Some (epoch, max c t) \<and> cl_state C' = play_events f hist w c t (cl_state C)"
  using assms(4)
proof (induction t)
  case 0
  then show ?case using assms(3) by (simp add: events_between_def play_events_def)
next
  case (Suc t)
  then obtain C' where C': "receive_all f (map (\<lambda>ev. Event ev replayed) (events_between epoch hist s t)) C = Inr C'"
    "cl_cursor C' = Some (epoch, max c t)" "cl_state C' = play_events f hist w c t (cl_state C)" by auto
  show ?case
  proof (cases "s \<le> t")
    case True
    note all = events_between_snoc [OF True] receive_all_append
    show ?thesis
    proof (cases "t < c")
      case True
      then show ?thesis using C' by (simp add: all receive_def event_at_def play_events_def)
    next
      case False
      then obtain x where x: "on_event f (hist ! t) replayed (t + 1) (cl_state C') = Some x" using assms(1) by fastforce
      have "replayed = (t < w)" using Suc.prems False by simp
      then have "play_events f hist w c (Suc t) (cl_state C) = x"
        using x False C'(3) by (simp add: play_events_def)
      then show ?thesis using C' False x by (simp add: all receive_def event_at_def moved_def max_def)
    qed
  next
    case False
    then have "events_between epoch hist s (Suc t) = []" "events_between epoch hist s t = []" "t < c"
      using assms(2) by (auto simp: events_between_def)
    then show ?thesis using C' by (auto simp: play_events_def)
  qed
qed

lemma open_resumes:
  assumes "keeps hist J" "journal_open (Some (epoch, int c)) (\<lambda>J. (shown, J)) force J = (Inr (initial, w, l), J')"
    "reset_reason_of (Some (epoch, int c)) force J = None"
  shows "initial = map (\<lambda>ev. Event ev True) (events_between epoch hist c (length hist))"
    "epoch = jn_epoch J" "c \<le> length hist"
proof -
  let ?k = "length hist - (length (jn_entries J) - jn_head J)"
  have r: "epoch = jn_epoch J" "int c \<le> int (jn_seq J)" "int (oldest J) - 1 \<le> int c"
    using assms(3) by (auto simp: reset_reason_of_def split: if_splits)
  have K: "jn_seq J = length hist" "jn_head J \<le> length (jn_entries J)"
    "is_tail (jn_epoch J) hist (drop (jn_head J) (jn_entries J))" using assms(1) by (simp_all add: keeps_def)
  have c: "c \<le> length hist" using r(2) K(1) by simp
  have k: "?k \<le> c"
  proof (cases "jn_head J < length (jn_entries J)")
    case True
    then have d: "drop (jn_head J) (jn_entries J) = jn_entries J ! jn_head J # drop (Suc (jn_head J)) (jn_entries J)"
      by (simp add: Cons_nth_drop_Suc)
    have "jn_entries J ! jn_head J = entry_of (event_at (jn_epoch J) hist ?k)"
      using is_tail_Cons(2) [OF K(3) [unfolded d]] True by (simp add: Suc_diff_Suc)
    then have "oldest J = ?k + 1" using True by (simp add: oldest_def entry_of_def event_at_def)
    then show ?thesis using r(3) by simp
  next
    case False
    then show ?thesis using r(3) K(1) by (simp add: oldest_def)
  qed
  have "[i \<leftarrow> [?k..<length hist]. c < i + 1] = [c..<length hist]"
  proof -
    have "[?k..<length hist] = [?k..<c] @ [c..<length hist]" using k c by (metis le_add_diff_inverse upt_add_eq_append)
    moreover have "[i \<leftarrow> [?k..<c]. c < i + 1] = []" "[i \<leftarrow> [c..<length hist]. c < i + 1] = [c..<length hist]"
      by (auto simp: filter_empty_conv filter_id_conv)
    ultimately show ?thesis by simp
  qed
  then have "filter (\<lambda>(ev, _). int c < int (ev_seq ev)) (kept J)
      = map (\<lambda>ev. (ev, json_bytes (ev_payload ev))) (events_between epoch hist c (length hist))"
    unfolding kept_entries [OF assms(1)] events_between_def r(1)
    by (simp add: filter_map comp_def event_at_def)
  moreover have "initial = map (\<lambda>(ev, _). Event ev True) (filter (\<lambda>(ev, _). int c < int (ev_seq ev)) (kept J))"
    using assms(2,3) by (auto simp: journal_open_def Let_def split: if_splits)
  ultimately show "initial = map (\<lambda>ev. Event ev True) (events_between epoch hist c (length hist))"
    by (simp add: comp_def)
  show "epoch = jn_epoch J" "c \<le> length hist" by (rule r(1), rule c)
qed

lemma reset_accepted:
  assumes "reset_reason_of (map_option (\<lambda>(e, a). (e, int a)) (cl_cursor C)) force J = Some why"
    "on_reset f snap why (cl_state C) = Some s"
  shows "receive f (Reset (jn_epoch J) (jn_seq J) why snap) C = (Inr True, moved (jn_epoch J, jn_seq J) s C)"
  using assms
  by (auto simp: receive_def reset_reason_of_def split: option.splits if_splits)

lemma open_resets:
  assumes "journal_open cur (\<lambda>J. (shown, J)) force J = (Inr (initial, w, l), J')"
    "reset_reason_of cur force J = Some why"
  obtains snap where "copyRemoteJson shown = Inr snap" "initial = [Reset (jn_epoch J) (jn_seq J) why snap]"
  using assms by (auto simp: journal_open_def Let_def split: if_splits sum.splits)

text \<open>
  C6. Coming back loses nothing and repeats nothing: a client that connects with whatever cursor it
  has, fresh, old, of another daemon or too far ahead, and then hears its listener until the journal
  is idle, ends at the last event without ever asking for a repair. Starting from its own state, or
  from the snapshot when the cursor could not be continued, it has applied every later event of the
  history exactly once and in order, although the same event may reach it as replay and live.
\<close>

theorem resume_exactly_once:
  assumes reach: "reachable lim (new_system epoch) S"
    and opened: "journal_open (map_option (\<lambda>(e, a). (e, int a)) (cl_cursor C)) (\<lambda>J. (shown, J)) force (sy_journal S)
          = (Inr (initial, w, l), J)"
    and later: "reachable lim (S\<lparr>sy_journal := J, sy_opened := (sy_opened S)(l := w)\<rparr>) T"
    and live: "l \<in> set (jn_listeners (sy_journal T))" "\<not> jn_delivering (sy_journal T)"
    and total: "\<forall>p r q s. on_event f p r q s \<noteq> None" "\<forall>snap why s. on_reset f snap why s \<noteq> None"
  shows "\<exists>C'. receive_all f (initial @ map (\<lambda>ev. Event ev False) (received T l)) C = Inr C'
    \<and> cl_cursor C' = Some (epoch, length (sy_history T))
    \<and> (case reset_reason_of (map_option (\<lambda>(e, a). (e, int a)) (cl_cursor C)) force (sy_journal S) of
         None \<Rightarrow> cl_state C' = play_events f (sy_history T) w (snd (the (cl_cursor C))) (length (sy_history T)) (cl_state C)
       | Some why \<Rightarrow> \<exists>snap. copyRemoteJson shown = Inr snap
           \<and> cl_state C' = play_events f (sy_history T) w w (length (sy_history T))
               (the (on_reset f snap why (cl_state C))))"
proof -
  let ?J = "sy_journal S" and ?h = "sy_history S" and ?H = "sy_history T"
  let ?cur = "map_option (\<lambda>(e, a). (e, int a)) (cl_cursor C)"
  have step: "journal_step lim S (S\<lparr>sy_journal := J, sy_opened := (sy_opened S)(l := w)\<rparr>)"
    using opened by (rule journal_step.opened)
  have reachT: "reachable lim (new_system epoch) T"
    using later by (induction rule: reachable.induct) (auto intro: reachable.intros reach step)
  have ok: "keeps ?h ?J" "jn_epoch ?J = epoch" using reachable_ok [OF reach] by (simp_all add: system_ok_def)
  obtain ps where ps: "?H = ?h @ ps" using reachable_history [OF later] by auto
  have w: "w = length ?h" using journal_open_Inr(1) [OF opened] ok(1) by (simp add: keeps_def)
  have "l < jn_next J" using journal_open_Inr [OF opened] by simp
  then have "sy_opened T l = w" using reachable_opened [OF later, of l] by simp
  then obtain s where s: "s \<le> w" "received T l = events_between epoch ?H s (length ?H)"
    using listener_hears reachT live by blast
  have finish: "\<exists>C'. receive_all f (map (\<lambda>ev. Event ev False) (received T l)) D = Inr C'
      \<and> cl_cursor C' = Some (epoch, length ?H) \<and> cl_state C' = play_events f ?H w w (length ?H) (cl_state D)"
    if "cl_cursor D = Some (epoch, w)" for D
    using receive_events [OF total(1) s(1) that, of "length ?H" False w ?H] s(2) w ps by (simp add: max_def)
  show ?thesis
  proof (cases "reset_reason_of ?cur force ?J")
    case None
    then obtain e c where c: "cl_cursor C = Some (e, c)"
      by (cases "cl_cursor C") (auto simp: reset_reason_of_def split: if_splits)
    note R = open_resumes [OF ok(1), of e c shown force initial w l J]
    have init: "initial = map (\<lambda>ev. Event ev True) (events_between epoch ?H c w)" and e: "e = epoch" and cw: "c \<le> w"
      using R opened None c ok(2) w ps by (simp_all add: events_between_extend)
    obtain D where D: "receive_all f initial C = Inr D" "cl_cursor D = Some (epoch, max c w)"
      "cl_state D = play_events f ?H w c w (cl_state C)"
      using receive_events [OF total(1) order_refl, of C epoch c w True w ?H] c e unfolding init by auto
    have "cl_cursor D = Some (epoch, w)" using D(2) cw by (simp add: max_def)
    from finish [OF this] obtain C' where "receive_all f (map (\<lambda>ev. Event ev False) (received T l)) D = Inr C'"
      "cl_cursor C' = Some (epoch, length ?H)" "cl_state C' = play_events f ?H w w (length ?H) (cl_state D)" by blast
    moreover have "[c..<length ?H] = [c..<w] @ [w..<length ?H]"
      using cw w ps by (metis le_add_diff_inverse le_add1 length_append upt_add_eq_append)
    ultimately show ?thesis using None D(1,3) c by (simp add: receive_all_append play_events_def)
  next
    case (Some why)
    obtain snap where snap: "copyRemoteJson shown = Inr snap" "initial = [Reset (jn_epoch ?J) (jn_seq ?J) why snap]"
      using opened Some by (rule open_resets)
    obtain s where s: "on_reset f snap why (cl_state C) = Some s" using total(2) by blast
    let ?D = "moved (epoch, w) s C"
    have "receive_all f initial C = Inr ?D"
      using reset_accepted [where f = f, OF Some s] snap(2) ok w by (simp add: keeps_def)
    moreover have "cl_cursor ?D = Some (epoch, w)" "cl_state ?D = s" by (simp_all add: moved_def)
    ultimately show ?thesis using finish [of ?D] Some snap(1) s by (auto simp: receive_all_append)
  qed
qed

section \<open>An example\<close>

text \<open>A client opens, one event is appended and delivered, and the journal is idle again.\<close>

definition small_journal :: journal_limits where
  "small_journal = \<lparr>jl_bytes = 10, jl_events = 1\<rparr>"

definition null_event :: event where
  "null_event = \<lparr>ev_epoch = js ''e'', ev_seq = 1, ev_payload = JNull\<rparr>"

definition watched :: journal where
  "watched = (new_journal (js ''e''))\<lparr>jn_listeners := [0], jn_next := 1\<rparr>"

definition watched_system :: system where
  "watched_system = \<lparr>sy_journal = watched, sy_history = [], sy_calls = [], sy_opened = (\<lambda>_. 0)(0 := 0)\<rparr>"

definition delivered :: journal where
  "delivered = watched\<lparr>jn_seq := 1, jn_entries := [Some (null_event, 4)], jn_bytes := 4, jn_index := 1\<rparr>"

definition delivered_system :: system where
  "delivered_system = watched_system\<lparr>sy_journal := delivered, sy_history := [JNull], sy_calls := [(0, null_event)]\<rparr>"

lemma open_example:
  "journal_open None (\<lambda>J. (RNull, J)) False (new_journal (js ''e''))
    = (Inr ([Reset (js ''e'') 0 Fresh JNull], 0, 0), watched)"
proof -
  have "json_bytes (reset_json (js ''e'') 0 Fresh JNull) = 81" by code_simp
  then show ?thesis
    by (simp add: journal_open_def reset_reason_of_def copyRemoteJson_def copy_json.simps NODES_def DEPTH_def LOGICAL_BYTES_def
        watched_def new_journal_def)
qed

lemma append_example:
  "journal_append small_journal RNull watched
    = (Inr null_event, delivered\<lparr>jn_delivering := True, jn_notifications := [null_event], jn_index := 0\<rparr>)"
proof -
  have "json_bytes JNull = 4" by code_simp
  then show ?thesis
    by (simp add: journal_append_def copyRemoteJson_def copy_json.simps NODES_def DEPTH_def LOGICAL_BYTES_def
        watched_def new_journal_def delivered_def null_event_def next_event_def retain_def notify_def Let_def
        evict.simps compact_def small_journal_def)
qed

definition delivering :: "nat \<Rightarrow> nat list \<Rightarrow> journal" where
  "delivering i vs = delivered\<lparr>jn_delivering := True, jn_notifications := [null_event], jn_index := i, jn_visited := vs\<rparr>"

definition delivering_system :: "nat \<Rightarrow> nat list \<Rightarrow> (nat \<times> event) list \<Rightarrow> system" where
  "delivering_system i vs calls = \<lparr>sy_journal = delivering i vs, sy_history = [JNull], sy_calls = calls, sy_opened = (\<lambda>_. 0)(0 := 0)\<rparr>"

lemma example_steps:
  "journal_step small_journal watched_system (delivering_system 0 [] [])"
  "journal_step small_journal (delivering_system 0 [] []) (delivering_system 0 [0] [(0, null_event)])"
  "journal_step small_journal (delivering_system 0 [0] [(0, null_event)]) (delivering_system 1 [] [(0, null_event)])"
  "journal_step small_journal (delivering_system 1 [] [(0, null_event)]) delivered_system"
proof -
  have null: "ev_payload null_event = JNull" by (simp add: null_event_def)
  have J: "delivered\<lparr>jn_delivering := True, jn_notifications := [null_event], jn_index := 0\<rparr> = delivering 0 []"
    by (simp add: delivering_def delivered_def watched_def new_journal_def)
  show "journal_step small_journal watched_system (delivering_system 0 [] [])"
    using journal_step.append [of small_journal RNull watched_system null_event "delivering 0 []"]
      append_example [unfolded J] null
    by (simp add: watched_system_def delivering_system_def)
  have "deliver (delivering 0 []) = Some ((0, null_event), delivering 0 [0])"
    by (simp add: delivering_def deliver_def next_listener_def delivered_def watched_def new_journal_def)
  then show "journal_step small_journal (delivering_system 0 [] []) (delivering_system 0 [0] [(0, null_event)])"
    using journal_step.call [of "delivering_system 0 [] []" "(0, null_event)" "delivering 0 [0]" small_journal]
    by (simp add: delivering_system_def)
  have "jn_delivering (delivering 0 [0])" "deliver (delivering 0 [0]) = None" "advance (delivering 0 [0]) = delivering 1 []"
    by (simp_all add: delivering_def deliver_def next_listener_def advance_def delivered_def watched_def new_journal_def)
  then show "journal_step small_journal (delivering_system 0 [0] [(0, null_event)]) (delivering_system 1 [] [(0, null_event)])"
    using journal_step.advanced [of "delivering_system 0 [0] [(0, null_event)]" small_journal]
    by (simp add: delivering_system_def)
  have "jn_delivering (delivering 1 [])" "deliver (delivering 1 []) = None" "advance (delivering 1 []) = delivered"
    by (simp_all add: delivering_def deliver_def next_listener_def advance_def delivered_def watched_def new_journal_def)
  then show "journal_step small_journal (delivering_system 1 [] [(0, null_event)]) delivered_system"
    using journal_step.advanced [of "delivering_system 1 [] [(0, null_event)]" small_journal]
    by (simp add: delivering_system_def delivered_system_def watched_system_def)
qed

lemma example_reachable: "reachable small_journal watched_system delivered_system"
  by (intro reachable.there [OF _ example_steps(4)] reachable.there [OF _ example_steps(3)]
      reachable.there [OF _ example_steps(2)] reachable.there [OF _ example_steps(1)] reachable.here)

lemma watched_reachable: "reachable small_journal (new_system (js ''e'')) watched_system"
proof -
  have "journal_step small_journal (new_system (js ''e''))
      ((new_system (js ''e''))\<lparr>sy_journal := watched, sy_opened := (sy_opened (new_system (js ''e'')))(0 := 0)\<rparr>)"
    using open_example by (intro journal_step.opened [where cur = None and shown = RNull and force = False
        and initial = "[Reset (js ''e'') 0 Fresh JNull]"]) (simp add: new_system_def)
  then have "journal_step small_journal (new_system (js ''e'')) watched_system"
    by (simp add: new_system_def watched_system_def)
  then show ?thesis by (rule reachable.there [OF reachable.here])
qed

lemma delivered_reachable: "reachable small_journal (new_system (js ''e'')) delivered_system"
  using example_reachable by (induction rule: reachable.induct) (auto intro: reachable.intros watched_reachable)

theorem journal_bounded_example:
  "length (jn_entries (sy_journal delivered_system)) \<le> 2 * jl_events small_journal + 4096"
  using journal_bounded [OF delivered_reachable] by blast

theorem listener_hears_all_example:
  "\<exists>s t. s \<le> sy_opened delivered_system 0
    \<and> received delivered_system 0 = events_between (js ''e'') (sy_history delivered_system) s t"
  using listener_hears_all [OF delivered_reachable, of 0] by (auto simp: delivered_system_def delivered_def watched_def)

definition counting :: "nat client_apply" where
  "counting = \<lparr>on_reset = (\<lambda>_ _ _. Some 0), on_event = (\<lambda>_ _ _ n. Some (n + 1))\<rparr>"

theorem resume_exactly_once_witness:
  "\<exists>C'. receive_all counting ([Reset (js ''e'') 0 Fresh JNull] @ map (\<lambda>ev. Event ev False) (received delivered_system 0))
      (new_client None 7) = Inr C' \<and> cl_cursor C' = Some (js ''e'', 1) \<and> cl_state C' = 1"
proof -
  have "\<exists>C'. receive_all counting ([Reset (js ''e'') 0 Fresh JNull] @ map (\<lambda>ev. Event ev False) (received delivered_system 0))
      (new_client None 7) = Inr C' \<and> cl_cursor C' = Some (js ''e'', length (sy_history delivered_system))
    \<and> (case reset_reason_of (map_option (\<lambda>(e, a). (e, int a)) (cl_cursor (new_client None (7 :: nat)))) False
          (sy_journal (new_system (js ''e''))) of
         None \<Rightarrow> cl_state C' = play_events counting (sy_history delivered_system) 0
            (snd (the (cl_cursor (new_client None (7 :: nat))))) (length (sy_history delivered_system)) (cl_state (new_client None 7))
       | Some why \<Rightarrow> \<exists>snap. copyRemoteJson RNull = Inr snap
           \<and> cl_state C' = play_events counting (sy_history delivered_system) 0 0 (length (sy_history delivered_system))
               (the (on_reset counting snap why (cl_state (new_client None 7)))))"
  proof (rule resume_exactly_once)
    show "reachable small_journal (new_system (js ''e'')) (new_system (js ''e''))" by (rule reachable.here)
    show "journal_open (map_option (\<lambda>(e, a). (e, int a)) (cl_cursor (new_client None (7 :: nat)))) (\<lambda>J. (RNull, J)) False
        (sy_journal (new_system (js ''e''))) = (Inr ([Reset (js ''e'') 0 Fresh JNull], 0, 0), watched)"
      by (simp add: new_client_def new_system_def open_example)
    show "reachable small_journal ((new_system (js ''e''))\<lparr>sy_journal := watched,
        sy_opened := (sy_opened (new_system (js ''e'')))(0 := 0)\<rparr>) delivered_system"
      using example_reachable by (simp add: new_system_def watched_system_def)
  qed (simp_all add: counting_def delivered_system_def delivered_def watched_def new_journal_def)
  then show ?thesis
    by (auto simp: new_client_def reset_reason_of_def new_system_def new_journal_def counting_def play_events_def
        delivered_system_def)
qed

end
