(* ===== verification/Scheduler.thy ===== *)
theory Scheduler
  imports Prelude "HOL-Library.Multiset"
begin

text \<open>
  Which of the agents of a tree may run (\<open>packages/core/src/subagents/scheduler.ts\<close>): a queue of
  turns and consultations, the children that run, consult or wait inside tools, and the places
  they take, in the whole tree and in their groups. Children and groups are objects, here numbers;
  what the host knows of them is an argument of every operation, because it may change between
  calls. An operation returns what it starts.
\<close>

section \<open>Children, groups and the queue\<close>

record world =
  w_id :: "nat \<Rightarrow> jstring"
  w_parent :: "nat \<Rightarrow> jstring"
  w_ephemeral :: "nat \<Rightarrow> bool"
  w_groups :: "nat \<Rightarrow> nat list"
  w_paused :: "nat \<Rightarrow> bool"
  g_live :: "nat \<Rightarrow> nat set"
  g_max :: "nat \<Rightarrow> nat option"

record queued =
  q_child :: nat
  q_consultation :: bool
  q_number :: nat \<comment> \<open>which call queued it\<close>

record admissions =
  ad_queue :: "queued list"
  ad_running :: "nat set"
  ad_consulting :: "nat set"
  ad_toolWaits :: "nat set"
  ad_yielded :: "nat set"
  ad_parents :: "(jstring \<times> jstring) list"
  ad_admitted :: "nat set"
  ad_waiting :: "(nat \<times> nat) list" \<comment> \<open>child, the entry its cancel removes\<close>
  ad_next :: nat

definition new_admission :: admissions where
  "new_admission = \<lparr>ad_queue = [], ad_running = {}, ad_consulting = {}, ad_toolWaits = {}, ad_yielded = {},
     ad_parents = [], ad_admitted = {}, ad_waiting = [], ad_next = 0\<rparr>"

text \<open>
  \<open>Map.set\<close> and \<open>Map.delete\<close> on the parents.
\<close>

definition set_parent :: "jstring \<Rightarrow> jstring \<Rightarrow> (jstring \<times> jstring) list \<Rightarrow> (jstring \<times> jstring) list" where
  "set_parent k v ps = (k, v) # filter (\<lambda>p. fst p \<noteq> k) ps"

text \<open>
  Walking up from a session to an ancestor. The walk is given one step for every recorded parent
  and one more; a longer one has met a cycle, where the code would not return.
\<close>

fun under_from :: "nat \<Rightarrow> (jstring \<times> jstring) list \<Rightarrow> jstring \<Rightarrow> jstring \<Rightarrow> bool" where
  "under_from 0 ps ident ancestor = False"
| "under_from (Suc n) ps ident ancestor =
     (if ident = [] then False
      else if ident = ancestor then True
      else case map_of ps ident of None \<Rightarrow> False | Some up \<Rightarrow> under_from n ps up ancestor)"

definition under :: "world \<Rightarrow> (jstring \<times> jstring) list \<Rightarrow> nat \<Rightarrow> nat \<Rightarrow> bool" where
  "under W ps child ancestor = under_from (length ps + 1) ps (w_parent W child) (w_id W ancestor)"

definition yieldToolParents :: "world \<Rightarrow> nat \<Rightarrow> admissions \<Rightarrow> admissions" where
  "yieldToolParents W child A =
     A\<lparr>ad_yielded := ad_yielded A \<union> Set.filter (under W (ad_parents A) child) (ad_toolWaits A)\<rparr>"

definition occupies :: "world \<Rightarrow> admissions \<Rightarrow> nat \<Rightarrow> bool" where
  "occupies W A c \<longleftrightarrow>
     c \<in> ad_consulting A \<or> (c \<in> ad_running A \<and> (w_paused W c \<or> c \<notin> ad_yielded A))"

definition busy :: "world \<Rightarrow> admissions \<Rightarrow> nat set \<Rightarrow> nat" where
  "busy W A among = card (Set.filter (occupies W A) among)"

section \<open>Admitting\<close>

definition occupants :: "admissions \<Rightarrow> nat set" where
  "occupants A = ad_running A \<union> ad_consulting A"

definition ordinaryLimit :: "nat \<Rightarrow> nat" where
  "ordinaryLimit maxConcurrent = max 1 (maxConcurrent - 1)"

definition group_full :: "world \<Rightarrow> admissions \<Rightarrow> nat \<Rightarrow> bool" where
  "group_full W A g =
     (case g_max W g of
        None \<Rightarrow> False
      | Some n \<Rightarrow> n \<le> busy W A (g_live W g \<union> Set.filter (\<lambda>c. g \<in> set (w_groups W c)) (ad_consulting A)))"

definition full :: "world \<Rightarrow> nat \<Rightarrow> nat \<Rightarrow> admissions \<Rightarrow> queued \<Rightarrow> bool" where
  "full W maxConcurrent ordinary A e \<longleftrightarrow>
     q_child e \<in> ad_consulting A
     \<or> (\<not> w_ephemeral W (q_child e) \<and> ordinaryLimit maxConcurrent \<le> ordinary)
     \<or> list_ex (group_full W A) (w_groups W (q_child e))"

definition start :: "queued \<Rightarrow> admissions \<Rightarrow> admissions" where
  "start e A =
     (if q_consultation e then A\<lparr>ad_consulting := insert (q_child e) (ad_consulting A)\<rparr>
      else A\<lparr>ad_admitted := insert (q_child e) (ad_admitted A), ad_running := insert (q_child e) (ad_running A)\<rparr>)"

text \<open>\<open>waiting\<close> are the entries passed over, in order; the last argument what has been started.\<close>

fun admit_from ::
  "world \<Rightarrow> nat \<Rightarrow> queued list \<Rightarrow> queued list \<Rightarrow> nat \<Rightarrow> nat \<Rightarrow> admissions \<Rightarrow> queued list \<times> admissions" where
  "admit_from W m waiting [] n ordinary A = ([], A\<lparr>ad_queue := waiting\<rparr>)"
| "admit_from W m waiting (e # rest) n ordinary A =
     (if m \<le> n then ([], A\<lparr>ad_queue := waiting @ e # rest\<rparr>)
      else if full W m ordinary A e then admit_from W m (waiting @ [e]) rest n ordinary A
      else
        (let (started, A') = admit_from W m waiting rest (n + 1)
               (if w_ephemeral W (q_child e) then ordinary else ordinary + 1) (start e A)
         in (e # started, A')))"

definition admit_ready :: "world \<Rightarrow> nat \<Rightarrow> admissions \<Rightarrow> queued list \<times> admissions" where
  "admit_ready W m A =
     admit_from W m [] (ad_queue A) (busy W A (occupants A))
       (busy W A (Set.filter (\<lambda>c. \<not> w_ephemeral W c) (occupants A))) A"

section \<open>Operations\<close>

definition push :: "nat \<Rightarrow> bool \<Rightarrow> admissions \<Rightarrow> admissions" where
  "push child consultation A =
     A\<lparr>ad_queue := ad_queue A @ [\<lparr>q_child = child, q_consultation = consultation, q_number = ad_next A\<rparr>],
       ad_next := ad_next A + 1\<rparr>"

definition enqueue :: "world \<Rightarrow> nat \<Rightarrow> nat \<Rightarrow> jstring \<Rightarrow> admissions \<Rightarrow> queued list \<times> admissions" where
  "enqueue W m child parentSessionId A =
     admit_ready W m (yieldToolParents W child
       (push child False (A\<lparr>ad_parents := set_parent (w_id W child) parentSessionId (ad_parents A)\<rparr>)))"

definition beginTools :: "world \<Rightarrow> nat \<Rightarrow> nat \<Rightarrow> admissions \<Rightarrow> queued list \<times> admissions" where
  "beginTools W m child A =
     (let A1 = A\<lparr>ad_toolWaits := insert child (ad_toolWaits A)\<rparr>;
          below = (\<lambda>c. under W (ad_parents A1) c child)
      in admit_ready W m
           (if (\<exists>c \<in> ad_running A1. below c) \<or> list_ex (\<lambda>e. below (q_child e)) (ad_queue A1)
            then A1\<lparr>ad_yielded := insert child (ad_yielded A1)\<rparr> else A1))"

definition endTools :: "nat \<Rightarrow> admissions \<Rightarrow> admissions" where
  "endTools child A = A\<lparr>ad_toolWaits := ad_toolWaits A - {child}\<rparr>"

definition release :: "nat \<Rightarrow> admissions \<Rightarrow> admissions" where
  "release child A =
     A\<lparr>ad_running := ad_running A - {child}, ad_toolWaits := ad_toolWaits A - {child},
       ad_yielded := ad_yielded A - {child}\<rparr>"

text \<open>The abort of a wait: its entry leaves the queue.\<close>

definition cancel :: "nat \<Rightarrow> admissions \<Rightarrow> admissions" where
  "cancel number A = A\<lparr>ad_queue := filter (\<lambda>e. q_number e \<noteq> number) (ad_queue A)\<rparr>"

text \<open>
  \<open>signal\<close> is \<open>None\<close> for a wait between turns, otherwise whether it is aborted already. When the
  promise settles, \<open>acquired\<close> runs.
\<close>

definition acquire :: "world \<Rightarrow> nat \<Rightarrow> nat \<Rightarrow> bool option \<Rightarrow> admissions \<Rightarrow> queued list \<times> admissions" where
  "acquire W m child signal A =
     (let A1 = (if signal = None then A\<lparr>ad_waiting := (child, ad_next A) # filter (\<lambda>p. fst p \<noteq> child) (ad_waiting A)\<rparr>
                else A)
      in if signal = Some True then ([], cancel (ad_next A1) (A1\<lparr>ad_next := ad_next A1 + 1\<rparr>))
         else admit_ready W m (yieldToolParents W child (push child False A1)))"

definition acquired :: "nat \<Rightarrow> bool \<Rightarrow> admissions \<Rightarrow> admissions" where
  "acquired child signalled A =
     (if signalled then A else A\<lparr>ad_waiting := filter (\<lambda>p. fst p \<noteq> child) (ad_waiting A)\<rparr>)"

definition reenter :: "world \<Rightarrow> nat \<Rightarrow> nat \<Rightarrow> bool \<Rightarrow> admissions \<Rightarrow> queued list \<times> admissions" where
  "reenter W m child aborted A =
     (if child \<notin> ad_yielded A then ([], A)
      else
        let A1 = release child (A\<lparr>ad_yielded := ad_yielded A - {child}\<rparr>)
        in if aborted then ([], A1) else acquire W m child (Some False) A1)"

text \<open>Whether the consultation is granted at once, and what starts.\<close>

definition acquireConsultation ::
  "world \<Rightarrow> nat \<Rightarrow> nat \<Rightarrow> bool \<Rightarrow> admissions \<Rightarrow> bool \<times> queued list \<times> admissions" where
  "acquireConsultation W m child aborted A =
     (if aborted then (False, [], A)
      else if child \<in> ad_running A \<and> child \<notin> ad_yielded A
      then (True, [], A\<lparr>ad_consulting := insert child (ad_consulting A)\<rparr>)
      else (False, admit_ready W m (yieldToolParents W child
              (push child True (A\<lparr>ad_running := ad_running A - {child}\<rparr>)))))"

definition releaseConsultation :: "world \<Rightarrow> nat \<Rightarrow> nat \<Rightarrow> admissions \<Rightarrow> queued list \<times> admissions" where
  "releaseConsultation W m child A =
     (let A1 = A\<lparr>ad_consulting := ad_consulting A - {child}\<rparr>
      in admit_ready W m
           (if map_of (ad_parents A1) (w_id W child) \<noteq> None
            then A1\<lparr>ad_running := insert child (ad_running A1)\<rparr> else A1))"

definition dequeue :: "nat \<Rightarrow> admissions \<Rightarrow> admissions" where
  "dequeue child A = A\<lparr>ad_queue := filter (\<lambda>e. q_child e \<noteq> child) (ad_queue A)\<rparr>"

definition childEnded :: "world \<Rightarrow> nat \<Rightarrow> admissions \<Rightarrow> admissions" where
  "childEnded W child A = A\<lparr>ad_parents := filter (\<lambda>p. fst p \<noteq> w_id W child) (ad_parents A)\<rparr>"

section \<open>Ancestors\<close>

definition ups :: "(jstring \<times> jstring) list \<Rightarrow> (jstring \<times> jstring) set" where
  "ups ps = {(x, y). x \<noteq> [] \<and> map_of ps x = Some y}"

lemma ups_unique: "(x, y) \<in> ups ps \<Longrightarrow> (x, z) \<in> (ups ps)\<^sup>+ \<Longrightarrow> (y, z) \<in> (ups ps)\<^sup>*"
proof -
  assume y: "(x, y) \<in> ups ps" and "(x, z) \<in> (ups ps)\<^sup>+"
  from this(2) obtain w where "(x, w) \<in> ups ps" "(w, z) \<in> (ups ps)\<^sup>*" by (meson tranclD)
  moreover from this(1) y have "w = y" by (simp add: ups_def)
  ultimately show ?thesis by simp
qed

lemma under_from_reaches:
  assumes "acyclic (ups ps)" "ancestor \<noteq> []"
  shows "finite K \<Longrightarrow> {x \<in> dom (map_of ps). (ident, x) \<in> (ups ps)\<^sup>*} \<subseteq> K \<Longrightarrow> card K < n \<Longrightarrow>
    under_from n ps ident ancestor \<longleftrightarrow> (ident, ancestor) \<in> (ups ps)\<^sup>*"
proof (induction n arbitrary: ident K)
  case (Suc n)
  show ?case
  proof (cases "ident = [] \<or> ident = ancestor \<or> map_of ps ident = None")
    case True
    then have "(ident, ancestor) \<in> (ups ps)\<^sup>* \<longleftrightarrow> ident = ancestor"
      using assms(2) by (auto simp: ups_def elim: converse_rtranclE)
    then show ?thesis using True assms(2) by auto
  next
    case False
    then obtain up where up: "map_of ps ident = Some up" "ident \<noteq> []" "ident \<noteq> ancestor" by auto
    then have e: "(ident, up) \<in> ups ps" by (simp add: ups_def)
    have "ident \<in> K" using Suc.prems(2) up(1) by blast
    moreover have "{x \<in> dom (map_of ps). (up, x) \<in> (ups ps)\<^sup>*} \<subseteq> K - {ident}"
    proof -
      have "(up, ident) \<notin> (ups ps)\<^sup>*"
        using e assms(1) unfolding acyclic_def by (meson rtrancl_into_trancl2)
      then show ?thesis using Suc.prems(2) e converse_rtrancl_into_rtrancl [OF e] by blast
    qed
    ultimately have "under_from n ps up ancestor \<longleftrightarrow> (up, ancestor) \<in> (ups ps)\<^sup>*"
      using Suc.prems(1,3) card_Diff1_less [OF Suc.prems(1), of ident] by (intro Suc.IH [of "K - {ident}"]) simp_all
    moreover have "(ident, ancestor) \<in> (ups ps)\<^sup>* \<longleftrightarrow> (up, ancestor) \<in> (ups ps)\<^sup>*"
      using e up(3) ups_unique [OF e] by (metis converse_rtrancl_into_rtrancl rtranclD)
    ultimately show ?thesis using up by simp
  qed
qed simp

text \<open>
  A child is under another exactly when following the recorded parents from its parent leads
  there: while the parents form no cycle, the bounded walk is the reachability relation.
\<close>

theorem under_is_ancestor:
  assumes "acyclic (ups ps)" "w_id W a \<noteq> []"
  shows "under W ps c a \<longleftrightarrow> (w_parent W c, w_id W a) \<in> (ups ps)\<^sup>*"
  unfolding under_def
proof (rule under_from_reaches [OF assms, of "set (map fst ps)"])
  show "{x \<in> dom (map_of ps). (w_parent W c, x) \<in> (ups ps)\<^sup>*} \<subseteq> set (map fst ps)"
    by (auto simp: dom_map_of_conv_image_fst)
  show "card (set (map fst ps)) < length ps + 1" using card_length [of "map fst ps"] by simp
qed simp

section \<open>Places\<close>

definition counted :: "world \<Rightarrow> admissions \<Rightarrow> (nat \<Rightarrow> bool) \<Rightarrow> nat" where
  "counted W A D = card {c. occupies W A c \<and> D c}"

definition finite_sets :: "admissions \<Rightarrow> bool" where
  "finite_sets A \<longleftrightarrow> finite (ad_running A) \<and> finite (ad_consulting A)"

lemma finite_occupies: "finite_sets A \<Longrightarrow> finite {c. occupies W A c \<and> D c}"
  by (rule finite_subset [of _ "ad_running A \<union> ad_consulting A"]) (auto simp: finite_sets_def occupies_def)

lemma busy_occupants: "busy W A (occupants A) = counted W A (\<lambda>_. True)"
  "busy W A {c \<in> occupants A. D c} = counted W A D"
  by (auto simp: busy_def counted_def occupants_def occupies_def intro!: arg_cong [where f = card])

lemma counted_mono:
  assumes "finite_sets A" "\<And>c. occupies W' A' c \<Longrightarrow> D' c \<Longrightarrow> occupies W A c \<and> D c"
  shows "counted W' A' D' \<le> counted W A D"
  unfolding counted_def using assms(2) by (intro card_mono finite_occupies [OF assms(1)]) blast

lemma occupies_start:
  "occupies W (start e A) c \<Longrightarrow> c = q_child e \<or> occupies W A c" "occupies W A c \<Longrightarrow> occupies W (start e A) c"
  by (auto simp: occupies_def start_def split: if_splits)

lemma finite_start: "finite_sets A \<Longrightarrow> finite_sets (start e A)"
  by (simp add: finite_sets_def start_def)

lemma counted_start:
  assumes "finite_sets A"
  shows "counted W (start e A) D \<le> counted W A D + (if D (q_child e) then 1 else 0)"
proof -
  let ?S = "{c. occupies W A c \<and> D c}"
  have "{c. occupies W (start e A) c \<and> D c} \<subseteq> (if D (q_child e) then insert (q_child e) ?S else ?S)"
    using occupies_start(1) by auto
  then have "counted W (start e A) D \<le> card (if D (q_child e) then insert (q_child e) ?S else ?S)"
    unfolding counted_def using finite_occupies [OF assms] by (intro card_mono) (simp_all split: if_splits)
  also have "\<dots> \<le> counted W A D + (if D (q_child e) then 1 else 0)"
    unfolding counted_def using finite_occupies [OF assms, of W D] by (simp add: card_insert_if)
  finally show ?thesis .
qed

text \<open>
  The places taken are within the limits: of the tree, of ordinary work, and of every group whose
  live set lists its members.
\<close>

definition ordinary :: "world \<Rightarrow> nat \<Rightarrow> bool" where
  "ordinary W c \<longleftrightarrow> \<not> w_ephemeral W c"

definition member :: "world \<Rightarrow> nat \<Rightarrow> nat \<Rightarrow> bool" where
  "member W g c \<longleftrightarrow> g \<in> set (w_groups W c)"

definition listed :: "world \<Rightarrow> nat \<Rightarrow> bool" where
  "listed W g \<longleftrightarrow> (\<forall>c. c \<in> g_live W g \<longleftrightarrow> member W g c)"

definition in_places :: "world \<Rightarrow> nat \<Rightarrow> admissions \<Rightarrow> bool" where
  "in_places W m A \<longleftrightarrow> counted W A (\<lambda>_. True) \<le> m \<and> counted W A (ordinary W) \<le> ordinaryLimit m
     \<and> (\<forall>g k. listed W g \<and> g_max W g = Some k \<longrightarrow> counted W A (member W g) \<le> k)"

lemma group_full_counted:
  assumes "listed W g" "g_max W g = Some k"
  shows "group_full W A g \<longleftrightarrow> k \<le> counted W A (member W g)"
proof -
  have "{c \<in> g_live W g \<union> Set.filter (\<lambda>c. g \<in> set (w_groups W c)) (ad_consulting A). occupies W A c}
      = {c. occupies W A c \<and> member W g c}"
    using assms(1) by (auto simp: listed_def member_def)
  then show ?thesis using assms(2) by (simp add: group_full_def busy_def counted_def)
qed

lemma admit_from_places:
  "admit_from W m waiting rest n o_count A = (started, A') \<Longrightarrow> finite_sets A \<Longrightarrow> in_places W m A \<Longrightarrow>
   counted W A (\<lambda>_. True) \<le> n \<Longrightarrow> counted W A (ordinary W) \<le> o_count \<Longrightarrow>
   finite_sets A' \<and> in_places W m A'"
proof (induction W m waiting rest n o_count A arbitrary: started A' rule: admit_from.induct)
  case (1 W m waiting n o_count A)
  then show ?case by (auto simp: finite_sets_def in_places_def counted_def occupies_def)
next
  case (2 W m waiting e rest n o_count A)
  consider "m \<le> n" | "n < m" "full W m o_count A e" | "n < m" "\<not> full W m o_count A e" by linarith
  then show ?case
  proof cases
    case 1
    then show ?thesis using "2.prems" by (auto simp: finite_sets_def in_places_def counted_def occupies_def)
  next
    case 2
    then show ?thesis using "2.IH"(1) "2.prems" by simp
  next
    case 3
    let ?o = "if w_ephemeral W (q_child e) then o_count else o_count + 1"
    obtain st where rec: "admit_from W m waiting rest (n + 1) ?o (start e A) = (st, A')"
      using "2.prems"(1) 3 by (auto split: prod.splits)
    have oe: "ordinary W (q_child e) \<longleftrightarrow> \<not> w_ephemeral W (q_child e)" by (simp add: ordinary_def)
    note up = counted_start [OF "2.prems"(2), of W e]
    have "counted W (start e A) (\<lambda>_. True) \<le> n + 1" using up [of "\<lambda>_. True"] "2.prems"(4) by simp
    moreover have o: "counted W (start e A) (ordinary W) \<le> ?o"
      using up [of "ordinary W"] "2.prems"(5) by (auto simp: oe split: if_splits)
    moreover have "in_places W m (start e A)"
      unfolding in_places_def
    proof (intro conjI allI impI)
      show "counted W (start e A) (\<lambda>_. True) \<le> m" using calculation(1) 3(1) by simp
      show "counted W (start e A) (ordinary W) \<le> ordinaryLimit m"
      proof (cases "w_ephemeral W (q_child e)")
        case True
        then show ?thesis using up [of "ordinary W"] "2.prems"(3) by (simp add: oe in_places_def)
      next
        case False
        then have "o_count < ordinaryLimit m" using 3(2) by (simp add: full_def)
        then show ?thesis using o False by simp
      qed
      fix g k assume g: "listed W g \<and> g_max W g = Some k"
      show "counted W (start e A) (member W g) \<le> k"
      proof (cases "member W g (q_child e)")
        case True
        then have "\<not> group_full W A g" using 3(2) by (auto simp: full_def member_def list_ex_iff)
        then show ?thesis using up [of "member W g"] group_full_counted [of W g k A] g True by simp
      next
        case False
        have "counted W A (member W g) \<le> k" using "2.prems"(3) g by (simp add: in_places_def)
        then show ?thesis using up [of "member W g"] False by simp
      qed
    qed
    ultimately show ?thesis using "2.IH"(2) [OF _ _ rec] 3 finite_start [OF "2.prems"(2)] by simp
  qed
qed

lemma admit_places:
  assumes "finite_sets A" "in_places W m A"
  shows "finite_sets (snd (admit_ready W m A)) \<and> in_places W m (snd (admit_ready W m A))"
proof -
  have eq: "admit_ready W m A = admit_from W m [] (ad_queue A) (counted W A (\<lambda>_. True)) (counted W A (ordinary W)) A"
    using busy_occupants(1) [of W A] busy_occupants(2) [of W A "ordinary W"] by (simp add: admit_ready_def ordinary_def)
  show ?thesis using assms admit_from_places [OF surjective_pairing] unfolding eq by blast
qed

text \<open>Calls in the order they are made; a call is made in the world as it is then.\<close>

datatype sched_call =
  Enqueue nat jstring
| BeginTools nat
| EndTools nat
| Reenter nat bool
| Acquire nat "bool option"
| Acquired nat bool
| Consult nat bool
| Consulted nat
| Release nat
| Cancel nat
| Dequeue nat
| Ended nat

definition apply_call :: "world \<Rightarrow> nat \<Rightarrow> sched_call \<Rightarrow> admissions \<Rightarrow> admissions" where
  "apply_call W m call A =
     (case call of
        Enqueue c p \<Rightarrow> snd (enqueue W m c p A)
      | BeginTools c \<Rightarrow> snd (beginTools W m c A)
      | EndTools c \<Rightarrow> endTools c A
      | Reenter c aborted \<Rightarrow> snd (reenter W m c aborted A)
      | Acquire c signal \<Rightarrow> snd (acquire W m c signal A)
      | Acquired c signalled \<Rightarrow> acquired c signalled A
      | Consult c aborted \<Rightarrow> snd (snd (acquireConsultation W m c aborted A))
      | Consulted c \<Rightarrow> snd (releaseConsultation W m c A)
      | Release c \<Rightarrow> release c A
      | Cancel k \<Rightarrow> cancel k A
      | Dequeue c \<Rightarrow> dequeue c A
      | Ended c \<Rightarrow> childEnded W c A)"

text \<open>
  A world may follow another unless it pauses a child that gave its place away; a consultation is
  released only by the child that holds one.
\<close>

definition follows :: "world \<Rightarrow> world \<Rightarrow> admissions \<Rightarrow> bool" where
  "follows W W' A \<longleftrightarrow> w_ephemeral W' = w_ephemeral W \<and> w_groups W' = w_groups W \<and> g_max W' = g_max W
     \<and> (\<forall>g. listed W' g \<longrightarrow> listed W g)
     \<and> (\<forall>c \<in> ad_running A \<inter> ad_yielded A. w_paused W' c \<longrightarrow> w_paused W c)"

definition legal :: "sched_call \<Rightarrow> admissions \<Rightarrow> bool" where
  "legal call A = (case call of Consulted c \<Rightarrow> c \<in> ad_consulting A | _ \<Rightarrow> True)"

fun orderly :: "nat \<Rightarrow> world \<Rightarrow> admissions \<Rightarrow> (world \<times> sched_call) list \<Rightarrow> bool" where
  "orderly m W A [] = True"
| "orderly m W A ((W', call) # cs) \<longleftrightarrow> follows W W' A \<and> legal call A \<and> orderly m W' (apply_call W' m call A) cs"

fun sched_play :: "nat \<Rightarrow> world \<Rightarrow> admissions \<Rightarrow> (world \<times> sched_call) list \<Rightarrow> world \<times> admissions" where
  "sched_play m W A [] = (W, A)"
| "sched_play m W A ((W', call) # cs) = sched_play m W' (apply_call W' m call A) cs"

lemma in_places_mono:
  assumes "in_places W m A" "finite_sets A" "\<And>c. occupies W' A' c \<Longrightarrow> occupies W A c"
    "w_ephemeral W' = w_ephemeral W" "w_groups W' = w_groups W" "g_max W' = g_max W" "\<And>g. listed W' g \<Longrightarrow> listed W g"
  shows "in_places W' m A'"
proof -
  have le: "counted W' A' D \<le> counted W A D" for D using assms(2,3) by (intro counted_mono) auto
  have D: "ordinary W' = ordinary W" "member W' g = member W g" for g
    using assms(4,5) by (auto simp: ordinary_def member_def fun_eq_iff)
  show ?thesis
    using assms(1,6,7) le D unfolding in_places_def by (metis (no_types, lifting) le_trans)
qed

definition placed :: "world \<Rightarrow> nat \<Rightarrow> admissions \<Rightarrow> bool" where
  "placed W m A \<longleftrightarrow> finite_sets A \<and> in_places W m A"

lemma placed_same:
  assumes "placed W m A" "ad_running A' \<subseteq> ad_running A \<or> finite (ad_running A')"
    "ad_consulting A' \<subseteq> ad_consulting A \<or> finite (ad_consulting A')" "\<And>c. occupies W A' c \<Longrightarrow> occupies W A c"
  shows "placed W m A'"
proof -
  have "finite_sets A'" using assms(1-3) finite_subset by (auto simp: placed_def finite_sets_def)
  then show ?thesis using assms(1,4) in_places_mono [of W m A W A'] by (auto simp: placed_def)
qed

lemma placed_admit: "placed W m A \<Longrightarrow> placed W m (snd (admit_ready W m A))"
  using admit_places by (simp add: placed_def)

lemmas place_defs = occupies_def push_def yieldToolParents_def cancel_def release_def endTools_def acquired_def
  dequeue_def childEnded_def

lemma acquire_placed: "placed W m A \<Longrightarrow> placed W m (snd (acquire W m c signal A))"
proof -
  assume p: "placed W m A"
  have "placed W m (cancel (ad_next B) (B\<lparr>ad_next := ad_next B + 1\<rparr>))" "placed W m (yieldToolParents W c (push c False B))"
    if "placed W m B" for B
    by (rule placed_same [OF that]; auto simp: place_defs)+
  moreover have "placed W m (A\<lparr>ad_waiting := ws\<rparr>)" for ws by (rule placed_same [OF p]) (auto simp: place_defs)
  ultimately show ?thesis using p placed_admit by (auto simp: acquire_def Let_def)
qed

lemma apply_call_placed:
  assumes "placed W m A" "legal call A"
  shows "placed W m (apply_call W m call A)"
proof (cases call)
  case (Enqueue c p)
  have "placed W m (yieldToolParents W c (push c False (A\<lparr>ad_parents := ps\<rparr>)))" for ps
    by (rule placed_same [OF assms(1)]) (auto simp: place_defs)
  then show ?thesis using Enqueue placed_admit by (simp add: apply_call_def enqueue_def)
next
  case (BeginTools c)
  have "placed W m (A\<lparr>ad_toolWaits := ts\<rparr>)" "placed W m (A\<lparr>ad_toolWaits := ts, ad_yielded := insert c (ad_yielded A)\<rparr>)" for ts
    by (rule placed_same [OF assms(1)]; auto simp: place_defs)+
  then show ?thesis using BeginTools placed_admit by (simp add: apply_call_def beginTools_def Let_def)
next
  case (Reenter c aborted)
  have "placed W m (release c (A\<lparr>ad_yielded := ad_yielded A - {c}\<rparr>))"
    by (rule placed_same [OF assms(1)]) (auto simp: place_defs)
  then show ?thesis using Reenter assms(1) acquire_placed by (simp add: apply_call_def reenter_def Let_def)
next
  case (Acquire c signal)
  then show ?thesis using acquire_placed [OF assms(1)] by (simp add: apply_call_def)
next
  case (Acquired c signalled)
  have "placed W m (A\<lparr>ad_waiting := ws\<rparr>)" for ws by (rule placed_same [OF assms(1)]) (auto simp: place_defs)
  then show ?thesis using Acquired assms(1) by (simp add: apply_call_def acquired_def)
next
  case (Consult c aborted)
  have fin: "finite (ad_consulting A)" using assms(1) by (simp add: placed_def finite_sets_def)
  have "placed W m (A\<lparr>ad_consulting := insert c (ad_consulting A)\<rparr>)" if "c \<in> ad_running A" "c \<notin> ad_yielded A"
    using that fin by (intro placed_same [OF assms(1)]) (auto simp: place_defs)
  moreover have "placed W m (yieldToolParents W c (push c True (A\<lparr>ad_running := ad_running A - {c}\<rparr>)))"
    by (rule placed_same [OF assms(1)]) (auto simp: place_defs)
  ultimately show ?thesis using Consult assms(1) placed_admit by (simp add: apply_call_def acquireConsultation_def)
next
  case (Consulted c)
  then have c: "c \<in> ad_consulting A" using assms(2) by (simp add: legal_def)
  have fin: "finite (ad_running A)" using assms(1) by (simp add: placed_def finite_sets_def)
  have "placed W m (A\<lparr>ad_consulting := ad_consulting A - {c}\<rparr>)"
    by (rule placed_same [OF assms(1)]) (auto simp: place_defs)
  moreover have "placed W m (A\<lparr>ad_consulting := ad_consulting A - {c}, ad_running := insert c (ad_running A)\<rparr>)"
    using c fin by (intro placed_same [OF assms(1)]) (auto simp: place_defs)
  ultimately show ?thesis using Consulted placed_admit by (simp add: apply_call_def releaseConsultation_def Let_def)
qed (rule placed_same [OF assms(1)]; auto simp: apply_call_def place_defs)+

lemma sched_play_placed:
  "orderly m W A cs \<Longrightarrow> placed W m A \<Longrightarrow> sched_play m W A cs = (W', A') \<Longrightarrow> placed W' m A'"
proof (induction m W A cs rule: orderly.induct)
  case (2 m W A V call cs)
  have f: "follows W V A" "legal call A" using "2.prems"(1) by simp_all
  have "in_places V m A"
  proof (rule in_places_mono [of W m A])
    show "in_places W m A" "finite_sets A" using "2.prems"(2) by (simp_all add: placed_def)
    show "occupies W A c" if "occupies V A c" for c
      using that f(1) unfolding occupies_def follows_def by blast
    show "w_ephemeral V = w_ephemeral W" "w_groups V = w_groups W" "g_max V = g_max W"
      using f(1) by (simp_all add: follows_def)
    show "listed W g" if "listed V g" for g using that f(1) by (simp add: follows_def)
  qed
  then have "placed V m A" using "2.prems"(2) by (simp add: placed_def)
  from apply_call_placed [OF this f(2)] show ?case using "2.IH" "2.prems"(1,3) by simp
qed simp

text \<open>
  C31. The limits hold over every orderly run of calls: of the children that take a place there are never more
  than the tree's limit; children that are not ephemeral, consultants among them, never take more than their
  share, which leaves one place for ephemeral (private) turns when there are two or more; and no group whose live
  set lists its members has more than its own limit. In an orderly run the groups, their limits and which children
  are ephemeral stay as they are, a consultation is given back only by a child that holds one, and no child that
  runs but has yielded its place becomes paused.
\<close>

theorem admission_within_limits:
  assumes "orderly m W new_admission cs" "sched_play m W new_admission cs = (W', A)"
  shows "busy W' A (occupants A) \<le> m
    \<and> busy W' A {c \<in> occupants A. \<not> w_ephemeral W' c} \<le> ordinaryLimit m
    \<and> (\<forall>g k. listed W' g \<and> g_max W' g = Some k \<longrightarrow> busy W' A {c \<in> occupants A. member W' g c} \<le> k)"
proof -
  have none: "counted W new_admission D = 0" for D by (simp add: counted_def occupies_def new_admission_def)
  have "in_places W m new_admission" "finite_sets new_admission"
    by (simp_all add: in_places_def none finite_sets_def) (simp_all add: new_admission_def)
  then have "in_places W' m A" using sched_play_placed [OF assms(1) _ assms(2)] by (simp add: placed_def)
  then show ?thesis unfolding in_places_def busy_occupants ordinary_def [abs_def] by simp
qed

section \<open>No place is left empty\<close>

definition blocked :: "world \<Rightarrow> nat \<Rightarrow> admissions \<Rightarrow> queued \<Rightarrow> bool" where
  "blocked W m A e \<longleftrightarrow> m \<le> counted W A (\<lambda>_. True) \<or> full W m (counted W A (ordinary W)) A e"

text \<open>
  A queue of different children, none of which runs; only those that wait for a consultation may be inside their
  tools, or have yielded.
\<close>

definition queue_ok :: "admissions \<Rightarrow> queued list \<Rightarrow> bool" where
  "queue_ok A es \<longleftrightarrow> distinct (map q_child es)
     \<and> (\<forall>e \<in> set es. q_child e \<notin> ad_running A \<and> (\<not> q_consultation e \<longrightarrow> q_child e \<notin> ad_yielded A \<union> ad_toolWaits A))"

lemma blocked_start:
  assumes "finite_sets A" "blocked W m A e"
  shows "blocked W m (start x A) e"
proof -
  note fin = finite_start [OF assms(1), of x]
  have le: "counted W A D \<le> counted W (start x A) D" for D
    using occupies_start(2) by (intro counted_mono [OF fin]) auto
  have "group_full W (start x A) g" if "group_full W A g" for g
  proof -
    let ?S = "\<lambda>A. {c \<in> g_live W g \<union> Set.filter (\<lambda>c. g \<in> set (w_groups W c)) (ad_consulting A). occupies W A c}"
    have "ad_consulting A \<subseteq> ad_consulting (start x A)" by (auto simp: start_def)
    then have "?S A \<subseteq> ?S (start x A)" using occupies_start(2) [of W A _ x] by auto
    moreover have "finite (?S (start x A))" by (rule finite_subset [OF _ finite_occupies [OF fin, of W "\<lambda>_. True"]]) auto
    ultimately have "card (?S A) \<le> card (?S (start x A))" by (intro card_mono)
    then show ?thesis using that by (auto simp: group_full_def busy_def split: option.splits)
  qed
  moreover have "q_child e \<in> ad_consulting A \<Longrightarrow> q_child e \<in> ad_consulting (start x A)" by (simp add: start_def)
  ultimately show ?thesis
    using assms(2) le [of "\<lambda>_. True"] le [of "ordinary W"] unfolding blocked_def full_def list_ex_iff by fastforce
qed

lemma counted_start_exact:
  assumes "finite_sets A" "q_child e \<notin> ad_consulting A" "q_child e \<notin> ad_running A"
    "\<not> q_consultation e \<longrightarrow> q_child e \<notin> ad_yielded A"
  shows "counted W (start e A) D = counted W A D + (if D (q_child e) then 1 else 0)"
proof -
  have "\<not> occupies W A (q_child e)" "occupies W (start e A) (q_child e)"
    using assms(2,3,4) by (auto simp: occupies_def start_def)
  then have "{c. occupies W (start e A) c \<and> D c}
      = (if D (q_child e) then insert (q_child e) {c. occupies W A c \<and> D c} else {c. occupies W A c \<and> D c})"
    using occupies_start by auto
  then show ?thesis using finite_occupies [OF assms(1), of W D] \<open>\<not> occupies W A (q_child e)\<close>
    by (simp add: counted_def)
qed

lemma queue_ok_start:
  assumes "queue_ok A (e # es)"
  shows "queue_ok (start e A) es"
  using assms by (fastforce simp: queue_ok_def start_def image_iff)

lemma admit_from_complete:
  "admit_from W m waiting rest n o_count A = (started, A') \<Longrightarrow> finite_sets A \<Longrightarrow> queue_ok A rest \<Longrightarrow>
   n = counted W A (\<lambda>_. True) \<Longrightarrow> o_count = counted W A (ordinary W) \<Longrightarrow> \<forall>e \<in> set waiting. blocked W m A e \<Longrightarrow>
   (\<forall>e \<in> set (ad_queue A'). blocked W m A' e) \<and> subseq started rest
   \<and> mset (ad_queue A') + mset started = mset waiting + mset rest"
proof (induction W m waiting rest n o_count A arbitrary: started A' rule: admit_from.induct)
  case (1 W m waiting n o_count A)
  then have A': "A' = A\<lparr>ad_queue := waiting\<rparr>" "started = []" by simp_all
  have "occupies W A' = occupies W A" by (rule ext) (simp add: A' occupies_def)
  moreover from this have "group_full W A' = group_full W A" by (intro ext) (simp add: group_full_def busy_def A' split: option.split)
  ultimately have "blocked W m A' = blocked W m A"
    by (intro ext) (simp add: blocked_def counted_def full_def A')
  then show ?case using 1 A' by simp
next
  case (2 W m waiting e rest n o_count A)
  consider "m \<le> n" | "n < m" "full W m o_count A e" | "n < m" "\<not> full W m o_count A e" by linarith
  then show ?case
  proof cases
    case 1
    then have A': "A' = A\<lparr>ad_queue := waiting @ e # rest\<rparr>" "started = []" using "2.prems"(1) by simp_all
    have "occupies W A' = occupies W A" by (rule ext) (simp add: A' occupies_def)
    then have "blocked W m A' x" for x using 1 "2.prems"(4) by (simp add: blocked_def counted_def)
    then show ?thesis using A' by simp
  next
    case 2
    have "admit_from W m (waiting @ [e]) rest n o_count A = (started, A')" using 2 "2.prems"(1) by simp
    moreover have "blocked W m A e" using 2 "2.prems"(5) by (simp add: blocked_def)
    moreover have "queue_ok A rest" using "2.prems"(3) by (simp add: queue_ok_def)
    ultimately have "(\<forall>e \<in> set (ad_queue A'). blocked W m A' e) \<and> subseq started rest
        \<and> mset (ad_queue A') + mset started = mset (waiting @ [e]) + mset rest"
      using "2.IH"(1) 2 "2.prems"(2,4,5,6) by simp
    then show ?thesis by auto
  next
    case 3
    let ?o = "if w_ephemeral W (q_child e) then o_count else o_count + 1"
    obtain st where rec: "admit_from W m waiting rest (n + 1) ?o (start e A) = (st, A')" "started = e # st"
      using "2.prems"(1) 3 by (auto split: prod.splits)
    have e: "q_child e \<notin> ad_consulting A" "q_child e \<notin> ad_running A" "\<not> q_consultation e \<longrightarrow> q_child e \<notin> ad_yielded A"
      using 3(2) "2.prems"(3) by (auto simp: full_def queue_ok_def)
    have oe: "ordinary W (q_child e) \<longleftrightarrow> \<not> w_ephemeral W (q_child e)" by (simp add: ordinary_def)
    note exact = counted_start_exact [OF "2.prems"(2) e]
    have "n + 1 = counted W (start e A) (\<lambda>_. True)" "?o = counted W (start e A) (ordinary W)"
      using exact "2.prems"(4,5) oe by simp_all
    moreover have "\<forall>x \<in> set waiting. blocked W m (start e A) x" using "2.prems"(2,6) blocked_start by blast
    ultimately have "(\<forall>e \<in> set (ad_queue A'). blocked W m A' e) \<and> subseq st rest
        \<and> mset (ad_queue A') + mset st = mset waiting + mset rest"
      using "2.IH"(2) [OF _ _ rec(1) finite_start [OF "2.prems"(2)] queue_ok_start [OF "2.prems"(3)]] 3 by simp
    then show ?thesis using rec(2) by simp
  qed
qed

text \<open>
  A child is one thread of work: while it waits in the queue it asks for no other place, begins no tools and gives no
  consultation back, and it waits for a turn only when it has none.
\<close>

definition waits :: "nat \<Rightarrow> admissions \<Rightarrow> bool" where
  "waits c A \<longleftrightarrow> c \<in> q_child ` set (ad_queue A)"

definition between_turns :: "nat \<Rightarrow> admissions \<Rightarrow> bool" where
  "between_turns c A \<longleftrightarrow> \<not> waits c A \<and> c \<notin> ad_running A \<union> ad_yielded A \<union> ad_toolWaits A"

definition in_turn :: "sched_call \<Rightarrow> admissions \<Rightarrow> bool" where
  "in_turn call A =
     (case call of
        Enqueue c p \<Rightarrow> between_turns c A
      | Acquire c signal \<Rightarrow> between_turns c A
      | BeginTools c \<Rightarrow> \<not> waits c A
      | Reenter c aborted \<Rightarrow> \<not> waits c A
      | Consult c aborted \<Rightarrow> \<not> waits c A
      | Consulted c \<Rightarrow> \<not> waits c A
      | _ \<Rightarrow> True)"

fun tidy :: "nat \<Rightarrow> world \<Rightarrow> admissions \<Rightarrow> (world \<times> sched_call) list \<Rightarrow> bool" where
  "tidy m W A [] = True"
| "tidy m W A ((W', call) # cs) \<longleftrightarrow> in_turn call A \<and> tidy m W' (apply_call W' m call A) cs"

definition queue_fit :: "admissions \<Rightarrow> bool" where
  "queue_fit A \<longleftrightarrow> finite_sets A \<and> queue_ok A (ad_queue A)"

lemma admit_from_fit:
  "admit_from W m waiting rest n k A = (started, A') \<Longrightarrow> finite_sets A \<Longrightarrow> queue_ok A (waiting @ rest) \<Longrightarrow> queue_fit A'"
proof (induction W m waiting rest n k A arbitrary: started A' rule: admit_from.induct)
  case (1 W m waiting n k A)
  then show ?case by (auto simp: queue_fit_def queue_ok_def finite_sets_def)
next
  case (2 W m waiting e rest n k A)
  consider "m \<le> n" | "n < m" "full W m k A e" | "n < m" "\<not> full W m k A e" by linarith
  then show ?case
  proof cases
    case 1
    then show ?thesis using "2.prems" by (auto simp: queue_fit_def queue_ok_def finite_sets_def)
  next
    case 2
    then show ?thesis using "2.IH"(1) "2.prems" by simp
  next
    case 3
    obtain st where rec: "admit_from W m waiting rest (n + 1) (if w_ephemeral W (q_child e) then k else k + 1) (start e A) = (st, A')"
      using "2.prems"(1) 3 by (auto split: prod.splits)
    have "queue_ok (start e A) (waiting @ rest)"
      using "2.prems"(3) by (fastforce simp: queue_ok_def start_def image_iff)
    then show ?thesis using "2.IH"(2) [OF _ _ rec finite_start [OF "2.prems"(2)]] 3 by simp
  qed
qed

lemma admit_fit: "queue_fit A \<Longrightarrow> queue_fit (snd (admit_ready W m A))"
  using admit_from_fit [where waiting = "[]" and A = A, OF surjective_pairing]
  by (simp add: queue_fit_def admit_ready_def)

text \<open>What shrinks the sets, or the queue, keeps the queue fit; so does a new entry of a child that may wait.\<close>

lemma queue_fit_less:
  assumes "queue_fit A" "set (ad_queue A') \<subseteq> set (ad_queue A)" "distinct (map q_child (ad_queue A'))"
    "ad_running A' \<subseteq> ad_running A" "ad_consulting A' \<subseteq> ad_consulting A"
    "\<And>e. e \<in> set (ad_queue A') \<Longrightarrow> q_child e \<in> ad_yielded A' \<union> ad_toolWaits A' \<Longrightarrow> q_child e \<in> ad_yielded A \<union> ad_toolWaits A"
  shows "queue_fit A'"
  using assms finite_subset unfolding queue_fit_def queue_ok_def finite_sets_def by (meson subset_iff)

lemma queue_fit_distinct: "queue_fit A \<Longrightarrow> distinct (map q_child (filter P (ad_queue A)))"
  by (simp add: queue_fit_def queue_ok_def distinct_map_filter)

lemma queue_fit_yield: "queue_fit A \<Longrightarrow> queue_fit (yieldToolParents W c A)"
  by (rule queue_fit_less) (auto simp: queue_fit_def queue_ok_def yieldToolParents_def)

lemma queue_fit_push:
  assumes "queue_fit A" "\<not> waits c A" "c \<notin> ad_running A" "consultation \<or> c \<notin> ad_yielded A \<union> ad_toolWaits A"
  shows "queue_fit (push c consultation A)"
  using assms by (auto simp: queue_fit_def queue_ok_def finite_sets_def push_def waits_def)

lemma queue_fit_release: "queue_fit A \<Longrightarrow> queue_fit (release c A)"
  by (rule queue_fit_less) (auto simp: queue_fit_def queue_ok_def release_def)

lemma queue_fit_waiting: "queue_fit (A\<lparr>ad_waiting := ws\<rparr>) = queue_fit A" "queue_fit (A\<lparr>ad_parents := ps\<rparr>) = queue_fit A"
  "queue_fit (A\<lparr>ad_next := k\<rparr>) = queue_fit A"
  by (simp_all add: queue_fit_def queue_ok_def finite_sets_def)

lemma queue_fit_cancel: "queue_fit A \<Longrightarrow> queue_fit (cancel k A)"
  using queue_fit_distinct by (auto intro!: queue_fit_less [of A] simp: cancel_def)

lemma acquire_fit:
  assumes "queue_fit A" "between_turns c A"
  shows "queue_fit (snd (acquire W m c signal A))"
proof -
  define A1 where "A1 = (if signal = None then A\<lparr>ad_waiting := (c, ad_next A) # filter (\<lambda>p. fst p \<noteq> c) (ad_waiting A)\<rparr> else A)"
  have f: "queue_fit A1" "between_turns c A1"
    using assms by (simp_all add: A1_def queue_fit_waiting between_turns_def waits_def)
  have "queue_fit (cancel (ad_next A1) (A1\<lparr>ad_next := ad_next A1 + 1\<rparr>))"
    using f(1) by (intro queue_fit_cancel) (simp add: queue_fit_waiting)
  moreover have "queue_fit (snd (admit_ready W m (yieldToolParents W c (push c False A1))))"
    using f by (intro admit_fit queue_fit_yield queue_fit_push) (auto simp: between_turns_def)
  ultimately show ?thesis by (simp add: acquire_def Let_def A1_def [symmetric])
qed

lemma apply_call_fit:
  assumes "queue_fit A" "in_turn call A"
  shows "queue_fit (apply_call W m call A)"
proof (cases call)
  case (Enqueue c p)
  then show ?thesis
    using assms admit_fit queue_fit_yield queue_fit_push
    by (auto simp: apply_call_def enqueue_def in_turn_def between_turns_def waits_def queue_fit_waiting
        intro!: admit_fit queue_fit_yield queue_fit_push)
next
  case (BeginTools c)
  have w: "\<not> waits c A" using assms(2) BeginTools by (simp add: in_turn_def)
  then have "queue_fit (A\<lparr>ad_toolWaits := insert c (ad_toolWaits A)\<rparr>)"
    "queue_fit (A\<lparr>ad_toolWaits := insert c (ad_toolWaits A), ad_yielded := insert c (ad_yielded A)\<rparr>)"
    using assms(1) by (auto simp: queue_fit_def queue_ok_def finite_sets_def waits_def)
  then show ?thesis using BeginTools admit_fit by (simp add: apply_call_def beginTools_def Let_def)
next
  case (Reenter c aborted)
  let ?A = "release c (A\<lparr>ad_yielded := ad_yielded A - {c}\<rparr>)"
  have "queue_fit (A\<lparr>ad_yielded := ad_yielded A - {c}\<rparr>)"
    using assms(1) by (auto simp: queue_fit_def queue_ok_def finite_sets_def)
  then have "queue_fit ?A" by (rule queue_fit_release)
  moreover have "between_turns c ?A"
    using assms(2) Reenter by (simp add: in_turn_def between_turns_def waits_def release_def)
  ultimately show ?thesis
    using Reenter assms(1) acquire_fit by (simp add: apply_call_def reenter_def Let_def)
next
  case (Acquire c signal)
  then show ?thesis using acquire_fit assms by (simp add: apply_call_def in_turn_def)
next
  case (Consult c aborted)
  have w: "\<not> waits c A" using assms(2) Consult by (simp add: in_turn_def)
  have "queue_fit (A\<lparr>ad_consulting := insert c (ad_consulting A)\<rparr>)" "queue_fit (A\<lparr>ad_running := ad_running A - {c}\<rparr>)"
    using assms(1) by (auto simp: queue_fit_def queue_ok_def finite_sets_def)
  moreover from this(2) have "queue_fit (push c True (A\<lparr>ad_running := ad_running A - {c}\<rparr>))"
    using w by (intro queue_fit_push) (auto simp: waits_def)
  ultimately show ?thesis
    using Consult assms(1) admit_fit queue_fit_yield by (simp add: apply_call_def acquireConsultation_def)
next
  case (Consulted c)
  have w: "\<not> waits c A" using assms(2) Consulted by (simp add: in_turn_def)
  then have "queue_fit (A\<lparr>ad_consulting := ad_consulting A - {c}\<rparr>)"
    "queue_fit (A\<lparr>ad_consulting := ad_consulting A - {c}, ad_running := insert c (ad_running A)\<rparr>)"
    using assms(1) by (auto simp: queue_fit_def queue_ok_def finite_sets_def waits_def)
  then show ?thesis using Consulted admit_fit by (simp add: apply_call_def releaseConsultation_def Let_def)
next
  case (Dequeue c)
  then show ?thesis
    using assms(1) queue_fit_distinct by (auto intro!: queue_fit_less [OF assms(1)] simp: apply_call_def dequeue_def)
next
  case (EndTools c)
  then show ?thesis
    using assms(1) by (auto simp: apply_call_def endTools_def queue_fit_def queue_ok_def finite_sets_def)
qed (use assms queue_fit_release queue_fit_cancel in
    \<open>auto simp: apply_call_def acquired_def childEnded_def queue_fit_waiting\<close>)

lemma tidy_fit: "tidy m W A cs \<Longrightarrow> queue_fit A \<Longrightarrow> sched_play m W A cs = (W', A') \<Longrightarrow> queue_fit A'"
  by (induction m W A cs rule: tidy.induct) (auto dest: apply_call_fit)

lemma queue_fit_new: "queue_fit new_admission"
  by (simp add: queue_fit_def queue_ok_def finite_sets_def new_admission_def)

text \<open>
  C39. No place is left empty and nobody is lost: after whatever calls of children that are one thread of work
  each, admitting starts entries in queue order, every other entry stays queued, and each of those waits for a
  reason that still holds at the end: the tree is full, its kind of work or one of its groups is full, or its child
  is consulting.
\<close>

theorem admit_leaves_blocked:
  assumes "tidy m W0 new_admission cs" "sched_play m W0 new_admission cs = (W, A)" "admit_ready W m A = (started, A')"
  shows "subseq started (ad_queue A) \<and> mset (ad_queue A') + mset started = mset (ad_queue A)
    \<and> (\<forall>e \<in> set (ad_queue A'). m \<le> busy W A' (occupants A')
        \<or> full W m (busy W A' {c \<in> occupants A'. \<not> w_ephemeral W c}) A' e)"
proof -
  have fit: "finite_sets A" "queue_ok A (ad_queue A)"
    using tidy_fit [OF assms(1) queue_fit_new assms(2)] by (simp_all add: queue_fit_def)
  have "admit_from W m [] (ad_queue A) (counted W A (\<lambda>_. True)) (counted W A (ordinary W)) A = (started, A')"
    using assms(3) busy_occupants(1) [of W A] busy_occupants(2) [of W A "ordinary W"]
    by (simp add: admit_ready_def ordinary_def)
  from admit_from_complete [OF this fit]
  have "(\<forall>e \<in> set (ad_queue A'). blocked W m A' e) \<and> subseq started (ad_queue A)
      \<and> mset (ad_queue A') + mset started = mset (ad_queue A)" by simp
  then show ?thesis unfolding blocked_def busy_occupants ordinary_def [abs_def] by blast
qed

section \<open>An example\<close>

text \<open>Three agents under one parent, two places; the third waits.\<close>

definition family :: world where
  "family = \<lparr>w_id = (\<lambda>n. [97 + int n]), w_parent = (\<lambda>n. js ''r''), w_ephemeral = (\<lambda>_. False), w_groups = (\<lambda>_. []),
     w_paused = (\<lambda>_. False), g_live = (\<lambda>_. {}), g_max = (\<lambda>_. None)\<rparr>"

theorem under_is_ancestor_example:
  "under family [(js ''r'', js ''a'')] 1 0 \<longleftrightarrow> (w_parent family 1, w_id family 0) \<in> (ups [(js ''r'', js ''a'')])\<^sup>*"
proof (rule under_is_ancestor)
  have "ups [(js ''r'', js ''a'')] = {(js ''r'', js ''a'')}" by (auto simp: ups_def split: if_splits)
  moreover have "js ''r'' \<noteq> js ''a''" by simp
  moreover have "acyclic ({} :: (jstring \<times> jstring) set)" by (simp add: acyclic_def)
  ultimately show "acyclic (ups [(js ''r'', js ''a'')])" by simp
qed (simp add: family_def)

theorem admission_within_limits_witness:
  "busy family (snd (sched_play 2 family new_admission [(family, Enqueue 0 (js ''r'')), (family, Enqueue 1 (js ''r''))]))
     (occupants (snd (sched_play 2 family new_admission [(family, Enqueue 0 (js ''r'')), (family, Enqueue 1 (js ''r''))]))) \<le> 2"
proof -
  let ?cs = "[(family, Enqueue 0 (js ''r'')), (family, Enqueue 1 (js ''r''))]"
  have "orderly 2 family new_admission ?cs" by (simp add: follows_def legal_def)
  from admission_within_limits [OF this, of "fst (sched_play 2 family new_admission ?cs)"
      "snd (sched_play 2 family new_admission ?cs)"]
  show ?thesis by (simp add: apply_call_def)
qed

text \<open>The first one ends its turn, and the third takes its place.\<close>

definition three_turns :: "(world \<times> sched_call) list" where
  "three_turns = [(family, Enqueue 0 (js ''r'')), (family, Enqueue 1 (js ''r'')), (family, Enqueue 2 (js ''r'')), (family, Release 0)]"

theorem admit_leaves_blocked_witness:
  "map q_child (fst (admit_ready family 2 (snd (sched_play 2 family new_admission three_turns)))) = [1]
   \<and> map q_child (ad_queue (snd (admit_ready family 2 (snd (sched_play 2 family new_admission three_turns))))) = [2]
   \<and> subseq (fst (admit_ready family 2 (snd (sched_play 2 family new_admission three_turns))))
       (ad_queue (snd (sched_play 2 family new_admission three_turns)))"
proof -
  have t: "tidy 2 family new_admission three_turns" by code_simp
  have w: "sched_play 2 family new_admission three_turns = (family, snd (sched_play 2 family new_admission three_turns))"
    by (simp add: three_turns_def)
  have s: "map q_child (fst (admit_ready family 2 (snd (sched_play 2 family new_admission three_turns)))) = [1]"
    "map q_child (ad_queue (snd (admit_ready family 2 (snd (sched_play 2 family new_admission three_turns))))) = [2]"
    by code_simp+
  from admit_leaves_blocked [OF t w surjective_pairing] s show ?thesis by simp
qed

text \<open>
  The discipline is needed: a consultation that is given back when its child waits for the next turn puts the child
  among the running ones, and starting the entry counts it once more. A place stays empty until the next call.
\<close>

lemma late_consultation_leaves_place:
  "let A = snd (sched_play 3 family new_admission
       [(family, Enqueue 0 (js ''r'')), (family, Consult 0 False), (family, Release 0), (family, Acquire 0 (Some False)),
        (family, Enqueue 1 (js ''r'')), (family, Enqueue 2 (js ''r'')), (family, Release 1), (family, Consulted 0)])
   in map q_child (ad_queue A) = [2] \<and> ad_running A = {0} \<and> ad_consulting A = {}"
  by code_simp

end
