(* ===== verification/EventBus.thy ===== *)
theory EventBus
  imports Json
begin

text \<open>
  The event bus (\<open>packages/core/src/event-bus.ts\<close>): every subscriber has a queue of its own, which
  is drained asynchronously; when it is full, streaming updates are dropped first and one marker
  tells how much was lost. Captures see every event at once, before any queue. Draining is a step
  for every event taken from a queue.
\<close>

section \<open>Subscribers\<close>

record bus_event =
  be_seq :: nat
  be_type :: jstring
  be_session :: jstring
  be_data :: json

text \<open>An event, or the marker of a loss: its number, its session and how many events are gone.\<close>

datatype item = Sent bus_event | Lost nat jstring nat

fun item_seq :: "item \<Rightarrow> nat" where
  "item_seq (Sent ev) = be_seq ev"
| "item_seq (Lost q _ _) = q"

definition isStreaming :: "jstring \<Rightarrow> bool" where
  "isStreaming t \<longleftrightarrow> t = js ''message.delta'' \<or> t = js ''tool.execute.update'' \<or> t = js ''ui.render''"

definition lost_type :: jstring where "lost_type = js ''events.lost''"

fun item_streaming :: "item \<Rightarrow> bool" where
  "item_streaming (Sent ev) = isStreaming (be_type ev)"
| "item_streaming (Lost _ _ _) = isStreaming lost_type"

record sub =
  sb_name :: nat
  sb_queue :: "item list"
  sb_max :: nat
  sb_types :: "jstring list option"
  sb_draining :: bool
  sb_lost :: "nat option" \<comment> \<open>the number of the marker still queued\<close>

record bus =
  bu_seq :: nat
  bu_subs :: "sub list"
  bu_captures :: "nat list"

definition new_bus :: bus where
  "new_bus = \<lparr>bu_seq = 0, bu_subs = [], bu_captures = []\<rparr>"

definition wants :: "sub \<Rightarrow> jstring \<Rightarrow> bool" where
  "wants s t \<longleftrightarrow> (case sb_types s of None \<Rightarrow> True | Some ts \<Rightarrow> t \<in> set ts)"

definition is_marker :: "sub \<Rightarrow> item \<Rightarrow> bool" where
  "is_marker s x \<longleftrightarrow> (case sb_lost s of Some q \<Rightarrow> (\<exists>k n. x = Lost q k n) | None \<Rightarrow> False)"

lemma is_marker_code [code]:
  "is_marker s x = (case (sb_lost s, x) of (Some q, Lost p _ _) \<Rightarrow> p = q | _ \<Rightarrow> False)"
  by (auto simp: is_marker_def split: option.splits item.splits)

section \<open>Emitting\<close>

definition drain :: "sub \<Rightarrow> sub" where
  "drain s = s\<lparr>sb_draining := True\<rparr>"

text \<open>The index of the first element with a property.\<close>

fun findIndex :: "('a \<Rightarrow> bool) \<Rightarrow> 'a list \<Rightarrow> nat option" where
  "findIndex P [] = None"
| "findIndex P (x # xs) = (if P x then Some 0 else map_option Suc (findIndex P xs))"

definition splice_out :: "nat \<Rightarrow> 'a list \<Rightarrow> 'a list" where
  "splice_out i xs = take i xs @ drop (Suc i) xs"

text \<open>A loss is counted on the marker still queued, or on a new one, which takes the next number.\<close>

fun count_loss :: "nat \<Rightarrow> item \<Rightarrow> item" where
  "count_loss q (Lost p k n) = Lost p k (if p = q then n + 1 else n)"
| "count_loss q (Sent ev) = Sent ev"

definition noteLoss :: "jstring \<Rightarrow> nat \<Rightarrow> sub \<Rightarrow> nat \<times> sub" where
  "noteLoss session q s =
     (if \<not> wants s lost_type then (q, s)
      else case sb_lost s of
          Some p \<Rightarrow> (q, s\<lparr>sb_queue := map (count_loss p) (sb_queue s)\<rparr>)
        | None \<Rightarrow> (q + 1, s\<lparr>sb_lost := Some (q + 1), sb_queue := sb_queue s @ [Lost (q + 1) session 1]\<rparr>))"

text \<open>What an overflowing queue gives up for an event that is not streaming.\<close>

definition victim :: "sub \<Rightarrow> nat option" where
  "victim s =
     (case findIndex item_streaming (sb_queue s) of
        Some i \<Rightarrow> Some i
      | None \<Rightarrow> findIndex (\<lambda>x. \<not> is_marker s x) (sb_queue s))"

definition overflow :: "bus_event \<Rightarrow> sub \<Rightarrow> sub" where
  "overflow ev s =
     (if isStreaming (be_type ev) then s
      else s\<lparr>sb_queue := (case victim s of Some j \<Rightarrow> splice_out j (sb_queue s) | None \<Rightarrow> sb_queue s) @ [Sent ev]\<rparr>)"

text \<open>One subscriber is offered an event; the last number used comes along.\<close>

definition offer :: "bus_event \<Rightarrow> nat \<Rightarrow> sub \<Rightarrow> nat \<times> sub" where
  "offer ev q s =
     (if \<not> wants s (be_type ev) then (q, s)
      else if sb_max s \<le> length (sb_queue s) then
        (let (q', s') = noteLoss (be_session ev) q (overflow ev s) in (q', drain s'))
      else (q, drain (s\<lparr>sb_queue := sb_queue s @ [Sent ev]\<rparr>)))"

fun offer_all :: "bus_event \<Rightarrow> nat \<Rightarrow> sub list \<Rightarrow> nat \<times> sub list" where
  "offer_all ev q [] = (q, [])"
| "offer_all ev q (s # ss) =
     (let (q1, s1) = offer ev q s; (q2, ss1) = offer_all ev q1 ss in (q2, s1 # ss1))"

text \<open>An event and who captured it; a capture that throws is reported and changes nothing.\<close>

definition emit :: "jstring \<Rightarrow> json \<Rightarrow> jstring \<Rightarrow> bus \<Rightarrow> bus_event \<times> nat list \<times> bus" where
  "emit t d session B =
     (let ev = \<lparr>be_seq = bu_seq B + 1, be_type = t, be_session = session, be_data = d\<rparr>;
          (q, ss) = offer_all ev (bu_seq B + 1) (bu_subs B)
      in (ev, bu_captures B, B\<lparr>bu_seq := q, bu_subs := ss\<rparr>))"

definition subscribe :: "nat \<Rightarrow> nat option \<Rightarrow> jstring list option \<Rightarrow> bus_event list \<Rightarrow> bus \<Rightarrow> bus" where
  "subscribe name maxQueue types replay B =
     (let s = \<lparr>sb_name = name, sb_queue = [], sb_max = (case maxQueue of Some n \<Rightarrow> n | None \<Rightarrow> 10000),
               sb_types = types, sb_draining = False, sb_lost = None\<rparr>;
          s1 = s\<lparr>sb_queue := map Sent (filter (\<lambda>ev. wants s (be_type ev)) replay)\<rparr>
      in B\<lparr>bu_subs := bu_subs B @ [if sb_queue s1 \<noteq> [] then drain s1 else s1]\<rparr>)"

definition unsubscribe :: "nat \<Rightarrow> bus \<Rightarrow> bus" where
  "unsubscribe name B = B\<lparr>bu_subs := filter (\<lambda>s. sb_name s \<noteq> name) (bu_subs B)\<rparr>"

definition capture :: "nat \<Rightarrow> bus \<Rightarrow> bus" where
  "capture c B = B\<lparr>bu_captures := (if c \<in> set (bu_captures B) then bu_captures B else bu_captures B @ [c])\<rparr>"

definition uncapture :: "nat \<Rightarrow> bus \<Rightarrow> bus" where
  "uncapture c B = B\<lparr>bu_captures := filter (\<lambda>x. x \<noteq> c) (bu_captures B)\<rparr>"

text \<open>One turn of the draining loop: what is delivered, and the subscriber after it.\<close>

definition shift_queue :: "sub \<Rightarrow> item option \<times> sub" where
  "shift_queue s =
     (case sb_queue s of
        [] \<Rightarrow> (None, s\<lparr>sb_draining := False\<rparr>)
      | x # xs \<Rightarrow> (Some x, s\<lparr>sb_queue := xs, sb_lost := (if is_marker s x then None else sb_lost s)\<rparr>))"

definition idle :: "bus \<Rightarrow> bool" where
  "idle B \<longleftrightarrow> list_all (\<lambda>s. \<not> sb_draining s \<and> sb_queue s = []) (bu_subs B)"

section \<open>What one subscriber gets\<close>

text \<open>How many events an item stands for.\<close>

fun weight :: "item \<Rightarrow> nat" where
  "weight (Sent _) = 1"
| "weight (Lost _ _ n) = n"

definition events_in :: "item list \<Rightarrow> nat" where
  "events_in xs = sum_list (map weight xs)"

text \<open>The events themselves, and how many more the markers tell of.\<close>

fun sents :: "item list \<Rightarrow> bus_event list" where
  "sents [] = []"
| "sents (Sent ev # xs) = ev # sents xs"
| "sents (Lost _ _ _ # xs) = sents xs"

fun lost_count :: "item list \<Rightarrow> nat" where
  "lost_count [] = 0"
| "lost_count (Sent _ # xs) = lost_count xs"
| "lost_count (Lost _ _ n # xs) = n + lost_count xs"

lemma events_in_parts: "events_in xs = length (sents xs) + lost_count xs"
  by (induction xs rule: sents.induct) (simp_all add: events_in_def)

lemma sents_append [simp]: "sents (xs @ ys) = sents xs @ sents ys"
  by (induction xs rule: sents.induct) simp_all

lemma sents_map_Sent [simp]: "sents (map Sent evs) = evs"
  by (induction evs) simp_all

text \<open>
  \<open>q\<close> is the last number used, \<open>n\<close> how many events the subscriber was offered and wanted, and \<open>D\<close>
  what it was given.
\<close>

definition in_sequence :: "nat \<Rightarrow> item list \<Rightarrow> item list \<Rightarrow> bool" where
  "in_sequence q D Q \<longleftrightarrow> sorted_wrt (<) (map item_seq (D @ Q)) \<and> (\<forall>x \<in> set (map item_seq (D @ Q)). x \<le> q)"

definition marker_ok :: "sub \<Rightarrow> bool" where
  "marker_ok s \<longleftrightarrow> (\<forall>p k m. Lost p k m \<in> set (sb_queue s) \<longrightarrow> sb_lost s = Some p)
     \<and> (\<forall>p. sb_lost s = Some p \<longrightarrow> wants s lost_type \<and> (\<exists>k m. Lost p k m \<in> set (sb_queue s)))"

definition room_ok :: "sub \<Rightarrow> bool" where
  "room_ok s \<longleftrightarrow> (2 \<le> sb_max s \<longrightarrow> length (sb_queue s) \<le> sb_max s + (if sb_lost s = None then 0 else 1))"

definition loss_ok :: "nat \<Rightarrow> item list \<Rightarrow> sub \<Rightarrow> bool" where
  "loss_ok n D s \<longleftrightarrow> (2 \<le> sb_max s \<and> wants s lost_type \<longrightarrow> events_in (D @ sb_queue s) = n)"

definition sub_ok :: "nat \<Rightarrow> nat \<Rightarrow> item list \<Rightarrow> sub \<Rightarrow> bool" where
  "sub_ok q n D s \<longleftrightarrow> in_sequence q D (sb_queue s) \<and> marker_ok s \<and> room_ok s \<and> loss_ok n D s"

lemma index_of_Some: "findIndex P xs = Some i \<Longrightarrow> i < length xs \<and> P (xs ! i)"
  by (induction xs arbitrary: i) (auto split: if_splits)

lemma index_of_None: "findIndex P xs = None \<longleftrightarrow> (\<forall>x \<in> set xs. \<not> P x)"
  by (induction xs) auto

lemma split_at: "i < length xs \<Longrightarrow> xs = take i xs @ xs ! i # drop (Suc i) xs"
  by (rule id_take_nth_drop)

lemma splice_out_sorted:
  assumes "i < length q" "sorted_wrt (<) (map item_seq (D @ q))"
  shows "sorted_wrt (<) (map item_seq (D @ splice_out i q))"
  using assms(2) by (subst (asm) split_at [OF assms(1)]) (auto simp: sorted_wrt_append splice_out_def)

lemma splice_out_events: "i < length q \<Longrightarrow> events_in q = weight (q ! i) + events_in (splice_out i q)"
  by (subst split_at, assumption) (simp add: events_in_def splice_out_def)

lemma splice_out_set: "set (splice_out i q) \<subseteq> set q"
  by (auto simp: splice_out_def dest: in_set_takeD in_set_dropD)

lemma length_splice_out: "i < length q \<Longrightarrow> length (splice_out i q) = length q - 1"
  by (simp add: splice_out_def)

lemma item_seq_count_loss [simp]: "item_seq (count_loss p x) = item_seq x"
  by (cases x) simp_all

lemma count_loss_events:
  "sorted_wrt (<) (map item_seq q) \<Longrightarrow> Lost p k m \<in> set q \<Longrightarrow> events_in (map (count_loss p) q) = Suc (events_in q)"
proof (induction q)
  case (Cons x q)
  have same: "events_in (map (count_loss p) q) = events_in q" if "\<forall>y \<in> set q. item_seq y \<noteq> p" for q
  proof -
    have "count_loss p y = y" if "item_seq y \<noteq> p" for y using that by (cases y) auto
    then have "map (count_loss p) q = q" using \<open>\<forall>y \<in> set q. item_seq y \<noteq> p\<close> by (intro map_idI) blast
    then show ?thesis by simp
  qed
  show ?case
  proof (cases "x = Lost p k m")
    case True
    then show ?thesis using Cons.prems same [of q] by (fastforce simp: events_in_def)
  next
    case False
    then have "Lost p k m \<in> set q" using Cons.prems by simp
    moreover from this have "item_seq x < p" using Cons.prems(1) by fastforce
    then have "weight (count_loss p x) = weight x" by (cases x) auto
    ultimately show ?thesis using Cons by (simp add: events_in_def)
  qed
qed simp

lemma not_streaming_lost [simp]: "\<not> isStreaming lost_type"
  by (simp add: isStreaming_def lost_type_def)

text \<open>The victim is an event, and with two places there always is one.\<close>

lemma victim_Sent:
  assumes "victim s = Some i" "\<forall>p k m. Lost p k m \<in> set (sb_queue s) \<longrightarrow> sb_lost s = Some p"
  shows "i < length (sb_queue s)" "\<exists>ev. sb_queue s ! i = Sent ev"
proof -
  have "i < length (sb_queue s) \<and> (item_streaming (sb_queue s ! i) \<or> \<not> is_marker s (sb_queue s ! i))"
    using assms(1) by (auto simp: victim_def dest: index_of_Some split: option.splits)
  then have i: "i < length (sb_queue s)" "item_streaming (sb_queue s ! i) \<or> \<not> is_marker s (sb_queue s ! i)" by blast+
  then have "sb_queue s ! i \<in> set (sb_queue s)" by simp
  with i(2) assms(2) show "i < length (sb_queue s)" "\<exists>ev. sb_queue s ! i = Sent ev"
    using i(1) by (cases "sb_queue s ! i"; force simp: is_marker_def)+
qed

lemma victim_None:
  assumes "victim s = None" "sorted_wrt (<) (map item_seq (sb_queue s))"
  shows "length (sb_queue s) \<le> 1"
proof -
  have all: "\<forall>x \<in> set (sb_queue s). is_marker s x"
    using assms(1) by (auto simp: victim_def index_of_None split: option.splits)
  show ?thesis
  proof (cases "sb_queue s")
    case (Cons x q)
    have "q = []"
    proof (rule ccontr)
      assume "q \<noteq> []"
      then obtain y ys where y: "q = y # ys" by (cases q) auto
      then have "item_seq x < item_seq y" "is_marker s x" "is_marker s y" using assms(2) all Cons by auto
      then show False by (auto simp: is_marker_def split: option.splits)
    qed
    then show ?thesis using Cons by simp
  qed simp
qed

lemma events_in_append: "events_in (xs @ ys) = events_in xs + events_in ys"
  by (simp add: events_in_def)

lemma wants_queue [simp]: "wants (s\<lparr>sb_queue := q\<rparr>) t = wants s t" "wants (s\<lparr>sb_lost := l\<rparr>) t = wants s t"
  "wants (drain s) t = wants s t"
  by (simp_all add: wants_def drain_def)

lemma in_sequence_later: "in_sequence q D Q \<Longrightarrow> q \<le> r \<Longrightarrow> in_sequence r D Q"
  unfolding in_sequence_def by (meson order_trans)

lemma in_sequence_snoc: "in_sequence q D Q \<Longrightarrow> q < item_seq x \<Longrightarrow> item_seq x \<le> r \<Longrightarrow> in_sequence r D (Q @ [x])"
proof -
  assume a: "in_sequence q D Q" and lt: "q < item_seq x" "item_seq x \<le> r"
  then have le: "y \<le> q" if "y \<in> set (map item_seq (D @ Q))" for y using that unfolding in_sequence_def by blast
  then have "y < item_seq x" "y \<le> r" if "y \<in> set (map item_seq (D @ Q))" for y using that lt by fastforce+
  then show ?thesis using a lt(2) unfolding in_sequence_def by (simp add: sorted_wrt_append)
qed

lemma marker_ok_same:
  assumes "marker_ok s" "sb_lost s' = sb_lost s" "sb_types s' = sb_types s"
    "\<And>p k. (\<exists>m. Lost p k m \<in> set (sb_queue s')) \<longleftrightarrow> (\<exists>m. Lost p k m \<in> set (sb_queue s))"
  shows "marker_ok s'"
  using assms(1) assms(4) unfolding marker_ok_def wants_def assms(2,3) by metis

lemma in_sequence_same: "in_sequence q D Q \<Longrightarrow> map item_seq Q' = map item_seq Q \<Longrightarrow> in_sequence q D Q'"
  unfolding in_sequence_def map_append by simp

text \<open>Adding an event behind everything that came before.\<close>

lemma push_ok:
  assumes "sub_ok q n D s" "q < be_seq ev" "be_seq ev \<le> r"
    "2 \<le> sb_max s \<longrightarrow> length (sb_queue s) < sb_max s + (if sb_lost s = None then 0 else 1)"
  shows "sub_ok r (n + 1) D (s\<lparr>sb_queue := sb_queue s @ [Sent ev]\<rparr>)"
  unfolding sub_ok_def
proof (intro conjI)
  note ok = assms(1) [unfolded sub_ok_def]
  show "in_sequence r D (sb_queue (s\<lparr>sb_queue := sb_queue s @ [Sent ev]\<rparr>))"
    using ok assms(2,3) in_sequence_snoc [of q D "sb_queue s" "Sent ev" r] by simp
  have "marker_ok s" using ok by blast
  then show "marker_ok (s\<lparr>sb_queue := sb_queue s @ [Sent ev]\<rparr>)" by (rule marker_ok_same) simp_all
  show "room_ok (s\<lparr>sb_queue := sb_queue s @ [Sent ev]\<rparr>)" using assms(4) by (auto simp: room_ok_def)
  show "loss_ok (n + 1) D (s\<lparr>sb_queue := sb_queue s @ [Sent ev]\<rparr>)"
    using ok by (simp add: loss_ok_def events_in_append) (simp add: events_in_def)
qed

lemma sub_ok_later: "sub_ok q n D s \<Longrightarrow> q \<le> r \<Longrightarrow> sub_ok r n D s"
  unfolding sub_ok_def using in_sequence_later by blast

lemma sub_ok_drain: "sub_ok q n D (drain s) = sub_ok q n D s"
proof -
  have "sb_queue (drain s) = sb_queue s" "sb_lost (drain s) = sb_lost s" "sb_max (drain s) = sb_max s"
    by (simp_all add: drain_def)
  then show ?thesis unfolding sub_ok_def marker_ok_def room_ok_def loss_ok_def by (simp only: wants_queue)
qed

lemma sub_ok_unwanted: "\<not> wants s lost_type \<Longrightarrow> sub_ok q n D s \<Longrightarrow> sub_ok q m D s"
  by (simp add: sub_ok_def loss_ok_def)

lemma count_loss_ok:
  assumes "sub_ok q n D s" "sb_lost s = Some p"
  shows "sub_ok q (n + 1) D (s\<lparr>sb_queue := map (count_loss p) (sb_queue s)\<rparr>)"
  unfolding sub_ok_def
proof (intro conjI)
  let ?Q = "map (count_loss p) (sb_queue s)"
  note ok = assms(1) [unfolded sub_ok_def]
  obtain k m where m: "Lost p k m \<in> set (sb_queue s)" using ok assms(2) unfolding marker_ok_def by blast
  have sorted: "sorted_wrt (<) (map item_seq (sb_queue s))" using ok by (simp add: in_sequence_def sorted_wrt_append)
  have "map item_seq ?Q = map item_seq (sb_queue s)" by simp
  then show "in_sequence q D (sb_queue (s\<lparr>sb_queue := ?Q\<rparr>))" using ok in_sequence_same [of q D "sb_queue s" ?Q] by simp
  have lost: "(\<exists>c. Lost a b c \<in> set ?Q) \<longleftrightarrow> (\<exists>d. Lost a b d \<in> set (sb_queue s))" for a b
  proof
    assume "\<exists>c. Lost a b c \<in> set ?Q"
    then obtain c x where "x \<in> set (sb_queue s)" "count_loss p x = Lost a b c" by (metis imageE set_map)
    then show "\<exists>d. Lost a b d \<in> set (sb_queue s)" by (cases rule: item.exhaust [of x]) auto
  next
    assume "\<exists>d. Lost a b d \<in> set (sb_queue s)"
    then obtain d where "count_loss p (Lost a b d) \<in> set ?Q" by (metis image_eqI set_map)
    then show "\<exists>c. Lost a b c \<in> set ?Q" by auto
  qed
  have q: "sb_queue (s\<lparr>sb_queue := ?Q\<rparr>) = ?Q" by simp
  show "marker_ok (s\<lparr>sb_queue := ?Q\<rparr>)"
  proof (rule marker_ok_same [of s])
    show "marker_ok s" using ok by blast
    show "(\<exists>m. Lost p' k m \<in> set (sb_queue (s\<lparr>sb_queue := ?Q\<rparr>))) \<longleftrightarrow> (\<exists>m. Lost p' k m \<in> set (sb_queue s))" for p' k
      unfolding q by (rule lost)
  qed simp_all
  show "room_ok (s\<lparr>sb_queue := ?Q\<rparr>)" using ok by (simp add: room_ok_def)
  show "loss_ok (n + 1) D (s\<lparr>sb_queue := ?Q\<rparr>)"
    using ok count_loss_events [OF sorted m] by (simp add: loss_ok_def events_in_append)
qed

lemma new_loss_ok:
  assumes "sub_ok q n D s" "wants s lost_type" "sb_lost s = None"
  shows "sub_ok (q + 1) (n + 1) D (s\<lparr>sb_lost := Some (q + 1), sb_queue := sb_queue s @ [Lost (q + 1) k 1]\<rparr>)"
  unfolding sub_ok_def
proof (intro conjI)
  let ?s = "s\<lparr>sb_lost := Some (q + 1), sb_queue := sb_queue s @ [Lost (q + 1) k 1]\<rparr>"
  note ok = assms(1) [unfolded sub_ok_def]
  show "in_sequence (q + 1) D (sb_queue ?s)"
    using ok in_sequence_snoc [of q D "sb_queue s" "Lost (q + 1) k 1" "q + 1"] by simp
  have "Lost a b c \<notin> set (sb_queue s)" for a b c using ok assms(3) unfolding marker_ok_def by fastforce
  then show "marker_ok ?s" using assms(2) by (auto simp: marker_ok_def)
  show "room_ok ?s" using ok assms(3) by (simp add: room_ok_def)
  show "loss_ok (n + 1) D ?s" using ok by (simp add: loss_ok_def events_in_append) (simp add: events_in_def)
qed

lemma noteLoss_ok:
  assumes "sub_ok q n D s"
  shows "sub_ok (fst (noteLoss k q s)) (n + 1) D (snd (noteLoss k q s)) \<and> q \<le> fst (noteLoss k q s)"
proof (cases "wants s lost_type")
  case True
  then show ?thesis using count_loss_ok [OF assms] new_loss_ok [OF assms]
    by (cases "sb_lost s") (simp_all add: noteLoss_def)
qed (use sub_ok_unwanted assms in \<open>simp add: noteLoss_def\<close>)

lemma drop_victim_ok:
  assumes "sub_ok q n D s" "victim s = Some i"
  shows "sub_ok q (n - 1) D (s\<lparr>sb_queue := splice_out i (sb_queue s)\<rparr>)"
    "2 \<le> sb_max s \<and> wants s lost_type \<longrightarrow> 0 < n"
proof -
  let ?Q = "splice_out i (sb_queue s)"
  note ok = assms(1) [unfolded sub_ok_def]
  have lost: "\<forall>p k m. Lost p k m \<in> set (sb_queue s) \<longrightarrow> sb_lost s = Some p" using ok unfolding marker_ok_def by blast
  note i = victim_Sent [OF assms(2) lost]
  obtain e where e: "sb_queue s ! i = Sent e" using i(2) by blast
  have keep: "x \<in> set (sb_queue s) \<Longrightarrow> x \<noteq> Sent e \<Longrightarrow> x \<in> set ?Q" for x
    using split_at [OF i(1)] e by (metis Un_iff set_ConsD set_append splice_out_def)
  note sub = splice_out_set [of i "sb_queue s"]
  have "in_sequence q D ?Q"
    using ok splice_out_sorted [OF i(1), of D] sub by (auto simp: in_sequence_def)
  moreover have "marker_ok (s\<lparr>sb_queue := ?Q\<rparr>)"
  proof (rule marker_ok_same [of s])
    show "marker_ok s" using ok by blast
    show "(\<exists>m. Lost p k m \<in> set (sb_queue (s\<lparr>sb_queue := ?Q\<rparr>))) \<longleftrightarrow> (\<exists>m. Lost p k m \<in> set (sb_queue s))" for p k
      using sub keep [of "Lost p k _"] by auto
  qed simp_all
  moreover have "room_ok (s\<lparr>sb_queue := ?Q\<rparr>)" using ok length_splice_out [OF i(1)] by (auto simp: room_ok_def)
  moreover have "events_in (sb_queue s) = 1 + events_in ?Q" using splice_out_events [OF i(1)] e by simp
  then have "loss_ok (n - 1) D (s\<lparr>sb_queue := ?Q\<rparr>)" "2 \<le> sb_max s \<and> wants s lost_type \<longrightarrow> 0 < n"
    using ok by (auto simp: loss_ok_def events_in_append)
  ultimately show "sub_ok q (n - 1) D (s\<lparr>sb_queue := ?Q\<rparr>)" "2 \<le> sb_max s \<and> wants s lost_type \<longrightarrow> 0 < n"
    by (simp_all add: sub_ok_def)
qed

lemma overflow_ok:
  assumes "sub_ok q n D s" "q < be_seq ev" "be_seq ev \<le> r" "sb_max s \<le> length (sb_queue s)"
  shows "sub_ok r n D (overflow ev s)"
proof (cases "isStreaming (be_type ev)")
  case True
  then show ?thesis using assms by (simp add: overflow_def sub_ok_later)
next
  case False
  note ok = assms(1) [unfolded sub_ok_def]
  show ?thesis
  proof (cases "victim s")
    case None
    have "sorted_wrt (<) (map item_seq (sb_queue s))" using ok by (simp add: in_sequence_def sorted_wrt_append)
    then have "\<not> 2 \<le> sb_max s" using victim_None [OF None] assms(4) by linarith
    moreover from this have "sub_ok r (n + 1) D (s\<lparr>sb_queue := sb_queue s @ [Sent ev]\<rparr>)"
      using push_ok [OF assms(1-3)] by simp
    ultimately show ?thesis using False None by (simp add: overflow_def sub_ok_def loss_ok_def)
  next
    case (Some i)
    let ?Q = "splice_out i (sb_queue s)"
    note D = drop_victim_ok [OF assms(1) Some]
    have "i < length (sb_queue s)" using victim_Sent(1) [OF Some] ok unfolding marker_ok_def by blast
    then have "2 \<le> sb_max s \<longrightarrow> length ?Q < sb_max s + (if sb_lost s = None then 0 else 1)"
      using ok length_splice_out [of i "sb_queue s"] by (auto simp: room_ok_def)
    then have "sub_ok r (n - 1 + 1) D (s\<lparr>sb_queue := ?Q @ [Sent ev]\<rparr>)"
      using push_ok [OF D(1), of ev r] assms(2,3) by simp
    then have "sub_ok r n D (s\<lparr>sb_queue := ?Q @ [Sent ev]\<rparr>)" using D(2) by (auto simp: sub_ok_def loss_ok_def)
    then show ?thesis using False Some by (simp add: overflow_def)
  qed
qed

lemma overflow_wants: "wants (overflow ev s) t = wants s t"
  by (simp add: overflow_def)

lemma offer_ok:
  assumes "sub_ok q n D s" "q < be_seq ev" "be_seq ev \<le> r"
  shows "sub_ok (fst (offer ev r s)) (n + (if wants s (be_type ev) then 1 else 0)) D (snd (offer ev r s))
    \<and> r \<le> fst (offer ev r s)"
proof -
  consider "\<not> wants s (be_type ev)" | "wants s (be_type ev)" "sb_max s \<le> length (sb_queue s)"
    | "wants s (be_type ev)" "length (sb_queue s) < sb_max s" by linarith
  then show ?thesis
  proof cases
    case 1
    then show ?thesis using sub_ok_later [OF assms(1), of r] assms(2,3) by (simp add: offer_def)
  next
    case 2
    then show ?thesis using noteLoss_ok [OF overflow_ok [OF assms 2(2)], of "be_session ev"]
      by (simp add: offer_def sub_ok_drain case_prod_beta)
  next
    case 3
    then show ?thesis using push_ok [OF assms] by (simp add: offer_def sub_ok_drain)
  qed
qed

text \<open>An offer adds the event at the end, or drops events.\<close>

lemma sents_count_loss [simp]: "sents (map (count_loss p) xs) = sents xs"
  by (induction xs rule: sents.induct) simp_all

lemma sents_splice_out: "subseq (sents (splice_out i xs)) (sents xs)"
proof -
  have "sents (splice_out i xs) = sents (take i xs) @ sents (drop (Suc i) xs)" by (simp add: splice_out_def)
  moreover have "subseq (sents (drop (Suc i) xs)) (sents (drop i xs))"
  proof (cases "drop i xs")
    case (Cons y ys)
    then have "drop (Suc i) xs = ys" by (metis drop_Suc list.sel(3) tl_drop)
    then show ?thesis using Cons by (cases y) auto
  qed (metis drop_Suc subseq_order.refl tl_drop list.sel(2))
  moreover have "sents xs = sents (take i xs) @ sents (drop i xs)"
    by (metis append_take_drop_id sents_append)
  ultimately show ?thesis by (simp add: list_emb_append_mono)
qed

lemma noteLoss_sents: "sents (sb_queue (snd (noteLoss k q s))) = sents (sb_queue s)"
  by (simp add: noteLoss_def split: option.split)

lemma overflow_sents: "subseq (sents (sb_queue (overflow ev s))) (sents (sb_queue s) @ [ev])"
  using sents_splice_out by (auto simp: overflow_def list_emb_append_mono split: option.split)

lemma offer_sents:
  "subseq (sents (sb_queue (snd (offer ev r s)))) (sents (sb_queue s) @ (if wants s (be_type ev) then [ev] else []))"
  using overflow_sents [of ev s] noteLoss_sents [of "be_session ev" r "overflow ev s"]
  by (auto simp: offer_def drain_def case_prod_beta)

lemma shift_ok:
  assumes "sub_ok q n D s" "shift_queue s = (Some x, s')"
  shows "sub_ok q n (D @ [x]) s'"
  unfolding sub_ok_def
proof (intro conjI)
  note ok = assms(1) [unfolded sub_ok_def]
  obtain xs where xs: "sb_queue s = x # xs" "s' = s\<lparr>sb_queue := xs, sb_lost := (if is_marker s x then None else sb_lost s)\<rparr>"
    using assms(2) by (auto simp: shift_queue_def split: list.splits)
  have lost: "\<And>p k m. Lost p k m \<in> set (x # xs) \<Longrightarrow> sb_lost s = Some p"
    and has: "\<And>p. sb_lost s = Some p \<Longrightarrow> wants s lost_type \<and> (\<exists>k m. Lost p k m \<in> set (x # xs))"
    using ok unfolding marker_ok_def xs(1) by blast+
  have sorted: "sorted_wrt (<) (map item_seq (x # xs))" using ok xs(1) by (simp add: in_sequence_def sorted_wrt_append)
  show "in_sequence q (D @ [x]) (sb_queue s')" using ok xs by (simp add: in_sequence_def)
  show "marker_ok s'"
  proof (cases "is_marker s x")
    case True
    then have "Lost p k m \<notin> set xs" for p k m
      using lost [of p k m] sorted by (fastforce simp: is_marker_def split: option.splits)
    then show ?thesis using True xs(2) by (simp add: marker_ok_def)
  next
    case False
    then have "sb_lost s = Some p \<Longrightarrow> x \<noteq> Lost p k m" for p k m by (auto simp: is_marker_def)
    then have "\<And>p. sb_lost s = Some p \<Longrightarrow> \<exists>k m. Lost p k m \<in> set xs" using has by fastforce
    moreover have "sb_queue s' = xs" "sb_lost s' = sb_lost s" "wants s' lost_type = wants s lost_type" using False xs(2) by simp_all
    ultimately show ?thesis using lost has unfolding marker_ok_def by (metis list.set_intros(2))
  qed
  show "room_ok s'" using ok xs by (auto simp: room_ok_def split: if_splits)
  show "loss_ok n (D @ [x]) s'" using ok xs by (simp add: loss_ok_def)
qed

section \<open>The bus over time\<close>

text \<open>What each subscriber has been given, and the events it was offered and wanted.\<close>

record bus_system =
  bs_bus :: bus
  bs_given :: "(nat \<times> item) list"
  bs_offered :: "nat \<Rightarrow> bus_event list"

definition bus_start :: bus_system where
  "bus_start = \<lparr>bs_bus = new_bus, bs_given = [], bs_offered = (\<lambda>_. [])\<rparr>"

definition replace_sub :: "sub \<Rightarrow> bus \<Rightarrow> bus" where
  "replace_sub s B = B\<lparr>bu_subs := map (\<lambda>x. if sb_name x = sb_name s then s else x) (bu_subs B)\<rparr>"

inductive bus_step :: "bus_system \<Rightarrow> bus_system \<Rightarrow> bool" where
  emitted: "emit t d session (bs_bus S) = (ev, seen, B) \<Longrightarrow>
    bus_step S (S\<lparr>bs_bus := B,
      bs_offered := (\<lambda>n. bs_offered S n @ (if \<exists>s \<in> set (bu_subs (bs_bus S)). sb_name s = n \<and> wants s t then [ev] else []))\<rparr>)"
| subscribed: "name \<notin> sb_name ` set (bu_subs (bs_bus S)) \<Longrightarrow> name \<notin> fst ` set (bs_given S) \<Longrightarrow>
    sorted_wrt (<) (map be_seq replay) \<Longrightarrow> \<forall>ev \<in> set replay. be_seq ev \<le> bu_seq (bs_bus S) \<Longrightarrow>
    length replay \<le> (case maxQueue of Some n \<Rightarrow> n | None \<Rightarrow> 10000) \<Longrightarrow>
    bus_step S (S\<lparr>bs_bus := subscribe name maxQueue types replay (bs_bus S),
      bs_offered := (bs_offered S)(name := filter (\<lambda>ev. types = None \<or> be_type ev \<in> set (the types)) replay)\<rparr>)"
| unsubscribed: "bus_step S (S\<lparr>bs_bus := unsubscribe name (bs_bus S)\<rparr>)"
| captured: "bus_step S (S\<lparr>bs_bus := capture c (bs_bus S)\<rparr>)"
| uncaptured: "bus_step S (S\<lparr>bs_bus := uncapture c (bs_bus S)\<rparr>)"
| shifted: "s \<in> set (bu_subs (bs_bus S)) \<Longrightarrow> shift_queue s = (Some x, s') \<Longrightarrow>
    bus_step S (S\<lparr>bs_bus := replace_sub s' (bs_bus S), bs_given := bs_given S @ [(sb_name s, x)]\<rparr>)"
| drained: "s \<in> set (bu_subs (bs_bus S)) \<Longrightarrow> shift_queue s = (None, s') \<Longrightarrow>
    bus_step S (S\<lparr>bs_bus := replace_sub s' (bs_bus S)\<rparr>)"

inductive bus_reachable :: "bus_system \<Rightarrow> bool" where
  started: "bus_reachable bus_start"
| stepped: "bus_reachable S \<Longrightarrow> bus_step S T \<Longrightarrow> bus_reachable T"

definition given :: "bus_system \<Rightarrow> nat \<Rightarrow> item list" where
  "given S n = map snd (filter (\<lambda>g. fst g = n) (bs_given S))"

definition bus_ok :: "bus_system \<Rightarrow> bool" where
  "bus_ok S \<longleftrightarrow> distinct (map sb_name (bu_subs (bs_bus S)))
     \<and> (\<forall>s \<in> set (bu_subs (bs_bus S)). sub_ok (bu_seq (bs_bus S)) (length (bs_offered S (sb_name s))) (given S (sb_name s)) s
          \<and> subseq (sents (given S (sb_name s) @ sb_queue s)) (bs_offered S (sb_name s)))"

lemma offer_name [simp]: "sb_name (snd (offer ev r s)) = sb_name s"
  by (auto simp: offer_def noteLoss_def overflow_def drain_def Let_def case_prod_beta split: option.splits)

lemma offer_wants: "wants (snd (offer ev r s)) = wants s"
  by (rule ext) (auto simp: offer_def noteLoss_def overflow_def Let_def case_prod_beta split: option.splits)

lemma offer_all_ok:
  assumes "\<forall>s \<in> set ss. sub_ok q (n (sb_name s)) (D (sb_name s)) s" "q < be_seq ev" "be_seq ev \<le> r"
  shows "map sb_name (snd (offer_all ev r ss)) = map sb_name ss \<and> r \<le> fst (offer_all ev r ss)
    \<and> (\<forall>s \<in> set (snd (offer_all ev r ss)). \<exists>x \<in> set ss. sb_name x = sb_name s \<and>
         sub_ok (fst (offer_all ev r ss)) (n (sb_name s) + (if wants x (be_type ev) then 1 else 0)) (D (sb_name s)) s
         \<and> subseq (sents (sb_queue s)) (sents (sb_queue x) @ (if wants x (be_type ev) then [ev] else [])))"
  using assms
proof (induction ss arbitrary: r)
  case (Cons s ss)
  obtain r1 s1 where 1: "offer ev r s = (r1, s1)" by (cases "offer ev r s")
  obtain r2 ss1 where 2: "offer_all ev r1 ss = (r2, ss1)" by (cases "offer_all ev r1 ss")
  have s1: "sub_ok r1 (n (sb_name s) + (if wants s (be_type ev) then 1 else 0)) (D (sb_name s)) s1" "r \<le> r1"
    using offer_ok [of q "n (sb_name s)" "D (sb_name s)" s ev r] Cons.prems 1 by simp_all
  have name: "sb_name s1 = sb_name s" using offer_name [of ev r s] 1 by simp
  have IH: "map sb_name ss1 = map sb_name ss" "r1 \<le> r2" "\<forall>s \<in> set ss1. \<exists>x \<in> set ss. sb_name x = sb_name s \<and>
      sub_ok r2 (n (sb_name s) + (if wants x (be_type ev) then 1 else 0)) (D (sb_name s)) s
      \<and> subseq (sents (sb_queue s)) (sents (sb_queue x) @ (if wants x (be_type ev) then [ev] else []))"
    using Cons.IH [of r1] Cons.prems s1(2) 2 by simp_all
  have "sub_ok r2 (n (sb_name s1) + (if wants s (be_type ev) then 1 else 0)) (D (sb_name s1)) s1"
    using sub_ok_later [OF s1(1) IH(2)] name by simp
  moreover have "subseq (sents (sb_queue s1)) (sents (sb_queue s) @ (if wants s (be_type ev) then [ev] else []))"
    using offer_sents [of ev r s] 1 by simp
  ultimately show ?case using 1 2 IH s1(2) name by auto
qed simp

lemma bus_ok_emit:
  assumes "bus_ok S" "emit t d session (bs_bus S) = (ev, seen, B)"
  shows "bus_ok (S\<lparr>bs_bus := B,
      bs_offered := (\<lambda>n. bs_offered S n @ (if \<exists>s \<in> set (bu_subs (bs_bus S)). sb_name s = n \<and> wants s t then [ev] else []))\<rparr>)"
proof -
  let ?B = "bs_bus S"
  have ev: "ev = \<lparr>be_seq = bu_seq ?B + 1, be_type = t, be_session = session, be_data = d\<rparr>"
    and B: "B = ?B\<lparr>bu_seq := fst (offer_all ev (bu_seq ?B + 1) (bu_subs ?B)), bu_subs := snd (offer_all ev (bu_seq ?B + 1) (bu_subs ?B))\<rparr>"
    using assms(2) by (auto simp: emit_def Let_def case_prod_beta)
  have ok: "distinct (map sb_name (bu_subs ?B))"
    "\<forall>s \<in> set (bu_subs ?B). sub_ok (bu_seq ?B) (length (bs_offered S (sb_name s))) (given S (sb_name s)) s"
    "\<forall>s \<in> set (bu_subs ?B). subseq (sents (given S (sb_name s) @ sb_queue s)) (bs_offered S (sb_name s))"
    using assms(1) by (simp_all add: bus_ok_def)
  note O = offer_all_ok [of "bu_subs ?B" "bu_seq ?B" "\<lambda>n. length (bs_offered S n)" "given S" ev "bu_seq ?B + 1", OF ok(2)]
  have same: "(\<exists>s \<in> set (bu_subs ?B). sb_name s = sb_name x \<and> wants s t) \<longleftrightarrow> wants x t" if "x \<in> set (bu_subs ?B)" for x
    using that ok(1) by (metis distinct_map inj_onD)
  show ?thesis
    unfolding bus_ok_def
  proof (intro conjI [OF _ ballI])
    let ?S = "S\<lparr>bs_bus := B,
      bs_offered := (\<lambda>n. bs_offered S n @ (if \<exists>s \<in> set (bu_subs ?B). sb_name s = n \<and> wants s t then [ev] else []))\<rparr>"
    show "distinct (map sb_name (bu_subs (bs_bus ?S)))" using O ok(1) B ev by simp
    fix s assume "s \<in> set (bu_subs (bs_bus ?S))"
    then obtain x where "x \<in> set (bu_subs ?B)" "sb_name x = sb_name s"
      "sub_ok (bu_seq B) (length (bs_offered S (sb_name s)) + (if wants x (be_type ev) then 1 else 0)) (given S (sb_name s)) s"
      "subseq (sents (sb_queue s)) (sents (sb_queue x) @ (if wants x (be_type ev) then [ev] else []))"
      using O B ev by auto
    moreover from this have "subseq (sents (given S (sb_name s)) @ sents (sb_queue s))
        ((sents (given S (sb_name s)) @ sents (sb_queue x)) @ (if wants x (be_type ev) then [ev] else []))"
      unfolding append_assoc by (intro list_emb_append_mono subseq_order.refl)
    moreover have "subseq (sents (given S (sb_name s)) @ sents (sb_queue x)) (bs_offered S (sb_name s))"
      using ok(3) calculation(1,2) by fastforce
    then have "subseq ((sents (given S (sb_name s)) @ sents (sb_queue x)) @ (if wants x (be_type ev) then [ev] else []))
        (bs_offered S (sb_name s) @ (if wants x (be_type ev) then [ev] else []))"
      by (intro list_emb_append_mono subseq_order.refl)
    ultimately show "sub_ok (bu_seq (bs_bus ?S)) (length (bs_offered ?S (sb_name s))) (given ?S (sb_name s)) s
        \<and> subseq (sents (given ?S (sb_name s) @ sb_queue s)) (bs_offered ?S (sb_name s))"
      using same [of x] ev subseq_order.trans by (auto simp: given_def)
  qed
qed

lemma sub_ok_fresh:
  assumes "sorted_wrt (<) (map be_seq replay)" "\<forall>ev \<in> set replay. be_seq ev \<le> q" "length replay \<le> m"
  shows "sub_ok q (length (filter P replay)) []
    \<lparr>sb_name = name, sb_queue = map Sent (filter P replay), sb_max = m, sb_types = types, sb_draining = dr, sb_lost = None\<rparr>"
  unfolding sub_ok_def
proof (intro conjI)
  let ?s = "\<lparr>sb_name = name, sb_queue = map Sent (filter P replay), sb_max = m, sb_types = types, sb_draining = dr, sb_lost = None\<rparr>"
  have "map item_seq (map Sent (filter P replay)) = map be_seq (filter P replay)" by simp
  then show "in_sequence q [] (sb_queue ?s)"
    using assms(1,2) unfolding in_sequence_def
    by (auto simp: sorted_wrt_map intro: sorted_wrt_filter)
  show "marker_ok ?s" by (auto simp: marker_ok_def)
  show "room_ok ?s" using assms(3) length_filter_le [of P replay] by (simp add: room_ok_def del: length_filter_le)
  have "events_in (map Sent xs) = length xs" for xs by (induction xs) (simp_all add: events_in_def)
  then show "loss_ok (length (filter P replay)) [] ?s" by (simp add: loss_ok_def)
qed

lemma replace_sub_names [simp]: "map sb_name (bu_subs (replace_sub s B)) = map sb_name (bu_subs B)"
  by (auto simp: replace_sub_def)

lemma bus_ok_step: "bus_step S T \<Longrightarrow> bus_ok S \<Longrightarrow> bus_ok T"
proof (induction rule: bus_step.induct)
  case (emitted t d session S ev seen B)
  then show ?case by (intro bus_ok_emit)
next
  case (subscribed name S replay maxQueue types)
  let ?m = "case maxQueue of Some n \<Rightarrow> n | None \<Rightarrow> 10000"
  let ?P = "\<lambda>ev. types = None \<or> be_type ev \<in> set (the types)"
  have P: "(\<lambda>ev. wants \<lparr>sb_name = name, sb_queue = [], sb_max = ?m, sb_types = types, sb_draining = False, sb_lost = None\<rparr>
      (be_type ev)) = ?P" by (auto simp: wants_def fun_eq_iff split: option.splits)
  let ?dr = "filter ?P replay \<noteq> []"
  have B: "subscribe name maxQueue types replay (bs_bus S) = (bs_bus S)\<lparr>bu_subs := bu_subs (bs_bus S) @
      [\<lparr>sb_name = name, sb_queue = map Sent (filter ?P replay), sb_max = ?m, sb_types = types, sb_draining = ?dr, sb_lost = None\<rparr>]\<rparr>"
    unfolding subscribe_def Let_def P by (simp add: drain_def)
  have "given S name = []" using subscribed.hyps(2) by (force simp: given_def filter_empty_conv)
  moreover have "sb_name s \<noteq> name" if "s \<in> set (bu_subs (bs_bus S))" for s using subscribed.hyps(1) that by blast
  ultimately show ?case
    using subscribed.prems subscribed.hyps(1) sub_ok_fresh [OF subscribed.hyps(3-5), of ?P name types ?dr] unfolding B
    by (auto simp: bus_ok_def given_def)
next
  case (shifted s S x s')
  have name: "sb_name s' = sb_name s" using shifted.hyps(2) by (auto simp: shift_queue_def split: list.splits)
  have ok: "sub_ok (bu_seq (bs_bus S)) (length (bs_offered S (sb_name s))) (given S (sb_name s) @ [x]) s'"
    using shifted by (intro shift_ok) (auto simp: bus_ok_def)
  have "(given S (sb_name s) @ [x]) @ sb_queue s' = given S (sb_name s) @ sb_queue s"
    using shifted.hyps(2) by (auto simp: shift_queue_def split: list.splits)
  moreover have "subseq (sents (given S (sb_name s) @ sb_queue s)) (bs_offered S (sb_name s))"
    using shifted by (simp add: bus_ok_def)
  ultimately have which: "subseq (sents ((given S (sb_name s) @ [x]) @ sb_queue s')) (bs_offered S (sb_name s))"
    by (simp only:)
  show ?case
    unfolding bus_ok_def
  proof (intro conjI [OF _ ballI])
    let ?T = "S\<lparr>bs_bus := replace_sub s' (bs_bus S), bs_given := bs_given S @ [(sb_name s, x)]\<rparr>"
    show "distinct (map sb_name (bu_subs (bs_bus ?T)))" using shifted.prems by (simp add: bus_ok_def)
    fix y assume "y \<in> set (bu_subs (bs_bus ?T))"
    then consider "y = s'" | "y \<in> set (bu_subs (bs_bus S))" "sb_name y \<noteq> sb_name s" by (auto simp: replace_sub_def name)
    then show "sub_ok (bu_seq (bs_bus ?T)) (length (bs_offered ?T (sb_name y))) (given ?T (sb_name y)) y
        \<and> subseq (sents (given ?T (sb_name y) @ sb_queue y)) (bs_offered ?T (sb_name y))"
      using ok which name shifted.prems by cases (auto simp: given_def replace_sub_def bus_ok_def)
  qed
next
  case (drained s S s')
  have s': "s' = s\<lparr>sb_draining := False\<rparr>" using drained.hyps(2) by (auto simp: shift_queue_def split: list.splits)
  have "drain s' = drain s" by (simp add: s' drain_def)
  then have "sub_ok q n D s' = sub_ok q n D s" for q n D using sub_ok_drain by metis
  moreover have "sb_queue s' = sb_queue s" by (simp add: s')
  moreover have "sb_name s' = sb_name s" "bu_seq (replace_sub s' (bs_bus S)) = bu_seq (bs_bus S)"
    by (simp_all add: s' replace_sub_def)
  ultimately show ?case using drained.prems drained.hyps(1)
    by (simp add: bus_ok_def given_def) (auto simp: replace_sub_def)
qed (auto simp: bus_ok_def unsubscribe_def capture_def uncapture_def given_def distinct_map_filter)

lemma bus_reachable_ok: "bus_reachable S \<Longrightarrow> bus_ok S"
proof (induction rule: bus_reachable.induct)
  case started
  show ?case by (simp add: bus_ok_def bus_start_def new_bus_def)
qed (rule bus_ok_step)

lemma lost_count_none: "\<forall>p k n. Lost p k n \<notin> set xs \<Longrightarrow> lost_count xs = 0"
  by (induction xs rule: sents.induct) auto


text \<open>
  A queue of one that holds only its marker drops nothing for the next event, and yet counts it: the
  reason for the limit of two.
\<close>

lemma marker_alone_overcounts:
  assumes "\<not> isStreaming (be_type ev)" "wants s (be_type ev)" "wants s lost_type"
    "sb_lost s = Some p" "sb_queue s = [Lost p k n]" "sb_max s = 1"
  shows "sb_queue (snd (offer ev q s)) = [Lost p k (n + 1), Sent ev]"
proof -
  have "victim s = None"
    using assms(4,5) by (simp add: victim_def is_marker_def isStreaming_def lost_type_def js_simps)
  moreover have "wants (overflow ev s) lost_type" using assms(3) by (simp add: overflow_wants)
  ultimately show ?thesis
    using assms by (simp add: offer_def overflow_def noteLoss_def drain_def wants_def split_def)
qed

text \<open>A subscriber with two places that is not drained while four events are emitted.\<close>

definition one_sub :: bus_system where
  "one_sub = bus_start\<lparr>bs_bus := subscribe 0 (Some 2) None [] new_bus, bs_offered := (\<lambda>_. [])(0 := [])\<rparr>"

definition after_emit :: "jstring \<Rightarrow> bus_system \<Rightarrow> bus_system" where
  "after_emit t S =
     (let (ev, seen, B) = emit t JNull [] (bs_bus S)
      in S\<lparr>bs_bus := B,
           bs_offered := (\<lambda>n. bs_offered S n @ (if \<exists>s \<in> set (bu_subs (bs_bus S)). sb_name s = n \<and> wants s t then [ev] else []))\<rparr>)"

lemma after_emit_step: "bus_step S (after_emit t S)"
proof -
  obtain ev seen B where e: "emit t JNull [] (bs_bus S) = (ev, seen, B)" by (cases "emit t JNull [] (bs_bus S)")
  show ?thesis using bus_step.emitted [OF e] by (simp add: after_emit_def e)
qed

definition busy_bus :: bus_system where
  "busy_bus = after_emit (js ''d'') (after_emit (js ''c'') (after_emit (js ''message.delta'') (after_emit (js ''a'') one_sub)))"


end
