(* ===== verification/Interceptors.thy ===== *)
theory Interceptors
  imports Prelude "HOL-Library.Multiset"
begin

text \<open>
  Extensions that look at, change or stop what the agent does
  (\<open>packages/core/src/interceptors.ts\<close>): a registry of handlers in the order of their priority, and
  the pipeline that runs them. What a handler answers, whether it throws or is too late, and whether
  the turn was aborted before or while it ran are arguments; times and signals are not modelled.
\<close>

datatype point = ContextBuild | ToolBefore | ToolAfter | SystemBuild | CompactBefore

definition blocks_on_failure :: "point \<Rightarrow> bool" where
  "blocks_on_failure p \<longleftrightarrow> p = ToolBefore"

record handler_entry =
  he_handler :: nat
  he_priority :: int
  he_order :: nat
  he_timeoutMs :: int
  he_source :: jstring

record registry =
  rg_entries :: "point \<Rightarrow> handler_entry list"
  rg_order :: nat
  rg_defaultTimeoutMs :: int

definition new_registry :: "int option \<Rightarrow> registry" where
  "new_registry timeout = \<lparr>rg_entries = (\<lambda>_. []), rg_order = 0,
     rg_defaultTimeoutMs = (case timeout of Some t \<Rightarrow> t | None \<Rightarrow> 5000)\<rparr>"

text \<open>The list is kept in order of priority, then of registration; the handle is the order number.\<close>

definition goes_before :: "handler_entry \<Rightarrow> handler_entry \<Rightarrow> bool" where
  "goes_before a b \<longleftrightarrow> he_priority a < he_priority b \<or> (he_priority a = he_priority b \<and> he_order a \<le> he_order b)"

fun insert_entry :: "handler_entry \<Rightarrow> handler_entry list \<Rightarrow> handler_entry list" where
  "insert_entry e [] = [e]"
| "insert_entry e (x # xs) = (if goes_before e x then e # x # xs else x # insert_entry e xs)"

definition sort_entries :: "handler_entry list \<Rightarrow> handler_entry list" where
  "sort_entries xs = foldr insert_entry xs []"

definition add_handler ::
  "point \<Rightarrow> nat \<Rightarrow> int option \<Rightarrow> int option \<Rightarrow> jstring \<Rightarrow> registry \<Rightarrow> nat \<times> registry" where
  "add_handler p handler priority timeout source R =
     (let e = \<lparr>he_handler = handler, he_priority = (case priority of Some n \<Rightarrow> n | None \<Rightarrow> 0), he_order = rg_order R,
               he_timeoutMs = (case timeout of Some t \<Rightarrow> t | None \<Rightarrow> rg_defaultTimeoutMs R), he_source = source\<rparr>
      in (rg_order R, R\<lparr>rg_order := rg_order R + 1,
            rg_entries := (rg_entries R)(p := sort_entries (rg_entries R p @ [e]))\<rparr>))"

definition remove_handler :: "point \<Rightarrow> nat \<Rightarrow> registry \<Rightarrow> registry" where
  "remove_handler p k R = R\<lparr>rg_entries := (rg_entries R)(p := filter (\<lambda>e. he_order e \<noteq> k) (rg_entries R p))\<rparr>"

section \<open>Running\<close>

datatype 'v answer = Pass | Modify 'v | Block jstring | Ask jstring | Throws jstring

text \<open>Whether the turn is aborted before a handler, and while it runs.\<close>

record 'v response =
  rs_abortedBefore :: bool
  rs_abortedWithin :: bool
  rs_answer :: "'v answer"

datatype 'v outcome = Blocked jstring 'v | Through 'v "jstring list"

definition interrupted :: "point \<Rightarrow> 'v \<Rightarrow> 'v outcome" where
  "interrupted p v = (if blocks_on_failure p then Blocked (js ''aborted'') v else Through v [])"

text \<open>
  \<open>respond\<close> answers for an entry and the value it is given; \<open>content\<close> tells whether a modified
  result has content. Errors are reported with the source they come from.
\<close>

fun run_handlers ::
  "point \<Rightarrow> (handler_entry \<Rightarrow> 'v \<Rightarrow> 'v response) \<Rightarrow> ('v \<Rightarrow> bool) \<Rightarrow> handler_entry list \<Rightarrow> 'v \<Rightarrow> jstring list
     \<Rightarrow> (jstring \<times> jstring) list \<times> 'v outcome" where
  "run_handlers p respond content [] v asks = ([], Through v asks)"
| "run_handlers p respond content (e # es) v asks =
     (let r = respond e v in
      if rs_abortedBefore r then ([], interrupted p v)
      else case rs_answer r of
          Throws msg \<Rightarrow>
            if rs_abortedWithin r then ([], interrupted p v)
            else
              (let report = (he_source e, msg) in
               if blocks_on_failure p
               then ([report], Blocked (js ''interceptor from '' @ he_source e @ js '' failed: '' @ msg) v)
               else let (reports, x) = run_handlers p respond content es v asks in (report # reports, x))
        | Block why \<Rightarrow>
            if p = ToolAfter then run_handlers p respond content es v asks else ([], Blocked why v)
        | Modify v' \<Rightarrow>
            if p = ToolAfter \<and> \<not> content v' then
              (let (reports, x) = run_handlers p respond content es v asks
               in ((he_source e, js ''the modified result has no content; it was ignored'') # reports, x))
            else run_handlers p respond content es v' asks
        | Ask why \<Rightarrow> run_handlers p respond content es v (if p = ToolBefore then asks @ [why] else asks)
        | Pass \<Rightarrow> run_handlers p respond content es v asks)"

definition run_point ::
  "point \<Rightarrow> (handler_entry \<Rightarrow> 'v \<Rightarrow> 'v response) \<Rightarrow> ('v \<Rightarrow> bool) \<Rightarrow> 'v \<Rightarrow> registry
     \<Rightarrow> (jstring \<times> jstring) list \<times> 'v outcome" where
  "run_point p respond content v R = run_handlers p respond content (rg_entries R p) v []"

section \<open>Order\<close>

lemma insert_entry_set [simp]: "set (insert_entry e xs) = insert e (set xs)"
  by (induction xs) auto

lemma before_total: "goes_before a b \<or> goes_before b a"
  by (auto simp: goes_before_def)

lemma before_trans: "goes_before a b \<Longrightarrow> goes_before b c \<Longrightarrow> goes_before a c"
  by (auto simp: goes_before_def)

lemma insert_entry_sorted: "sorted_wrt goes_before xs \<Longrightarrow> sorted_wrt goes_before (insert_entry e xs)"
proof (induction xs)
  case (Cons x xs)
  then show ?case using before_total [of e x] before_trans [of e x] by auto
qed simp

lemma sort_entries_sorted: "sorted_wrt goes_before (sort_entries xs)" "set (sort_entries xs) = set xs"
  by (induction xs) (auto simp: sort_entries_def insert_entry_sorted)

section \<open>Nothing gets past a handler\<close>

text \<open>The value after handlers that all let it through.\<close>

fun passed :: "(handler_entry \<Rightarrow> 'v \<Rightarrow> 'v response) \<Rightarrow> handler_entry list \<Rightarrow> 'v \<Rightarrow> ('v \<times> jstring list) option" where
  "passed respond [] v = Some (v, [])"
| "passed respond (e # es) v =
     (if rs_abortedBefore (respond e v) then None
      else case rs_answer (respond e v) of
          Pass \<Rightarrow> passed respond es v
        | Modify v' \<Rightarrow> passed respond es v'
        | Ask why \<Rightarrow> map_option (\<lambda>(x, asks). (x, why # asks)) (passed respond es v)
        | _ \<Rightarrow> None)"

lemma run_handlers_through:
  "passed respond es v = Some (x, rest) \<Longrightarrow>
   snd (run_handlers ToolBefore respond content es v asks) = Through x (asks @ rest)"
  by (induction es arbitrary: v asks x rest)
    (auto simp: Let_def split: if_splits answer.splits)

lemma run_handlers_blocked:
  "passed respond es v = None \<Longrightarrow>
   \<exists>why x. snd (run_handlers ToolBefore respond content es v asks) = Blocked why x"
  by (induction es arbitrary: v asks)
    (auto simp: Let_def blocks_on_failure_def interrupted_def split: if_splits answer.splits)

section \<open>Every handler that is registered\<close>

text \<open>The calls of the extensions, in any order: \<open>Dispose\<close> is the call of what registering returned.\<close>

datatype registration = Register point nat "int option" "int option" jstring | Dispose point nat

fun registry_call :: "registration \<Rightarrow> registry \<Rightarrow> registry" where
  "registry_call (Register p h priority timeout source) R = snd (add_handler p h priority timeout source R)"
| "registry_call (Dispose p k) R = remove_handler p k R"

definition registry_calls :: "registration list \<Rightarrow> registry \<Rightarrow> registry" where
  "registry_calls cs R = foldl (\<lambda>R c. registry_call c R) R cs"

text \<open>The handlers of a point that were registered and not disposed of afterwards, in the order of the calls.\<close>

fun standing :: "point \<Rightarrow> int \<Rightarrow> nat \<Rightarrow> registration list \<Rightarrow> handler_entry list" where
  "standing p d n [] = []"
| "standing p d n (Register q h priority timeout source # cs) =
     (if q = p \<and> Dispose p n \<notin> set cs
      then [\<lparr>he_handler = h, he_priority = (case priority of Some k \<Rightarrow> k | None \<Rightarrow> 0), he_order = n,
             he_timeoutMs = (case timeout of Some t \<Rightarrow> t | None \<Rightarrow> d), he_source = source\<rparr>] else [])
     @ standing p d (n + 1) cs"
| "standing p d n (Dispose q k # cs) = standing p d n cs"

lemma insert_entry_mset [simp]: "mset (insert_entry e xs) = add_mset e (mset xs)"
  by (induction xs) auto

lemma sort_entries_mset [simp]: "mset (sort_entries xs) = mset xs"
  by (induction xs) (auto simp: sort_entries_def)

lemma registry_calls_simps [simp]:
  "registry_calls [] R = R" "registry_calls (c # cs) R = registry_calls cs (registry_call c R)"
  by (simp_all add: registry_calls_def)

lemma mset_filter_sorted: "mset (filter P (sort_entries xs)) = mset (filter P xs)"
  by (simp add: mset_filter)

lemma registry_calls_mset:
  "mset (rg_entries (registry_calls cs R) p) =
     mset (filter (\<lambda>e. Dispose p (he_order e) \<notin> set cs) (rg_entries R p)) + mset (standing p (rg_defaultTimeoutMs R) (rg_order R) cs)"
proof (induction cs arbitrary: R)
  case Nil
  then show ?case by simp
next
  case (Cons c cs)
  show ?case
  proof (cases c)
    case (Register q h priority timeout source)
    then show ?thesis
      by (simp add: Cons.IH add_handler_def Let_def mset_filter_sorted)
  next
    case (Dispose q k)
    have "filter (\<lambda>e. Dispose p (he_order e) \<notin> set cs) (filter (\<lambda>e. he_order e \<noteq> k) (rg_entries R p))
        = filter (\<lambda>e. Dispose p (he_order e) \<notin> set (Dispose p k # cs)) (rg_entries R p)"
      by (auto simp: filter_filter intro: filter_cong)
    then show ?thesis
      using Dispose by (cases "q = p") (simp_all add: Cons.IH remove_handler_def)
  qed
qed

lemma registry_calls_sorted:
  "sorted_wrt goes_before (rg_entries R p) \<Longrightarrow> sorted_wrt goes_before (rg_entries (registry_calls cs R) p)"
proof (induction cs arbitrary: R)
  case (Cons c cs)
  have "sorted_wrt goes_before (rg_entries (registry_call c R) p)"
    using Cons.prems sort_entries_sorted(1)
    by (cases c) (auto simp: add_handler_def remove_handler_def Let_def sorted_wrt_filter)
  then show ?case using Cons.IH by simp
qed simp

text \<open>
  C10. A tool call gets past the handlers only when every one of them let it: whatever was registered and disposed
  of before, the handlers that run are those registered and not disposed of, each once, in the order of priority
  and registration; the call goes through exactly when each of them ran in time, threw nothing and did not
  block, nobody interrupted the turn, and then with every change and every question of theirs, in
  that order; in any other case it is blocked.
\<close>

theorem tool_call_fails_closed:
  assumes "R = registry_calls calls (new_registry timeout)" "run_point ToolBefore respond content v R = (reports, result)"
  shows "sorted_wrt goes_before (rg_entries R ToolBefore)
    \<and> mset (rg_entries R ToolBefore) = mset (standing ToolBefore (rg_defaultTimeoutMs (new_registry timeout)) 0 calls)
    \<and> (case passed respond (rg_entries R ToolBefore) v of
         Some (x, asks) \<Rightarrow> result = Through x asks
       | None \<Rightarrow> \<exists>why x. result = Blocked why x)"
proof (intro conjI)
  show "sorted_wrt goes_before (rg_entries R ToolBefore)"
    unfolding assms(1) by (rule registry_calls_sorted) (simp add: new_registry_def)
  show "mset (rg_entries R ToolBefore) = mset (standing ToolBefore (rg_defaultTimeoutMs (new_registry timeout)) 0 calls)"
    unfolding assms(1) registry_calls_mset by (simp add: new_registry_def)
  show "case passed respond (rg_entries R ToolBefore) v of
      Some (x, asks) \<Rightarrow> result = Through x asks | None \<Rightarrow> \<exists>why x. result = Blocked why x"
    using assms(2) run_handlers_through [of respond "rg_entries R ToolBefore" v _ _ content "[]"]
      run_handlers_blocked [of respond "rg_entries R ToolBefore" v content "[]"]
    by (auto simp: run_point_def split: option.splits)
qed

definition answers :: "handler_entry \<Rightarrow> jstring \<Rightarrow> jstring response" where
  "answers e v = \<lparr>rs_abortedBefore = False, rs_abortedWithin = False,
     rs_answer = (if he_handler e = 1 then Throws (js ''no'') else Ask (js ''sure?''))\<rparr>"

text \<open>Three handlers, one of them disposed of; the last one has priority.\<close>

definition sample_calls :: "registration list" where
  "sample_calls = [Register ToolBefore 0 None None (js ''a''), Register ToolBefore 1 None None (js ''b''),
     Dispose ToolBefore 1, Register ToolBefore 2 (Some (-1)) (Some 9) (js ''c'')]"

theorem tool_call_fails_closed_witness:
  "map he_handler (rg_entries (registry_calls sample_calls (new_registry None)) ToolBefore) = [2, 0]
   \<and> snd (run_point ToolBefore answers (\<lambda>_. True) (js ''ls'') (registry_calls sample_calls (new_registry None)))
       = Through (js ''ls'') [js ''sure?'', js ''sure?'']"
proof -
  have e: "map he_handler (rg_entries (registry_calls sample_calls (new_registry None)) ToolBefore) = [2, 0]"
    by code_simp
  have p: "passed answers (rg_entries (registry_calls sample_calls (new_registry None)) ToolBefore) (js ''ls'')
      = Some (js ''ls'', [js ''sure?'', js ''sure?''])"
    by code_simp
  show ?thesis
    using tool_call_fails_closed [OF refl surjective_pairing, of sample_calls None answers "\<lambda>_. True" "js ''ls''"] e
    unfolding p by simp
qed

end
