(* ===== verification/Semver.thy ===== *)
theory Semver
  imports Prelude "HOL-Library.List_Lexorder"
begin

text \<open>
  Versions of the update channel (\<open>packages/cli/src/update/semver.ts\<close>): what is a version, which of
  two is newer, and which update is only a patch. The regular expression of \<open>parseVersion\<close> is
  written as the reader it stands for. Comparing texts is by UTF-16 code units.
\<close>

record parsed_version =
  pv_major :: nat
  pv_minor :: nat
  pv_patch :: nat
  pv_prerelease :: "jstring list"

definition digits_value :: "jstring \<Rightarrow> nat" where
  "digits_value s = foldl (\<lambda>n c. 10 * n + nat (c - 48)) 0 s"

text \<open>\<open>0|[1-9]\d*\<close>.\<close>

definition plain_number :: "jstring \<Rightarrow> bool" where
  "plain_number s \<longleftrightarrow> s \<noteq> [] \<and> list_all is_digit s \<and> (hd s = ch CHR ''0'' \<longrightarrow> length s = 1)"

text \<open>\<open>[0-9A-Za-z-]+\<close>, and \<open>^0\d+$\<close>.\<close>

definition ident_word :: "jstring \<Rightarrow> bool" where
  "ident_word s \<longleftrightarrow> s \<noteq> [] \<and> list_all (\<lambda>c. is_alnum c \<or> c = ch CHR ''-'') s"

definition zero_padded :: "jstring \<Rightarrow> bool" where
  "zero_padded s \<longleftrightarrow> 2 \<le> length s \<and> hd s = ch CHR ''0'' \<and> list_all is_digit s"

text \<open>
  What follows the three numbers: the identifiers after a hyphen, then those after a plus sign. A
  plus sign is in no identifier, so the first one ends the pre-release.
\<close>

definition build_ok :: "jstring \<Rightarrow> bool" where
  "build_ok s = (case s of [] \<Rightarrow> True | c # b \<Rightarrow> c = ch CHR ''+'' \<and> list_all ident_word (split_by is_dot b))"

definition suffix_of :: "jstring \<Rightarrow> jstring list option" where
  "suffix_of s =
     (case s of
        c # r \<Rightarrow>
          if c = ch CHR ''-'' then
            (let ids = split_by is_dot (takeWhile (\<lambda>c. c \<noteq> ch CHR ''+'') r)
             in if list_all ident_word ids \<and> build_ok (dropWhile (\<lambda>c. c \<noteq> ch CHR ''+'') r) then Some ids else None)
          else if build_ok s then Some [] else None
      | [] \<Rightarrow> Some [])"

definition MAX_SAFE :: int where "MAX_SAFE = 9007199254740991"

definition parseVersion :: "jstring \<Rightarrow> parsed_version option" where
  "parseVersion value =
     (let numbers = split_by is_dot (takeWhile (\<lambda>c. is_digit c \<or> is_dot c) value)
      in case suffix_of (dropWhile (\<lambda>c. is_digit c \<or> is_dot c) value) of
           None \<Rightarrow> None
         | Some ids \<Rightarrow>
             if length numbers = 3 \<and> list_all plain_number numbers
                \<and> list_all (\<lambda>n. int (digits_value n) \<le> MAX_SAFE) numbers \<and> \<not> list_ex zero_padded ids
             then Some \<lparr>pv_major = digits_value (numbers ! 0), pv_minor = digits_value (numbers ! 1),
                        pv_patch = digits_value (numbers ! 2), pv_prerelease = ids\<rparr>
             else None)"

section \<open>Comparing\<close>

definition is_numeric :: "jstring \<Rightarrow> bool" where
  "is_numeric s \<longleftrightarrow> s \<noteq> [] \<and> list_all is_digit s"

definition cmp_ident :: "jstring \<Rightarrow> jstring \<Rightarrow> int" where
  "cmp_ident x y =
     (if x = y then 0
      else if is_numeric x \<and> is_numeric y then (if digits_value x > digits_value y then 1 else -1)
      else if is_numeric x \<noteq> is_numeric y then (if is_numeric x then -1 else 1)
      else if x > y then 1 else -1)"

text \<open>The loop over both lists: the first pair that differs decides, then the shorter list is less.\<close>

fun cmp_lists :: "('a \<Rightarrow> 'a \<Rightarrow> int) \<Rightarrow> 'a list \<Rightarrow> 'a list \<Rightarrow> int" where
  "cmp_lists cmp [] [] = 0"
| "cmp_lists cmp [] (_ # _) = -1"
| "cmp_lists cmp (_ # _) [] = 1"
| "cmp_lists cmp (x # xs) (y # ys) = (if cmp x y = 0 then cmp_lists cmp xs ys else cmp x y)"

definition cmp_parsed :: "parsed_version \<Rightarrow> parsed_version \<Rightarrow> int" where
  "cmp_parsed v w =
     (if pv_major v \<noteq> pv_major w then (if pv_major v > pv_major w then 1 else -1)
      else if pv_minor v \<noteq> pv_minor w then (if pv_minor v > pv_minor w then 1 else -1)
      else if pv_patch v \<noteq> pv_patch w then (if pv_patch v > pv_patch w then 1 else -1)
      else if pv_prerelease v = [] \<or> pv_prerelease w = [] then
        (if length (pv_prerelease v) = length (pv_prerelease w) then 0 else if pv_prerelease v \<noteq> [] then -1 else 1)
      else cmp_lists cmp_ident (pv_prerelease v) (pv_prerelease w))"

datatype version_error = InvalidVersion

definition compareVersions :: "jstring \<Rightarrow> jstring \<Rightarrow> version_error + int" where
  "compareVersions a b =
     (case (parseVersion a, parseVersion b) of
        (Some v, Some w) \<Rightarrow> Inr (cmp_parsed v w)
      | _ \<Rightarrow> Inl InvalidVersion)"

definition isPatchUpdate :: "jstring \<Rightarrow> jstring \<Rightarrow> bool" where
  "isPatchUpdate current new =
     (case (parseVersion current, parseVersion new) of
        (Some a, Some b) \<Rightarrow> pv_major a = pv_major b \<and> pv_minor a = pv_minor b
          \<and> (case compareVersions new current of Inr n \<Rightarrow> n > 0 | Inl _ \<Rightarrow> False)
      | _ \<Rightarrow> False)"

definition isReleaseVersion :: "jstring \<Rightarrow> bool" where
  "isReleaseVersion version =
     (case parseVersion version of
        Some v \<Rightarrow> \<not> (pv_major v = 0 \<and> pv_minor v = 0 \<and> pv_patch v = 0)
          \<and> \<not> list_ex (\<lambda>part. to_lower part = js ''dev'') (pv_prerelease v)
      | None \<Rightarrow> False)"

section \<open>Comparisons as orders\<close>

text \<open>A comparison that orders the values of a kind totally.\<close>

locale comparison =
  fixes cmp :: "'a \<Rightarrow> 'a \<Rightarrow> int" and ok :: "'a \<Rightarrow> bool"
  assumes zero: "ok x \<Longrightarrow> ok y \<Longrightarrow> cmp x y = 0 \<longleftrightarrow> x = y"
    and flip: "ok x \<Longrightarrow> ok y \<Longrightarrow> cmp y x = - cmp x y"
    and trans: "ok x \<Longrightarrow> ok y \<Longrightarrow> ok z \<Longrightarrow> cmp x y > 0 \<Longrightarrow> cmp y z > 0 \<Longrightarrow> cmp x z > 0"
begin

lemma lists_zero: "list_all ok xs \<Longrightarrow> list_all ok ys \<Longrightarrow> cmp_lists cmp xs ys = 0 \<longleftrightarrow> xs = ys"
proof (induction xs arbitrary: ys)
  case Nil
  then show ?case by (cases ys) simp_all
next
  case (Cons x xs)
  then show ?case using zero by (cases ys) auto
qed

lemma lists_flip: "list_all ok xs \<Longrightarrow> list_all ok ys \<Longrightarrow> cmp_lists cmp ys xs = - cmp_lists cmp xs ys"
proof (induction xs arbitrary: ys)
  case Nil
  then show ?case by (cases ys) simp_all
next
  case (Cons x xs)
  show ?case
  proof (cases ys)
    case (Cons y ys')
    have "cmp y x = - cmp x y" by (rule flip) (use Cons Cons.prems in simp_all)
    then show ?thesis using Cons Cons.prems Cons.IH [of ys'] by simp
  qed simp
qed

lemma lists_trans:
  "list_all ok xs \<Longrightarrow> list_all ok ys \<Longrightarrow> list_all ok zs \<Longrightarrow> cmp_lists cmp xs ys > 0 \<Longrightarrow> cmp_lists cmp ys zs > 0
   \<Longrightarrow> cmp_lists cmp xs zs > 0"
proof (induction xs arbitrary: ys zs)
  case Nil
  then show ?case by (cases ys) auto
next
  case (Cons x xs)
  show ?case
  proof (cases zs)
    case (Cons z zs')
    obtain y ys' where ys: "ys = y # ys'" using Cons.prems(5) Cons by (cases ys) auto
    have ok: "ok x" "ok y" "ok z" using Cons.prems Cons ys by auto
    consider "cmp x y > 0" "cmp y z > 0" | "x = y" | "y = z" "cmp x y > 0"
      using Cons.prems(4,5) Cons ys zero [OF ok(1,2)] zero [OF ok(2,3)] by (auto split: if_splits)
    then show ?thesis
      using Cons.prems Cons ys trans [OF ok] Cons.IH [of ys' zs'] zero [OF ok(2,2)] zero [OF ok(1,2)] zero [OF ok(2,3)]
      by cases (auto split: if_splits)
  qed simp
qed

end

section \<open>Identifiers\<close>

definition ident_ok :: "jstring \<Rightarrow> bool" where
  "ident_ok s \<longleftrightarrow> ident_word s \<and> \<not> zero_padded s"

lemma digits_value_snoc: "digits_value (s @ [c]) = 10 * digits_value s + nat (c - 48)"
  by (simp add: digits_value_def)

lemma foldl_ge: "0 < n \<Longrightarrow> 0 < foldl (\<lambda>n c. 10 * n + nat (c - (48::int))) n s"
  by (induction s arbitrary: n) auto

lemma digits_value_pos:
  assumes "s \<noteq> []" "list_all is_digit s" "hd s \<noteq> 48"
  shows "0 < digits_value s"
proof -
  obtain c r where s: "s = c # r" using assms(1) by (cases s) auto
  then have "0 < nat (c - 48)" using assms by (auto simp: is_digit_def)
  then show ?thesis using foldl_ge [of "nat (c - 48)" r] s by (simp add: digits_value_def)
qed

lemma digits_value_inj:
  assumes "digits_value x = digits_value y" "list_all is_digit x" "list_all is_digit y"
    "x \<noteq> []" "y \<noteq> []" "hd x \<noteq> 48 \<or> length x = 1" "hd y \<noteq> 48 \<or> length y = 1"
  shows "x = y"
  using assms
proof (induction x arbitrary: y rule: rev_induct)
  case (snoc c s)
  obtain d t where y: "y = t @ [d]" using snoc.prems(5) by (metis append_butlast_last_id)
  have dig: "is_digit c" "is_digit d" using snoc.prems y by auto
  have less: "nat (c - 48) < 10" "nat (d - 48) < 10" using dig by (auto simp: is_digit_def)
  have eq: "10 * digits_value s + nat (c - 48) = 10 * digits_value t + nat (d - 48)"
    using snoc.prems(1) y by (simp add: digits_value_snoc)
  have cd: "nat (c - 48) = nat (d - 48)" using arg_cong [OF eq, of "\<lambda>n. n mod 10"] less by simp
  then have st: "digits_value s = digits_value t" using eq by simp
  have c: "c = d" using cd dig by (auto simp: is_digit_def)
  have lead: "hd s \<noteq> 48" if "s \<noteq> []" using snoc.prems(6) that by (cases s) auto
  have lead': "hd t \<noteq> 48" if "t \<noteq> []" using snoc.prems(7) y that by (cases t) auto
  have digs: "list_all is_digit s" "list_all is_digit t" using snoc.prems y by auto
  have nil: "s = [] \<longleftrightarrow> t = []"
    using st digits_value_pos [OF _ digs(1)] digits_value_pos [OF _ digs(2)] lead lead'
    by (cases "s = []"; cases "t = []") (auto simp: digits_value_def)
  show ?case
    using snoc.IH [OF st digs] nil lead lead' c y by (cases "s = []") auto
qed simp

lemma numeric_inj:
  assumes "ident_ok x" "ident_ok y" "is_numeric x" "is_numeric y" "digits_value x = digits_value y"
  shows "x = y"
proof -
  have "hd s \<noteq> 48 \<or> length s = 1" if "ident_ok s" "is_numeric s" for s
    using that by (cases s) (auto simp: ident_ok_def zero_padded_def is_numeric_def Suc_le_eq)
  then show ?thesis using assms digits_value_inj [of x y] by (auto simp: is_numeric_def)
qed

interpretation idents: comparison cmp_ident ident_ok
proof
  fix x y z
  assume ok: "ident_ok x" "ident_ok y"
  show "cmp_ident x y = 0 \<longleftrightarrow> x = y" by (simp add: cmp_ident_def)
  show "cmp_ident y x = - cmp_ident x y"
    using numeric_inj [OF ok] by (auto simp: cmp_ident_def)
  assume "ident_ok z" "cmp_ident x y > 0" "cmp_ident y z > 0"
  then show "cmp_ident x z > 0" using ok by (auto simp: cmp_ident_def split: if_splits)
qed

section \<open>Versions\<close>

definition version_ok :: "parsed_version \<Rightarrow> bool" where
  "version_ok v \<longleftrightarrow> list_all ident_ok (pv_prerelease v)"

lemma cmp_lists_ends: "xs \<noteq> [] \<Longrightarrow> cmp_lists cmp xs [] = 1" "ys \<noteq> [] \<Longrightarrow> cmp_lists cmp [] ys = -1"
  by (cases xs; simp) (cases ys; simp)

lemma parsed_eq_iff:
  "v = w \<longleftrightarrow> pv_major v = pv_major w \<and> pv_minor v = pv_minor w \<and> pv_patch v = pv_patch w
     \<and> pv_prerelease v = pv_prerelease (w :: parsed_version)"
  by (cases v; cases w) auto

interpretation versions: comparison cmp_parsed version_ok
proof
  fix x y z
  assume ok: "version_ok x" "version_ok y"
  have lok: "list_all ident_ok (pv_prerelease x)" "list_all ident_ok (pv_prerelease y)"
    using ok by (auto simp: version_ok_def)
  show "cmp_parsed x y = 0 \<longleftrightarrow> x = y"
    using idents.lists_zero [OF lok] by (auto simp: cmp_parsed_def parsed_eq_iff)
  show "cmp_parsed y x = - cmp_parsed x y"
    using idents.lists_flip [OF lok] by (auto simp: cmp_parsed_def)
  assume z: "version_ok z" and "cmp_parsed x y > 0" "cmp_parsed y z > 0"
  then show "cmp_parsed x z > 0"
    using idents.lists_trans [OF lok, of "pv_prerelease z"] z
    by (auto simp: cmp_parsed_def version_ok_def split: if_splits)
qed

lemma parsed_ok: "parseVersion s = Some v \<Longrightarrow> version_ok v"
  by (auto simp: parseVersion_def suffix_of_def version_ok_def Let_def ident_ok_def list_all_iff list_ex_iff
      split: option.splits list.splits if_splits)

lemma cmp_ident_range: "cmp_ident x y \<in> {-1, 0, 1}"
  by (simp add: cmp_ident_def)

lemma cmp_lists_range: "cmp_lists cmp_ident xs ys \<in> {-1, 0, 1}"
  by (induction cmp_ident xs ys rule: cmp_lists.induct) (use cmp_ident_range in auto)

section \<open>Precedence\<close>

text \<open>
  The precedence of semantic versions: numbers decide from the left; a pre-release goes before its release; of two
  pre-releases the first identifier that differs decides, and a list before a longer one that it begins.
  Numbers go by their value and before words, words by their characters.
\<close>

definition ident_precedes :: "jstring \<Rightarrow> jstring \<Rightarrow> bool" where
  "ident_precedes x y \<longleftrightarrow>
     (if is_numeric x \<and> is_numeric y then digits_value x < digits_value y
      else if is_numeric x \<or> is_numeric y then is_numeric x
      else x < y)"

definition version_numbers :: "parsed_version \<Rightarrow> nat list" where
  "version_numbers v = [pv_major v, pv_minor v, pv_patch v]"

definition precedes :: "parsed_version \<Rightarrow> parsed_version \<Rightarrow> bool" where
  "precedes v w \<longleftrightarrow>
     version_numbers v < version_numbers w
     \<or> version_numbers v = version_numbers w
       \<and> (if pv_prerelease w = [] then pv_prerelease v \<noteq> []
          else pv_prerelease v \<noteq> [] \<and> (pv_prerelease v, pv_prerelease w) \<in> lexord {(x, y). ident_precedes x y})"

lemma cmp_ident_precedes: "cmp_ident x y = 1 \<longleftrightarrow> ident_precedes y x"
  by (auto simp: cmp_ident_def ident_precedes_def)

lemma cmp_lists_precedes: "cmp_lists cmp_ident xs ys = 1 \<longleftrightarrow> (ys, xs) \<in> lexord {(x, y). ident_precedes x y}"
proof (induction cmp_ident xs ys rule: cmp_lists.induct)
  case (4 x xs y ys)
  have "cmp_ident x y = 0 \<longleftrightarrow> x = y" by (simp add: cmp_ident_def)
  moreover have "\<not> ident_precedes x x" by (simp add: ident_precedes_def)
  ultimately show ?case using 4 cmp_ident_precedes [of x y] by auto
qed auto

lemma cmp_parsed_precedes: "cmp_parsed v w = 1 \<longleftrightarrow> precedes w v"
  using cmp_lists_precedes [of "pv_prerelease v" "pv_prerelease w"]
  by (auto simp: cmp_parsed_def precedes_def version_numbers_def)

lemma cmp_parsed_range: "cmp_parsed x y \<in> {-1, 0, 1}"
  using cmp_lists_range [of "pv_prerelease x" "pv_prerelease y"] by (auto simp: cmp_parsed_def)

lemma cmp_parsed_cases:
  assumes "version_ok v" "version_ok w"
  shows "cmp_parsed v w = (if precedes w v then 1 else if v = w then 0 else -1)"
    "(v = w \<longrightarrow> \<not> precedes v w) \<and> (v \<noteq> w \<longrightarrow> precedes v w \<noteq> precedes w v)"
  using cmp_parsed_range [of v w] cmp_parsed_precedes [of v w] cmp_parsed_precedes [of w v]
    versions.zero [OF assms] versions.flip [OF assms] by auto

text \<open>
  C36. A version compares as newer exactly when the other one precedes it and as equal exactly when
  they differ only in build metadata; precedence orders versions totally, and a patch update is a
  newer version with the same major and minor number.
\<close>

theorem compareVersions_orders:
  assumes "parseVersion a = Some v" "parseVersion b = Some w" "parseVersion c = Some u"
  shows "compareVersions a b = Inr (if precedes w v then 1 else if v = w then 0 else -1)
    \<and> (isPatchUpdate b a \<longleftrightarrow> precedes w v \<and> pv_major v = pv_major w \<and> pv_minor v = pv_minor w)
    \<and> \<not> precedes v v \<and> (v \<noteq> w \<longrightarrow> precedes v w \<noteq> precedes w v)
    \<and> (precedes v w \<longrightarrow> precedes w u \<longrightarrow> precedes v u)"
proof -
  note ok = assms [THEN parsed_ok]
  have eq: "compareVersions a b = Inr (cmp_parsed v w)"
    using assms by (simp add: compareVersions_def)
  have "isPatchUpdate b a \<longleftrightarrow> cmp_parsed v w > 0 \<and> pv_major v = pv_major w \<and> pv_minor v = pv_minor w"
    using assms eq by (auto simp: isPatchUpdate_def)
  moreover have "cmp_parsed v w > 0 \<longleftrightarrow> precedes w v"
    using cmp_parsed_cases(1) [OF ok(1,2)] by simp
  moreover have "precedes v u" if "precedes v w" "precedes w u"
    using that versions.trans [OF ok(3,2,1)] cmp_parsed_precedes [of u w] cmp_parsed_precedes [of w v]
      cmp_parsed_precedes [of u v] cmp_parsed_range [of u v] by auto
  ultimately show ?thesis
    using eq cmp_parsed_cases [OF ok(1,2)] cmp_parsed_cases(2) [OF ok(1,1)] by simp
qed

theorem compareVersions_orders_witness:
  "compareVersions (js ''1.2.0-rc.10'') (js ''1.2.0-rc.9'') = Inr 1
   \<and> isPatchUpdate (js ''1.2.0-rc.9'') (js ''1.2.0-rc.10'')
   \<and> precedes \<lparr>pv_major = 1, pv_minor = 2, pv_patch = 0, pv_prerelease = [js ''rc'', js ''9'']\<rparr>
       \<lparr>pv_major = 1, pv_minor = 2, pv_patch = 0, pv_prerelease = []\<rparr>"
proof -
  let ?v9 = "\<lparr>pv_major = 1, pv_minor = 2, pv_patch = 0, pv_prerelease = [js ''rc'', js ''9'']\<rparr>"
  let ?v10 = "\<lparr>pv_major = 1, pv_minor = 2, pv_patch = 0, pv_prerelease = [js ''rc'', js ''10'']\<rparr>"
  let ?release = "\<lparr>pv_major = 1, pv_minor = 2, pv_patch = 0, pv_prerelease = []\<rparr>"
  have p: "parseVersion (js ''1.2.0-rc.9'') = Some ?v9" "parseVersion (js ''1.2.0-rc.10'') = Some ?v10"
    "parseVersion (js ''1.2.0+a'') = Some ?release"
    by code_simp+
  have n: "\<not> ident_precedes (js ''rc'') (js ''rc'')" "ident_precedes (js ''9'') (js ''10'')" by code_simp+
  then have "precedes ?v9 ?v10" by (simp add: precedes_def version_numbers_def)
  moreover have "precedes ?v10 ?release" by (simp add: precedes_def version_numbers_def)
  ultimately show ?thesis
    using compareVersions_orders [OF p(2,1,3)] compareVersions_orders [OF p] by auto
qed

end
