(* ===== verification/Numbers.thy ===== *)
theory Numbers
  imports Prelude
begin

text \<open>
  Numbers and their digits, decimal and hexadecimal, and the colon between groups of them: what the readers
  of addresses and of security descriptors share.
\<close>

definition hex_value :: "jstring \<Rightarrow> int" where
  "hex_value s = foldl (\<lambda>n c. 16 * n + hex_digit_value c) 0 s"

definition dec_value :: "jstring \<Rightarrow> int" where
  "dec_value s = foldl (\<lambda>n c. 10 * n + (c - 48)) 0 s"

text \<open>\<open>n.toString(16)\<close>.\<close>

fun hex_of :: "nat \<Rightarrow> jstring" where
  "hex_of n = (if n < 16 then [hex_digit (int n)] else hex_of (n div 16) @ [hex_digit (int (n mod 16))])"

declare hex_of.simps [simp del]

definition is_colon :: "cu \<Rightarrow> bool" where
  "is_colon c \<longleftrightarrow> c = ch CHR '':''"

lemma hex_of_writes: "hex_of n \<noteq> [] \<and> list_all is_hex (hex_of n) \<and> hex_value (hex_of n) = int n"
proof (induction n rule: hex_of.induct)
  case (1 n)
  show ?case
  proof (cases "n < 16")
    case True
    then show ?thesis using hex_digit_hex [of "int n"] by (simp add: hex_of.simps [of n] hex_value_def)
  next
    case False
    have "hex_value (hex_of (n div 16) @ [d]) = 16 * int (n div 16) + hex_digit_value d" for d
      using 1 [OF False] by (simp add: hex_value_def)
    then show ?thesis
      using False 1 [OF False] hex_digit_hex [of "int (n mod 16)"]
      by (simp add: hex_of.simps [of n]) (metis mult_div_mod_eq of_nat_add of_nat_mult of_nat_numeral)
  qed
qed

lemma digits_of_dec: "digits_of n \<noteq> [] \<and> list_all is_digit (digits_of n) \<and> dec_value (digits_of n) = int n"
proof (induction n rule: digits_of.induct)
  case (1 n)
  show ?case
  proof (cases "n < 10")
    case True
    then show ?thesis by (simp add: digits_of.simps [of n] dec_value_def is_digit_def)
  next
    case False
    have "dec_value (digits_of (n div 10) @ [48 + int (n mod 10)]) = 10 * int (n div 10) + int (n mod 10)"
      using 1 [OF False] by (simp add: dec_value_def)
    moreover have "n mod 10 \<le> 9 \<and> 10 * int (n div 10) + int (n mod 10) = int n" by presburger
    ultimately show ?thesis
      using False 1 [OF False] by (simp add: digits_of.simps [of n] is_digit_def)
  qed
qed

end
