(* ===== verification/Address.thy ===== *)
theory Address
  imports Numbers
begin

text \<open>
  Which addresses a web tool may connect to (\<open>packages/net/src/address.ts\<close>). \<open>isIP\<close> of node:net and
  the resolver are parameters. Numbers are integers; a \<open>NaN\<close> is \<open>None\<close>.
\<close>

unbundle bit_operations_syntax

text \<open>
  \<open>Number\<close> of a part of a dotted address: the parts it is asked about are digits, or have a bracket
  or a zone in them and are no number.
\<close>

definition number_of :: "jstring \<Rightarrow> int option" where
  "number_of s = (if s \<noteq> [] \<and> list_all is_digit s then Some (dec_value s) else None)"

text \<open>\<open>Number.parseInt(s, 16)\<close>: white space, a sign and \<open>0x\<close> are skipped, then as many digits as there are.\<close>

definition strip_0x :: "jstring \<Rightarrow> jstring" where
  "strip_0x s = (if take 2 s = js ''0x'' \<or> take 2 s = js ''0X'' then drop 2 s else s)"

definition parseInt16 :: "jstring \<Rightarrow> int option" where
  "parseInt16 s =
     (let t = dropWhile is_space s;
          negative = (t \<noteq> [] \<and> hd t = ch CHR ''-'');
          u = (if t \<noteq> [] \<and> (hd t = ch CHR ''-'' \<or> hd t = ch CHR ''+'') then tl t else t);
          ds = takeWhile is_hex (strip_0x u)
      in if ds = [] then None else Some (if negative then - hex_value ds else hex_value ds))"

definition all_some :: "'a option list \<Rightarrow> 'a list option" where
  "all_some xs = (if list_all (\<lambda>x. x \<noteq> None) xs then Some (map the xs) else None)"

definition ipv4Parts :: "jstring \<Rightarrow> int list option" where
  "ipv4Parts ip =
     (case all_some (map number_of (split_by is_dot ip)) of
        Some parts \<Rightarrow> if length parts = 4 \<and> list_all (\<lambda>n. 0 \<le> n \<and> n \<le> 255) parts then Some parts else None
      | None \<Rightarrow> None)"

text \<open>The parts are at least the three that are looked at.\<close>

definition privateIpv4 :: "int list \<Rightarrow> bool" where
  "privateIpv4 p =
     (let a = p ! 0; b = p ! 1; c = p ! 2
      in a = 0 \<or> a = 10 \<or> a = 127
         \<or> (a = 100 \<and> 64 \<le> b \<and> b \<le> 127)
         \<or> (a = 169 \<and> b = 254)
         \<or> (a = 172 \<and> 16 \<le> b \<and> b \<le> 31)
         \<or> (a = 192 \<and> b = 168)
         \<or> (a = 192 \<and> b = 0 \<and> (c = 0 \<or> c = 2))
         \<or> (a = 198 \<and> (b = 18 \<or> b = 19))
         \<or> 224 \<le> a)"

section \<open>IPv6\<close>

text \<open>\<open>ip.replace(/^\[|\]$/g, "").split("%")[0]\<close>.\<close>

definition strip_brackets :: "jstring \<Rightarrow> jstring" where
  "strip_brackets s =
     (let t = (if s \<noteq> [] \<and> hd s = 91 then tl s else s)
      in if t \<noteq> [] \<and> last t = 93 then butlast t else t)"

definition ip_text :: "jstring \<Rightarrow> jstring" where
  "ip_text s = takeWhile (\<lambda>c. c \<noteq> ch CHR ''%'') (strip_brackets s)"

text \<open>\<open>s.split("::")\<close>.\<close>

fun split_dc :: "jstring \<Rightarrow> jstring list" where
  "split_dc [] = [[]]"
| "split_dc [c] = [[c]]"
| "split_dc (c # d # s) =
     (if is_colon c \<and> is_colon d then [] # split_dc s
      else case split_dc (d # s) of [] \<Rightarrow> [[c]] | w # ws \<Rightarrow> (c # w) # ws)"

text \<open>
  The match of \<open>(\d+\.\d+\.\d+\.\d+)$\<close>, as what precedes it and itself: the last three parts between
  dots are digits, and the one before them ends in digits, all of which belong to the match.
\<close>

definition dotted_tail :: "jstring \<Rightarrow> (jstring \<times> jstring) option" where
  "dotted_tail s =
     (let parts = split_by is_dot s; n = length parts
      in if n < 4 then None
         else let first = parts ! (n - 4); last3 = drop (n - 3) parts;
                  ds = rev (takeWhile is_digit (rev first))
              in if ds \<noteq> [] \<and> list_all (\<lambda>p. p \<noteq> [] \<and> list_all is_digit p) last3
                 then (let m = join_with [46] (ds # last3) in Some (take (length s - length m) s, m))
                 else None)"

text \<open>A dotted tail becomes two groups; \<open>None\<close> when it is no address.\<close>

definition undotted :: "jstring \<Rightarrow> jstring option" where
  "undotted s =
     (case dotted_tail s of
        None \<Rightarrow> Some s
      | Some (front, m) \<Rightarrow>
          (case ipv4Parts m of
             None \<Rightarrow> None
           | Some p \<Rightarrow> Some (front @ hex_of (nat (p ! 0 * 256 + p ! 1)) @ [58] @ hex_of (nat (p ! 2 * 256 + p ! 3)))))"

definition groups_of :: "jstring \<Rightarrow> int list option" where
  "groups_of s =
     (let halves = split_dc s in
      if length halves > 2 then None
      else
        let first = (if halves ! 0 \<noteq> [] then split_by is_colon (halves ! 0) else []);
            second = (if length halves = 2 \<and> halves ! 1 \<noteq> [] then split_by is_colon (halves ! 1) else []);
            missing = 8 - int (length first) - int (length second)
        in if (if length halves = 1 then missing \<noteq> 0 else missing < 0) then None
           else case all_some (map parseInt16
                  (first @ (if length halves = 2 then replicate (nat missing) [48] else []) @ second)) of
               Some gs \<Rightarrow> if length gs = 8 \<and> list_all (\<lambda>g. 0 \<le> g \<and> g \<le> 65535) gs then Some gs else None
             | None \<Rightarrow> None)"

definition ipv6Groups :: "jstring \<Rightarrow> int list option" where
  "ipv6Groups ip = (case undotted (ip_text ip) of None \<Rightarrow> None | Some s \<Rightarrow> groups_of s)"

definition privateGroups :: "int list \<Rightarrow> bool" where
  "privateGroups g =
     (let g0 = g ! 0;
          embeddedV4 = [g ! 6 div 256, g ! 6 mod 256, g ! 7 div 256, g ! 7 mod 256]
      in if list_all (\<lambda>x. x = 0) (take 7 g) then True
         else if list_all (\<lambda>x. x = 0) (take 5 g) \<and> g ! 5 = 65535 then privateIpv4 embeddedV4
         else if list_all (\<lambda>x. x = 0) (take 6 g) then privateIpv4 embeddedV4
         else if g0 = 100 \<and> g ! 1 = 65435 then privateIpv4 embeddedV4
         else if g0 = 8194 then privateIpv4 [g ! 1 div 256, g ! 1 mod 256, g ! 2 div 256]
         else g0 AND 65024 = 64512 \<or> g0 AND 65472 = 65152 \<or> g0 AND 65472 = 65216 \<or> g0 AND 65280 = 65280
              \<or> g0 = 256 \<or> (g0 = 8193 \<and> g ! 1 = 3512))"

datatype address_error = NotAnAddress | Refused | CannotResolve | LookupAborted

text \<open>
  The kind is that of the bare text, but a dotted address is read with its brackets and zone, and
  taking apart what is no address throws.
\<close>

definition isPrivateAddress :: "(jstring \<Rightarrow> nat) \<Rightarrow> jstring \<Rightarrow> address_error + bool" where
  "isPrivateAddress isIP ip =
     (let kind = isIP (ip_text ip) in
      if kind = 4 then (case ipv4Parts ip of Some p \<Rightarrow> Inr (privateIpv4 p) | None \<Rightarrow> Inl NotAnAddress)
      else case ipv6Groups ip of
          Some g \<Rightarrow> if kind \<noteq> 6 then Inr True else Inr (privateGroups g)
        | None \<Rightarrow> Inr True)"

text \<open>\<open>some\<close>: the addresses are looked at in order until one is private.\<close>

fun some_private :: "(jstring \<Rightarrow> nat) \<Rightarrow> jstring list \<Rightarrow> address_error + bool" where
  "some_private isIP [] = Inr False"
| "some_private isIP (a # as') =
     (case isPrivateAddress isIP a of
        Inl e \<Rightarrow> Inl e
      | Inr True \<Rightarrow> Inr True
      | Inr False \<Rightarrow> some_private isIP as')"

definition host_of :: "jstring \<Rightarrow> jstring" where
  "host_of hostname =
     (let s = strip_brackets hostname
      in to_lower (if s \<noteq> [] \<and> last s = ch CHR ''.'' then butlast s else s))"

text \<open>\<open>None\<close> from the resolver is a failed lookup; \<open>aborted\<close> tells whether the signal fired.\<close>

definition assertPublicHost ::
  "(jstring \<Rightarrow> nat) \<Rightarrow> (jstring \<Rightarrow> jstring list option) \<Rightarrow> bool \<Rightarrow> jstring \<Rightarrow> address_error + jstring list option" where
  "assertPublicHost isIP resolve aborted hostname =
     (let host = host_of hostname in
      if host = [] \<or> host = js ''localhost'' \<or> ends_with host (js ''.localhost'') then Inl Refused
      else if isIP host \<noteq> 0 then
        (case isPrivateAddress isIP host of
           Inl e \<Rightarrow> Inl e
         | Inr True \<Rightarrow> Inl Refused
         | Inr False \<Rightarrow> Inr None)
      else case (if aborted then None else resolve host) of
          None \<Rightarrow> Inl (if aborted then LookupAborted else CannotResolve)
        | Some addresses \<Rightarrow>
            if addresses = [] then Inl CannotResolve
            else case some_private isIP addresses of
                Inl e \<Rightarrow> Inl e
              | Inr True \<Rightarrow> Inl Refused
              | Inr False \<Rightarrow> Inr (Some addresses))"


section \<open>Which networks are private\<close>

text \<open>
  A network is a list of groups of \<open>w\<close> bits and the number of leading bits that count; the tables are
  those of the comments of the source.
\<close>

fun in_net :: "nat \<Rightarrow> int list \<Rightarrow> int list \<times> nat \<Rightarrow> bool" where
  "in_net w (g # gs) (n # ns, len) =
     (if len < w then g div 2 ^ (w - len) = n div 2 ^ (w - len) else g = n \<and> in_net w gs (ns, len - w))"
| "in_net w gs (ns, len) = True"

definition V4_NETS :: "(int list \<times> nat) list" where
  "V4_NETS = [([0], 8), ([10], 8), ([127], 8), ([100, 64], 10), ([169, 254], 16), ([172, 16], 12),
     ([192, 168], 16), ([192, 0, 0], 24), ([192, 0, 2], 24), ([198, 18], 15), ([224], 3)]"

definition V6_NETS :: "(int list \<times> nat) list" where
  "V6_NETS = [([0, 0, 0, 0, 0, 0, 0], 112), ([64512], 7), ([65152], 10), ([65216], 10), ([65280], 8),
     ([256], 16), ([8193, 3512], 32)]"

definition octets :: "int \<Rightarrow> int list" where
  "octets g = [g div 256, g mod 256]"

text \<open>The networks whose addresses carry an IPv4 address, and the groups they carry it in.\<close>

definition carried_v4 :: "int list \<Rightarrow> int list option" where
  "carried_v4 g =
     (if in_net 16 g ([0, 0, 0, 0, 0, 65535], 96) \<or> in_net 16 g ([0, 0, 0, 0, 0, 0], 96) \<or> in_net 16 g ([100, 65435], 32)
      then Some (octets (g ! 6) @ octets (g ! 7))
      else if in_net 16 g ([8194], 16) then Some (octets (g ! 1) @ octets (g ! 2))
      else None)"

definition reserved :: "int list \<Rightarrow> bool" where
  "reserved g \<longleftrightarrow> list_ex (in_net 16 g) V6_NETS
     \<or> (case carried_v4 g of Some p \<Rightarrow> list_ex (in_net 8 p) V4_NETS | None \<Rightarrow> False)"

lemma div_eq_range:
  assumes "0 < (d::int)"
  shows "x div d = k \<longleftrightarrow> k * d \<le> x \<and> x < k * d + d"
proof
  assume "x div d = k"
  then have "x = k * d + x mod d" by (metis div_mult_mod_eq)
  then show "k * d \<le> x \<and> x < k * d + d"
    using pos_mod_bound [OF assms, of x] pos_mod_sign [OF assms, of x] by linarith
next
  assume "k * d \<le> x \<and> x < k * d + d"
  then show "x div d = k" by (intro int_div_pos_eq [of x d k "x - k * d"]) (simp_all add: mult.commute)
qed

lemma privateIpv4_nets:
  assumes "length p = 4" "list_all (\<lambda>n. 0 \<le> n \<and> n \<le> 255) p"
  shows "privateIpv4 p \<longleftrightarrow> list_ex (in_net 8 p) V4_NETS"
proof -
  obtain a b c d where p: "p = [a, b, c, d]" using assms(1) by (auto simp: length_Suc_conv numeral_eq_Suc)
  have "b div 64 = 1 \<longleftrightarrow> 64 \<le> b \<and> b \<le> 127" "b div 16 = 1 \<longleftrightarrow> 16 \<le> b \<and> b \<le> 31"
    "b div 2 = 9 \<longleftrightarrow> b = 18 \<or> b = 19" "a div 32 = 7 \<longleftrightarrow> 224 \<le> a"
    using assms(2) unfolding p by (auto simp: div_eq_range)
  then show ?thesis unfolding p privateIpv4_def V4_NETS_def Let_def by simp blast
qed


lemma and_not_mask_div: "(g::int) AND NOT (mask n) = 2 ^ n * (g div 2 ^ n)"
proof -
  have "g AND NOT (mask n) = push_bit n (drop_bit n g)" by (rule bit_eqI) (auto simp: bit_simps)
  then show ?thesis by (simp add: push_bit_eq_mult drop_bit_eq_div mult.commute)
qed

lemma and_prefix:
  assumes "0 \<le> (g::int)" "g \<le> 65535"
  shows "g AND 65024 = 64512 \<longleftrightarrow> g div 512 = 126" "g AND 65472 = 65152 \<longleftrightarrow> g div 64 = 1018"
    "g AND 65472 = 65216 \<longleftrightarrow> g div 64 = 1019" "g AND 65280 = 65280 \<longleftrightarrow> g div 256 = 255"
proof -
  have g: "g AND mask 16 = g" using assms by (simp add: take_bit_eq_mask [symmetric] take_bit_int_eq_self_iff)
  have "g AND (mask 16 AND NOT (mask n)) = 2 ^ n * (g div 2 ^ n)" for n
    using and_not_mask_div [of g n] g by (simp add: and.assoc [symmetric])
  from this [of 9] this [of 6] this [of 8]
  have *: "g AND 65024 = 512 * (g div 512)" "g AND 65472 = 64 * (g div 64)" "g AND 65280 = 256 * (g div 256)"
    by (simp_all add: mask_eq_exp_minus_1)
  show "g AND 65024 = 64512 \<longleftrightarrow> g div 512 = 126" "g AND 65472 = 65152 \<longleftrightarrow> g div 64 = 1018"
    "g AND 65472 = 65216 \<longleftrightarrow> g div 64 = 1019" "g AND 65280 = 65280 \<longleftrightarrow> g div 256 = 255"
    unfolding * by simp_all
qed

lemma privateGroups_nets:
  assumes "length g = 8" "list_all (\<lambda>x. 0 \<le> x \<and> x \<le> 65535) g"
  shows "privateGroups g \<longleftrightarrow> reserved g"
proof -
  obtain a b c d e f h k where g: "g = [a, b, c, d, e, f, h, k]"
    using assms(1) by (auto simp: length_Suc_conv numeral_eq_Suc)
  have byte: "0 \<le> x div 256 \<and> x div 256 \<le> 255 \<and> 0 \<le> x mod 256 \<and> x mod 256 \<le> 255" if "0 \<le> x" "x \<le> 65535" for x :: int
    using that by auto
  have v4: "list_ex (in_net 8 (octets x @ octets y)) V4_NETS \<longleftrightarrow> privateIpv4 (octets x @ octets y)"
    if "0 \<le> x" "x \<le> 65535" "0 \<le> y" "y \<le> 65535" for x y
    by (rule privateIpv4_nets [symmetric]) (use that byte in \<open>simp_all add: octets_def\<close>)
  have three: "privateIpv4 [p, q, r] = privateIpv4 [p, q, r, s]" for p q r s by (simp add: privateIpv4_def)
  have all: "0 \<le> a" "a \<le> 65535" "0 \<le> b" "b \<le> 65535" "0 \<le> c" "c \<le> 65535" "0 \<le> h" "h \<le> 65535" "0 \<le> k" "k \<le> 65535"
    using assms(2) g by simp_all
  note prefix = and_prefix [OF all(1,2)]
  show ?thesis
    unfolding g privateGroups_def reserved_def carried_v4_def V6_NETS_def
    using v4 [OF all(7-10)] v4 [OF all(3-6)] three [of "b div 256" "b mod 256" "c div 256" "c mod 256"]
    by (simp add: Let_def prefix octets_def) blast
qed


section \<open>Ways to write an address\<close>

datatype address = V4 "int list" | V6 "int list"

fun reserved_address :: "address \<Rightarrow> bool" where
  "reserved_address (V4 p) = list_ex (in_net 8 p) V4_NETS"
| "reserved_address (V6 g) = reserved g"

text \<open>A group in hexadecimal digits of any case and number; four octets with dots.\<close>

definition writes16 :: "jstring \<Rightarrow> int \<Rightarrow> bool" where
  "writes16 w g \<longleftrightarrow> w \<noteq> [] \<and> list_all is_hex w \<and> hex_value w = g \<and> 0 \<le> g \<and> g \<le> 65535"

definition dotted :: "int list \<Rightarrow> jstring" where
  "dotted p = join_with [46] (map (\<lambda>n. digits_of (nat n)) p)"

definition colons :: "jstring list \<Rightarrow> jstring" where
  "colons ws = join_with [58] ws"

text \<open>
  Four octets; eight groups; groups on both sides of \<open>::\<close>, which stands for zeros; and both with the
  last two groups as four octets.
\<close>

inductive spelled :: "jstring \<Rightarrow> address \<Rightarrow> bool" where
  octets4: "length p = 4 \<Longrightarrow> list_all (\<lambda>n. 0 \<le> n \<and> n \<le> 255) p \<Longrightarrow> spelled (dotted p) (V4 p)"
| full: "list_all2 writes16 ws g \<Longrightarrow> length g = 8 \<Longrightarrow> spelled (colons ws) (V6 g)"
| short: "list_all2 writes16 ws xs \<Longrightarrow> list_all2 writes16 vs ys \<Longrightarrow> length (xs @ replicate n 0 @ ys) = 8 \<Longrightarrow>
    spelled (colons ws @ [58, 58] @ colons vs) (V6 (xs @ replicate n 0 @ ys))"
| full_dotted: "list_all2 writes16 ws g \<Longrightarrow> length g = 6 \<Longrightarrow> 0 \<le> a \<Longrightarrow> a \<le> 65535 \<Longrightarrow> 0 \<le> b \<Longrightarrow> b \<le> 65535 \<Longrightarrow>
    spelled (colons (ws @ [dotted (octets a @ octets b)])) (V6 (g @ [a, b]))"
| short_dotted: "list_all2 writes16 ws xs \<Longrightarrow> list_all2 writes16 vs ys \<Longrightarrow> length (xs @ replicate n 0 @ ys) = 6 \<Longrightarrow>
    0 \<le> a \<Longrightarrow> a \<le> 65535 \<Longrightarrow> 0 \<le> b \<Longrightarrow> b \<le> 65535 \<Longrightarrow>
    spelled (colons ws @ [58, 58] @ colons (vs @ [dotted (octets a @ octets b)])) (V6 (xs @ replicate n 0 @ ys @ [a, b]))"

text \<open>An address may stand in brackets and name a zone.\<close>

definition written :: "jstring \<Rightarrow> address \<Rightarrow> bool" where
  "written s a \<longleftrightarrow> spelled (ip_text s) a"

subsection \<open>Numbers\<close>

lemma hex_of_writes16: "0 \<le> g \<Longrightarrow> g \<le> 65535 \<Longrightarrow> writes16 (hex_of (nat g)) g"
  using hex_of_writes [of "nat g"] by (simp add: writes16_def)

lemma hex_not: "is_hex c \<Longrightarrow> \<not> is_space c \<and> c \<noteq> 45 \<and> c \<noteq> 43 \<and> c \<noteq> 58 \<and> c \<noteq> 46 \<and> c \<noteq> 120 \<and> c \<noteq> 88"
  by (auto simp: is_hex_def is_digit_def is_space_def)

lemma hex_colon [simp]: "\<not> is_hex 58"
  by (simp add: is_hex_def is_digit_def)

lemma takeWhile_all: "list_all P s \<Longrightarrow> takeWhile P s = s"
  by (induction s) auto

lemma parseInt16_writes: "writes16 w g \<Longrightarrow> parseInt16 w = Some g"
proof -
  assume w: "writes16 w g"
  then obtain c r where cr: "w = c # r" "is_hex c" "list_all is_hex r" by (cases w) (auto simp: writes16_def)
  have "r = [] \<or> (\<exists>d t. r = d # t \<and> is_hex d)" using cr by (cases r) auto
  then have "strip_0x w = w" using hex_not cr by (auto simp: strip_0x_def js_simps)
  then show ?thesis
    using w cr hex_not [OF cr(2)] by (auto simp: parseInt16_def Let_def writes16_def takeWhile_all)
qed


subsection \<open>Splitting\<close>

definition word16 :: "jstring \<Rightarrow> bool" where
  "word16 w \<longleftrightarrow> w \<noteq> [] \<and> list_all is_hex w"

lemma writes16_word: "list_all2 writes16 ws gs \<Longrightarrow> list_all word16 ws"
  by (induction rule: list_all2_induct) (auto simp: writes16_def word16_def)

lemma all_some_writes: "list_all2 writes16 ws gs \<Longrightarrow> all_some (map parseInt16 ws) = Some gs"
  by (induction rule: list_all2_induct) (auto simp: all_some_def parseInt16_writes split: if_splits)

lemma writes16_range: "list_all2 writes16 ws gs \<Longrightarrow> list_all (\<lambda>g. 0 \<le> g \<and> g \<le> 65535) gs"
  by (induction rule: list_all2_induct) (auto simp: writes16_def)

lemma split_colons: "ws \<noteq> [] \<Longrightarrow> list_all word16 ws \<Longrightarrow> split_by is_colon (colons ws) = ws"
proof (induction ws rule: induct_list012)
  case (2 w)
  then show ?case by (auto simp: colons_def word16_def list_all_iff is_colon_def hex_not intro!: split_by_plain)
next
  case (3 w v ws)
  have "split_by is_colon w = [w]"
    using 3 by (auto simp: word16_def list_all_iff is_colon_def hex_not intro!: split_by_plain)
  moreover have "is_colon 58" by (simp add: is_colon_def)
  ultimately show ?case
    using 3 split_by_append_sep [of is_colon 58 w "colons (v # ws)"] by (simp add: colons_def)
qed simp

lemma colons_Nil: "list_all word16 ws \<Longrightarrow> colons ws = [] \<longleftrightarrow> ws = []"
  by (cases ws; cases "tl ws") (auto simp: colons_def word16_def)

lemma split_dc_ne [simp]: "split_dc s \<noteq> []"
  by (induction s rule: split_dc.induct) (auto split: list.splits)

lemma split_dc_word:
  "word16 w \<Longrightarrow> split_dc (w @ s) = (w @ hd (split_dc s)) # tl (split_dc s)"
proof (induction w)
  case (Cons c w)
  have c: "\<not> is_colon c" using Cons.prems by (auto simp: word16_def is_colon_def hex_not)
  show ?case
  proof (cases "w = []")
    case True
    then show ?thesis using c by (cases s) (auto split: list.splits)
  next
    case False
    then have "split_dc (w @ s) = (w @ hd (split_dc s)) # tl (split_dc s)" using Cons by (simp add: word16_def)
    then show ?thesis using c False by (cases w) auto
  qed
qed (simp add: word16_def)

lemma split_dc_colon:
  "word16 w \<Longrightarrow> split_dc (58 # w @ s) = (58 # hd (split_dc (w @ s))) # tl (split_dc (w @ s))"
  by (cases w) (auto simp: word16_def is_colon_def hex_not split: list.splits)

lemma split_dc_colons:
  "ws \<noteq> [] \<Longrightarrow> list_all word16 ws \<Longrightarrow>
   split_dc (colons ws @ s) = (colons ws @ hd (split_dc s)) # tl (split_dc s)"
proof (induction ws rule: induct_list012)
  case (2 w)
  then show ?case by (simp add: colons_def split_dc_word)
next
  case (3 w v ws)
  obtain u where u: "colons (v # ws) @ s = v @ u" by (cases ws) (auto simp: colons_def)
  have "split_dc (w @ 58 # colons (v # ws) @ s)
      = (w @ hd (split_dc (58 # v @ u))) # tl (split_dc (58 # v @ u))"
    using 3 split_dc_word [of w "58 # v @ u"] by (simp add: u)
  moreover have "split_dc (58 # v @ u) = (58 # hd (split_dc (v @ u))) # tl (split_dc (v @ u))"
    using 3 by (intro split_dc_colon) simp
  moreover have "split_dc (v @ u) = (colons (v # ws) @ hd (split_dc s)) # tl (split_dc s)" using 3 u by simp
  ultimately show ?case by (simp add: colons_def)
qed simp

lemma groups_full:
  assumes "list_all2 writes16 ws g" "length g = 8"
  shows "groups_of (colons ws) = Some g"
proof -
  have len: "length ws = 8" using assms list_all2_lengthD by fastforce
  then have ne: "ws \<noteq> []" by auto
  have w: "list_all word16 ws" by (rule writes16_word [OF assms(1)])
  have dc: "split_dc (colons ws) = [colons ws]" using split_dc_colons [OF ne w, of "[]"] by simp
  have "colons ws \<noteq> []" using ne w by (simp add: colons_Nil)
  then show ?thesis
    using all_some_writes [OF assms(1)] writes16_range [OF assms(1)] assms(2) len
    by (simp add: groups_of_def dc split_colons [OF ne w] Let_def)
qed

lemma groups_short:
  assumes "list_all2 writes16 ws xs" "list_all2 writes16 vs ys" "length (xs @ replicate n 0 @ ys) = 8"
  shows "groups_of (colons ws @ [58, 58] @ colons vs) = Some (xs @ replicate n 0 @ ys)"
proof -
  note w = writes16_word [OF assms(1)] writes16_word [OF assms(2)]
  have len: "length ws = length xs" "length vs = length ys" using assms list_all2_lengthD by blast+
  have two: "split_dc ([58, 58] @ colons vs) = [[], colons vs]"
    using split_dc_colons [of vs "[]"] w(2) by (cases "vs = []") (simp_all add: is_colon_def colons_def)
  have dc: "split_dc (colons ws @ 58 # 58 # colons vs) = [colons ws, colons vs]"
    using split_dc_colons [of ws "[58, 58] @ colons vs"] w(1) two by (cases "ws = []") (simp_all add: colons_def)
  have z: "list_all2 writes16 (replicate n [48]) (replicate n 0)"
    by (simp add: list_all2_conv_all_nth writes16_def is_hex_def is_digit_def hex_value_def hex_digit_value_def)
  have all: "list_all2 writes16 (ws @ replicate n [48] @ vs) (xs @ replicate n 0 @ ys)"
    using assms z by (intro list_all2_appendI)
  have missing: "8 - int (length ws) - int (length vs) = int n" using assms(3) len by simp
  show ?thesis
    using all_some_writes [OF all] writes16_range [OF all] assms(3) missing
      colons_Nil [OF w(1)] colons_Nil [OF w(2)] split_colons [OF _ w(1)] split_colons [OF _ w(2)]
    unfolding groups_of_def append_Cons append_Nil dc Let_def
    by (cases "ws = []"; cases "vs = []") simp_all
qed


subsection \<open>Dotted tails\<close>

lemma ipv4Parts_dotted:
  assumes "length p = 4" "list_all (\<lambda>n. 0 \<le> n \<and> n \<le> 255) p"
  shows "ipv4Parts (dotted p) = Some p"
    "\<not> is_digit d \<and> \<not> is_dot d \<and> front = us @ [d] \<or> front = [] \<Longrightarrow> list_all (\<lambda>c. \<not> is_dot c) front \<Longrightarrow>
     dotted_tail (front @ dotted p) = Some (front, dotted p)"
proof -
  obtain a b c e where p: "p = [a, b, c, e]" using assms(1) by (auto simp: length_Suc_conv numeral_eq_Suc)
  let ?d = "\<lambda>n. digits_of (nat n)"
  have dig: "?d n \<noteq> []" "list_all is_digit (?d n)" for n using digits_of_dec by blast+
  have nodot: "list_all (\<lambda>c. \<not> is_dot c) (?d n)" for n
    using dig(2) [of n] by (auto simp: list_all_iff is_dot_def is_digit_def)
  have sep: "split_by is_dot (s @ 46 # r) = split_by is_dot s @ split_by is_dot r" for s r
    by (rule split_by_append_sep) (simp add: is_dot_def)
  have spelt: "dotted p = ?d a @ 46 # ?d b @ 46 # ?d c @ 46 # ?d e" by (simp add: dotted_def p)
  have one: "split_by is_dot s = [s]" if "list_all (\<lambda>c. \<not> is_dot c) s" for s
    using that by (intro split_by_plain) (auto simp: list_all_iff)
  have split: "split_by is_dot (s @ dotted p) = [s @ ?d a, ?d b, ?d c, ?d e]" if "list_all (\<lambda>c. \<not> is_dot c) s" for s
    using that nodot one [of "s @ ?d a"] by (simp add: spelt sep [of "s @ ?d a", simplified] sep one)
  have num: "number_of (?d n) = Some n" if "0 \<le> n" for n
    using digits_of_dec [of "nat n"] that by (simp add: number_of_def)
  show "ipv4Parts (dotted p) = Some p"
    using split [of "[]"] assms(2) num by (simp add: ipv4Parts_def p all_some_def)
  assume front: "\<not> is_digit d \<and> \<not> is_dot d \<and> front = us @ [d] \<or> front = []" "list_all (\<lambda>c. \<not> is_dot c) front"
  have "takeWhile is_digit (rev (front @ ?d a)) = rev (?d a)"
    using front(1) dig [of a] takeWhile_append2 [of "rev (?d a)" is_digit] by (auto simp: list_all_iff)
  then show "dotted_tail (front @ dotted p) = Some (front, dotted p)"
    using split [OF front(2)] dig by (simp add: dotted_tail_def Let_def spelt)
qed


lemma octets_range: "0 \<le> a \<Longrightarrow> a \<le> 65535 \<Longrightarrow> list_all (\<lambda>n. 0 \<le> n \<and> n \<le> 255) (octets a)"
  by (auto simp: octets_def)

lemma undotted_tail:
  assumes "0 \<le> a" "a \<le> 65535" "0 \<le> b" "b \<le> 65535" "list_all (\<lambda>c. \<not> is_dot c) front"
    "front = us @ [58] \<or> front = []"
  shows "undotted (front @ dotted (octets a @ octets b)) = Some (front @ hex_of (nat a) @ 58 # hex_of (nat b))"
proof -
  let ?p = "octets a @ octets b"
  have p: "length ?p = 4" "list_all (\<lambda>n. 0 \<le> n \<and> n \<le> 255) ?p"
    using octets_range [OF assms(1,2)] octets_range [OF assms(3,4)] by (simp_all add: octets_def)
  have "dotted_tail (front @ dotted ?p) = Some (front, dotted ?p)"
    using assms(5,6) by (intro ipv4Parts_dotted(2) [OF p, of 58 front us]) (auto simp: is_digit_def is_dot_def)
  moreover have "a div 256 * 256 + a mod 256 = a" "b div 256 * 256 + b mod 256 = b" by simp_all
  ultimately show ?thesis
    using ipv4Parts_dotted(1) [OF p] by (simp add: undotted_def octets_def)
qed

lemma undotted_plain: "list_all (\<lambda>c. \<not> is_dot c) s \<Longrightarrow> undotted s = Some s"
  using split_by_plain [of s is_dot] by (simp add: undotted_def dotted_tail_def list_all_iff)

lemma colons_nodot: "list_all word16 ws \<Longrightarrow> list_all (\<lambda>c. \<not> is_dot c) (colons ws)"
  by (induction ws rule: induct_list012) (auto simp: colons_def word16_def is_dot_def list_all_iff dest: hex_not)

lemma colons_snoc: "ws \<noteq> [] \<Longrightarrow> colons (ws @ [q]) = colons ws @ 58 # q"
  by (induction ws rule: induct_list012) (auto simp: colons_def)

lemma colon_nodot: "\<not> is_dot 58"
  by (simp add: is_dot_def)

lemma spelled_groups:
  assumes "spelled s (V6 g)"
  shows "\<exists>t. undotted s = Some t \<and> groups_of t = Some g"
  using assms
proof (cases rule: spelled.cases)
  case (full ws)
  then show ?thesis
    using groups_full [OF full(2,3)] undotted_plain [OF colons_nodot [OF writes16_word [OF full(2)]]] by simp
next
  case (short ws xs vs ys n)
  note nodot = colons_nodot [OF writes16_word [OF short(3)]] colons_nodot [OF writes16_word [OF short(4)]]
  show ?thesis
    using groups_short [OF short(3-5)] undotted_plain [of s] nodot short(1,2) by (simp add: colon_nodot)
next
  case (full_dotted ws h a b)
  let ?hs = "[hex_of (nat a), hex_of (nat b)]"
  have ne: "ws \<noteq> []" using full_dotted(3,4) by auto
  have "undotted s = Some (colons (ws @ ?hs))"
    using undotted_tail [OF full_dotted(5-8), of "colons ws @ [58]" "colons ws"] full_dotted(1)
      colons_nodot [OF writes16_word [OF full_dotted(3)]] colons_snoc [OF ne] colons_snoc [of "ws @ [hex_of (nat a)]"]
    by (simp add: colon_nodot)
  moreover have "list_all2 writes16 (ws @ ?hs) g"
    using full_dotted by (auto intro!: list_all2_appendI hex_of_writes16)
  ultimately show ?thesis using groups_full [of "ws @ ?hs" g] full_dotted by auto
next
  case (short_dotted ws xs vs ys n a b)
  let ?hs = "[hex_of (nat a), hex_of (nat b)]"
  note nodot = colons_nodot [OF writes16_word [OF short_dotted(3)]] colons_nodot [OF writes16_word [OF short_dotted(4)]]
  let ?front = "colons ws @ [58, 58] @ (if vs = [] then [] else colons vs @ [58])"
  let ?us = "colons ws @ [58] @ (if vs = [] then [] else 58 # colons vs)"
  have "s = ?front @ dotted (octets a @ octets b)"
    using short_dotted(1) colons_snoc [of vs] by (simp add: colons_def)
  moreover have "undotted (?front @ dotted (octets a @ octets b)) = Some (?front @ hex_of (nat a) @ 58 # hex_of (nat b))"
    using nodot by (intro undotted_tail [OF short_dotted(6-9), where us = ?us]) (auto simp: colon_nodot)
  moreover have "?front @ hex_of (nat a) @ 58 # hex_of (nat b) = colons ws @ [58, 58] @ colons (vs @ ?hs)"
    using colons_snoc [of vs] colons_snoc [of "vs @ [hex_of (nat a)]"] by (auto simp: colons_def)
  moreover have vs: "list_all2 writes16 (vs @ ?hs) (ys @ [a, b])"
    using short_dotted by (auto intro!: list_all2_appendI hex_of_writes16)
  ultimately show ?thesis
    using groups_short [OF short_dotted(3) vs, of n] short_dotted by simp
qed

lemma spelled_V4: "spelled s (V4 p) \<Longrightarrow> s = dotted p \<and> length p = 4 \<and> list_all (\<lambda>n. 0 \<le> n \<and> n \<le> 255) p"
  by (auto elim: spelled.cases)

lemma split_by_chars: "c \<in> set s \<Longrightarrow> P c \<or> (\<exists>w \<in> set (split_by P s). c \<in> set w)"
  by (induction s) (auto split: list.splits)

lemma ipv4Parts_ip_text: "ipv4Parts s = Some q \<Longrightarrow> ip_text s = s"
proof -
  assume q: "ipv4Parts s = Some q"
  then have num: "number_of w \<noteq> None" if "w \<in> set (split_by is_dot s)" for w
    using that by (simp add: ipv4Parts_def all_some_def list_all_iff split: if_splits)
  have c: "c \<noteq> 91 \<and> c \<noteq> 93 \<and> c \<noteq> 37" if "c \<in> set s" for c
  proof -
    consider "is_dot c" | w where "w \<in> set (split_by is_dot s)" "c \<in> set w" using split_by_chars [OF \<open>c \<in> set s\<close>] by blast
    then show ?thesis
    proof cases
      case 2
      then have "is_digit c" using num [OF 2(1)] by (simp add: number_of_def list_all_iff split: if_splits)
      then show ?thesis by (auto simp: is_digit_def)
    qed (simp add: is_dot_def)
  qed
  then have "strip_brackets s = s" by (cases s) (auto simp: strip_brackets_def Let_def)
  then show ?thesis using c by (auto simp: ip_text_def)
qed


text \<open>An IPv4 address in brackets is recognized without them and then read with them.\<close>

lemma bracketed_ipv4_throws:
  "isIP (js ''127.0.0.1'') = 4 \<Longrightarrow> isPrivateAddress isIP (js ''[127.0.0.1]'') = Inl NotAnAddress"
proof -
  have "ip_text (js ''[127.0.0.1]'') = js ''127.0.0.1''" "ipv4Parts (js ''[127.0.0.1]'') = None" by code_simp+
  then show "isIP (js ''127.0.0.1'') = 4 \<Longrightarrow> ?thesis" by (simp add: isPrivateAddress_def)
qed

section \<open>Only public addresses\<close>

definition ip_kind :: "address \<Rightarrow> nat" where
  "ip_kind a = (case a of V4 _ \<Rightarrow> 4 | V6 _ \<Rightarrow> 6)"

lemma public_not_reserved:
  assumes "isPrivateAddress isIP s = Inr False" "written s a" "isIP (ip_text s) = ip_kind a"
  shows "\<not> reserved_address a"
proof (cases a)
  case (V4 p)
  then obtain q where q: "ipv4Parts s = Some q" "\<not> privateIpv4 q"
    using assms(1,3) by (auto simp: isPrivateAddress_def ip_kind_def split: option.splits)
  have p: "s = dotted p" "length p = 4" "list_all (\<lambda>n. 0 \<le> n \<and> n \<le> 255) p"
    using assms(2) V4 spelled_V4 [of s p] ipv4Parts_ip_text [OF q(1)] by (simp_all add: written_def)
  then have "q = p" using q(1) ipv4Parts_dotted(1) [OF p(2,3)] by simp
  then show ?thesis using q(2) privateIpv4_nets [OF p(2,3)] V4 by simp
next
  case (V6 g)
  obtain t where t: "undotted (ip_text s) = Some t" "groups_of t = Some g"
    using spelled_groups assms(2) V6 unfolding written_def by blast
  then have "length g = 8 \<and> list_all (\<lambda>x. 0 \<le> x \<and> x \<le> 65535) g"
    by (auto simp: groups_of_def Let_def split: if_splits option.splits)
  moreover have "\<not> privateGroups g"
    using assms(1,3) t V6 by (simp add: isPrivateAddress_def ipv6Groups_def ip_kind_def)
  ultimately show ?thesis using privateGroups_nets V6 by simp
qed

lemma some_private_False: "some_private isIP xs = Inr False \<Longrightarrow> x \<in> set xs \<Longrightarrow> isPrivateAddress isIP x = Inr False"
  by (induction xs) (auto split: sum.splits bool.splits)

text \<open>
  C7. No tool is let through to an address that is not on the public internet: when a host is
  accepted, neither the address it is, nor any address it resolves to, lies in one of the reserved
  networks or carries an IPv4 address that does, in whatever way that address is written - groups of
  any length and case, zeros left out at any place, the last octets with dots, in brackets, with a zone.
\<close>

theorem accepted_host_is_public:
  assumes "assertPublicHost isIP resolve aborted hostname = Inr r"
    "case r of None \<Rightarrow> s = host_of hostname | Some addresses \<Rightarrow> s \<in> set addresses"
    "written s a" "isIP (ip_text s) = ip_kind a"
  shows "\<not> reserved_address a"
proof -
  have "isPrivateAddress isIP s = Inr False"
    using assms(1,2) some_private_False
    by (auto simp: assertPublicHost_def Let_def split: if_splits option.splits sum.splits bool.splits)
  then show ?thesis using assms(3,4) by (rule public_not_reserved)
qed

definition knows_ip :: "jstring \<Rightarrow> nat" where
  "knows_ip s = (if 58 \<in> set s then 6 else 0)"

theorem accepted_host_is_public_witness:
  "\<not> reserved_address (V6 ([] @ replicate 5 0 @ [65535] @ [256, 1]))
   \<and> assertPublicHost knows_ip (\<lambda>_. None) False (js ''[::ffff:7F00:1]'') = Inl Refused"
proof -
  let ?s = "colons [] @ [58, 58] @ colons ([js ''ffff''] @ [dotted (octets 256 @ octets 1)])"
  have "list_all2 writes16 [js ''ffff''] [65535]" by code_simp
  then have "spelled ?s (V6 ([] @ replicate 5 0 @ [65535] @ [256, 1]))" by (intro spelled.short_dotted) simp_all
  moreover have eval: "?s = host_of (js ''[::ffff:1.0.0.1]'')" "ip_text ?s = ?s"
    "assertPublicHost knows_ip (\<lambda>_. None) False (js ''[::ffff:1.0.0.1]'') = Inr None"
    "knows_ip ?s = 6"
    "assertPublicHost knows_ip (\<lambda>_. None) False (js ''[::ffff:7F00:1]'') = Inl Refused" by code_simp+
  ultimately show ?thesis
    using accepted_host_is_public [OF eval(3), of ?s "V6 ([] @ replicate 5 0 @ [65535] @ [256, 1])"]
    by (simp add: written_def ip_kind_def)
qed

end
