(* ===== verification/Notices.thy ===== *)
theory Notices
  imports Prelude
begin

text \<open>
  The inbox of notices a session gets from its background work
  (\<open>packages/core/src/agent/notices.ts\<close>), the snapshot a host sees of it
  (\<open>packages/core/src/agent/notice-input.ts\<close>) and the joining of waiting messages
  (\<open>packages/core/src/agent/messages.ts\<close>). Inboxes and pending handles are numbered in a store,
  because a switch of session moves handles from one inbox to the next. What an inbox asks of its
  session when called is an argument, drawn identifiers too; when a retry is due is left out, and
  turns it starts are among the effects of a call.
\<close>

section \<open>Messages\<close>

datatype block = Text jstring | Image jstring

record display =
  dp_text :: jstring
  dp_note :: "jstring option"
  dp_origin :: "jstring option"

record user_message =
  um_content :: "block list"
  um_display :: "display option"

definition block_text :: "block \<Rightarrow> jstring" where
  "block_text b = (case b of Text t \<Rightarrow> t | Image _ \<Rightarrow> js ''[image]'')"

definition shown_text :: "user_message \<Rightarrow> jstring" where
  "shown_text m = (case um_display m of Some d \<Rightarrow> dp_text d | None \<Rightarrow> join_with [10] (map block_text (um_content m)))"

definition note_of :: "user_message \<Rightarrow> jstring list" where
  "note_of m = (case um_display m of
     Some d \<Rightarrow> (case dp_note d of Some n \<Rightarrow> if n = [] then [] else [n] | None \<Rightarrow> [])
   | None \<Rightarrow> [])"

definition origin_of :: "user_message \<Rightarrow> jstring option" where
  "origin_of m = (case um_display m of Some d \<Rightarrow> dp_origin d | None \<Rightarrow> None)"

definition joinMessages :: "user_message list \<Rightarrow> user_message" where
  "joinMessages ms =
     (if length ms = 1 then hd ms
      else let content = concat (map um_content ms) in
        if \<not> list_ex (\<lambda>m. um_display m \<noteq> None) ms then \<lparr>um_content = content, um_display = None\<rparr>
        else let notes = concat (map note_of ms);
                 origins = map origin_of ms
             in \<lparr>um_content = content,
                 um_display = Some \<lparr>dp_text = join_with [10] (map shown_text ms),
                   dp_note = (if notes \<noteq> [] then Some (join_with [32, 183, 32] notes) else None),
                   dp_origin = (if list_all (\<lambda>x. x = hd origins) origins then hd origins else None)\<rparr>\<rparr>)"

section \<open>One inbox\<close>

record inbox =
  ib_notices :: "(nat \<times> user_message) list"
  ib_expected :: int
  ib_pending :: "nat list"
  ib_jobTarget :: "nat option"
  ib_retry :: "(nat \<times> nat) option"
  ib_retries :: nat
  ib_noticed :: bool
  ib_suspended :: bool
  ib_snapshot :: "(nat \<times> user_message) list \<times> int"

definition new_inbox :: inbox where
  "new_inbox = \<lparr>ib_notices = [], ib_expected = 0, ib_pending = [], ib_jobTarget = None, ib_retry = None,
     ib_retries = 0, ib_noticed = False, ib_suspended = False, ib_snapshot = ([], 0)\<rparr>"

record session =
  se_disposed :: bool
  se_turn :: bool
  se_holding :: bool
  se_busy :: bool
  se_onIdleNotice :: bool
  se_retryMs :: "nat list"

datatype effect =
    Steered user_message
  | Prompted user_message
  | IdleNotice
  | RetryNotice nat nat nat "jstring option"

subsection \<open>What a host sees\<close>

definition recoveryState :: "inbox \<Rightarrow> (nat \<times> user_message) list \<times> int" where
  "recoveryState I = (ib_notices I, ib_expected I)"

definition publish :: "inbox \<Rightarrow> inbox" where
  "publish I = I\<lparr>ib_snapshot := recoveryState I\<rparr>"

definition addNoticeInput :: "inbox \<Rightarrow> inbox" where
  "addNoticeInput I = publish I"

definition clearNoticeInput :: "inbox \<Rightarrow> inbox" where
  "clearNoticeInput I = (if fst (ib_snapshot I) \<noteq> [] \<or> snd (ib_snapshot I) \<noteq> ib_expected I then publish I else I)"

definition expectedNoticeInput :: "inbox \<Rightarrow> inbox" where
  "expectedNoticeInput I = (if snd (ib_snapshot I) \<noteq> ib_expected I then publish I else I)"

subsection \<open>Delivery\<close>

definition take_notices :: "inbox \<Rightarrow> user_message list \<times> inbox" where
  "take_notices I = (map snd (ib_notices I), clearNoticeInput (I\<lparr>ib_notices := []\<rparr>))"

definition wakeQuietly :: "session \<Rightarrow> inbox \<Rightarrow> effect list \<times> inbox" where
  "wakeQuietly E I =
     (if ib_suspended I \<or> se_disposed E \<or> se_busy E \<or> ib_notices I = [] then ([], I)
      else let (ms, J) = take_notices I in ([Prompted (joinMessages ms)], J))"

definition wake :: "session \<Rightarrow> inbox \<Rightarrow> effect list \<times> inbox" where
  "wake E I =
     (if ib_suspended I \<or> se_disposed E \<or> se_busy E \<or> se_holding E \<or> ib_notices I = [] then ([], I)
      else let (ms, J) = take_notices I in ([Prompted (joinMessages ms)], J))"

definition receive_notice :: "session \<Rightarrow> nat \<Rightarrow> user_message \<Rightarrow> bool \<Rightarrow> inbox \<Rightarrow> effect list \<times> inbox" where
  "receive_notice E n message wakes I =
     (if se_disposed E then ([], I)
      else
        let J = addNoticeInput (I\<lparr>ib_notices := ib_notices I @ [(n, message)]\<rparr>) in
        if se_turn E then ([Steered message], J)
        else if se_holding E then ([Steered message], if wakes then J\<lparr>ib_noticed := True\<rparr> else J)
        else if \<not> wakes \<or> ib_suspended J then ([Steered message], J)
        else if se_onIdleNotice E then ([IdleNotice], J)
        else wakeQuietly E J)"

subsection \<open>Retries\<close>

definition cancelRetry :: "inbox \<Rightarrow> inbox" where
  "cancelRetry I = (if ib_retry I = None then I else I\<lparr>ib_retry := None\<rparr>)"

definition suspend :: "inbox \<Rightarrow> inbox" where
  "suspend I = cancelRetry (I\<lparr>ib_suspended := True\<rparr>)"

definition resume :: "inbox \<Rightarrow> inbox" where
  "resume I = I\<lparr>ib_suspended := False\<rparr>"

definition scheduleRetry :: "session \<Rightarrow> jstring option \<Rightarrow> inbox \<Rightarrow> effect list \<times> inbox" where
  "scheduleRetry E err I =
     (if ib_suspended I \<or> se_disposed E then ([], I)
      else
        let J = cancelRetry I; delays = se_retryMs E in
        if ib_retries J \<ge> length delays then ([], J)
        else
          let delayMs = delays ! ib_retries J; attempt = ib_retries J + 1
          in ([RetryNotice attempt (length delays) delayMs err], J\<lparr>ib_retry := Some (attempt, delayMs)\<rparr>))"

definition resend_message :: "nat \<Rightarrow> nat \<Rightarrow> user_message" where
  "resend_message n m =
     \<lparr>um_content = [Text (js ''The previous turn failed before you handled the results of your background sub-agents above. Handle them now. (Sent automatically; the user did not write this message.)'')],
      um_display = Some \<lparr>dp_text = [9670] @ js '' sending the sub-agents'' @ [39] @ js '' results again (retry '' @ digits_of n
          @ js '' of '' @ digits_of m @ js '')'',
        dp_note = None, dp_origin = Some (js ''subagent'')\<rparr>\<rparr>"

text \<open>The timer of a retry fires.\<close>

definition redeliver :: "session \<Rightarrow> nat \<Rightarrow> inbox \<Rightarrow> effect list \<times> inbox" where
  "redeliver E n I =
     (let I1 = I\<lparr>ib_retry := None\<rparr> in
      if se_disposed E then ([], I1)
      else
        let I2 = I1\<lparr>ib_retries := ib_retries I1 + 1\<rparr>;
            (message, I3) =
              (if ib_notices I2 \<noteq> [] then let (ms, J) = take_notices I2 in (joinMessages ms, J)
               else (resend_message (ib_retries I2) (length (se_retryMs E)), I2))
        in if se_holding E
           then ([Steered message],
                 (addNoticeInput (I3\<lparr>ib_notices := ib_notices I3 @ [(n, message)]\<rparr>))\<lparr>ib_noticed := True\<rparr>)
           else ([Prompted message], I3))"

definition resetRetries :: "inbox \<Rightarrow> inbox" where
  "resetRetries I = I\<lparr>ib_retries := 0\<rparr>"

definition takeNoticedDuringHold :: "inbox \<Rightarrow> bool \<times> inbox" where
  "takeNoticedDuringHold I = (ib_noticed I, I\<lparr>ib_noticed := False\<rparr>)"

definition clear_inbox :: "inbox \<Rightarrow> inbox" where
  "clear_inbox I = clearNoticeInput (I\<lparr>ib_notices := [], ib_pending := [], ib_expected := 0\<rparr>)"

section \<open>Handles and switches\<close>

record inboxes =
  is_box :: "nat \<Rightarrow> inbox"
  is_target :: "nat \<Rightarrow> nat"
  is_handles :: nat

definition new_inboxes :: inboxes where
  "new_inboxes = \<lparr>is_box = (\<lambda>_. new_inbox), is_target = (\<lambda>_. 0), is_handles = 0\<rparr>"

definition set_box :: "nat \<Rightarrow> inbox \<Rightarrow> inboxes \<Rightarrow> inboxes" where
  "set_box i I S = S\<lparr>is_box := (is_box S)(i := I)\<rparr>"

text \<open>A disposed session gives a handle that does nothing.\<close>

definition expect_notice :: "session \<Rightarrow> nat \<Rightarrow> inboxes \<Rightarrow> nat option \<times> inboxes" where
  "expect_notice E i S =
     (if se_disposed E then (None, S)
      else
        let h = is_handles S; I = is_box S i in
        (Some h, set_box i (expectedNoticeInput (I\<lparr>ib_pending := ib_pending I @ [h], ib_expected := ib_expected I + 1\<rparr>))
           (S\<lparr>is_target := (is_target S)(h := i), is_handles := h + 1\<rparr>)))"

definition close_notice :: "nat \<Rightarrow> inboxes \<Rightarrow> bool \<times> inboxes" where
  "close_notice h S =
     (let i = is_target S h; I = is_box S i in
      if h \<notin> set (ib_pending I) then (False, S)
      else (True, set_box i (expectedNoticeInput
              (I\<lparr>ib_pending := removeAll h (ib_pending I), ib_expected := ib_expected I - 1\<rparr>)) S))"

text \<open>\<open>env\<close> answers for the session of each inbox.\<close>

definition deliver_notice ::
  "(nat \<Rightarrow> session) \<Rightarrow> nat \<Rightarrow> nat \<Rightarrow> user_message \<Rightarrow> bool \<Rightarrow> inboxes \<Rightarrow> effect list \<times> inboxes" where
  "deliver_notice env h n message wakes S =
     (case close_notice h S of
        (False, T) \<Rightarrow> ([], T)
      | (True, T) \<Rightarrow>
          let i = is_target T h; (es, I) = receive_notice (env i) n message wakes (is_box T i)
          in (es, set_box i I T))"

definition cancel_notice :: "nat \<Rightarrow> inboxes \<Rightarrow> inboxes" where
  "cancel_notice h S = snd (close_notice h S)"

text \<open>The next inbox is another one, made for the session that replaces this one's.\<close>

definition handover :: "nat \<Rightarrow> nat \<Rightarrow> inboxes \<Rightarrow> inboxes" where
  "handover i j S =
     (let I = is_box S i; J = is_box S j; hs = ib_pending I; k = int (length hs)
      in set_box j (expectedNoticeInput (J\<lparr>ib_pending := ib_pending J @ hs, ib_expected := ib_expected J + k\<rparr>))
         (set_box i (expectedNoticeInput (I\<lparr>ib_jobTarget := Some j, ib_pending := [], ib_expected := ib_expected I - k\<rparr>))
            (S\<lparr>is_target := (\<lambda>h. if h \<in> set hs then j else is_target S h)\<rparr>)))"

partial_function (option) target_of :: "inboxes \<Rightarrow> nat \<Rightarrow> nat option" where
  "target_of S i = (case ib_jobTarget (is_box S i) of None \<Rightarrow> Some i | Some j \<Rightarrow> target_of S j)"


section \<open>Calls on one inbox\<close>

definition contents :: "user_message list \<Rightarrow> block list" where
  "contents ms = concat (map um_content ms)"

definition waiting_blocks :: "inbox \<Rightarrow> block list" where
  "waiting_blocks I = contents (map snd (ib_notices I))"

definition current :: "inbox \<Rightarrow> bool" where
  "current I \<longleftrightarrow> ib_snapshot I = recoveryState I"

fun prompts :: "effect list \<Rightarrow> user_message list" where
  "prompts [] = []"
| "prompts (Prompted m # es) = m # prompts es"
| "prompts (_ # es) = prompts es"

datatype inbox_call =
    CReceive nat user_message bool
  | CTake
  | CWake
  | CWakeQuietly
  | CSuspend
  | CResume
  | CCancelRetry
  | CScheduleRetry "jstring option"
  | CFire nat
  | CResetRetries
  | CTakeNoticed
  | CClear

text \<open>What a call sends to the model, in turns it starts or as messages its caller takes.\<close>

fun inbox_apply :: "session \<Rightarrow> inbox_call \<Rightarrow> inbox \<Rightarrow> user_message list \<times> inbox" where
  "inbox_apply E (CReceive n m w) I = apfst prompts (receive_notice E n m w I)"
| "inbox_apply E CTake I = take_notices I"
| "inbox_apply E CWake I = apfst prompts (wake E I)"
| "inbox_apply E CWakeQuietly I = apfst prompts (wakeQuietly E I)"
| "inbox_apply E CSuspend I = ([], suspend I)"
| "inbox_apply E CResume I = ([], resume I)"
| "inbox_apply E CCancelRetry I = ([], cancelRetry I)"
| "inbox_apply E (CScheduleRetry err) I = apfst prompts (scheduleRetry E err I)"
| "inbox_apply E (CFire n) I = apfst prompts (redeliver E n I)"
| "inbox_apply E CResetRetries I = ([], resetRetries I)"
| "inbox_apply E CTakeNoticed I = ([], snd (takeNoticedDuringHold I))"
| "inbox_apply E CClear I = ([], clear_inbox I)"

text \<open>What a call adds to what the model has to be told: a message, or the reminder of a retry.\<close>

fun coming :: "session \<Rightarrow> inbox_call \<Rightarrow> inbox \<Rightarrow> block list" where
  "coming E (CReceive n m w) I = (if se_disposed E then [] else um_content m)"
| "coming E (CFire n) I = (if se_disposed E \<or> ib_notices I \<noteq> [] then []
     else um_content (resend_message (ib_retries I + 1) (length (se_retryMs E))))"
| "coming E c I = []"

lemma contents_simps [simp]: "contents [] = []" "contents (m # ms) = um_content m @ contents ms"
  "contents (ms @ ns) = contents ms @ contents ns"
  by (simp_all add: contents_def)

lemma contents_join [simp]: "um_content (joinMessages ms) = contents ms"
proof (cases "length ms = 1")
  case True
  then obtain m where "ms = [m]" by (auto simp: length_Suc_conv)
  then show ?thesis by (simp add: joinMessages_def)
qed (simp add: joinMessages_def contents_def Let_def)

lemmas snapshot_defs = publish_def addNoticeInput_def clearNoticeInput_def expectedNoticeInput_def recoveryState_def

lemma snapshot_parts [simp]:
  "ib_notices (publish I) = ib_notices I" "ib_pending (publish I) = ib_pending I" "ib_expected (publish I) = ib_expected I"
  "ib_notices (clearNoticeInput I) = ib_notices I" "ib_pending (clearNoticeInput I) = ib_pending I"
  "ib_expected (clearNoticeInput I) = ib_expected I"
  "ib_notices (expectedNoticeInput I) = ib_notices I" "ib_pending (expectedNoticeInput I) = ib_pending I"
  "ib_expected (expectedNoticeInput I) = ib_expected I"
  "ib_suspended (publish I) = ib_suspended I"
  by (simp_all add: snapshot_defs)

lemma take_notices_simps [simp]:
  "fst (take_notices I) = map snd (ib_notices I)" "ib_notices (snd (take_notices I)) = []"
  "ib_pending (snd (take_notices I)) = ib_pending I" "ib_expected (snd (take_notices I)) = ib_expected I"
  by (simp_all add: take_notices_def)

lemmas inbox_ops = receive_notice_def wake_def wakeQuietly_def redeliver_def scheduleRetry_def suspend_def resume_def
  cancelRetry_def resetRetries_def takeNoticedDuringHold_def addNoticeInput_def

lemma inbox_conserves:
  "c \<noteq> CClear \<Longrightarrow> contents (fst (inbox_apply E c I)) @ waiting_blocks (snd (inbox_apply E c I)) = waiting_blocks I @ coming E c I"
  by (cases c) (simp_all add: inbox_ops waiting_blocks_def Let_def split_def)

lemma inbox_pending:
  "c \<noteq> CClear \<Longrightarrow> ib_pending (snd (inbox_apply E c I)) = ib_pending I \<and> ib_expected (snd (inbox_apply E c I)) = ib_expected I"
  by (cases c) (simp_all add: inbox_ops Let_def split_def)

lemma current_keeps [simp]:
  "current (I\<lparr>ib_noticed := b\<rparr>) = current I" "current (I\<lparr>ib_retry := r\<rparr>) = current I"
  "current (I\<lparr>ib_retries := n\<rparr>) = current I" "current (I\<lparr>ib_suspended := b\<rparr>) = current I"
  by (simp_all add: current_def recoveryState_def)

lemma current_publish [simp]: "current (publish I)"
  by (simp add: current_def publish_def recoveryState_def)

lemma take_notices_current: "current I \<Longrightarrow> current (snd (take_notices I))"
  by (auto simp: take_notices_def clearNoticeInput_def current_def recoveryState_def publish_def)

lemma expected_current: "ib_snapshot I = (ib_notices I, x) \<Longrightarrow> current (expectedNoticeInput I)"
  by (auto simp: expectedNoticeInput_def current_def recoveryState_def publish_def)

lemma wakeQuietly_current: "current I \<Longrightarrow> current (snd (wakeQuietly E I))"
  by (simp add: wakeQuietly_def split_def take_notices_current)

lemma inbox_current: "current I \<Longrightarrow> current (snd (inbox_apply E c I))"
proof (cases c)
  case CClear
  then show "current I \<Longrightarrow> ?thesis"
    by (auto simp: clear_inbox_def clearNoticeInput_def current_def recoveryState_def publish_def)
qed (auto simp: receive_notice_def wake_def redeliver_def scheduleRetry_def suspend_def resume_def cancelRetry_def resetRetries_def
    takeNoticedDuringHold_def addNoticeInput_def Let_def split_def take_notices_current wakeQuietly_current)

section \<open>Runs\<close>

datatype notice_call =
    CExpect nat
  | CDeliver nat nat user_message bool
  | CCancel nat
  | CHandover nat nat
  | COn nat inbox_call

text \<open>
  Beside the store: what each inbox sent to the model, what it owed it, and the handles that are
  settled - delivered, cancelled, or dropped when their inbox was cleared.
\<close>

record ledger_of =
  lo_sent :: "nat \<Rightarrow> block list"
  lo_owed :: "nat \<Rightarrow> block list"
  lo_settled :: "nat list"

definition book :: "nat \<Rightarrow> block list \<Rightarrow> block list \<Rightarrow> ledger_of \<Rightarrow> ledger_of" where
  "book i sent owed L = L\<lparr>lo_sent := (lo_sent L)(i := lo_sent L i @ sent), lo_owed := (lo_owed L)(i := lo_owed L i @ owed)\<rparr>"

definition open_handle :: "inboxes \<Rightarrow> ledger_of \<Rightarrow> nat \<Rightarrow> bool" where
  "open_handle S L h \<longleftrightarrow> h < is_handles S \<and> h \<notin> set (lo_settled L)"

fun notice_step :: "(nat \<Rightarrow> session) \<Rightarrow> notice_call \<Rightarrow> inboxes \<times> ledger_of \<Rightarrow> inboxes \<times> ledger_of" where
  "notice_step env (CExpect i) (S, L) = (snd (expect_notice (env i) i S), L)"
| "notice_step env (CDeliver h n m w) (S, L) =
     (let i = is_target S h; (es, T) = deliver_notice env h n m w S
      in (T, (book i (contents (prompts es)) (if open_handle S L h \<and> \<not> se_disposed (env i) then um_content m else []) L)
            \<lparr>lo_settled := (if open_handle S L h then h # lo_settled L else lo_settled L)\<rparr>))"
| "notice_step env (CCancel h) (S, L) =
     (cancel_notice h S, L\<lparr>lo_settled := (if open_handle S L h then h # lo_settled L else lo_settled L)\<rparr>)"
| "notice_step env (CHandover i j) (S, L) = (handover i j S, L)"
| "notice_step env (COn i c) (S, L) =
     (let (ms, I) = inbox_apply (env i) c (is_box S i)
      in (set_box i I S, (book i (contents ms) (coming (env i) c (is_box S i)) L)
            \<lparr>lo_settled := (if c = CClear then ib_pending (is_box S i) @ lo_settled L else lo_settled L)\<rparr>))"

fun notice_play :: "((nat \<Rightarrow> session) \<times> notice_call) list \<Rightarrow> inboxes \<times> ledger_of \<Rightarrow> inboxes \<times> ledger_of" where
  "notice_play [] X = X"
| "notice_play ((env, c) # cs) X = notice_play cs (notice_step env c X)"

definition no_ledger :: ledger_of where
  "no_ledger = \<lparr>lo_sent = (\<lambda>_. []), lo_owed = (\<lambda>_. []), lo_settled = []\<rparr>"

text \<open>A session hands over to another one.\<close>

definition proper :: "notice_call \<Rightarrow> bool" where
  "proper c = (case c of CHandover i j \<Rightarrow> i \<noteq> j | _ \<Rightarrow> True)"

definition tidy_box :: "inboxes \<Rightarrow> ledger_of \<Rightarrow> nat \<Rightarrow> bool" where
  "tidy_box S L i \<longleftrightarrow> (let I = is_box S i in
     current I \<and> ib_expected I = int (length (ib_pending I)) \<and> distinct (ib_pending I)
     \<and> (\<forall>h. h \<in> set (ib_pending I) \<longleftrightarrow> open_handle S L h \<and> is_target S h = i))"

definition tidy :: "inboxes \<times> ledger_of \<Rightarrow> bool" where
  "tidy X \<longleftrightarrow> (\<forall>i. tidy_box (fst X) (snd X) i) \<and> (\<forall>h \<in> set (lo_settled (snd X)). h < is_handles (fst X))"

lemma set_box_simps [simp]:
  "is_box (set_box i I S) j = (if j = i then I else is_box S j)" "is_target (set_box i I S) = is_target S"
  "is_handles (set_box i I S) = is_handles S"
  by (simp_all add: set_box_def)

lemma book_simps [simp]:
  "lo_settled (book i s r L) = lo_settled L"
  "lo_sent (book i s r L) j = (if j = i then lo_sent L i @ s else lo_sent L j)"
  "lo_owed (book i s r L) j = (if j = i then lo_owed L i @ r else lo_owed L j)"
  by (simp_all add: book_def)

lemma current_expected:
  "current I \<Longrightarrow> current (expectedNoticeInput (I\<lparr>ib_pending := hs, ib_expected := k\<rparr>))"
  "current I \<Longrightarrow> current (expectedNoticeInput (I\<lparr>ib_jobTarget := t, ib_pending := hs, ib_expected := k\<rparr>))"
  by (auto simp: expectedNoticeInput_def current_def recoveryState_def publish_def)

lemma tidy_boxD:
  assumes "tidy (S, L)"
  shows "current (is_box S i)" "ib_expected (is_box S i) = int (length (ib_pending (is_box S i)))"
    "distinct (ib_pending (is_box S i))"
    "h \<in> set (ib_pending (is_box S i)) \<longleftrightarrow> open_handle S L h \<and> is_target S h = i"
    "h \<in> set (lo_settled L) \<Longrightarrow> h < is_handles S"
  using assms by (auto simp: tidy_def tidy_box_def Let_def)

lemma tidy_expect:
  assumes "tidy (S, L)"
  shows "tidy (snd (expect_notice E i S), L)"
proof (cases "se_disposed E")
  case False
  have new: "is_handles S \<notin> set (lo_settled L)" using tidy_boxD(5) [OF assms] by blast
  show ?thesis
    unfolding tidy_def tidy_box_def Let_def
    using tidy_boxD [OF assms] new False
    by (auto simp: expect_notice_def Let_def current_expected open_handle_def less_Suc_eq)
qed (use assms in \<open>simp add: expect_notice_def\<close>)


lemma tidy_settled: "lo_settled L' = lo_settled L \<Longrightarrow> tidy (S, L') \<longleftrightarrow> tidy (S, L)"
  by (simp add: tidy_def tidy_box_def open_handle_def)

lemma close_notice_open:
  assumes "tidy (S, L)"
  shows "fst (close_notice h S) \<longleftrightarrow> open_handle S L h"
  using tidy_boxD(4) [OF assms, of h "is_target S h"] by (auto simp: close_notice_def Let_def)

lemma close_notice_settled:
  assumes "tidy (S, L)" "\<not> open_handle S L h"
  shows "close_notice h S = (False, S)"
  using tidy_boxD(4) [OF assms(1), of h "is_target S h"] assms(2) by (simp add: close_notice_def Let_def)

lemma length_removeAll_distinct: "distinct xs \<Longrightarrow> x \<in> set xs \<Longrightarrow> int (length (removeAll x xs)) = int (length xs) - 1"
  using length_pos_if_in_set [of x xs] of_nat_diff [of 1 "length xs", where 'a = int]
  by (simp add: distinct_remove1_removeAll [symmetric] length_remove1 Suc_le_eq)

lemma tidy_close:
  assumes "tidy (S, L)" "lo_settled L' = (if open_handle S L h then h # lo_settled L else lo_settled L)"
  shows "tidy (snd (close_notice h S), L')"
proof (cases "open_handle S L h")
  case False
  then have "snd (close_notice h S) = S" using close_notice_settled [OF assms(1)] by simp
  then show ?thesis using tidy_settled [of L' L S] assms False by simp
next
  case True
  let ?i = "is_target S h"
  have mem: "h \<in> set (ib_pending (is_box S ?i))" using tidy_boxD(4) [OF assms(1)] True by blast
  then have T: "snd (close_notice h S) = set_box ?i (expectedNoticeInput ((is_box S ?i)
      \<lparr>ib_pending := removeAll h (ib_pending (is_box S ?i)), ib_expected := ib_expected (is_box S ?i) - 1\<rparr>)) S"
    by (simp add: close_notice_def Let_def)
  have open': "open_handle T L' k \<longleftrightarrow> open_handle S L k \<and> k \<noteq> h" if "is_handles T = is_handles S" for T k
    using that True assms(2) by (auto simp: open_handle_def)
  show ?thesis
    unfolding tidy_def tidy_box_def Let_def T
    using tidy_boxD [OF assms(1)] True assms(2) mem
    by (auto simp: current_expected open' length_removeAll_distinct distinct_removeAll) (auto simp: open_handle_def)
qed

lemma tidy_on:
  assumes "tidy (S, L)" "c \<noteq> CClear"
  shows "tidy (set_box i (snd (inbox_apply E c (is_box S i))) S, L)"
  using tidy_boxD [OF assms(1)] inbox_pending [OF assms(2)] inbox_current
  unfolding tidy_def tidy_box_def Let_def by (auto simp: open_handle_def)

lemma tidy_clear:
  assumes "tidy (S, L)" "lo_settled L' = ib_pending (is_box S i) @ lo_settled L"
  shows "tidy (set_box i (clear_inbox (is_box S i)) S, L')"
proof -
  have "current (clear_inbox (is_box S i))"
    using inbox_current [of "is_box S i" E CClear] tidy_boxD(1) [OF assms(1)] by simp
  then show ?thesis
    using tidy_boxD [OF assms(1)] assms(2) unfolding tidy_def tidy_box_def Let_def
    by (auto simp: clear_inbox_def open_handle_def)
qed

lemma tidy_handover:
  assumes "tidy (S, L)" "i \<noteq> j"
  shows "tidy (handover i j S, L)"
proof -
  have "distinct (ib_pending (is_box S j) @ ib_pending (is_box S i))"
    using tidy_boxD(3,4) [OF assms(1)] assms(2) by auto
  then show ?thesis
    using tidy_boxD [OF assms(1)] assms(2) unfolding tidy_def tidy_box_def Let_def
    by (auto simp: handover_def Let_def current_expected open_handle_def)
qed

lemma deliver_notice_apply:
  assumes "tidy (S, L)"
  shows "deliver_notice env h n m w S =
    (if open_handle S L h
     then (let i = is_target S h; T = snd (close_notice h S); r = receive_notice (env i) n m w (is_box T i)
           in (fst r, set_box i (snd r) T))
     else ([], S))"
proof -
  have "is_target (snd (close_notice h S)) = is_target S" by (simp add: close_notice_def Let_def)
  then show ?thesis
    using close_notice_open [OF assms, of h] close_notice_settled [OF assms, of h]
    by (cases "close_notice h S") (auto simp: deliver_notice_def Let_def split_def)
qed

lemma tidy_step:
  assumes "tidy X" "proper c"
  shows "tidy (notice_step env c X)"
proof (cases X)
  case (Pair S L)
  have X: "tidy (S, L)" using assms(1) Pair by simp
  show ?thesis
  proof (cases c)
    case (CExpect i)
    then show ?thesis using tidy_expect [OF X] Pair by simp
  next
    case (CCancel h)
    then show ?thesis using tidy_close [OF X] Pair by (simp add: cancel_notice_def)
  next
    case (CHandover i j)
    then show ?thesis using tidy_handover [OF X] assms(2) Pair by (simp add: proper_def)
  next
    case (COn i d)
    show ?thesis
    proof (cases "d = CClear")
      case True
      then show ?thesis using tidy_clear [OF X] Pair COn by simp
    next
      case False
      have "tidy (set_box i (snd (inbox_apply (env i) d (is_box S i))) S, L)" by (rule tidy_on [OF X False])
      moreover have "lo_settled (snd (notice_step env c X)) = lo_settled L"
        using Pair COn False by (simp add: split_def Let_def)
      moreover have "fst (notice_step env c X) = set_box i (snd (inbox_apply (env i) d (is_box S i))) S"
        using Pair COn False by (simp add: split_def Let_def)
      ultimately show ?thesis using tidy_settled by (metis prod.collapse)
    qed
  next
    case (CDeliver h n m w)
    let ?L = "snd (notice_step env c X)" and ?i = "is_target S h" and ?T = "snd (close_notice h S)"
    have L: "lo_settled ?L = (if open_handle S L h then h # lo_settled L else lo_settled L)"
      using CDeliver Pair by (simp add: Let_def split_def)
    have "tidy (?T, ?L)" by (rule tidy_close [OF X L])
    then have "tidy (set_box ?i (snd (inbox_apply (env ?i) (CReceive n m w) (is_box ?T ?i))) ?T, ?L)"
      by (rule tidy_on) simp
    moreover have "fst (notice_step env c X) = (if open_handle S L h
        then set_box ?i (snd (inbox_apply (env ?i) (CReceive n m w) (is_box ?T ?i))) ?T else S)"
      using CDeliver Pair deliver_notice_apply [OF X] by (simp add: Let_def split_def apfst_def)
    moreover have "tidy (S, ?L)" if "\<not> open_handle S L h" using tidy_settled [of ?L L S] L X that by simp
    ultimately show ?thesis by (metis prod.collapse)
  qed
qed


section \<open>Nothing is lost\<close>

definition conserved :: "nat \<Rightarrow> inboxes \<times> ledger_of \<Rightarrow> bool" where
  "conserved i X \<longleftrightarrow> lo_sent (snd X) i @ waiting_blocks (is_box (fst X) i) = lo_owed (snd X) i"

lemma queued_cong: "ib_notices J = ib_notices I \<Longrightarrow> waiting_blocks J = waiting_blocks I"
  by (simp add: waiting_blocks_def)

lemma close_keeps: "ib_notices (is_box (snd (close_notice h S)) i) = ib_notices (is_box S i)"
  by (simp add: close_notice_def Let_def)

lemma append_moves:
  "a @ b = c @ d \<Longrightarrow> x @ c = y \<Longrightarrow> (x @ a) @ b = y @ d"
  "a @ b = c \<Longrightarrow> x @ c = y \<Longrightarrow> (x @ a) @ b = y"
  by (metis append_assoc)+

lemma kept_step:
  assumes "tidy X" "c \<noteq> COn i CClear" "conserved i X"
  shows "conserved i (notice_step env c X)"
proof (cases X)
  case (Pair S L)
  have K: "lo_sent L i @ waiting_blocks (is_box S i) = lo_owed L i" using assms(3) Pair by (simp add: conserved_def)
  show ?thesis
  proof (cases c)
    case (CExpect j)
    then show ?thesis using K Pair by (auto simp: conserved_def waiting_blocks_def expect_notice_def Let_def)
  next
    case (CCancel h)
    then show ?thesis using K Pair by (simp add: conserved_def waiting_blocks_def cancel_notice_def close_keeps)
  next
    case (CHandover j k)
    then show ?thesis using K Pair by (auto simp: conserved_def waiting_blocks_def handover_def Let_def)
  next
    case (COn j d)
    then show ?thesis
      using K Pair assms(2) inbox_conserves [of d "env j" "is_box S j"]
      by (cases "j = i") (auto simp: conserved_def split_def Let_def simp del: append_assoc intro: append_moves)
  next
    case (CDeliver h n m w)
    let ?j = "is_target S h" and ?T = "snd (close_notice h S)"
    have X: "tidy (S, L)" using assms(1) Pair by simp
    have q: "waiting_blocks (is_box ?T i) = waiting_blocks (is_box S i)" by (simp add: waiting_blocks_def close_keeps)
    have r: "contents (prompts (fst (receive_notice (env ?j) n m w I))) @ waiting_blocks (snd (receive_notice (env ?j) n m w I))
        = waiting_blocks I @ (if se_disposed (env ?j) then [] else um_content m)" for I
      using inbox_conserves [of "CReceive n m w" "env ?j" I] by simp
    show ?thesis
      using K Pair CDeliver deliver_notice_apply [OF X, of env h n m w] q r [of "is_box ?T ?j"]
      by (cases "?j = i"; cases "open_handle S L h")
        (auto simp: conserved_def Let_def simp del: append_assoc intro: append_moves)
  qed
qed

lemma play_tidy:
  "list_all (\<lambda>(_, c). proper c) calls \<Longrightarrow> tidy X \<Longrightarrow> tidy (notice_play calls X)"
  by (induction calls X rule: notice_play.induct) (auto simp: tidy_step)

lemma play_kept:
  "list_all (\<lambda>(_, c). proper c) calls \<Longrightarrow> list_all (\<lambda>(_, c). c \<noteq> COn i CClear) calls \<Longrightarrow> tidy X \<Longrightarrow> conserved i X
   \<Longrightarrow> conserved i (notice_play calls X)"
  by (induction calls X rule: notice_play.induct) (auto simp: tidy_step kept_step)

lemma tidy_new: "tidy (new_inboxes, no_ledger)"
  by (simp add: tidy_def tidy_box_def new_inboxes_def new_inbox_def no_ledger_def current_def recoveryState_def open_handle_def)

text \<open>
  C9. A notice reaches the model exactly once: whatever is expected, delivered, cancelled, handed
  over, held, retried and suspended, what an inbox has sent to the model and still has waiting is, in
  order, what was delivered to it through handles not settled before, with the reminders of failed
  turns; what a host sees of an inbox is what is in it; and an inbox expects as many notices as it
  has handles that were made or handed over to it and are not settled.
\<close>

theorem notices_delivered_once:
  assumes "list_all (\<lambda>(_, c). proper c) calls" "notice_play calls (new_inboxes, no_ledger) = (S, L)"
  shows "(list_all (\<lambda>(_, c). c \<noteq> COn i CClear) calls \<longrightarrow> lo_sent L i @ waiting_blocks (is_box S i) = lo_owed L i)
    \<and> ib_snapshot (is_box S i) = (ib_notices (is_box S i), ib_expected (is_box S i))
    \<and> ib_expected (is_box S i) = int (card {h. open_handle S L h \<and> is_target S h = i})"
proof (intro conjI impI)
  have T: "tidy (S, L)" using play_tidy [OF assms(1) tidy_new] assms(2) by simp
  have "set (ib_pending (is_box S i)) = {h. open_handle S L h \<and> is_target S h = i}"
    using tidy_boxD(4) [OF T] by blast
  then show "ib_expected (is_box S i) = int (card {h. open_handle S L h \<and> is_target S h = i})"
    using tidy_boxD(2,3) [OF T, of i] distinct_card by metis
  show "ib_snapshot (is_box S i) = (ib_notices (is_box S i), ib_expected (is_box S i))"
    using tidy_boxD(1) [OF T, of i] by (simp add: current_def recoveryState_def)
  have "conserved i (new_inboxes, no_ledger)"
    by (simp add: conserved_def new_inboxes_def no_ledger_def waiting_blocks_def new_inbox_def)
  then show "lo_sent L i @ waiting_blocks (is_box S i) = lo_owed L i" if "list_all (\<lambda>(_, c). c \<noteq> COn i CClear) calls"
    using play_kept [OF assms(1) that tidy_new] assms(2) by (simp add: conserved_def)
qed

definition idle_session :: session where
  "idle_session = \<lparr>se_disposed = False, se_turn = False, se_holding = False, se_busy = False, se_onIdleNotice = False,
     se_retryMs = [10, 30, 90]\<rparr>"

definition done_message :: user_message where
  "done_message = \<lparr>um_content = [Text (js ''done'')], um_display = None\<rparr>"

definition switch_calls :: "((nat \<Rightarrow> session) \<times> notice_call) list" where
  "switch_calls = map (Pair (\<lambda>_. idle_session))
     [CExpect 0, CHandover 0 1, CDeliver 0 7 done_message True, CDeliver 0 8 done_message True]"

theorem notices_delivered_once_witness:
  "lo_owed (snd (notice_play switch_calls (new_inboxes, no_ledger))) 1 = [Text (js ''done'')]
   \<and> lo_sent (snd (notice_play switch_calls (new_inboxes, no_ledger))) 1
      @ waiting_blocks (is_box (fst (notice_play switch_calls (new_inboxes, no_ledger))) 1) = [Text (js ''done'')]"
proof -
  have p: "list_all (\<lambda>(_, c). proper c) switch_calls" "list_all (\<lambda>(_, c). c \<noteq> COn 1 CClear) switch_calls"
    by (simp_all add: switch_calls_def proper_def)
  have "lo_owed (snd (notice_play switch_calls (new_inboxes, no_ledger))) 1 = [Text (js ''done'')]"
    by code_simp
  then show ?thesis using notices_delivered_once [OF p(1) surjective_pairing, of 1] p(2) by simp
qed

end
