(* ===== verification/Hold.thy ===== *)
theory Hold
  imports Notices
begin

text \<open>
  Work between turns and the input that waits behind it (\<open>packages/core/src/agent/hold.ts\<close>), with
  the snapshot a host sees of that input (\<open>packages/core/src/agent/held-input.ts\<close>). A hold and a
  turn share one slot, the session's abort controller. The work itself, drawn identifiers and the
  time are arguments; a prompt that waits for its turn is a numbered waiter.
\<close>

record held =
  hd_id :: nat
  hd_holdId :: nat
  hd_steer :: bool
  hd_message :: user_message
  hd_turnId :: "nat option"

record after_work =
  aw_messages :: "held list"
  aw_turnId :: "nat option"
  aw_prompted :: bool
  aw_waiters :: "nat list"
  aw_sentAt :: nat

record hold =
  ho_slot :: bool
  ho_what :: "jstring option"
  ho_id :: "nat option"
  ho_next :: "after_work option"
  ho_snapshot :: "held list"

definition new_hold :: hold where
  "new_hold = \<lparr>ho_slot = False, ho_what = None, ho_id = None, ho_next = None, ho_snapshot = []\<rparr>"

datatype hold_error = AgentBusy

datatype hold_effect =
    Told user_message
  | Promoted user_message nat
  | Dropped user_message
  | Rejected nat jstring
  | Started user_message nat nat "nat list"
  | Woke effect

definition held_input :: "hold \<Rightarrow> held list" where
  "held_input H = (case ho_next H of None \<Rightarrow> [] | Some w \<Rightarrow> aw_messages w)"

definition addHeldInput :: "hold \<Rightarrow> hold" where
  "addHeldInput H = H\<lparr>ho_snapshot := held_input H\<rparr>"

definition clearHeldInput :: "hold \<Rightarrow> hold" where
  "clearHeldInput H = (if ho_snapshot H \<noteq> [] then H\<lparr>ho_snapshot := held_input H\<rparr> else H)"

text \<open>A hold is asked to queue only while it has an identifier.\<close>

definition enqueue_held :: "nat \<Rightarrow> nat \<Rightarrow> user_message \<Rightarrow> bool \<Rightarrow> nat option \<Rightarrow> hold \<Rightarrow> hold" where
  "enqueue_held now n message steered turnId H =
     (let w = (case ho_next H of
                 Some w \<Rightarrow> w
               | None \<Rightarrow> \<lparr>aw_messages = [], aw_turnId = None, aw_prompted = False, aw_waiters = [], aw_sentAt = now\<rparr>);
          e = \<lparr>hd_id = n, hd_holdId = the (ho_id H), hd_steer = steered, hd_message = message, hd_turnId = turnId\<rparr>
      in H\<lparr>ho_next := Some (w\<lparr>aw_messages := aw_messages w @ [e],
             aw_turnId := (case turnId of Some t \<Rightarrow> Some t | None \<Rightarrow> aw_turnId w)\<rparr>)\<rparr>)"

definition steer_held :: "nat \<Rightarrow> nat \<Rightarrow> user_message \<Rightarrow> hold \<Rightarrow> hold_effect list \<times> hold" where
  "steer_held now n message H = ([Told message], addHeldInput (enqueue_held now n message True None H))"

definition prompt_held :: "nat \<Rightarrow> nat \<Rightarrow> user_message \<Rightarrow> nat \<Rightarrow> nat \<Rightarrow> hold \<Rightarrow> hold" where
  "prompt_held now n message turnId waiter H =
     (let K = enqueue_held now n message False (Some turnId) H; w = the (ho_next K)
      in addHeldInput (K\<lparr>ho_next := Some (w\<lparr>aw_prompted := True, aw_waiters := aw_waiters w @ [waiter]\<rparr>)\<rparr>))"

definition prompted :: "hold \<Rightarrow> bool" where
  "prompted H = (case ho_next H of Some w \<Rightarrow> aw_prompted w | None \<Rightarrow> False)"

definition one_prompt :: "held list \<Rightarrow> user_message" where
  "one_prompt hs =
     (if length hs = 1 then hd_message (hd hs)
      else \<lparr>um_content = concat (map (\<lambda>h. um_content (hd_message h)) hs), um_display = None\<rparr>)"

text \<open>\<open>fresh\<close> is the identifier of the turn when no prompt brought one.\<close>

definition start_next :: "bool \<Rightarrow> jstring \<Rightarrow> nat \<Rightarrow> hold \<Rightarrow> hold_effect list \<times> hold" where
  "start_next aborted what fresh H =
     (case ho_next H of
        None \<Rightarrow> ([], H)
      | Some w \<Rightarrow>
          let K = clearHeldInput (H\<lparr>ho_next := None\<rparr>) in
          if aborted then
            (map (\<lambda>h. Dropped (hd_message h)) (aw_messages w)
               @ map (\<lambda>x. Rejected x (js ''the '' @ what @ js '' was aborted before the message was sent'')) (aw_waiters w), K)
          else
            let turnId = (case aw_turnId w of Some t \<Rightarrow> t | None \<Rightarrow> fresh)
            in (map (\<lambda>h. Promoted (hd_message h) turnId) (filter hd_steer (aw_messages w))
                  @ [Started (one_prompt (aw_messages w)) turnId (aw_sentAt w) (aw_waiters w)], K))"

definition cancel_hold :: "nat \<Rightarrow> hold \<Rightarrow> hold_effect list \<times> hold" where
  "cancel_hold fresh H = start_next True (case ho_what H of Some w \<Rightarrow> w | None \<Rightarrow> js ''session'') fresh H"

text \<open>\<open>run\<close> before and after its work. Afterwards the slot is free when the queued input starts.\<close>

definition begin_hold :: "jstring \<Rightarrow> nat \<Rightarrow> hold \<Rightarrow> hold_error + hold" where
  "begin_hold what n H =
     (if ho_slot H then Inl AgentBusy else Inr (H\<lparr>ho_slot := True, ho_what := Some what, ho_id := Some n\<rparr>))"

definition end_hold ::
  "session \<Rightarrow> bool \<Rightarrow> bool \<Rightarrow> nat \<Rightarrow> hold \<Rightarrow> inbox \<Rightarrow> hold_effect list \<times> hold \<times> inbox" where
  "end_hold E aborted transport fresh H I =
     (let what = (case ho_what H of Some w \<Rightarrow> w | None \<Rightarrow> []);
          K = H\<lparr>ho_slot := False, ho_what := None, ho_id := None\<rparr>;
          (noticed, J) = takeNoticedDuringHold I;
          J1 = (if transport then suspend J else J);
          (es, K1) = start_next aborted what fresh K;
          (ws, J2) = (if noticed \<and> \<not> aborted then wakeQuietly E J1 else ([], J1))
      in (es @ map Woke ws, K1, J2))"

section \<open>Runs\<close>

datatype hold_call =
    HBegin jstring nat
  | HSteer nat nat user_message
  | HPrompt nat nat user_message nat nat
  | HEnd session bool bool nat
  | HCancel nat
  | HTurn bool
  | HInbox session inbox_call

text \<open>
  Input is queued only during a hold, a hold ends once, and a turn takes the slot only when it is
  free and gives back only its own; a second hold is refused.
\<close>

fun hold_legal :: "hold_call \<Rightarrow> hold \<Rightarrow> bool" where
  "hold_legal (HSteer _ _ _) H = (ho_id H \<noteq> None)"
| "hold_legal (HPrompt _ _ _ _ _) H = (ho_id H \<noteq> None)"
| "hold_legal (HEnd _ _ _ _) H = (ho_id H \<noteq> None)"
| "hold_legal (HTurn taken) H = (ho_id H = None \<and> ho_slot H \<noteq> taken)"
| "hold_legal _ H = True"

fun hold_apply :: "hold_call \<Rightarrow> hold \<times> inbox \<Rightarrow> hold_effect list \<times> hold \<times> inbox" where
  "hold_apply (HBegin what n) (H, I) = (case begin_hold what n H of Inl _ \<Rightarrow> ([], H, I) | Inr K \<Rightarrow> ([], K, I))"
| "hold_apply (HSteer now n m) (H, I) = (let (es, K) = steer_held now n m H in (es, K, I))"
| "hold_apply (HPrompt now n m t x) (H, I) = ([], prompt_held now n m t x H, I)"
| "hold_apply (HEnd E aborted transport fresh) (H, I) = end_hold E aborted transport fresh H I"
| "hold_apply (HCancel fresh) (H, I) = (let (es, K) = cancel_hold fresh H in (es, K, I))"
| "hold_apply (HTurn taken) (H, I) = ([], H\<lparr>ho_slot := taken\<rparr>, I)"
| "hold_apply (HInbox E c) (H, I) = ([], H, snd (inbox_apply E c I))"

fun hold_play :: "hold_call list \<Rightarrow> hold \<times> inbox \<Rightarrow> (hold_effect list \<times> hold \<times> inbox) option" where
  "hold_play [] X = Some ([], X)"
| "hold_play (c # cs) X =
     (if hold_legal c (fst X)
      then let (es, Y) = hold_apply c X
           in (case hold_play cs Y of Some (fs, Z) \<Rightarrow> Some (es @ fs, Z) | None \<Rightarrow> None)
      else None)"

text \<open>What the calls queued, and where it went: into a turn, or reported as dropped.\<close>

fun asked :: "hold_call list \<Rightarrow> block list" where
  "asked [] = []"
| "asked (HSteer _ _ m # cs) = um_content m @ asked cs"
| "asked (HPrompt _ _ m _ _ # cs) = um_content m @ asked cs"
| "asked (_ # cs) = asked cs"

fun askers :: "hold_call list \<Rightarrow> nat list" where
  "askers [] = []"
| "askers (HPrompt _ _ _ _ x # cs) = x # askers cs"
| "askers (_ # cs) = askers cs"

fun gone :: "hold_effect list \<Rightarrow> block list" where
  "gone [] = []"
| "gone (Dropped m # es) = um_content m @ gone es"
| "gone (Started m _ _ _ # es) = um_content m @ gone es"
| "gone (_ # es) = gone es"

fun answered :: "hold_effect list \<Rightarrow> nat list" where
  "answered [] = []"
| "answered (Rejected x _ # es) = x # answered es"
| "answered (Started _ _ _ xs # es) = xs @ answered es"
| "answered (_ # es) = answered es"

definition held_blocks :: "hold \<Rightarrow> block list" where
  "held_blocks H = contents (map hd_message (held_input H))"

definition held_waiters :: "hold \<Rightarrow> nat list" where
  "held_waiters H = (case ho_next H of None \<Rightarrow> [] | Some w \<Rightarrow> aw_waiters w)"

lemma gone_simps [simp]:
  "gone (es @ fs) = gone es @ gone fs" "gone (map Woke ws) = []"
  "gone (map (\<lambda>h. Dropped (hd_message h)) hs) = contents (map hd_message hs)"
  "gone (map (\<lambda>x. Rejected x (f x)) xs) = []" "gone (map (\<lambda>h. Promoted (g h) t) hs) = []"
  by (induction es rule: gone.induct; simp) (induction ws; simp; fail | induction hs; simp; fail | induction xs; simp)+

lemma answered_simps [simp]:
  "answered (es @ fs) = answered es @ answered fs" "answered (map Woke ws) = []"
  "answered (map (\<lambda>h. Dropped (g h)) hs) = []"
  "answered (map (\<lambda>x. Rejected x (f x)) xs) = xs" "answered (map (\<lambda>h. Promoted (g h) t) hs) = []"
  by (induction es rule: answered.induct; simp) (induction ws; simp; fail | induction hs; simp; fail | induction xs; simp)+

lemma one_prompt_content: "um_content (one_prompt hs) = contents (map hd_message hs)"
proof (cases "length hs = 1")
  case True
  then obtain h where "hs = [h]" by (auto simp: length_Suc_conv)
  then show ?thesis by (simp add: one_prompt_def)
qed (simp add: one_prompt_def contents_def comp_def)

lemma start_next_moves:
  assumes "start_next aborted what fresh H = (es, K)"
  shows "gone es = held_blocks H" "answered es = held_waiters H" "ho_next K = None"
    "ho_slot K = ho_slot H" "ho_id K = ho_id H" "ho_snapshot H = held_input H \<Longrightarrow> ho_snapshot K = []"
  using assms one_prompt_content
  by (auto simp: start_next_def held_blocks_def held_waiters_def held_input_def clearHeldInput_def Let_def
      split: option.splits if_splits)

definition hold_ok :: "hold \<Rightarrow> bool" where
  "hold_ok H \<longleftrightarrow> ho_snapshot H = held_input H \<and> (ho_id H \<noteq> None \<longrightarrow> ho_slot H) \<and> (ho_next H \<noteq> None \<longrightarrow> ho_id H \<noteq> None)"

lemmas held_defs = held_blocks_def held_waiters_def held_input_def

lemma enqueue_held_simps [simp]:
  "held_input (enqueue_held now n m steered t H) = held_input H
     @ [\<lparr>hd_id = n, hd_holdId = the (ho_id H), hd_steer = steered, hd_message = m, hd_turnId = t\<rparr>]"
  "held_waiters (enqueue_held now n m steered t H) = held_waiters H"
  "ho_slot (enqueue_held now n m steered t H) = ho_slot H" "ho_id (enqueue_held now n m steered t H) = ho_id H"
  "ho_next (enqueue_held now n m steered t H) \<noteq> None"
  by (auto simp: enqueue_held_def held_input_def held_waiters_def Let_def split: option.splits)

lemma addHeldInput_simps [simp]:
  "ho_next (addHeldInput H) = ho_next H" "ho_slot (addHeldInput H) = ho_slot H" "ho_id (addHeldInput H) = ho_id H"
  "ho_snapshot (addHeldInput H) = held_input H" "held_input (addHeldInput H) = held_input H"
  "held_waiters (addHeldInput H) = held_waiters H"
  by (simp_all add: addHeldInput_def held_input_def held_waiters_def)

lemma prompt_held_simps:
  "held_input (prompt_held now n m t x H) = held_input (enqueue_held now n m False (Some t) H)"
  "held_waiters (prompt_held now n m t x H) = held_waiters H @ [x]"
  "ho_slot (prompt_held now n m t x H) = ho_slot H" "ho_id (prompt_held now n m t x H) = ho_id H"
  "ho_snapshot (prompt_held now n m t x H) = held_input (prompt_held now n m t x H)"
  by (auto simp: prompt_held_def enqueue_held_def held_input_def held_waiters_def Let_def split: option.splits)

lemma hold_step:
  assumes "hold_ok H" "hold_legal c H" "hold_apply c (H, I) = (es, K, J)"
  shows "hold_ok K \<and> gone es @ held_blocks K = held_blocks H @ asked [c]
    \<and> answered es @ held_waiters K = held_waiters H @ askers [c]"
proof (cases c)
  case (HBegin what n)
  show ?thesis using assms HBegin
    by (cases "ho_slot H") (auto simp: begin_hold_def hold_ok_def held_defs)
next
  case (HSteer now n m)
  then show ?thesis using assms
    by (auto simp: steer_held_def hold_ok_def held_blocks_def)
next
  case (HPrompt now n m t x)
  then show ?thesis using assms by (auto simp: hold_ok_def held_blocks_def prompt_held_simps)
next
  case (HEnd E aborted transport fresh)
  let ?M = "H\<lparr>ho_slot := False, ho_what := None, ho_id := None\<rparr>"
  let ?r = "start_next aborted (case ho_what H of Some w \<Rightarrow> w | None \<Rightarrow> []) fresh ?M"
  have K: "K = snd ?r" using assms(3) HEnd by (auto simp: end_hold_def Let_def split_def split: if_splits)
  obtain ws where es: "es = fst ?r @ map Woke ws"
    using assms(3) HEnd by (simp add: end_hold_def Let_def split_def) (metis list.simps(8))
  have "held_blocks ?M = held_blocks H" "held_waiters ?M = held_waiters H" "held_input ?M = held_input H"
    by (simp_all add: held_defs)
  then show ?thesis
    using start_next_moves [of aborted _ fresh ?M "fst ?r" "snd ?r", OF surjective_pairing] K es assms(1) HEnd
    by (auto simp: hold_ok_def held_defs contents_def)
next
  case (HCancel fresh)
  then obtain what where s: "start_next True what fresh H = (es, K)"
    using assms(3) by (auto simp: cancel_hold_def split_def Let_def intro: prod_eqI)
  show ?thesis
    using start_next_moves [OF s] assms(1) HCancel by (auto simp: hold_ok_def held_defs contents_def)
next
  case (HTurn taken)
  then show ?thesis using assms by (auto simp: hold_ok_def held_defs)
next
  case (HInbox E d)
  then show ?thesis using assms by auto
qed

lemma asked_Cons: "asked (c # cs) = asked [c] @ asked cs" "askers (c # cs) = askers [c] @ askers cs"
  by (cases c; simp)+

lemma append_chain: "a @ b = x @ p \<Longrightarrow> c @ d = b @ q \<Longrightarrow> (a @ c) @ d = x @ (p @ q)"
  by (metis append_assoc)

lemma hold_run:
  "hold_play calls (H, I) = Some (es, K, J) \<Longrightarrow> hold_ok H \<Longrightarrow>
   hold_ok K \<and> gone es @ held_blocks K = held_blocks H @ asked calls
   \<and> answered es @ held_waiters K = held_waiters H @ askers calls"
proof (induction calls arbitrary: H I es)
  case (Cons c cs)
  obtain es1 H1 I1 where 1: "hold_apply c (H, I) = (es1, H1, I1)" by (metis prod_cases3)
  then obtain fs where 2: "hold_legal c H" "hold_play cs (H1, I1) = Some (fs, K, J)" "es = es1 @ fs"
    using Cons.prems(1) by (auto split: if_splits option.splits)
  note step = hold_step [OF Cons.prems(2) 2(1) 1]
  note rest = Cons.IH [OF 2(2)]
  show ?case
    using step rest append_chain [of "gone es1" "held_blocks H1"] append_chain [of "answered es1" "held_waiters H1"]
    unfolding 2(3) asked_Cons [of c cs] gone_simps answered_simps by blast
qed simp

text \<open>
  C29. Input that waits behind held work is never lost and never answered twice: in any order of
  holds, steering, prompts, aborts and turns, what went into a turn or was reported as dropped, and
  what still waits, is in order everything that was queued; every prompt is answered once, with the
  turn it went into or a rejection, or still waits; nothing waits unless a hold is running, which has
  the slot; and the host's snapshot is what waits.
\<close>

theorem held_input_accounted:
  assumes "hold_play calls (new_hold, new_inbox) = Some (es, H, I)"
  shows "gone es @ contents (map hd_message (held_input H)) = asked calls
    \<and> answered es @ held_waiters H = askers calls
    \<and> (held_input H = [] \<and> held_waiters H = [] \<or> ho_id H \<noteq> None \<and> ho_slot H)
    \<and> ho_snapshot H = held_input H"
proof -
  have "hold_ok new_hold" by (simp add: hold_ok_def new_hold_def held_input_def)
  then show ?thesis
    using hold_run [OF assms] by (auto simp: hold_ok_def held_defs contents_def new_hold_def split: option.splits)
qed

definition hold_calls :: "hold_call list" where
  "hold_calls = [HBegin (js ''compaction'') 1, HSteer 5 1 done_message, HPrompt 6 2 done_message 9 4, HEnd idle_session False False 8]"

theorem held_input_accounted_witness:
  "case hold_play hold_calls (new_hold, new_inbox) of
     Some (es, H, I) \<Rightarrow> es = [Told done_message, Promoted done_message 9,
         Started \<lparr>um_content = [Text (js ''done''), Text (js ''done'')], um_display = None\<rparr> 9 5 [4]]
       \<and> gone es @ contents (map hd_message (held_input H)) = asked hold_calls
   | None \<Rightarrow> False"
proof -
  let ?run = "hold_play hold_calls (new_hold, new_inbox)"
  have eval: "map_option fst ?run = Some [Told done_message, Promoted done_message 9,
         Started \<lparr>um_content = [Text (js ''done''), Text (js ''done'')], um_display = None\<rparr> 9 5 [4]]"
    by code_simp
  then obtain es H I where run: "?run = Some (es, H, I)" by (cases ?run) auto
  show ?thesis using held_input_accounted [OF run] eval run by simp
qed

end
