(* ===== verification/JsonText.thy ===== *)
theory JsonText
  imports Json
begin

text \<open>
  \<open>JSON.parse\<close> as the language defines it, for the sources that read JSON lines back, and the
  round trip with \<open>stringify\<close>. A number is given by its literal; the members of an object are
  listed as written, and \<open>field\<close> reads the last of a name.
\<close>

definition json_ws :: "cu \<Rightarrow> bool" where
  "json_ws c \<longleftrightarrow> c = 32 \<or> c = 9 \<or> c = 10 \<or> c = 13"

definition skip_ws :: "jstring \<Rightarrow> jstring" where
  "skip_ws s = dropWhile json_ws s"

definition simple_escape :: "cu \<Rightarrow> cu option" where
  "simple_escape c =
     (if c = cDQ \<or> c = cBSL \<or> c = ch CHR ''/'' then Some c
      else if c = ch CHR ''b'' then Some 8
      else if c = ch CHR ''f'' then Some 12
      else if c = ch CHR ''n'' then Some 10
      else if c = ch CHR ''r'' then Some 13
      else if c = ch CHR ''t'' then Some 9
      else None)"

text \<open>The characters after an opening quote, and what follows the closing one.\<close>

definition cons_char :: "cu \<Rightarrow> (jstring \<times> jstring) option \<Rightarrow> (jstring \<times> jstring) option" where
  "cons_char c x = map_option (\<lambda>(s, r). (c # s, r)) x"

fun read_chars :: "jstring \<Rightarrow> (jstring \<times> jstring) option" where
  "read_chars [] = None"
| "read_chars (c # r) =
     (if c = cDQ then Some ([], r)
      else if c = cBSL then
        (case r of
           [] \<Rightarrow> None
         | e # r1 \<Rightarrow>
             if e = ch CHR ''u'' then
               (case r1 of
                  h1 # h2 # h3 # h4 # r2 \<Rightarrow>
                    if is_hex h1 \<and> is_hex h2 \<and> is_hex h3 \<and> is_hex h4
                    then cons_char (4096 * hex_digit_value h1 + 256 * hex_digit_value h2 + 16 * hex_digit_value h3
                           + hex_digit_value h4) (read_chars r2)
                    else None
                | _ \<Rightarrow> None)
             else (case simple_escape e of Some d \<Rightarrow> cons_char d (read_chars r1) | None \<Rightarrow> None))
      else if c < 32 then None
      else cons_char c (read_chars r))"

text \<open>\<open>-?(0|[1-9]\d*)(\.\d+)?([eE][+-]?\d+)?\<close>.\<close>

definition read_digits :: "jstring \<Rightarrow> (jstring \<times> jstring) option" where
  "read_digits s = (let ds = takeWhile is_digit s in if ds = [] then None else Some (ds, drop (length ds) s))"

definition read_integer :: "jstring \<Rightarrow> (jstring \<times> jstring) option" where
  "read_integer s =
     (case s of
        c # r \<Rightarrow> if c = 48 then Some ([c], r) else read_digits s
      | [] \<Rightarrow> None)"

definition read_fraction :: "jstring \<Rightarrow> (jstring \<times> jstring) option" where
  "read_fraction s =
     (case s of
        c # r \<Rightarrow> if c = 46 then map_option (\<lambda>(d, u). (c # d, u)) (read_digits r) else Some ([], s)
      | [] \<Rightarrow> Some ([], s))"

definition read_exponent :: "jstring \<Rightarrow> (jstring \<times> jstring) option" where
  "read_exponent s =
     (case s of
        c # r \<Rightarrow>
          if c = 101 \<or> c = 69 then
            (case r of
               d # u \<Rightarrow> if d = 43 \<or> d = 45 then map_option (\<lambda>(e, w). (c # d # e, w)) (read_digits u)
                         else map_option (\<lambda>(e, w). (c # e, w)) (read_digits r)
             | [] \<Rightarrow> None)
          else Some ([], s)
      | [] \<Rightarrow> Some ([], s))"

definition read_number :: "jstring \<Rightarrow> (jstring \<times> jstring) option" where
  "read_number s =
     (let (sign, r) = (case s of c # t \<Rightarrow> if c = 45 then ([c], t) else ([], s) | [] \<Rightarrow> ([], s)) in
      case read_integer r of
        None \<Rightarrow> None
      | Some (i, r1) \<Rightarrow>
          (case read_fraction r1 of
             None \<Rightarrow> None
           | Some (f, r2) \<Rightarrow>
               (case read_exponent r2 of None \<Rightarrow> None | Some (e, r3) \<Rightarrow> Some (sign @ i @ f @ e, r3))))"

text \<open>The first argument bounds the depth of calls; each two calls read at least one character.\<close>

fun parse_value :: "nat \<Rightarrow> jstring \<Rightarrow> (json \<times> jstring) option"
  and parse_elements :: "nat \<Rightarrow> jstring \<Rightarrow> (json list \<times> jstring) option"
  and parse_members :: "nat \<Rightarrow> jstring \<Rightarrow> ((jstring \<times> json) list \<times> jstring) option"
where
  "parse_value 0 s = None"
| "parse_value (Suc n) s =
     (case skip_ws s of
        [] \<Rightarrow> None
      | c # r \<Rightarrow>
          if c = cDQ then map_option (\<lambda>(t, u). (JStr t, u)) (read_chars r)
          else if c = 91 then
            (case skip_ws r of
               [] \<Rightarrow> None
             | d # u \<Rightarrow> if d = 93 then Some (JArr [], u)
                        else map_option (\<lambda>(vs, w). (JArr vs, w)) (parse_elements n r))
          else if c = 123 then
            (case skip_ws r of
               [] \<Rightarrow> None
             | d # u \<Rightarrow> if d = 125 then Some (JObj [], u)
                        else map_option (\<lambda>(kvs, w). (JObj kvs, w)) (parse_members n r))
          else if take 4 (c # r) = js ''true'' then Some (JBool True, drop 3 r)
          else if take 5 (c # r) = js ''false'' then Some (JBool False, drop 4 r)
          else if take 4 (c # r) = js ''null'' then Some (JNull, drop 3 r)
          else map_option (\<lambda>(t, u). (JNum t, u)) (read_number (c # r)))"
| "parse_elements 0 s = None"
| "parse_elements (Suc n) s =
     (case parse_value n s of
        None \<Rightarrow> None
      | Some (v, r) \<Rightarrow>
          (case skip_ws r of
             [] \<Rightarrow> None
           | c # u \<Rightarrow> if c = 44 then map_option (\<lambda>(vs, w). (v # vs, w)) (parse_elements n u)
                      else if c = 93 then Some ([v], u) else None))"
| "parse_members 0 s = None"
| "parse_members (Suc n) s =
     (case skip_ws s of
        [] \<Rightarrow> None
      | q # r \<Rightarrow>
          if q \<noteq> cDQ then None
          else (case read_chars r of
              None \<Rightarrow> None
            | Some (k, r1) \<Rightarrow>
                (case skip_ws r1 of
                   [] \<Rightarrow> None
                 | d # r2 \<Rightarrow>
                     if d \<noteq> 58 then None
                     else (case parse_value n r2 of
                         None \<Rightarrow> None
                       | Some (v, r3) \<Rightarrow>
                           (case skip_ws r3 of
                              [] \<Rightarrow> None
                            | c # u \<Rightarrow> if c = 44 then map_option (\<lambda>(kvs, w). ((k, v) # kvs, w)) (parse_members n u)
                                       else if c = 125 then Some ([(k, v)], u) else None)))))"

definition JSON_parse :: "jstring \<Rightarrow> json option" where
  "JSON_parse s =
     (case parse_value (2 * length s + 1) s of
        Some (v, r) \<Rightarrow> if skip_ws r = [] then Some v else None
      | None \<Rightarrow> None)"

definition field :: "jstring \<Rightarrow> (jstring \<times> json) list \<Rightarrow> json option" where
  "field k kvs = map_of (rev kvs) k"

section \<open>Round trip\<close>

lemma read_unicode_escape:
  "is_hex a \<Longrightarrow> is_hex b \<Longrightarrow> is_hex d \<Longrightarrow> is_hex e \<Longrightarrow>
   read_chars (cBSL # ch CHR ''u'' # a # b # d # e # s) = cons_char (4096 * hex_digit_value a + 256 * hex_digit_value b
     + 16 * hex_digit_value d + hex_digit_value e) (read_chars s)"
  by simp

lemma four_digits:
  assumes "0 \<le> (c::int)" "c < 65536"
  shows "4096 * (c div 4096 mod 16) + 256 * (c div 256 mod 16) + 16 * (c div 16 mod 16) + c mod 16 = c"
proof -
  have "c div 16 div 16 = c div 256" "c div 256 div 16 = c div 4096" by (simp_all flip: zdiv_zmult2_eq)
  moreover have "c div 4096 mod 16 = c div 4096" using assms by (intro mod_pos_pos_trivial) simp_all
  moreover note mult_div_mod_eq [of 16 c] mult_div_mod_eq [of 16 "c div 16"] mult_div_mod_eq [of 16 "c div 256"]
  ultimately show ?thesis by linarith
qed

lemma read_json_escape:
  assumes "0 \<le> c" "c < 65536"
  shows "read_chars (json_escape c @ s) = cons_char c (read_chars s)"
proof -
  have d: "is_hex (hex_digit (x mod 16))" "hex_digit_value (hex_digit (x mod 16)) = x mod 16" for x
    using hex_digit_hex [of "x mod 16"] by simp_all
  show ?thesis
    unfolding json_escape_def hex4_def append_Cons append_Nil read_unicode_escape [OF d(1) d(1) d(1) d(1)] d(2)
      four_digits [OF assms] ..
qed

lemma read_json_char: "0 \<le> c \<Longrightarrow> read_chars (json_char c @ s) = cons_char c (read_chars s)"
  using read_json_escape [of c s] by (auto simp: json_char_def simple_escape_def)

lemma read_chars_string:
  "list_all (\<lambda>c. 0 \<le> c) s \<Longrightarrow> read_chars (json_chars s @ cDQ # r) = Some (s, r)"
proof (induction s rule: json_chars.induct)
  case (2 c t)
  show ?case
    using 2 read_json_escape [of c] read_json_char [of c]
    by (cases t) (auto simp: cons_char_def)
qed simp


text \<open>The text of a number ends where no character of a number follows.\<close>

definition number_char :: "cu \<Rightarrow> bool" where
  "number_char c \<longleftrightarrow> is_digit c \<or> c = 43 \<or> c = 45 \<or> c = 46 \<or> c = 69 \<or> c = 101"

definition number_ends :: "jstring \<Rightarrow> bool" where
  "number_ends r \<longleftrightarrow> (case r of [] \<Rightarrow> True | c # _ \<Rightarrow> \<not> number_char c)"

definition written_number :: "jstring \<Rightarrow> bool" where
  "written_number n \<longleftrightarrow> read_number n = Some (n, []) \<and> list_all number_char n"

lemma number_ends_simps [simp]: "number_ends []" "number_ends (c # r) \<longleftrightarrow> \<not> number_char c"
  by (simp_all add: number_ends_def)

lemma number_ends_digits: "number_ends r \<Longrightarrow> takeWhile is_digit (s @ r) = takeWhile is_digit s"
proof (induction s)
  case Nil
  then show ?case by (cases r) (simp_all add: number_char_def)
qed simp

lemma read_digits_end: "number_ends r \<Longrightarrow> read_digits s = Some (d, u) \<Longrightarrow> read_digits (s @ r) = Some (d, u @ r)"
  using takeWhile_eq_take [of is_digit s] length_takeWhile_le [of is_digit s]
  by (auto simp: read_digits_def Let_def number_ends_digits split: if_splits)

lemma read_integer_end: "number_ends r \<Longrightarrow> read_integer s = Some (d, u) \<Longrightarrow> read_integer (s @ r) = Some (d, u @ r)"
  using read_digits_end [of r s] by (auto simp: read_integer_def split: list.splits if_splits)

lemma read_fraction_end: "number_ends r \<Longrightarrow> read_fraction s = Some (d, u) \<Longrightarrow> read_fraction (s @ r) = Some (d, u @ r)"
  using read_digits_end [of r "tl s"]
  by (cases r) (auto simp: read_fraction_def number_char_def split: list.splits if_splits)

lemma read_exponent_end: "number_ends r \<Longrightarrow> read_exponent s = Some (d, u) \<Longrightarrow> read_exponent (s @ r) = Some (d, u @ r)"
  using read_digits_end [of r "tl s"] read_digits_end [of r "tl (tl s)"]
  by (cases r) (auto simp: read_exponent_def number_char_def split: list.splits if_splits)

lemma read_number_end:
  assumes r: "number_ends r" and n: "read_number s = Some (d, u)"
  shows "read_number (s @ r) = Some (d, u @ r)"
proof -
  obtain c t where s: "s = c # t" using n by (cases s) (auto simp: read_number_def read_integer_def)
  define sign where "sign = (if c = 45 then [c] else [])"
  define v where "v = (if c = 45 then t else s)"
  obtain i r1 f r2 e where parts: "read_integer v = Some (i, r1)" "read_fraction r1 = Some (f, r2)"
    "read_exponent r2 = Some (e, u)" "d = sign @ i @ f @ e"
    using n unfolding read_number_def by (auto simp: s sign_def v_def split: option.splits if_splits)
  have "read_number (s @ r) = (case read_integer (v @ r) of None \<Rightarrow> None
      | Some (i, r1) \<Rightarrow> (case read_fraction r1 of None \<Rightarrow> None
        | Some (f, r2) \<Rightarrow> (case read_exponent r2 of None \<Rightarrow> None | Some (e, r3) \<Rightarrow> Some (sign @ i @ f @ e, r3))))"
    unfolding read_number_def by (cases "c = 45") (simp_all add: s sign_def v_def cong: option.case_cong prod.case_cong)
  then show ?thesis
    using read_integer_end [OF r parts(1)] read_fraction_end [OF r parts(2)] read_exponent_end [OF r parts(3)] parts(4)
    by simp
qed

text \<open>Values whose strings have no negative units and whose numbers are written as numbers.\<close>

fun written_json :: "json \<Rightarrow> bool" where
  "written_json (JNum n) = written_number n"
| "written_json (JStr s) = list_all (\<lambda>c. 0 \<le> c) s"
| "written_json (JArr vs) = list_all written_json vs"
| "written_json (JObj kvs) = list_all (\<lambda>(k, v). list_all (\<lambda>c. 0 \<le> c) k \<and> written_json v) kvs"
| "written_json _ = True"

lemma json_string_read: "list_all (\<lambda>c. 0 \<le> c) s \<Longrightarrow>
    \<exists>t. json_string s @ r = cDQ # t \<and> read_chars t = Some (s, r)"
  using read_chars_string by (simp add: json_string_def)

lemma number_start: "written_number n \<Longrightarrow> \<exists>c t. n = c # t \<and> number_char c"
  by (cases n) (auto simp: written_number_def read_number_def read_integer_def)

lemma number_char_values: "number_char c \<Longrightarrow>
    c \<noteq> 34 \<and> c \<noteq> 91 \<and> c \<noteq> 93 \<and> c \<noteq> 123 \<and> c \<noteq> 125 \<and> c \<noteq> 116 \<and> c \<noteq> 102 \<and> c \<noteq> 110 \<and> \<not> json_ws c"
  by (auto simp: number_char_def is_digit_def json_ws_def)

lemma stringify_start:
  "written_json v \<Longrightarrow> \<exists>c t. stringify v = c # t \<and> \<not> json_ws c \<and> c \<noteq> 93 \<and> c \<noteq> 125"
  by (cases v) (auto simp: js_simps json_string_def json_ws_def dest!: number_start number_char_values)

lemma skip_ws_start: "\<not> json_ws c \<Longrightarrow> skip_ws (c # s) = c # s"
  by (simp add: skip_ws_def)

definition reads_back :: "json \<Rightarrow> bool" where
  "reads_back v \<longleftrightarrow>
     (\<forall>n r. 2 * length (stringify v) \<le> n \<longrightarrow> number_ends r \<longrightarrow> parse_value n (stringify v @ r) = Some (v, r))"

lemma reads_backD:
  "reads_back v \<Longrightarrow> 2 * length (stringify v) \<le> n \<Longrightarrow> number_ends r \<Longrightarrow> parse_value n (stringify v @ r) = Some (v, r)"
  by (simp add: reads_back_def)

lemma number_separators [simp]: "\<not> number_char 44" "\<not> number_char 93" "\<not> number_char 125"
  by (simp_all add: number_char_def is_digit_def)

lemma number_reads: "written_number n \<Longrightarrow> reads_back (JNum n)"
  unfolding reads_back_def
proof (intro allI impI)
  fix m r assume n: "written_number n" and m: "2 * length (stringify (JNum n)) \<le> m" and r: "number_ends r"
  obtain c t where c: "n = c # t" "number_char c" using number_start [OF n] by auto
  obtain k where k: "m = Suc k" using m c by (cases m) auto
  have "read_number (n @ r) = Some (n, r)" using read_number_end [OF r, of n n "[]"] n by (simp add: written_number_def)
  then show "parse_value m (stringify (JNum n) @ r) = Some (JNum n, r)"
    using number_char_values [OF c(2)] unfolding c(1) k by (simp add: skip_ws_start js_simps)
qed

lemma elements_read:
  "vs \<noteq> [] \<Longrightarrow> \<forall>v \<in> set vs. reads_back v \<Longrightarrow> 2 * length (join_with [44] (map stringify vs)) + 1 \<le> n \<Longrightarrow>
   parse_elements n (join_with [44] (map stringify vs) @ 93 # r) = Some (vs, r)"
proof (induction vs arbitrary: n rule: induct_list012)
  case (2 v)
  then obtain m where "n = Suc m" by (cases n) auto
  then show ?case using 2 reads_backD [of v m] by (simp add: skip_ws_start json_ws_def)
next
  case (3 v w vs)
  then obtain m where m: "n = Suc m" by (cases n) auto
  have "parse_elements m (join_with [44] (map stringify (w # vs)) @ 93 # r) = Some (w # vs, r)"
    using 3 m by (intro "3.IH"(2)) simp_all
  then show ?case using 3 m reads_backD [of v m] by (simp add: skip_ws_start json_ws_def)
qed simp

definition member_text :: "jstring \<times> json \<Rightarrow> jstring" where
  "member_text kv = json_string (fst kv) @ 58 # stringify (snd kv)"

lemma members_read:
  "kvs \<noteq> [] \<Longrightarrow> \<forall>kv \<in> set kvs. list_all (\<lambda>c. 0 \<le> c) (fst kv) \<and> reads_back (snd kv) \<Longrightarrow>
   2 * length (join_with [44] (map member_text kvs)) + 1 \<le> n \<Longrightarrow>
   parse_members n (join_with [44] (map member_text kvs) @ 125 # r) = Some (kvs, r)"
proof (induction kvs arbitrary: n rule: induct_list012)
  case (2 kv)
  then obtain m where m: "n = Suc m" by (cases n) auto
  show ?case
    using 2 m reads_backD [of "snd kv" m] read_chars_string [of "fst kv"]
    by (simp add: skip_ws_start json_ws_def member_text_def json_string_def)
next
  case (3 kv kw kvs)
  then obtain m where m: "n = Suc m" by (cases n) auto
  have "parse_members m (join_with [44] (map member_text (kw # kvs)) @ 125 # r) = Some (kw # kvs, r)"
    using 3 m by (intro "3.IH"(2)) simp_all
  then show ?case
    using 3 m reads_backD [of "snd kv" m] read_chars_string [of "fst kv"]
    by (simp add: skip_ws_start json_ws_def member_text_def json_string_def)
qed simp

lemma stringify_reads: "written_json v \<Longrightarrow> reads_back v"
proof (induction v rule: written_json.induct)
  case (1 n)
  then show ?case by (simp add: number_reads)
next
  case (2 s)
  show ?case
    unfolding reads_back_def
  proof (intro allI impI)
    fix n r assume "2 * length (stringify (JStr s)) \<le> n" "number_ends r"
    then obtain m where "n = Suc m" by (cases n) (auto simp: json_string_def)
    then show "parse_value n (stringify (JStr s) @ r) = Some (JStr s, r)"
      using 2 read_chars_string by (simp add: json_string_def skip_ws_start json_ws_def)
  qed
next
  case (3 vs)
  have all: "\<forall>v \<in> set vs. reads_back v" using 3 by (simp add: list_all_iff)
  show ?case
    unfolding reads_back_def
  proof (intro allI impI)
    fix n r assume n: "2 * length (stringify (JArr vs)) \<le> n"
    then obtain m where m: "n = Suc m" by (cases n) (auto simp: js_simps)
    show "parse_value n (stringify (JArr vs) @ r) = Some (JArr vs, r)"
    proof (cases vs)
      case Nil
      then show ?thesis using m by (simp add: js_simps skip_ws_start json_ws_def)
    next
      case (Cons v ws)
      obtain c t where c: "stringify v = c # t" "\<not> json_ws c" "c \<noteq> 93"
        using stringify_start [of v] 3 Cons by (auto simp: list_all_iff)
      then obtain u where u: "join_with [44] (map stringify vs) @ 93 # r = c # u"
        using Cons by (cases ws) auto
      have "parse_elements m (join_with [44] (map stringify vs) @ 93 # r) = Some (vs, r)"
        using Cons all n m by (intro elements_read) (auto simp: js_simps)
      then show ?thesis using m c u by (simp add: js_simps skip_ws_start json_ws_def)
    qed
  qed
next
  case (4 kvs)
  have all: "\<forall>kv \<in> set kvs. list_all (\<lambda>c. 0 \<le> c) (fst kv) \<and> reads_back (snd kv)"
    using 4 by (fastforce simp: list_all_iff)
  have st: "stringify (JObj kvs) = 123 # join_with [44] (map member_text kvs) @ [125]"
    by (simp add: js_simps member_text_def [abs_def] case_prod_unfold)
  then have len: "length (stringify (JObj kvs)) = 2 + length (join_with [44] (map member_text kvs))"
    by (simp only: st) simp
  show ?case
    unfolding reads_back_def
  proof (intro allI impI)
    fix n r assume n: "2 * length (stringify (JObj kvs)) \<le> n"
    then obtain m where m: "n = Suc m" by (cases n) (auto simp: js_simps)
    show "parse_value n (stringify (JObj kvs) @ r) = Some (JObj kvs, r)"
    proof (cases kvs)
      case Nil
      then show ?thesis using m by (simp add: js_simps skip_ws_start json_ws_def)
    next
      case (Cons kv kws)
      obtain u where u: "join_with [44] (map member_text kvs) @ 125 # r = cDQ # u"
        using Cons by (cases kws) (auto simp: member_text_def json_string_def)
      have "parse_members m (join_with [44] (map member_text kvs) @ 125 # r) = Some (kvs, r)"
        using Cons all n m len by (intro members_read) (auto simp del: stringify.simps)
      then show ?thesis unfolding st using m u by (simp add: skip_ws_start json_ws_def)
    qed
  qed
qed (auto simp: reads_back_def js_simps skip_ws_start json_ws_def numeral_eq_Suc Suc_le_eq elim!: less_natE)

theorem JSON_parse_stringify: "written_json v \<Longrightarrow> JSON_parse (stringify v) = Some v"
  using reads_backD [OF stringify_reads, of v "2 * length (stringify v) + 1" "[]"]
  by (simp add: JSON_parse_def skip_ws_def)

subsection \<open>A text has no control characters\<close>

lemma hex_digit_printable: "48 \<le> hex_digit (x mod 16)"
proof -
  define y where "y = x mod 16"
  have "0 \<le> y" "y < 16" by (simp_all add: y_def)
  then show ?thesis unfolding y_def [symmetric] by (auto simp: hex_digit_def)
qed

lemma json_escape_printable: "x < 32 \<Longrightarrow> x \<notin> set (json_escape c)"
  using hex_digit_printable [of "c div 4096"] hex_digit_printable [of "c div 256"] hex_digit_printable [of "c div 16"]
    hex_digit_printable [of c]
  by (auto simp: json_escape_def hex4_def)

lemma json_chars_no_control: "x < 32 \<Longrightarrow> list_all (\<lambda>c. 0 \<le> c) s \<Longrightarrow> x \<notin> set (json_chars s)"
proof (induction s rule: json_chars.induct)
  case (2 c r)
  have "x \<notin> set (json_char c)" using json_escape_printable [OF 2(5), of c] 2(5) by (auto simp: json_char_def)
  then show ?case
    using 2 json_escape_printable [OF 2(5), of c] by (cases r) auto
qed simp

lemma join_without: "x \<notin> set sep \<Longrightarrow> \<forall>w \<in> set ws. x \<notin> set w \<Longrightarrow> x \<notin> set (join_with sep ws)"
  by (induction sep ws rule: join_with.induct) auto

lemma stringify_no_control: "x < 32 \<Longrightarrow> written_json v \<Longrightarrow> x \<notin> set (stringify v)"
proof (induction v rule: written_json.induct)
  case (1 n)
  then show ?case by (auto simp: written_number_def list_all_iff number_char_def is_digit_def)
next
  case (2 s)
  then show ?case using json_chars_no_control [of x s] by (auto simp: json_string_def)
next
  case (3 vs)
  then have "x \<notin> set (join_with [44] (map stringify vs))" by (intro join_without) (auto simp: list_all_iff)
  then show ?case using 3 by (auto simp: js_simps)
next
  case (4 kvs)
  have "x \<notin> set (json_string k @ 58 # stringify v)" if "(k, v) \<in> set kvs" for k v
    using that 4 json_chars_no_control [of x k] by (fastforce simp: list_all_iff json_string_def)
  then have "x \<notin> set (join_with [44] (map (\<lambda>(k, v). json_string k @ 58 # stringify v) kvs))"
    using 4(2) by (intro join_without) auto
  then show ?case using 4 by (auto simp: js_simps)
qed (auto simp: js_simps)

lemmas stringify_no_lf = stringify_no_control [of 10, simplified]

end
