(* ===== verification/PromptHistory.thy ===== *)
theory PromptHistory
  imports JsonText
begin

text \<open>
  The prompts sent in a project (\<open>packages/tui/src/prompt-history.ts\<close>): the list in memory, the file
  behind it, and walking it from the editor. The labels are those of
  \<open>packages/tui-kit/src/components/editor-pastes.ts\<close>. The file is a text that ends in a line break, or
  is missing; whether a write succeeds is an argument.
\<close>

datatype part = Plain jstring | Paste jstring | Picture jstring jstring

record history_entry =
  en_parts :: "part list"
  en_text :: jstring
  en_display :: jstring

section \<open>Entries\<close>

definition int_text :: "int \<Rightarrow> jstring" where
  "int_text n = (if n < 0 then 45 # digits_of (nat (- n)) else digits_of (nat n))"

definition control_char :: "cu \<Rightarrow> bool" where
  "control_char c \<longleftrightarrow> (0 \<le> c \<and> c < 32) \<or> (127 \<le> c \<and> c \<le> 159)"

definition imageLabel :: "jstring \<Rightarrow> jstring \<Rightarrow> nat \<Rightarrow> jstring" where
  "imageLabel name data n =
     (let bytes = int (length data) * 3 div 4
            - (if ends_with data (js ''=='') then 2 else if ends_with data (js ''='') then 1 else 0);
          quantity = (if bytes < 1024 then int_text bytes @ js '' B'' else int_text ((bytes + 1023) div 1024) @ js '' KB'')
      in js ''[image '' @ digits_of n @ js '': '' @ map (\<lambda>c. if control_char c then 32 else c) name @ js '' '' @ quantity
           @ js '']'')"

definition defaultPasteLabel :: "nat \<Rightarrow> nat \<Rightarrow> nat \<Rightarrow> jstring" where
  "defaultPasteLabel lines chars n =
     (if lines > 1 then js ''[pasted '' @ digits_of lines @ js '' lines #'' @ digits_of n @ js '']''
      else js ''[pasted '' @ digits_of chars @ js '' chars #'' @ digits_of n @ js '']'')"

definition paste_lines :: "jstring \<Rightarrow> nat" where
  "paste_lines s = length (split_by (\<lambda>c. c = 10) (if s \<noteq> [] \<and> last s = 10 then butlast s else s))"

text \<open>The counters are the numbers of the images and pastes so far.\<close>

fun full_text :: "nat \<Rightarrow> part list \<Rightarrow> jstring" where
  "full_text i [] = []"
| "full_text i (Plain s # ps) = s @ full_text i ps"
| "full_text i (Paste s # ps) = s @ full_text i ps"
| "full_text i (Picture name data # ps) = imageLabel name data (i + 1) @ full_text (i + 1) ps"

fun shown :: "nat \<Rightarrow> nat \<Rightarrow> part list \<Rightarrow> jstring" where
  "shown n i [] = []"
| "shown n i (Plain s # ps) = s @ shown n i ps"
| "shown n i (Picture name data # ps) = imageLabel name data (i + 1) @ shown n (i + 1) ps"
| "shown n i (Paste s # ps) = defaultPasteLabel (paste_lines s) (length s) (n + 1) @ shown (n + 1) i ps"

definition prompt_entry :: "part list \<Rightarrow> history_entry" where
  "prompt_entry parts = \<lparr>en_parts = parts, en_text = full_text 0 parts, en_display = shown 0 0 parts\<rparr>"

section \<open>Lines\<close>

fun is_plain :: "part \<Rightarrow> bool" where
  "is_plain (Plain _) = True"
| "is_plain _ = False"

fun is_picture :: "part \<Rightarrow> bool" where
  "is_picture (Picture _ _) = True"
| "is_picture _ = False"

text \<open>An image has its payload; entries with one are never serialized.\<close>

fun part_json :: "part \<Rightarrow> json" where
  "part_json (Plain s) = JStr s"
| "part_json (Paste s) = JObj [(js ''paste'', JStr s)]"
| "part_json (Picture name data) = JObj [(js ''image'', JObj [(js ''name'', JStr name), (js ''data'', JStr data)])]"

definition entry_json :: "history_entry \<Rightarrow> json" where
  "entry_json e =
     (if list_all is_plain (en_parts e) then JObj [(js ''text'', JStr (en_text e))]
      else JObj [(js ''parts'', JArr (map part_json (en_parts e)))])"

definition serialize :: "history_entry \<Rightarrow> jstring" where
  "serialize e = stringify (entry_json e)"

definition part_of :: "json \<Rightarrow> part option" where
  "part_of v = (case v of
     JStr s \<Rightarrow> Some (Plain s)
   | JObj kvs \<Rightarrow> (case field (js ''paste'') kvs of Some (JStr s) \<Rightarrow> Some (Paste s) | _ \<Rightarrow> None)
   | _ \<Rightarrow> None)"

fun parts_of :: "json list \<Rightarrow> part list option" where
  "parts_of [] = Some []"
| "parts_of (v # vs) =
     (case part_of v of
        None \<Rightarrow> None
      | Some p \<Rightarrow> map_option (\<lambda>ps. p # ps) (parts_of vs))"

definition parseLine :: "jstring \<Rightarrow> part list option" where
  "parseLine line =
     (case JSON_parse line of
        Some (JObj kvs) \<Rightarrow>
          (case field (js ''text'') kvs of
             Some (JStr s) \<Rightarrow> Some [Plain s]
           | _ \<Rightarrow> (case field (js ''parts'') kvs of Some (JArr vs) \<Rightarrow> parts_of vs | _ \<Rightarrow> None))
      | _ \<Rightarrow> None)"

section \<open>The history\<close>

definition HISTORY_LIMIT :: nat where "HISTORY_LIMIT = 1000"
definition MAX_SAVED_CHARS :: int where "MAX_SAVED_CHARS = 256 * 1024"

record history =
  hi_file :: bool
  hi_limit :: nat
  hi_entries :: "history_entry list option"

definition new_history :: "bool \<Rightarrow> nat option \<Rightarrow> history" where
  "new_history file limit = \<lparr>hi_file = file, hi_limit = (case limit of Some n \<Rightarrow> n | None \<Rightarrow> HISTORY_LIMIT), hi_entries = None\<rparr>"

text \<open>From the last line to the first: the first entry of each text, while there is room.\<close>

fun pick :: "nat \<Rightarrow> jstring list \<Rightarrow> jstring list \<Rightarrow> history_entry list" where
  "pick room [] seen = []"
| "pick room (l # ls) seen =
     (if room = 0 then []
      else case parseLine l of
          None \<Rightarrow> pick room ls seen
        | Some parts \<Rightarrow>
            let e = prompt_entry parts in
            if en_text e \<in> set seen then pick room ls seen
            else e # pick (room - 1) ls (en_text e # seen))"

definition file_lines :: "jstring \<Rightarrow> jstring list" where
  "file_lines raw = filter (\<lambda>l. trim l \<noteq> []) (split_by (\<lambda>c. c = 10) raw)"

definition file_text :: "history_entry list \<Rightarrow> jstring" where
  "file_text es = concat (map (\<lambda>e. serialize e @ [10]) es)"

text \<open>The entries and the file afterwards; \<open>ok\<close> tells whether the rewrite succeeds.\<close>

definition load_history :: "bool \<Rightarrow> history \<Rightarrow> jstring option \<Rightarrow> history_entry list \<times> jstring option" where
  "load_history ok H disk =
     (if \<not> hi_file H then ([], disk)
      else case disk of
          None \<Rightarrow> ([], disk)
        | Some raw \<Rightarrow>
            let lines = file_lines raw; kept = rev (pick (hi_limit H) (rev lines) [])
            in (kept, if length lines \<ge> 2 * hi_limit H \<and> ok then Some (file_text kept) else disk))"

definition entries_of :: "bool \<Rightarrow> history \<Rightarrow> jstring option \<Rightarrow> history_entry list \<times> history \<times> jstring option" where
  "entries_of ok H disk =
     (case hi_entries H of
        Some es \<Rightarrow> (es, H, disk)
      | None \<Rightarrow> let (es, disk') = load_history ok H disk in (es, H\<lparr>hi_entries := Some es\<rparr>, disk'))"

fun remove_text :: "jstring \<Rightarrow> history_entry list \<Rightarrow> history_entry list" where
  "remove_text t [] = []"
| "remove_text t (e # es) = (if en_text e = t then es else e # remove_text t es)"

text \<open>\<open>rewritten\<close> and \<open>appended\<close> tell whether the writes to the file succeed.\<close>

definition add_prompt :: "bool \<Rightarrow> bool \<Rightarrow> part list \<Rightarrow> history \<Rightarrow> jstring option \<Rightarrow> history \<times> jstring option" where
  "add_prompt rewritten appended parts H disk =
     (let e = prompt_entry parts in
      if trim (en_text e) = [] then (H, disk)
      else
        let (es, H1, disk1) = entries_of rewritten H disk;
            es1 = remove_text (en_text e) es @ [e];
            es2 = (if length es1 > hi_limit H then drop (length es1 - hi_limit H) es1 else es1);
            H2 = H1\<lparr>hi_entries := Some es2\<rparr>
        in if \<not> hi_file H \<or> int (length (en_text e)) > MAX_SAVED_CHARS \<or> list_ex is_picture parts \<or> \<not> appended
           then (H2, disk1)
           else (H2, Some ((case disk1 of Some raw \<Rightarrow> raw | None \<Rightarrow> []) @ serialize e @ [10])))"

section \<open>Walking\<close>

text \<open>
  The editor as the walk sees it; setting it gives it a new version. \<open>None\<close> is an index of -1.
\<close>

record editor =
  ed_version :: nat
  ed_isEmpty :: bool
  ed_onFirstRow :: bool
  ed_onLastRow :: bool

record navigator =
  na_index :: "nat option"
  na_recalled :: nat

datatype direction = Up | Down

definition recalling :: "navigator \<Rightarrow> editor \<Rightarrow> bool" where
  "recalling N E \<longleftrightarrow> na_index N \<noteq> None \<and> ed_version E = na_recalled N"

definition reset_walk :: "navigator \<Rightarrow> navigator" where
  "reset_walk N = N\<lparr>na_index := None\<rparr>"

text \<open>Whether the key is taken, the navigator, and what the editor is set to: nothing, empty, or an entry.\<close>

definition move :: "history_entry list \<Rightarrow> direction \<Rightarrow> editor \<Rightarrow> navigator \<Rightarrow> nat \<Rightarrow> bool \<times> navigator \<times> part list option" where
  "move es dir E N version =
     (let N1 = (if recalling N E then N else N\<lparr>na_index := None\<rparr>) in
      if (if recalling N E then (dir = Up \<and> \<not> ed_onFirstRow E) \<or> (dir = Down \<and> \<not> ed_onLastRow E)
          else \<not> ed_isEmpty E \<or> dir = Down \<or> es = []) then (False, N1, None)
      else
        let start = (case na_index N1 of Some i \<Rightarrow> i | None \<Rightarrow> length es) in
        if dir = Up \<and> start = 0 then (True, N1, None)
        else
          let goal = (if dir = Up then start - 1 else start + 1) in
          if goal \<ge> length es then (True, N1\<lparr>na_index := None\<rparr>, Some [])
          else (True, N1\<lparr>na_index := Some goal, na_recalled := version\<rparr>, Some (en_parts (es ! goal))))"


lemma up_then_down:
  assumes "move es Up E N v = (True, M, Some ps)" "na_index M = Some i" "i + 1 < length es"
    "ed_version F = v" "ed_onLastRow F"
  shows "move es Down F M w = (True, M\<lparr>na_index := Some (i + 1), na_recalled := w\<rparr>, Some (en_parts (es ! (i + 1))))"
proof -
  have "na_recalled M = v" using assms(1,2) by (auto simp: move_def Let_def split: if_splits)
  then have "recalling M F" using assms by (simp add: recalling_def)
  then show ?thesis using assms by (simp add: move_def Let_def)
qed

section \<open>Reading lines back\<close>

definition nonneg :: "jstring \<Rightarrow> bool" where
  "nonneg s \<longleftrightarrow> list_all (\<lambda>c. 0 \<le> c) s"

fun clean_part :: "part \<Rightarrow> bool" where
  "clean_part (Plain s) = nonneg s"
| "clean_part (Paste s) = nonneg s"
| "clean_part (Picture _ _) = False"

definition view :: "history_entry \<Rightarrow> jstring \<times> jstring" where
  "view e = (en_text e, en_display e)"

lemma prompt_entry_simps [simp]: "en_parts (prompt_entry ps) = ps" "en_text (prompt_entry ps) = full_text 0 ps" "en_display (prompt_entry ps) = shown 0 0 ps"
  by (simp_all add: prompt_entry_def)

lemma plain_shown: "list_all is_plain ps \<Longrightarrow> shown n i ps = full_text i ps"
  by (induction n i ps rule: shown.induct) auto

lemma plain_nonneg: "list_all is_plain ps \<Longrightarrow> list_all clean_part ps \<Longrightarrow> nonneg (full_text i ps)"
  by (induction i ps rule: full_text.induct) (auto simp: nonneg_def)

lemma parts_json: "list_all clean_part ps \<Longrightarrow> parts_of (map part_json ps) = Some ps"
proof (induction ps)
  case (Cons p ps)
  then show ?case by (cases p) (simp_all add: part_of_def field_def)
qed simp

lemma written_entry:
  assumes "list_all clean_part ps"
  shows "written_json (entry_json (prompt_entry ps))"
proof -
  have key: "list_all (\<lambda>c. 0 \<le> c) (js ''text'')" "list_all (\<lambda>c. 0 \<le> c) (js ''parts'')" "list_all (\<lambda>c. 0 \<le> c) (js ''paste'')"
    by (simp_all add: js_simps)
  have "written_json (part_json p)" if "clean_part p" for p
    using that key by (cases p) (simp_all add: nonneg_def)
  then show ?thesis
    using assms key plain_nonneg [of ps 0] by (auto simp: entry_json_def list_all_iff nonneg_def)
qed

lemma parseLine_serialize:
  assumes "list_all clean_part ps"
  shows "\<exists>qs. parseLine (serialize (prompt_entry ps)) = Some qs \<and> list_all clean_part qs \<and> view (prompt_entry qs) = view (prompt_entry ps)"
proof (cases "list_all is_plain ps")
  case True
  then have "parseLine (serialize (prompt_entry ps)) = Some [Plain (full_text 0 ps)]"
    using JSON_parse_stringify [OF written_entry [OF assms]]
    by (simp add: parseLine_def serialize_def entry_json_def field_def)
  then show ?thesis using True assms plain_shown [OF True] plain_nonneg [OF True] by (simp add: view_def)
next
  case False
  then have "parseLine (serialize (prompt_entry ps)) = Some ps"
    using JSON_parse_stringify [OF written_entry [OF assms]] parts_json [OF assms]
    by (simp add: parseLine_def serialize_def entry_json_def field_def)
  then show ?thesis using assms by blast
qed

subsection \<open>Strings of a parsed text\<close>

fun nonneg_json :: "json \<Rightarrow> bool" where
  "nonneg_json (JStr s) = nonneg s"
| "nonneg_json (JArr vs) = list_all nonneg_json vs"
| "nonneg_json (JObj kvs) = list_all (\<lambda>(k, v). nonneg_json v) kvs"
| "nonneg_json _ = True"

lemma hex_nonneg: "is_hex c \<Longrightarrow> 0 \<le> hex_digit_value c"
  by (auto simp: is_hex_def hex_digit_value_def is_digit_def)

lemma simple_escape_nonneg: "simple_escape e = Some d \<Longrightarrow> 0 \<le> d"
  by (auto simp: simple_escape_def split: if_splits)

lemma cons_char_cases:
  assumes "cons_char d x = Some (t, r)" "0 \<le> d"
  obtains t' where "t = d # t'" "0 \<le> d" "x = Some (t', r)"
  using assms by (auto simp: cons_char_def)

lemma read_chars_cases:
  assumes "read_chars (c # u) = Some (t, r)"
  obtains "t = []" | d w t' where "t = d # t'" "0 \<le> d" "read_chars w = Some (t', r)" "length w \<le> length u"
proof -
  consider "c = cDQ" | "c = cBSL" | "c \<noteq> cDQ" "c \<noteq> cBSL" by blast
  then show ?thesis
  proof cases
    case 1
    then show ?thesis using assms that(1) by simp
  next
    case 3
    then have "cons_char c (read_chars u) = Some (t, r)" "0 \<le> c" using assms by (auto split: if_split_asm)
    then show ?thesis using that(2) by (elim cons_char_cases) auto
  next
    case 2
    then obtain e r1 where u: "u = e # r1" using assms by (cases u) auto
    show ?thesis
    proof (cases "e = ch CHR ''u''")
      case False
      then obtain d where d: "simple_escape e = Some d" "cons_char d (read_chars r1) = Some (t, r)"
        using assms 2 u by (auto simp del: read_chars.simps(2) simp: read_chars.simps(2) [of cBSL] split: option.split_asm)
      then show ?thesis using that(2) simple_escape_nonneg [OF d(1)] u by (elim cons_char_cases) auto
    next
      case True
      obtain a b f g r2 where r1: "r1 = a # b # f # g # r2" and h: "is_hex a" "is_hex b" "is_hex f" "is_hex g"
        using assms 2 u True
        by (auto simp del: read_chars.simps(2) simp: read_chars.simps(2) [of cBSL] split: list.split_asm if_split_asm)
      let ?d = "4096 * hex_digit_value a + 256 * hex_digit_value b + 16 * hex_digit_value f + hex_digit_value g"
      have "0 \<le> ?d" using h [THEN hex_nonneg] by simp
      moreover have "cons_char ?d (read_chars r2) = Some (t, r)"
        using assms read_unicode_escape [OF h, of r2] by (simp add: 2 u True r1 del: read_chars.simps)
      ultimately obtain t' where "t = ?d # t'" "read_chars r2 = Some (t', r)" by (elim cons_char_cases)
      then show ?thesis using that(2) \<open>0 \<le> ?d\<close> u r1 by simp
    qed
  qed
qed

lemma read_chars_nonneg: "read_chars s = Some (t, r) \<Longrightarrow> nonneg t"
proof (induction s arbitrary: t rule: length_induct)
  case (1 s)
  show ?case
  proof (cases s)
    case (Cons c u)
    have "read_chars (c # u) = Some (t, r)" using 1(2) Cons by simp
    then show ?thesis
      by (rule read_chars_cases) (use 1(1) Cons in \<open>auto simp: nonneg_def less_Suc_eq_le simp del: read_chars.simps(2)\<close>)
  qed (use 1 in simp)
qed

definition members_ok :: "(jstring \<times> json) list \<Rightarrow> bool" where
  "members_ok kvs \<longleftrightarrow> list_all (\<lambda>(k, v). nonneg_json v) kvs"

lemma members_ok_simps [simp]: "members_ok []" "members_ok ((k, v) # kvs) \<longleftrightarrow> nonneg_json v \<and> members_ok kvs"
  "nonneg_json (JObj kvs) \<longleftrightarrow> members_ok kvs"
  by (simp_all add: members_ok_def)

lemma parse_value_cases:
  assumes "parse_value (Suc n) s = Some (v, r)"
  obtains t u w where "v = JStr t" "read_chars u = Some (t, w)"
  | "v = JArr []" | "v = JObj []"
  | vs u where "v = JArr vs" "parse_elements n u = Some (vs, r)"
  | kvs u where "v = JObj kvs" "parse_members n u = Some (kvs, r)"
  | b where "v = JBool b" | "v = JNull" | m where "v = JNum m"
  using assms by (auto split: if_split_asm list.split_asm)

lemma parse_nonneg:
  "(\<forall>s v r. parse_value n s = Some (v, r) \<longrightarrow> nonneg_json v)
   \<and> (\<forall>s vs r. parse_elements n s = Some (vs, r) \<longrightarrow> list_all nonneg_json vs)
   \<and> (\<forall>s kvs r. parse_members n s = Some (kvs, r) \<longrightarrow> members_ok kvs)"
proof (induction n)
  case (Suc n)
  then have IH: "parse_value n s = Some (v, r) \<Longrightarrow> nonneg_json v"
    "parse_elements n s = Some (vs, r) \<Longrightarrow> list_all nonneg_json vs"
    "parse_members n s = Some (kvs, r) \<Longrightarrow> members_ok kvs" for s v r vs kvs by blast+
  have "nonneg_json v" if "parse_value (Suc n) s = Some (v, r)" for s v r
    using that by (cases rule: parse_value_cases) (auto simp: IH read_chars_nonneg simp del: nonneg_json.simps(3))
  moreover have "list_all nonneg_json vs" if "parse_elements (Suc n) s = Some (vs, r)" for s vs r
    using that IH(1,2) by (auto split: if_split_asm list.split_asm option.split_asm)
  moreover have "members_ok kvs" if "parse_members (Suc n) s = Some (kvs, r)" for s kvs r
    using that IH(1,3) by (auto split: if_split_asm list.split_asm option.split_asm)
  ultimately show ?case by blast
qed simp


lemma parse_value_nonneg: "parse_value n s = Some (v, r) \<Longrightarrow> nonneg_json v"
  using parse_nonneg [of n] by blast

lemma JSON_parse_nonneg: "JSON_parse s = Some v \<Longrightarrow> nonneg_json v"
  by (auto simp: JSON_parse_def simp del: parse_value.simps dest: parse_value_nonneg split: option.splits if_splits)

lemma field_nonneg: "members_ok kvs \<Longrightarrow> field k kvs = Some v \<Longrightarrow> nonneg_json v"
  unfolding field_def members_ok_def by (auto simp: list_all_iff dest!: map_of_SomeD)

lemma part_of_clean: "nonneg_json v \<Longrightarrow> part_of v = Some p \<Longrightarrow> clean_part p"
  using field_nonneg by (fastforce simp: part_of_def simp del: nonneg_json.simps(3) split: json.splits option.splits)

lemma parts_of_clean: "list_all nonneg_json vs \<Longrightarrow> parts_of vs = Some ps \<Longrightarrow> list_all clean_part ps"
  by (induction vs arbitrary: ps) (auto split: option.splits dest: part_of_clean)

lemma parseLine_clean:
  assumes "parseLine l = Some ps"
  shows "list_all clean_part ps"
proof -
  obtain kvs where kvs: "JSON_parse l = Some (JObj kvs)"
    using assms by (auto simp: parseLine_def split: option.splits json.splits)
  have ok: "members_ok kvs" using JSON_parse_nonneg [OF kvs] by (simp del: nonneg_json.simps(3))
  consider s where "field (js ''text'') kvs = Some (JStr s)" "ps = [Plain s]"
    | vs where "field (js ''parts'') kvs = Some (JArr vs)" "parts_of vs = Some ps"
    using assms kvs by (auto simp: parseLine_def split: option.splits json.splits)
  then show ?thesis
  proof cases
    case 1
    then show ?thesis using field_nonneg [OF ok 1(1)] by simp
  next
    case 2
    then show ?thesis using field_nonneg [OF ok 2(1)] parts_of_clean by simp
  qed
qed

subsection \<open>Lines of the file\<close>

lemma trim_not_blank: "\<not> is_space c \<Longrightarrow> trim (c # s) \<noteq> []"
  by (auto simp: trim_def trim_start_def trim_end_def)

lemma serialize_line:
  assumes "list_all clean_part ps"
  shows "10 \<notin> set (serialize (prompt_entry ps))" "trim (serialize (prompt_entry ps)) \<noteq> []"
proof -
  show "10 \<notin> set (serialize (prompt_entry ps))"
    using stringify_no_lf [OF written_entry [OF assms]] by (simp add: serialize_def)
  have "\<exists>r. serialize (prompt_entry ps) = 123 # r" by (auto simp: serialize_def entry_json_def js_simps)
  then show "trim (serialize (prompt_entry ps)) \<noteq> []" using trim_not_blank [of 123] by (auto simp: is_space_def)
qed

definition ended :: "jstring \<Rightarrow> bool" where
  "ended raw \<longleftrightarrow> raw = [] \<or> last raw = 10"

lemma file_lines_snoc:
  assumes "ended raw" "10 \<notin> set l" "trim l \<noteq> []"
  shows "file_lines (raw @ l @ [10]) = file_lines raw @ [l]"
proof -
  have l: "split_by (\<lambda>c. c = 10) (l @ [10]) = [l, []]"
    using split_by_append_sep [of "\<lambda>c. c = 10" 10 l "[]"] split_by_plain [of l "\<lambda>c. c = 10"] assms(2) by auto
  have blank: "trim [] = []" by (simp add: trim_def trim_start_def trim_end_def)
  show ?thesis
  proof (cases "raw = []")
    case True
    then show ?thesis using l assms(3) blank by (simp add: file_lines_def)
  next
    case False
    then obtain u where u: "raw = u @ [10]" using assms(1) by (metis append_butlast_last_id ended_def)
    have "split_by (\<lambda>c. c = 10) (raw @ l @ [10]) = split_by (\<lambda>c. c = 10) u @ [l, []]"
      using split_by_append_sep [of "\<lambda>c. c = 10" 10 u "l @ [10]"] l u by simp
    moreover have "split_by (\<lambda>c. c = 10) raw = split_by (\<lambda>c. c = 10) u @ [[]]"
      using split_by_append_sep [of "\<lambda>c. c = 10" 10 u "[]"] u by simp
    ultimately show ?thesis using assms(3) blank by (simp add: file_lines_def)
  qed
qed

lemma ended_file_text: "ended (file_text es)"
  by (induction es) (auto simp: ended_def file_text_def)

lemma file_lines_text:
  "\<forall>e \<in> set es. \<exists>ps. e = prompt_entry ps \<and> list_all clean_part ps \<Longrightarrow> file_lines (file_text es) = map serialize es"
proof (induction es rule: rev_induct)
  case Nil
  show ?case by (simp add: file_text_def file_lines_def trim_def trim_start_def trim_end_def)
next
  case (snoc e es)
  obtain ps where ps: "e = prompt_entry ps" "list_all clean_part ps" using snoc.prems by auto
  have "file_text (es @ [e]) = file_text es @ serialize e @ [10]" by (simp add: file_text_def)
  then show ?case using snoc file_lines_snoc [OF ended_file_text serialize_line [OF ps(2)], of es] ps(1) by simp
qed


section \<open>The file and the list agree\<close>

text \<open>What a reading without a limit would give.\<close>

fun pick_all :: "jstring list \<Rightarrow> jstring list \<Rightarrow> history_entry list" where
  "pick_all [] seen = []"
| "pick_all (l # ls) seen =
     (case parseLine l of
        None \<Rightarrow> pick_all ls seen
      | Some parts \<Rightarrow>
          let e = prompt_entry parts in
          if en_text e \<in> set seen then pick_all ls seen else e # pick_all ls (en_text e # seen))"

lemma pick_take: "pick room ls seen = take room (pick_all ls seen)"
proof (induction ls arbitrary: room seen)
  case (Cons l ls)
  show ?case
  proof (cases room)
    case (Suc n)
    then show ?thesis using Cons by (simp add: Let_def split: option.split)
  qed simp
qed simp

lemma pick_all_set: "set seen = set seen' \<Longrightarrow> pick_all ls seen = pick_all ls seen'"
proof (induction ls arbitrary: seen seen')
  case (Cons l ls)
  show ?case
  proof (cases "parseLine l")
    case (Some ps)
    let ?u = "en_text (prompt_entry ps)"
    have "pick_all ls (?u # seen) = pick_all ls (?u # seen')" by (rule Cons.IH) (simp add: Cons.prems)
    then show ?thesis using Some Cons.IH [OF Cons.prems] Cons.prems by (simp add: Let_def)
  qed (simp add: Cons.IH [OF Cons.prems])
qed simp

lemma pick_all_seen: "pick_all ls (t # seen) = filter (\<lambda>e. en_text e \<noteq> t) (pick_all ls seen)"
proof (induction ls arbitrary: seen)
  case (Cons l ls)
  show ?case
  proof (cases "parseLine l")
    case None
    then show ?thesis using Cons by simp
  next
    case (Some ps)
    let ?u = "en_text (prompt_entry ps)"
    have swap: "pick_all ls (?u # t # seen) = pick_all ls (t # ?u # seen)" by (rule pick_all_set) auto
    have again: "filter (\<lambda>e. en_text e \<noteq> t) (pick_all ls (t # seen)) = pick_all ls (t # seen)"
      by (simp add: Cons.IH)
    show ?thesis
      using Some Cons.IH [of seen] Cons.IH [of "?u # seen"] swap again by (auto simp: Let_def)
  qed
qed simp

lemma pick_all_texts: "distinct (map en_text (pick_all ls seen)) \<and> set seen \<inter> set (map en_text (pick_all ls seen)) = {}"
proof (induction ls arbitrary: seen)
  case (Cons l ls)
  then show ?case
    using Cons.IH [of seen] Cons.IH [of "u # seen" for u]
    by (cases "parseLine l") (auto simp: Let_def)
qed simp

lemma pick_all_entries: "e \<in> set (pick_all ls seen) \<Longrightarrow> \<exists>ps. e = prompt_entry ps \<and> list_all clean_part ps"
  by (induction ls arbitrary: seen) (auto simp: Let_def dest: parseLine_clean split: option.splits if_splits)

definition stored :: "nat \<Rightarrow> jstring option \<Rightarrow> history_entry list" where
  "stored limit disk = (case disk of None \<Rightarrow> [] | Some raw \<Rightarrow> rev (take limit (pick_all (rev (file_lines raw)) [])))"

lemma load_stored: "hi_file H \<Longrightarrow> fst (load_history ok H disk) = stored (hi_limit H) disk"
  by (cases disk) (simp_all add: load_history_def stored_def pick_take Let_def)

lemma stored_distinct: "distinct (map en_text (stored limit disk)) \<and> length (stored limit disk) \<le> limit"
proof -
  have "distinct (map en_text (take n (pick_all ls [])))" for n ls
    using pick_all_texts [of ls "[]"] by (simp add: take_map [symmetric] distinct_take)
  then show ?thesis by (auto simp: stored_def rev_map [symmetric] split: option.split)
qed

lemma stored_entries: "e \<in> set (stored limit disk) \<Longrightarrow> \<exists>ps. e = prompt_entry ps \<and> list_all clean_part ps"
  using pick_all_entries by (auto simp: stored_def dest!: in_set_takeD split: option.splits)

text \<open>Entries seen only by their text and what they show.\<close>

lemma view_text: "view e = view f \<Longrightarrow> en_text e = en_text f"
  by (simp add: view_def)

lemma pick_all_serialized:
  "\<forall>e \<in> set es. \<exists>ps. e = prompt_entry ps \<and> list_all clean_part ps \<Longrightarrow> distinct (map en_text es) \<Longrightarrow>
   set seen \<inter> set (map en_text es) = {} \<Longrightarrow> map view (pick_all (map serialize es) seen) = map view es"
proof (induction es arbitrary: seen)
  case (Cons e es)
  obtain ps where ps: "e = prompt_entry ps" "list_all clean_part ps" using Cons.prems(1) by auto
  obtain qs where qs: "parseLine (serialize e) = Some qs" "view (prompt_entry qs) = view e"
    using parseLine_serialize [OF ps(2)] ps(1) by auto
  have same: "en_text (prompt_entry qs) = en_text e" using qs(2) by (rule view_text)
  have "map view (pick_all (map serialize es) (en_text e # seen)) = map view es"
    using Cons.prems by (intro Cons.IH) auto
  then show ?case using qs same Cons.prems by (simp add: Let_def del: prompt_entry_simps)
qed simp

lemma stored_rewritten:
  "map view (stored limit (Some (file_text (stored limit disk)))) = map view (stored limit disk)"
proof -
  let ?es = "stored limit disk"
  have "map view (pick_all (rev (file_lines (file_text ?es))) []) = map view (rev ?es)"
    using pick_all_serialized [of "rev ?es" "[]"] file_lines_text [of ?es] stored_entries stored_distinct [of limit disk]
    by (simp add: rev_map [symmetric])
  then have "map view (take limit (pick_all (rev (file_lines (file_text ?es))) [])) = map view (rev ?es)"
    using stored_distinct [of limit disk] by (simp add: take_map [symmetric])
  then show ?thesis unfolding stored_def [of limit "Some _"] by (simp add: rev_map [symmetric] del: rev_map)
qed


lemma distinct_head: "distinct (map f (x # xs)) \<Longrightarrow> y \<in> set xs \<Longrightarrow> f y \<noteq> f x"
  by simp (metis imageI)

lemma take_filter_distinct:
  "distinct (map f xs) \<Longrightarrow> take k (filter (\<lambda>x. f x \<noteq> t) (take (Suc k) xs)) = take k (filter (\<lambda>x. f x \<noteq> t) xs)"
proof (induction xs arbitrary: k)
  case (Cons x xs)
  show ?case
  proof (cases "f x = t")
    case True
    then have "f y \<noteq> t" if "y \<in> set xs" for y using distinct_head [OF Cons.prems that] by simp
    then have "filter (\<lambda>y. f y \<noteq> t) xs = xs" "filter (\<lambda>y. f y \<noteq> t) (take k xs) = take k xs"
      by (auto intro!: filter_True dest: in_set_takeD)
    then show ?thesis using True by simp
  next
    case False
    then show ?thesis using Cons by (cases k) auto
  qed
qed simp

definition push_entry :: "nat \<Rightarrow> history_entry \<Rightarrow> history_entry list \<Rightarrow> history_entry list" where
  "push_entry limit e es =
     (let es1 = remove_text (en_text e) es @ [e]
      in if length es1 > limit then drop (length es1 - limit) es1 else es1)"

lemma remove_text_filter: "distinct (map en_text es) \<Longrightarrow> remove_text t es = filter (\<lambda>e. en_text e \<noteq> t) es"
proof (induction es)
  case (Cons e es)
  have "filter (\<lambda>x. en_text x \<noteq> en_text e) es = es" using distinct_head [OF Cons.prems] by (intro filter_True) blast
  then show ?case using Cons by auto
qed simp

lemma push_rev:
  assumes "distinct (map en_text xs)"
  shows "push_entry limit e (rev (take limit xs)) = rev (take limit (e # filter (\<lambda>x. en_text x \<noteq> en_text e) xs))"
proof -
  let ?F = "filter (\<lambda>x. en_text x \<noteq> en_text e) (take limit xs)"
  have "distinct (map en_text (rev (take limit xs)))" using assms by (simp add: rev_map [symmetric] take_map [symmetric] distinct_take)
  then have "remove_text (en_text e) (rev (take limit xs)) @ [e] = rev (e # ?F)" by (simp add: remove_text_filter rev_filter)
  moreover have "(if length (rev ys) > limit then drop (length (rev ys) - limit) (rev ys) else rev ys) = rev (take limit ys)"
    for ys :: "history_entry list" by (simp add: rev_take)
  ultimately have "push_entry limit e (rev (take limit xs)) = rev (take limit (e # ?F))"
    unfolding push_entry_def Let_def by presburger
  then show ?thesis using take_filter_distinct [OF assms] by (cases limit) auto
qed

lemma remove_text_view: "map view es = map view fs \<Longrightarrow> map view (remove_text t es) = map view (remove_text t fs)"
proof (induction es arbitrary: fs)
  case (Cons e es)
  then obtain f gs where "fs = f # gs" "view e = view f" "map view es = map view gs" by auto
  then show ?case using Cons.IH [of gs] view_text [of e f] by simp
qed simp

lemma push_view:
  assumes "map view es = map view fs" "view e = view f"
  shows "map view (push_entry limit e es) = map view (push_entry limit f fs)"
proof -
  have *: "map view (remove_text (en_text e) es @ [e]) = map view (remove_text (en_text f) fs @ [f])"
    using remove_text_view [OF assms(1)] view_text [OF assms(2)] assms(2) by simp
  then have "length (remove_text (en_text e) es @ [e]) = length (remove_text (en_text f) fs @ [f])" by (rule map_eq_imp_length_eq)
  then show ?thesis using * by (simp add: push_entry_def Let_def drop_map [symmetric])
qed

lemma stored_append:
  assumes "ended raw" "list_all clean_part ps"
  shows "map view (stored limit (Some (raw @ serialize (prompt_entry ps) @ [10])))
    = map view (push_entry limit (prompt_entry ps) (stored limit (Some raw)))"
proof -
  let ?A = "pick_all (rev (file_lines raw)) []"
  obtain qs where qs: "parseLine (serialize (prompt_entry ps)) = Some qs" "view (prompt_entry qs) = view (prompt_entry ps)"
    using parseLine_serialize [OF assms(2)] by auto
  have "stored limit (Some (raw @ serialize (prompt_entry ps) @ [10]))
      = rev (take limit (prompt_entry qs # filter (\<lambda>x. en_text x \<noteq> en_text (prompt_entry qs)) ?A))"
    using file_lines_snoc [OF assms(1) serialize_line [OF assms(2)]] qs(1)
    by (simp add: stored_def Let_def pick_all_seen del: prompt_entry_simps)
  also have "\<dots> = push_entry limit (prompt_entry qs) (stored limit (Some raw))"
    using push_rev [of ?A limit] pick_all_texts [of _ "[]"] by (simp add: stored_def del: prompt_entry_simps)
  finally show ?thesis using push_view [OF refl qs(2)] by simp
qed

definition agrees :: "nat \<Rightarrow> history \<times> jstring option \<Rightarrow> bool" where
  "agrees limit X \<longleftrightarrow> hi_file (fst X) \<and> hi_limit (fst X) = limit
     \<and> (case snd X of None \<Rightarrow> True | Some raw \<Rightarrow> ended raw)
     \<and> (case hi_entries (fst X) of None \<Rightarrow> True | Some es \<Rightarrow> map view es = map view (stored limit (snd X)))"

lemma agrees_entries:
  assumes "agrees limit (H, disk)" "entries_of ok H disk = (es, K, disk')"
  shows "agrees limit (K, disk')" "hi_entries K = Some es" "map view es = map view (stored limit disk)"
proof -
  have "agrees limit (K, disk') \<and> hi_entries K = Some es \<and> map view es = map view (stored limit disk)"
  proof (cases "hi_entries H")
    case (Some fs)
    then show ?thesis using assms by (auto simp: entries_of_def agrees_def)
  next
    case None
    have H: "hi_file H" "hi_limit H = limit" using assms(1) by (simp_all add: agrees_def)
    have es: "es = stored limit disk" "K = H\<lparr>hi_entries := Some es\<rparr>"
      using None assms(2) load_stored [OF H(1), of ok disk] H(2) by (auto simp: entries_of_def split_def Let_def)
    have "disk' = disk \<or> disk' = Some (file_text (stored limit disk))"
      using None assms(2) H load_stored [OF H(1), of ok disk]
      by (auto simp: entries_of_def load_history_def split_def Let_def stored_def pick_take split: option.splits if_splits)
    then show ?thesis using es H assms(1) stored_rewritten ended_file_text by (auto simp: agrees_def)
  qed
  then show "agrees limit (K, disk')" "hi_entries K = Some es" "map view es = map view (stored limit disk)" by blast+
qed

lemma clean_no_picture: "list_all clean_part ps \<Longrightarrow> \<not> list_ex is_picture ps"
proof (induction ps)
  case (Cons p ps)
  then show ?case by (cases p) auto
qed simp

lemma agrees_add:
  assumes "agrees limit (H, disk)" "list_all clean_part ps" "int (length (full_text 0 ps)) \<le> MAX_SAVED_CHARS"
  shows "agrees limit (add_prompt ok True ps H disk)"
proof (cases "trim (full_text 0 ps) = []")
  case True
  then show ?thesis using assms(1) by (simp add: add_prompt_def Let_def)
next
  case False
  obtain es K disk' where E: "entries_of ok H disk = (es, K, disk')" by (metis prod_cases3)
  note K = agrees_entries [OF assms(1) E]
  let ?raw = "case disk' of Some raw \<Rightarrow> raw | None \<Rightarrow> []"
  let ?H = "K\<lparr>hi_entries := Some (push_entry limit (prompt_entry ps) es)\<rparr>"
  have k: "hi_file K" "hi_limit K = limit" "hi_file H" "hi_limit H = limit"
    using K(1) assms(1) by (simp_all add: agrees_def)
  have res: "add_prompt ok True ps H disk = (?H, Some (?raw @ serialize (prompt_entry ps) @ [10]))"
    using False E k assms(3) clean_no_picture [OF assms(2)]
    by (simp add: add_prompt_def push_entry_def Let_def cong: if_cong)
  have "stored limit (Some []) = []" by (simp add: stored_def file_lines_def trim_def trim_start_def trim_end_def)
  then have "map view es = map view (stored limit (Some ?raw))" "ended ?raw"
    using K by (auto simp: agrees_def stored_def ended_def split: option.splits)
  then show ?thesis
    using stored_append [OF _ assms(2), of ?raw limit] push_view [of es "stored limit (Some ?raw)" "prompt_entry ps" "prompt_entry ps" limit] k
    unfolding res by (simp add: agrees_def ended_def)
qed

fun add_all :: "(bool \<times> part list) list \<Rightarrow> history \<times> jstring option \<Rightarrow> history \<times> jstring option" where
  "add_all [] X = X"
| "add_all ((ok, ps) # as') X = add_all as' (add_prompt ok True ps (fst X) (snd X))"

lemma agrees_add_all:
  "list_all (\<lambda>(ok, ps). list_all clean_part ps \<and> int (length (full_text 0 ps)) \<le> MAX_SAVED_CHARS) adds \<Longrightarrow>
   agrees limit X \<Longrightarrow> agrees limit (add_all adds X)"
  by (induction adds X rule: add_all.induct) (auto simp: agrees_add)

text \<open>
  C30. A restart forgets no prompt: after any prompts that are saved, from any file, with any
  rewriting of it that may fail, a new history on the file shows the same entries in the same order
  as the one in memory, with the folded pastes still folded; each text is there once, and there are
  never more than the limit.
\<close>

theorem history_survives_restart:
  assumes "list_all (\<lambda>(ok, ps). list_all clean_part ps \<and> int (length (full_text 0 ps)) \<le> MAX_SAVED_CHARS) adds"
    "case disk of None \<Rightarrow> True | Some raw \<Rightarrow> ended raw"
    "add_all adds (new_history True (Some limit), disk) = (H, disk')"
  shows "map view (fst (entries_of ok1 (new_history True (Some limit)) disk')) = map view (fst (entries_of ok2 H disk'))
    \<and> distinct (map fst (map view (fst (entries_of ok2 H disk'))))
    \<and> length (fst (entries_of ok2 H disk')) \<le> limit"
proof -
  have "agrees limit (new_history True (Some limit), disk)" using assms(2) by (simp add: agrees_def new_history_def)
  then have H: "agrees limit (H, disk')" using agrees_add_all [OF assms(1)] assms(3) by metis
  then have N: "agrees limit (new_history True (Some limit), disk')" by (simp add: agrees_def new_history_def)
  have E: "entries_of ok K d = (fst (entries_of ok K d), fst (snd (entries_of ok K d)), snd (snd (entries_of ok K d)))" for ok K d by simp
  have v: "map view (fst (entries_of ok2 H disk')) = map view (stored limit disk')" by (rule agrees_entries(3) [OF H E])
  have "map view (fst (entries_of ok1 (new_history True (Some limit)) disk')) = map view (stored limit disk')"
    by (rule agrees_entries(3) [OF N E])
  moreover have "map fst (map view es) = map en_text es" for es by (simp add: view_def)
  ultimately show ?thesis using v stored_distinct [of limit disk'] by (metis length_map)
qed


definition two_prompts :: "(bool \<times> part list) list" where
  "two_prompts = [(True, [Plain (js ''fix ''), Paste (js ''log'')]), (True, [Plain (js ''run'')]), (True, [Plain (js ''fix ''), Paste (js ''log'')])]"

theorem history_survives_restart_witness:
  "let (H, disk) = add_all two_prompts (new_history True (Some 2), None) in
     map view (fst (entries_of True (new_history True (Some 2)) disk)) = map view (fst (entries_of True H disk))
     \<and> map view (fst (entries_of True H disk)) = [(js ''run'', js ''run''), (js ''fix log'', js ''fix [pasted 3 chars #1]'')]"
proof -
  have hyp: "list_all (\<lambda>(ok, ps). list_all clean_part ps \<and> int (length (full_text 0 ps)) \<le> MAX_SAVED_CHARS) two_prompts"
    "case None of None \<Rightarrow> True | Some raw \<Rightarrow> ended raw"
    by code_simp simp
  have eval: "map view (fst (entries_of True (fst (add_all two_prompts (new_history True (Some 2), None)))
       (snd (add_all two_prompts (new_history True (Some 2), None)))))
     = [(js ''run'', js ''run''), (js ''fix log'', js ''fix [pasted 3 chars #1]'')]" by code_simp
  then show ?thesis
    using history_survives_restart [OF hyp surjective_pairing [of "add_all two_prompts (new_history True (Some 2), None)"], of True True]
    by (simp add: Let_def split_def)
qed

end
