(* ===== verification/Controller.thy ===== *)
theory Controller
  imports Prelude
begin

text \<open>
  Who controls a workspace (\<open>packages/cli/src/server/controller.ts\<close>): one lease at a time, with a
  generation that fences the connections before it. The clock's reading and the token drawn are
  arguments of a call. A call that throws may still have moved the clock and ended a lease whose grace
  is over, so every call gives its result and the controller after it.
\<close>

record lease =
  ls_clientId :: jstring
  ls_token :: jstring
  ls_generation :: int

record held_lease =
  hl_lease :: lease
  hl_roles :: bool
  hl_servesModels :: bool
  hl_attached :: bool
  hl_tokenExpiresAt :: int
  hl_detachedUntil :: "int option"
  hl_since :: int

record controller =
  ct_held :: "held_lease option"
  ct_generation :: int
  ct_lastTime :: int
  ct_graceMs :: int
  ct_tokenLifetimeMs :: int

datatype control_error =
    BadOption | BadClock | InvalidFrame | ControllerBusy | PermissionDenied | LimitExceeded
  | UnsupportedCapability | StaleController

definition MAX_SAFE_INTEGER :: int where "MAX_SAFE_INTEGER = 9007199254740991"
definition TAKE_INTERVAL_MS :: int where "TAKE_INTERVAL_MS = 1000"

definition bad_identity :: "jstring \<Rightarrow> bool" where
  "bad_identity s \<longleftrightarrow> s = [] \<or> 128 < length s \<or> \<not> list_all (\<lambda>c. is_alnum c \<or> one_of c ''_.:-'') s"

definition bad_generation :: "int \<Rightarrow> bool" where
  "bad_generation n \<longleftrightarrow> n < 1 \<or> MAX_SAFE_INTEGER < n"

definition new_controller :: "int option \<Rightarrow> int option \<Rightarrow> control_error + controller" where
  "new_controller grace lifetime =
     (let g = (case grace of Some n \<Rightarrow> n | None \<Rightarrow> 30000);
          t = (case lifetime of Some n \<Rightarrow> n | None \<Rightarrow> 24 * 60 * 60 * 1000)
      in if g < 0 \<or> MAX_SAFE_INTEGER < g then Inl BadOption
         else if t < 1 \<or> MAX_SAFE_INTEGER < t then Inl BadOption
         else Inr \<lparr>ct_held = None, ct_generation = 0, ct_lastTime = 0, ct_graceMs = g, ct_tokenLifetimeMs = t\<rparr>)"

definition now :: "int \<Rightarrow> controller \<Rightarrow> control_error + controller" where
  "now clock C =
     (if clock < 0 \<or> MAX_SAFE_INTEGER < clock then Inl BadClock
      else Inr (C\<lparr>ct_lastTime := max (ct_lastTime C) clock\<rparr>))"

definition expireDetached :: "int \<Rightarrow> controller \<Rightarrow> controller" where
  "expireDetached t C =
     (case ct_held C of
        Some h \<Rightarrow> if \<not> hl_attached h \<and> the (hl_detachedUntil h) \<le> t then C\<lparr>ct_held := None\<rparr> else C
      | None \<Rightarrow> C)"

text \<open>Every call first reads the clock and ends a grace that is over; a bad reading throws.\<close>

definition timed :: "int \<Rightarrow> controller \<Rightarrow> (int \<Rightarrow> controller \<Rightarrow> (control_error + 'a) \<times> controller) \<Rightarrow> (control_error + 'a) \<times> controller" where
  "timed clock C f =
     (case now clock C of
        Inl e \<Rightarrow> (Inl e, C)
      | Inr D \<Rightarrow> f (ct_lastTime D) (expireDetached (ct_lastTime D) D))"

text \<open>The rest of a call, at a time and on a controller without a grace that is over.\<close>

definition attach_at ::
  "jstring \<Rightarrow> jstring option \<Rightarrow> bool \<Rightarrow> bool \<Rightarrow> jstring \<Rightarrow> int \<Rightarrow> controller \<Rightarrow> (control_error + lease) \<times> controller" where
  "attach_at clientId token roles servesModels fresh t C =
     (let refusal = (case ct_held C of
            Some p \<Rightarrow>
              if clientId \<noteq> ls_clientId (hl_lease p) \<or> token \<noteq> Some (ls_token (hl_lease p)) then Some ControllerBusy
              else if hl_tokenExpiresAt p \<le> t then Some PermissionDenied else None
          | None \<Rightarrow> if token \<noteq> None then Some PermissionDenied else None)
      in case refusal of
           Some e \<Rightarrow> (Inl e, C)
         | None \<Rightarrow>
             if ct_generation C = MAX_SAFE_INTEGER then (Inl LimitExceeded, C)
             else
               let l = \<lparr>ls_clientId = clientId,
                        ls_token = (case ct_held C of Some p \<Rightarrow> ls_token (hl_lease p) | None \<Rightarrow> fresh),
                        ls_generation = ct_generation C + 1\<rparr>;
                   h = \<lparr>hl_lease = l, hl_roles = roles, hl_servesModels = servesModels, hl_attached = True,
                        hl_tokenExpiresAt = (case ct_held C of Some p \<Rightarrow> hl_tokenExpiresAt p
                          | None \<Rightarrow> min MAX_SAFE_INTEGER (t + ct_tokenLifetimeMs C)),
                        hl_detachedUntil = None,
                        hl_since = (case ct_held C of Some p \<Rightarrow> hl_since p | None \<Rightarrow> t)\<rparr>
               in (Inr l, C\<lparr>ct_generation := ct_generation C + 1, ct_held := Some h\<rparr>))"

definition attach ::
  "jstring \<Rightarrow> jstring option \<Rightarrow> bool \<Rightarrow> bool \<Rightarrow> jstring \<Rightarrow> int \<Rightarrow> controller \<Rightarrow> (control_error + lease) \<times> controller" where
  "attach clientId token roles servesModels fresh clock C =
     (if bad_identity clientId then (Inl InvalidFrame, C)
      else if (case token of Some k \<Rightarrow> bad_identity k | None \<Rightarrow> False) then (Inl InvalidFrame, C)
      else timed clock C (attach_at clientId token roles servesModels fresh))"

definition take_refusal :: "jstring \<Rightarrow> bool \<Rightarrow> int \<Rightarrow> held_lease option \<Rightarrow> control_error option" where
  "take_refusal clientId servesModels t previous =
     (case previous of
        None \<Rightarrow> None
      | Some p \<Rightarrow>
          if ls_clientId (hl_lease p) = clientId then None
          else if t - hl_since p < TAKE_INTERVAL_MS then Some ControllerBusy
          else if hl_attached p \<and> \<not> hl_roles p then Some ControllerBusy
          else if hl_attached p \<and> hl_servesModels p \<and> \<not> servesModels then Some UnsupportedCapability
          else None)"

definition take_at ::
  "jstring \<Rightarrow> bool \<Rightarrow> jstring \<Rightarrow> int \<Rightarrow> controller \<Rightarrow> (control_error + lease \<times> (lease \<times> bool) option) \<times> controller" where
  "take_at clientId servesModels fresh t C =
     (case take_refusal clientId servesModels t (ct_held C) of
        Some e \<Rightarrow> (Inl e, C)
      | None \<Rightarrow>
          if ct_generation C = MAX_SAFE_INTEGER then (Inl LimitExceeded, C)
          else
            let l = \<lparr>ls_clientId = clientId, ls_token = fresh, ls_generation = ct_generation C + 1\<rparr>;
                h = \<lparr>hl_lease = l, hl_roles = True, hl_servesModels = servesModels, hl_attached = True,
                     hl_tokenExpiresAt = min MAX_SAFE_INTEGER (t + ct_tokenLifetimeMs C), hl_detachedUntil = None,
                     hl_since = (case ct_held C of
                       Some p \<Rightarrow> if ls_clientId (hl_lease p) = clientId then hl_since p else t | None \<Rightarrow> t)\<rparr>
            in (Inr (l, map_option (\<lambda>p. (hl_lease p, hl_attached p)) (ct_held C)),
                C\<lparr>ct_generation := ct_generation C + 1, ct_held := Some h\<rparr>))"

definition take_control ::
  "jstring \<Rightarrow> bool \<Rightarrow> jstring \<Rightarrow> int \<Rightarrow> controller \<Rightarrow> (control_error + lease \<times> (lease \<times> bool) option) \<times> controller" where
  "take_control clientId servesModels fresh clock C =
     (if bad_identity clientId then (Inl InvalidFrame, C) else timed clock C (take_at clientId servesModels fresh))"

definition release_at :: "jstring \<Rightarrow> jstring \<Rightarrow> int \<Rightarrow> controller \<Rightarrow> (control_error + lease option) \<times> controller" where
  "release_at clientId token t C =
     (case ct_held C of
        None \<Rightarrow> (Inr None, C)
      | Some h \<Rightarrow>
          if ls_clientId (hl_lease h) \<noteq> clientId \<or> ls_token (hl_lease h) \<noteq> token \<or> hl_tokenExpiresAt h \<le> t
          then (Inr None, C)
          else (Inr (Some (hl_lease h)), C\<lparr>ct_held := None\<rparr>))"

definition release_control :: "jstring \<Rightarrow> jstring \<Rightarrow> int \<Rightarrow> controller \<Rightarrow> (control_error + lease option) \<times> controller" where
  "release_control clientId token clock C =
     (if bad_identity clientId \<or> bad_identity token then (Inl InvalidFrame, C)
      else timed clock C (release_at clientId token))"

datatype control_state = SAttached | SDetached int | SNone

definition control_state_of :: "int \<Rightarrow> controller \<Rightarrow> (control_error + control_state) \<times> controller" where
  "control_state_of clock C = timed clock C (\<lambda>t D.
     (Inr (case ct_held D of
        None \<Rightarrow> SNone
      | Some h \<Rightarrow> if hl_attached h then SAttached else SDetached (the (hl_detachedUntil h) - t)), D))"

definition is_current :: "jstring \<Rightarrow> int \<Rightarrow> held_lease option \<Rightarrow> bool" where
  "is_current clientId generation held \<longleftrightarrow>
     (case held of
        Some h \<Rightarrow> hl_attached h \<and> ls_clientId (hl_lease h) = clientId \<and> ls_generation (hl_lease h) = generation
      | None \<Rightarrow> False)"

definition detach_at :: "jstring \<Rightarrow> int \<Rightarrow> int \<Rightarrow> controller \<Rightarrow> (control_error + bool) \<times> controller" where
  "detach_at clientId generation t C =
     (if \<not> is_current clientId generation (ct_held C) then (Inr False, C)
      else
        let h = the (ct_held C);
            k = h\<lparr>hl_attached := False, hl_detachedUntil := Some (min (hl_tokenExpiresAt h) (t + ct_graceMs C))\<rparr>
        in (Inr True, expireDetached t (C\<lparr>ct_held := Some k\<rparr>)))"

definition detach :: "jstring \<Rightarrow> int \<Rightarrow> int \<Rightarrow> controller \<Rightarrow> (control_error + bool) \<times> controller" where
  "detach clientId generation clock C =
     (if bad_identity clientId \<or> bad_generation generation then (Inl InvalidFrame, C)
      else timed clock C (detach_at clientId generation))"

definition assertCurrent :: "jstring \<Rightarrow> int \<Rightarrow> int \<Rightarrow> controller \<Rightarrow> (control_error + unit) \<times> controller" where
  "assertCurrent clientId generation clock C =
     (if bad_identity clientId \<or> bad_generation generation then (Inl InvalidFrame, C)
      else timed clock C (\<lambda>t D.
        (if is_current clientId generation (ct_held D) then Inr () else Inl StaleController, D)))"

definition holds :: "jstring \<Rightarrow> int \<Rightarrow> controller \<Rightarrow> (control_error + bool) \<times> controller" where
  "holds clientId clock C = timed clock C (\<lambda>t D.
     (Inr (case ct_held D of Some h \<Rightarrow> ls_clientId (hl_lease h) = clientId | None \<Rightarrow> False), D))"


section \<open>Who is in control\<close>

text \<open>
  The authority as it should be: nobody, a client attached with a generation, or a client the
  workspace is reserved for until a time; with the time since when the client is in control.
\<close>

datatype control = Free | Attached jstring int int | Reserved jstring int int

datatype control_event =
    Granted int bool lease
  | Left jstring int int
  | Released lease
  | Allowed jstring int
  | Refused jstring int

fun owner_at :: "int \<Rightarrow> control \<Rightarrow> (jstring \<times> int) option" where
  "owner_at t Free = None"
| "owner_at t (Attached c g z) = Some (c, z)"
| "owner_at t (Reserved c u z) = (if u \<le> t then None else Some (c, z))"

text \<open>
  What may happen next: a lease is granted only with a new generation, to whoever is in control, when
  nobody is, or by a takeover a second after the last change; only the client that is attached can
  leave, and its effects are the only ones allowed.
\<close>

fun judge :: "control \<times> int \<Rightarrow> control_event \<Rightarrow> (control \<times> int) option" where
  "judge (s, n) (Granted t takeover l) =
     (case owner_at t s of
        None \<Rightarrow> if n < ls_generation l then Some (Attached (ls_clientId l) (ls_generation l) t, ls_generation l) else None
      | Some (c, z) \<Rightarrow>
          if n < ls_generation l \<and> (c = ls_clientId l \<or> takeover \<and> z + 1000 \<le> t)
          then Some (Attached (ls_clientId l) (ls_generation l) (if c = ls_clientId l then z else t), ls_generation l)
          else None)"
| "judge (s, n) (Left c g u) =
     (case s of Attached d h z \<Rightarrow> if c = d \<and> g = h then Some (Reserved c u z, n) else None | _ \<Rightarrow> None)"
| "judge (s, n) (Released l) =
     (case s of
        Attached d h z \<Rightarrow> if d = ls_clientId l \<and> h = ls_generation l then Some (Free, n) else None
      | Reserved d u z \<Rightarrow> if d = ls_clientId l then Some (Free, n) else None
      | Free \<Rightarrow> None)"
| "judge (s, n) (Allowed c g) = (case s of Attached d h z \<Rightarrow> if c = d \<and> g = h then Some (s, n) else None | _ \<Rightarrow> None)"
| "judge (s, n) (Refused c g) = (case s of Attached d h z \<Rightarrow> if c = d \<and> g = h then None else Some (s, n) | _ \<Rightarrow> Some (s, n))"

fun judge_all :: "control \<times> int \<Rightarrow> control_event list \<Rightarrow> (control \<times> int) option" where
  "judge_all s [] = Some s"
| "judge_all s (e # es) = (case judge s e of None \<Rightarrow> None | Some s' \<Rightarrow> judge_all s' es)"

datatype control_call =
    CAttach jstring "jstring option" bool bool jstring
  | CTakeControl jstring bool jstring
  | CRelease jstring jstring
  | CDetach jstring int
  | CAssert jstring int
  | CState
  | CHolds jstring

text \<open>The events of a call at a reading of the clock; the time is the latest reading so far.\<close>

fun control_step :: "int \<Rightarrow> control_call \<Rightarrow> controller \<Rightarrow> control_event list \<times> controller" where
  "control_step clock (CAttach c k r m f) C =
     (case attach c k r m f clock C of
        (Inr l, D) \<Rightarrow> ([Granted (ct_lastTime D) False l], D) | (Inl _, D) \<Rightarrow> ([], D))"
| "control_step clock (CTakeControl c m f) C =
     (case take_control c m f clock C of
        (Inr (l, _), D) \<Rightarrow> ([Granted (ct_lastTime D) True l], D) | (Inl _, D) \<Rightarrow> ([], D))"
| "control_step clock (CRelease c k) C =
     (case release_control c k clock C of (Inr (Some l), D) \<Rightarrow> ([Released l], D) | (_, D) \<Rightarrow> ([], D))"
| "control_step clock (CDetach c g) C =
     (let expires = (case ct_held C of Some h \<Rightarrow> hl_tokenExpiresAt h | None \<Rightarrow> 0) in
      case detach c g clock C of
        (Inr True, D) \<Rightarrow> ([Left c g (min expires (ct_lastTime D + ct_graceMs D))], D) | (_, D) \<Rightarrow> ([], D))"
| "control_step clock (CAssert c g) C =
     (case assertCurrent c g clock C of
        (Inr _, D) \<Rightarrow> ([Allowed c g], D)
      | (Inl e, D) \<Rightarrow> (if e = StaleController then [Refused c g] else [], D))"
| "control_step clock CState C = ([], snd (control_state_of clock C))"
| "control_step clock (CHolds c) C = ([], snd (holds c clock C))"

fun control_play :: "(int \<times> control_call) list \<Rightarrow> controller \<Rightarrow> control_event list \<times> controller" where
  "control_play [] C = ([], C)"
| "control_play ((clock, c) # cs) C =
     (let (es, D) = control_step clock c C; (fs, E) = control_play cs D in (es @ fs, E))"

definition abides :: "controller \<Rightarrow> control \<Rightarrow> bool" where
  "abides C s \<longleftrightarrow>
     (case ct_held C of
        None \<Rightarrow> owner_at (ct_lastTime C) s = None
      | Some h \<Rightarrow>
          if hl_attached h then s = Attached (ls_clientId (hl_lease h)) (ls_generation (hl_lease h)) (hl_since h)
          else s = Reserved (ls_clientId (hl_lease h)) (the (hl_detachedUntil h)) (hl_since h))"

lemma owner_later: "owner_at t s = None \<Longrightarrow> t \<le> u \<Longrightarrow> owner_at u s = None"
  by (cases s) (auto split: if_splits)

text \<open>After the clock is read, what is held is what the authority says.\<close>

definition settled :: "controller \<Rightarrow> control \<Rightarrow> bool" where
  "settled D s \<longleftrightarrow> abides D s
     \<and> (case ct_held D of Some h \<Rightarrow> hl_attached h \<or> ct_lastTime D < the (hl_detachedUntil h) | None \<Rightarrow> True)"

lemma settled_expire:
  assumes "abides C s" "now clock C = Inr D"
  shows "settled (expireDetached (ct_lastTime D) D) s" "ct_lastTime (expireDetached (ct_lastTime D) D) = ct_lastTime D"
    "ct_generation (expireDetached (ct_lastTime D) D) = ct_generation C"
proof -
  have D: "ct_held D = ct_held C" "ct_lastTime C \<le> ct_lastTime D" "ct_generation D = ct_generation C"
    using assms(2) by (auto simp: now_def split: if_splits)
  show "settled (expireDetached (ct_lastTime D) D) s"
    using assms(1) D owner_later [of "ct_lastTime C" s "ct_lastTime D"]
    by (auto simp: settled_def abides_def expireDetached_def split: option.splits if_splits)
  show "ct_lastTime (expireDetached (ct_lastTime D) D) = ct_lastTime D"
    "ct_generation (expireDetached (ct_lastTime D) D) = ct_generation C"
    using D by (auto simp: expireDetached_def split: option.splits)
qed

lemma abides_owner:
  assumes "settled D s"
  shows "owner_at (ct_lastTime D) s = map_option (\<lambda>h. (ls_clientId (hl_lease h), hl_since h)) (ct_held D)"
  using assms by (auto simp: settled_def abides_def split: option.splits if_splits)

text \<open>A timed call leaves the controller alone or works on one that is settled.\<close>

lemma timed_cases:
  assumes "timed clock C f = (r, E)" "abides C s"
  obtains "r = Inl BadClock" "E = C"
  | D where "settled D s" "ct_generation D = ct_generation C" "f (ct_lastTime D) D = (r, E)"
      "ct_held D \<noteq> None \<Longrightarrow> ct_held D = ct_held C"
proof (cases "now clock C")
  case (Inl e)
  then show ?thesis using assms(1) that(1) by (auto simp: timed_def now_def split: if_splits)
next
  case (Inr D)
  have "ct_held (expireDetached (ct_lastTime D) D) = None \<or> ct_held (expireDetached (ct_lastTime D) D) = ct_held C"
    using Inr by (auto simp: now_def expireDetached_def split: if_splits option.splits)
  then show ?thesis
    using assms(1) Inr settled_expire [OF assms(2) Inr] that(2) [of "expireDetached (ct_lastTime D) D"]
    by (auto simp: timed_def)
qed


definition judged :: "control \<Rightarrow> controller \<Rightarrow> control_event list \<Rightarrow> controller \<Rightarrow> bool" where
  "judged s C es E \<longleftrightarrow> (\<exists>s'. judge_all (s, ct_generation C) es = Some (s', ct_generation E) \<and> abides E s')"

lemma judged_nothing: "abides C s \<Longrightarrow> judged s C [] C"
  "settled D s \<Longrightarrow> ct_generation D = ct_generation C \<Longrightarrow> judged s C [] D"
  by (auto simp: judged_def settled_def)

lemma timed_judged:
  assumes "abides C s" "timed clock C f = (r, E)" "P (Inl BadClock) C = []"
    "\<And>D. settled D s \<Longrightarrow> ct_held D \<noteq> None \<Longrightarrow> ct_held D = ct_held C \<Longrightarrow> f (ct_lastTime D) D = (r, E) \<Longrightarrow> judged s D (P r E) E"
    "\<And>D. settled D s \<Longrightarrow> ct_held D = None \<Longrightarrow> f (ct_lastTime D) D = (r, E) \<Longrightarrow> judged s D (P r E) E"
  shows "judged s C (P r E) E"
  using assms(2,1)
proof (cases rule: timed_cases)
  case 1
  then show ?thesis using judged_nothing(1) [OF assms(1)] assms(3) by simp
next
  case (2 D)
  have "judged s D (P r E) E" using 2 assms(4,5) by (cases "ct_held D = None") auto
  then show ?thesis using 2(2) by (simp add: judged_def)
qed

lemma attach_at_judged:
  assumes "settled D s" "attach_at c k ro m fr (ct_lastTime D) D = (r, E)"
  shows "judged s D (case r of Inr l \<Rightarrow> [Granted (ct_lastTime E) False l] | Inl _ \<Rightarrow> []) E"
  using assms(2) abides_owner [OF assms(1)] judged_nothing(2) [OF assms(1) refl]
  by (cases "ct_held D") (auto simp: attach_at_def Let_def judged_def abides_def split: if_splits)

lemma take_at_judged:
  assumes "settled D s" "take_at c m fr (ct_lastTime D) D = (r, E)"
  shows "judged s D (case r of Inr (l, _) \<Rightarrow> [Granted (ct_lastTime E) True l] | Inl _ \<Rightarrow> []) E"
  using assms(2) abides_owner [OF assms(1)] judged_nothing(2) [OF assms(1) refl]
  by (cases "ct_held D")
    (auto simp: take_at_def take_refusal_def TAKE_INTERVAL_MS_def Let_def judged_def abides_def split: if_splits option.splits)

lemma release_at_judged:
  assumes "settled D s" "release_at c k (ct_lastTime D) D = (r, E)"
  shows "judged s D (case r of Inr (Some l) \<Rightarrow> [Released l] | _ \<Rightarrow> []) E"
proof (cases "ct_held D")
  case None
  then show ?thesis using assms(2) judged_nothing(2) [OF assms(1) refl] by (auto simp: release_at_def)
next
  case (Some h)
  then show ?thesis
    using assms judged_nothing(2) [OF assms(1) refl]
    by (auto simp: release_at_def judged_def settled_def abides_def split: if_splits)
qed

lemma detach_at_judged:
  assumes "settled D s" "detach_at c g (ct_lastTime D) D = (r, E)"
    "ct_held D \<noteq> None \<Longrightarrow> ct_held D = Some h"
  shows "judged s D (case r of Inr True \<Rightarrow> [Left c g (min (hl_tokenExpiresAt h) (ct_lastTime E + ct_graceMs E))] | _ \<Rightarrow> []) E"
proof (cases "is_current c g (ct_held D)")
  case False
  then show ?thesis using assms(2) judged_nothing(2) [OF assms(1) refl] by (auto simp: detach_at_def)
next
  case True
  then show ?thesis
    using assms
    by (auto simp: detach_at_def is_current_def judged_def settled_def abides_def expireDetached_def Let_def split: option.splits if_splits)
qed


lemma assert_judged:
  assumes "settled D s"
  shows "judged s D (if is_current c g (ct_held D) then [Allowed c g] else [Refused c g]) D"
  using assms by (auto simp: judged_def settled_def abides_def is_current_def split: option.splits if_splits control.splits)

text \<open>Each call, from a controller that abides by the authority, does what the authority permits.\<close>

lemma step_attach:
  assumes "abides C s"
  shows "judged s C (fst (control_step clock (CAttach c k ro m f) C)) (snd (control_step clock (CAttach c k ro m f) C))"
proof -
  obtain r E where e: "attach c k ro m f clock C = (r, E)" by fastforce
  have "judged s C (case r of Inr l \<Rightarrow> [Granted (ct_lastTime E) False l] | Inl _ \<Rightarrow> []) E"
    using timed_judged [OF assms, of clock "attach_at c k ro m f" r E "\<lambda>r E. case r of Inr l \<Rightarrow> [Granted (ct_lastTime E) False l] | Inl _ \<Rightarrow> []"]
      attach_at_judged judged_nothing(1) [OF assms] e
    by (auto simp: attach_def split: if_splits)
  then show ?thesis using e by (auto split: sum.splits)
qed

lemma step_take:
  assumes "abides C s"
  shows "judged s C (fst (control_step clock (CTakeControl c m f) C)) (snd (control_step clock (CTakeControl c m f) C))"
proof -
  obtain r E where e: "take_control c m f clock C = (r, E)" by fastforce
  have "judged s C (case r of Inr (l, _) \<Rightarrow> [Granted (ct_lastTime E) True l] | Inl _ \<Rightarrow> []) E"
    using timed_judged [OF assms, of clock "take_at c m f" r E "\<lambda>r E. case r of Inr (l, _) \<Rightarrow> [Granted (ct_lastTime E) True l] | Inl _ \<Rightarrow> []"]
      take_at_judged judged_nothing(1) [OF assms] e
    by (auto simp: take_control_def split: if_splits)
  then show ?thesis using e by (auto split: sum.splits)
qed

lemma step_release:
  assumes "abides C s"
  shows "judged s C (fst (control_step clock (CRelease c k) C)) (snd (control_step clock (CRelease c k) C))"
proof -
  obtain r E where e: "release_control c k clock C = (r, E)" by fastforce
  have "judged s C (case r of Inr (Some l) \<Rightarrow> [Released l] | _ \<Rightarrow> []) E"
    using timed_judged [OF assms, of clock "release_at c k" r E "\<lambda>r E. case r of Inr (Some l) \<Rightarrow> [Released l] | _ \<Rightarrow> []"]
      release_at_judged judged_nothing(1) [OF assms] e
    by (auto simp: release_control_def split: if_splits)
  then show ?thesis using e by (auto split: sum.splits option.splits)
qed

lemma step_detach:
  assumes "abides C s"
  shows "judged s C (fst (control_step clock (CDetach c g) C)) (snd (control_step clock (CDetach c g) C))"
proof -
  obtain r E where e: "detach c g clock C = (r, E)" by fastforce
  define x where "x = (case ct_held C of Some h \<Rightarrow> hl_tokenExpiresAt h | None \<Rightarrow> 0)"
  let ?P = "\<lambda>r E. case r of Inr True \<Rightarrow> [Left c g (min x (ct_lastTime E + ct_graceMs E))] | _ \<Rightarrow> []"
  have held: "judged s D (?P r E) E"
    if d: "settled D s" "ct_held D \<noteq> None" "ct_held D = ct_held C" "detach_at c g (ct_lastTime D) D = (r, E)" for D
  proof -
    obtain h where h: "ct_held C = Some h" using d(2,3) by auto
    then have x: "x = hl_tokenExpiresAt h" by (simp add: x_def)
    show ?thesis unfolding x by (rule detach_at_judged [OF d(1,4)]) (simp add: h d(3))
  qed
  have none: "judged s D (?P r E) E"
    if "settled D s" "ct_held D = None" "detach_at c g (ct_lastTime D) D = (r, E)" for D
    using that judged_nothing(2) [OF that(1) refl] by (auto simp: detach_at_def is_current_def)
  have "judged s C (?P r E) E"
    using timed_judged [OF assms, of clock "detach_at c g" r E ?P] held none judged_nothing(1) [OF assms] e
    by (auto simp: detach_def split: if_splits)
  then show ?thesis using e by (auto simp: x_def Let_def split: sum.splits bool.splits)
qed

lemma step_assert:
  assumes "abides C s"
  shows "judged s C (fst (control_step clock (CAssert c g) C)) (snd (control_step clock (CAssert c g) C))"
proof -
  obtain r E where e: "assertCurrent c g clock C = (r, E)" by fastforce
  let ?f = "\<lambda>t D. (if is_current c g (ct_held D) then Inr () else Inl StaleController, D)"
  let ?P = "\<lambda>r E. case r of Inr _ \<Rightarrow> [Allowed c g] | Inl e \<Rightarrow> if e = StaleController then [Refused c g] else []"
  have "judged s C (?P r E) E"
    using timed_judged [OF assms, of clock ?f r E ?P] assert_judged judged_nothing(1) [OF assms] e
    by (fastforce simp: assertCurrent_def split: if_splits)
  then show ?thesis using e by (auto split: sum.splits)
qed

lemma timed_look:
  assumes "abides C s"
  shows "judged s C [] (snd (timed clock C (\<lambda>t D. (r t D, D))))"
  using timed_judged [OF assms, of clock "\<lambda>t D. (r t D, D)" _ _ "\<lambda>_ _. []", OF surjective_pairing] judged_nothing(2)
  by fastforce

lemma step_look:
  assumes "abides C s"
  shows "judged s C [] (snd (control_state_of clock C))" "judged s C [] (snd (holds c clock C))"
  unfolding control_state_of_def holds_def by (rule timed_look [OF assms])+

lemma step_judged:
  assumes "abides C s"
  shows "judged s C (fst (control_step clock call C)) (snd (control_step clock call C))"
  by (cases call; simp only:; (rule step_attach step_take step_release step_detach step_assert)?;
      (simp only: control_step.simps fst_conv snd_conv, rule step_look)?; rule assms)

lemma judge_all_append:
  "judge_all s (es @ fs) = (case judge_all s es of None \<Rightarrow> None | Some s' \<Rightarrow> judge_all s' fs)"
  by (induction es arbitrary: s) (auto split: option.splits)

lemma play_judged:
  "abides C s \<Longrightarrow> judged s C (fst (control_play calls C)) (snd (control_play calls C))"
proof (induction calls arbitrary: C s)
  case Nil
  then show ?case by (simp add: judged_nothing)
next
  case (Cons x calls)
  obtain clock c where x: "x = (clock, c)" by fastforce
  obtain es D where st: "control_step clock c C = (es, D)" by fastforce
  obtain fs E where pl: "control_play calls D = (fs, E)" by fastforce
  obtain s1 where s1: "judge_all (s, ct_generation C) es = Some (s1, ct_generation D)" "abides D s1"
    using step_judged [OF Cons.prems, of clock c] st by (auto simp: judged_def)
  show ?case using Cons.IH [OF s1(2)] s1(1) by (auto simp: x st pl judged_def judge_all_append)
qed


section \<open>Properties\<close>

text \<open>
  C4. Whatever calls clients make, in any order, at any clock readings, backwards ones included, and
  whatever tokens are drawn, what a new controller grants, ends, allows and refuses is what the
  authority permits: at most one client is in control, a lease is granted with a new generation to
  that client, to anyone when nobody is in control, or by a takeover a second after the last change;
  the effects of exactly the attached connection are allowed, and those of every other are refused.
\<close>

theorem one_controller:
  assumes "new_controller grace lifetime = Inr C"
  shows "\<exists>s. judge_all (Free, 0) (fst (control_play calls C)) = Some (s, ct_generation (snd (control_play calls C)))
    \<and> abides (snd (control_play calls C)) s"
proof -
  have "abides C Free" "ct_generation C = 0"
    using assms by (auto simp: new_controller_def abides_def Let_def split: if_splits)
  then show ?thesis using play_judged [of C Free calls] by (auto simp: judged_def)
qed

definition control_example :: "(int \<times> control_call) list" where
  "control_example =
     [(0, CAttach (js ''ada'') None True False (js ''t1'')), (10, CAssert (js ''ada'') 1),
      (500, CTakeControl (js ''bob'') False (js ''t2'')), (1500, CTakeControl (js ''bob'') False (js ''t3'')),
      (1600, CDetach (js ''ada'') 1), (1700, CAssert (js ''ada'') 1), (1800, CDetach (js ''bob'') 2),
      (1900, CAttach (js ''bob'') (Some (js ''t3'')) True False (js ''t4'')), (1910, CAssert (js ''bob'') 2),
      (1920, CAssert (js ''bob'') 3), (2000, CRelease (js ''bob'') (js ''t3''))]"

lemma one_controller_witness:
  "\<exists>s. judge_all (Free, 0) (fst (control_play control_example
       \<lparr>ct_held = None, ct_generation = 0, ct_lastTime = 0, ct_graceMs = 30000, ct_tokenLifetimeMs = 86400000\<rparr>)) =
     Some (s, ct_generation (snd (control_play control_example
       \<lparr>ct_held = None, ct_generation = 0, ct_lastTime = 0, ct_graceMs = 30000, ct_tokenLifetimeMs = 86400000\<rparr>)))
   \<and> abides (snd (control_play control_example
       \<lparr>ct_held = None, ct_generation = 0, ct_lastTime = 0, ct_graceMs = 30000, ct_tokenLifetimeMs = 86400000\<rparr>)) s"
  by (rule one_controller [of None None]) (simp add: new_controller_def MAX_SAFE_INTEGER_def)

lemma control_example_events:
  "fst (control_play control_example
     \<lparr>ct_held = None, ct_generation = 0, ct_lastTime = 0, ct_graceMs = 30000, ct_tokenLifetimeMs = 86400000\<rparr>) =
   [Granted 0 False \<lparr>ls_clientId = js ''ada'', ls_token = js ''t1'', ls_generation = 1\<rparr>, Allowed (js ''ada'') 1,
    Granted 1500 True \<lparr>ls_clientId = js ''bob'', ls_token = js ''t3'', ls_generation = 2\<rparr>, Refused (js ''ada'') 1,
    Left (js ''bob'') 2 31800, Granted 1900 False \<lparr>ls_clientId = js ''bob'', ls_token = js ''t3'', ls_generation = 3\<rparr>,
    Refused (js ''bob'') 2, Allowed (js ''bob'') 3,
    Released \<lparr>ls_clientId = js ''bob'', ls_token = js ''t3'', ls_generation = 3\<rparr>]"
  by code_simp

end
