(* ===== verification/Diff.thy ===== *)
theory Diff
  imports Prelude
begin

text \<open>
  The diff of an edit (\<open>extensions/builtin-tools/src/diff.ts\<close>): the lines of two texts, Myers' algorithm on
  what is between their common ends, and hunks of the changed lines with some context. The array \<open>v\<close> of
  the source, indexed by diagonal and offset, is a function from diagonals; what it never wrote is 0.
\<close>

section \<open>The code\<close>

definition CONTEXT_LINES :: nat where "CONTEXT_LINES = 2"
definition MAX_HUNK_LINES :: nat where "MAX_HUNK_LINES = 400"
definition MAX_EDIT_DISTANCE :: nat where "MAX_EDIT_DISTANCE = 1000"

datatype op_kind = Kept | Removed | Added

record diff_op =
  op_kind :: op_kind
  op_text :: jstring

definition strip_cr :: "jstring \<Rightarrow> jstring" where
  "strip_cr l = (if l \<noteq> [] \<and> last l = cCR then butlast l else l)"

definition splitLines :: "jstring \<Rightarrow> jstring list" where
  "splitLines s =
     (if s = [] then []
      else
        let ls = map strip_cr (split_by (\<lambda>c. c = cNL) s)
        in if last ls = [] then butlast ls else ls)"

text \<open>A line by its number, out of range what \<open>undefined\<close> shows as.\<close>

definition line_at :: "jstring list \<Rightarrow> int \<Rightarrow> jstring" where
  "line_at ls i = (if 0 \<le> i \<and> nat i < length ls then ls ! nat i else js ''undefined'')"

definition ops_of :: "op_kind \<Rightarrow> jstring list \<Rightarrow> diff_op list" where
  "ops_of k ls = map (\<lambda>t. \<lparr>op_kind = k, op_text = t\<rparr>) ls"

definition replaced :: "jstring list \<Rightarrow> jstring list \<Rightarrow> diff_op list" where
  "replaced a b = ops_of Removed a @ ops_of Added b"

definition goes_down :: "(int \<Rightarrow> int) \<Rightarrow> int \<Rightarrow> int \<Rightarrow> bool" where
  "goes_down v d k \<longleftrightarrow> k = - d \<or> (k \<noteq> d \<and> v (k - 1) < v (k + 1))"

function slide :: "jstring list \<Rightarrow> jstring list \<Rightarrow> int \<Rightarrow> int \<Rightarrow> int" where
  "slide a b x y =
     (if x < int (length a) \<and> y < int (length b) \<and> line_at a x = line_at b y then slide a b (x + 1) (y + 1) else x)"
  by auto
termination by (relation "measure (\<lambda>(a, b, x, y). nat (int (length a) - x))") auto

declare slide.simps [simp del]

definition furthest :: "jstring list \<Rightarrow> jstring list \<Rightarrow> (int \<Rightarrow> int) \<Rightarrow> int \<Rightarrow> int \<Rightarrow> int" where
  "furthest a b v d k =
     (let x = (if goes_down v d k then v (k + 1) else v (k - 1) + 1)
      in slide a b x (x - k))"

text \<open>The diagonals of a round from \<open>k\<close> on: the array after the round, or the diagonal that reached the end.\<close>

function diagonals :: "jstring list \<Rightarrow> jstring list \<Rightarrow> (int \<Rightarrow> int) \<Rightarrow> int \<Rightarrow> int \<Rightarrow> (int \<Rightarrow> int) \<Rightarrow> (int \<Rightarrow> int) \<times> int option" where
  "diagonals a b v d k next =
     (if d < k then (next, None)
      else
        let x = furthest a b v d k;
            next' = next(k := x)
        in if int (length a) \<le> x \<and> int (length b) \<le> x - k then (next', Some k)
           else diagonals a b v d (k + 2) next')"
  by auto
termination by (relation "measure (\<lambda>(a, b, v, d, k, nx). nat (d + 1 - k))") auto

declare diagonals.simps [simp del]

text \<open>Lines kept on the way back to a point; the list is built from its end.\<close>

function keep_back :: "jstring list \<Rightarrow> int \<Rightarrow> int \<Rightarrow> int \<Rightarrow> int \<Rightarrow> diff_op list \<Rightarrow> int \<times> int \<times> diff_op list" where
  "keep_back a x y px py out =
     (if px < x \<and> py < y
      then keep_back a (x - 1) (y - 1) px py (\<lparr>op_kind = Kept, op_text = line_at a (x - 1)\<rparr> # out)
      else (x, y, out))"
  by auto
termination by (relation "measure (\<lambda>(a, x, y, px, py, out). nat (x - px))") auto

declare keep_back.simps [simp del]

text \<open>The arrays at the start of the rounds, last first.\<close>

fun backtrack :: "(int \<Rightarrow> int) list \<Rightarrow> jstring list \<Rightarrow> jstring list \<Rightarrow> int \<Rightarrow> int \<Rightarrow> diff_op list \<Rightarrow> diff_op list" where
  "backtrack (v # w # trace) a b x y out =
     (let d = int (length trace) + 1;
          k = x - y;
          down = goes_down v d k;
          prevK = (if down then k + 1 else k - 1);
          prevX = v prevK;
          prevY = prevX - prevK;
          (x', y', out') = keep_back a x y prevX prevY out
      in backtrack (w # trace) a b prevX prevY
           ((if down then \<lparr>op_kind = Added, op_text = line_at b (y' - 1)\<rparr>
             else \<lparr>op_kind = Removed, op_text = line_at a (x' - 1)\<rparr>) # out'))"
| "backtrack _ a b x y out = snd (snd (keep_back a x y 0 0 out))"

function rounds :: "jstring list \<Rightarrow> jstring list \<Rightarrow> nat \<Rightarrow> (int \<Rightarrow> int) \<Rightarrow> (int \<Rightarrow> int) list \<Rightarrow> nat \<Rightarrow> diff_op list" where
  "rounds a b max_d v trace d =
     (if max_d < d then replaced a b
      else case diagonals a b v (int d) (- int d) v of
             (last_v, Some k) \<Rightarrow> backtrack (v # trace) a b (last_v k) (last_v k - k) []
           | (next, None) \<Rightarrow> rounds a b max_d next (v # trace) (d + 1))"
  by auto
termination by (relation "measure (\<lambda>(a, b, m, v, t, d). m + 1 - d)") auto

declare rounds.simps [simp del]

definition diffMiddle :: "jstring list \<Rightarrow> jstring list \<Rightarrow> diff_op list" where
  "diffMiddle a b =
     (if a = [] \<or> b = [] then replaced a b
      else rounds a b (min (length a + length b) MAX_EDIT_DISTANCE) (\<lambda>_. 0) [] 0)"


text \<open>The lines common at the start; from the end, on the lists reversed.\<close>

fun common_start :: "jstring list \<Rightarrow> jstring list \<Rightarrow> nat" where
  "common_start (x # xs) (y # ys) = (if x = y then Suc (common_start xs ys) else 0)"
| "common_start _ _ = 0"

definition diff_script :: "jstring list \<Rightarrow> jstring list \<Rightarrow> diff_op list" where
  "diff_script a b =
     (let start = common_start a b;
          same = common_start (rev (drop start a)) (rev (drop start b));
          endA = length a - same;
          endB = length b - same;
          middle = diffMiddle (drop start (take endA a)) (drop start (take endB b))
      in ops_of Kept (take start a) @ middle @ ops_of Kept (drop endA a))"

record diff_hunk =
  oldStart :: nat
  oldLines :: nat
  newStart :: nat
  newLines :: nat
  hunk_lines :: "jstring list"

record file_diff =
  hunks :: "diff_hunk list"
  added :: nat
  removed :: nat
  truncated :: bool

definition changed_at :: "diff_op list \<Rightarrow> nat \<Rightarrow> bool" where
  "changed_at ops i \<longleftrightarrow> op_kind (ops ! i) \<noteq> Kept"

fun line_numbers :: "nat \<Rightarrow> nat \<Rightarrow> diff_op list \<Rightarrow> (nat \<times> nat) list" where
  "line_numbers on nn [] = []"
| "line_numbers on nn (p # ops) =
     (on, nn) # line_numbers (if op_kind p \<noteq> Added then on + 1 else on) (if op_kind p \<noteq> Removed then nn + 1 else nn) ops"

function skip_changed :: "diff_op list \<Rightarrow> nat \<Rightarrow> nat" where
  "skip_changed ops to = (if to < length ops \<and> changed_at ops to then skip_changed ops (to + 1) else to)"
  by auto
termination by (relation "measure (\<lambda>(ops, to). length ops - to)") auto

function skip_gap :: "diff_op list \<Rightarrow> nat \<Rightarrow> nat \<Rightarrow> nat \<Rightarrow> nat" where
  "skip_gap ops context_lines to gap =
     (if gap < length ops \<and> \<not> changed_at ops gap \<and> gap - to < 2 * context_lines
      then skip_gap ops context_lines to (gap + 1) else gap)"
  by auto
termination by (relation "measure (\<lambda>(ops, c, to, gap). length ops - gap)") auto

declare skip_changed.simps [simp del] skip_gap.simps [simp del]

lemma skip_changed_stops:
  "to \<le> skip_changed ops to" "\<not> (skip_changed ops to < length ops \<and> changed_at ops (skip_changed ops to))"
  "to \<le> length ops \<Longrightarrow> skip_changed ops to \<le> length ops"
proof (induction ops to rule: skip_changed.induct)
  case (1 ops to)
  { case 1 then show ?case using "1.IH" by (subst skip_changed.simps) force }
  { case 2 then show ?case using "1.IH" by (subst (1 2) skip_changed.simps) auto }
  { case 3 then show ?case using "1.IH" by (subst skip_changed.simps) auto }
qed

lemma skip_gap_stops:
  "gap \<le> skip_gap ops c to gap"
  "\<not> (skip_gap ops c to gap < length ops \<and> \<not> changed_at ops (skip_gap ops c to gap) \<and> skip_gap ops c to gap - to < 2 * c)"
  "gap \<le> j \<Longrightarrow> j < skip_gap ops c to gap \<Longrightarrow> \<not> changed_at ops j"
  "gap - to \<le> 2 * c \<Longrightarrow> skip_gap ops c to gap - to \<le> 2 * c"
proof (induction ops c to gap rule: skip_gap.induct)
  case (1 ops c to gap)
  { case 1 then show ?case using "1.IH" by (subst skip_gap.simps) force }
  { case 2 then show ?case using "1.IH" by (subst (1 2 3) skip_gap.simps) auto }
  { case 3 then show ?case using "1.IH"(3) by (subst (asm) skip_gap.simps) (cases "gap = j"; auto split: if_splits) }
  { case 4 then show ?case using "1.IH"(4) by (subst skip_gap.simps) auto }
qed

text \<open>The end of the changes of a hunk: changes with few kept lines between them belong together.\<close>

function hunk_to :: "diff_op list \<Rightarrow> nat \<Rightarrow> nat \<Rightarrow> nat" where
  "hunk_to ops context_lines to =
     (let t = skip_changed ops to;
          gap = skip_gap ops context_lines t t
      in if gap < length ops \<and> changed_at ops gap \<and> gap - t \<le> 2 * context_lines then hunk_to ops context_lines gap else t)"
  by auto
termination
proof (relation "measure (\<lambda>(ops, c, to). length ops - to)")
  fix ops :: "diff_op list" and c to t gap
  assume t: "t = skip_changed ops to" and gap: "gap = skip_gap ops c t t"
    and g: "gap < length ops \<and> changed_at ops gap \<and> gap - t \<le> 2 * c"
  have "to \<le> t" "t \<le> gap" using t gap skip_changed_stops(1) skip_gap_stops(1) by auto
  moreover have "t \<noteq> gap" using t g skip_changed_stops(2) by metis
  ultimately show "((ops, c, gap), ops, c, to) \<in> measure (\<lambda>(ops, c, to). length ops - to)" using g by auto
qed simp

declare hunk_to.simps [simp del]

lemma hunk_to_ge: "to \<le> hunk_to ops c to"
proof (induction ops c to rule: hunk_to.induct)
  case (1 ops c to)
  note ih = "1.IH" [OF refl refl]
  show ?case
    using ih skip_changed_stops(1) [of to ops] skip_gap_stops(1) [of "skip_changed ops to" ops c "skip_changed ops to"]
    by (subst hunk_to.simps) (auto simp: Let_def)
qed

lemma hunk_to_gt: "to < length ops \<Longrightarrow> changed_at ops to \<Longrightarrow> to < hunk_to ops c to"
proof -
  assume a: "to < length ops" "changed_at ops to"
  have "to < skip_changed ops to"
    using a skip_changed_stops(1) [of "to + 1" ops] by (subst skip_changed.simps) auto
  then show ?thesis
    using hunk_to_ge [of "skip_gap ops c (skip_changed ops to) (skip_changed ops to)" ops c]
      skip_gap_stops(1) [of "skip_changed ops to" ops c "skip_changed ops to"]
    by (subst hunk_to.simps) (auto simp: Let_def)
qed

fun op_char :: "op_kind \<Rightarrow> cu" where
  "op_char Kept = 32"
| "op_char Removed = 45"
| "op_char Added = 43"

definition hunk_at :: "diff_op list \<Rightarrow> nat \<Rightarrow> nat \<Rightarrow> diff_hunk" where
  "hunk_at ops first_op end_op =
     (let part = take (end_op - first_op) (drop first_op ops);
          numbers = line_numbers 1 1 ops ! first_op
      in \<lparr>oldStart = fst numbers, oldLines = length (filter (\<lambda>p. op_kind p \<noteq> Added) part),
          newStart = snd numbers, newLines = length (filter (\<lambda>p. op_kind p \<noteq> Removed) part),
          hunk_lines = map (\<lambda>p. op_char (op_kind p) # op_text p) part\<rparr>)"

function hunks_from :: "diff_op list \<Rightarrow> nat \<Rightarrow> nat \<Rightarrow> nat \<Rightarrow> diff_hunk list \<times> bool" where
  "hunks_from ops context_lines i kept =
     (if \<not> i < length ops then ([], False)
      else if \<not> changed_at ops i then hunks_from ops context_lines (i + 1) kept
      else
        let first_op = i - context_lines;
            end_op = min (length ops) (hunk_to ops context_lines i + context_lines);
            n = end_op - first_op
        in if MAX_HUNK_LINES < kept + n then ([], True)
           else let (hs, cut) = hunks_from ops context_lines end_op (kept + n) in (hunk_at ops first_op end_op # hs, cut))"
  by auto
termination
proof (relation "measure (\<lambda>(ops, c, i, kept). length ops - i)")
  fix ops :: "diff_op list" and c i kept first_op end_op n
  assume i: "\<not> \<not> i < length ops" "\<not> \<not> changed_at ops i" and e: "end_op = min (length ops) (hunk_to ops c i + c)"
  have "i < end_op" using hunk_to_gt [of i ops c] i e by auto
  then show "((ops, c, end_op, kept + n), ops, c, i, kept) \<in> measure (\<lambda>(ops, c, i, kept). length ops - i)"
    using i by auto
qed auto

declare hunks_from.simps [simp del]

definition toHunks :: "diff_op list \<Rightarrow> nat \<Rightarrow> file_diff" where
  "toHunks ops context_lines =
     (let (hs, cut) = hunks_from ops context_lines 0 0
      in \<lparr>hunks = hs, added = length (filter (\<lambda>p. op_kind p = Added) ops),
          removed = length (filter (\<lambda>p. op_kind p = Removed) ops), truncated = cut\<rparr>)"

definition fileDiff :: "jstring \<Rightarrow> jstring \<Rightarrow> nat \<Rightarrow> file_diff" where
  "fileDiff text_before text_after context_lines = toHunks (diff_script (splitLines text_before) (splitLines text_after)) context_lines"


section \<open>Myers' algorithm\<close>

text \<open>
  What a script of operations reads and writes, and how many lines it changes.
\<close>

definition old_side :: "diff_op list \<Rightarrow> jstring list" where
  "old_side ops = map op_text (filter (\<lambda>p. op_kind p \<noteq> Added) ops)"

definition new_side :: "diff_op list \<Rightarrow> jstring list" where
  "new_side ops = map op_text (filter (\<lambda>p. op_kind p \<noteq> Removed) ops)"

definition changes :: "diff_op list \<Rightarrow> nat" where
  "changes ops = length (filter (\<lambda>p. op_kind p \<noteq> Kept) ops)"

lemma side_simps [simp]:
  "old_side [] = []" "new_side [] = []" "changes [] = 0"
  "old_side (p # ops) = (if op_kind p = Added then old_side ops else op_text p # old_side ops)"
  "new_side (p # ops) = (if op_kind p = Removed then new_side ops else op_text p # new_side ops)"
  "changes (p # ops) = (if op_kind p = Kept then changes ops else Suc (changes ops))"
  "old_side (os @ ps) = old_side os @ old_side ps" "new_side (os @ ps) = new_side os @ new_side ps"
  "changes (os @ ps) = changes os + changes ps"
  by (auto simp: old_side_def new_side_def changes_def)

lemma ops_of_sides [simp]:
  "old_side (ops_of k ls) = (if k = Added then [] else ls)"
  "new_side (ops_of k ls) = (if k = Removed then [] else ls)"
  "changes (ops_of k ls) = (if k = Kept then 0 else length ls)"
  by (auto simp: ops_of_def old_side_def new_side_def changes_def comp_def filter_map filter_empty_conv)

lemma side_append:
  "old_side (os @ ps) = old_side os @ old_side ps" "new_side (os @ ps) = new_side os @ new_side ps"
  by simp_all

text \<open>The points reached from the origin with a number of changes; outside the texts nothing is equal.\<close>

inductive reached :: "jstring list \<Rightarrow> jstring list \<Rightarrow> nat \<Rightarrow> int \<Rightarrow> int \<Rightarrow> bool" for a b where
  origin: "reached a b 0 0 0"
| diagonal: "reached a b d x y \<Longrightarrow> x < int (length a) \<Longrightarrow> y < int (length b) \<Longrightarrow> line_at a x = line_at b y
    \<Longrightarrow> reached a b d (x + 1) (y + 1)"
| right: "reached a b d x y \<Longrightarrow> reached a b (Suc d) (x + 1) y"
| down: "reached a b d x y \<Longrightarrow> reached a b (Suc d) x (y + 1)"

lemma reached_range: "reached a b d x y \<Longrightarrow> 0 \<le> x \<and> 0 \<le> y \<and> \<bar>x - y\<bar> \<le> int d \<and> even (x - y + int d)"
  by (induction rule: reached.induct) auto

text \<open>A point outside the texts is reached later than the nearest point inside.\<close>

lemma reached_inside:
  "reached a b d x y \<Longrightarrow>
     \<exists>e. reached a b e (min x (int (length a))) (min y (int (length b)))
       \<and> int e + (x - min x (int (length a))) + (y - min y (int (length b))) \<le> int d"
proof (induction rule: reached.induct)
  case origin
  have "reached a b 0 0 0" by (rule reached.origin)
  then show ?case by force
next
  case (diagonal d x y)
  then obtain e where "reached a b e x y" "int e \<le> int d" by auto
  then have "reached a b e (x + 1) (y + 1)" using diagonal by (auto intro: reached.diagonal)
  then show ?case using diagonal \<open>int e \<le> int d\<close> by (intro exI [of _ e]) auto
next
  case (right d x y)
  then obtain e where e: "reached a b e (min x (int (length a))) (min y (int (length b)))"
    "int e + (x - min x (int (length a))) + (y - min y (int (length b))) \<le> int d" by blast
  show ?case
  proof (cases "x < int (length a)")
    case True
    then show ?thesis using reached.right [OF e(1)] e(2) by (intro exI [of _ "Suc e"]) auto
  next
    case False
    then show ?thesis using e by (intro exI [of _ e]) auto
  qed
next
  case (down d x y)
  then obtain e where e: "reached a b e (min x (int (length a))) (min y (int (length b)))"
    "int e + (x - min x (int (length a))) + (y - min y (int (length b))) \<le> int d" by blast
  show ?case
  proof (cases "y < int (length b)")
    case True
    then show ?thesis using reached.down [OF e(1)] e(2) by (intro exI [of _ "Suc e"]) auto
  next
    case False
    then show ?thesis using e by (intro exI [of _ e]) auto
  qed
qed

lemma slide_stops:
  "\<not> (slide a b x y < int (length a) \<and> slide a b x y - (x - y) < int (length b)
      \<and> line_at a (slide a b x y) = line_at b (slide a b x y - (x - y)))"
proof (induction a b x y rule: slide.induct)
  case (1 a b x y)
  then show ?case by (subst (1 2 3 4) slide.simps) (auto simp: algebra_simps)
qed

lemma slide_ge: "x \<le> slide a b x y"
proof (induction a b x y rule: slide.induct)
  case (1 a b x y)
  then show ?case by (subst slide.simps) force
qed

lemma slide_reached: "reached a b d x y \<Longrightarrow> reached a b d (slide a b x y) (slide a b x y - (x - y))"
proof (induction a b x y rule: slide.induct)
  case (1 a b x y)
  then show ?case by (subst (1 2) slide.simps) (auto intro: reached.diagonal)
qed


text \<open>The array at the start of a round, if no round before it reached the end.\<close>

fun array_at :: "jstring list \<Rightarrow> jstring list \<Rightarrow> nat \<Rightarrow> int \<Rightarrow> int" where
  "array_at a b 0 = (\<lambda>_. 0)"
| "array_at a b (Suc d) =
     (\<lambda>k. if \<bar>k\<bar> \<le> int d \<and> even (k + int d) then furthest a b (array_at a b d) (int d) k else array_at a b d k)"

declare array_at.simps(2) [simp del]

definition on_round :: "nat \<Rightarrow> int \<Rightarrow> bool" where
  "on_round d k \<longleftrightarrow> \<bar>k\<bar> \<le> int d \<and> even (k + int d)"

lemma array_furthest: "on_round d k \<Longrightarrow> array_at a b (Suc d) k = furthest a b (array_at a b d) (int d) k"
  by (simp add: on_round_def array_at.simps(2))

text \<open>Where a diagonal of a round starts from, and that the array read there was written a round before.\<close>

definition round_start :: "jstring list \<Rightarrow> jstring list \<Rightarrow> nat \<Rightarrow> int \<Rightarrow> int" where
  "round_start a b d k =
     (let v = array_at a b d in if goes_down v (int d) k then v (k + 1) else v (k - 1) + 1)"

lemma array_start: "on_round d k \<Longrightarrow> array_at a b (Suc d) k = slide a b (round_start a b d k) (round_start a b d k - k)"
  by (simp add: array_furthest furthest_def round_start_def Let_def)

lemma round_before:
  assumes "on_round (Suc d) k"
  shows "goes_down v (int (Suc d)) k \<Longrightarrow> on_round d (k + 1)" "\<not> goes_down v (int (Suc d)) k \<Longrightarrow> on_round d (k - 1)"
proof -
  have k: "- int (Suc d) \<le> k" "k \<le> int (Suc d)" "even (k + int (Suc d))" using assms by (auto simp: on_round_def)
  show "on_round d (k + 1)" if "goes_down v (int (Suc d)) k"
  proof -
    have "k \<noteq> int (Suc d)" using that by (auto simp: goes_down_def)
    then have "k \<noteq> int d" using k(3) by auto
    then show ?thesis using k \<open>k \<noteq> int (Suc d)\<close> by (auto simp: on_round_def)
  qed
  show "on_round d (k - 1)" if "\<not> goes_down v (int (Suc d)) k"
  proof -
    have "k \<noteq> - int (Suc d)" using that by (auto simp: goes_down_def)
    then have "k \<noteq> - int d" using k(3) by auto
    then show ?thesis using k \<open>k \<noteq> - int (Suc d)\<close> by (auto simp: on_round_def)
  qed
qed

lemma array_reached:
  "on_round d k \<Longrightarrow> reached a b d (array_at a b (Suc d) k) (array_at a b (Suc d) k - k)"
proof (induction d arbitrary: k)
  case 0
  then have "round_start a b 0 k = 0" "k = 0" by (auto simp: on_round_def round_start_def goes_down_def)
  then show ?case using slide_reached [OF reached.origin, of a b] array_start [OF 0] by simp
next
  case (Suc d)
  have "reached a b (Suc d) (round_start a b (Suc d) k) (round_start a b (Suc d) k - k)"
  proof (cases "goes_down (array_at a b (Suc d)) (int (Suc d)) k")
    case True
    then show ?thesis
      using reached.down [OF Suc.IH [OF round_before(1) [OF Suc.prems True]]] by (simp add: round_start_def)
  next
    case False
    then show ?thesis
      using reached.right [OF Suc.IH [OF round_before(2) [OF Suc.prems False]]]
      by (simp add: round_start_def algebra_simps)
  qed
  then show ?case using slide_reached array_start [OF Suc.prems, of a b] by fastforce
qed

text \<open>No path of as many changes goes further on a diagonal.\<close>

lemma reached_on_round: "reached a b d x y \<Longrightarrow> on_round d (x - y)"
  using reached_range [of a b d x y] by (auto simp: on_round_def)

lemma reached_le: "reached a b d x y \<Longrightarrow> x \<le> array_at a b (Suc d) (x - y)"
proof (induction rule: reached.induct)
  case origin
  have "on_round 0 0" "round_start a b 0 0 = 0" by (auto simp: on_round_def round_start_def goes_down_def)
  then show ?case using array_start [of 0 0 a b] slide_ge [of 0 a b 0] by simp
next
  case (diagonal d x y)
  let ?s = "round_start a b d (x - y)"
  have "slide a b ?s (?s - (x - y)) = array_at a b (Suc d) (x - y)"
    using array_start [OF reached_on_round [OF diagonal.hyps(1)], of a b] by simp
  moreover have "array_at a b (Suc d) (x - y) \<noteq> x"
    using slide_stops [of a b ?s "?s - (x - y)"] diagonal.hyps(2-4) calculation by auto
  ultimately show ?case using diagonal.IH by auto
next
  case (right d x y)
  have r: "on_round d (x - y)" "on_round (Suc d) (x + 1 - y)"
    using reached_on_round [OF right.hyps] reached_on_round [OF reached.right [OF right.hyps]] by auto
  have "array_at a b (Suc d) (x - y) + 1 \<le> round_start a b (Suc d) (x + 1 - y)"
    using r(1) by (auto simp: round_start_def goes_down_def on_round_def Let_def algebra_simps)
  then show ?case
    using array_start [OF r(2), of a b] slide_ge [of "round_start a b (Suc d) (x + 1 - y)" a b] right.IH
    by (smt (verit))
next
  case (down d x y)
  have r: "on_round d (x - y)" "on_round (Suc d) (x - (y + 1))"
    using reached_on_round [OF down.hyps] reached_on_round [OF reached.down [OF down.hyps]] by auto
  have "array_at a b (Suc d) (x - y) \<le> round_start a b (Suc d) (x - (y + 1))"
    using r(1) by (auto simp: round_start_def goes_down_def on_round_def Let_def algebra_simps)
  then show ?case
    using array_start [OF r(2), of a b] slide_ge [of "round_start a b (Suc d) (x - (y + 1))" a b] down.IH
    by (smt (verit))
qed

text \<open>The first round that reaches the end does so at the end itself.\<close>

definition at_end :: "jstring list \<Rightarrow> jstring list \<Rightarrow> nat \<Rightarrow> int \<Rightarrow> bool" where
  "at_end a b d k \<longleftrightarrow> on_round d k \<and> int (length a) \<le> array_at a b (Suc d) k
     \<and> int (length b) \<le> array_at a b (Suc d) k - k"

lemma reached_end: "reached a b d (int (length a)) (int (length b)) \<Longrightarrow> at_end a b d (int (length a) - int (length b))"
  using reached_le [of a b d] reached_on_round [of a b d] by (fastforce simp: at_end_def)

lemma end_exact:
  assumes "at_end a b d k" "\<And>e j. e < d \<Longrightarrow> \<not> at_end a b e j"
  shows "array_at a b (Suc d) k = int (length a)" "array_at a b (Suc d) k - k = int (length b)"
proof -
  let ?x = "array_at a b (Suc d) k"
  have "reached a b d ?x (?x - k)" using array_reached assms(1) by (simp add: at_end_def)
  moreover have m: "min ?x (int (length a)) = int (length a)" "min (?x - k) (int (length b)) = int (length b)"
    using assms(1) by (auto simp: at_end_def)
  ultimately obtain e where e: "reached a b e (int (length a)) (int (length b))"
    "int e + (?x - int (length a)) + (?x - k - int (length b)) \<le> int d"
    using reached_inside [of a b d ?x "?x - k"] unfolding m by blast
  have "\<not> e < d" using assms(2) reached_end [OF e(1)] by blast
  then show "?x = int (length a)" "?x - k = int (length b)" using e(2) assms(1) by (auto simp: at_end_def)
qed


text \<open>A round computes the next array, or stops on the first diagonal at the end.\<close>

definition later :: "int \<Rightarrow> int \<Rightarrow> int \<Rightarrow> bool" where
  "later d k j \<longleftrightarrow> k \<le> j \<and> j \<le> d \<and> even (j - k)"

lemma later_step: "k \<le> d \<Longrightarrow> later d k j \<longleftrightarrow> j = k \<or> later d (k + 2) j" "\<not> later d (k + 2) k" "d < k \<Longrightarrow> \<not> later d k j"
  unfolding later_def by presburger+

lemma diagonals_none:
  "diagonals a b v d k nx = (nx', None) \<Longrightarrow>
     nx' = (\<lambda>j. if later d k j then furthest a b v d j else nx j)
   \<and> (\<forall>j. later d k j \<longrightarrow> \<not> (int (length a) \<le> furthest a b v d j \<and> int (length b) \<le> furthest a b v d j - j))"
proof (induction a b v d k nx rule: diagonals.induct)
  case (1 a b v d k nx)
  show ?case
  proof (cases "d < k")
    case True
    then show ?thesis using "1.prems" by (subst (asm) diagonals.simps) (auto simp: later_step)
  next
    case False
    let ?x = "furthest a b v d k"
    have out: "\<not> (int (length a) \<le> ?x \<and> int (length b) \<le> ?x - k)"
      using "1.prems" False by (subst (asm) diagonals.simps) (auto simp: Let_def split: if_splits)
    then have "diagonals a b v d (k + 2) (nx(k := ?x)) = (nx', None)"
      using "1.prems" False by (subst (asm) diagonals.simps) (auto simp: Let_def)
    note ih = "1.IH" [OF False refl refl out this]
    show ?thesis
      using ih out later_step(1) [of k d] later_step(2) [of d k] False by (auto simp: fun_eq_iff not_less)
  qed
qed

lemma diagonals_some:
  "diagonals a b v d k nx = (nx', Some j) \<Longrightarrow>
     k \<le> j \<and> j \<le> d \<and> even (j - k) \<and> nx' j = furthest a b v d j
     \<and> int (length a) \<le> furthest a b v d j \<and> int (length b) \<le> furthest a b v d j - j"
proof (induction a b v d k nx rule: diagonals.induct)
  case (1 a b v d k nx)
  let ?x = "furthest a b v d k"
  have k: "\<not> d < k" using "1.prems" by (subst (asm) diagonals.simps) auto
  show ?case
  proof (cases "int (length a) \<le> ?x \<and> int (length b) \<le> ?x - k")
    case True
    then show ?thesis using "1.prems" k by (subst (asm) diagonals.simps) (auto simp: Let_def)
  next
    case False
    then have "diagonals a b v d (k + 2) (nx(k := ?x)) = (nx', Some j)"
      using "1.prems" k by (subst (asm) diagonals.simps) (auto simp: Let_def)
    from "1.IH" [OF k refl refl False this] show ?thesis by auto
  qed
qed

lemma on_round_from: "on_round d j \<longleftrightarrow> - int d \<le> j \<and> j \<le> int d \<and> even (j - - int d)"
  by (auto simp: on_round_def)

lemma round_none:
  assumes "diagonals a b (array_at a b d) (int d) (- int d) (array_at a b d) = (next, None)"
  shows "next = array_at a b (Suc d)" "\<not> at_end a b d k"
proof -
  have r: "later (int d) (- int d) j \<longleftrightarrow> on_round d j" for j by (simp add: later_def on_round_from)
  show "next = array_at a b (Suc d)"
    using diagonals_none [OF assms] by (simp add: r array_at.simps(2) on_round_def)
  show "\<not> at_end a b d k"
    using diagonals_none [OF assms] array_furthest [of d k a b] by (auto simp: r at_end_def)
qed

lemma round_some:
  assumes "diagonals a b (array_at a b d) (int d) (- int d) (array_at a b d) = (last_v, Some k)"
  shows "at_end a b d k" "last_v k = array_at a b (Suc d) k"
proof -
  have "on_round d k" using diagonals_some [OF assms] by (simp add: on_round_from)
  then show "at_end a b d k" "last_v k = array_at a b (Suc d) k"
    using diagonals_some [OF assms] array_furthest [of d k a b] by (auto simp: at_end_def)
qed


text \<open>Going back over equal lines gives them as kept.\<close>

lemma keep_back_run:
  assumes "px \<le> x" "py \<le> y" "x = px \<or> y = py" "0 \<le> x" "0 \<le> y"
    "\<And>i. i < j \<Longrightarrow> x + int i < int (length a) \<and> y + int i < int (length b) \<and> line_at a (x + int i) = line_at b (y + int i)"
  shows "\<exists>ks. keep_back a (x + int j) (y + int j) px py out = (x, y, ks @ out)
    \<and> old_side ks = take j (drop (nat x) a) \<and> new_side ks = take j (drop (nat y) b) \<and> changes ks = 0"
  using assms(6)
proof (induction j arbitrary: out)
  case 0
  then show ?case using assms(1-5) by (subst keep_back.simps) auto
next
  case (Suc j)
  let ?o = "\<lparr>op_kind = Kept, op_text = line_at a (x + int j)\<rparr>"
  obtain ks where ks: "keep_back a (x + int j) (y + int j) px py (?o # out) = (x, y, ks @ ?o # out)"
    "old_side ks = take j (drop (nat x) a)" "new_side ks = take j (drop (nat y) b)" "changes ks = 0"
    using Suc.IH [of "?o # out"] Suc.prems by force
  have n: "nat (x + int j) = nat x + j" "nat (y + int j) = nat y + j" using assms(4,5) by auto
  have lt: "nat x + j < length a" "nat y + j < length b" using Suc.prems [of j] assms(4,5) by linarith+
  have at: "nat x + j < length a" "nat y + j < length b" "line_at a (x + int j) = a ! (nat x + j)"
    "line_at a (x + int j) = b ! (nat y + j)"
    using Suc.prems [of j] assms(4,5) lt by (simp_all add: line_at_def n)
  have "keep_back a (x + int (Suc j)) (y + int (Suc j)) px py out = (x, y, (ks @ [?o]) @ out)"
    using assms(1,2) ks(1) by (subst keep_back.simps) (simp add: algebra_simps)
  moreover have "old_side (ks @ [?o]) = take (Suc j) (drop (nat x) a)" "new_side (ks @ [?o]) = take (Suc j) (drop (nat y) b)"
    using ks at by (simp_all add: take_Suc_conv_app_nth)
  ultimately show ?case using ks(4) by (intro exI [of _ "ks @ [?o]"]) simp
qed

lemma slide_run:
  "\<exists>j. slide a b x y = x + int j
     \<and> (\<forall>i < j. x + int i < int (length a) \<and> y + int i < int (length b) \<and> line_at a (x + int i) = line_at b (y + int i))"
proof (induction a b x y rule: slide.induct)
  case (1 a b x y)
  show ?case
  proof (cases "x < int (length a) \<and> y < int (length b) \<and> line_at a x = line_at b y")
    case True
    with "1.IH" obtain j where j: "slide a b (x + 1) (y + 1) = x + 1 + int j"
      "\<And>i. i < j \<Longrightarrow> x + 1 + int i < int (length a) \<and> y + 1 + int i < int (length b)
        \<and> line_at a (x + 1 + int i) = line_at b (y + 1 + int i)" by blast
    have "x + int i < int (length a) \<and> y + int i < int (length b) \<and> line_at a (x + int i) = line_at b (y + int i)"
      if "i < Suc j" for i
      using j(2) [of "i - 1"] True that by (cases i) (auto simp: algebra_simps)
    then show ?thesis using True j(1) by (subst slide.simps) (auto intro!: exI [of _ "Suc j"])
  next
    case False
    then show ?thesis by (subst slide.simps) auto
  qed
qed

text \<open>
  From a point that a round reached inside the texts, going back gives a script for what is before it,
  with one change for every round.
\<close>

lemma keep_back_slide:
  assumes "px \<le> x" "py \<le> y" "x = px \<or> y = py" "0 \<le> x" "0 \<le> y"
  shows "\<exists>ks j. slide a b x y = x + int j \<and> keep_back a (x + int j) (y + int j) px py out = (x, y, ks @ out)
    \<and> old_side ks = take j (drop (nat x) a) \<and> new_side ks = take j (drop (nat y) b) \<and> changes ks = 0
    \<and> (0 < j \<longrightarrow> nat x + j \<le> length a \<and> nat y + j \<le> length b)"
proof -
  obtain j where j: "slide a b x y = x + int j"
    "\<And>i. i < j \<Longrightarrow> x + int i < int (length a) \<and> y + int i < int (length b) \<and> line_at a (x + int i) = line_at b (y + int i)"
    using slide_run [of a b x y] by blast
  have "0 < j \<longrightarrow> nat x + j \<le> length a \<and> nat y + j \<le> length b"
    using j(2) [of "j - 1"] assms(4,5) by auto
  then show ?thesis using keep_back_run [OF assms, of j a b out] j by metis
qed

fun arrays_to :: "jstring list \<Rightarrow> jstring list \<Rightarrow> nat \<Rightarrow> (int \<Rightarrow> int) list" where
  "arrays_to a b 0 = [array_at a b 0]"
| "arrays_to a b (Suc d) = array_at a b (Suc d) # arrays_to a b d"

lemma arrays_to_Cons: "arrays_to a b d = array_at a b d # (case d of 0 \<Rightarrow> [] | Suc e \<Rightarrow> arrays_to a b e)"
  by (cases d) auto

lemma length_arrays_to [simp]: "length (arrays_to a b d) = Suc d"
  by (induction d) auto

lemma backtrack_step:
  "backtrack (arrays_to a b (Suc d)) a b x y out =
     (let v = array_at a b (Suc d); k = x - y; down = goes_down v (int (Suc d)) k;
          prevK = (if down then k + 1 else k - 1); prevX = v prevK; prevY = prevX - prevK;
          (x', y', out') = keep_back a x y prevX prevY out
      in backtrack (arrays_to a b d) a b prevX prevY
           ((if down then \<lparr>op_kind = Added, op_text = line_at b (y' - 1)\<rparr>
             else \<lparr>op_kind = Removed, op_text = line_at a (x' - 1)\<rparr>) # out'))"
  by (cases d) (simp_all add: add.commute Let_def)

lemma take_extend: "take n xs @ take j (drop n xs) = take (n + j) xs"
  by (simp add: take_add)

lemma backtrack_script:
  assumes "on_round d k" "x = array_at a b (Suc d) k" "x \<le> int (length a)" "x - k \<le> int (length b)"
  shows "\<exists>ops. backtrack (arrays_to a b d) a b x (x - k) out = ops @ out
    \<and> old_side ops = take (nat x) a \<and> new_side ops = take (nat (x - k)) b \<and> changes ops = d"
  using assms
proof (induction d arbitrary: k x out)
  case 0
  then have k: "k = 0" "round_start a b 0 k = 0" by (auto simp: on_round_def round_start_def goes_down_def)
  have x: "x = slide a b 0 0" using array_start [OF 0(1), of a b] 0(2) k by simp
  obtain ks j where "slide a b 0 0 = int j" "keep_back a (int j) (int j) 0 0 out = (0, 0, ks @ out)"
    "old_side ks = take j a" "new_side ks = take j b" "changes ks = 0"
    using keep_back_slide [of 0 0 0 0 a b out] by auto
  then show ?case using x k(1) by (intro exI [of _ ks]) simp
next
  case (Suc d)
  let ?v = "array_at a b (Suc d)"
  define down where "down = goes_down ?v (int (Suc d)) k"
  define pk where "pk = (if down then k + 1 else k - 1)"
  define px where "px = ?v pk"
  define py where "py = px - pk"
  define sx where "sx = (if down then px else px + 1)"
  define sy where "sy = (if down then py + 1 else py)"
  have pk: "on_round d pk" using round_before [OF Suc.prems(1), of ?v] by (auto simp: pk_def down_def)
  have p0: "0 \<le> px" "0 \<le> py"
    using reached_range [OF array_reached [OF pk, of a b]] by (auto simp: px_def py_def)
  have st: "round_start a b (Suc d) k = sx" "sx - k = sy"
    by (auto simp: round_start_def sx_def sy_def py_def px_def pk_def down_def)
  have x: "x = slide a b sx sy" using array_start [OF Suc.prems(1), of a b] Suc.prems(2) st by simp
  have le: "px \<le> sx" "py \<le> sy" "sx = px \<or> sy = py" "0 \<le> sx" "0 \<le> sy"
    using p0 by (auto simp: sx_def sy_def)
  obtain ks j where ks: "slide a b sx sy = sx + int j"
    "keep_back a (sx + int j) (sy + int j) px py out = (sx, sy, ks @ out)"
    "old_side ks = take j (drop (nat sx) a)" "new_side ks = take j (drop (nat sy) b)" "changes ks = 0"
    using keep_back_slide [OF le, of a b out] by blast
  have xy: "x = sx + int j" "x - k = sy + int j" using x ks(1) st(2) by auto
  define c where "c = (if down then \<lparr>op_kind = Added, op_text = line_at b (sy - 1)\<rparr>
     else \<lparr>op_kind = Removed, op_text = line_at a (sx - 1)\<rparr>)"
  have in_range: "sx \<le> int (length a)" "sy \<le> int (length b)" using Suc.prems(3,4) xy by auto
  obtain ops where ops: "backtrack (arrays_to a b d) a b px py (c # ks @ out) = ops @ c # ks @ out"
    "old_side ops = take (nat px) a" "new_side ops = take (nat py) b" "changes ops = d"
    using Suc.IH [OF pk px_def, of "c # ks @ out"] in_range le(1,2) by (auto simp: py_def)
  have kk: "x - (x - k) = k" by simp
  have kb: "keep_back a x (x - k) px py out = (sx, sy, ks @ out)" unfolding xy(2) unfolding xy(1) by (rule ks(2))
  have "backtrack (arrays_to a b (Suc d)) a b x (x - k) out =
      (case keep_back a x (x - k) px py out of (x', y', out') \<Rightarrow>
        backtrack (arrays_to a b d) a b px py
          ((if down then \<lparr>op_kind = Added, op_text = line_at b (y' - 1)\<rparr>
            else \<lparr>op_kind = Removed, op_text = line_at a (x' - 1)\<rparr>) # out'))"
    by (simp only: backtrack_step Let_def kk down_def pk_def px_def py_def)
  also have "\<dots> = (ops @ c # ks) @ out" using ops(1) by (simp add: kb c_def)
  finally have bt: "backtrack (arrays_to a b (Suc d)) a b x (x - k) out = (ops @ c # ks) @ out" .
  have lt: "\<not> down \<Longrightarrow> nat px < length a" "down \<Longrightarrow> nat py < length b"
    using in_range p0 by (auto simp: sx_def sy_def split: if_splits)
  have c: "old_side (ops @ [c]) = take (nat sx) a" "new_side (ops @ [c]) = take (nat sy) b"
    using ops(2,3) p0 lt by (auto simp: c_def sx_def sy_def line_at_def nat_add_distrib take_Suc_conv_app_nth)
  have n: "nat x = nat sx + j" "nat (x - k) = nat sy + j" using le(4,5) xy by auto
  have "old_side ((ops @ [c]) @ ks) = take (nat x) a" "new_side ((ops @ [c]) @ ks) = take (nat (x - k)) b"
    unfolding side_append [of "ops @ [c]"] c ks(3,4) n by (rule take_extend)+
  then have "old_side (ops @ c # ks) = take (nat x) a" "new_side (ops @ c # ks) = take (nat (x - k)) b" by simp_all
  moreover have "changes (ops @ c # ks) = Suc d" using ops(4) ks(5) by (simp add: c_def)
  ultimately show ?case using bt by blast
qed


text \<open>The rounds end with a script as short as any, or go on for as many rounds as there may be.\<close>

lemma rounds_script:
  assumes "\<And>e j. e < d \<Longrightarrow> \<not> at_end a b e j"
    "trace = (case d of 0 \<Rightarrow> [] | Suc e \<Rightarrow> arrays_to a b e)" "v = array_at a b d"
  shows "(\<exists>e. e \<le> m \<and> (\<forall>i < e. \<forall>j. \<not> at_end a b i j)
        \<and> old_side (rounds a b m v trace d) = a \<and> new_side (rounds a b m v trace d) = b
        \<and> changes (rounds a b m v trace d) = e)
    \<or> (rounds a b m v trace d = replaced a b \<and> (\<forall>i \<le> m. \<forall>j. \<not> at_end a b i j))"
  using assms
proof (induction a b m v trace d rule: rounds.induct)
  case (1 a b m v trace d)
  show ?case
  proof (cases "m < d")
    case True
    then show ?thesis using "1.prems"(1) by (subst (1 2 3 4) rounds.simps) auto
  next
    case False
    show ?thesis
    proof (cases "diagonals a b v (int d) (- int d) v")
      case (Pair nx r)
      show ?thesis
      proof (cases r)
        case None
        note dn = round_none [OF Pair [unfolded None "1.prems"(3)]]
        have "\<And>e j. e < Suc d \<Longrightarrow> \<not> at_end a b e j" using "1.prems"(1) dn(2) less_Suc_eq by blast
        moreover have "v # trace = (case Suc d of 0 \<Rightarrow> [] | Suc e \<Rightarrow> arrays_to a b e)"
          using "1.prems"(2,3) by (simp add: arrays_to_Cons [of a b d])
        ultimately show ?thesis
          using "1.IH" [OF False Pair [symmetric] None, of] dn(1) False Pair None
          by (subst (1 2 3 4) rounds.simps) simp
      next
        case (Some k)
        note dn = round_some [OF Pair [unfolded Some "1.prems"(3)]]
        have e: "array_at a b (Suc d) k = int (length a)" "array_at a b (Suc d) k - k = int (length b)"
          using end_exact [OF dn(1) "1.prems"(1)] by auto
        have "v # trace = arrays_to a b d" using "1.prems"(2,3) by (simp add: arrays_to_Cons [of a b d])
        then have "rounds a b m v trace d = backtrack (arrays_to a b d) a b (array_at a b (Suc d) k) (array_at a b (Suc d) k - k) []"
          using False Pair Some dn(2) by (subst rounds.simps) simp
        moreover obtain ops where "backtrack (arrays_to a b d) a b (array_at a b (Suc d) k) (array_at a b (Suc d) k - k) [] = ops"
          "old_side ops = a" "new_side ops = b" "changes ops = d"
          using backtrack_script [of d k _ a b "[]"] dn(1) e by (force simp: at_end_def)
        ultimately show ?thesis using False "1.prems"(1) by (intro disjI1 exI [of _ d]) simp
      qed
    qed
  qed
qed

lemma script_reached:
  "reached a b (changes ops) (int (length (old_side ops))) (int (length (new_side ops)))"
  if "\<exists>u v. a = old_side ops @ u \<and> b = new_side ops @ v"
  using that
proof (induction ops rule: rev_induct)
  case Nil
  then show ?case by (simp add: reached.origin)
next
  case (snoc p ops)
  have pre: "\<exists>u v. a = old_side ops @ u \<and> b = new_side ops @ v" using snoc.prems by (auto split: if_splits)
  show ?case
  proof (cases "op_kind p")
    case Kept
    then have "line_at a (int (length (old_side ops))) = op_text p" "line_at b (int (length (new_side ops))) = op_text p"
      "length (old_side ops) < length a" "length (new_side ops) < length b"
      using snoc.prems by (auto simp: line_at_def nth_append)
    then show ?thesis using reached.diagonal [OF snoc.IH [OF pre]] Kept by simp (simp add: add.commute)
  next
    case Removed
    then show ?thesis using reached.right [OF snoc.IH [OF pre]] by simp (simp add: add.commute)
  next
    case Added
    then show ?thesis using reached.down [OF snoc.IH [OF pre]] by simp (simp add: add.commute)
  qed
qed

lemma script_end: "old_side ops = a \<Longrightarrow> new_side ops = b \<Longrightarrow> at_end a b (changes ops) (int (length a) - int (length b))"
  using script_reached [of a ops b] reached_end by force

lemma changes_replaced: "old_side (replaced a b) = a" "new_side (replaced a b) = b" "changes (replaced a b) = length a + length b"
  by (auto simp: replaced_def)

lemma diffMiddle_sides: "old_side (diffMiddle a b) = a" "new_side (diffMiddle a b) = b"
  using rounds_script [of 0 a b "[]" "\<lambda>_. 0" "min (length a + length b) MAX_EDIT_DISTANCE"] changes_replaced
  by (auto simp: diffMiddle_def)

lemma diffMiddle_shortest:
  assumes "old_side ops = a" "new_side ops = b" "changes ops \<le> MAX_EDIT_DISTANCE"
  shows "changes (diffMiddle a b) \<le> changes ops"
proof (cases "a = [] \<or> b = []")
  case True
  have "length (old_side os) \<le> length (new_side os) + changes os" "length (new_side os) \<le> length (old_side os) + changes os" for os
    by (induction os) auto
  from this [of ops] show ?thesis using True assms by (auto simp: diffMiddle_def changes_replaced)
next
  case False
  let ?m = "min (length a + length b) MAX_EDIT_DISTANCE"
  from rounds_script [of 0 a b "[]" "\<lambda>_. 0" ?m] consider
    e where "\<And>i j. i < e \<Longrightarrow> \<not> at_end a b i j" "changes (diffMiddle a b) = e"
    | "diffMiddle a b = replaced a b" "\<And>i j. i \<le> ?m \<Longrightarrow> \<not> at_end a b i j"
    using False by (auto simp: diffMiddle_def)
  then show ?thesis
  proof cases
    case 1
    then show ?thesis using script_end [OF assms(1,2)] not_less by blast
  next
    case 2
    then have "\<not> changes ops \<le> ?m" using script_end [OF assms(1,2)] by blast
    then show ?thesis using 2(1) assms(3) changes_replaced(3) [of a b] by simp
  qed
qed


section \<open>The whole script\<close>

text \<open>A line common to both texts at their start costs no script anything.\<close>

lemma drop_old_line:
  "old_side ops = c # a \<Longrightarrow> new_side ops = b \<Longrightarrow> \<exists>os. old_side os = a \<and> new_side os = b \<and> changes os \<le> Suc (changes ops)"
proof (induction ops arbitrary: b)
  case (Cons p ops)
  show ?case
  proof (cases "op_kind p")
    case Kept
    then show ?thesis using Cons.prems by (intro exI [of _ "p\<lparr>op_kind := Added\<rparr> # ops"]) auto
  next
    case Removed
    then show ?thesis using Cons.prems by (intro exI [of _ ops]) auto
  next
    case Added
    then obtain os where "old_side os = a" "new_side os = new_side ops" "changes os \<le> Suc (changes ops)"
      using Cons by auto
    then show ?thesis using Added Cons.prems by (intro exI [of _ "p # os"]) auto
  qed
qed simp

lemma drop_new_line:
  "new_side ops = c # b \<Longrightarrow> old_side ops = a \<Longrightarrow> \<exists>os. old_side os = a \<and> new_side os = b \<and> changes os \<le> Suc (changes ops)"
proof (induction ops arbitrary: a)
  case (Cons p ops)
  show ?case
  proof (cases "op_kind p")
    case Kept
    then show ?thesis using Cons.prems by (intro exI [of _ "p\<lparr>op_kind := Removed\<rparr> # ops"]) auto
  next
    case Added
    then show ?thesis using Cons.prems by (intro exI [of _ ops]) auto
  next
    case Removed
    then obtain os where "new_side os = b" "old_side os = old_side ops" "changes os \<le> Suc (changes ops)"
      using Cons by auto
    then show ?thesis using Removed Cons.prems by (intro exI [of _ "p # os"]) auto
  qed
qed simp

lemma drop_common_line:
  assumes "old_side ops = c # a" "new_side ops = c # b"
  shows "\<exists>os. old_side os = a \<and> new_side os = b \<and> changes os \<le> changes ops"
proof (cases ops)
  case (Cons p ps)
  show ?thesis
  proof (cases "op_kind p")
    case Kept
    then show ?thesis using assms Cons by (intro exI [of _ ps]) auto
  next
    case Removed
    then show ?thesis using assms Cons drop_new_line [of ps c b a] by auto
  next
    case Added
    then show ?thesis using assms Cons drop_old_line [of ps c a b] by auto
  qed
qed (use assms in simp)

lemma drop_common_start:
  "old_side ops = ps @ a \<Longrightarrow> new_side ops = ps @ b \<Longrightarrow> \<exists>os. old_side os = a \<and> new_side os = b \<and> changes os \<le> changes ops"
proof (induction ps arbitrary: ops)
  case (Cons c ps)
  then obtain os where "old_side os = ps @ a" "new_side os = ps @ b" "changes os \<le> changes ops"
    using drop_common_line [of ops c "ps @ a" "ps @ b"] by auto
  then show ?case using Cons.IH [of os] le_trans by blast
qed (metis append_Nil order_refl)

lemma rev_sides: "old_side (rev ops) = rev (old_side ops)" "new_side (rev ops) = rev (new_side ops)"
  "changes (rev ops) = changes ops"
  by (simp_all add: old_side_def new_side_def changes_def rev_map rev_filter [symmetric])

lemma drop_common_end:
  assumes "old_side ops = a @ ps" "new_side ops = b @ ps"
  shows "\<exists>os. old_side os = a \<and> new_side os = b \<and> changes os \<le> changes ops"
proof -
  obtain os where "old_side os = rev a" "new_side os = rev b" "changes os \<le> changes ops"
    using drop_common_start [of "rev ops" "rev ps" "rev a" "rev b"] assms by (auto simp: rev_sides)
  then show ?thesis by (intro exI [of _ "rev os"]) (simp add: rev_sides)
qed

lemma common_start_take: "take (common_start a b) a = take (common_start a b) b"
  "common_start a b \<le> length a" "common_start a b \<le> length b"
  by (induction a b rule: common_start.induct) auto

text \<open>The texts are the lines common at the start, the middle, and the lines common at the end.\<close>

lemma diff_script_parts:
  obtains p u v q where "a = p @ u @ q" "b = p @ v @ q"
    "diff_script a b = ops_of Kept p @ diffMiddle u v @ ops_of Kept q"
proof
  define n where "n = common_start a b"
  define m where "m = common_start (rev (drop n a)) (rev (drop n b))"
  have n: "take n a = take n b" "n \<le> length a" "n \<le> length b" using common_start_take [of a b] by (auto simp: n_def)
  have m: "m \<le> length a - n" "m \<le> length b - n" "take m (rev (drop n a)) = take m (rev (drop n b))"
    using common_start_take [of "rev (drop n a)" "rev (drop n b)"] by (auto simp: m_def)
  have q: "drop (length a - m) a = drop (length b - m) b"
  proof -
    have "drop (length a - n - m) (drop n a) = drop (length b - n - m) (drop n b)"
      using m(3) by (simp add: take_rev)
    then show ?thesis using m(1,2) n(2,3) by (simp add: algebra_simps)
  qed
  show "diff_script a b = ops_of Kept (take n a) @ diffMiddle (drop n (take (length a - m) a)) (drop n (take (length b - m) b))
      @ ops_of Kept (drop (length a - m) a)"
    by (simp add: diff_script_def Let_def n_def m_def)
  have parts: "xs = take n xs @ drop n (take (length xs - m) xs) @ drop (length xs - m) xs"
    if "n \<le> length xs" "m \<le> length xs - n" for xs :: "jstring list"
  proof -
    have "drop n (take (length xs - m) xs) @ drop (length xs - m) xs = drop n (take (length xs - m) xs @ drop (length xs - m) xs)"
      using that by (subst drop_append) (simp add: min_def)
    then show ?thesis by simp
  qed
  show "a = take n a @ drop n (take (length a - m) a) @ drop (length a - m) a" using parts n m by blast
  show "b = take n a @ drop n (take (length b - m) b) @ drop (length a - m) a" using parts [of b] n m q by metis
qed

lemma diff_script_sides: "old_side (diff_script a b) = a" "new_side (diff_script a b) = b"
proof -
  obtain p u v q where "a = p @ u @ q" "b = p @ v @ q" "diff_script a b = ops_of Kept p @ diffMiddle u v @ ops_of Kept q"
    by (rule diff_script_parts)
  then show "old_side (diff_script a b) = a" "new_side (diff_script a b) = b" by (simp_all add: diffMiddle_sides)
qed

lemma diff_script_shortest:
  assumes "old_side ops = a" "new_side ops = b" "changes ops \<le> MAX_EDIT_DISTANCE"
  shows "changes (diff_script a b) \<le> changes ops"
proof -
  obtain p u v q where pq: "a = p @ u @ q" "b = p @ v @ q" "diff_script a b = ops_of Kept p @ diffMiddle u v @ ops_of Kept q"
    by (rule diff_script_parts)
  then obtain os where "old_side os = u @ q" "new_side os = v @ q" "changes os \<le> changes ops"
    using drop_common_start [of ops p "u @ q" "v @ q"] assms by auto
  then obtain os' where "old_side os' = u" "new_side os' = v" "changes os' \<le> changes ops"
    using drop_common_end [of os u q v] le_trans by blast
  then show ?thesis using diffMiddle_shortest [of os' u v] pq(3) assms(3) by simp
qed

section \<open>Applying hunks\<close>

text \<open>
  A strict reading of hunks: each is at its line numbers in both texts, its kept and removed lines are
  the ones there, and its counts are right. The result is the new text.
\<close>

fun apply_lines :: "jstring list \<Rightarrow> jstring list \<Rightarrow> (jstring list \<times> jstring list) option" where
  "apply_lines [] old = Some ([], old)"
| "apply_lines ((c # t) # ls) (x # old) =
     (if c = 43 then map_option (\<lambda>(o', r). (t # o', r)) (apply_lines ls (x # old))
      else if x \<noteq> t then None
      else if c = 32 then map_option (\<lambda>(o', r). (t # o', r)) (apply_lines ls old)
      else if c = 45 then apply_lines ls old
      else None)"
| "apply_lines ((c # t) # ls) [] = (if c = 43 then map_option (\<lambda>(o', r). (t # o', r)) (apply_lines ls []) else None)"
| "apply_lines ([] # ls) old = None"

text \<open>From given numbers of lines read and written, with what is left of the old text.\<close>

fun apply_hunks :: "nat \<Rightarrow> nat \<Rightarrow> diff_hunk list \<Rightarrow> jstring list \<Rightarrow> jstring list option" where
  "apply_hunks m n [] old = Some old"
| "apply_hunks m n (h # hs) old =
     (let k = oldStart h - (m + 1)
      in if oldStart h < m + 1 \<or> length old < k \<or> newStart h \<noteq> n + k + 1 then None
         else case apply_lines (hunk_lines h) (drop k old) of
                None \<Rightarrow> None
              | Some (out, rest) \<Rightarrow>
                  if length old \<noteq> k + oldLines h + length rest \<or> length out \<noteq> newLines h then None
                  else map_option (\<lambda>z. take k old @ out @ z) (apply_hunks (m + k + oldLines h) (n + k + newLines h) hs rest))"

lemma apply_lines_part:
  "apply_lines (map (\<lambda>p. op_char (op_kind p) # op_text p) part) (old_side part @ r) = Some (new_side part, r)"
proof (induction part)
  case (Cons p part)
  then show ?case by (cases "op_kind p"; cases "old_side part @ r") auto
qed simp

lemma line_numbers_at:
  "i < length ops \<Longrightarrow> line_numbers m n ops ! i = (m + length (old_side (take i ops)), n + length (new_side (take i ops)))"
proof (induction ops arbitrary: i m n)
  case (Cons p ops)
  then show ?case by (cases i; cases "op_kind p") auto
qed simp

lemma unchanged_part:
  assumes "\<And>j. i \<le> j \<Longrightarrow> j < k \<Longrightarrow> j < length ops \<Longrightarrow> \<not> changed_at ops j"
  shows "new_side (take (k - i) (drop i ops)) = old_side (take (k - i) (drop i ops))"
proof -
  have "list_all (\<lambda>p. op_kind p = Kept) (take (k - i) (drop i ops))"
    using assms by (auto simp: list_all_length changed_at_def)
  then show ?thesis by (simp add: old_side_def new_side_def list_all_iff cong: filter_cong)
qed


lemma hunk_to_gap:
  "hunk_to ops c to \<le> j \<Longrightarrow> j < hunk_to ops c to + 2 * c \<Longrightarrow> j < length ops \<Longrightarrow> \<not> changed_at ops j"
proof (induction ops c to rule: hunk_to.induct)
  case (1 ops c to)
  define t where "t = skip_changed ops to"
  define gap where "gap = skip_gap ops c t t"
  show ?case
  proof (cases "gap < length ops \<and> changed_at ops gap \<and> gap - t \<le> 2 * c")
    case True
    then have "hunk_to ops c to = hunk_to ops c gap" by (subst hunk_to.simps) (simp add: Let_def t_def gap_def)
    then show ?thesis using "1.IH" [OF t_def gap_def True] "1.prems" by simp
  next
    case False
    then have h: "hunk_to ops c to = t" by (subst hunk_to.simps) (auto simp: Let_def t_def gap_def)
    have "j < gap"
      using False skip_gap_stops(1) [of t ops c t] skip_gap_stops(2) [of ops c t t] skip_gap_stops(4) [of t t c ops] "1.prems" unfolding h gap_def [symmetric] by auto
    then show ?thesis using skip_gap_stops(3) [of t j ops c t] "1.prems"(1) h by (simp add: gap_def)
  qed
qed

text \<open>An end of a hunk from which the next one stays apart.\<close>

definition apart :: "diff_op list \<Rightarrow> nat \<Rightarrow> nat \<Rightarrow> bool" where
  "apart ops c p \<longleftrightarrow> p = 0 \<or> (\<forall>j. p \<le> j \<and> j < p + c \<and> j < length ops \<longrightarrow> \<not> changed_at ops j)"

lemma apart_end: "apart ops c (min (length ops) (hunk_to ops c i + c))"
  using hunk_to_gap [of ops c i] by (auto simp: apart_def)

lemma apart_first:
  assumes "apart ops c p" "p \<le> i" "i < length ops" "changed_at ops i"
  shows "p \<le> i - c"
  using assms by (cases "i < p + c") (auto simp: apart_def)

lemma apply_hunk:
  assumes "p \<le> f" "f < e" "e \<le> length ops" "\<And>j. p \<le> j \<Longrightarrow> j < f \<Longrightarrow> \<not> changed_at ops j"
    "apply_hunks (length (old_side (take e ops))) (length (new_side (take e ops))) hs (old_side (drop e ops)) =
       Some (new_side (drop e ops))"
  shows "apply_hunks (length (old_side (take p ops))) (length (new_side (take p ops))) (hunk_at ops f e # hs) (old_side (drop p ops)) =
       Some (new_side (drop p ops))"
proof -
  let ?same = "take (f - p) (drop p ops)" and ?part = "take (e - f) (drop f ops)"
  have ops: "take f ops = take p ops @ ?same" "take e ops = take f ops @ ?part" "drop p ops = ?same @ ?part @ drop e ops"
    using assms(1,2) by (simp_all add: take_add [symmetric], metis append_take_drop_id drop_drop le_add_diff_inverse2 less_imp_le)
  have same: "new_side ?same = old_side ?same" using unchanged_part [of p f ops] assms(4) by blast
  have numbers: "line_numbers (Suc 0) (Suc 0) ops ! f = (1 + length (old_side (take f ops)), 1 + length (new_side (take f ops)))"
    using line_numbers_at [of f ops "Suc 0" "Suc 0"] assms(2,3) by simp
  have counts: "oldLines (hunk_at ops f e) = length (old_side ?part)" "newLines (hunk_at ops f e) = length (new_side ?part)"
    "oldStart (hunk_at ops f e) = 1 + length (old_side (take p ops)) + length (old_side ?same)"
    "newStart (hunk_at ops f e) = 1 + length (new_side (take p ops)) + length (old_side ?same)"
    "hunk_lines (hunk_at ops f e) = map (\<lambda>p. op_char (op_kind p) # op_text p) ?part"
    by (simp_all add: hunk_at_def Let_def numbers ops(1) same old_side_def [of ?part] new_side_def [of ?part])
  have rest: "old_side (drop p ops) = old_side ?same @ old_side ?part @ old_side (drop e ops)"
    "new_side (drop p ops) = new_side ?same @ new_side ?part @ new_side (drop e ops)"
    using arg_cong [OF ops(3), of old_side] arg_cong [OF ops(3), of new_side] unfolding side_append by blast+
  show ?thesis
    unfolding rest using assms(5) by (simp add: counts apply_lines_part same ops(1,2) add.assoc Let_def)
qed

lemma hunks_apply:
  "hunks_from ops c i kept = (hs, False) \<Longrightarrow> p \<le> i \<Longrightarrow> (\<And>j. p \<le> j \<Longrightarrow> j < i \<Longrightarrow> j < length ops \<Longrightarrow> \<not> changed_at ops j) \<Longrightarrow> apart ops c p \<Longrightarrow>
    apply_hunks (length (old_side (take p ops))) (length (new_side (take p ops))) hs (old_side (drop p ops)) =
      Some (new_side (drop p ops))"
proof (induction ops c i kept arbitrary: hs p rule: hunks_from.induct)
  case (1 ops c i kept)
  show ?case
  proof (cases "i < length ops")
    case False
    then have "hs = []" using "1.prems"(1) by (subst (asm) hunks_from.simps) simp
    moreover have "new_side (drop p ops) = old_side (drop p ops)"
      using unchanged_part [of p "length ops" ops] "1.prems"(3) False by simp
    ultimately show ?thesis by simp
  next
    case True
    show ?thesis
    proof (cases "changed_at ops i")
      case False
      then have "hunks_from ops c (i + 1) kept = (hs, False)"
        using "1.prems"(1) True by (subst (asm) hunks_from.simps) simp
      moreover have "\<And>j. p \<le> j \<Longrightarrow> j < i + 1 \<Longrightarrow> j < length ops \<Longrightarrow> \<not> changed_at ops j"
        using "1.prems"(3) False less_Suc_eq by fastforce
      ultimately show ?thesis using "1.IH"(1) [of hs p] True False "1.prems"(2,4) by auto
    next
      case ch: True
      define f where "f = i - c"
      define e where "e = min (length ops) (hunk_to ops c i + c)"
      obtain hs' where hs: "hs = hunk_at ops f e # hs'" "hunks_from ops c e (kept + (e - f)) = (hs', False)"
        and small: "\<not> MAX_HUNK_LINES < kept + (e - f)"
        using "1.prems"(1) True ch
        by (subst (asm) hunks_from.simps) (auto simp: Let_def f_def e_def split: if_splits prod.splits)
      have e: "i < e" "e \<le> length ops" using hunk_to_gt [OF True ch, of c] True by (auto simp: e_def)
      have p: "p \<le> f" using apart_first [OF "1.prems"(4,2) True ch] by (simp add: f_def)
      have "apply_hunks (length (old_side (take e ops))) (length (new_side (take e ops))) hs' (old_side (drop e ops)) =
          Some (new_side (drop e ops))"
        using "1.IH"(2) [OF _ _ f_def e_def refl small, of hs' e] hs(2) True ch apart_end [of ops c i] by (simp add: e_def)
      moreover have "f < e" "\<And>j. p \<le> j \<Longrightarrow> j < f \<Longrightarrow> \<not> changed_at ops j"
        using e "1.prems"(3) by (auto simp: f_def)
      ultimately show ?thesis unfolding hs(1) using apply_hunk [OF p] e(2) by blast
    qed
  qed
qed

lemma toHunks_apply:
  assumes "\<not> truncated (toHunks ops c)"
  shows "apply_hunks 0 0 (hunks (toHunks ops c)) (old_side ops) = Some (new_side ops)"
  using hunks_apply [of ops c 0 0 "hunks (toHunks ops c)" 0] assms
  by (auto simp: toHunks_def apart_def split: prod.splits)


section \<open>Properties\<close>

text \<open>
  C11. The hunks of a diff are a patch: unless some were left out, reading them strictly against the old
  text, with their line numbers and counts in both texts, gives the new text, for any width of context.
\<close>

theorem fileDiff_applies:
  assumes "\<not> truncated (fileDiff text_before text_after c)"
  shows "apply_hunks 0 0 (hunks (fileDiff text_before text_after c)) (splitLines text_before) = Some (splitLines text_after)"
  using toHunks_apply [of "diff_script (splitLines text_before) (splitLines text_after)" c] assms
  by (simp add: fileDiff_def diff_script_sides)

definition old_text :: jstring where
  "old_text = js ''a'' @ [cNL] @ js ''b'' @ [cNL] @ js ''c'' @ [cNL] @ js ''d'' @ [cCR, cNL]"

definition new_text :: jstring where
  "new_text = js ''a'' @ [cNL] @ js ''x'' @ [cNL] @ js ''c'' @ [cNL] @ js ''d'' @ [cNL] @ js ''e'' @ [cNL]"

lemma fileDiff_applies_witness:
  "apply_hunks 0 0 (hunks (fileDiff old_text new_text 0)) (splitLines old_text) = Some (splitLines new_text)"
  by (rule fileDiff_applies) code_simp

text \<open>
  C12. The diff is a shortest one: no script that turns the lines of one text into those of the other
  changes fewer lines, as long as a script of at most a thousand changes exists.
\<close>

theorem fileDiff_shortest:
  assumes "old_side ops = splitLines text_before" "new_side ops = splitLines text_after" "changes ops \<le> MAX_EDIT_DISTANCE"
  shows "added (fileDiff text_before text_after c) + removed (fileDiff text_before text_after c) \<le> changes ops"
proof -
  have "length (filter (\<lambda>p. op_kind p = Added) os) + length (filter (\<lambda>p. op_kind p = Removed) os) = changes os" for os
  proof (induction os)
    case (Cons p os)
    then show ?case by (cases "op_kind p") simp_all
  qed simp
  then have "added (toHunks os c) + removed (toHunks os c) = changes os" for os
    by (simp add: toHunks_def split: prod.splits)
  then show ?thesis using diff_script_shortest [OF assms] by (simp add: fileDiff_def)
qed

lemma fileDiff_shortest_witness:
  "added (fileDiff old_text new_text 0) + removed (fileDiff old_text new_text 0)
    \<le> changes [\<lparr>op_kind = Kept, op_text = js ''a''\<rparr>, \<lparr>op_kind = Removed, op_text = js ''b''\<rparr>,
        \<lparr>op_kind = Added, op_text = js ''x''\<rparr>, \<lparr>op_kind = Kept, op_text = js ''c''\<rparr>,
        \<lparr>op_kind = Kept, op_text = js ''d''\<rparr>, \<lparr>op_kind = Added, op_text = js ''e''\<rparr>]"
  by (rule fileDiff_shortest; code_simp)

end
