(* ===== verification/Sse.thy ===== *)
theory Sse
  imports Prelude
begin

text \<open>
  The reader of server-sent events (\<open>packages/ai/src/sse.ts\<close>). A body arrives in pieces, which here are
  the texts the streaming decoder gives for them, the last one being what it gives at the end. Whether
  the consumer's signal is aborted when it has taken a number of messages is an argument.
\<close>

section \<open>The code\<close>

record sse_message =
  sm_event :: "jstring option"
  sm_data :: jstring

datatype sse_outcome = Finished | Aborted

record sse_state =
  ss_buf :: jstring
  ss_event :: "jstring option"
  ss_data :: "jstring list"
  ss_scanFrom :: nat
  ss_out :: "sse_message list"

text \<open>The empty event name counts as none.\<close>

definition flush :: "sse_state \<Rightarrow> sse_message option \<times> sse_state" where
  "flush s =
     (if ss_data s = [] then (None, s\<lparr>ss_event := None\<rparr>)
      else (Some \<lparr>sm_event = (case ss_event s of Some e \<Rightarrow> if e = [] then None else Some e | None \<Rightarrow> None),
                  sm_data = join_with [cNL] (ss_data s)\<rparr>,
            s\<lparr>ss_event := None, ss_data := []\<rparr>))"

definition onLine :: "jstring \<Rightarrow> sse_state \<Rightarrow> sse_message option \<times> sse_state" where
  "onLine line s =
     (if line = [] then flush s
      else if hd line = ch CHR '':'' then (None, s)
      else
        let field = takeWhile (\<lambda>c. c \<noteq> ch CHR '':'') line;
            raw = drop (length field + 1) line;
            v = (if raw \<noteq> [] \<and> hd raw = cSP then tl raw else raw)
        in (None,
            if field = js ''data'' then s\<lparr>ss_data := ss_data s @ [v]\<rparr>
            else if field = js ''event'' then s\<lparr>ss_event := Some v\<rparr>
            else s))"

text \<open>The first line ending from a position on, with its length: CR LF, CR or LF.\<close>

fun next_eol :: "nat \<Rightarrow> jstring \<Rightarrow> (nat \<times> nat) option" where
  "next_eol i [] = None"
| "next_eol i (c # r) =
     (if c = cCR then Some (i, case r of d # _ \<Rightarrow> if d = cNL then 2 else 1 | [] \<Rightarrow> 1)
      else if c = cNL then Some (i, 1)
      else next_eol (i + 1) r)"

lemma next_eol_bounds: "next_eol i r = Some (k, n) \<Longrightarrow> i \<le> k \<and> 1 \<le> n \<and> k + n \<le> i + length r"
  by (induction i r rule: next_eol.induct) (force split: if_splits list.splits)+

text \<open>A message is given out; then the signal is looked at.\<close>

definition give :: "(nat \<Rightarrow> bool) \<Rightarrow> sse_message option \<times> sse_state \<Rightarrow> sse_state \<times> bool" where
  "give ab r =
     (case r of
        (None, s) \<Rightarrow> (s, False)
      | (Some m, s) \<Rightarrow> (s\<lparr>ss_out := ss_out s @ [m]\<rparr>, ab (length (ss_out s) + 1)))"

lemma give_onLine_buf: "give ab (onLine l s) = (s', stop) \<Longrightarrow> ss_buf s' = ss_buf s"
  by (auto simp: give_def onLine_def flush_def Let_def split: option.splits if_splits prod.splits)

lemma next_eol_progress:
  "next_eol i (drop i s) = Some (k, n) \<Longrightarrow> i < k + n \<and> k + n \<le> length s \<and> i \<le> k \<and> k < length s"
  using next_eol_bounds [of i "drop i s" k n] by (cases "i \<le> length s") auto

text \<open>
  The lines of the buffer: where the rest of it starts, whether a CR at its end is held, the state, and
  whether the signal ended the stream.
\<close>

function take_lines :: "(nat \<Rightarrow> bool) \<Rightarrow> bool \<Rightarrow> nat \<Rightarrow> nat \<Rightarrow> sse_state \<Rightarrow> nat \<times> bool \<times> sse_state \<times> bool" where
  "take_lines ab fin start sc s =
     (case next_eol sc (drop sc (ss_buf s)) of
        None \<Rightarrow> (start, False, s, False)
      | Some (k, n) \<Rightarrow>
          if \<not> fin \<and> n = 1 \<and> ss_buf s ! k = cCR \<and> k = length (ss_buf s) - 1 then (start, True, s, False)
          else
            let (s', stop) = give ab (onLine (take (k - start) (drop start (ss_buf s))) s)
            in if stop then (start, False, s', True) else take_lines ab fin (k + n) (k + n) s')"
  by pat_completeness auto

termination
  by (relation "measure (\<lambda>(ab, fin, start, sc, s). length (ss_buf s) - sc)")
    (auto dest!: next_eol_progress sym [of "(_, _)" "give _ _"] give_onLine_buf)

declare take_lines.simps [simp del]

definition read_piece :: "(nat \<Rightarrow> bool) \<Rightarrow> bool \<Rightarrow> jstring \<Rightarrow> sse_state \<Rightarrow> sse_state \<times> bool" where
  "read_piece ab fin piece s =
     (let s1 = s\<lparr>ss_buf := ss_buf s @ piece\<rparr>;
          (start, heldCR, s2, stop) = take_lines ab fin 0 (ss_scanFrom s) s1;
          rest = drop start (ss_buf s2)
      in (if stop then s2 else s2\<lparr>ss_buf := rest, ss_scanFrom := (if heldCR then length rest - 1 else length rest)\<rparr>, stop))"

text \<open>After the last piece: what is left is a line, and the end of the body ends a message.\<close>

definition finish_sse :: "(nat \<Rightarrow> bool) \<Rightarrow> sse_state \<Rightarrow> sse_message list \<times> sse_outcome" where
  "finish_sse ab s =
     (let (s1, _) = (if ss_buf s \<noteq> [] then give ab (onLine (ss_buf s) s) else (s, False));
          (s2, _) = give ab (flush s1)
      in (ss_out s2, if ab (length (ss_out s2)) then Aborted else Finished))"

fun read_pieces :: "(nat \<Rightarrow> bool) \<Rightarrow> jstring list \<Rightarrow> jstring \<Rightarrow> sse_state \<Rightarrow> sse_message list \<times> sse_outcome" where
  "read_pieces ab [] last_piece s =
     (let (s', stop) = read_piece ab True last_piece s
      in if stop then (ss_out s', Aborted) else finish_sse ab s')"
| "read_pieces ab (p # ps) last_piece s =
     (let (s', stop) = read_piece ab False p s
      in if stop then (ss_out s', Aborted) else read_pieces ab ps last_piece s')"

definition parseSSE :: "(nat \<Rightarrow> bool) \<Rightarrow> jstring list \<Rightarrow> jstring \<Rightarrow> sse_message list \<times> sse_outcome" where
  "parseSSE ab pieces last_piece =
     read_pieces ab pieces last_piece \<lparr>ss_buf = [], ss_event = None, ss_data = [], ss_scanFrom = 0, ss_out = []\<rparr>"


section \<open>Lines of the whole text\<close>

text \<open>
  The lines of a text that are complete, and the rest. Unless the text is known to be at its end, a CR at
  the end is not yet a line ending.
\<close>

fun cut :: "bool \<Rightarrow> jstring \<Rightarrow> jstring list \<times> jstring" where
  "cut fin [] = ([], [])"
| "cut fin [c] =
     (if c = cNL \<or> (fin \<and> c = cCR) then ([[]], []) else ([], [c]))"
| "cut fin (c # d # s) =
     (if c = cCR \<and> d = cNL then (let (ls, r) = cut fin s in ([] # ls, r))
      else if c = cCR \<or> c = cNL then (let (ls, r) = cut fin (d # s) in ([] # ls, r))
      else case cut fin (d # s) of ([], r) \<Rightarrow> ([], c # r) | (l # ls, r) \<Rightarrow> ((c # l) # ls, r))"

text \<open>Events over lines, with the messages given out on the way.\<close>

fun take_all :: "(nat \<Rightarrow> bool) \<Rightarrow> jstring list \<Rightarrow> sse_state \<Rightarrow> sse_state \<times> bool" where
  "take_all ab [] s = (s, False)"
| "take_all ab (l # ls) s = (let (s', stop) = give ab (onLine l s) in if stop then (s', True) else take_all ab ls s')"

definition eol_char :: "cu \<Rightarrow> bool" where
  "eol_char c \<longleftrightarrow> c = cCR \<or> c = cNL"

lemma cut_plain: "list_all (\<lambda>c. \<not> eol_char c) a \<Longrightarrow>
    cut fin (a @ s) = (case cut fin s of ([], r) \<Rightarrow> ([], a @ r) | (l # ls, r) \<Rightarrow> ((a @ l) # ls, r))"
proof (induction a)
  case (Cons c a)
  show ?case
  proof (cases "a @ s")
    case Nil
    then show ?thesis using Cons.prems by (auto simp: eol_char_def)
  next
    case (Cons d t)
    have "cut fin (c # a @ s) = (case cut fin (a @ s) of ([], r) \<Rightarrow> ([], c # r) | (l # ls, r) \<Rightarrow> ((c # l) # ls, r))"
      using Cons.prems(1) unfolding Cons by (auto simp: eol_char_def)
    then show ?thesis using Cons.IH Cons.prems by (auto split: list.splits prod.splits)
  qed
qed (auto split: list.splits prod.splits)

text \<open>A line ending and what follows it: CR LF, LF, or a CR that no LF follows.\<close>

definition eol_before :: "jstring \<Rightarrow> jstring \<Rightarrow> bool" where
  "eol_before e t \<longleftrightarrow> e = [cCR, cNL] \<or> e = [cNL] \<or> (e = [cCR] \<and> (t = [] \<or> hd t \<noteq> cNL))"

lemma cut_eol:
  assumes "eol_before e t" "\<not> (\<not> fin \<and> e = [cCR] \<and> t = [])"
  shows "cut fin (e @ t) = (let (ls, r) = cut fin t in ([] # ls, r))"
  using assms by (cases t) (auto simp: eol_before_def split: prod.splits)

lemma cut_held: "cut False [cCR] = ([], [cCR])"
  by simp

lemma next_eol_None: "next_eol i r = None \<longleftrightarrow> list_all (\<lambda>c. \<not> eol_char c) r"
  by (induction i r rule: next_eol.induct) (auto simp: eol_char_def)

lemma next_eol_Some:
  "next_eol i r = Some (k, n) \<Longrightarrow>
     \<exists>a e t. r = a @ e @ t \<and> list_all (\<lambda>c. \<not> eol_char c) a \<and> eol_before e t \<and> k = i + length a \<and> n = length e"
proof (induction i r rule: next_eol.induct)
  case (2 i c r)
  consider "c = cCR" | "c = cNL" | "c \<noteq> cCR" "c \<noteq> cNL" by blast
  then show ?case
  proof cases
    case 1
    show ?thesis
    proof (cases "r \<noteq> [] \<and> hd r = cNL")
      case True
      then show ?thesis using 1 "2.prems"
        by (intro exI [of _ "[]"] exI [of _ "[cCR, cNL]"] exI [of _ "tl r"]) (cases r; auto simp: eol_before_def)
    next
      case False
      then show ?thesis using 1 "2.prems"
        by (intro exI [of _ "[]"] exI [of _ "[cCR]"] exI [of _ r]) (cases r; auto simp: eol_before_def)
    qed
  next
    case 2
    then show ?thesis using "2.prems"
      by (intro exI [of _ "[]"] exI [of _ "[cNL]"] exI [of _ r]) (auto simp: eol_before_def)
  next
    case 3
    then obtain a e t where "r = a @ e @ t" "list_all (\<lambda>c. \<not> eol_char c) a" "eol_before e t"
      "k = i + 1 + length a" "n = length e" using "2.IH" "2.prems" by auto
    then show ?thesis using 3 by (intro exI [of _ "c # a"] exI [of _ e] exI [of _ t]) (auto simp: eol_char_def)
  qed
qed simp

text \<open>The loop over the buffer takes the lines that the text is cut into.\<close>

lemma take_lines_cut:
  assumes "start \<le> sc" "sc \<le> length (ss_buf s)" "list_all (\<lambda>c. \<not> eol_char c) (take (sc - start) (drop start (ss_buf s)))"
    "cut fin (drop start (ss_buf s)) = (ls, r)" "take_all ab ls s = (s', stop)"
  shows "\<exists>st held. take_lines ab fin start sc s = (st, held, s', stop)
    \<and> (\<not> stop \<longrightarrow> drop st (ss_buf s) = r \<and> (held \<longrightarrow> r \<noteq> [] \<and> last r = cCR \<and> list_all (\<lambda>c. \<not> eol_char c) (butlast r))
        \<and> (\<not> held \<longrightarrow> list_all (\<lambda>c. \<not> eol_char c) r))"
  using assms
proof (induction ab fin start sc s arbitrary: ls rule: take_lines.induct)
  case (1 ab fin start sc s)
  define pre where "pre = take (sc - start) (drop start (ss_buf s))"
  have buf: "drop start (ss_buf s) = pre @ drop sc (ss_buf s)"
    unfolding pre_def using 1(2) by (metis append_take_drop_id drop_drop le_add_diff_inverse2)
  have pre: "list_all (\<lambda>c. \<not> eol_char c) pre" "length pre = sc - start" using 1(2,3,4) by (simp_all add: pre_def)
  show ?case
  proof (cases "next_eol sc (drop sc (ss_buf s))")
    case None
    then have "list_all (\<lambda>c. \<not> eol_char c) (drop start (ss_buf s))"
      using pre(1) next_eol_None buf by (metis list_all_append)
    then have "ls = []" "r = drop start (ss_buf s)" "list_all (\<lambda>c. \<not> eol_char c) r"
      using 1(5) cut_plain [of "drop start (ss_buf s)" fin "[]"] by auto
    then show ?thesis using None 1(6) by (subst take_lines.simps) auto
  next
    case (Some kn)
    obtain k n where kn: "kn = (k, n)" by fastforce
    obtain a e t where t: "drop sc (ss_buf s) = a @ e @ t" "list_all (\<lambda>c. \<not> eol_char c) a" "eol_before e t"
      "k = sc + length a" "n = length e" using next_eol_Some [of sc] Some kn by blast
    let ?l = "pre @ a"
    have l: "list_all (\<lambda>c. \<not> eol_char c) ?l" using pre(1) t(2) by simp
    have bl: "drop start (ss_buf s) = ?l @ e @ t" using buf t(1) by simp
    have tk: "take (k - start) (drop start (ss_buf s)) = ?l"
      unfolding bl using pre(2) t(4) 1(2) by simp
    have e: "e \<noteq> []" using t(3) by (auto simp: eol_before_def)
    have len_buf: "length (ss_buf s) = k + n + length t"
    proof -
      have "length (drop sc (ss_buf s)) = length a + n + length t" using t(1,5) by simp
      then show ?thesis using t(4) 1(3) by simp
    qed
    have at: "ss_buf s ! k = hd e"
    proof -
      have "ss_buf s ! k = drop sc (ss_buf s) ! length a" using t(4) 1(3) by simp
      then show ?thesis unfolding t(1) using e by (simp add: nth_append hd_conv_nth)
    qed
    have dk: "drop (k + n) (ss_buf s) = t"
    proof -
      have "drop (k + n) (ss_buf s) = drop (length a + n) (drop sc (ss_buf s))" using t(4) by (simp add: add_ac)
      then show ?thesis unfolding t(1) using t(5) by simp
    qed
    have held: "(\<not> fin \<and> n = 1 \<and> ss_buf s ! k = cCR \<and> k = length (ss_buf s) - 1) \<longleftrightarrow> (\<not> fin \<and> e = [cCR] \<and> t = [])"
      using at len_buf t(3,5) by (auto simp: eol_before_def)
    show ?thesis
    proof (cases "\<not> fin \<and> e = [cCR] \<and> t = []")
      case True
      then have "ls = []" "r = ?l @ [cCR]" using 1(5) cut_plain [OF l, of fin "[cCR]"] bl by auto
      moreover have "take_lines ab fin start sc s = (start, True, s, False)"
        using Some kn held True by (subst take_lines.simps) auto
      ultimately show ?thesis using 1(6) bl True l
        by (intro exI [of _ start] exI [of _ True]) (simp add: butlast_append)
    next
      case False
      obtain ls' where ls: "ls = ?l # ls'" "cut fin t = (ls', r)"
        using 1(5) cut_plain [OF l, of fin "e @ t"] cut_eol [OF t(3) False] bl by (cases "cut fin t") auto
      obtain s1 stop1 where g: "give ab (onLine ?l s) = (s1, stop1)" by fastforce
      have nh: "\<not> (\<not> fin \<and> n = 1 \<and> ss_buf s ! k = cCR \<and> k = length (ss_buf s) - 1)" using held False by blast
      have tl: "take_lines ab fin start sc s = (if stop1 then (start, False, s1, True) else take_lines ab fin (k + n) (k + n) s1)"
        using Some kn held False g by (subst take_lines.simps) (auto simp: tk)
      have b1: "ss_buf s1 = ss_buf s" using give_onLine_buf [OF g] .
      show ?thesis
      proof (cases stop1)
        case True
        then show ?thesis using 1(6) tl ls(1) g by auto
      next
        case stop: False
        have ta: "take_all ab ls' s1 = (s', stop)" using 1(6) ls(1) g stop by simp
        show ?thesis
          using "1.IH" [OF Some kn [symmetric] nh refl, of s1 stop1 ls'] g tk stop ta ls(2) dk b1 len_buf tl by simp
      qed
    qed
  qed
qed


text \<open>Text that comes later only adds to the rest.\<close>

lemma cut_append: "cut False t = (ls, r) \<Longrightarrow> cut fin (t @ u) = (let (ls', r') = cut fin (r @ u) in (ls @ ls', r'))"
proof (induction False t arbitrary: ls r rule: cut.induct)
  case (2 c)
  then show ?case by (cases u) (auto split: if_splits prod.splits)
next
  case (3 c d s)
  consider "c = cCR" "d = cNL" | "c = cCR \<or> c = cNL" "\<not> (c = cCR \<and> d = cNL)" | "c \<noteq> cCR" "c \<noteq> cNL" by blast
  then show ?case
  proof cases
    case 1
    then show ?thesis using 3 by (auto split: prod.splits)
  next
    case 2
    then show ?thesis using 3 by (auto split: prod.splits)
  next
    case c: 3
    then obtain ls0 r0 where 0: "cut False (d # s) = (ls0, r0)" by fastforce
    have c0: "cut fin (c # x) = (case cut fin x of ([], r) \<Rightarrow> ([], c # r) | (l # ls, r) \<Rightarrow> ((c # l) # ls, r))" for x fin
      using c cut_plain [of "[c]" fin x] by (auto simp: eol_char_def split: prod.splits list.splits)
    show ?thesis
      using "3.hyps"(3) [OF _ _ 0] 0 "3.prems" c unfolding append_Cons c0
      by (cases ls0) (auto split: prod.splits list.splits simp: c0 Let_def)
  qed
qed simp

definition ready :: "sse_state \<Rightarrow> bool" where
  "ready s \<longleftrightarrow> cut False (ss_buf s) = ([], ss_buf s) \<and> ss_scanFrom s \<le> length (ss_buf s)
     \<and> list_all (\<lambda>c. \<not> eol_char c) (take (ss_scanFrom s) (ss_buf s))"

lemma cut_rest: "cut False t = (ls, r) \<Longrightarrow> cut False r = ([], r)"
proof -
  assume "cut False t = (ls, r)"
  then have "cut False (t @ []) = (let (ls', r') = cut False (r @ []) in (ls @ ls', r'))" by (rule cut_append)
  then show ?thesis using \<open>cut False t = (ls, r)\<close> by (cases "cut False r") auto
qed

lemma onLine_frame:
  "onLine l (s\<lparr>ss_buf := b, ss_scanFrom := n\<rparr>) = (let (m, s') = onLine l s in (m, s'\<lparr>ss_buf := b, ss_scanFrom := n\<rparr>))"
  by (cases s) (simp add: onLine_def flush_def Let_def)

lemma give_frame:
  "give ab (m, s\<lparr>ss_buf := b, ss_scanFrom := n\<rparr>) = (let (s', st) = give ab (m, s) in (s'\<lparr>ss_buf := b, ss_scanFrom := n\<rparr>, st))"
  by (cases s) (simp add: give_def split: option.splits)

lemma take_all_frame:
  "take_all ab ls (s\<lparr>ss_buf := b, ss_scanFrom := n\<rparr>) = (let (s', st) = take_all ab ls s in (s'\<lparr>ss_buf := b, ss_scanFrom := n\<rparr>, st))"
proof (induction ls arbitrary: s)
  case (Cons l ls)
  obtain m s1 where o: "onLine l s = (m, s1)" by fastforce
  obtain s2 st where g: "give ab (m, s1) = (s2, st)" by fastforce
  show ?case using Cons.IH [of s2] o g by (simp add: onLine_frame give_frame)
qed simp

lemma take_all_append:
  "take_all ab (ls @ ks) s = (let (s', stop) = take_all ab ls s in if stop then (s', True) else take_all ab ks s')"
  by (induction ls arbitrary: s) (auto split: prod.splits)

lemma take_all_buf: "take_all ab ls s = (s', stop) \<Longrightarrow> ss_buf s' = ss_buf s"
  by (induction ls arbitrary: s) (auto split: prod.splits if_splits dest: give_onLine_buf)

lemma take_all_stop: "take_all ab ls s = (s', True) \<Longrightarrow> ab (length (ss_out s'))"
proof (induction ls arbitrary: s)
  case (Cons l ls)
  obtain s1 st where g: "give ab (onLine l s) = (s1, st)" by fastforce
  have "ab (length (ss_out s1))" if st
    using g that by (auto simp: give_def split: option.splits prod.splits)
  then show ?case using Cons g by (auto split: if_splits)
qed simp

lemma read_piece_lines:
  assumes "ready s" "cut fin (ss_buf s @ piece) = (ls, r)" "take_all ab ls s = (s', stop)"
  shows "\<exists>n x. read_piece ab fin piece s = (s'\<lparr>ss_buf := x, ss_scanFrom := n\<rparr>, stop)
    \<and> (\<not> stop \<longrightarrow> x = r \<and> (\<not> fin \<longrightarrow> ready (s'\<lparr>ss_buf := x, ss_scanFrom := n\<rparr>)))"
proof -
  let ?s1 = "s\<lparr>ss_buf := ss_buf s @ piece\<rparr>"
  have s1: "s\<lparr>ss_buf := ss_buf s @ piece, ss_scanFrom := ss_scanFrom s\<rparr> = ?s1" by simp
  define s2 where "s2 = s'\<lparr>ss_buf := ss_buf s @ piece, ss_scanFrom := ss_scanFrom s\<rparr>"
  have ta: "take_all ab ls ?s1 = (s2, stop)"
    using take_all_frame [where ab = ab and ls = ls and s = s and b = "ss_buf s @ piece" and n = "ss_scanFrom s"] unfolding s1 assms(3) s2_def by simp
  obtain st held where t: "take_lines ab fin 0 (ss_scanFrom s) ?s1 = (st, held, s2, stop)"
    "\<not> stop \<Longrightarrow> drop st (ss_buf s @ piece) = r"
    "\<not> stop \<Longrightarrow> held \<Longrightarrow> r \<noteq> [] \<and> last r = cCR \<and> list_all (\<lambda>c. \<not> eol_char c) (butlast r)"
    "\<not> stop \<Longrightarrow> \<not> held \<Longrightarrow> list_all (\<lambda>c. \<not> eol_char c) r"
    using take_lines_cut [of 0 "ss_scanFrom s" ?s1 fin ls r ab s2 stop] assms(1,2) ta by (auto simp: ready_def)
  have b2: "ss_buf s2 = ss_buf s @ piece" by (simp add: s2_def)
  show ?thesis
  proof (cases stop)
    case True
    then show ?thesis using t(1) by (auto simp: read_piece_def s2_def)
  next
    case False
    let ?n = "if held then length r - 1 else length r"
    have "read_piece ab fin piece s = (s'\<lparr>ss_buf := r, ss_scanFrom := ?n\<rparr>, False)"
      using t(1,2) False b2 by (simp add: read_piece_def s2_def)
    moreover have "list_all (\<lambda>c. \<not> eol_char c) (take ?n r)"
      using t(3,4) False by (simp add: butlast_conv_take)
    ultimately show ?thesis
      using False cut_rest [of "ss_buf s @ piece" ls r] assms(2)
      by (intro exI [of _ ?n] exI [of _ r]) (auto simp: ready_def)
  qed
qed

text \<open>The lines of a whole body: the complete ones, what is left if anything, and an empty one.\<close>

definition body_lines :: "jstring \<Rightarrow> jstring list" where
  "body_lines t = (let (ls, r) = cut True t in ls @ (if r = [] then [] else [r]) @ [[]])"

lemma finish_lines:
  assumes "take_all ab ((if r = [] then [] else [r]) @ [[]]) s = (s', stop)" and s0: "s0 = s\<lparr>ss_buf := r, ss_scanFrom := n\<rparr>"
  shows "finish_sse ab s0 = (ss_out s', if ab (length (ss_out s')) then Aborted else Finished)"
proof -
  define s1 where "s1 = (if r = [] then s else snd (onLine r s))"
  have give_line: "give ab (onLine r s) = (snd (onLine r s), False)" if "r \<noteq> []" for s
    using that by (auto simp: onLine_def give_def Let_def)
  have "take_all ab [[]] s1 = (s', stop)"
    using assms(1) give_line by (auto simp: s1_def take_all_append split: if_splits)
  then have g: "fst (give ab (flush s1)) = s'" by (auto simp: onLine_def split: prod.splits if_splits)
  have fl: "flush (s1\<lparr>ss_buf := r, ss_scanFrom := n\<rparr>) = (let (m, x) = flush s1 in (m, x\<lparr>ss_buf := r, ss_scanFrom := n\<rparr>))"
    using onLine_frame [of "[]"] by (simp add: onLine_def)
  have "fst (if r \<noteq> [] then give ab (onLine r s0) else (s0, False)) = s1\<lparr>ss_buf := r, ss_scanFrom := n\<rparr>"
    using give_line [of s0] by (auto simp: s0 s1_def onLine_frame split: prod.splits)
  then show ?thesis
    using g fl s0 by (auto simp: finish_sse_def give_frame Let_def split: prod.splits)
qed

lemma read_pieces_lines:
  assumes "ready s" "take_all ab (body_lines (ss_buf s @ concat ps @ last_piece)) s = (s', stop)"
  shows "read_pieces ab ps last_piece s = (ss_out s', if stop \<or> ab (length (ss_out s')) then Aborted else Finished)"
  using assms
proof (induction ps arbitrary: s s' stop)
  case Nil
  obtain ls r where c: "cut True (ss_buf s @ last_piece) = (ls, r)" by fastforce
  obtain s1 st where t: "take_all ab ls s = (s1, st)" by fastforce
  obtain n x where p: "read_piece ab True last_piece s = (s1\<lparr>ss_buf := x, ss_scanFrom := n\<rparr>, st)" "\<not> st \<Longrightarrow> x = r"
    using read_piece_lines [OF Nil.prems(1) c t] by blast
  show ?case
  proof (cases st)
    case True
    then show ?thesis using p(1) Nil.prems(2) c t by (simp add: body_lines_def take_all_append)
  next
    case False
    then have "take_all ab ((if r = [] then [] else [r]) @ [[]]) s1 = (s', stop)"
      using Nil.prems(2) c t by (simp add: body_lines_def take_all_append [of ab ls])
    note f = finish_lines [OF this refl, of n]
    have "stop \<Longrightarrow> ab (length (ss_out s'))" using take_all_stop [of ab _ s s'] Nil.prems(2) by auto
    moreover have "read_piece ab True last_piece s = (s1\<lparr>ss_buf := r, ss_scanFrom := n\<rparr>, False)" using p False by simp
    ultimately show ?thesis using f by auto
  qed
next
  case (Cons p ps)
  obtain ls r where c: "cut False (ss_buf s @ p) = (ls, r)" by fastforce
  obtain s1 st where t: "take_all ab ls s = (s1, st)" by fastforce
  obtain n x where p: "read_piece ab False p s = (s1\<lparr>ss_buf := x, ss_scanFrom := n\<rparr>, st)"
    "\<not> st \<Longrightarrow> x = r \<and> ready (s1\<lparr>ss_buf := x, ss_scanFrom := n\<rparr>)"
    using read_piece_lines [OF Cons.prems(1) c t] by blast
  have b: "body_lines (ss_buf s @ concat (p # ps) @ last_piece) = ls @ body_lines (r @ concat ps @ last_piece)"
    using cut_append [OF c, of True "concat ps @ last_piece"] by (auto simp: body_lines_def split: prod.splits)
  note rest = Cons.prems(2) [unfolded b take_all_append t]
  show ?case
  proof (cases st)
    case True
    then show ?thesis using p(1) rest t take_all_stop [of ab ls s s1] by simp
  next
    case False
    let ?s2 = "s1\<lparr>ss_buf := r, ss_scanFrom := n\<rparr>"
    have "take_all ab (body_lines (r @ concat ps @ last_piece)) s1 = (s', stop)"
      using rest False by simp
    then have "take_all ab (body_lines (ss_buf ?s2 @ concat ps @ last_piece)) ?s2 = (s'\<lparr>ss_buf := r, ss_scanFrom := n\<rparr>, stop)"
      by (simp add: take_all_frame)
    moreover have "x = r" "ready ?s2" using p(2) False by auto
    ultimately show ?thesis using Cons.IH [of ?s2] p(1) False by simp
  qed
qed


text \<open>How the body was split into pieces does not matter: it is read line by line.\<close>

definition sse_start :: sse_state where
  "sse_start = \<lparr>ss_buf = [], ss_event = None, ss_data = [], ss_scanFrom = 0, ss_out = []\<rparr>"

lemma parseSSE_lines:
  "parseSSE ab ps last_piece =
     (let (s', stop) = take_all ab (body_lines (concat ps @ last_piece)) sse_start
      in (ss_out s', if stop \<or> ab (length (ss_out s')) then Aborted else Finished))"
proof -
  obtain s' stop where "take_all ab (body_lines (concat ps @ last_piece)) sse_start = (s', stop)" by fastforce
  then show ?thesis
    using read_pieces_lines [of sse_start ab ps last_piece s' stop]
    by (auto simp: parseSSE_def sse_start_def ready_def)
qed

section \<open>What is written is read\<close>

definition sse_lines :: "sse_message \<Rightarrow> jstring list" where
  "sse_lines m =
     (case sm_event m of Some e \<Rightarrow> [js ''event: '' @ e] | None \<Rightarrow> [])
     @ map (\<lambda>l. js ''data: '' @ l) (split_by (\<lambda>c. c = cNL) (sm_data m)) @ [[]]"

definition sse_text :: "jstring \<Rightarrow> sse_message list \<Rightarrow> jstring" where
  "sse_text e ms = concat (map (\<lambda>l. l @ e) (concat (map sse_lines ms)))"

definition sendable :: "sse_message \<Rightarrow> bool" where
  "sendable m \<longleftrightarrow> (case sm_event m of Some e \<Rightarrow> e \<noteq> [] \<and> list_all (\<lambda>c. \<not> eol_char c) e | None \<Rightarrow> True)
     \<and> cCR \<notin> set (sm_data m)"

lemma field_line:
  "onLine (js ''data: '' @ v) s = (None, s\<lparr>ss_data := ss_data s @ [v]\<rparr>)"
  "onLine (js ''event: '' @ v) s = (None, s\<lparr>ss_event := Some v\<rparr>)"
  by (simp_all add: onLine_def js_simps)

lemma take_data: "take_all ab (map (\<lambda>l. js ''data: '' @ l) ls) s = (s\<lparr>ss_data := ss_data s @ ls\<rparr>, False)"
proof (induction ls arbitrary: s)
  case (Cons l ls)
  show ?case using Cons.IH [of "s\<lparr>ss_data := ss_data s @ [l]\<rparr>"] by (simp add: field_line give_def)
qed simp

lemma onLine_empty: "onLine [] s = flush s"
  by (simp add: onLine_def)

lemma take_message:
  assumes "sendable m" "ss_event s = None" "ss_data s = []"
  shows "take_all (\<lambda>_. False) (sse_lines m) s = (s\<lparr>ss_out := ss_out s @ [m]\<rparr>, False)"
proof -
  have m: "m = \<lparr>sm_event = sm_event m, sm_data = sm_data m\<rparr>" by simp
  have "take_all (\<lambda>_. False) (case sm_event m of Some e \<Rightarrow> [js ''event: '' @ e] | None \<Rightarrow> []) s = (s\<lparr>ss_event := sm_event m\<rparr>, False)"
    using assms(2) by (cases s; cases "sm_event m") (auto simp: field_line give_def)
  then show ?thesis
    using assms m
    by (cases s; cases m; cases "sm_event m")
      (auto simp: sse_lines_def take_all_append take_data field_line onLine_empty flush_def give_def sendable_def join_split_by [OF refl])
qed

lemma take_messages:
  assumes "list_all sendable ms" "ss_event s = None" "ss_data s = []"
  shows "take_all (\<lambda>_. False) (concat (map sse_lines ms)) s = (s\<lparr>ss_out := ss_out s @ ms\<rparr>, False)"
  using assms
proof (induction ms arbitrary: s)
  case (Cons m ms)
  then show ?case using Cons.IH [of "s\<lparr>ss_out := ss_out s @ [m]\<rparr>"] by (simp add: take_all_append take_message)
qed simp

lemma cut_lines:
  assumes "e = [cCR, cNL] \<or> e = [cCR] \<or> e = [cNL]" "list_all (list_all (\<lambda>c. \<not> eol_char c)) ls"
  shows "cut True (concat (map (\<lambda>l. l @ e) ls)) = (ls, [])"
  using assms(2)
proof (induction ls)
  case (Cons l ls)
  let ?t = "concat (map (\<lambda>l. l @ e) ls)"
  have "?t = [] \<or> hd ?t \<noteq> cNL \<or> e = [cNL]"
  proof (cases ls)
    case (Cons k ks)
    then show ?thesis using Cons.prems assms(1) by (cases k) (auto simp: eol_char_def)
  qed simp
  then have "eol_before e ?t" using assms(1) by (auto simp: eol_before_def)
  then show ?case
    using Cons cut_plain [of l True "e @ ?t"] cut_eol [of e ?t True] by simp
qed simp

lemma split_plain: "w \<in> set (split_by (\<lambda>c. c = cNL) s) \<Longrightarrow> cCR \<notin> set s \<Longrightarrow> list_all (\<lambda>c. \<not> eol_char c) w"
proof (induction s arbitrary: w)
  case (Cons c s)
  then show ?case by (cases "split_by (\<lambda>c. c = cNL) s") (auto simp: eol_char_def split: if_splits)
qed simp

lemma sse_lines_plain: "sendable m \<Longrightarrow> list_all (list_all (\<lambda>c. \<not> eol_char c)) (sse_lines m)"
  using split_plain [of _ "sm_data m"]
  by (auto simp: sse_lines_def sendable_def list_all_iff js_simps eol_char_def split: option.splits)

text \<open>
  C16. What a server writes is what is read, however it is split on the way: messages with their events
  and data of several lines, with any one of the three line endings, cut into pieces anywhere, also
  between CR and LF, are read back exactly.
\<close>

theorem sse_roundtrip:
  assumes "concat pieces @ last_piece = sse_text e ms" "e = [cCR, cNL] \<or> e = [cCR] \<or> e = [cNL]" "list_all sendable ms"
  shows "parseSSE (\<lambda>_. False) pieces last_piece = (ms, Finished)"
proof -
  have "list_all (list_all (\<lambda>c. \<not> eol_char c)) (concat (map sse_lines ms))"
    using assms(3) sse_lines_plain by (auto simp: list_all_iff)
  then have "body_lines (concat pieces @ last_piece) = concat (map sse_lines ms) @ [[]]"
    using cut_lines [OF assms(2)] by (simp add: body_lines_def assms(1) sse_text_def)
  then show ?thesis
    using take_messages [OF assms(3), of sse_start]
    by (simp add: parseSSE_lines sse_start_def take_all_append onLine_def flush_def give_def)
qed

lemma sse_roundtrip_witness:
  "parseSSE (\<lambda>_. False) [js ''event: a'' @ [cCR], [cNL] @ js ''da'', js ''ta: x'' @ [cCR, cNL] @ js ''data: y'' @ [cCR]] [cNL, cCR, cNL]
    = ([\<lparr>sm_event = Some (js ''a''), sm_data = js ''x'' @ [cNL] @ js ''y''\<rparr>], Finished)"
  by (rule sse_roundtrip [where e = "[cCR, cNL]"]) (code_simp, simp, code_simp)

text \<open>The messages up to the first after which the signal is aborted, and whether there is one.\<close>

fun until_abort :: "(nat \<Rightarrow> bool) \<Rightarrow> nat \<Rightarrow> sse_message list \<Rightarrow> sse_message list \<times> bool" where
  "until_abort ab n [] = ([], False)"
| "until_abort ab n (m # ms) =
     (if ab (n + 1) then ([m], True) else let (ns, stop) = until_abort ab (n + 1) ms in (m # ns, stop))"

lemma take_all_until:
  "take_all (\<lambda>_. False) ls s = (s1, st1) \<Longrightarrow>
     \<exists>ms s2. ss_out s1 = ss_out s @ ms \<and> \<not> st1 \<and> take_all ab ls s = (s2, snd (until_abort ab (length (ss_out s)) ms))
       \<and> ss_out s2 = ss_out s @ fst (until_abort ab (length (ss_out s)) ms)"
proof (induction ls arbitrary: s)
  case (Cons l ls)
  obtain m s0 where o: "onLine l s = (m, s0)" by fastforce
  have out: "ss_out s0 = ss_out s" using o by (auto simp: onLine_def flush_def Let_def split: if_splits)
  show ?case
  proof (cases m)
    case None
    then show ?thesis using Cons.prems Cons.IH [of s0] o out by (simp add: give_def)
  next
    case (Some x)
    let ?s = "s0\<lparr>ss_out := ss_out s0 @ [x]\<rparr>"
    have "take_all (\<lambda>_. False) ls ?s = (s1, st1)" using Cons.prems o Some by (simp add: give_def)
    from Cons.IH [OF this] obtain ms s2 where ms: "ss_out s1 = ss_out s @ x # ms" "\<not> st1"
      "take_all ab ls ?s = (s2, snd (until_abort ab (Suc (length (ss_out s))) ms))"
      "ss_out s2 = ss_out s @ x # fst (until_abort ab (Suc (length (ss_out s))) ms)" by (auto simp: out)
    show ?thesis
    proof (cases "ab (Suc (length (ss_out s)))")
      case True
      then show ?thesis using o Some out ms(1,2) by (intro exI [of _ "x # ms"]) (simp add: give_def)
    next
      case False
      then show ?thesis using o Some out ms
        by (intro exI [of _ "x # ms"] exI [of _ s2]) (simp add: give_def split: prod.splits)
    qed
  qed
qed simp

lemma until_abort_quiet:
  "until_abort ab n ms = (ns, False) \<Longrightarrow> ns = ms \<and> (ms \<noteq> [] \<longrightarrow> \<not> ab (n + length ms))"
proof (induction ms arbitrary: n ns)
  case (Cons m ms)
  then show ?case by (cases "ms = []") (fastforce split: if_splits prod.splits)+
qed simp

text \<open>
  C25. Nothing follows the message during which the consumer aborted, even if it was read already: the
  messages given are those of the body up to that one, and the stream ends with the abort; a signal
  never aborted changes nothing.
\<close>

theorem sse_abort_stops:
  "parseSSE ab pieces last_piece =
     (case until_abort ab 0 (fst (parseSSE (\<lambda>_. False) pieces last_piece)) of
        (ms, True) \<Rightarrow> (ms, Aborted)
      | (ms, False) \<Rightarrow> (ms, if ms = [] \<and> ab 0 then Aborted else Finished))"
proof -
  obtain s1 st1 where s1: "take_all (\<lambda>_. False) (body_lines (concat pieces @ last_piece)) sse_start = (s1, st1)" by fastforce
  obtain ns st where u: "until_abort ab 0 (ss_out s1) = (ns, st)" by fastforce
  from take_all_until [OF s1, of ab] u obtain s2 where s2:
    "take_all ab (body_lines (concat pieces @ last_piece)) sse_start = (s2, st)" "ss_out s2 = ns" "\<not> st1"
    by (auto simp: sse_start_def)
  show ?thesis
    using until_abort_quiet [of ab 0 "ss_out s1" ns] u s1 s2 by (cases st; cases ns) (auto simp: parseSSE_lines)
qed

end
