(* ===== verification/Masks.thy ===== *)
theory Masks
  imports Json "HOL-Library.Sublist"
begin

text \<open>
  Masking of secrets in what a model sends to a remote client
  (\<open>packages/cli/src/remote/model-string-masks.ts\<close>, \<open>secret-patterns.ts\<close>). The loop of the code runs until no
  secret is left, so it is a partial function: not returning is \<open>None\<close>.
\<close>

section \<open>The code\<close>

datatype mask_error = UnsafeSuffix | KeyCollision

text \<open>The secrets as they are compared: none empty, each once, longer ones first.\<close>

fun without_repeats :: "jstring list \<Rightarrow> jstring list" where
  "without_repeats [] = []"
| "without_repeats (s # ss) = s # filter (\<lambda>t. t \<noteq> s) (without_repeats ss)"

definition pattern_values :: "jstring list \<Rightarrow> jstring list" where
  "pattern_values secrets = sort_key (\<lambda>s. - int (length s)) (without_repeats (filter (\<lambda>s. s \<noteq> []) secrets))"

fun has_part :: "jstring \<Rightarrow> jstring \<Rightarrow> bool" where
  "has_part s [] = (s = [])"
| "has_part s (c # t) = (take (length s) (c # t) = s \<or> has_part s t)"

definition contains_secret :: "jstring list \<Rightarrow> jstring \<Rightarrow> bool" where
  "contains_secret secrets t = list_ex (\<lambda>s. has_part s t) (pattern_values secrets)"

definition marker :: jstring where
  "marker = js ''[redacted]''"

text \<open>Where a secret starts in a text, overlapping occurrences included.\<close>

definition occurrences :: "jstring \<Rightarrow> jstring \<Rightarrow> nat list" where
  "occurrences s t = filter (\<lambda>i. take (length s) (drop i t) = s) [0..<length t]"

definition found_spans :: "jstring list \<Rightarrow> jstring \<Rightarrow> (nat \<times> nat) list" where
  "found_spans secrets t = concat (map (\<lambda>s. if s = [] then [] else map (\<lambda>i. (i, i + length s)) (occurrences s t)) secrets)"

text \<open>By start, longer ones first.\<close>

definition sort_spans :: "(nat \<times> nat) list \<Rightarrow> (nat \<times> nat) list" where
  "sort_spans spans = sort_key fst (sort_key (\<lambda>(a, b). - int b) spans)"

fun merge_spans :: "(nat \<times> nat) \<Rightarrow> (nat \<times> nat) list \<Rightarrow> (nat \<times> nat) list" where
  "merge_spans p [] = [p]"
| "merge_spans (a, b) ((c, d) # sp) =
     (if c < b then merge_spans (a, max b d) sp else (a, b) # merge_spans (c, d) sp)"

definition slice :: "jstring \<Rightarrow> nat \<Rightarrow> nat \<Rightarrow> jstring" where
  "slice t i j = take (j - i) (drop i t)"

text \<open>A part from its start to its end, of which the text before the cursor is done.\<close>

fun mask_part :: "jstring \<Rightarrow> jstring \<Rightarrow> nat \<Rightarrow> nat \<Rightarrow> nat \<Rightarrow> (nat \<times> nat) list \<Rightarrow> jstring" where
  "mask_part t m start stop cursor [] = slice t cursor stop"
| "mask_part t m start stop cursor ((a, b) # sp) =
     (if b \<le> start \<or> stop \<le> a then mask_part t m start stop cursor sp
      else slice t cursor (max cursor a) @ (if start \<le> a then m else []) @ mask_part t m start stop (min stop b) sp)"

fun mask_parts :: "jstring \<Rightarrow> jstring \<Rightarrow> nat \<Rightarrow> (nat \<times> nat) list \<Rightarrow> nat \<Rightarrow> jstring list \<Rightarrow> jstring list" where
  "mask_parts t m committed sp start [] = []"
| "mask_parts t m committed sp start (p # ps) =
     (let stop = start + length p
      in (if stop \<le> committed then p else mask_part t m start stop start sp) # mask_parts t m committed sp stop ps)"

definition mask_round :: "jstring list \<Rightarrow> nat \<Rightarrow> jstring list \<Rightarrow> mask_error + jstring list option" where
  "mask_round secrets committed parts =
     (let t = concat parts
      in if t = [] \<or> secrets = [] \<or> \<not> contains_secret secrets t then Inr None
         else
           let spans = found_spans secrets t
           in if list_ex (\<lambda>(a, b). b \<le> committed) spans then Inl UnsafeSuffix
              else case sort_spans (map (\<lambda>(a, b). (max a committed, b)) spans) of
                     [] \<Rightarrow> Inr None
                   | p # sp \<Rightarrow>
                       let m = (if list_ex (\<lambda>s. has_part s marker) secrets then [] else marker)
                       in Inr (Some (mask_parts t m committed (merge_spans p sp) 0 parts)))"

partial_function (option) maskModelFragments ::
  "jstring list \<Rightarrow> nat \<Rightarrow> jstring list \<Rightarrow> (mask_error + jstring list) option" where
  "maskModelFragments secrets committed parts =
     (case mask_round secrets committed parts of
        Inl e \<Rightarrow> Some (Inl e)
      | Inr None \<Rightarrow> Some (Inr parts)
      | Inr (Some ps) \<Rightarrow> maskModelFragments secrets committed ps)"

declare maskModelFragments.simps [code]

text \<open>
  A whole value: every string, and the names of its fields, of which no two may come out the same. Usage
  numbers keep their place in the private accounting of the host, which is not part of the value.
\<close>

definition mask_string :: "jstring list \<Rightarrow> jstring \<Rightarrow> (mask_error + jstring) option" where
  "mask_string secrets t =
     (case maskModelFragments secrets 0 [t] of
        None \<Rightarrow> None
      | Some (Inl e) \<Rightarrow> Some (Inl e)
      | Some (Inr qs) \<Rightarrow> Some (Inr (hd qs)))"

fun redact_visit :: "jstring list \<Rightarrow> json \<Rightarrow> (mask_error + json) option"
  and redact_items :: "jstring list \<Rightarrow> json list \<Rightarrow> (mask_error + json list) option"
  and redact_fields :: "jstring list \<Rightarrow> jstring list \<Rightarrow> (jstring \<times> json) list \<Rightarrow> (mask_error + (jstring \<times> json) list) option"
where
  "redact_visit ss (JStr t) =
     (case mask_string ss t of None \<Rightarrow> None | Some (Inl e) \<Rightarrow> Some (Inl e) | Some (Inr q) \<Rightarrow> Some (Inr (JStr q)))"
| "redact_visit ss (JArr vs) =
     (case redact_items ss vs of None \<Rightarrow> None | Some (Inl e) \<Rightarrow> Some (Inl e) | Some (Inr ws) \<Rightarrow> Some (Inr (JArr ws)))"
| "redact_visit ss (JObj kvs) =
     (case redact_fields ss [] kvs of None \<Rightarrow> None | Some (Inl e) \<Rightarrow> Some (Inl e) | Some (Inr ws) \<Rightarrow> Some (Inr (JObj ws)))"
| "redact_visit ss v = Some (Inr v)"
| "redact_items ss [] = Some (Inr [])"
| "redact_items ss (v # vs) =
     (case redact_visit ss v of
        None \<Rightarrow> None
      | Some (Inl e) \<Rightarrow> Some (Inl e)
      | Some (Inr w) \<Rightarrow>
          (case redact_items ss vs of None \<Rightarrow> None | Some (Inl e) \<Rightarrow> Some (Inl e) | Some (Inr ws) \<Rightarrow> Some (Inr (w # ws))))"
| "redact_fields ss taken [] = Some (Inr [])"
| "redact_fields ss taken ((k, v) # kvs) =
     (case mask_string ss k of
        None \<Rightarrow> None
      | Some (Inl e) \<Rightarrow> Some (Inl e)
      | Some (Inr name) \<Rightarrow>
          if name \<in> set taken then Some (Inl KeyCollision)
          else
            (case redact_visit ss v of
               None \<Rightarrow> None
             | Some (Inl e) \<Rightarrow> Some (Inl e)
             | Some (Inr w) \<Rightarrow>
                 (case redact_fields ss (taken @ [name]) kvs of
                    None \<Rightarrow> None
                  | Some (Inl e) \<Rightarrow> Some (Inl e)
                  | Some (Inr ws) \<Rightarrow> Some (Inr ((name, w) # ws)))))"

definition redactModelValue :: "jstring list \<Rightarrow> json \<Rightarrow> (mask_error + json) option" where
  "redactModelValue secrets v = redact_visit (pattern_values secrets) v"

section \<open>One round\<close>

text \<open>Spans in order, none empty and none overlapping, from a position on.\<close>

fun ordered :: "nat \<Rightarrow> (nat \<times> nat) list \<Rightarrow> bool" where
  "ordered p [] = True"
| "ordered p ((a, b) # sp) = (p \<le> a \<and> a < b \<and> ordered b sp)"

definition covered :: "(nat \<times> nat) list \<Rightarrow> nat \<Rightarrow> bool" where
  "covered sp i \<longleftrightarrow> (\<exists>(a, b) \<in> set sp. a \<le> i \<and> i < b)"

lemma covered_simps [simp]: "\<not> covered [] i" "covered ((a, b) # sp) i \<longleftrightarrow> (a \<le> i \<and> i < b) \<or> covered sp i"
  by (auto simp: covered_def)

lemma ordered_mono: "ordered p sp \<Longrightarrow> q \<le> p \<Longrightarrow> ordered q sp"
  by (cases sp) auto

lemma ordered_ge: "ordered p sp \<Longrightarrow> (a, b) \<in> set sp \<Longrightarrow> p \<le> a \<and> a < b"
  by (induction p sp rule: ordered.induct) fastforce+

text \<open>What a position gives: the marker where a span starts, and the character outside of spans.\<close>

definition mask_at :: "jstring \<Rightarrow> jstring \<Rightarrow> (nat \<times> nat) list \<Rightarrow> nat \<Rightarrow> jstring" where
  "mask_at t m sp i = (if i \<in> fst ` set sp then m else []) @ (if covered sp i then [] else [t ! i])"

lemma slice_mask_at:
  assumes "j \<le> length t" "\<And>k. i \<le> k \<Longrightarrow> k < j \<Longrightarrow> k \<notin> fst ` set sp \<and> \<not> covered sp k"
  shows "concat (map (mask_at t m sp) [i..<j]) = slice t i j"
proof -
  have "concat (map (mask_at t m sp) [i..<j]) = concat (map (\<lambda>k. [t ! k]) [i..<j])"
    using assms(2) by (intro arg_cong [of _ _ concat] map_cong) (auto simp: mask_at_def)
  also have "\<dots> = map ((!) t) [i..<j]" by (induction "[i..<j]" arbitrary: i) (auto simp: upt_eq_Cons_conv)
  also have "\<dots> = slice t i j"
  proof (cases "i \<le> j")
    case True
    then show ?thesis using assms(1) by (simp add: slice_def list_eq_iff_nth_eq)
  qed (simp add: slice_def)
  finally show ?thesis .
qed


lemma mask_part_beyond:
  assumes "\<And>a b. (a, b) \<in> set sp \<Longrightarrow> stop \<le> a"
  shows "mask_part t m start stop cursor sp = slice t cursor stop"
  using assms
proof (induction sp arbitrary: cursor)
  case (Cons ab sp)
  obtain a b where ab: "ab = (a, b)" by fastforce
  then have "stop \<le> a" "\<And>c d. (c, d) \<in> set sp \<Longrightarrow> stop \<le> c" using Cons.prems by auto
  then show ?case using Cons.IH ab by simp
qed simp

lemma mask_at_skip: "i < a \<or> b \<le> i \<Longrightarrow> a < b \<Longrightarrow> mask_at t m ((a, b) # sp) i = mask_at t m sp i"
  by (auto simp: mask_at_def)

lemma upt_split: "i \<le> j \<Longrightarrow> j \<le> k \<Longrightarrow> [i..<k] = [i..<j] @ [j..<k]"
  by (metis le_add_diff_inverse upt_add_eq_append)

lemma mask_part_at:
  assumes "ordered p sp" "start \<le> stop" "stop \<le> length t" "cursor = max start (min stop p)"
  shows "mask_part t m start stop cursor sp = concat (map (mask_at t m sp) [cursor..<stop])"
  using assms
proof (induction sp arbitrary: p cursor)
  case Nil
  then show ?case by (simp add: slice_mask_at)
next
  case (Cons ab sp)
  obtain a b where ab: "ab = (a, b)" by fastforce
  have o: "p \<le> a" "a < b" "ordered b sp" using Cons.prems(1) ab by auto
  have after: "b \<le> c \<and> c < d" if "(c, d) \<in> set sp" for c d using ordered_ge [OF o(3) that] .
  have mask_at_after: "map (mask_at t m ((a, b) # sp)) [j..<stop] = map (mask_at t m sp) [j..<stop]" if "b \<le> j \<or> stop \<le> a" for j
    using that o(2) by (intro map_cong refl mask_at_skip) auto
  consider "stop \<le> a" | "b \<le> start" | "a < stop" "start < b" by linarith
  then show ?case
  proof cases
    case 1
    then have "mask_part t m start stop cursor (ab # sp) = slice t cursor stop"
      using after o(2) by (intro mask_part_beyond) (force simp: ab)
    moreover have "concat (map (mask_at t m (ab # sp)) [cursor..<stop]) = slice t cursor stop"
      using 1 after o(2) Cons.prems(3) by (intro slice_mask_at) (force simp: ab covered_def)+
    ultimately show ?thesis by simp
  next
    case 2
    then have "cursor = start" using o Cons.prems(2,4) by auto
    then show ?thesis
      using Cons.IH [OF o(3) Cons.prems(2,3), of cursor] 2 Cons.prems(2) by (simp add: ab mask_at_after del: map_eq_conv)
  next
    case 3
    let ?e = "mask_at t m ((a, b) # sp)" and ?b = "min stop b"
    have c: "cursor = max start p" "cursor \<le> stop" "max cursor a \<le> ?b"
      using 3 o Cons.prems(2,4) by auto
    have un: "k \<notin> fst ` set ((a, b) # sp) \<and> \<not> covered ((a, b) # sp) k" if "k < a" for k
      using that after o(2) by (force simp: covered_def)
    have 1: "concat (map ?e [cursor..<max cursor a]) = slice t cursor (max cursor a)"
    proof (rule slice_mask_at)
      fix k assume "cursor \<le> k" "k < max cursor a"
      then have "k < a" by linarith
      then show "k \<notin> fst ` set ((a, b) # sp) \<and> \<not> covered ((a, b) # sp) k" by (rule un)
    qed (use c Cons.prems(3) in linarith)
    have 2: "concat (map ?e [max cursor a..<?b]) = (if start \<le> a then m else [])"
    proof -
      have rest: "?e k = []" if "a < k" "k < ?b" for k
        using that after by (force simp: mask_at_def covered_def)
      show ?thesis
      proof (cases "start \<le> a")
        case True
        then have m: "max cursor a = a" using c(1) o(1) by simp
        have "?e a = m" using o(2) by (simp add: mask_at_def)
        moreover have "concat (map ?e [Suc a..<?b]) = []" using rest by (auto simp: concat_eq_Nil_conv)
        ultimately show ?thesis using True m o(2) 3(1) by (simp add: upt_conv_Cons)
      next
        case False
        then show ?thesis using rest c(1) o(1) by (auto simp: concat_eq_Nil_conv)
      qed
    qed
    have 3: "mask_part t m start stop ?b sp = concat (map ?e [?b..<stop])"
      using Cons.IH [OF o(3) Cons.prems(2,3), of ?b] 3 mask_at_after [of ?b]
        Cons.prems(2) by (cases "stop \<le> b") (simp_all add: min_def max_def del: map_eq_conv)
    have "[cursor..<stop] = [cursor..<max cursor a] @ [max cursor a..<?b] @ [?b..<stop]"
      using upt_split [of cursor "max cursor a" stop] upt_split [of "max cursor a" ?b stop] c by simp
    then show ?thesis using 1 2 3 \<open>a < stop\<close> \<open>start < b\<close> by (simp add: ab)
  qed
qed


text \<open>The parts after a round, joined, are the whole text masked.\<close>

lemma mask_parts_join:
  assumes "ordered committed sp" "start + length (concat parts) = length t" "drop start t = concat parts"
  shows "concat (mask_parts t m committed sp start parts) = concat (map (mask_at t m sp) [start..<length t])"
  using assms(2,3)
proof (induction parts arbitrary: start)
  case (Cons p ps)
  let ?stop = "start + length p"
  have le: "?stop \<le> length t" using Cons.prems(1) by simp
  have "(if ?stop \<le> committed then p else mask_part t m start ?stop start sp) = concat (map (mask_at t m sp) [start..<?stop])"
  proof (cases "?stop \<le> committed")
    case True
    have "p = slice t start ?stop" using Cons.prems(2) by (simp add: slice_def)
    moreover have "concat (map (mask_at t m sp) [start..<?stop]) = slice t start ?stop"
      using le True ordered_ge [OF assms(1)] by (intro slice_mask_at) (force simp: covered_def)+
    ultimately show ?thesis using True by simp
  next
    case False
    then show ?thesis using mask_part_at [OF ordered_mono [OF assms(1), of 0], of start ?stop t start m] le by simp
  qed
  moreover have "drop ?stop t = concat ps" using Cons.prems(2) by (metis add.commute append_eq_conv_conj concat.simps(2) drop_drop)
  ultimately show ?case
    using Cons.IH [of ?stop] Cons.prems(1) le by (simp add: Let_def upt_split [of start ?stop "length t"])
qed simp

lemma mask_parts_length: "length (mask_parts t m c sp start parts) = length parts"
  by (induction parts arbitrary: start) (simp_all add: Let_def)

definition masked :: "jstring \<Rightarrow> jstring \<Rightarrow> (nat \<times> nat) list \<Rightarrow> jstring" where
  "masked t m sp = mask_part t m 0 (length t) 0 sp"

lemma masked_join:
  assumes "ordered committed sp"
  shows "concat (mask_parts (concat parts) m committed sp 0 parts) = masked (concat parts) m sp"
  using mask_parts_join [OF assms, of 0 parts "concat parts" m] mask_part_at [OF ordered_mono [OF assms, of 0], of 0 "length (concat parts)" "concat parts" 0 m]
  by (simp add: masked_def)

lemma length_mask_at: "length (concat (map (mask_at t [] sp) ks)) = length (filter (\<lambda>k. \<not> covered sp k) ks)"
  by (induction ks) (auto simp: mask_at_def)

text \<open>Without a marker a round only takes characters away.\<close>

lemma masked_shorter:
  assumes "ordered p sp" "covered sp i" "i < length t"
  shows "length (masked t [] sp) < length t"
proof -
  have "masked t [] sp = concat (map (mask_at t [] sp) [0..<length t])"
    using mask_part_at [OF ordered_mono [OF assms(1), of 0], of 0 "length t" t 0] by (simp add: masked_def)
  also have "length \<dots> = length (filter (\<lambda>k. \<not> covered sp k) [0..<length t])"
    by (rule length_mask_at)
  also have "\<dots> < length [0..<length t]"
    using assms(2,3) by (intro length_filter_less [of i]) auto
  finally show ?thesis by simp
qed

section \<open>Merged spans\<close>

lemma merge_ordered:
  "a < b \<Longrightarrow> sorted (map fst ((a, b) # sp)) \<Longrightarrow> (\<And>c d. (c, d) \<in> set sp \<Longrightarrow> c < d) \<Longrightarrow> p \<le> a \<Longrightarrow> ordered p (merge_spans (a, b) sp)"
proof (induction "(a, b)" sp arbitrary: a b p rule: merge_spans.induct)
  case (2 a b c d sp)
  then show ?case by (cases "c < b") (auto simp: less_max_iff_disj)
qed simp

lemma merge_covered:
  "a < b \<Longrightarrow> sorted (map fst ((a, b) # sp)) \<Longrightarrow> (\<And>c d. (c, d) \<in> set sp \<Longrightarrow> c < d) \<Longrightarrow>
     covered (merge_spans (a, b) sp) i \<longleftrightarrow> covered ((a, b) # sp) i"
proof (induction "(a, b)" sp arbitrary: a b rule: merge_spans.induct)
  case (2 a b c d sp)
  show ?case
  proof (cases "c < b")
    case True
    then show ?thesis using 2 by (auto simp: less_max_iff_disj)
  next
    case False
    then have "covered (merge_spans (c, d) sp) i \<longleftrightarrow> covered ((c, d) # sp) i" using 2 by simp
    then show ?thesis using False by simp
  qed
qed simp

lemma sort_spans_sorted: "sorted (map fst (sort_spans sp))" "set (sort_spans sp) = set sp"
  by (simp_all add: sort_spans_def)

lemma covered_set: "set sp = set sq \<Longrightarrow> covered sp i = covered sq i"
  by (simp add: covered_def)

text \<open>The spans of a round: every found secret beyond the published text, in order.\<close>

lemma occurrences_iff: "s \<noteq> [] \<Longrightarrow> i \<in> set (occurrences s t) \<longleftrightarrow> take (length s) (drop i t) = s"
  by (cases "i < length t") (auto simp: occurrences_def)

lemma occurrence_end: "s \<noteq> [] \<Longrightarrow> take (length s) (drop i t) = s \<Longrightarrow> i + length s \<le> length t"
  by (metis length_drop length_take add.commute le_diff_conv2 min.cobounded1 nat_le_linear drop_all length_0_conv take_Nil)

lemma found_spans_iff:
  "(i, j) \<in> set (found_spans secrets t) \<longleftrightarrow>
     (\<exists>s \<in> set secrets. s \<noteq> [] \<and> take (length s) (drop i t) = s \<and> j = i + length s)"
  by (fastforce simp: found_spans_def occurrences_iff)

lemma has_part_iff: "s \<noteq> [] \<Longrightarrow> has_part s t \<longleftrightarrow> (\<exists>i. take (length s) (drop i t) = s)"
proof (induction t)
  case (Cons c t)
  have "(\<exists>i. take (length s) (drop i (c # t)) = s) \<longleftrightarrow> take (length s) (c # t) = s \<or> (\<exists>i. take (length s) (drop i t) = s)"
    by (metis drop0 drop_Cons' drop_Suc_Cons not0_implies_Suc)
  then show ?case using Cons by simp
qed simp

lemma set_pattern_values: "set (pattern_values secrets) = set secrets - {[]}"
proof -
  have "set (without_repeats ss) = set ss" for ss by (induction ss) auto
  then show ?thesis by (auto simp: pattern_values_def)
qed

lemma contains_iff:
  "contains_secret secrets t \<longleftrightarrow> (\<exists>i j. (i, j) \<in> set (found_spans secrets t))"
  by (auto simp: contains_secret_def list_ex_iff set_pattern_values found_spans_iff has_part_iff)

lemma contains_part: "contains_secret secrets t \<longleftrightarrow> (\<exists>s \<in> set secrets. s \<noteq> [] \<and> has_part s t)"
  by (auto simp: contains_secret_def list_ex_iff set_pattern_values)


section \<open>The loop\<close>

definition marker_for :: "jstring list \<Rightarrow> jstring" where
  "marker_for secrets = (if list_ex (\<lambda>s. has_part s marker) secrets then [] else marker)"

lemma round_masks:
  assumes "mask_round secrets c parts = Inr (Some ps)"
  shows "\<exists>sp. ordered c sp \<and> concat ps = masked (concat parts) (marker_for secrets) sp \<and> length ps = length parts
    \<and> found_spans secrets (concat parts) \<noteq> []
    \<and> (\<forall>(a, b) \<in> set (found_spans secrets (concat parts)). c < b \<and> (\<forall>i. max a c \<le> i \<and> i < b \<longrightarrow> covered sp i))"
proof -
  let ?t = "concat parts" and ?found = "found_spans secrets (concat parts)"
  let ?cl = "map (\<lambda>(a, b). (max a c, b)) ?found"
  have late: "\<not> list_ex (\<lambda>(a, b). b \<le> c) ?found"
    using assms by (auto simp: mask_round_def Let_def split: if_splits)
  then have late': "c < b" if "(a, b) \<in> set ?found" for a b using that by (fastforce simp: list_ex_iff)
  obtain p sp where ps: "sort_spans ?cl = p # sp"
    "ps = mask_parts ?t (marker_for secrets) c (merge_spans p sp) 0 parts"
    using assms late by (auto simp: mask_round_def Let_def marker_for_def split: if_splits list.splits)
  obtain a b where p: "p = (a, b)" by fastforce
  have nonempty: "d < e \<and> c \<le> d" if "(d, e) \<in> set (p # sp)" for d e
  proof -
    have "(d, e) \<in> set ?cl" using that unfolding ps(1) [symmetric] sort_spans_sorted(2) .
    then obtain i where i: "(i, e) \<in> set ?found" "d = max i c" by auto
    moreover have "i < e" using i(1) by (auto simp: found_spans_iff)
    ultimately show ?thesis using late' by auto
  qed
  have sorted: "sorted (map fst (p # sp))" using sort_spans_sorted(1) [of ?cl] ps(1) by simp
  have ord: "ordered c (merge_spans p sp)" unfolding p
    using sorted nonempty unfolding p by (intro merge_ordered) (simp_all, blast)
  have cov: "covered (merge_spans p sp) i \<longleftrightarrow> covered ?cl i" for i
    using merge_covered [of a b sp i] sorted nonempty covered_set [of "p # sp" ?cl i] sort_spans_sorted(2) [of ?cl] ps(1)
    unfolding p by (metis list.set_intros(1,2))
  show ?thesis
  proof (intro exI conjI)
    show "concat ps = masked ?t (marker_for secrets) (merge_spans p sp)" unfolding ps(2) by (rule masked_join [OF ord])
    show "?found \<noteq> []" using ps(1) by (auto simp: sort_spans_def)
    show "\<forall>(a, b) \<in> set ?found. c < b \<and> (\<forall>i. max a c \<le> i \<and> i < b \<longrightarrow> covered (merge_spans p sp) i)"
    proof (intro ballI, clarify, intro conjI allI impI)
      fix a b i assume ab: "(a, b) \<in> set ?found"
      then show "c < b" by (rule late')
      assume i: "max a c \<le> i \<and> i < b"
      have cl: "(max a c, b) \<in> set ?cl" using ab by force
      have "covered ?cl i" unfolding covered_def by (rule bexI [OF _ cl]) (use i in simp)
      then show "covered (merge_spans p sp) i" by (simp only: cov)
    qed
    show "ordered c (merge_spans p sp)" by (rule ord)
    show "length ps = length parts" unfolding ps(2) by (rule mask_parts_length)
  qed
qed

lemma within_sublist: "has_part s t \<longleftrightarrow> sublist s t"
proof (induction t)
  case (Cons c t)
  have "take (length s) (c # t) = s \<longleftrightarrow> prefix s (c # t)" by (metis append_eq_conv_conj prefix_def take_is_prefix)
  then show ?case using Cons by (simp add: sublist_Cons_right)
qed simp

lemma sublist_apart: "sublist s (x @ c # y) \<Longrightarrow> c \<notin> set s \<Longrightarrow> sublist s x \<or> sublist s y"
  by (auto simp: sublist_append sublist_Cons_right prefix_Cons)

definition bracket_free :: "jstring \<Rightarrow> bool" where
  "bracket_free s \<longleftrightarrow> 91 \<notin> set s \<and> 93 \<notin> set s"

lemma marker_text: "marker = 91 # js ''redacted'' @ [93]"
  by code_simp

lemma sublist_marker:
  assumes "bracket_free s" "\<not> has_part s marker" "sublist s (x @ marker @ y)"
  shows "sublist s x \<or> sublist s y"
proof -
  have "sublist s x \<or> sublist s ((js ''redacted'') @ 93 # y)"
    using assms(1,3) sublist_apart [of s x 91] by (simp add: marker_text bracket_free_def)
  moreover have "sublist s (js ''redacted'' @ 93 # y) \<Longrightarrow> sublist s (js ''redacted'') \<or> sublist s y"
    using assms(1) sublist_apart [of s "js ''redacted''" 93 y] by (simp add: bracket_free_def)
  moreover have "sublist (js ''redacted'') marker"
    unfolding marker_text by (metis append_Cons append_Nil sublist_appendI)
  ultimately show ?thesis using assms(2) sublist_order.order_trans by (auto simp: within_sublist)
qed

lemma sublist_slice:
  assumes "s \<noteq> []" "sublist s (slice t p q)" "q \<le> length t"
  shows "\<exists>i. p \<le> i \<and> i + length s \<le> q \<and> take (length s) (drop i t) = s"
proof -
  obtain u v where uv: "slice t p q = u @ s @ v" using assms(2) by (auto simp: sublist_def)
  have "length (slice t p q) = q - p" using assms(3) by (simp add: slice_def)
  then have len: "length u + length s \<le> q - p" by (simp add: uv)
  obtain w where "drop p t = slice t p q @ w" unfolding slice_def by (metis append_take_drop_id)
  then have "drop p t = u @ s @ v @ w" by (simp add: uv)
  then have "drop (length u) (drop p t) = s @ v @ w" by simp
  then have "drop (p + length u) t = s @ v @ w" by (simp add: add.commute)
  then show ?thesis using len assms(1) by (intro exI [of _ "p + length u"]) (cases s, auto)
qed

text \<open>A secret left in a masked text was in the text, outside of all spans.\<close>

lemma masked_leaves:
  assumes "ordered p sp" "p \<le> length t" "bracket_free s" "\<not> has_part s marker" "s \<noteq> []"
    "sublist s (mask_part t marker 0 (length t) p sp)"
  shows "\<exists>i. p \<le> i \<and> take (length s) (drop i t) = s \<and> \<not> covered sp (i + length s - 1)"
  using assms(1,2,6)
proof (induction sp arbitrary: p)
  case Nil
  then show ?case using sublist_slice [OF assms(5), of t p "length t"] by auto
next
  case (Cons ab sp)
  obtain a b where ab: "ab = (a, b)" by fastforce
  have o: "p \<le> a" "a < b" "ordered b sp" using Cons.prems(1) ab by auto
  have after: "b \<le> c" if "(c, d) \<in> set sp" for c d using ordered_ge [OF o(3) that] by simp
  show ?case
  proof (cases "length t \<le> a")
    case True
    then have "mask_part t marker 0 (length t) p (ab # sp) = slice t p (length t)"
      using after o(2) by (intro mask_part_beyond) (force simp: ab)
    then obtain i where i: "p \<le> i" "i + length s \<le> length t" "take (length s) (drop i t) = s"
      using sublist_slice [OF assms(5), of t p "length t"] Cons.prems(3) by auto
    moreover have "\<not> covered (ab # sp) (i + length s - 1)"
      using i(2) True after o(2) assms(5) by (cases s) (force simp: ab covered_def)+
    ultimately show ?thesis by blast
  next
    case False
    then have "sublist s (slice t p a @ marker @ mask_part t marker 0 (length t) (min (length t) b) sp)"
      using Cons.prems(3) o by (simp add: ab max_def)
    from sublist_marker [OF assms(3,4) this] show ?thesis
    proof
      assume "sublist s (slice t p a)"
      then obtain i where i: "p \<le> i" "i + length s \<le> a" "take (length s) (drop i t) = s"
        using sublist_slice [OF assms(5), of t p a] False by auto
      moreover have "\<not> covered (ab # sp) (i + length s - 1)"
        using i(2) after o(2) assms(5) by (cases s) (force simp: ab covered_def)+
      ultimately show ?thesis by blast
    next
      assume r: "sublist s (mask_part t marker 0 (length t) (min (length t) b) sp)"
      have "ordered (min (length t) b) sp" using ordered_mono [OF o(3)] by simp
      from Cons.IH [OF this _ r] obtain i where i: "min (length t) b \<le> i" "take (length s) (drop i t) = s"
        "\<not> covered sp (i + length s - 1)" by auto
      then have "b \<le> i" using occurrence_end [OF assms(5) i(2)] assms(5) by (cases s) auto
      then show ?thesis using i o assms(5) by (intro exI [of _ i]) (cases s, auto simp: ab)
    qed
  qed
qed


text \<open>
  Rounds come to an end when no secret has a bracket of the marker, or when some secret is part of the
  marker, which is then left out.
\<close>

definition maskable :: "jstring list \<Rightarrow> bool" where
  "maskable secrets \<longleftrightarrow> list_all bracket_free secrets \<or> list_ex (\<lambda>s. has_part s marker) secrets"

definition round_measure :: "jstring list \<Rightarrow> jstring \<Rightarrow> nat" where
  "round_measure secrets t = (if contains_secret secrets t then Suc (length t) else 0)"

lemma round_decreases:
  assumes "maskable secrets" "mask_round secrets c parts = Inr (Some ps)"
  shows "round_measure secrets (concat ps) < round_measure secrets (concat parts)"
proof -
  let ?t = "concat parts"
  obtain sp where sp: "ordered c sp" "concat ps = masked ?t (marker_for secrets) sp" "found_spans secrets ?t \<noteq> []"
    "\<And>a b. (a, b) \<in> set (found_spans secrets ?t) \<Longrightarrow> c < b \<and> (\<forall>i. max a c \<le> i \<and> i < b \<longrightarrow> covered sp i)"
    using round_masks [OF assms(2)] by blast
  obtain a b where ab: "(a, b) \<in> set (found_spans secrets ?t)" using sp(3) by (metis list.set_intros(1) neq_Nil_conv surj_pair)
  then have before: "round_measure secrets ?t = Suc (length ?t)"
    using contains_iff [of secrets ?t] by (auto simp: round_measure_def)
  show ?thesis
  proof (cases "list_ex (\<lambda>s. has_part s marker) secrets")
    case True
    have "a < b" "b \<le> length ?t" using occurrence_end ab by (auto simp: found_spans_iff)
    moreover have "max a c \<le> b - 1 \<and> b - 1 < b" using \<open>a < b\<close> sp(4) [OF ab] by auto
    ultimately have "covered sp (b - 1)" "b - 1 < length ?t" using sp(4) [OF ab] by (blast, linarith)
    then have "length (concat ps) < length ?t" using masked_shorter [OF sp(1)] sp(2) True by (simp add: marker_for_def)
    then show ?thesis unfolding before by (simp add: round_measure_def)
  next
    case False
    have "\<not> contains_secret secrets (concat ps)"
    proof
      assume "contains_secret secrets (concat ps)"
      then obtain s where s: "s \<in> set secrets" "s \<noteq> []" "has_part s (concat ps)" by (auto simp: contains_part)
      have "bracket_free s" "\<not> has_part s marker" using assms(1) False s(1) by (auto simp: maskable_def list_all_iff list_ex_iff)
      then obtain i where i: "take (length s) (drop i ?t) = s" "\<not> covered sp (i + length s - 1)"
        using masked_leaves [OF ordered_mono [OF sp(1), of 0], of ?t s] s(2,3) sp(2) False
        by (auto simp: within_sublist masked_def marker_for_def)
      have f: "(i, i + length s) \<in> set (found_spans secrets ?t)" using s(1,2) i(1) by (auto simp: found_spans_iff)
      have "covered sp (i + length s - 1)" using sp(4) [OF f] s(2) by (cases s) auto
      then show False using i(2) by simp
    qed
    then show ?thesis unfolding before by (simp add: round_measure_def)
  qed
qed

text \<open>The text that is already public stays, and the parts stay apart.\<close>

lemma mask_parts_committed:
  "mask_parts t m c sp (start + length p) ps = qs \<Longrightarrow> start + length p \<le> c \<Longrightarrow>
    mask_parts t m c sp start (p # ps) = p # qs"
  by (simp add: Let_def)

lemma round_keeps:
  assumes "mask_round secrets c (p # ps) = Inr (Some qs)" "length p \<le> c"
  shows "hd qs = p \<and> length qs = Suc (length ps)"
  using assms by (auto simp: mask_round_def Let_def mask_parts_length split: if_splits list.splits)

lemma round_stops:
  assumes "mask_round secrets c parts = Inr None" "\<And>s. s \<in> set secrets \<Longrightarrow> s \<noteq> []"
  shows "\<not> contains_secret secrets (concat parts)"
proof
  assume con: "contains_secret secrets (concat parts)"
  then obtain i j where ij: "(i, j) \<in> set (found_spans secrets (concat parts))" using contains_iff by blast
  then obtain s where "s \<in> set secrets" "s \<noteq> []" "take (length s) (drop i (concat parts)) = s"
    by (auto simp: found_spans_iff)
  then have "secrets \<noteq> []" "concat parts \<noteq> []" by (metis empty_iff empty_set, metis drop_Nil take_Nil)
  have "found_spans secrets (concat parts) \<noteq> []" using ij by auto
  then have "sort_spans (map (\<lambda>(a, b). (max a c, b)) (found_spans secrets (concat parts))) \<noteq> []"
    by (simp add: sort_spans_def) (metis length_0_conv length_sort length_map)
  then show False using assms(1) con \<open>secrets \<noteq> []\<close> \<open>concat parts \<noteq> []\<close>
    by (auto simp: mask_round_def Let_def split: if_splits list.splits)
qed

lemma mask_returns:
  assumes "maskable secrets"
  shows "\<exists>r. maskModelFragments secrets c parts = Some r \<and>
    (case r of
       Inl e \<Rightarrow> True
     | Inr qs \<Rightarrow> mask_round secrets c qs = Inr None \<and> length qs = length parts
         \<and> (parts \<noteq> [] \<and> length (hd parts) \<le> c \<longrightarrow> hd qs = hd parts))"
proof (induction "round_measure secrets (concat parts)" arbitrary: parts rule: less_induct)
  case less
  show ?case
  proof (cases "mask_round secrets c parts")
    case (Inl e)
    then show ?thesis by (subst maskModelFragments.simps) simp
  next
    case (Inr r)
    show ?thesis
    proof (cases r)
      case None
      then show ?thesis using Inr by (subst maskModelFragments.simps) simp
    next
      case (Some ps)
      have step: "maskModelFragments secrets c parts = maskModelFragments secrets c ps"
        using Inr Some by (subst maskModelFragments.simps) simp
      note r = Inr [unfolded Some]
      have len: "length ps = length parts" using round_masks [OF r] by blast
      have hd: "parts \<noteq> [] \<and> length (hd parts) \<le> c \<Longrightarrow> hd ps = hd parts"
        using round_keeps [of secrets c "hd parts" "tl parts" ps] r by (cases parts) auto
      from less [OF round_decreases [OF assms r]] obtain q where q: "maskModelFragments secrets c ps = Some q"
        "case q of Inl e \<Rightarrow> True | Inr qs \<Rightarrow> mask_round secrets c qs = Inr None \<and> length qs = length ps
           \<and> (ps \<noteq> [] \<and> length (hd ps) \<le> c \<longrightarrow> hd qs = hd ps)" by blast
      have ne: "ps \<noteq> [] \<longleftrightarrow> parts \<noteq> []" using len by (metis length_0_conv)
      show ?thesis
      proof (cases q)
        case (Inl e)
        then show ?thesis using step q(1) by auto
      next
        case (Inr qs)
        then show ?thesis using step q len hd ne by (intro exI [of _ q]) auto
      qed
    qed
  qed
qed


text \<open>A round fails when a secret lies in the text that is already public.\<close>

lemma round_unsafe:
  assumes "\<And>s. s \<in> set secrets \<Longrightarrow> s \<noteq> []"
  shows "(\<exists>e. mask_round secrets c parts = Inl e) \<longleftrightarrow> (\<exists>s \<in> set secrets. has_part s (take c (concat parts)))"
proof -
  let ?t = "concat parts"
  have early: "(\<exists>(a, b) \<in> set (found_spans secrets ?t). b \<le> c) \<longleftrightarrow> (\<exists>s \<in> set secrets. has_part s (take c ?t))"
  proof
    assume "\<exists>(a, b) \<in> set (found_spans secrets ?t). b \<le> c"
    then obtain i s where s: "s \<in> set secrets" "s \<noteq> []" "take (length s) (drop i ?t) = s" "i + length s \<le> c"
      by (auto simp: found_spans_iff)
    then have "take (length s) (drop i (take c ?t)) = s" by (simp add: drop_take min_def)
    then show "\<exists>s \<in> set secrets. has_part s (take c ?t)" using s(1,2) has_part_iff by blast
  next
    assume "\<exists>s \<in> set secrets. has_part s (take c ?t)"
    then obtain s i where s: "s \<in> set secrets" "take (length s) (drop i (take c ?t)) = s"
      using has_part_iff assms by blast
    have "i + length s \<le> length (take c ?t)" using occurrence_end s assms by blast
    then have "i + length s \<le> c" "take (length s) (drop i ?t) = s" using s(2) by (simp_all add: drop_take min_def split: if_splits)
    then show "\<exists>(a, b) \<in> set (found_spans secrets ?t). b \<le> c" using s(1) assms by (force simp: found_spans_iff)
  qed
  have "contains_secret secrets ?t" "?t \<noteq> []" "secrets \<noteq> []" if ex: "\<exists>(a, b) \<in> set (found_spans secrets ?t). b \<le> c"
  proof -
    obtain i j where ij: "(i, j) \<in> set (found_spans secrets ?t)" using ex by auto
    then show "contains_secret secrets ?t" using contains_iff by blast
    from ij obtain s where "s \<in> set secrets" "s \<noteq> []" "take (length s) (drop i ?t) = s" by (auto simp: found_spans_iff)
    then show "?t \<noteq> []" "secrets \<noteq> []" by (metis drop_Nil take_Nil, auto)
  qed
  then have "(\<exists>e. mask_round secrets c parts = Inl e) \<longleftrightarrow> (\<exists>(a, b) \<in> set (found_spans secrets ?t). b \<le> c)"
    by (auto simp: mask_round_def Let_def list_ex_iff split: list.splits)
  then show ?thesis using early by simp
qed

lemma mask_unsafe:
  assumes "maskable secrets" "\<And>s. s \<in> set secrets \<Longrightarrow> s \<noteq> []" "c = 0 \<or> parts \<noteq> [] \<and> c = length (hd parts)"
  shows "(\<exists>e. maskModelFragments secrets c parts = Some (Inl e)) \<longleftrightarrow> (\<exists>s \<in> set secrets. has_part s (take c (concat parts)))"
  using assms(3)
proof (induction "round_measure secrets (concat parts)" arbitrary: parts rule: less_induct)
  case less
  have unsafe: "(\<exists>e. mask_round secrets c ps = Inl e) \<longleftrightarrow> (\<exists>s \<in> set secrets. has_part s (take c (concat ps)))" for ps
    by (rule round_unsafe) (rule assms(2))
  show ?case
  proof (cases "mask_round secrets c parts")
    case (Inl e)
    then show ?thesis using unsafe [of parts] by (subst maskModelFragments.simps) auto
  next
    case (Inr r)
    then have safe: "\<not> (\<exists>s \<in> set secrets. has_part s (take c (concat parts)))"
      using unsafe [of parts] by auto
    show ?thesis
    proof (cases r)
      case None
      then show ?thesis using Inr safe by (subst maskModelFragments.simps) simp
    next
      case (Some ps)
      note r = Inr [unfolded Some]
      have len: "length ps = length parts" using round_masks [OF r] by blast
      have pre: "take c (concat ps) = take c (concat parts) \<and> (c = 0 \<or> ps \<noteq> [] \<and> c = length (hd ps))"
      proof (cases "c = 0")
        case False
        then have p: "parts \<noteq> []" "c = length (hd parts)" using less.prems by auto
        then have "hd ps = hd parts" "ps \<noteq> []" using round_keeps [of secrets c "hd parts" "tl parts" ps] r len by (cases parts; auto)+
        then show ?thesis using p by (cases parts; cases ps) auto
      qed simp
      have "maskModelFragments secrets c parts = maskModelFragments secrets c ps"
        using Inr Some by (subst maskModelFragments.simps) simp
      then show ?thesis using less.hyps [OF round_decreases [OF assms(1) r]] pre by simp
    qed
  qed
qed

section \<open>Masked values\<close>

text \<open>What masking makes of a single string, and of a value without regard to its field names.\<close>

definition masked_string :: "jstring list \<Rightarrow> jstring \<Rightarrow> jstring" where
  "masked_string secrets t = (case mask_string secrets t of Some (Inr q) \<Rightarrow> q | _ \<Rightarrow> t)"

fun map_strings :: "(jstring \<Rightarrow> jstring) \<Rightarrow> json \<Rightarrow> json" where
  "map_strings f (JStr t) = JStr (f t)"
| "map_strings f (JArr vs) = JArr (map (map_strings f) vs)"
| "map_strings f (JObj kvs) = JObj (map (\<lambda>(k, v). (f k, map_strings f v)) kvs)"
| "map_strings f v = v"

fun strings_of :: "json \<Rightarrow> jstring list" where
  "strings_of (JStr t) = [t]"
| "strings_of (JArr vs) = concat (map strings_of vs)"
| "strings_of (JObj kvs) = concat (map (\<lambda>(k, v). k # strings_of v) kvs)"
| "strings_of v = []"

text \<open>Whether every object has each name once.\<close>

fun names_distinct :: "json \<Rightarrow> bool" where
  "names_distinct (JArr vs) = list_all names_distinct vs"
| "names_distinct (JObj kvs) = (distinct (map fst kvs) \<and> list_all (\<lambda>(k, v). names_distinct v) kvs)"
| "names_distinct v = True"

lemma values_of_values: "\<And>s. s \<in> set (pattern_values secrets) \<Longrightarrow> s \<noteq> []"
  by (simp add: set_pattern_values)

lemma mask_string_returns:
  assumes "maskable (pattern_values secrets)"
  shows "\<exists>q. mask_string (pattern_values secrets) t = Some (Inr q) \<and> \<not> contains_secret secrets q"
proof -
  let ?ss = "pattern_values secrets"
  obtain r where r: "maskModelFragments ?ss 0 [t] = Some r"
    "case r of Inl e \<Rightarrow> True | Inr qs \<Rightarrow> mask_round ?ss 0 qs = Inr None \<and> length qs = length [t] \<and> ([t] \<noteq> [] \<and> length (hd [t]) \<le> 0 \<longrightarrow> hd qs = hd [t])"
    using mask_returns [OF assms, of 0 "[t]"] by blast
  have ne: "\<not> (\<exists>s \<in> set ?ss. has_part s (take 0 (concat [t])))"
    using values_of_values by auto
  obtain qs where qs: "r = Inr qs"
    using mask_unsafe [of ?ss 0 "[t]"] assms values_of_values ne r(1) by (cases r) auto
  then obtain q where q: "qs = [q]" using r(2) by (auto simp: length_Suc_conv)
  have "\<not> contains_secret ?ss q" using round_stops [of ?ss 0 qs] values_of_values r(2) qs q by simp
  then have "\<not> contains_secret secrets q" by (auto simp: contains_part set_pattern_values)
  then show ?thesis using r(1) qs q by (simp add: mask_string_def)
qed

lemma mask_string_eq:
  assumes "maskable (pattern_values secrets)"
  shows "mask_string (pattern_values secrets) t = Some (Inr (masked_string (pattern_values secrets) t))"
  using mask_string_returns [OF assms, of t] by (auto simp: masked_string_def)

lemma masked_string_clean:
  assumes "maskable (pattern_values secrets)"
  shows "\<not> contains_secret secrets (masked_string (pattern_values secrets) t)"
  using mask_string_returns [OF assms, of t] by (auto simp: masked_string_def)

lemma redact_value:
  assumes "maskable (pattern_values secrets)" "f = masked_string (pattern_values secrets)"
  shows "redact_visit (pattern_values secrets) v =
      Some (if names_distinct (map_strings f v) then Inr (map_strings f v) else Inl KeyCollision)"
    and "redact_items (pattern_values secrets) vs =
      Some (if list_all names_distinct (map (map_strings f) vs) then Inr (map (map_strings f) vs) else Inl KeyCollision)"
    and "redact_fields (pattern_values secrets) taken kvs =
      Some (if distinct (map (f \<circ> fst) kvs) \<and> set taken \<inter> (f \<circ> fst) ` set kvs = {} \<and> list_all (\<lambda>(k, v). names_distinct (map_strings f v)) kvs
            then Inr (map (\<lambda>(k, v). (f k, map_strings f v)) kvs) else Inl KeyCollision)"
proof (induction "pattern_values secrets" v and "pattern_values secrets" vs and "pattern_values secrets" taken kvs
    rule: redact_visit_redact_items_redact_fields.induct)
  case (3 kvs)
  then show ?case by (simp add: list_all_iff case_prod_unfold comp_def)
next
  case (8 taken k v kvs)
  show ?case
  proof (cases "f k \<in> set taken \<or> \<not> names_distinct (map_strings f v)")
    case True
    then show ?thesis
      using 8(1) mask_string_eq [OF assms(1), of k] assms(2) by auto
  next
    case False
    then show ?thesis
      using 8 mask_string_eq [OF assms(1), of k] assms(2) by auto
  qed
qed (use assms in \<open>auto simp: mask_string_eq\<close>)

lemma strings_of_mapped: "strings_of (map_strings f v) = map f (strings_of v)"
proof (induction v)
  case (JArr vs)
  then show ?case by (induction vs) simp_all
next
  case (JObj kvs)
  then show ?case by (induction kvs) fastforce+
qed simp_all

section \<open>Properties\<close>

text \<open>
  C19. Masking always comes to an end when no secret has a bracket or some secret is part of the marker,
  and then no secret is left in the text, also not one put together from parts or from what is left
  around a marker; parts stay apart and what is already public is not changed. It fails exactly when
  the public text has a secret in it already.
\<close>

theorem mask_ends_clean:
  assumes "maskable secrets" "list_all (\<lambda>s. s \<noteq> []) secrets" "c = 0 \<or> parts \<noteq> [] \<and> c = length (hd parts)"
  shows "\<exists>r. maskModelFragments secrets c parts = Some r
    \<and> (case r of
         Inl e \<Rightarrow> list_ex (\<lambda>s. has_part s (take c (concat parts))) secrets
       | Inr qs \<Rightarrow> \<not> list_ex (\<lambda>s. has_part s (concat qs)) secrets \<and> length qs = length parts
           \<and> take c (concat qs) = take c (concat parts))"
proof -
  have ne: "s \<noteq> []" if "s \<in> set secrets" for s using assms(2) that by (auto simp: list_all_iff)
  obtain r where r: "maskModelFragments secrets c parts = Some r"
    "case r of Inl e \<Rightarrow> True | Inr qs \<Rightarrow> mask_round secrets c qs = Inr None \<and> length qs = length parts
       \<and> (parts \<noteq> [] \<and> length (hd parts) \<le> c \<longrightarrow> hd qs = hd parts)"
    using mask_returns [OF assms(1)] by blast
  show ?thesis
  proof (cases r)
    case (Inl e)
    then show ?thesis using r(1) mask_unsafe [OF assms(1) ne assms(3)] by (auto simp: list_ex_iff)
  next
    case (Inr qs)
    have "\<not> list_ex (\<lambda>s. has_part s (concat qs)) secrets"
      using round_stops [of secrets c qs] r(2) Inr ne by (auto simp: contains_part list_ex_iff)
    moreover have "take c (concat qs) = take c (concat parts)"
    proof (cases "c = 0")
      case False
      then show ?thesis using assms(3) r(2) Inr by (cases parts; cases qs) auto
    qed simp
    ultimately show ?thesis using r Inr by auto
  qed
qed


definition example_secrets :: "jstring list" where
  "example_secrets = [js ''sk12'', js ''k1'']"

lemma mask_ends_clean_witness:
  "\<exists>r. maskModelFragments example_secrets 2 [js ''as'', js ''k1'', js ''2 k1b''] = Some r
    \<and> (case r of
         Inl e \<Rightarrow> list_ex (\<lambda>s. has_part s (take 2 (concat [js ''as'', js ''k1'', js ''2 k1b'']))) example_secrets
       | Inr qs \<Rightarrow> \<not> list_ex (\<lambda>s. has_part s (concat qs)) example_secrets \<and> length qs = length [js ''as'', js ''k1'', js ''2 k1b'']
           \<and> take 2 (concat qs) = take 2 (concat [js ''as'', js ''k1'', js ''2 k1b'']))"
  by (rule mask_ends_clean; code_simp)

lemma mask_example:
  "maskModelFragments example_secrets 2 [js ''as'', js ''k1'', js ''2 k1b''] =
     Some (Inr [js ''as'', js ''[redacted]'', js '' [redacted]b''])"
  by code_simp

text \<open>
  C23. Redacting a value masks each of its strings and field names on its own and changes nothing else,
  and leaves no secret in any of them. It fails exactly when two field names of one object come out the
  same, and then with that error.
\<close>

theorem redact_hides_secrets:
  assumes "maskable (pattern_values secrets)"
  shows "redactModelValue secrets v =
      (let w = map_strings (masked_string (pattern_values secrets)) v
       in Some (if names_distinct w then Inr w else Inl KeyCollision))
    \<and> \<not> list_ex (contains_secret secrets) (strings_of (map_strings (masked_string (pattern_values secrets)) v))"
  using redact_value(1) [OF assms refl] masked_string_clean [OF assms]
  by (auto simp: redactModelValue_def Let_def strings_of_mapped list_ex_iff)

definition example_value :: json where
  "example_value = JObj [(js ''k1'', JStr (js ''ask12 '')), (js ''sk12'', JNull)]"

lemma redact_hides_secrets_witness:
  "redactModelValue example_secrets example_value =
      (let w = map_strings (masked_string (pattern_values example_secrets)) example_value
       in Some (if names_distinct w then Inr w else Inl KeyCollision))
    \<and> \<not> list_ex (contains_secret example_secrets)
         (strings_of (map_strings (masked_string (pattern_values example_secrets)) example_value))"
  by (rule redact_hides_secrets) code_simp

lemma redact_collides: "redactModelValue example_secrets example_value = Some (Inl KeyCollision)"
  by code_simp

section \<open>Masking that does not end\<close>

text \<open>Two characters where one of two secrets is found.\<close>

definition looping :: "jstring list" where
  "looping = [js ''d['', js '']r'']"

definition joins :: "cu \<Rightarrow> cu \<Rightarrow> bool" where
  "joins c d \<longleftrightarrow> (c = 100 \<and> d = 91) \<or> (c = 93 \<and> d = 114)"

abbreviation apart_chars :: "jstring \<Rightarrow> bool" where
  "apart_chars \<equiv> successively (\<lambda>c d. \<not> joins c d)"

lemma looping_simps: "looping = [[100, 91], [93, 114]]"
  by code_simp

lemma take_two: "take 2 (drop i t) = [c, d] \<longleftrightarrow> Suc i < length t \<and> t ! i = c \<and> t ! Suc i = d"
proof (cases "Suc i < length t")
  case True
  then have "drop i t = t ! i # t ! Suc i # drop (Suc (Suc i)) t" by (metis Cons_nth_drop_Suc Suc_lessD)
  then show ?thesis using True by (simp add: numeral_2_eq_2)
next
  case False
  then have "length (take 2 (drop i t)) < length [c, d]" by simp
  then have "take 2 (drop i t) \<noteq> [c, d]" by (metis less_irrefl)
  then show ?thesis using False by simp
qed

lemma found_joins: "(i, j) \<in> set (found_spans looping t) \<longleftrightarrow> Suc i < length t \<and> joins (t ! i) (t ! Suc i) \<and> j = i + 2"
  unfolding found_spans_iff looping_simps by (auto simp: take_two joins_def numeral_2_eq_2 [symmetric])

lemma merge_same: "set sp \<subseteq> {(a, b)} \<Longrightarrow> a < b \<Longrightarrow> merge_spans (a, b) sp = [(a, b)]"
  by (induction sp) auto

text \<open>A round on a text with one such place puts the marker there.\<close>

lemma one_join_round:
  assumes "joins c d" "apart_chars (x @ [c])" "apart_chars (d # y)"
  shows "mask_round looping 0 [x @ [c, d] @ y] = Inr (Some [x @ marker @ y])"
proof -
  let ?t = "x @ [c, d] @ y" and ?l = "length x"
  have at: "i = ?l" if "Suc i < length ?t" "joins (?t ! i) (?t ! Suc i)" for i
  proof (rule ccontr)
    assume "i \<noteq> ?l"
    then consider "i < ?l" | "?l < i" by linarith
    then show False
    proof cases
      case 1
      then have "\<not> joins ((x @ [c]) ! i) ((x @ [c]) ! Suc i)" using assms(2) by (auto simp: successively_conv_nth)
      then show False using that(2) 1 by (auto simp: nth_append split: if_splits)
    next
      case 2
      then obtain m where m: "i = ?l + Suc m" using less_iff_Suc_add by auto
      then have "\<not> joins ((d # y) ! m) ((d # y) ! Suc m)" using assms(3) that(1) by (auto simp: successively_conv_nth)
      then show False using that(2) m by (simp add: nth_append)
    qed
  qed
  have "joins (?t ! ?l) (?t ! Suc ?l)" "Suc ?l < length ?t" using assms(1) by (simp_all add: nth_append)
  then have "(i, j) \<in> set (found_spans looping ?t) \<longleftrightarrow> (i, j) = (?l, ?l + 2)" for i j
    using at [of i] unfolding found_joins by blast
  then have set: "set (found_spans looping ?t) = {(?l, ?l + 2)}" by (intro set_eqI) (metis prod.exhaust singleton_iff)
  then have con: "contains_secret looping ?t" using contains_iff [of looping ?t] by blast
  let ?cl = "map (\<lambda>(a, b). (max a 0, b)) (found_spans looping ?t)"
  have "set (sort_spans ?cl) = {(?l, ?l + 2)}" using set unfolding sort_spans_sorted by simp
  then obtain sp where sp: "sort_spans ?cl = (?l, ?l + 2) # sp" "set sp \<subseteq> {(?l, ?l + 2)}"
    by (cases "sort_spans ?cl") auto
  have late: "\<not> list_ex (\<lambda>(a, b). b \<le> 0) (found_spans looping ?t)" using set by (simp add: list_ex_iff)
  have no: "\<not> list_ex (\<lambda>s. has_part s marker) looping" by code_simp
  have "mask_parts ?t marker 0 [(?l, ?l + 2)] 0 [?t] = [x @ marker @ y]"
    by (simp add: slice_def min_def)
  moreover have "looping \<noteq> []" by (simp add: looping_def)
  ultimately show ?thesis
    using con late no sp merge_same [OF sp(2)] by (simp add: mask_round_def Let_def)
qed

text \<open>The two halves of the marker: what a round leaves on either side.\<close>

definition left_half :: jstring where
  "left_half = js ''[redacte''"

definition right_half :: jstring where
  "right_half = js ''edacted]''"

definition halves :: "nat \<Rightarrow> jstring \<Rightarrow> jstring" where
  "halves k x = concat (replicate k left_half) @ x @ concat (replicate k right_half)"

lemma half_facts:
  "left_half \<noteq> []" "hd left_half = 91" "last left_half = 101" "apart_chars left_half"
  "right_half \<noteq> []" "hd right_half = 101" "last right_half = 93" "apart_chars right_half"
  by code_simp+

lemma concat_replicate_shift: "concat (replicate k x) @ x = x @ concat (replicate k x)"
  by (induction k) simp_all

lemma halves_inner: "halves (Suc k) x = halves k (left_half @ x @ right_half)"
proof -
  have "concat (replicate k left_half) @ left_half = left_half @ concat (replicate k left_half)"
    by (rule concat_replicate_shift)
  then show ?thesis by (simp add: halves_def)
qed

lemma apart_left: "z \<noteq> [] \<Longrightarrow> hd z = 91 \<Longrightarrow> apart_chars (concat (replicate k left_half) @ z) = apart_chars z"
proof (induction k)
  case (Suc k)
  let ?z = "concat (replicate k left_half) @ z"
  have "?z \<noteq> []" "hd ?z = 91" using Suc.prems half_facts by (cases k; simp)+
  then have "apart_chars (left_half @ ?z) = apart_chars ?z"
    using half_facts by (simp add: successively_append_iff joins_def del: append_is_Nil_conv)
  then show ?case using Suc by simp
qed simp

lemma apart_right: "z \<noteq> [] \<Longrightarrow> last z = 93 \<Longrightarrow> apart_chars (z @ concat (replicate k right_half)) = apart_chars z"
proof (induction k arbitrary: z)
  case (Suc k)
  have "apart_chars ((z @ right_half) @ concat (replicate k right_half)) = apart_chars (z @ right_half)"
    using half_facts by (intro Suc.IH) simp_all
  moreover have "apart_chars (z @ right_half) = apart_chars z"
    using Suc.prems half_facts by (simp add: successively_append_iff joins_def)
  ultimately show ?case by simp
qed simp

lemma halves_round:
  assumes "joins c d" "x \<noteq> []" "hd x = 91" "apart_chars (x @ [c])" "y \<noteq> []" "last y = 93" "apart_chars (d # y)"
  shows "mask_round looping 0 [halves k (x @ [c, d] @ y)] = Inr (Some [halves k (x @ marker @ y)])"
  using one_join_round [of c d "concat (replicate k left_half) @ x" "y @ concat (replicate k right_half)"]
    apart_left [of "x @ [c]" k] apart_right [of "d # y" k] assms
  by (simp add: halves_def)

text \<open>From one half more to the next, and from there to one half more again.\<close>

definition loop_one :: jstring where
  "loop_one = js ''[redacted]redacted]''"

definition loop_two :: jstring where
  "loop_two = js ''[redacted[redacted]edacted]''"

lemma loop_parts:
  "loop_one = js ''[redacted'' @ [93, 114] @ js ''edacted]''" "loop_two = js ''[redacted'' @ marker @ js ''edacted]''"
  "loop_two = left_half @ [100, 91] @ js ''redacted]edacted]''"
  "left_half @ marker @ js ''redacted]edacted]'' = left_half @ loop_one @ right_half"
  by code_simp+

lemma loop_apart:
  "apart_chars (js ''[redacted'' @ [93])" "apart_chars (114 # js ''edacted]'')"
  "apart_chars (left_half @ [100])" "apart_chars (91 # js ''redacted]edacted]'')"
  by code_simp+

lemma loop_ends:
  "hd (js ''[redacted'') = 91" "js ''[redacted'' \<noteq> []" "last (js ''edacted]'') = 93" "js ''edacted]'' \<noteq> []"
  "last (js ''redacted]edacted]'') = 93" "js ''redacted]edacted]'' \<noteq> []" "joins 93 114" "joins 100 91"
  by code_simp+

lemma loop_rounds:
  "mask_round looping 0 [halves k loop_one] = Inr (Some [halves k loop_two])"
  "mask_round looping 0 [halves k loop_two] = Inr (Some [halves (Suc k) loop_one])"
proof -
  show "mask_round looping 0 [halves k loop_one] = Inr (Some [halves k loop_two])"
    unfolding loop_parts(1,2) by (intro halves_round loop_ends loop_apart)
  have "mask_round looping 0 [halves k loop_two] = Inr (Some [halves k (left_half @ marker @ js ''redacted]edacted]'')])"
    unfolding loop_parts(3) by (intro halves_round loop_ends loop_apart half_facts)
  then show "mask_round looping 0 [halves k loop_two] = Inr (Some [halves (Suc k) loop_one])"
    by (simp add: loop_parts(4) halves_inner)
qed

lemma loop_never:
  assumes "maskModelFragments secrets c ps = Some r"
  shows "secrets = looping \<and> c = 0 \<longrightarrow> (\<forall>k. ps \<noteq> [halves k loop_one] \<and> ps \<noteq> [halves k loop_two])"
  using _ assms
proof (rule maskModelFragments.raw_induct)
  fix rec secrets c ps r
  assume IH: "\<And>secrets c ps r. rec secrets c ps = Some r \<Longrightarrow>
      secrets = looping \<and> c = 0 \<longrightarrow> (\<forall>k. ps \<noteq> [halves k loop_one] \<and> ps \<noteq> [halves k loop_two])"
    and step: "(case mask_round secrets c ps of Inl e \<Rightarrow> Some (Inl e) | Inr None \<Rightarrow> Some (Inr ps)
      | Inr (Some qs) \<Rightarrow> rec secrets c qs) = Some r"
  show "secrets = looping \<and> c = 0 \<longrightarrow> (\<forall>k. ps \<noteq> [halves k loop_one] \<and> ps \<noteq> [halves k loop_two])"
  proof (intro impI allI conjI notI; elim conjE)
    fix k
    assume at: "ps = [halves k loop_one]" "secrets = looping" "c = 0"
    then have "rec looping 0 [halves k loop_two] = Some r" using step loop_rounds(1) [of k] by simp
    then show False using IH by blast
  next
    fix k
    assume at: "ps = [halves k loop_two]" "secrets = looping" "c = 0"
    then have "rec looping 0 [halves (Suc k) loop_one] = Some r" using step loop_rounds(2) [of k] by simp
    then show False using IH by blast
  qed
qed

theorem masking_may_not_end: "maskModelFragments looping 0 [js ''dd[''] = None"
proof -
  have 1: "mask_round looping 0 [js ''dd[''] = Inr (Some [js ''d[redacted]''])" by code_simp
  have 2: "mask_round looping 0 [js ''d[redacted]''] = Inr (Some [halves 0 loop_one])" by code_simp
  have "maskModelFragments looping 0 [js ''dd[''] = maskModelFragments looping 0 [halves 0 loop_one]"
    by (subst maskModelFragments.simps, simp add: 1, subst maskModelFragments.simps, simp add: 2)
  then show ?thesis using loop_never [of looping 0 "[halves 0 loop_one]"] by (cases "maskModelFragments looping 0 [halves 0 loop_one]") auto
qed

end
