(* ===== verification/StringHistory.thy ===== *)
theory StringHistory
  imports Masks
begin

text \<open>
  Secrets that are cut over several fields (\<open>packages/cli/src/remote/model-string-history.ts\<close>): what was
  published leaves, for each secret, the lengths of its prefixes that a later field could complete.
\<close>

section \<open>States\<close>

text \<open>A list of lengths for each secret; \<open>undefined\<close> is the list without members.\<close>

type_synonym string_history = "nat list list"

definition fresh_history :: "jstring list \<Rightarrow> string_history" where
  "fresh_history secrets = replicate (length secrets) []"

definition insert_length :: "nat list \<Rightarrow> nat \<Rightarrow> nat list" where
  "insert_length ks k = (if k \<in> set ks then ks else ks @ [k])"

text \<open>The longest rest of a secret that the text begins with, for a prefix that was published.\<close>

definition consumed_by :: "jstring list \<Rightarrow> string_history \<Rightarrow> jstring \<Rightarrow> nat" where
  "consumed_by secrets H t =
     foldl max 0 (concat (map (\<lambda>(s, ks). map (\<lambda>k. length (drop k s)) (filter (\<lambda>k. starts_with t (drop k s)) ks))
       (zip secrets H)))"

partial_function (option) mask_rests :: "jstring list \<Rightarrow> string_history \<Rightarrow> jstring \<Rightarrow> (mask_error + jstring) option" where
  "mask_rests secrets H t =
     (let n = consumed_by secrets H t in
      if n = 0 then Some (Inr t)
      else case maskModelFragments secrets 0 [drop n t] of
          None \<Rightarrow> None
        | Some (Inl e) \<Rightarrow> Some (Inl e)
        | Some (Inr ps) \<Rightarrow> mask_rests secrets H (hd ps))"

declare mask_rests.simps [code]

text \<open>Prefixes that the whole text continues, and those that begin at the end of the text.\<close>

definition continued :: "jstring \<Rightarrow> jstring \<Rightarrow> nat list \<Rightarrow> nat list" where
  "continued s t ks =
     map (\<lambda>k. k + length t) (filter (\<lambda>k. k + length t < length s \<and> starts_with (drop k s) t) ks)"

definition begun :: "jstring \<Rightarrow> jstring \<Rightarrow> nat list" where
  "begun s t =
     filter (\<lambda>n. starts_with s (drop (length t - n) t)) (filter (\<lambda>n. n \<le> length t) [1..<length s])"

definition add_states :: "jstring list \<Rightarrow> string_history \<Rightarrow> jstring \<Rightarrow> string_history" where
  "add_states secrets H t = map (\<lambda>(s, ks). foldl insert_length ks (continued s t ks @ begun s t)) (zip secrets H)"

definition history_mask :: "jstring list \<Rightarrow> string_history \<Rightarrow> jstring \<Rightarrow> (mask_error + jstring \<times> string_history) option" where
  "history_mask secrets H t =
     (if t = [] \<or> secrets = [] then Some (Inr (t, H))
      else case mask_rests secrets H t of
          None \<Rightarrow> None
        | Some (Inl e) \<Rightarrow> Some (Inl e)
        | Some (Inr u) \<Rightarrow> Some (Inr (u, if u = [] then H else add_states secrets H u)))"

section \<open>Text that cannot be changed\<close>

text \<open>The characters of a text: a pair of surrogates is one.\<close>

fun characters :: "jstring \<Rightarrow> jstring list" where
  "characters [] = []"
| "characters [c] = [[c]]"
| "characters (c # d # r) =
     (if 55296 \<le> c \<and> c \<le> 56319 \<and> 56320 \<le> d \<and> d \<le> 57343 then [c, d] # characters r
      else [c] # characters (d # r))"

definition first_characters :: "jstring list \<Rightarrow> jstring list" where
  "first_characters secrets = map (take 1) secrets"

definition history_advance :: "jstring list \<Rightarrow> string_history \<Rightarrow> jstring \<Rightarrow> mask_error + string_history" where
  "history_advance secrets H v =
     (if list_ex (\<lambda>(s, ks). list_ex (\<lambda>k. starts_with v (drop k s)) ks) (zip secrets H) then Inl UnsafeSuffix
      else Inr (map (\<lambda>(s, ks). foldl insert_length ks (continued s v ks)) (zip secrets H)))"

text \<open>Every representation is one branch; all of them together are what may have been published.\<close>

fun history_branches ::
  "jstring list \<Rightarrow> string_history \<Rightarrow> string_history \<Rightarrow> jstring list \<Rightarrow> (mask_error + string_history) option" where
  "history_branches secrets H combined [] = Some (Inr combined)"
| "history_branches secrets H combined (v # vs) =
     (case history_mask secrets H v of
        None \<Rightarrow> None
      | Some (Inl e) \<Rightarrow> Some (Inl e)
      | Some (Inr (u, B)) \<Rightarrow>
          if u \<noteq> v then Some (Inl UnsafeSuffix)
          else history_branches secrets H (map2 (foldl insert_length) combined B) vs)"

definition history_immutable :: "jstring list \<Rightarrow> string_history \<Rightarrow> jstring list \<Rightarrow> (mask_error + string_history) option" where
  "history_immutable secrets H forms =
     (if list_ex (contains_secret secrets) forms then Some (Inl UnsafeSuffix)
      else case forms of
          [v] \<Rightarrow>
            if \<not> list_ex (\<lambda>c. c \<in> set (first_characters secrets)) (characters v) then Some (history_advance secrets H v)
            else (case history_mask secrets H v of
                None \<Rightarrow> None
              | Some (Inl e) \<Rightarrow> Some (Inl e)
              | Some (Inr (u, B)) \<Rightarrow> Some (if u \<noteq> v then Inl UnsafeSuffix else Inr B))
        | _ \<Rightarrow> history_branches secrets H H forms)"

section \<open>Fields in their order\<close>

text \<open>A field of text, and a number with the forms in which it may be read.\<close>

datatype observed = Words jstring | Numeral "jstring list"

text \<open>For each field the texts of which one is published.\<close>

fun observe_all :: "jstring list \<Rightarrow> string_history \<Rightarrow> observed list \<Rightarrow> (mask_error + jstring list list \<times> string_history) option" where
  "observe_all secrets H [] = Some (Inr ([], H))"
| "observe_all secrets H (f # fs) =
     (case (case f of
              Words t \<Rightarrow> map_option (map_sum id (\<lambda>(u, B). ([u], B))) (history_mask secrets H t)
            | Numeral forms \<Rightarrow> map_option (map_sum id (\<lambda>B. (forms, B))) (history_immutable secrets H forms)) of
        None \<Rightarrow> None
      | Some (Inl e) \<Rightarrow> Some (Inl e)
      | Some (Inr (us, B)) \<Rightarrow>
          (case observe_all secrets B fs of
             None \<Rightarrow> None
           | Some (Inl e) \<Rightarrow> Some (Inl e)
           | Some (Inr (uss, C)) \<Rightarrow> Some (Inr (us # uss, C))))"

section \<open>Secrets over several fields\<close>

text \<open>The end of one text, later texts in their whole, and the beginning of one that follows.\<close>

definition reached :: "jstring \<Rightarrow> jstring list \<Rightarrow> nat \<Rightarrow> bool" where
  "reached s ps n \<longleftrightarrow> (\<exists>i u mid. i < length ps \<and> u \<noteq> [] \<and> suffix u (ps ! i) \<and> subseq mid (drop (Suc i) ps)
     \<and> u @ concat mid = take n s \<and> n < length s \<and> n = length (u @ concat mid))"

definition split_across :: "jstring \<Rightarrow> jstring list \<Rightarrow> bool" where
  "split_across s ps \<longleftrightarrow> (\<exists>i u mid l w. i < length ps \<and> u \<noteq> [] \<and> suffix u (ps ! i) \<and> subseq (mid @ [l]) (drop (Suc i) ps)
     \<and> w \<noteq> [] \<and> prefix w l \<and> u @ concat mid @ w = s)"

lemma subseq_snoc: "subseq mid (xs @ [t]) \<longleftrightarrow> subseq mid xs \<or> (\<exists>m. mid = m @ [t] \<and> subseq m xs)"
proof
  assume "subseq mid (xs @ [t])"
  then obtain a b where ab: "mid = a @ b" "subseq a xs" "subseq b [t]" by (auto simp: subseq_append_iff)
  then have "b = [] \<or> b = [t]" by (cases b) (auto split: if_splits)
  then show "subseq mid xs \<or> (\<exists>m. mid = m @ [t] \<and> subseq m xs)" using ab by auto
qed (auto intro: subseq_rev_drop_many simp: subseq_append_iff)

lemma starts_prefix: "starts_with t p \<longleftrightarrow> prefix p t"
  by (metis append_eq_conv_conj prefix_def starts_with_def)

lemma reachedI:
  "i < length ps \<Longrightarrow> u \<noteq> [] \<Longrightarrow> suffix u (ps ! i) \<Longrightarrow> subseq mid (drop (Suc i) ps) \<Longrightarrow> u @ concat mid = take n s \<Longrightarrow>
   n < length s \<Longrightarrow> n = length (u @ concat mid) \<Longrightarrow> reached s ps n"
  unfolding reached_def by blast

lemma reached_snoc:
  assumes "reached s (ps @ [t]) n"
  shows "reached s ps n \<or> (\<exists>m. reached s ps m \<and> n = m + length t \<and> n < length s \<and> starts_with (drop m s) t)
    \<or> (1 \<le> n \<and> n \<le> length t \<and> n < length s \<and> starts_with s (drop (length t - n) t))"
proof -
  obtain i u mid where r: "i < Suc (length ps)" "u \<noteq> []" "suffix u ((ps @ [t]) ! i)" "subseq mid (drop (Suc i) (ps @ [t]))"
    "u @ concat mid = take n s" "n < length s" "n = length (u @ concat mid)"
    using assms unfolding reached_def by auto
  show ?thesis
  proof (cases "i < length ps")
    case True
    have d: "subseq mid (drop (Suc i) ps @ [t])" using r(4) True by simp
    have u: "suffix u (ps ! i)" using r(3) True by (simp add: nth_append)
    show ?thesis
    proof (cases "subseq mid (drop (Suc i) ps)")
      case old: True
      then show ?thesis using r True u unfolding reached_def by blast
    next
      case False
      then obtain m where m: "mid = m @ [t]" "subseq m (drop (Suc i) ps)" using d unfolding subseq_snoc by blast
      define k where "k = length (u @ concat m)"
      have n: "n = k + length t" using r(7) m(1) by (simp add: k_def)
      have "take n s = take k s @ take (length t) (drop k s)" unfolding n by (rule take_add)
      then have e: "(u @ concat m) @ t = take k s @ take (length t) (drop k s)" using r(5) m(1) by simp
      have "length (u @ concat m) = length (take k s)" using n r(6) by (simp add: k_def)
      from append_eq_append_conv [THEN iffD1, OF disjI1, OF this e]
      have parts: "u @ concat m = take k s" "take (length t) (drop k s) = t" by auto
      have "reached s ps k" using n r(6) by (intro reachedI [OF True r(2) u m(2) parts(1) _ k_def]) simp
      then show ?thesis using n r(6) parts(2) by (auto simp: starts_with_def)
    qed
  next
    case False
    then have "i = length ps" using r(1) by simp
    then have "mid = []" "suffix u t" using r(3,4) by simp_all
    then have u: "u = take n s" "n = length u" using r(5,7) by simp_all
    obtain v where v: "t = v @ u" using \<open>suffix u t\<close> by (auto simp: suffix_def)
    have "drop (length t - n) t = u" unfolding v u(2) by simp
    moreover have "starts_with s u" unfolding starts_prefix by (subst u(1)) (rule take_is_prefix)
    moreover have "1 \<le> n" "n \<le> length t" using r(2) u(2) v by (simp_all add: Suc_le_eq)
    ultimately show ?thesis using r(6) by simp
  qed
qed

lemma split_snoc:
  assumes "split_across s (ps @ [t])"
  shows "split_across s ps \<or> (\<exists>m. reached s ps m \<and> starts_with t (drop m s))"
proof -
  obtain i u mid l w where r: "i < Suc (length ps)" "u \<noteq> []" "suffix u ((ps @ [t]) ! i)"
    "subseq (mid @ [l]) (drop (Suc i) (ps @ [t]))" "w \<noteq> []" "prefix w l" "u @ concat mid @ w = s"
    using assms unfolding split_across_def by auto
  have i: "i < length ps" using r(1,4) by (cases "i = length ps") auto
  have d: "subseq (mid @ [l]) (drop (Suc i) ps @ [t])" using r(4) i by simp
  have u: "suffix u (ps ! i)" using r(3) i by (simp add: nth_append)
  show ?thesis
  proof (cases "subseq (mid @ [l]) (drop (Suc i) ps)")
    case True
    then show ?thesis using i r u unfolding split_across_def by blast
  next
    case False
    then have m: "l = t" "subseq mid (drop (Suc i) ps)" using d unfolding subseq_snoc by auto
    define k where "k = length (u @ concat mid)"
    have s: "s = (u @ concat mid) @ w" using r(7) by simp
    then have k: "take k s = u @ concat mid" "drop k s = w" "k < length s" using r(5) by (simp_all add: k_def)
    have "reached s ps k" by (rule reachedI [OF i r(2) u m(2) k(1) [symmetric] k(3) k_def])
    then show ?thesis using k(2) r(6) m(1) by (auto simp: starts_prefix)
  qed
qed

section \<open>What the states know\<close>

definition covers :: "jstring list \<Rightarrow> string_history \<Rightarrow> jstring list \<Rightarrow> bool" where
  "covers secrets H ps \<longleftrightarrow> length H = length secrets
     \<and> (\<forall>j < length secrets. \<forall>n. reached (secrets ! j) ps n \<longrightarrow> n \<in> set (H ! j)) \<and> (\<forall>s \<in> set secrets. \<not> split_across s ps)"

lemma covers_new: "covers secrets (fresh_history secrets) []"
  by (simp add: covers_def fresh_history_def reached_def split_across_def)

lemma set_insert_lengths [simp]: "set (foldl insert_length ks ls) = set ks \<union> set ls"
  by (induction ls arbitrary: ks) (auto simp: insert_length_def)

text \<open>A text that completes no prefix, and states that have all it continues and begins.\<close>

lemma covers_step:
  assumes "covers secrets H ps" "length B = length secrets"
    "\<And>j k. j < length secrets \<Longrightarrow> k \<in> set (H ! j) \<Longrightarrow> k < length (secrets ! j) \<Longrightarrow> \<not> starts_with t (drop k (secrets ! j))"
    "\<And>j. j < length secrets \<Longrightarrow>
      set (H ! j) \<union> set (continued (secrets ! j) t (H ! j)) \<union> set (begun (secrets ! j) t) \<subseteq> set (B ! j)"
  shows "covers secrets B (ps @ [t])"
  unfolding covers_def
proof (intro conjI allI impI ballI)
  show "length B = length secrets" by fact
  fix j n assume j: "j < length secrets" and r: "reached (secrets ! j) (ps @ [t]) n"
  have old: "reached (secrets ! j) ps m \<Longrightarrow> m \<in> set (H ! j)" for m using assms(1) j by (auto simp: covers_def)
  from reached_snoc [OF r] show "n \<in> set (B ! j)"
  proof (elim disjE exE conjE)
    assume "reached (secrets ! j) ps n"
    then show ?thesis using old assms(4) [OF j] by blast
  next
    fix m assume "reached (secrets ! j) ps m" "n = m + length t" "n < length (secrets ! j)" "starts_with (drop m (secrets ! j)) t"
    then have "n \<in> set (continued (secrets ! j) t (H ! j))" using old [of m] by (auto simp: continued_def)
    then show ?thesis using assms(4) [OF j] by blast
  next
    assume "1 \<le> n" "n \<le> length t" "n < length (secrets ! j)" "starts_with (secrets ! j) (drop (length t - n) t)"
    then have "n \<in> set (begun (secrets ! j) t)" by (auto simp: begun_def)
    then show ?thesis using assms(4) [OF j] by blast
  qed
next
  fix s assume "s \<in> set secrets"
  then obtain j where j: "j < length secrets" "s = secrets ! j" by (auto simp: in_set_conv_nth)
  show "\<not> split_across s (ps @ [t])"
  proof
    assume "split_across s (ps @ [t])"
    then consider "split_across s ps" | m where "reached s ps m" "starts_with t (drop m s)" using split_snoc by blast
    then show False
    proof cases
      case 1
      then show ?thesis using assms(1) \<open>s \<in> set secrets\<close> by (simp add: covers_def)
    next
      case 2
      then have "m \<in> set (H ! j)" "m < length s" using assms(1) j by (auto simp: covers_def reached_def)
      then show ?thesis using assms(3) [OF j(1)] 2(2) j(2) by simp
    qed
  qed
qed

lemma foldl_max: "foldl max n xs = (0 :: nat) \<longleftrightarrow> n = 0 \<and> (\<forall>x \<in> set xs. x = 0)"
  by (induction xs arbitrary: n) (auto simp: max_def)

lemma consumed_zero:
  "length H = length secrets \<Longrightarrow> consumed_by secrets H t = 0 \<longleftrightarrow>
    (\<forall>j < length secrets. \<forall>k \<in> set (H ! j). k < length (secrets ! j) \<longrightarrow> \<not> starts_with t (drop k (secrets ! j)))"
  by (fastforce simp: consumed_by_def foldl_max set_zip)

lemma mask_rests_end: "mask_rests secrets H t = Some r \<Longrightarrow> r = Inr u \<Longrightarrow> consumed_by secrets H u = 0"
proof (induction rule: mask_rests.raw_induct [rotated, consumes 1])
  case (1 f secrets H t r)
  then show ?case by (auto simp: Let_def split: if_splits option.splits sum.splits)
qed

lemma add_states_nth:
  "length H = length secrets \<Longrightarrow> j < length secrets \<Longrightarrow>
   set (add_states secrets H t ! j) = set (H ! j) \<union> set (continued (secrets ! j) t (H ! j)) \<union> set (begun (secrets ! j) t)"
  by (auto simp: add_states_def)

lemma empty_adds: "begun s [] = []" "set (continued s [] ks) \<subseteq> set ks"
  by (auto simp: begun_def continued_def filter_empty_conv)

lemma history_mask_covers:
  assumes "covers secrets H ps" "history_mask secrets H t = Some (Inr (u, B))"
  shows "covers secrets B (ps @ [u])" "length B = length H" "\<And>j. j < length secrets \<Longrightarrow> set (H ! j) \<subseteq> set (B ! j)"
proof -
  have H: "length H = length secrets" using assms(1) by (simp add: covers_def)
  have "covers secrets B (ps @ [u]) \<and> length B = length H \<and> (\<forall>j < length secrets. set (H ! j) \<subseteq> set (B ! j))"
  proof (cases "t = [] \<or> secrets = []")
    case True
    then have e: "u = t" "B = H" using assms(2) by (auto simp: history_mask_def)
    have "covers secrets H (ps @ [t])"
    proof (cases "secrets = []")
      case True
      then show ?thesis using assms(1) by (simp add: covers_def)
    next
      case False
      then have t: "t = []" using True by simp
      show ?thesis unfolding t
        by (rule covers_step [OF assms(1) H]) (use empty_adds in \<open>auto simp: starts_with_def\<close>)
    qed
    then show ?thesis using e by simp
  next
    case False
    then have r: "mask_rests secrets H t = Some (Inr u)" "B = (if u = [] then H else add_states secrets H u)"
      using assms(2) by (auto simp: history_mask_def split: option.splits sum.splits)
    have z: "\<forall>j < length secrets. \<forall>k \<in> set (H ! j). k < length (secrets ! j) \<longrightarrow> \<not> starts_with u (drop k (secrets ! j))"
      using mask_rests_end [OF r(1) refl] consumed_zero [OF H] by blast
    have len: "length B = length H" using r(2) H by (simp add: add_states_def)
    have B: "set (H ! j) \<union> set (continued (secrets ! j) u (H ! j)) \<union> set (begun (secrets ! j) u) \<subseteq> set (B ! j)"
      if "j < length secrets" for j
      using add_states_nth [OF H that, of u] r(2) empty_adds by auto
    have "covers secrets B (ps @ [u])"
      by (rule covers_step [OF assms(1)]) (use len H z B in auto)
    then show ?thesis using len B by blast
  qed
  then show "covers secrets B (ps @ [u])" "length B = length H" "\<And>j. j < length secrets \<Longrightarrow> set (H ! j) \<subseteq> set (B ! j)" by auto
qed

text \<open>States may only grow.\<close>

lemma covers_mono:
  "covers secrets B ps \<Longrightarrow> length C = length secrets \<Longrightarrow> (\<And>j. j < length secrets \<Longrightarrow> set (B ! j) \<subseteq> set (C ! j)) \<Longrightarrow> covers secrets C ps"
  by (fastforce simp: covers_def)

definition plain_text :: "jstring \<Rightarrow> bool" where
  "plain_text v \<longleftrightarrow> list_all (\<lambda>c. c < 55296) v"

lemma characters_plain: "plain_text v \<Longrightarrow> characters v = map (\<lambda>c. [c]) v"
  by (induction v rule: characters.induct) (auto simp: plain_text_def)

lemma begun_needs_first:
  assumes "n \<in> set (begun s v)"
  shows "\<exists>c \<in> set v. s \<noteq> [] \<and> c = hd s"
proof -
  have n: "1 \<le> n" "n < length s" "n \<le> length v" "prefix (drop (length v - n) v) s"
    using assms by (auto simp: begun_def starts_prefix)
  obtain c r where c: "drop (length v - n) v = c # r" using n(1,3) by (cases "drop (length v - n) v") auto
  then have "c = hd s" "s \<noteq> []" using n(4) by (auto simp: prefix_def)
  moreover have "c \<in> set v" using c by (metis in_set_dropD list.set_intros(1))
  ultimately show ?thesis by auto
qed

lemma history_advance_covers:
  assumes "covers secrets H ps" "history_advance secrets H v = Inr B" "plain_text v"
    "\<not> list_ex (\<lambda>c. c \<in> set (first_characters secrets)) (characters v)"
  shows "covers secrets B (ps @ [v])"
proof -
  have H: "length H = length secrets" using assms(1) by (simp add: covers_def)
  have z: "\<not> list_ex (\<lambda>(s, ks). list_ex (\<lambda>k. starts_with v (drop k s)) ks) (zip secrets H)"
    and B: "B = map (\<lambda>(s, ks). foldl insert_length ks (continued s v ks)) (zip secrets H)"
    using assms(2) by (auto simp: history_advance_def split: if_splits)
  show ?thesis
  proof (rule covers_step [OF assms(1)])
    show "length B = length secrets" using B H by simp
    show "\<not> starts_with v (drop k (secrets ! j))" if "j < length secrets" "k \<in> set (H ! j)" "k < length (secrets ! j)" for j k
      using z that H by (fastforce simp: list_ex_iff set_zip)
    show "set (H ! j) \<union> set (continued (secrets ! j) v (H ! j)) \<union> set (begun (secrets ! j) v) \<subseteq> set (B ! j)"
      if j: "j < length secrets" for j
    proof -
      have "begun (secrets ! j) v = []"
      proof (rule ccontr)
        assume "begun (secrets ! j) v \<noteq> []"
        then obtain n where "n \<in> set (begun (secrets ! j) v)" by (cases "begun (secrets ! j) v") auto
        then obtain c where c: "c \<in> set v" "secrets ! j \<noteq> []" "c = hd (secrets ! j)" using begun_needs_first by blast
        then have "[c] = take 1 (secrets ! j)" by (cases "secrets ! j") auto
        then have "[c] \<in> set (first_characters secrets)" using j by (auto simp: first_characters_def)
        moreover have "[c] \<in> set (characters v)" using characters_plain [OF assms(3)] c(1) by auto
        ultimately show False using assms(4) by (auto simp: list_ex_iff)
      qed
      then show ?thesis using j H by (simp add: B)
    qed
  qed
qed

lemma map2_insert:
  "length C = n \<Longrightarrow> length B = n \<Longrightarrow> j < n \<Longrightarrow> set (map2 (foldl insert_length) C B ! j) = set (C ! j) \<union> set (B ! j)"
  by simp

lemma history_branches_covers:
  assumes "covers secrets H ps" "history_branches secrets H C vs = Some (Inr B)" "length C = length secrets"
    "\<And>j. j < length secrets \<Longrightarrow> set (H ! j) \<subseteq> set (C ! j)"
  shows "length B = length secrets \<and> (\<forall>j < length secrets. set (C ! j) \<subseteq> set (B ! j)) \<and> (\<forall>v \<in> set vs. covers secrets B (ps @ [v]))"
  using assms(2-4)
proof (induction vs arbitrary: C)
  case (Cons v vs)
  have H: "length H = length secrets" using assms(1) by (simp add: covers_def)
  obtain A where A: "history_mask secrets H v = Some (Inr (v, A))"
    "history_branches secrets H (map2 (foldl insert_length) C A) vs = Some (Inr B)"
    using Cons.prems(1) by (auto split: option.splits sum.splits if_splits)
  note m = history_mask_covers [OF assms(1) A(1)]
  let ?D = "map2 (foldl insert_length) C A"
  have D: "length ?D = length secrets" "\<And>j. j < length secrets \<Longrightarrow> set (?D ! j) = set (C ! j) \<union> set (A ! j)"
    using m(2) H Cons.prems(2) by (auto simp: map2_insert)
  have "\<And>j. j < length secrets \<Longrightarrow> set (H ! j) \<subseteq> set (?D ! j)" using D(2) Cons.prems(3) by blast
  note IH = Cons.IH [OF A(2) D(1) this]
  have sub: "set (C ! j) \<union> set (A ! j) \<subseteq> set (B ! j)" if "j < length secrets" for j using IH D(2) [OF that] that by blast
  have "covers secrets B (ps @ [v])" by (rule covers_mono [OF m(1)]) (use IH sub in auto)
  then show ?case using IH sub by auto
qed simp

lemma history_immutable_covers:
  assumes "covers secrets H ps" "history_immutable secrets H forms = Some (Inr B)" "list_all plain_text forms" "v \<in> set forms"
  shows "covers secrets B (ps @ [v])"
proof (cases "\<exists>w. forms = [w]")
  case True
  then have f: "forms = [v]" using assms(4) by auto
  show ?thesis
  proof (cases "list_ex (\<lambda>c. c \<in> set (first_characters secrets)) (characters v)")
    case yes: True
    then have "history_mask secrets H v = Some (Inr (v, B))"
      using assms(2) f by (auto simp: history_immutable_def split: if_splits option.splits sum.splits)
    then show ?thesis using history_mask_covers(1) [OF assms(1)] by blast
  next
    case no: False
    then have "history_advance secrets H v = Inr B" using assms(2) f by (auto simp: history_immutable_def split: if_splits)
    then show ?thesis using history_advance_covers [OF assms(1) _ _ no] assms(3) f by simp
  qed
next
  case False
  then have "history_branches secrets H H forms = Some (Inr B)"
    using assms(2) by (auto simp: history_immutable_def split: if_splits list.splits)
  then show ?thesis using history_branches_covers [OF assms(1), of H forms B] assms(1,4) by (auto simp: covers_def)
qed

definition numerals_plain :: "observed list \<Rightarrow> bool" where
  "numerals_plain fs \<longleftrightarrow> list_all (\<lambda>f. case f of Numeral forms \<Rightarrow> list_all plain_text forms | Words _ \<Rightarrow> True) fs"

lemma map_sum_Inr: "map_sum id g z = Inr y \<longleftrightarrow> (\<exists>x. z = Inr x \<and> g x = y)"
  by (cases z) auto

lemma observe_all_covers:
  assumes "covers secrets H ps" "observe_all secrets H fs = Some (Inr (uss, B))" "numerals_plain fs"
    "list_all2 (\<lambda>p us. p \<in> set us) qs uss"
  shows "covers secrets B (ps @ qs)"
  using assms
proof (induction fs arbitrary: H ps qs uss)
  case (Cons f fs)
  obtain us C vss where o: "uss = us # vss" "observe_all secrets C fs = Some (Inr (vss, B))"
    "(case f of Words t \<Rightarrow> map_option (map_sum id (\<lambda>(u, B). ([u], B))) (history_mask secrets H t)
       | Numeral forms \<Rightarrow> map_option (map_sum id (\<lambda>B. (forms, B))) (history_immutable secrets H forms)) = Some (Inr (us, C))"
    using Cons.prems(2) by (auto split: option.splits sum.splits)
  obtain q rs where q: "qs = q # rs" "q \<in> set us" "list_all2 (\<lambda>p us. p \<in> set us) rs vss"
    using Cons.prems(4) o(1) by (auto simp: list_all2_Cons2)
  have "covers secrets C (ps @ [q])"
  proof (cases f)
    case (Words t)
    then obtain u where u: "history_mask secrets H t = Some (Inr (u, C))" "us = [u]"
      using o(3) by (auto simp: map_sum_Inr)
    then show ?thesis using history_mask_covers(1) [OF Cons.prems(1) u(1)] q(2) by simp
  next
    case (Numeral forms)
    then have "history_immutable secrets H forms = Some (Inr C)" "us = forms"
      using o(3) by (auto simp: map_sum_Inr)
    then show ?thesis
      using history_immutable_covers [OF Cons.prems(1)] q(2) Cons.prems(3) Numeral by (simp add: numerals_plain_def)
  qed
  from Cons.IH [OF this o(2) _ q(3)] have "covers secrets B ((ps @ [q]) @ rs)"
    using Cons.prems(3) by (simp add: numerals_plain_def)
  then show ?case using q(1) by simp
qed simp

text \<open>
  C22. Whatever fields are observed one after the other, texts that may be changed and numbers that may be read in
  several forms: no secret can be put together from the end of one published field, any later ones in their whole,
  and the beginning of one that follows, even if fields between them are left out.
\<close>

theorem no_secret_across_fields:
  assumes "observe_all secrets (fresh_history secrets) fs = Some (Inr (uss, H))" "numerals_plain fs"
    "list_all2 (\<lambda>p us. p \<in> set us) ps uss" "s \<in> set secrets"
  shows "\<not> split_across s ps"
  using observe_all_covers [OF covers_new assms(1-3)] assms(4) by (simp add: covers_def)

lemma no_secret_across_fields_witness:
  "\<not> split_across (js ''secret'') [js ''my sec'', js ''7'', js ''hello'', []]"
proof -
  have o: "observe_all [js ''secret''] (fresh_history [js ''secret''])
      [Words (js ''my sec''), Numeral [js ''7''], Words (js ''hello''), Words (js ''ret'')]
    = Some (Inr ([[js ''my sec''], [js ''7''], [js ''hello''], [[]]], [[3]]))"
    by code_simp
  show ?thesis
    by (rule no_secret_across_fields [OF o]) (simp_all add: numerals_plain_def plain_text_def js_simps)
qed

section \<open>The loop ends\<close>

lemma mask_clean: "\<not> contains_secret secrets t \<Longrightarrow> maskModelFragments secrets c [t] = Some (Inr [t])"
  by (subst maskModelFragments.simps) (simp add: mask_round_def)

lemma contains_drop: "contains_secret secrets (drop n t) \<Longrightarrow> contains_secret secrets t"
  unfolding contains_part within_sublist by (meson sublist_drop sublist_order.order_trans)

lemma mask_rests_clean: "\<not> contains_secret secrets t \<Longrightarrow>
    \<exists>u. mask_rests secrets H t = Some (Inr u) \<and> \<not> contains_secret secrets u"
proof (induction "length t" arbitrary: t rule: less_induct)
  case less
  show ?case
  proof (cases "consumed_by secrets H t = 0")
    case True
    then show ?thesis using less.prems by (subst mask_rests.simps) simp
  next
    case False
    define n where "n = consumed_by secrets H t"
    have c: "\<not> contains_secret secrets (drop n t)" using less.prems contains_drop by blast
    have r: "mask_rests secrets H t = mask_rests secrets H (drop n t)"
      using False mask_clean [OF c] by (subst mask_rests.simps) (simp add: n_def)
    show ?thesis
    proof (cases "t = []")
      case True
      have "consumed_by secrets H [] = 0"
        by (auto simp: consumed_by_def foldl_max starts_with_def)
      then show ?thesis using False True by simp
    next
      case t: False
      then have "length (drop n t) < length t" using False by (simp add: n_def)
      then show ?thesis using less.hyps [OF _ c] r by simp
    qed
  qed
qed

text \<open>With secrets that can be masked, a text is always masked, and no secret is left in it that was not there.\<close>

lemma history_mask_returns:
  assumes "maskable (pattern_values secrets)"
  shows "\<exists>u B. history_mask (pattern_values secrets) H t = Some (Inr (u, B)) \<and> (\<not> contains_secret secrets t \<longrightarrow> \<not> contains_secret secrets u)"
proof -
  let ?ss = "pattern_values secrets"
  have same: "contains_secret ?ss u \<longleftrightarrow> contains_secret secrets u" for u by (auto simp: contains_part set_pattern_values)
  have "\<exists>u. mask_rests ?ss H t = Some (Inr u) \<and> (\<not> contains_secret secrets t \<longrightarrow> \<not> contains_secret secrets u)"
  proof (cases "consumed_by ?ss H t = 0")
    case True
    then show ?thesis by (subst mask_rests.simps) simp
  next
    case False
    obtain q where q: "mask_string ?ss (drop (consumed_by ?ss H t) t) = Some (Inr q)" "\<not> contains_secret secrets q"
      using mask_string_returns [OF assms] by blast
    obtain ps where "maskModelFragments ?ss 0 [drop (consumed_by ?ss H t) t] = Some (Inr ps)" "hd ps = q"
      using q(1) by (auto simp: mask_string_def split: option.splits sum.splits)
    then have "mask_rests ?ss H t = mask_rests ?ss H q" using False by (subst mask_rests.simps) simp
    then show ?thesis using mask_rests_clean [of ?ss q H] q(2) same by auto
  qed
  then show ?thesis by (auto simp: history_mask_def)
qed

end
