(* ===== verification/Schema.thy ===== *)
theory Schema
  imports Json "HOL-Library.AList"
begin

text \<open>
  The schemas of the wire format (\<open>packages/cli/src/remote/schema/base.ts\<close>): the builders, the check of a
  value against a schema, and the types that TypeScript infers for what the builders make. The pattern
  of a string is tested by the platform; the test is an argument of the definitions.
\<close>

section \<open>Numbers\<close>

text \<open>The text of a number as a whole number times a power of ten.\<close>

definition read_digits :: "jstring \<Rightarrow> int" where
  "read_digits ds = foldl (\<lambda>v c. v * 10 + (c - 48)) 0 ds"

definition decimal :: "jstring \<Rightarrow> int \<times> int" where
  "decimal n =
     (let negative = (n \<noteq> [] \<and> hd n = ch CHR ''-'');
          r = (if negative then tl n else n);
          whole = takeWhile is_digit r;
          r1 = dropWhile is_digit r;
          fraction = (if r1 \<noteq> [] \<and> hd r1 = ch CHR ''.'' then takeWhile is_digit (tl r1) else []);
          r2 = (if r1 \<noteq> [] \<and> hd r1 = ch CHR ''.'' then dropWhile is_digit (tl r1) else r1);
          e = (case r2 of
              _ # s # ds \<Rightarrow> (if s = ch CHR ''-'' then - read_digits ds else read_digits (if s = ch CHR ''+'' then ds else s # ds))
            | _ \<Rightarrow> 0)
      in ((if negative then -1 else 1) * read_digits (whole @ fraction), e - int (length fraction)))"

definition at_least :: "int \<times> int \<Rightarrow> int \<Rightarrow> bool" where
  "at_least d k = (case d of (m, e) \<Rightarrow> if 0 \<le> e then k \<le> m * 10 ^ nat e else k * 10 ^ nat (- e) \<le> m)"

definition at_most :: "int \<times> int \<Rightarrow> int \<Rightarrow> bool" where
  "at_most d k = (case d of (m, e) \<Rightarrow> if 0 \<le> e then m * 10 ^ nat e \<le> k else m \<le> k * 10 ^ nat (- e))"

definition MAX_SAFE_INTEGER :: int where
  "MAX_SAFE_INTEGER = 9007199254740991"

definition safe_integer :: "int \<times> int \<Rightarrow> bool" where
  "safe_integer d =
     (at_least d (- MAX_SAFE_INTEGER) \<and> at_most d MAX_SAFE_INTEGER
      \<and> (case d of (m, e) \<Rightarrow> 0 \<le> e \<or> m mod 10 ^ nat (- e) = 0))"

section \<open>Schemas\<close>

datatype schema_type = TObject | TArray | TString | TInteger | TNumber | TBoolean | TNull

text \<open>What \<open>constrain\<close> may set.\<close>

record bounds =
  bd_minimum :: "int option"
  bd_maximum :: "int option"
  bd_minLength :: "nat option"
  bd_maxLength :: "nat option"
  bd_pattern :: "jstring option"
  bd_minItems :: "nat option"
  bd_maxItems :: "nat option"

text \<open>\<open>additionalProperties\<close> may be missing, \<open>false\<close>, or a schema.\<close>

datatype schema = Schema
  (sc_type: "schema_type option")
  (sc_enum: "json list option")
  (sc_properties: "(jstring \<times> schema) list option")
  (sc_required: "jstring list option")
  (sc_additional: "schema option option")
  (sc_items: "schema option")
  (sc_bounds: bounds)
  (sc_oneOf: "schema list option")
  (sc_anyOf: "schema list option")

definition unbounded :: bounds where
  "unbounded = \<lparr>bd_minimum = None, bd_maximum = None, bd_minLength = None, bd_maxLength = None, bd_pattern = None,
     bd_minItems = None, bd_maxItems = None\<rparr>"

definition lower :: "'a::linorder option \<Rightarrow> 'a \<Rightarrow> bool" where
  "lower b x = (case b of None \<Rightarrow> True | Some m \<Rightarrow> m \<le> x)"

definition upper :: "'a::linorder option \<Rightarrow> 'a \<Rightarrow> bool" where
  "upper b x = (case b of None \<Rightarrow> True | Some m \<Rightarrow> x \<le> m)"

lemma size_property [termination_simp]:
  "map_of ps k = Some s \<Longrightarrow> size s < Suc (size_list (size_prod (\<lambda>x. 0) size) ps)"
  by (induction ps) (auto split: if_splits)

lemma size_element [termination_simp]: "s \<in> set ss \<Longrightarrow> size (s :: schema) < Suc (size_list size ss)"
  by (induction ss) auto

fun matches :: "(jstring \<Rightarrow> jstring \<Rightarrow> bool) \<Rightarrow> json \<Rightarrow> schema \<Rightarrow> bool" where
  "matches test v (Schema type enum properties required additional items b oneOf anyOf) =
     ((case oneOf of None \<Rightarrow> True | Some ss \<Rightarrow> length (filter (\<lambda>s. matches test v s) ss) = 1)
    \<and> (case anyOf of None \<Rightarrow> True | Some ss \<Rightarrow> list_ex (\<lambda>s. matches test v s) ss)
    \<and> (case enum of None \<Rightarrow> True | Some vs \<Rightarrow> list_ex (\<lambda>x. x = v) vs)
    \<and> (case type of
         None \<Rightarrow> True
       | Some TNull \<Rightarrow> v = JNull
       | Some TBoolean \<Rightarrow> (case v of JBool _ \<Rightarrow> True | _ \<Rightarrow> False)
       | Some TString \<Rightarrow>
           (case v of
              JStr t \<Rightarrow> lower (bd_minLength b) (length t) \<and> upper (bd_maxLength b) (length t)
                \<and> (case bd_pattern b of None \<Rightarrow> True | Some p \<Rightarrow> p = [] \<or> test p t)
            | _ \<Rightarrow> False)
       | Some TInteger \<Rightarrow>
           (case v of
              JNum n \<Rightarrow> safe_integer (decimal n)
                \<and> (case bd_minimum b of None \<Rightarrow> True | Some m \<Rightarrow> at_least (decimal n) m)
                \<and> (case bd_maximum b of None \<Rightarrow> True | Some m \<Rightarrow> at_most (decimal n) m)
            | _ \<Rightarrow> False)
       | Some TNumber \<Rightarrow>
           (case v of
              JNum n \<Rightarrow> (case bd_minimum b of None \<Rightarrow> True | Some m \<Rightarrow> at_least (decimal n) m)
                \<and> (case bd_maximum b of None \<Rightarrow> True | Some m \<Rightarrow> at_most (decimal n) m)
            | _ \<Rightarrow> False)
       | Some TArray \<Rightarrow>
           (case v of
              JArr vs \<Rightarrow> lower (bd_minItems b) (length vs) \<and> upper (bd_maxItems b) (length vs)
                \<and> list_all (\<lambda>x. case items of None \<Rightarrow> True | Some s \<Rightarrow> matches test x s) vs
            | _ \<Rightarrow> False)
       | Some TObject \<Rightarrow>
           (case v of
              JObj kvs \<Rightarrow>
                (case required of None \<Rightarrow> True | Some ks \<Rightarrow> list_all (\<lambda>k. k \<in> fst ` set kvs) ks)
                \<and> list_all
                    (\<lambda>(k, x).
                       case (case properties of None \<Rightarrow> None | Some ps \<Rightarrow> map_of ps k) of
                         Some s \<Rightarrow> matches test x s
                       | None \<Rightarrow>
                           (case additional of
                              None \<Rightarrow> True
                            | Some None \<Rightarrow> False
                            | Some (Some s) \<Rightarrow> matches test x s))
                    kvs
            | _ \<Rightarrow> False)))"

declare matches.simps [simp del]

section \<open>Builders\<close>

definition plain_schema :: "schema_type option \<Rightarrow> schema" where
  "plain_schema type = Schema type None None None None None unbounded None None"

definition text_schema :: schema where "text_schema = plain_schema (Some TString)"
definition number_schema :: schema where "number_schema = plain_schema (Some TNumber)"
definition bool_schema :: schema where "bool_schema = plain_schema (Some TBoolean)"
definition nil_schema :: schema where "nil_schema = plain_schema (Some TNull)"
definition json_schema :: schema where "json_schema = plain_schema None"

definition integer_schema :: schema where
  "integer_schema = Schema (Some TInteger) None None None None None
     (unbounded\<lparr>bd_minimum := Some 0, bd_maximum := Some MAX_SAFE_INTEGER\<rparr>) None None"

definition enumeration :: "json list \<Rightarrow> schema" where
  "enumeration vs = Schema None (Some vs) None None None None unbounded None None"

definition union_schema :: "schema list \<Rightarrow> schema" where
  "union_schema ss = Schema None None None None None None unbounded None (Some ss)"

definition exclusive_schema :: "schema list \<Rightarrow> schema" where
  "exclusive_schema ss = Schema None None None None None None unbounded (Some ss) None"

definition array_schema :: "schema \<Rightarrow> schema" where
  "array_schema s = Schema (Some TArray) None None None None (Some s) unbounded None None"

definition record_schema :: "schema \<Rightarrow> schema" where
  "record_schema s = Schema (Some TObject) None None None (Some (Some s)) None unbounded None None"

text \<open>The bounds that are given take the place of those the schema had.\<close>

definition or_else :: "'a option \<Rightarrow> 'a option \<Rightarrow> 'a option" where
  "or_else a b = (case a of None \<Rightarrow> b | Some _ \<Rightarrow> a)"

definition constrain :: "schema \<Rightarrow> bounds \<Rightarrow> schema" where
  "constrain s b =
     (case s of Schema type enum properties required additional items c oneOf anyOf \<Rightarrow>
        Schema type enum properties required additional items
          \<lparr>bd_minimum = or_else (bd_minimum b) (bd_minimum c), bd_maximum = or_else (bd_maximum b) (bd_maximum c),
           bd_minLength = or_else (bd_minLength b) (bd_minLength c), bd_maxLength = or_else (bd_maxLength b) (bd_maxLength c),
           bd_pattern = or_else (bd_pattern b) (bd_pattern c), bd_minItems = or_else (bd_minItems b) (bd_minItems c),
           bd_maxItems = or_else (bd_maxItems b) (bd_maxItems c)\<rparr> oneOf anyOf)"

definition id_schema :: schema where
  "id_schema = constrain text_schema
     (unbounded\<lparr>bd_minLength := Some 1, bd_maxLength := Some 128, bd_pattern := Some (js ''^[a-zA-Z0-9_.:-]+$'')\<rparr>)"

text \<open>A key that ends in a question mark names an optional field.\<close>

definition optional_key :: "jstring \<Rightarrow> bool" where
  "optional_key k \<longleftrightarrow> k \<noteq> [] \<and> last k = ch CHR ''?''"

definition field_name :: "jstring \<Rightarrow> jstring" where
  "field_name k = (if optional_key k then butlast k else k)"

text \<open>\<open>Object.fromEntries\<close>: a later entry of the same key takes the place of an earlier one.\<close>

definition from_entries :: "(jstring \<times> 'a) list \<Rightarrow> (jstring \<times> 'a) list" where
  "from_entries es = foldl (\<lambda>m (k, x). AList.update k x m) [] es"

definition object_schema :: "(jstring \<times> schema) list \<Rightarrow> schema" where
  "object_schema fs =
     Schema (Some TObject) None
       (Some (from_entries (map (\<lambda>(k, s). (field_name k, s)) fs)))
       (Some (map fst (filter (\<lambda>(k, s). \<not> optional_key k) fs)))
       (Some None) None unbounded None None"

text \<open>One object for each definition, which names it in its tag and has its value.\<close>

definition tagged_branch :: "jstring \<Rightarrow> jstring \<Rightarrow> (jstring \<times> schema) list \<Rightarrow> jstring \<times> schema \<Rightarrow> schema" where
  "tagged_branch tag value_key fs d =
     object_schema (AList.update value_key (snd d) (AList.update tag (enumeration [JStr (fst d)]) fs))"

definition taggedUnion ::
  "(jstring \<times> schema) list \<Rightarrow> jstring \<Rightarrow> jstring \<Rightarrow> (jstring \<times> schema) list \<Rightarrow> schema" where
  "taggedUnion defs tag value_key fs = exclusive_schema (map (tagged_branch tag value_key fs) defs)"

section \<open>What the builders accept\<close>

lemma update_new: "k \<notin> fst ` set al \<Longrightarrow> AList.update k x al = al @ [(k, x)]"
  by (induction al) auto

lemma from_entries_distinct: "distinct (map fst es) \<Longrightarrow> from_entries es = es"
proof (induction es rule: rev_induct)
  case (snoc e es)
  then show ?case by (cases e) (simp add: from_entries_def update_new)
qed (simp add: from_entries_def)

lemma matches_plain [simp]:
  "matches test v text_schema \<longleftrightarrow> (\<exists>t. v = JStr t)"
  "matches test v number_schema \<longleftrightarrow> (\<exists>n. v = JNum n)"
  "matches test v bool_schema \<longleftrightarrow> (\<exists>b. v = JBool b)"
  "matches test v nil_schema \<longleftrightarrow> v = JNull"
  "matches test v json_schema"
  by (cases v; simp add: matches.simps text_schema_def number_schema_def bool_schema_def nil_schema_def json_schema_def
      plain_schema_def unbounded_def lower_def upper_def)+

lemma matches_enumeration [simp]: "matches test v (enumeration vs) \<longleftrightarrow> v \<in> set vs"
  by (auto simp: matches.simps enumeration_def list_ex_iff)

lemma matches_union [simp]: "matches test v (union_schema ss) \<longleftrightarrow> (\<exists>s \<in> set ss. matches test v s)"
  by (simp add: matches.simps union_schema_def list_ex_iff)

lemma matches_exclusive [simp]:
  "matches test v (exclusive_schema ss) \<longleftrightarrow> length (filter (matches test v) ss) = 1"
  by (simp add: matches.simps exclusive_schema_def)

lemma matches_array [simp]:
  "matches test v (array_schema s) \<longleftrightarrow> (\<exists>vs. v = JArr vs \<and> list_all (\<lambda>x. matches test x s) vs)"
  by (cases v) (simp_all add: matches.simps array_schema_def unbounded_def lower_def upper_def)

lemma matches_record [simp]:
  "matches test v (record_schema s) \<longleftrightarrow> (\<exists>kvs. v = JObj kvs \<and> list_all (\<lambda>(k, x). matches test x s) kvs)"
  by (cases v) (simp_all add: matches.simps record_schema_def)

lemma matches_object:
  assumes "distinct (map (\<lambda>(k, s). field_name k) fs)"
  shows "matches test v (object_schema fs) \<longleftrightarrow>
    (\<exists>kvs. v = JObj kvs
       \<and> (\<forall>(k, s) \<in> set fs. \<not> optional_key k \<longrightarrow> k \<in> fst ` set kvs)
       \<and> (\<forall>(n, x) \<in> set kvs. \<exists>(k, s) \<in> set fs. field_name k = n \<and> matches test x s))"
proof -
  let ?ps = "map (\<lambda>(k, s). (field_name k, s)) fs"
  have d: "distinct (map fst ?ps)" using assms by (simp add: comp_def case_prod_unfold)
  have mem: "map_of ?ps n = Some s" if "(k, s) \<in> set fs" "field_name k = n" for k s n
    using that by (intro map_of_is_SomeI [OF d]) force
  have entry: "(case map_of ?ps n of Some s \<Rightarrow> matches test x s | None \<Rightarrow> False) \<longleftrightarrow>
      (\<exists>(k, s) \<in> set fs. field_name k = n \<and> matches test x s)" (is "?l \<longleftrightarrow> ?r") for n x
  proof
    assume ?l
    then obtain s where s: "map_of ?ps n = Some s" "matches test x s" by (auto split: option.splits)
    from map_of_SomeD [OF s(1)] obtain k where "(k, s) \<in> set fs" "field_name k = n" by auto
    then show ?r using s(2) by blast
  next
    assume ?r
    then obtain k s where "(k, s) \<in> set fs" "field_name k = n" "matches test x s" by blast
    then show ?l using mem [of k s n] by simp
  qed
  have "matches test (JObj kvs) (object_schema fs) \<longleftrightarrow>
      list_all (\<lambda>k. k \<in> fst ` set kvs) (map fst (filter (\<lambda>(k, s). \<not> optional_key k) fs))
      \<and> list_all (\<lambda>(n, x). case map_of ?ps n of Some s \<Rightarrow> matches test x s | None \<Rightarrow> False) kvs" for kvs
    by (simp add: matches.simps object_schema_def from_entries_distinct [OF d] cong: option.case_cong)
  then have obj: "matches test (JObj kvs) (object_schema fs) \<longleftrightarrow>
      (\<forall>(k, s) \<in> set fs. \<not> optional_key k \<longrightarrow> k \<in> fst ` set kvs)
      \<and> (\<forall>(n, x) \<in> set kvs. \<exists>(k, s) \<in> set fs. field_name k = n \<and> matches test x s)" for kvs
    unfolding entry by (auto simp: list_all_iff)
  show ?thesis
  proof (cases "\<exists>kvs. v = JObj kvs")
    case True
    then obtain kvs where v: "v = JObj kvs" ..
    show ?thesis unfolding v json.inject obj by (simp only: simp_thms)
  next
    case False
    then show ?thesis by (cases v) (simp_all add: matches.simps object_schema_def)
  qed
qed

section \<open>Types\<close>

text \<open>What an author of schemas may write, and the type that is inferred for it.\<close>

datatype author =
  AText | ANumber | ABool | ANil | AInteger | AId | AJson
| AEnum "json list"
| AUnion "author list"
| AExclusive "author list"
| AArray author
| ARecord author
| AConstrain author bounds
| AObject "(jstring \<times> author) list"
| ATagged "(jstring \<times> author) list" jstring jstring "(jstring \<times> author) list"

datatype ts =
  TsString | TsNumber | TsBoolean | TsNull | TsJson
| TsLiteral "json list"
| TsUnion "ts list"
| TsBoth "ts list"
| TsArray ts
| TsRecord ts
| TsFields "(jstring \<times> bool \<times> ts) list" \<comment> \<open>name, optional, type\<close>

fun schema_of :: "author \<Rightarrow> schema" where
  "schema_of AText = text_schema"
| "schema_of ANumber = number_schema"
| "schema_of ABool = bool_schema"
| "schema_of ANil = nil_schema"
| "schema_of AInteger = integer_schema"
| "schema_of AId = id_schema"
| "schema_of AJson = json_schema"
| "schema_of (AEnum vs) = enumeration vs"
| "schema_of (AUnion xs) = union_schema (map schema_of xs)"
| "schema_of (AExclusive xs) = exclusive_schema (map schema_of xs)"
| "schema_of (AArray x) = array_schema (schema_of x)"
| "schema_of (ARecord x) = record_schema (schema_of x)"
| "schema_of (AConstrain x b) = constrain (schema_of x) b"
| "schema_of (AObject fs) = object_schema (map (\<lambda>(k, x). (k, schema_of x)) fs)"
| "schema_of (ATagged defs tag value_key fs) =
     taggedUnion (map (\<lambda>(k, x). (k, schema_of x)) defs) tag value_key (map (\<lambda>(k, x). (k, schema_of x)) fs)"

definition object_type :: "(jstring \<times> ts) list \<Rightarrow> ts" where
  "object_type fs = TsFields (map (\<lambda>(k, t). (field_name k, optional_key k, t)) fs)"

fun type_of :: "author \<Rightarrow> ts" where
  "type_of AText = TsString"
| "type_of ANumber = TsNumber"
| "type_of ABool = TsBoolean"
| "type_of ANil = TsNull"
| "type_of AInteger = TsNumber"
| "type_of AId = TsString"
| "type_of AJson = TsJson"
| "type_of (AEnum vs) = TsLiteral vs"
| "type_of (AUnion xs) = TsUnion (map type_of xs)"
| "type_of (AExclusive xs) = TsUnion (map type_of xs)"
| "type_of (AArray x) = TsArray (type_of x)"
| "type_of (ARecord x) = TsRecord (type_of x)"
| "type_of (AConstrain x b) = type_of x"
| "type_of (AObject fs) = object_type (map (\<lambda>(k, x). (k, type_of x)) fs)"
| "type_of (ATagged defs tag value_key fs) =
     TsUnion (map (\<lambda>(k, x). TsBoth [object_type (map (\<lambda>(k, x). (k, type_of x)) fs),
         TsFields [(tag, False, TsLiteral [JStr k])], TsFields [(value_key, False, type_of x)]]) defs)"

fun inhabits :: "json \<Rightarrow> ts \<Rightarrow> bool" where
  "inhabits v TsString = (case v of JStr _ \<Rightarrow> True | _ \<Rightarrow> False)"
| "inhabits v TsNumber = (case v of JNum _ \<Rightarrow> True | _ \<Rightarrow> False)"
| "inhabits v TsBoolean = (case v of JBool _ \<Rightarrow> True | _ \<Rightarrow> False)"
| "inhabits v TsNull = (v = JNull)"
| "inhabits v TsJson = True"
| "inhabits v (TsLiteral vs) = list_ex (\<lambda>x. x = v) vs"
| "inhabits v (TsUnion us) = list_ex (inhabits v) us"
| "inhabits v (TsBoth us) = list_all (inhabits v) us"
| "inhabits v (TsArray t) = (case v of JArr vs \<Rightarrow> list_all (\<lambda>x. inhabits x t) vs | _ \<Rightarrow> False)"
| "inhabits v (TsRecord t) = (case v of JObj kvs \<Rightarrow> list_all (\<lambda>(k, x). inhabits x t) kvs | _ \<Rightarrow> False)"
| "inhabits v (TsFields fs) =
     (case v of
        JObj kvs \<Rightarrow>
          list_all (\<lambda>(k, optional, t). case map_of kvs k of None \<Rightarrow> optional | Some x \<Rightarrow> inhabits x t) fs
      | _ \<Rightarrow> False)"

text \<open>
  Fields of one object have different names, and the tag and the value of a union are no optional fields
  and not among the others.
\<close>

fun authored :: "author \<Rightarrow> bool" where
  "authored (AUnion xs) = list_all authored xs"
| "authored (AExclusive xs) = list_all authored xs"
| "authored (AArray x) = authored x"
| "authored (ARecord x) = authored x"
| "authored (AConstrain x b) = authored x"
| "authored (AObject fs) = (distinct (map (\<lambda>(k, x). field_name k) fs) \<and> list_all (\<lambda>(k, x). authored x) fs)"
| "authored (ATagged defs tag value_key fs) =
     (distinct (map (\<lambda>(k, x). field_name k) fs) \<and> list_all (\<lambda>(k, x). authored x) fs
      \<and> list_all (\<lambda>(k, x). authored x) defs \<and> tag \<noteq> value_key \<and> \<not> optional_key tag \<and> \<not> optional_key value_key
      \<and> list_all (\<lambda>(k, x). field_name k \<noteq> tag \<and> field_name k \<noteq> value_key) fs)"
| "authored x = True"

text \<open>A schema with other bounds.\<close>

definition rebound :: "schema \<Rightarrow> bounds \<Rightarrow> schema" where
  "rebound s b =
     (case s of Schema type enum properties required additional items _ oneOf anyOf \<Rightarrow>
        Schema type enum properties required additional items b oneOf anyOf)"

lemma constrain_rebound: "rebound (constrain s b) c = rebound s c" "\<exists>c. constrain s b = rebound s c"
  by (cases s; auto simp: rebound_def constrain_def)+

lemma rebound_self: "rebound s (sc_bounds s) = s"
  by (cases s) (simp add: rebound_def)

lemma matches_rebound:
  "matches test v (rebound (enumeration vs) b) \<longleftrightarrow> matches test v (enumeration vs)"
  "matches test v (rebound (union_schema ss) b) \<longleftrightarrow> matches test v (union_schema ss)"
  "matches test v (rebound (exclusive_schema ss) b) \<longleftrightarrow> matches test v (exclusive_schema ss)"
  "matches test v (rebound (record_schema s) b) \<longleftrightarrow> matches test v (record_schema s)"
  "matches test v (rebound (object_schema fs) b) \<longleftrightarrow> matches test v (object_schema fs)"
  "matches test v (rebound nil_schema b) \<longleftrightarrow> matches test v nil_schema"
  "matches test v (rebound bool_schema b) \<longleftrightarrow> matches test v bool_schema"
  by (simp_all add: rebound_def enumeration_def union_schema_def exclusive_schema_def record_schema_def object_schema_def
      nil_schema_def bool_schema_def plain_schema_def matches.simps)

lemma rebound_excludes:
  "matches test v (rebound text_schema b) \<Longrightarrow> matches test v text_schema"
  "matches test v (rebound number_schema b) \<Longrightarrow> matches test v number_schema"
  "matches test v (rebound integer_schema b) \<Longrightarrow> matches test v number_schema"
  "matches test v (rebound (array_schema s) b) \<Longrightarrow> matches test v (array_schema s)"
  by (cases v; simp add: rebound_def matches.simps text_schema_def number_schema_def integer_schema_def plain_schema_def
      array_schema_def lower_def upper_def unbounded_def)+

lemma object_inhabits:
  assumes "distinct (map (\<lambda>(k, x). field_name k) fs)"
    and typed: "\<And>k x v. (k, x) \<in> set fs \<Longrightarrow> matches test v (schema_of x) \<Longrightarrow> inhabits v (type_of x)"
    and "matches test v (object_schema (map (\<lambda>(k, x). (k, schema_of x)) fs))"
  shows "inhabits v (object_type (map (\<lambda>(k, x). (k, type_of x)) fs))"
proof -
  let ?fs = "map (\<lambda>(k, x). (k, schema_of x)) fs"
  have d: "distinct (map (\<lambda>(k, s). field_name k) ?fs)" using assms(1) by (simp add: comp_def case_prod_unfold)
  obtain kvs where v: "v = JObj kvs" "\<forall>(k, s) \<in> set ?fs. \<not> optional_key k \<longrightarrow> k \<in> fst ` set kvs"
    "\<forall>(n, x) \<in> set kvs. \<exists>(k, s) \<in> set ?fs. field_name k = n \<and> matches test x s"
    using assms(3) unfolding matches_object [OF d] by blast
  have "case map_of kvs (field_name k) of None \<Rightarrow> optional_key k | Some y \<Rightarrow> inhabits y (type_of x)"
    if kx: "(k, x) \<in> set fs" for k x
  proof (cases "map_of kvs (field_name k)")
    case None
    then have "field_name k \<notin> fst ` set kvs" by (simp add: map_of_eq_None_iff)
    then have "optional_key k" using v(2) kx by (force simp: field_name_def)
    then show ?thesis using None by simp
  next
    case (Some y)
    then have "(field_name k, y) \<in> set kvs" by (rule map_of_SomeD)
    then obtain k' x' where x': "(k', x') \<in> set fs" "field_name k' = field_name k" "matches test y (schema_of x')"
      using v(3) by fastforce
    have "(k', x') = (k, x)"
      using assms(1) kx x'(1,2) by (auto simp: distinct_map dest!: inj_onD [of _ _ "(k', x')" "(k, x)"])
    then show ?thesis using typed [OF x'(1,3)] Some by simp
  qed
  then show ?thesis using v(1) by (auto simp: object_type_def list_all_iff)
qed

text \<open>A branch of a tagged union is the object of its fields, the tag and the value.\<close>

lemma update_two:
  assumes "tag \<notin> fst ` set fs" "value_key \<notin> fst ` set fs" "tag \<noteq> value_key"
  shows "AList.update value_key y (AList.update tag x fs) = fs @ [(tag, x), (value_key, y)]"
  using assms by (simp add: update_new)

lemma tagged_branch_object:
  assumes "authored (ATagged defs tag value_key fs)"
  shows "tagged_branch tag value_key (map (\<lambda>(k, x). (k, schema_of x)) fs) (k, schema_of x) =
      schema_of (AObject (fs @ [(tag, AEnum [JStr k]), (value_key, x)]))"
    and "(k, x) \<in> set defs \<Longrightarrow> authored (AObject (fs @ [(tag, AEnum [JStr k]), (value_key, x)]))"
proof -
  have keys: "tag \<notin> fst ` set fs" "value_key \<notin> fst ` set fs" "tag \<noteq> value_key"
    using assms by (auto simp: list_all_iff field_name_def)
  have "fst ` set (map (\<lambda>(k, x). (k, schema_of x)) fs) = fst ` set fs" by force
  then show "tagged_branch tag value_key (map (\<lambda>(k, x). (k, schema_of x)) fs) (k, schema_of x) =
      schema_of (AObject (fs @ [(tag, AEnum [JStr k]), (value_key, x)]))"
    using keys by (simp add: tagged_branch_def update_two)
  show "(k, x) \<in> set defs \<Longrightarrow> authored (AObject (fs @ [(tag, AEnum [JStr k]), (value_key, x)]))"
    using assms by (auto simp: list_all_iff field_name_def)
qed

lemma object_type_append:
  "inhabits v (object_type (fs @ gs)) \<longleftrightarrow> inhabits v (object_type fs) \<and> inhabits v (object_type gs)"
  by (cases v) (auto simp: object_type_def)

lemma one_field_type: "\<not> optional_key k \<Longrightarrow> object_type [(k, t)] = TsFields [(k, False, t)]"
  by (simp add: object_type_def field_name_def)

lemma one_in_filter: "length (filter P xs) = 1 \<Longrightarrow> \<exists>x \<in> set xs. P x"
  by (induction xs) (auto split: if_splits)

lemma one_in_filter_iff:
  "distinct (map f xs) \<Longrightarrow> (\<And>x. x \<in> set xs \<Longrightarrow> P x \<Longrightarrow> f x = k) \<Longrightarrow> length (filter P xs) = 1 \<longleftrightarrow> (\<exists>x \<in> set xs. P x)"
proof (induction xs)
  case (Cons x xs)
  show ?case
  proof (cases "P x")
    case True
    then have "\<not> P y" if "y \<in> set xs" for y using Cons.prems that by (metis distinct.simps(2) image_eqI list.set_intros list.simps(9) set_map)
    then show ?thesis using True by simp
  next
    case False
    then show ?thesis using Cons by simp
  qed
qed simp

lemma typed_rebound:
  "authored a \<Longrightarrow> matches test v (rebound (schema_of a) b) \<Longrightarrow> inhabits v (type_of a)"
proof (induction a arbitrary: v b)
  case (AConstrain a c)
  then show ?case by (simp add: constrain_rebound(1))
next
  case (AObject fs)
  have "inhabits w (type_of x)" if "(k, x) \<in> set fs" "matches test w (schema_of x)" for k x w
    using AObject.IH [of "(k, x)" x w "sc_bounds (schema_of x)"] AObject.prems(1) that
    by (auto simp: list_all_iff rebound_self)
  then show ?case using AObject.prems by (auto simp: matches_rebound intro!: object_inhabits)
next
  case (ATagged defs tag value_key fs)
  let ?fs = "map (\<lambda>(k, x). (k, schema_of x)) fs"
  have "matches test v (exclusive_schema (map (tagged_branch tag value_key ?fs) (map (\<lambda>(k, x). (k, schema_of x)) defs)))"
    using ATagged.prems(2) by (simp add: taggedUnion_def matches_rebound)
  then obtain s where "s \<in> set (map (tagged_branch tag value_key ?fs) (map (\<lambda>(k, x). (k, schema_of x)) defs))" "matches test v s"
    using one_in_filter unfolding matches_exclusive by blast
  then obtain k x where kx: "(k, x) \<in> set defs" "matches test v (tagged_branch tag value_key ?fs (k, schema_of x))"
    by auto
  let ?all = "fs @ [(tag, AEnum [JStr k]), (value_key, x)]"
  have typed: "inhabits w (type_of y)" if mem: "(n, y) \<in> set ?all" "matches test w (schema_of y)" for n y w
  proof -
    consider "(n, y) \<in> set fs" | "y = AEnum [JStr k]" | "y = x" using mem(1) by auto
    then show ?thesis
    proof cases
      case 1
      then show ?thesis
        using ATagged.IH(2) [of "(n, y)" y w "sc_bounds (schema_of y)"] ATagged.prems(1) mem(2)
        by (auto simp: list_all_iff rebound_self)
    next
      case 3
      then show ?thesis
        using ATagged.IH(1) [of "(k, x)" x w "sc_bounds (schema_of x)"] ATagged.prems(1) mem(2) kx(1)
        by (auto simp: list_all_iff rebound_self)
    qed (use mem(2) in auto)
  qed
  have "inhabits v (object_type (map (\<lambda>(k, x). (k, type_of x)) ?all))"
    using tagged_branch_object [OF ATagged.prems(1), of k x] kx typed by (intro object_inhabits) auto
  then have "inhabits v (object_type (map (\<lambda>(k, x). (k, type_of x)) fs))"
    "inhabits v (object_type [(tag, TsLiteral [JStr k])])" "inhabits v (object_type [(value_key, type_of x)])"
    using object_type_append [of v "map (\<lambda>(k, x). (k, type_of x)) fs" "[(tag, TsLiteral [JStr k]), (value_key, type_of x)]"]
      object_type_append [of v "[(tag, TsLiteral [JStr k])]" "[(value_key, type_of x)]"] by simp_all
  then have "inhabits v (TsBoth [object_type (map (\<lambda>(k, x). (k, type_of x)) fs),
      TsFields [(tag, False, TsLiteral [JStr k])], TsFields [(value_key, False, type_of x)]])"
    using ATagged.prems(1) by (simp add: one_field_type)
  then show ?case using kx(1) by (auto simp: list_ex_iff intro!: bexI [OF _ kx(1)])
next
  case AId
  then show ?case using rebound_excludes(1) [of test v b] by (auto simp: id_schema_def constrain_rebound)
next
  case (AUnion xs)
  then obtain x where "x \<in> set xs" "authored x" "matches test v (schema_of x)"
    by (auto simp: matches_rebound list_all_iff)
  then show ?case using AUnion.IH [of x v "sc_bounds (schema_of x)"] by (auto simp: rebound_self list_ex_iff)
next
  case (AExclusive xs)
  have "matches test v (exclusive_schema (map schema_of xs))" using AExclusive.prems(2) by (simp add: matches_rebound)
  then obtain s where "s \<in> set (map schema_of xs)" "matches test v s" using one_in_filter unfolding matches_exclusive by blast
  then obtain x where "x \<in> set xs" "authored x" "matches test v (schema_of x)"
    using AExclusive.prems(1) by (auto simp: list_all_iff)
  then show ?case using AExclusive.IH [of x v "sc_bounds (schema_of x)"] by (auto simp: rebound_self list_ex_iff)
next
  case (AArray a)
  have "inhabits x (type_of a)" if "matches test x (schema_of a)" for x
    using AArray.IH [of x "sc_bounds (schema_of a)"] AArray.prems(1) that by (simp add: rebound_self)
  then show ?case using rebound_excludes(4) [OF AArray.prems(2) [unfolded schema_of.simps]] by (auto simp: list_all_iff)
next
  case (ARecord a)
  have "inhabits x (type_of a)" if "matches test x (schema_of a)" for x
    using ARecord.IH [of x "sc_bounds (schema_of a)"] ARecord.prems(1) that by (simp add: rebound_self)
  then show ?case using ARecord.prems(2) by (fastforce simp: matches_rebound list_all_iff)
qed (auto simp: matches_rebound list_all_iff list_ex_iff dest!: rebound_excludes)

section \<open>Properties\<close>

text \<open>
  C17. Whatever a schema accepts has the type that is inferred for it: required fields are there, each
  field, element and branch is of its type, for every schema that the builders make of fields with
  different names.
\<close>

theorem matches_typed:
  assumes "authored a" "matches test v (schema_of a)"
  shows "inhabits v (type_of a)"
  using typed_rebound [OF assms(1), of test v "sc_bounds (schema_of a)"] assms(2) by (simp add: rebound_self)

definition release_author :: author where
  "release_author =
     ATagged [(js ''stop'', AObject [(js ''at'', AInteger), (js ''why?'', AText)]), (js ''go'', ANil)]
       (js ''kind'') (js ''params'') [(js ''v'', AEnum [JNum (js ''1'')])]"

definition release_value :: json where
  "release_value = JObj [(js ''v'', JNum (js ''1'')), (js ''kind'', JStr (js ''stop'')),
     (js ''params'', JObj [(js ''at'', JNum (js ''12e1''))])]"

lemma matches_typed_witness: "inhabits release_value (type_of release_author)"
proof (rule matches_typed)
  show "authored release_author" by code_simp
  show "matches (\<lambda>p t. True) release_value (schema_of release_author)" by code_simp
qed

text \<open>
  C18. A tagged union accepts a value exactly when its tag names one of the definitions and the value fits
  the object of that definition: the tag decides, and no other branch can accept what this one rejects.
\<close>

lemma branch_tag:
  assumes "distinct (map (\<lambda>(k, s). field_name k) fs)" "tag \<noteq> value_key" "\<not> optional_key tag" "\<not> optional_key value_key"
    "list_all (\<lambda>(k, s). field_name k \<noteq> tag \<and> field_name k \<noteq> value_key) fs"
    "matches test v (tagged_branch tag value_key fs d)"
  shows "\<exists>kvs. v = JObj kvs \<and> map_of kvs tag = Some (JStr (fst d))"
proof -
  have keys: "tag \<notin> fst ` set fs" "value_key \<notin> fst ` set fs" "tag \<notin> field_name ` fst ` set fs" "value_key \<notin> field_name ` fst ` set fs"
    using assms(3,4,5) by (auto simp: list_all_iff field_name_def split: if_splits)
  let ?all = "fs @ [(tag, enumeration [JStr (fst d)]), (value_key, snd d)]"
  have names: "field_name tag = tag" "field_name value_key = value_key" using assms(3,4) by (simp_all add: field_name_def)
  then have dist: "distinct (map (\<lambda>(k, s). field_name k) ?all)"
    using assms(1,2,5) by (auto simp: list_all_iff)
  have "matches test v (object_schema ?all)"
    using assms(6) keys(1,2) assms(2) by (simp add: tagged_branch_def update_two)
  then obtain kvs where kvs: "v = JObj kvs" "\<forall>(k, s) \<in> set ?all. \<not> optional_key k \<longrightarrow> k \<in> fst ` set kvs"
    "\<forall>(n, x) \<in> set kvs. \<exists>(k, s) \<in> set ?all. field_name k = n \<and> matches test x s"
    unfolding matches_object [OF dist] by blast
  then have "tag \<in> fst ` set kvs" using assms(3) by fastforce
  then obtain x where x: "map_of kvs tag = Some x" by (metis map_of_eq_None_iff not_None_eq)
  then obtain k s where ks: "(k, s) \<in> set ?all" "field_name k = tag" "matches test x s"
    using kvs(3) map_of_SomeD [OF x] by fastforce
  have "(k, s) \<notin> set fs" using ks(2) keys(3) by force
  then have "s = enumeration [JStr (fst d)]" using ks(1,2) names assms(2) by auto
  then have "matches test x (enumeration [JStr (fst d)])" using ks(3) by simp
  then show ?thesis using kvs(1) x by simp
qed

theorem tag_decides:
  assumes "distinct (map (\<lambda>(k, s). field_name k) fs)" "distinct (map fst defs)" "tag \<noteq> value_key"
    "\<not> optional_key tag" "\<not> optional_key value_key"
    "list_all (\<lambda>(k, s). field_name k \<noteq> tag \<and> field_name k \<noteq> value_key) fs"
  shows "matches test v (taggedUnion defs tag value_key fs) \<longleftrightarrow>
    (case v of
       JObj kvs \<Rightarrow>
         (case map_of kvs tag of
            Some (JStr k) \<Rightarrow>
              (case map_of defs k of
                 Some s \<Rightarrow> matches test v (tagged_branch tag value_key fs (k, s))
               | None \<Rightarrow> False)
          | _ \<Rightarrow> False)
     | _ \<Rightarrow> False)"
proof -
  let ?P = "\<lambda>d. matches test v (tagged_branch tag value_key fs d)"
  note tagged = branch_tag [OF assms(1,3-6)]
  have "matches test v (taggedUnion defs tag value_key fs) \<longleftrightarrow> length (filter ?P defs) = 1"
    by (simp add: taggedUnion_def filter_map comp_def)
  also have "\<dots> \<longleftrightarrow> (\<exists>d \<in> set defs. ?P d)"
  proof (cases "\<exists>kvs k. v = JObj kvs \<and> map_of kvs tag = Some (JStr k)")
    case True
    then obtain kvs k where k: "v = JObj kvs" "map_of kvs tag = Some (JStr k)" by blast
    have "fst d = k" if "?P d" for d using tagged [OF that] k by simp
    then show ?thesis using assms(2) by (intro one_in_filter_iff [of fst])
  next
    case False
    then have "\<not> ?P d" for d using tagged [of test v d] by blast
    then show ?thesis by simp
  qed
  also have "\<dots> \<longleftrightarrow> (case v of JObj kvs \<Rightarrow> (case map_of kvs tag of Some (JStr k) \<Rightarrow>
      (case map_of defs k of Some s \<Rightarrow> ?P (k, s) | None \<Rightarrow> False) | _ \<Rightarrow> False) | _ \<Rightarrow> False)" (is "?l \<longleftrightarrow> ?r")
  proof
    assume ?l
    then obtain k s where d: "(k, s) \<in> set defs" "?P (k, s)" by auto
    obtain kvs where kvs: "v = JObj kvs" "map_of kvs tag = Some (JStr k)" using tagged [OF d(2)] by auto
    moreover have "map_of defs k = Some s" using d(1) assms(2) by simp
    ultimately show ?r using d(2) by simp
  next
    assume ?r
    then obtain kvs where kvs: "v = JObj kvs" by (cases v) auto
    with \<open>?r\<close> obtain k where k: "map_of kvs tag = Some (JStr k)" by (auto split: option.splits json.splits)
    with \<open>?r\<close> kvs obtain s where "map_of defs k = Some s" "?P (k, s)" by (auto split: option.splits)
    then show ?l by (blast dest: map_of_SomeD)
  qed
  finally show ?thesis .
qed

lemma tag_decides_witness:
  "\<not> matches (\<lambda>p t. True) (JObj [(js ''kind'', JStr (js ''go'')), (js ''params'', JStr (js ''x''))])
     (taggedUnion [(js ''go'', nil_schema), (js ''say'', text_schema)] (js ''kind'') (js ''params'') [])"
  by (subst tag_decides) code_simp+

end
