(* ===== verification/Gate.thy ===== *)
theory Gate
  imports Prelude
begin

text \<open>
  The gate of a file lock (\<open>packages/core/src/file-lock-gate.ts\<close>, \<open>file-lock-owner.ts\<close>): a directory with the
  record of its owner, published by a rename and taken from a dead owner by another. Processes run at
  the same time; every call of the file system is a step of its own, and may fail. The parent directory
  stays what it is, so the relocation of released gates is left out.
\<close>

section \<open>Owner records\<close>

record lease_domain =
  ld_win32 :: bool
  ld_host :: "jstring option"
  ld_legacyHost :: "jstring option"
  ld_boot :: "jstring option"
  ld_pidNamespace :: "jstring option"

record owner =
  ow_v :: int
  ow_pid :: int
  ow_nonce :: jstring
  ow_createdAt :: int
  ow_host :: "jstring option"
  ow_boot :: "jstring option"
  ow_pidNamespace :: "jstring option"

record process_id =
  id_pid :: int
  id_domain :: lease_domain

definition leaseOwner :: "process_id \<Rightarrow> jstring \<Rightarrow> int \<Rightarrow> owner" where
  "leaseOwner me nonce time =
     \<lparr>ow_v = 2, ow_pid = id_pid me, ow_nonce = nonce, ow_createdAt = time, ow_host = ld_host (id_domain me),
      ow_boot = ld_boot (id_domain me), ow_pidNamespace = ld_pidNamespace (id_domain me)\<rparr>"

datatype owner_state = Live | Dead | Unknown

definition positive_safe :: "int \<Rightarrow> bool" where
  "positive_safe n \<longleftrightarrow> 0 < n \<and> n \<le> 9007199254740991"

definition lower_hex :: "cu \<Rightarrow> bool" where
  "lower_hex c \<longleftrightarrow> is_digit c \<or> (97 \<le> c \<and> c \<le> 102)"

definition is_uuid :: "jstring \<Rightarrow> bool" where
  "is_uuid t \<longleftrightarrow>
     (let ps = split_by (\<lambda>c. c = ch CHR ''-'') t
      in map length ps = [8, 4, 4, 4, 12] \<and> list_all (list_all lower_hex) ps)"

text \<open>Whether a record comes from where process numbers are those of the local domain.\<close>

definition same_host :: "lease_domain \<Rightarrow> jstring option \<Rightarrow> bool" where
  "same_host local h =
     (case h of
        None \<Rightarrow> False
      | Some t \<Rightarrow> t \<noteq> [] \<and> (h = ld_host local \<or> (ld_win32 local \<and> h = ld_legacyHost local)))"

definition same_domain :: "lease_domain \<Rightarrow> owner \<Rightarrow> bool" where
  "same_domain local r \<longleftrightarrow>
     same_host local (ow_host r) \<and> ow_boot r = ld_boot local \<and> ow_pidNamespace r = ld_pidNamespace local"

text \<open>The answer of the system on a process number is an argument.\<close>

definition ownerState :: "process_id \<Rightarrow> owner_state \<Rightarrow> owner \<Rightarrow> owner_state" where
  "ownerState me probed r =
     (if ow_v r \<noteq> 2 then Unknown
      else if \<not> positive_safe (ow_pid r) \<or> \<not> is_uuid (ow_nonce r) \<or> \<not> positive_safe (ow_createdAt r) then Unknown
      else if \<not> same_host (id_domain me) (ow_host r) then Unknown
      else if ow_boot r \<noteq> ld_boot (id_domain me) then Unknown
      else if ow_pidNamespace r \<noteq> ld_pidNamespace (id_domain me) then Unknown
      else if ow_pid r = id_pid me then Live else probed)"

section \<open>The file system and the processes\<close>

text \<open>What stands at the path of the gate: a directory whose owner record can be read, or not.\<close>

record node =
  nd_ino :: nat
  nd_owner :: "owner option"

datatype fault = Enoent | Sharing | Contention | OtherFault

record owned_gate =
  og_ino :: nat
  og_owner :: owner
  og_requested :: bool
  og_retired :: bool

datatype result = GotGate | NoGate | Threw

text \<open>Where a process is in \<open>takeGate\<close>, or in \<open>retire\<close> with the scan that goes on after it.\<close>

datatype pc =
  Idle
| Scan "jstring list"
| LookGate
| ReadGate
| Judge owner
| Recheck owner
| Bury owner
| Stage
| CheckFree node
| Publish node
| Take node
| RetireLook jstring "jstring list option"
| RetireRead jstring "jstring list option"
| RetireMove jstring "jstring list option"
| RetireRemove jstring "jstring list option"

record proc =
  pr_pc :: pc
  pr_pending :: "owned_gate list"
  pr_result :: "result option"
  pr_drawn :: "jstring set" \<comment> \<open>the nonces it has drawn\<close>

record gate_world =
  wd_gate :: "node option"
  wd_tombstones :: "jstring set"
  wd_alive :: "nat set"
  wd_procs :: "nat \<Rightarrow> proc"

text \<open>What a step is told: that a call succeeds or fails, or what it answers.\<close>

datatype gate_outcome =
  Done
| Fault fault
| Answer owner_state
| Drawn jstring int nat \<comment> \<open>nonce, time, directory\<close>
| CallTake
| CallRelease jstring
| Retry jstring
| Attempted

definition nonce_of :: "owned_gate \<Rightarrow> jstring" where
  "nonce_of g = ow_nonce (og_owner g)"

definition find_gate :: "jstring \<Rightarrow> proc \<Rightarrow> owned_gate option" where
  "find_gate n P = find (\<lambda>g. nonce_of g = n) (pr_pending P)"

definition goto :: "pc \<Rightarrow> proc \<Rightarrow> proc" where
  "goto c P = P\<lparr>pr_pc := c\<rparr>"

definition ends :: "result \<Rightarrow> proc \<Rightarrow> proc" where
  "ends r P = P\<lparr>pr_pc := Idle, pr_result := Some r\<rparr>"

definition forget_gate :: "jstring \<Rightarrow> proc \<Rightarrow> proc" where
  "forget_gate n P = P\<lparr>pr_pending := filter (\<lambda>g. nonce_of g \<noteq> n) (pr_pending P)\<rparr>"

definition change_gate :: "jstring \<Rightarrow> (owned_gate \<Rightarrow> owned_gate) \<Rightarrow> proc \<Rightarrow> proc" where
  "change_gate n f P = P\<lparr>pr_pending := map (\<lambda>g. if nonce_of g = n then f g else g) (pr_pending P)\<rparr>"

text \<open>After an attempt to retire: back to the scan, which an unretired gate ends.\<close>

definition after_retire :: "jstring \<Rightarrow> jstring list option \<Rightarrow> proc \<Rightarrow> proc" where
  "after_retire n k P =
     (case k of
        None \<Rightarrow> goto Idle P
      | Some ns \<Rightarrow>
          (case find_gate n P of
             Some g \<Rightarrow> if og_retired g then goto (Scan ns) P else ends NoGate P
           | None \<Rightarrow> goto (Scan ns) P))"

definition forgotten :: "jstring \<Rightarrow> jstring list option \<Rightarrow> proc \<Rightarrow> proc" where
  "forgotten n k P = after_retire n k (forget_gate n P)"

definition look :: "gate_outcome \<Rightarrow> gate_world \<Rightarrow> fault + node" where
  "look out w =
     (case out of
        Fault f \<Rightarrow> Inl f
      | _ \<Rightarrow> (case wd_gate w of None \<Rightarrow> Inl Enoent | Some nd \<Rightarrow> Inr nd))"

definition put :: "nat \<Rightarrow> proc \<Rightarrow> gate_world \<Rightarrow> gate_world" where
  "put p P w = w\<lparr>wd_procs := (wd_procs w)(p := P)\<rparr>"

section \<open>Steps of a process\<close>

text \<open>Calls from outside: to take the gate, to release it, and the timer of a retirement that failed.\<close>

definition idle_step :: "gate_outcome \<Rightarrow> proc \<Rightarrow> proc" where
  "idle_step out P =
     (case out of
        CallTake \<Rightarrow> goto (Scan (map nonce_of (pr_pending P))) P
      | CallRelease n \<Rightarrow>
          (case find_gate n P of
             None \<Rightarrow> P
           | Some g \<Rightarrow> goto (RetireLook n None) (change_gate n (\<lambda>g. g\<lparr>og_requested := True\<rparr>) P))
      | Retry n \<Rightarrow>
          (case find_gate n P of
             None \<Rightarrow> P
           | Some g \<Rightarrow> if og_requested g then goto (RetireLook n None) P else P)
      | _ \<Rightarrow> P)"

definition scan_step :: "gate_outcome \<Rightarrow> gate_world \<Rightarrow> jstring list \<Rightarrow> proc \<Rightarrow> proc" where
  "scan_step out w ns P =
     (case ns of
        [] \<Rightarrow> goto LookGate P
      | n # rest \<Rightarrow>
          (case find_gate n P of
             None \<Rightarrow> goto (Scan rest) P
           | Some g \<Rightarrow>
               if og_requested g
               then (if out = Attempted then after_retire n (Some rest) P else goto (RetireLook n (Some rest)) P)
               else (case look out w of
                   Inr nd \<Rightarrow> if nd_ino nd = og_ino g then ends NoGate P else goto (Scan rest) (forget_gate n P)
                 | Inl Enoent \<Rightarrow> goto (Scan rest) (forget_gate n P)
                 | Inl _ \<Rightarrow> ends NoGate P)))"

definition retire_look :: "gate_outcome \<Rightarrow> gate_world \<Rightarrow> jstring \<Rightarrow> jstring list option \<Rightarrow> proc \<Rightarrow> proc" where
  "retire_look out w n k P =
     (case find_gate n P of
        None \<Rightarrow> after_retire n k P
      | Some g \<Rightarrow>
          if og_retired g
          then (case out of
              Fault Enoent \<Rightarrow> forgotten n k P
            | Fault _ \<Rightarrow> after_retire n k P
            | _ \<Rightarrow> goto (RetireRemove n k) P)
          else (case look out w of
              Inr nd \<Rightarrow> if nd_ino nd = og_ino g then goto (RetireRead n k) P else forgotten n k P
            | Inl Enoent \<Rightarrow> forgotten n k P
            | Inl _ \<Rightarrow> after_retire n k P))"

definition retire_read :: "gate_outcome \<Rightarrow> gate_world \<Rightarrow> jstring \<Rightarrow> jstring list option \<Rightarrow> proc \<Rightarrow> proc" where
  "retire_read out w n k P =
     (case look out w of
        Inl Enoent \<Rightarrow> forgotten n k P
      | Inl _ \<Rightarrow> after_retire n k P
      | Inr nd \<Rightarrow>
          (case find_gate n P of
             None \<Rightarrow> after_retire n k P
           | Some g \<Rightarrow> if nd_owner nd = Some (og_owner g) then goto (RetireMove n k) P else forgotten n k P))"

definition retire_move :: "gate_outcome \<Rightarrow> nat \<Rightarrow> jstring \<Rightarrow> jstring list option \<Rightarrow> gate_world \<Rightarrow> gate_world" where
  "retire_move out p n k w =
     (let P = wd_procs w p
      in case look out w of
           Inl Enoent \<Rightarrow> put p (forgotten n k P) w
         | Inl _ \<Rightarrow> put p (after_retire n k P) w
         | Inr _ \<Rightarrow>
             put p (goto (RetireRemove n k) (change_gate n (\<lambda>g. g\<lparr>og_retired := True\<rparr>) P)) (w\<lparr>wd_gate := None\<rparr>))"

definition retire_remove :: "gate_outcome \<Rightarrow> jstring \<Rightarrow> jstring list option \<Rightarrow> proc \<Rightarrow> proc" where
  "retire_remove out n k P =
     (case out of
        Fault Enoent \<Rightarrow> forgotten n k P
      | Fault _ \<Rightarrow> after_retire n k P
      | _ \<Rightarrow> forgotten n k P)"

definition read_gate :: "gate_outcome \<Rightarrow> gate_world \<Rightarrow> proc \<Rightarrow> proc" where
  "read_gate out w P =
     (case look out w of
        Inl _ \<Rightarrow> ends NoGate P
      | Inr nd \<Rightarrow> (case nd_owner nd of None \<Rightarrow> ends NoGate P | Some r \<Rightarrow> goto (Judge r) P))"

definition judge_owner :: "process_id \<Rightarrow> gate_outcome \<Rightarrow> owner \<Rightarrow> proc \<Rightarrow> proc" where
  "judge_owner me out r P =
     (case out of
        Answer a \<Rightarrow> if ownerState me a r = Dead then goto (Recheck r) P else ends NoGate P
      | _ \<Rightarrow> P)"

definition recheck :: "gate_outcome \<Rightarrow> gate_world \<Rightarrow> owner \<Rightarrow> proc \<Rightarrow> proc" where
  "recheck out w r P =
     (case look out w of
        Inl _ \<Rightarrow> ends NoGate P
      | Inr nd \<Rightarrow> if nd_owner nd = Some r then goto (Bury r) P else ends NoGate P)"

text \<open>The tombstone of a nonce is never empty, so nothing is renamed over it.\<close>

definition bury_gate :: "gate_outcome \<Rightarrow> nat \<Rightarrow> owner \<Rightarrow> gate_world \<Rightarrow> gate_world" where
  "bury_gate out p r w =
     (let P = wd_procs w p
      in case out of
           Fault Sharing \<Rightarrow> put p (ends (if ow_nonce r \<in> wd_tombstones w then NoGate else Threw) P) w
         | Fault OtherFault \<Rightarrow> put p (ends Threw P) w
         | Fault _ \<Rightarrow> put p (ends NoGate P) w
         | _ \<Rightarrow>
             if wd_gate w = None \<or> ow_nonce r \<in> wd_tombstones w then put p (ends NoGate P) w
             else put p (goto Stage P)
               (w\<lparr>wd_gate := None, wd_tombstones := insert (ow_nonce r) (wd_tombstones w)\<rparr>))"

definition stage :: "process_id \<Rightarrow> gate_outcome \<Rightarrow> proc \<Rightarrow> proc" where
  "stage me out P =
     (case out of
        Fault _ \<Rightarrow> ends Threw P
      | Drawn n t i \<Rightarrow>
          goto (CheckFree \<lparr>nd_ino = i, nd_owner = Some (leaseOwner me n t)\<rparr>) (P\<lparr>pr_drawn := insert n (pr_drawn P)\<rparr>)
      | _ \<Rightarrow> P)"

definition check_free :: "gate_outcome \<Rightarrow> gate_world \<Rightarrow> node \<Rightarrow> proc \<Rightarrow> proc" where
  "check_free out w nd P =
     (case look out w of
        Inr _ \<Rightarrow> ends NoGate P
      | Inl Enoent \<Rightarrow> goto (Publish nd) P
      | Inl _ \<Rightarrow> ends Threw P)"

definition publish_gate :: "gate_outcome \<Rightarrow> nat \<Rightarrow> node \<Rightarrow> gate_world \<Rightarrow> gate_world" where
  "publish_gate out p nd w =
     (let P = wd_procs w p
      in case out of
           Fault Sharing \<Rightarrow> put p (ends (if wd_gate w = None then Threw else NoGate) P) w
         | Fault OtherFault \<Rightarrow> put p (ends Threw P) w
         | Fault _ \<Rightarrow> put p (ends NoGate P) w
         | _ \<Rightarrow>
             (case wd_gate w of
                Some _ \<Rightarrow> put p (ends NoGate P) w
              | None \<Rightarrow> put p (goto (Take nd) P) (w\<lparr>wd_gate := Some nd\<rparr>)))"

text \<open>The published gate is recorded with the identity that stands at its path now.\<close>

definition take_gate :: "gate_outcome \<Rightarrow> gate_world \<Rightarrow> node \<Rightarrow> proc \<Rightarrow> proc" where
  "take_gate out w nd P =
     (case (look out w, nd_owner nd) of
        (Inr there, Some r) \<Rightarrow>
          (ends GotGate P)\<lparr>pr_pending :=
             pr_pending P @ [\<lparr>og_ino = nd_ino there, og_owner = r, og_requested = False, og_retired = False\<rparr>]\<rparr>
      | _ \<Rightarrow> ends Threw P)"

definition proc_step :: "(nat \<Rightarrow> process_id) \<Rightarrow> nat \<Rightarrow> gate_outcome \<Rightarrow> gate_world \<Rightarrow> gate_world" where
  "proc_step ids p out w =
     (let P = wd_procs w p
      in case pr_pc P of
           Idle \<Rightarrow> put p (idle_step out P) w
         | Scan ns \<Rightarrow> put p (scan_step out w ns P) w
         | LookGate \<Rightarrow>
             put p (case look out w of Inl Enoent \<Rightarrow> goto Stage P | Inl _ \<Rightarrow> ends Threw P | Inr _ \<Rightarrow> goto ReadGate P) w
         | ReadGate \<Rightarrow> put p (read_gate out w P) w
         | Judge r \<Rightarrow> put p (judge_owner (ids p) out r P) w
         | Recheck r \<Rightarrow> put p (recheck out w r P) w
         | Bury r \<Rightarrow> bury_gate out p r w
         | Stage \<Rightarrow> put p (stage (ids p) out P) w
         | CheckFree nd \<Rightarrow> put p (check_free out w nd P) w
         | Publish nd \<Rightarrow> publish_gate out p nd w
         | Take nd \<Rightarrow> put p (take_gate out w nd P) w
         | RetireLook n k \<Rightarrow> put p (retire_look out w n k P) w
         | RetireRead n k \<Rightarrow> put p (retire_read out w n k P) w
         | RetireMove n k \<Rightarrow> retire_move out p n k w
         | RetireRemove n k \<Rightarrow> put p (retire_remove out n k P) w)"

section \<open>Runs\<close>

text \<open>
  The system answers that a process number is dead only when no living process of the same domain has it;
  a nonce is drawn once.
\<close>

definition may_happen :: "(nat \<Rightarrow> process_id) \<Rightarrow> gate_world \<Rightarrow> nat \<Rightarrow> gate_outcome \<Rightarrow> bool" where
  "may_happen ids w p out \<longleftrightarrow>
     (case out of
        Answer Dead \<Rightarrow>
          (case pr_pc (wd_procs w p) of
             Judge r \<Rightarrow>
               (\<forall>q \<in> wd_alive w. id_pid (ids q) = ow_pid r \<longrightarrow> \<not> same_domain (id_domain (ids p)) (leaseOwner (ids q) [] 0))
           | _ \<Rightarrow> True)
      | Drawn n t i \<Rightarrow> (\<forall>q. n \<notin> pr_drawn (wd_procs w q))
      | _ \<Rightarrow> True)"

definition new_proc :: proc where
  "new_proc = \<lparr>pr_pc = Idle, pr_pending = [], pr_result = None, pr_drawn = {}\<rparr>"

inductive reachable_gate :: "(nat \<Rightarrow> process_id) \<Rightarrow> gate_world \<Rightarrow> bool" for ids where
  rg_start: "reachable_gate ids \<lparr>wd_gate = None, wd_tombstones = {}, wd_alive = alive, wd_procs = \<lambda>_. new_proc\<rparr>"
| rg_step: "reachable_gate ids w \<Longrightarrow> p \<in> wd_alive w \<Longrightarrow> may_happen ids w p out \<Longrightarrow> reachable_gate ids (proc_step ids p out w)"
| rg_crash: "reachable_gate ids w \<Longrightarrow> reachable_gate ids (w\<lparr>wd_alive := wd_alive w - {p}\<rparr>)"

section \<open>The invariant\<close>

definition written :: "(nat \<Rightarrow> process_id) \<Rightarrow> gate_world \<Rightarrow> owner \<Rightarrow> nat \<Rightarrow> bool" where
  "written ids w r q \<longleftrightarrow> r = leaseOwner (ids q) (ow_nonce r) (ow_createdAt r) \<and> ow_nonce r \<in> pr_drawn (wd_procs w q)"

text \<open>A nonce of a process that is dead.\<close>

definition orphaned :: "gate_world \<Rightarrow> jstring \<Rightarrow> bool" where
  "orphaned w n \<longleftrightarrow>
     (\<exists>q. n \<in> pr_drawn (wd_procs w q)) \<and> (\<forall>q \<in> wd_alive w. n \<notin> pr_drawn (wd_procs w q))"

definition stands :: "gate_world \<Rightarrow> owned_gate \<Rightarrow> bool" where
  "stands w g \<longleftrightarrow> wd_gate w = Some \<lparr>nd_ino = og_ino g, nd_owner = Some (og_owner g)\<rparr>"

definition pending_ok :: "gate_world \<Rightarrow> proc \<Rightarrow> bool" where
  "pending_ok w P \<longleftrightarrow>
     distinct (map nonce_of (pr_pending P))
     \<and> (\<forall>g \<in> set (pr_pending P). (\<not> og_retired g \<longrightarrow> stands w g) \<and> nonce_of g \<in> pr_drawn P
          \<and> (og_retired g \<longrightarrow> og_requested g))"

definition own_node :: "(nat \<Rightarrow> process_id) \<Rightarrow> gate_world \<Rightarrow> nat \<Rightarrow> proc \<Rightarrow> node \<Rightarrow> bool" where
  "own_node ids w p P nd \<longleftrightarrow>
     (\<exists>r. nd_owner nd = Some r \<and> r = leaseOwner (ids p) (ow_nonce r) (ow_createdAt r) \<and> ow_nonce r \<in> pr_drawn P
        \<and> ow_nonce r \<notin> nonce_of ` set (pr_pending P))"

definition retiring :: "jstring \<Rightarrow> proc \<Rightarrow> bool" where
  "retiring n P \<longleftrightarrow> (\<exists>g. find_gate n P = Some g \<and> og_requested g)"

definition moving :: "jstring \<Rightarrow> proc \<Rightarrow> bool" where
  "moving n P \<longleftrightarrow> (\<exists>g. find_gate n P = Some g \<and> og_requested g \<and> \<not> og_retired g)"

definition pc_ok :: "(nat \<Rightarrow> process_id) \<Rightarrow> gate_world \<Rightarrow> nat \<Rightarrow> proc \<Rightarrow> bool" where
  "pc_ok ids w p P \<longleftrightarrow>
     (case pr_pc P of
        Judge r \<Rightarrow> \<exists>q. written ids w r q
      | Recheck r \<Rightarrow> orphaned w (ow_nonce r)
      | Bury r \<Rightarrow> orphaned w (ow_nonce r)
          \<and> ((\<exists>nd. wd_gate w = Some nd \<and> nd_owner nd = Some r) \<or> ow_nonce r \<in> wd_tombstones w)
      | CheckFree nd \<Rightarrow> own_node ids w p P nd
      | Publish nd \<Rightarrow> own_node ids w p P nd
      | Take nd \<Rightarrow> own_node ids w p P nd \<and> wd_gate w = Some nd
      | RetireLook n k \<Rightarrow> retiring n P
      | RetireRead n k \<Rightarrow> moving n P
      | RetireMove n k \<Rightarrow> moving n P
      | _ \<Rightarrow> True)"

definition gate_inv :: "(nat \<Rightarrow> process_id) \<Rightarrow> gate_world \<Rightarrow> bool" where
  "gate_inv ids w \<longleftrightarrow>
     (\<forall>p \<in> wd_alive w. pending_ok w (wd_procs w p) \<and> pc_ok ids w p (wd_procs w p))
     \<and> (\<forall>nd r. wd_gate w = Some nd \<longrightarrow> nd_owner nd = Some r \<longrightarrow> (\<exists>q. written ids w r q) \<and> ow_nonce r \<notin> wd_tombstones w)
     \<and> (\<forall>p q. p \<noteq> q \<longrightarrow> pr_drawn (wd_procs w p) \<inter> pr_drawn (wd_procs w q) = {})
     \<and> (\<forall>n \<in> wd_tombstones w. orphaned w n)"

lemma put_simps [simp]:
  "wd_gate (put p P w) = wd_gate w" "wd_tombstones (put p P w) = wd_tombstones w" "wd_alive (put p P w) = wd_alive w"
  "wd_procs (put p P w) p = P" "q \<noteq> p \<Longrightarrow> wd_procs (put p P w) q = wd_procs w q"
  by (simp_all add: put_def)

lemma stands_put [simp]: "stands (put p P w) g \<longleftrightarrow> stands w g" "pending_ok (put p P w) Q \<longleftrightarrow> pending_ok w Q"
  by (simp_all add: stands_def pending_ok_def)

lemma goto_simps [simp]:
  "pr_pc (goto c P) = c" "pr_pending (goto c P) = pr_pending P" "pr_drawn (goto c P) = pr_drawn P"
  "pr_pc (ends r P) = Idle" "pr_pending (ends r P) = pr_pending P" "pr_drawn (ends r P) = pr_drawn P"
  "find_gate n (goto c P) = find_gate n P" "find_gate n (ends r P) = find_gate n P"
  by (simp_all add: goto_def ends_def find_gate_def)

lemma forget_simps [simp]:
  "pr_pc (forget_gate n P) = pr_pc P" "pr_drawn (forget_gate n P) = pr_drawn P"
  "pr_pending (forget_gate n P) = filter (\<lambda>g. nonce_of g \<noteq> n) (pr_pending P)"
  "pr_pc (change_gate n f P) = pr_pc P" "pr_drawn (change_gate n f P) = pr_drawn P"
  "pr_pending (change_gate n f P) = map (\<lambda>g. if nonce_of g = n then f g else g) (pr_pending P)"
  by (simp_all add: forget_gate_def change_gate_def)

lemma pending_ok_same: "pr_pending P' = pr_pending P \<Longrightarrow> pr_drawn P \<subseteq> pr_drawn P' \<Longrightarrow> pending_ok w P \<Longrightarrow> pending_ok w P'"
  by (auto simp: pending_ok_def)

lemma pending_ok_goto [simp]: "pending_ok w (goto c P) = pending_ok w P" "pending_ok w (ends r P) = pending_ok w P"
  by (simp_all add: pending_ok_def)

lemma distinct_filter_names: "distinct (map f xs) \<Longrightarrow> distinct (map f (filter Q xs))"
  by (induction xs) auto

lemma pending_ok_forget: "pending_ok w P \<Longrightarrow> pending_ok w (forget_gate n P)"
  by (auto simp: pending_ok_def distinct_filter_names)

lemma after_retire_simps [simp]:
  "pr_pending (after_retire n k P) = pr_pending P" "pr_drawn (after_retire n k P) = pr_drawn P"
  "pending_ok w (after_retire n k P) = pending_ok w P"
  by (auto simp: after_retire_def split: option.splits)

lemma after_retire_quiet: "pr_pc (after_retire n k P) = Idle \<or> (\<exists>ns. pr_pc (after_retire n k P) = Scan ns)"
  by (auto simp: after_retire_def split: option.splits)

lemma pc_ok_quiet: "pr_pc P = Idle \<or> (\<exists>ns. pr_pc P = Scan ns) \<Longrightarrow> pc_ok ids w p P"
  by (auto simp: pc_ok_def)

lemma after_retire_ok [simp]: "pc_ok ids w p (after_retire n k P)" "pc_ok ids w p (forgotten n k P)"
  unfolding forgotten_def by (rule pc_ok_quiet [OF after_retire_quiet])+

lemma forgotten_simps [simp]:
  "pr_drawn (forgotten n k P) = pr_drawn P" "pending_ok w P \<Longrightarrow> pending_ok w (forgotten n k P)"
  by (simp_all add: forgotten_def pending_ok_forget)

lemma goto_ok:
  "pc_ok ids w p (ends r P)" "pc_ok ids w p (goto Idle P)" "pc_ok ids w p (goto (Scan ns) P)"
  "pc_ok ids w p (goto LookGate P)" "pc_ok ids w p (goto ReadGate P)" "pc_ok ids w p (goto Stage P)"
  "pc_ok ids w p (goto (RetireRemove n k) P)"
  by (simp_all add: pc_ok_def)

text \<open>A step that leaves the gate and the tombstones alone.\<close>

lemma written_put: "pr_drawn (wd_procs w p) \<subseteq> pr_drawn P' \<Longrightarrow> written ids w r q \<Longrightarrow> written ids (put p P' w) r q"
  by (cases "q = p") (auto simp: written_def)

lemma orphaned_put:
  assumes "pr_drawn P' \<subseteq> pr_drawn (wd_procs w p) \<union> N" "pr_drawn (wd_procs w p) \<subseteq> pr_drawn P'"
    "\<And>n q. n \<in> N \<Longrightarrow> n \<notin> pr_drawn (wd_procs w q)" "orphaned w n"
  shows "orphaned (put p P' w) n"
proof -
  obtain q where q: "n \<in> pr_drawn (wd_procs w q)" using assms(4) by (auto simp: orphaned_def)
  then have "n \<notin> N" using assms(3) by blast
  moreover have "n \<in> pr_drawn (wd_procs (put p P' w) q)" using q assms(2) by (cases "q = p") auto
  ultimately show ?thesis using assms(1,4) unfolding orphaned_def by (metis Un_iff put_simps(3-5) subset_eq)
qed

lemma pc_ok_other:
  assumes "pr_drawn P' \<subseteq> pr_drawn (wd_procs w p) \<union> N" "pr_drawn (wd_procs w p) \<subseteq> pr_drawn P'"
    "\<And>n q. n \<in> N \<Longrightarrow> n \<notin> pr_drawn (wd_procs w q)" "pc_ok ids w q Q"
  shows "pc_ok ids (put p P' w) q Q"
  using assms(4) orphaned_put [OF assms(1-3)] written_put [OF assms(2)]
  by (cases "pr_pc Q") (auto simp: pc_ok_def own_node_def, blast)

lemma quiet_step:
  assumes "gate_inv ids w" "p \<in> wd_alive w"
    "pr_drawn P' \<subseteq> pr_drawn (wd_procs w p) \<union> N" "pr_drawn (wd_procs w p) \<subseteq> pr_drawn P'"
    "\<And>n q. n \<in> N \<Longrightarrow> n \<notin> pr_drawn (wd_procs w q)"
    "pending_ok w P'" "pc_ok ids w p P'"
  shows "gate_inv ids (put p P' w)"
proof -
  note other = pc_ok_other [OF assms(3-5)]
  have "pending_ok w (wd_procs (put p P' w) q) \<and> pc_ok ids (put p P' w) q (wd_procs (put p P' w) q)" if "q \<in> wd_alive w" for q
    using assms(1,6,7) that other by (cases "q = p") (auto simp: gate_inv_def)
  moreover have "pr_drawn (wd_procs (put p P' w) q) \<inter> pr_drawn (wd_procs (put p P' w) q') = {}" if "q \<noteq> q'" for q q'
  proof -
    have disjoint: "pr_drawn (wd_procs w q) \<inter> pr_drawn (wd_procs w q') = {}" using assms(1) that by (simp add: gate_inv_def)
    have drawn: "n \<in> pr_drawn (wd_procs w r) \<or> r = p \<and> n \<in> N" if "n \<in> pr_drawn (wd_procs (put p P' w) r)" for n r
      using that assms(3) by (cases "r = p") auto
    show ?thesis
    proof (rule equals0I)
      fix n assume "n \<in> pr_drawn (wd_procs (put p P' w) q) \<inter> pr_drawn (wd_procs (put p P' w) q')"
      then have "n \<in> pr_drawn (wd_procs w q) \<or> q = p \<and> n \<in> N" "n \<in> pr_drawn (wd_procs w q') \<or> q' = p \<and> n \<in> N"
        using drawn by blast+
      then show False using disjoint assms(5) [of n] that by blast
    qed
  qed
  moreover have "(\<exists>q. written ids (put p P' w) r q) \<and> ow_nonce r \<notin> wd_tombstones w"
    if "wd_gate w = Some nd" "nd_owner nd = Some r" for nd r
    using assms(1) that written_put [OF assms(4)] unfolding gate_inv_def by blast
  moreover have "\<forall>n \<in> wd_tombstones w. orphaned (put p P' w) n"
    using assms(1) orphaned_put [OF assms(3-5)] by (simp add: gate_inv_def)
  ultimately show ?thesis by (simp add: gate_inv_def)
qed

definition keeps :: "(nat \<Rightarrow> process_id) \<Rightarrow> gate_world \<Rightarrow> nat \<Rightarrow> proc \<Rightarrow> bool" where
  "keeps ids w p P \<longleftrightarrow>
     pr_drawn P = pr_drawn (wd_procs w p) \<and> pending_ok w P \<and> pc_ok ids w p P"

lemma keeps_step: "gate_inv ids w \<Longrightarrow> p \<in> wd_alive w \<Longrightarrow> keeps ids w p P \<Longrightarrow> gate_inv ids (put p P w)"
  by (rule quiet_step [of ids w p P "{}"]) (auto simp: keeps_def)

lemma find_changed:
  "(\<And>x. h (f x) = h x) \<Longrightarrow> find (\<lambda>x. h x = n) (map (\<lambda>x. if h x = n then f x else x) xs) = map_option f (find (\<lambda>x. h x = n) xs)"
  by (induction xs) auto

lemma find_gate_change:
  "(\<And>g. nonce_of (f g) = nonce_of g) \<Longrightarrow> find_gate n (change_gate n f P) = map_option f (find_gate n P)"
  by (simp add: find_gate_def find_changed)

lemma pending_stands: "pending_ok w P \<Longrightarrow> g \<in> set (pr_pending P) \<Longrightarrow> \<not> og_retired g \<Longrightarrow> stands w g"
  by (simp add: pending_ok_def)

lemma moving_goto [simp]: "moving n (goto c P) = moving n P" "retiring n (goto c P) = retiring n P"
  by (simp_all add: moving_def retiring_def)

lemma nonce_of_update [simp]:
  "nonce_of (g\<lparr>og_requested := b\<rparr>) = nonce_of g" "nonce_of (g\<lparr>og_retired := b\<rparr>) = nonce_of g"
  "stands w (g\<lparr>og_requested := b\<rparr>) = stands w g"
  by (simp_all add: nonce_of_def stands_def)

lemma pending_ok_change:
  assumes "pending_ok w P" "\<And>g. nonce_of (f g) = nonce_of g"
    "\<And>g. nonce_of g = n \<Longrightarrow> (\<not> og_retired g \<longrightarrow> stands w g) \<and> (og_retired g \<longrightarrow> og_requested g) \<Longrightarrow>
       (\<not> og_retired (f g) \<longrightarrow> stands w' (f g)) \<and> (og_retired (f g) \<longrightarrow> og_requested (f g))"
    "\<And>g. g \<in> set (pr_pending P) \<Longrightarrow> nonce_of g \<noteq> n \<Longrightarrow> \<not> og_retired g \<Longrightarrow> stands w' g"
  shows "pending_ok w' (change_gate n f P)"
proof -
  have "map nonce_of (pr_pending (change_gate n f P)) = map nonce_of (pr_pending P)"
    using assms(2) by (auto simp: comp_def)
  then have "distinct (map nonce_of (pr_pending (change_gate n f P)))" using assms(1) by (metis pending_ok_def)
  then show ?thesis using assms unfolding pending_ok_def by (auto simp del: map_map)
qed

lemma find_gate_in: "find_gate n P = Some g \<Longrightarrow> g \<in> set (pr_pending P) \<and> nonce_of g = n"
  by (auto simp: find_gate_def find_Some_iff)

lemma idle_keeps: "keeps ids w p P \<Longrightarrow> pr_pc P = Idle \<Longrightarrow> keeps ids w p (idle_step out P)"
  by (auto simp: keeps_def idle_step_def goto_ok pc_ok_def retiring_def find_gate_change
      intro!: pending_ok_change intro: pending_stands split: gate_outcome.splits option.splits)

lemma scan_keeps: "keeps ids w p P \<Longrightarrow> keeps ids w p (scan_step out w ns P)"
  by (auto simp: keeps_def scan_step_def goto_ok pending_ok_forget split: list.splits option.splits sum.splits fault.splits)
    (auto simp: pc_ok_def retiring_def)

lemma retire_look_keeps:
  "keeps ids w p P \<Longrightarrow> pr_pc P = RetireLook n k \<Longrightarrow> keeps ids w p (retire_look out w n k P)"
  by (auto simp: keeps_def retire_look_def goto_ok split: option.splits sum.splits fault.splits gate_outcome.splits)
    (auto simp: pc_ok_def retiring_def moving_def)

lemma retire_read_keeps:
  "keeps ids w p P \<Longrightarrow> pr_pc P = RetireRead n k \<Longrightarrow> keeps ids w p (retire_read out w n k P)"
  by (auto simp: keeps_def retire_read_def split: option.splits sum.splits fault.splits)
    (auto simp: pc_ok_def)

lemma retire_remove_keeps: "keeps ids w p P \<Longrightarrow> keeps ids w p (retire_remove out n k P)"
  by (auto simp: keeps_def retire_remove_def split: fault.splits gate_outcome.splits)

lemma read_gate_keeps:
  assumes "gate_inv ids w" "keeps ids w p P"
  shows "keeps ids w p (read_gate out w P)"
  using assms
  by (auto simp: keeps_def read_gate_def goto_ok look_def split: option.splits sum.splits gate_outcome.splits)
    (auto simp: pc_ok_def gate_inv_def)

lemma recheck_keeps:
  assumes "keeps ids w p P" "pr_pc P = Recheck r"
  shows "keeps ids w p (recheck out w r P)"
  using assms
  by (auto simp: keeps_def recheck_def goto_ok look_def split: option.splits sum.splits gate_outcome.splits)
    (auto simp: pc_ok_def)

lemma check_free_keeps:
  "keeps ids w p P \<Longrightarrow> pr_pc P = CheckFree nd \<Longrightarrow> keeps ids w p (check_free out w nd P)"
  by (auto simp: keeps_def check_free_def goto_ok split: sum.splits fault.splits)
    (auto simp: pc_ok_def own_node_def)

text \<open>A record that is judged dead is one of a dead process.\<close>

lemma judge_keeps:
  assumes "gate_inv ids w" "keeps ids w p P" "pr_pc P = Judge r" "wd_procs w p = P" "p \<in> wd_alive w" "may_happen ids w p out"
  shows "keeps ids w p (judge_owner (ids p) out r P)"
proof -
  have "orphaned w (ow_nonce r)" if "out = Answer a" "ownerState (ids p) a r = Dead" for a
  proof -
    obtain q where q: "written ids w r q" using assms(2,3) by (auto simp: keeps_def pc_ok_def)
    have dead: "a = Dead" "same_domain (id_domain (ids p)) r" "ow_pid r \<noteq> id_pid (ids p)"
      using that(2) by (auto simp: ownerState_def same_domain_def split: if_splits)
    obtain n t where "r = leaseOwner (ids q) n t" using q unfolding written_def by blast
    then have pid: "ow_pid r = id_pid (ids q)" and dom: "same_domain (id_domain (ids p)) (leaseOwner (ids q) [] 0)"
      using dead(2) by (simp_all add: leaseOwner_def same_domain_def)
    have "q \<notin> wd_alive w"
      using assms(3,4,6) that(1) dead(1) pid dom by (auto simp: may_happen_def)
    then show ?thesis
      using q assms(1) unfolding orphaned_def gate_inv_def written_def by (metis disjoint_iff)
  qed
  then show ?thesis
    using assms(2,3) by (auto simp: keeps_def judge_owner_def goto_ok split: gate_outcome.splits) (auto simp: pc_ok_def)
qed

section \<open>Steps that change the gate\<close>

lemma gate_parts [simp]:
  "written ids (w\<lparr>wd_gate := x\<rparr>) = written ids w" "orphaned (w\<lparr>wd_gate := x\<rparr>) = orphaned w"
  "written ids (w\<lparr>wd_tombstones := T\<rparr>) = written ids w" "orphaned (w\<lparr>wd_tombstones := T\<rparr>) = orphaned w"
  by (simp_all add: written_def orphaned_def fun_eq_iff)

lemma inv_proc: "gate_inv ids w \<Longrightarrow> p \<in> wd_alive w \<Longrightarrow> keeps ids w p (wd_procs w p)"
  by (simp add: gate_inv_def keeps_def)

lemma drawn_once:
  "gate_inv ids w \<Longrightarrow> n \<in> pr_drawn (wd_procs w p) \<Longrightarrow> n \<in> pr_drawn (wd_procs w q) \<Longrightarrow> p = q"
  unfolding gate_inv_def by (metis disjoint_iff)

lemma cleared:
  assumes "gate_inv ids w"
    and "\<And>q g. q \<in> wd_alive w \<Longrightarrow> g \<in> set (pr_pending (wd_procs w q)) \<Longrightarrow> og_retired g"
    and "\<And>q nd. q \<in> wd_alive w \<Longrightarrow> pr_pc (wd_procs w q) \<noteq> Take nd"
    and "\<And>q r. q \<in> wd_alive w \<Longrightarrow> pr_pc (wd_procs w q) = Bury r \<Longrightarrow> ow_nonce r \<in> T"
    and "\<And>n. n \<in> T \<Longrightarrow> orphaned w n"
  shows "gate_inv ids (w\<lparr>wd_gate := None, wd_tombstones := T\<rparr>)"
proof -
  let ?w = "w\<lparr>wd_gate := None, wd_tombstones := T\<rparr>"
  have "pending_ok ?w (wd_procs w q) \<and> pc_ok ids ?w q (wd_procs w q)" if q: "q \<in> wd_alive w" for q
  proof
    show "pending_ok ?w (wd_procs w q)" using assms(1,2) q by (auto simp: gate_inv_def pending_ok_def)
    show "pc_ok ids ?w q (wd_procs w q)"
      using assms(1,3,4) q by (cases "pr_pc (wd_procs w q)") (auto simp: gate_inv_def pc_ok_def own_node_def)
  qed
  then show ?thesis using assms(1,5) by (simp add: gate_inv_def)
qed

lemma standing_drawn:
  assumes "gate_inv ids w" "q \<in> wd_alive w" "wd_gate w = Some nd" "nd_owner nd = Some r"
  shows "g \<in> set (pr_pending (wd_procs w q)) \<Longrightarrow> \<not> og_retired g \<Longrightarrow> og_owner g = r \<and> ow_nonce r \<in> pr_drawn (wd_procs w q)"
    and "pr_pc (wd_procs w q) = Take nd' \<Longrightarrow> ow_nonce r \<in> pr_drawn (wd_procs w q)"
proof -
  have ok: "pending_ok w (wd_procs w q)" "pc_ok ids w q (wd_procs w q)" using assms(1,2) by (auto simp: gate_inv_def)
  show "g \<in> set (pr_pending (wd_procs w q)) \<Longrightarrow> \<not> og_retired g \<Longrightarrow> og_owner g = r \<and> ow_nonce r \<in> pr_drawn (wd_procs w q)"
    using ok(1) assms(3,4) by (auto simp: pending_ok_def stands_def nonce_of_def)
  show "pr_pc (wd_procs w q) = Take nd' \<Longrightarrow> ow_nonce r \<in> pr_drawn (wd_procs w q)"
    using ok(2) assms(3,4) by (auto simp: pc_ok_def own_node_def)
qed

lemma ends_keeps: "keeps ids w p P \<Longrightarrow> keeps ids w p (ends r P)"
  by (simp add: keeps_def goto_ok)

lemma bury_inv:
  assumes "gate_inv ids w" "p \<in> wd_alive w" "pr_pc (wd_procs w p) = Bury r"
  shows "gate_inv ids (bury_gate out p r w)"
proof -
  let ?n = "ow_nonce r" and ?P = "wd_procs w p"
  have quiet: "gate_inv ids (put p (ends x ?P) w)" for x
    using keeps_step [OF assms(1,2) ends_keeps [OF inv_proc [OF assms(1,2)]]] .
  have moved: "gate_inv ids (put p (goto Stage ?P) (w\<lparr>wd_gate := None, wd_tombstones := insert ?n (wd_tombstones w)\<rparr>))"
    if "wd_gate w \<noteq> None" "?n \<notin> wd_tombstones w"
  proof -
    have ok: "orphaned w ?n" "\<exists>nd. wd_gate w = Some nd \<and> nd_owner nd = Some r"
      using assms that(2) by (auto simp: gate_inv_def pc_ok_def)
    then obtain nd where nd: "wd_gate w = Some nd" "nd_owner nd = Some r" by blast
    have none: "?n \<notin> pr_drawn (wd_procs w q)" if "q \<in> wd_alive w" for q using ok(1) that by (simp add: orphaned_def)
    let ?w = "w\<lparr>wd_gate := None, wd_tombstones := insert ?n (wd_tombstones w)\<rparr>"
    have inv: "gate_inv ids ?w"
    proof (rule cleared [OF assms(1)])
      fix q g assume q: "q \<in> wd_alive w" "g \<in> set (pr_pending (wd_procs w q))"
      then show "og_retired g" using standing_drawn(1) [OF assms(1) q(1) nd q(2)] none by blast
    next
      fix q nd' assume q: "q \<in> wd_alive w"
      then show "pr_pc (wd_procs w q) \<noteq> Take nd'" using standing_drawn(2) [OF assms(1) q nd] none by blast
    next
      fix q r' assume q: "q \<in> wd_alive w" "pr_pc (wd_procs w q) = Bury r'"
      then have "pc_ok ids w q (wd_procs w q)" using assms(1) by (simp add: gate_inv_def)
      then show "ow_nonce r' \<in> insert ?n (wd_tombstones w)" using q(2) nd by (auto simp: pc_ok_def)
    next
      fix m assume "m \<in> insert ?n (wd_tombstones w)"
      then show "orphaned w m" using ok(1) assms(1) by (auto simp: gate_inv_def)
    qed
    have "keeps ids ?w p (wd_procs ?w p)" using inv_proc [OF inv] assms(2) by simp
    then have "keeps ids ?w p (goto Stage ?P)" by (simp add: keeps_def goto_ok)
    then show ?thesis using keeps_step [OF inv, of p "goto Stage ?P"] assms(2) by simp
  qed
  show ?thesis using quiet moved by (auto simp: bury_gate_def Let_def split: gate_outcome.splits fault.splits)
qed

lemma publish_inv:
  assumes "gate_inv ids w" "p \<in> wd_alive w" "pr_pc (wd_procs w p) = Publish nd"
  shows "gate_inv ids (publish_gate out p nd w)"
proof -
  let ?P = "wd_procs w p"
  have quiet: "gate_inv ids (put p (ends x ?P) w)" for x
    using keeps_step [OF assms(1,2) ends_keeps [OF inv_proc [OF assms(1,2)]]] .
  have published: "gate_inv ids (put p (goto (Take nd) ?P) (w\<lparr>wd_gate := Some nd\<rparr>))" if free: "wd_gate w = None"
  proof -
    let ?w = "w\<lparr>wd_gate := Some nd\<rparr>"
    have own: "own_node ids w p ?P nd" using assms by (auto simp: gate_inv_def pc_ok_def)
    have "pending_ok ?w (wd_procs w q) \<and> pc_ok ids ?w q (wd_procs w q)" if q: "q \<in> wd_alive w" for q
    proof
      show "pending_ok ?w (wd_procs w q)" using assms(1) q free by (auto simp: gate_inv_def pending_ok_def stands_def)
      show "pc_ok ids ?w q (wd_procs w q)"
        using assms(1) q free by (cases "pr_pc (wd_procs w q)") (auto simp: gate_inv_def pc_ok_def own_node_def)
    qed
    moreover have "(\<exists>q. written ids w r q) \<and> ow_nonce r \<notin> wd_tombstones w" if "nd_owner nd = Some r" for r
      using own that assms(1,2) by (auto simp: own_node_def written_def gate_inv_def orphaned_def)
    ultimately have inv: "gate_inv ids ?w" using assms(1) by (auto simp: gate_inv_def)
    have "keeps ids ?w p (goto (Take nd) ?P)"
      using inv_proc [OF inv] assms(2) own by (auto simp: keeps_def pc_ok_def own_node_def)
    then show ?thesis using keeps_step [OF inv, of p "goto (Take nd) ?P"] assms(2) by simp
  qed
  show ?thesis using quiet published by (auto simp: publish_gate_def Let_def split: gate_outcome.splits fault.splits option.splits)
qed

lemma put_cleared:
  "(put p P w)\<lparr>wd_gate := None, wd_tombstones := wd_tombstones (put p P w)\<rparr> = put p P (w\<lparr>wd_gate := None\<rparr>)"
  by (cases w) (simp add: put_def)

lemma retire_move_inv:
  assumes "gate_inv ids w" "p \<in> wd_alive w" "pr_pc (wd_procs w p) = RetireMove n k"
  shows "gate_inv ids (retire_move out p n k w)"
proof -
  let ?P = "wd_procs w p"
  let ?R = "goto (RetireRemove n k) (change_gate n (\<lambda>g. g\<lparr>og_retired := True\<rparr>) ?P)"
  have ok: "pending_ok w ?P" "moving n ?P" using assms by (auto simp: gate_inv_def pc_ok_def)
  have quiet: "gate_inv ids (put p (forgotten n k ?P) w)" "gate_inv ids (put p (after_retire n k ?P) w)"
    using ok(1) by (auto intro!: keeps_step [OF assms(1,2)] simp: keeps_def)
  have moved: "gate_inv ids (put p ?R (w\<lparr>wd_gate := None\<rparr>))"
  proof -
    obtain g where g: "find_gate n ?P = Some g" "og_requested g" "\<not> og_retired g" using ok(2) by (auto simp: moving_def)
    note mem = find_gate_in [OF g(1)]
    have gate: "wd_gate w = Some \<lparr>nd_ino = og_ino g, nd_owner = Some (og_owner g)\<rparr>"
      using pending_stands [OF ok(1) _ g(3)] mem by (simp add: stands_def)
    have drawn: "ow_nonce (og_owner g) \<in> pr_drawn ?P" "ow_nonce (og_owner g) = n"
      using ok(1) mem by (auto simp: pending_ok_def nonce_of_def)
    have only: "g' = g" if "g' \<in> set (pr_pending ?P)" "nonce_of g' = n" for g'
      using ok(1) mem that unfolding pending_ok_def distinct_map by (metis inj_onD)
    have "keeps ids w p ?R"
    proof -
      have "pending_ok w (change_gate n (\<lambda>g. g\<lparr>og_retired := True\<rparr>) ?P)"
        unfolding pending_ok_def
      proof (intro conjI ballI)
        have "map nonce_of (pr_pending (change_gate n (\<lambda>g. g\<lparr>og_retired := True\<rparr>) ?P)) = map nonce_of (pr_pending ?P)"
          by (auto simp: comp_def)
        then show "distinct (map nonce_of (pr_pending (change_gate n (\<lambda>g. g\<lparr>og_retired := True\<rparr>) ?P)))"
          using ok(1) by (metis pending_ok_def)
      next
        fix h assume "h \<in> set (pr_pending (change_gate n (\<lambda>g. g\<lparr>og_retired := True\<rparr>) ?P))"
        then obtain g' where g': "g' \<in> set (pr_pending ?P)" "h = (if nonce_of g' = n then g'\<lparr>og_retired := True\<rparr> else g')" by auto
        then show "\<not> og_retired h \<longrightarrow> stands w h" "nonce_of h \<in> pr_drawn (change_gate n (\<lambda>g. g\<lparr>og_retired := True\<rparr>) ?P)"
          "og_retired h \<longrightarrow> og_requested h"
          using ok(1) only [of g'] g(2) by (auto simp: pending_ok_def)
      qed
      then show ?thesis by (simp add: keeps_def goto_ok)
    qed
    from keeps_step [OF assms(1,2) this] have inv: "gate_inv ids (put p ?R w)" .
    have other: "q = p" if "ow_nonce (og_owner g) \<in> pr_drawn (wd_procs (put p ?R w) q)" for q
      using drawn_once [OF inv that, of p] drawn by simp
    have "gate_inv ids ((put p ?R w)\<lparr>wd_gate := None, wd_tombstones := wd_tombstones (put p ?R w)\<rparr>)"
    proof (rule cleared [OF inv])
      fix q h assume q: "q \<in> wd_alive (put p ?R w)" "h \<in> set (pr_pending (wd_procs (put p ?R w) q))"
      show "og_retired h"
      proof (rule ccontr)
        assume "\<not> og_retired h"
        then have h: "og_owner h = og_owner g" "q = p"
          using standing_drawn(1) [OF inv q(1) _ _ q(2)] gate other by auto
        then show False using q(2) \<open>\<not> og_retired h\<close> drawn(2) by (auto simp: nonce_of_def split: if_splits)
      qed
    next
      fix q nd' assume q: "q \<in> wd_alive (put p ?R w)"
      show "pr_pc (wd_procs (put p ?R w) q) \<noteq> Take nd'"
        using standing_drawn(2) [OF inv q, of _ "og_owner g" nd'] gate other [of q] by (cases "q = p") auto
    next
      fix q r assume q: "q \<in> wd_alive (put p ?R w)" "pr_pc (wd_procs (put p ?R w) q) = Bury r"
      then have b: "q \<noteq> p" "pc_ok ids w q (wd_procs w q)" using assms(1) by (auto simp: gate_inv_def)
      then have "orphaned w (ow_nonce r)" "(\<exists>nd. wd_gate w = Some nd \<and> nd_owner nd = Some r) \<or> ow_nonce r \<in> wd_tombstones w"
        using q(2) by (auto simp: pc_ok_def)
      then show "ow_nonce r \<in> wd_tombstones (put p ?R w)" using gate drawn(1) assms(2) by (auto simp: orphaned_def)
    next
      fix m assume "m \<in> wd_tombstones (put p ?R w)"
      then show "orphaned (put p ?R w) m" using inv by (simp add: gate_inv_def)
    qed
    then show ?thesis by (simp only: put_cleared)
  qed
  show ?thesis using quiet moved by (auto simp: retire_move_def Let_def split: sum.splits fault.splits)
qed

lemma take_keeps:
  assumes "keeps ids w p P" "pr_pc P = Take nd"
  shows "keeps ids w p (take_gate out w nd P)"
proof -
  obtain r where r: "nd_owner nd = Some r" "ow_nonce r \<in> pr_drawn P" "ow_nonce r \<notin> nonce_of ` set (pr_pending P)" "wd_gate w = Some nd"
    using assms by (auto simp: keeps_def pc_ok_def own_node_def)
  have "wd_gate w = Some \<lparr>nd_ino = nd_ino nd, nd_owner = Some r\<rparr>" using r(1,4) by (cases nd) simp
  then show ?thesis
    using assms(1) r
    by (auto simp: keeps_def take_gate_def goto_ok look_def pending_ok_def stands_def nonce_of_def pc_ok_def ends_def
        split: gate_outcome.splits sum.splits)
qed

lemma stage_inv:
  assumes "gate_inv ids w" "p \<in> wd_alive w" "may_happen ids w p out"
  shows "gate_inv ids (put p (stage (ids p) out (wd_procs w p)) w)"
proof (cases "\<exists>n t i. out = Drawn n t i")
  case True
  then obtain n t i where out: "out = Drawn n t i" by blast
  then have fresh: "n \<notin> pr_drawn (wd_procs w q)" for q using assms(3) by (simp add: may_happen_def)
  let ?P = "wd_procs w p"
  have ok: "pending_ok w ?P" using assms(1,2) by (simp add: gate_inv_def)
  then have new: "n \<notin> nonce_of ` set (pr_pending ?P)" using fresh [of p] by (auto simp: pending_ok_def)
  show ?thesis
    by (rule quiet_step [OF assms(1,2), of _ "{n}"])
      (use ok new fresh out in \<open>auto simp: stage_def pending_ok_def pc_ok_def own_node_def leaseOwner_def\<close>)
next
  case False
  then have "keeps ids w p (stage (ids p) out (wd_procs w p))"
    using inv_proc [OF assms(1,2)] by (cases out) (auto simp: stage_def ends_keeps)
  then show ?thesis by (rule keeps_step [OF assms(1,2)])
qed

lemma look_keeps:
  "keeps ids w p P \<Longrightarrow>
     keeps ids w p (case look out w of Inl Enoent \<Rightarrow> goto Stage P | Inl _ \<Rightarrow> ends Threw P | Inr _ \<Rightarrow> goto ReadGate P)"
  by (auto simp: keeps_def goto_ok split: sum.splits fault.splits)

lemma proc_step_inv:
  assumes "gate_inv ids w" "p \<in> wd_alive w" "may_happen ids w p out"
  shows "gate_inv ids (proc_step ids p out w)"
proof -
  let ?P = "wd_procs w p"
  note keep = keeps_step [OF assms(1,2)]
  note ok = inv_proc [OF assms(1,2)]
  show ?thesis
  proof (cases "pr_pc ?P")
    case Stage
    then show ?thesis using stage_inv [OF assms] by (simp add: proc_step_def Let_def)
  next
    case (Judge r)
    then show ?thesis using keep [OF judge_keeps [OF assms(1) ok Judge refl assms(2,3)]] by (simp add: proc_step_def Let_def)
  next
    case LookGate
    then show ?thesis using keep [OF look_keeps [OF ok]] by (simp add: proc_step_def Let_def)
  next
    case ReadGate
    then show ?thesis using keep [OF read_gate_keeps [OF assms(1) ok]] by (simp add: proc_step_def Let_def)
  next
    case (Recheck r)
    then show ?thesis using keep [OF recheck_keeps [OF ok Recheck]] by (simp add: proc_step_def Let_def)
  next
    case (CheckFree nd)
    then show ?thesis using keep [OF check_free_keeps [OF ok CheckFree]] by (simp add: proc_step_def Let_def)
  next
    case (Take nd)
    then show ?thesis using keep [OF take_keeps [OF ok Take]] by (simp add: proc_step_def Let_def)
  next
    case Idle
    then show ?thesis using keep [OF idle_keeps [OF ok Idle]] by (simp add: proc_step_def Let_def)
  next
    case (Scan ns)
    then show ?thesis using keep [OF scan_keeps [OF ok]] by (simp add: proc_step_def Let_def)
  next
    case (RetireLook n k)
    then show ?thesis using keep [OF retire_look_keeps [OF ok RetireLook]] by (simp add: proc_step_def Let_def)
  next
    case (RetireRead n k)
    then show ?thesis using keep [OF retire_read_keeps [OF ok RetireRead]] by (simp add: proc_step_def Let_def)
  next
    case (RetireRemove n k)
    then show ?thesis using keep [OF retire_remove_keeps [OF ok]] by (simp add: proc_step_def Let_def)
  qed (use bury_inv [OF assms(1,2)] publish_inv [OF assms(1,2)] retire_move_inv [OF assms(1,2)] in \<open>simp_all add: proc_step_def Let_def\<close>)
qed

lemma crash_inv: "gate_inv ids w \<Longrightarrow> gate_inv ids (w\<lparr>wd_alive := wd_alive w - {p}\<rparr>)"
proof -
  assume inv: "gate_inv ids w"
  let ?w = "w\<lparr>wd_alive := wd_alive w - {p}\<rparr>"
  have "written ids ?w = written ids w" "orphaned w n \<Longrightarrow> orphaned ?w n" for n
    by (auto simp: written_def orphaned_def fun_eq_iff)
  then have "pc_ok ids w q P \<Longrightarrow> pc_ok ids ?w q P" for q P
    by (cases "pr_pc P") (auto simp: pc_ok_def own_node_def)
  then show ?thesis
    using inv \<open>written ids ?w = written ids w\<close> \<open>\<And>n. orphaned w n \<Longrightarrow> orphaned ?w n\<close>
    by (auto simp: gate_inv_def pending_ok_def stands_def)
qed

lemma reachable_inv: "reachable_gate ids w \<Longrightarrow> gate_inv ids w"
proof (induction rule: reachable_gate.induct)
  case (rg_start alive)
  then show ?case by (simp add: gate_inv_def new_proc_def pending_ok_def pc_ok_def)
qed (auto intro: proc_step_inv crash_inv)

section \<open>Properties\<close>

text \<open>
  C5. At most one living process holds the gate, and it holds it once, however the file-system calls of any
  number of processes interleave, fail or are cut off by a crash: a gate is taken from a dead owner only.
  What stands at the path is the gate of that holder.
\<close>

theorem one_gate_holder:
  assumes "reachable_gate ids w" "p \<in> wd_alive w" "q \<in> wd_alive w"
    "g \<in> set (pr_pending (wd_procs w p))" "h \<in> set (pr_pending (wd_procs w q))" "\<not> og_requested g" "\<not> og_requested h"
  shows "p = q \<and> g = h \<and> wd_gate w = Some \<lparr>nd_ino = og_ino g, nd_owner = Some (og_owner g)\<rparr>"
proof -
  have inv: "gate_inv ids w" by (rule reachable_inv [OF assms(1)])
  then have ok: "pending_ok w (wd_procs w p)" "pending_ok w (wd_procs w q)" using assms(2,3) by (auto simp: gate_inv_def)
  then have st: "stands w g" "stands w h" "nonce_of g \<in> pr_drawn (wd_procs w p)" "nonce_of h \<in> pr_drawn (wd_procs w q)"
    using assms(4-7) unfolding pending_ok_def by blast+
  then have same: "nonce_of g = nonce_of h" by (simp add: stands_def nonce_of_def)
  then have "p = q" using drawn_once [OF inv] st(3,4) by simp
  moreover from this have "g = h"
    using ok(1) assms(4,5) same unfolding pending_ok_def distinct_map by (metis inj_onD)
  ultimately show ?thesis using st(1) by (simp add: stands_def)
qed

fun run_gate :: "(nat \<Rightarrow> process_id) \<Rightarrow> nat \<Rightarrow> gate_outcome list \<Rightarrow> gate_world \<Rightarrow> gate_world" where
  "run_gate ids p [] w = w"
| "run_gate ids p (out # outs) w = run_gate ids p outs (proc_step ids p out w)"

fun may_run :: "(nat \<Rightarrow> process_id) \<Rightarrow> nat \<Rightarrow> gate_outcome list \<Rightarrow> gate_world \<Rightarrow> bool" where
  "may_run ids p [] w = True"
| "may_run ids p (out # outs) w = (may_happen ids w p out \<and> may_run ids p outs (proc_step ids p out w))"

lemma proc_step_alive [simp]: "wd_alive (proc_step ids p out w) = wd_alive w"
  by (auto simp: proc_step_def Let_def bury_gate_def publish_gate_def retire_move_def split: pc.splits gate_outcome.splits fault.splits
      option.splits sum.splits)

lemma run_reachable:
  "reachable_gate ids w \<Longrightarrow> p \<in> wd_alive w \<Longrightarrow> may_run ids p outs w \<Longrightarrow> reachable_gate ids (run_gate ids p outs w)"
  by (induction outs arbitrary: w) (simp_all add: rg_step)

text \<open>What a process sees that takes over the gate of a dead one without being disturbed.\<close>

definition recovery :: "jstring \<Rightarrow> int \<Rightarrow> nat \<Rightarrow> gate_outcome list" where
  "recovery n t i = [CallTake, Done, Done, Done, Answer Dead, Done, Done, Drawn n t i, Done, Done, Done]"

text \<open>
  C24. A crash does not lock the gate for ever: a process that is alone takes the gate of an owner it can prove
  dead, in one call, leaves the tombstone that fences other recoverers, and holds the gate then.
\<close>

theorem dead_gate_recovered:
  assumes "reachable_gate ids w" "p \<in> wd_alive w" "pr_pc (wd_procs w p) = Idle" "pr_pending (wd_procs w p) = []"
    "wd_gate w = Some nd" "nd_owner nd = Some r" "ownerState (ids p) Dead r = Dead"
    "\<And>q. q \<in> wd_alive w \<Longrightarrow> id_pid (ids q) = ow_pid r \<Longrightarrow> \<not> same_domain (id_domain (ids p)) (leaseOwner (ids q) [] 0)"
    "\<And>q. n \<notin> pr_drawn (wd_procs w q)"
  shows "reachable_gate ids (run_gate ids p (recovery n t i) w)
    \<and> pr_result (wd_procs (run_gate ids p (recovery n t i) w) p) = Some GotGate
    \<and> pr_pending (wd_procs (run_gate ids p (recovery n t i) w) p) =
        [\<lparr>og_ino = i, og_owner = leaseOwner (ids p) n t, og_requested = False, og_retired = False\<rparr>]
    \<and> ow_nonce r \<in> wd_tombstones (run_gate ids p (recovery n t i) w)"
proof -
  have tomb: "ow_nonce r \<notin> wd_tombstones w" using reachable_inv [OF assms(1)] assms(5,6) by (auto simp: gate_inv_def)
  note defs = recovery_def proc_step_def idle_step_def scan_step_def look_def read_gate_def judge_owner_def recheck_def bury_gate_def
    stage_def check_free_def publish_gate_def take_gate_def put_def goto_def ends_def
  have may: "may_run ids p (recovery n t i) w"
    using assms(3-9) tomb by (simp add: defs may_happen_def)
  show ?thesis
    using run_reachable [OF assms(1,2) may] assms(3-7) tomb by (simp add: defs)
qed

text \<open>Two processes of one machine; the first takes the gate, and crashes.\<close>

definition example_domain :: lease_domain where
  "example_domain = \<lparr>ld_win32 = False, ld_host = Some (js ''h''), ld_legacyHost = None, ld_boot = Some (js ''b''),
     ld_pidNamespace = Some (js ''n'')\<rparr>"

definition example_ids :: "nat \<Rightarrow> process_id" where
  "example_ids p = \<lparr>id_pid = int p + 100, id_domain = example_domain\<rparr>"

definition example_nonce :: jstring where
  "example_nonce = js ''00000000-0000-4000-8000-000000000001''"

definition taking :: "gate_outcome list" where
  "taking = [CallTake, Done, Done, Drawn example_nonce 5 7, Done, Done, Done]"

definition example_start :: gate_world where
  "example_start = \<lparr>wd_gate = None, wd_tombstones = {}, wd_alive = {0, 1}, wd_procs = \<lambda>_. new_proc\<rparr>"

definition example_owned :: owned_gate where
  "example_owned = \<lparr>og_ino = 7, og_owner = leaseOwner (example_ids 0) example_nonce 5, og_requested = False, og_retired = False\<rparr>"

definition example_taken :: gate_world where
  "example_taken = run_gate example_ids 0 taking example_start"

lemmas example_steps = taking_def example_start_def new_proc_def proc_step_def idle_step_def scan_step_def look_def stage_def
  check_free_def publish_gate_def take_gate_def put_def goto_def ends_def may_happen_def

lemma example_taken_eq:
  "example_taken =
     \<lparr>wd_gate = Some \<lparr>nd_ino = 7, nd_owner = Some (leaseOwner (example_ids 0) example_nonce 5)\<rparr>, wd_tombstones = {},
      wd_alive = {0, 1},
      wd_procs = (\<lambda>_. new_proc)(0 := \<lparr>pr_pc = Idle, pr_pending = [example_owned], pr_result = Some GotGate,
        pr_drawn = {example_nonce}\<rparr>)\<rparr>"
  by (simp add: example_taken_def example_steps example_owned_def)

lemma example_taken_reachable: "reachable_gate example_ids example_taken"
proof -
  have "reachable_gate example_ids example_start" unfolding example_start_def by (rule rg_start)
  moreover have "may_run example_ids 0 taking example_start" by (simp add: example_steps)
  ultimately show ?thesis unfolding example_taken_def by (intro run_reachable) (simp_all add: example_start_def)
qed

lemma one_gate_holder_witness:
  "(0::nat) = 0 \<and> example_owned = example_owned
    \<and> wd_gate example_taken = Some \<lparr>nd_ino = og_ino example_owned, nd_owner = Some (og_owner example_owned)\<rparr>"
  by (rule one_gate_holder [OF example_taken_reachable]) (simp_all add: example_taken_eq example_owned_def)

definition example_crashed :: gate_world where
  "example_crashed = example_taken\<lparr>wd_alive := wd_alive example_taken - {0}\<rparr>"

lemma dead_gate_recovered_witness:
  "reachable_gate example_ids (run_gate example_ids 1 (recovery (js ''x'') 6 8) example_crashed)
    \<and> pr_result (wd_procs (run_gate example_ids 1 (recovery (js ''x'') 6 8) example_crashed) 1) = Some GotGate
    \<and> pr_pending (wd_procs (run_gate example_ids 1 (recovery (js ''x'') 6 8) example_crashed) 1) =
        [\<lparr>og_ino = 8, og_owner = leaseOwner (example_ids 1) (js ''x'') 6, og_requested = False, og_retired = False\<rparr>]
    \<and> ow_nonce (leaseOwner (example_ids 0) example_nonce 5)
        \<in> wd_tombstones (run_gate example_ids 1 (recovery (js ''x'') 6 8) example_crashed)"
proof (rule dead_gate_recovered)
  show "reachable_gate example_ids example_crashed"
    unfolding example_crashed_def by (intro rg_crash example_taken_reachable)
  show "1 \<in> wd_alive example_crashed" "pr_pc (wd_procs example_crashed 1) = Idle"
    "pr_pending (wd_procs example_crashed 1) = []"
    "wd_gate example_crashed = Some \<lparr>nd_ino = 7, nd_owner = Some (leaseOwner (example_ids 0) example_nonce 5)\<rparr>"
    "nd_owner \<lparr>nd_ino = 7, nd_owner = Some (leaseOwner (example_ids 0) example_nonce 5)\<rparr> = Some (leaseOwner (example_ids 0) example_nonce 5)"
    by (simp_all add: example_crashed_def example_taken_eq new_proc_def)
  show "ownerState (example_ids 1) Dead (leaseOwner (example_ids 0) example_nonce 5) = Dead" by code_simp
next
  fix q assume "q \<in> wd_alive example_crashed" "id_pid (example_ids q) = ow_pid (leaseOwner (example_ids 0) example_nonce 5)"
  then show "\<not> same_domain (id_domain (example_ids 1)) (leaseOwner (example_ids q) [] 0)"
    by (simp add: example_crashed_def example_taken_eq example_ids_def leaseOwner_def)
next
  fix q
  have "js ''x'' \<noteq> example_nonce" by code_simp
  then show "js ''x'' \<notin> pr_drawn (wd_procs example_crashed q)"
    by (simp add: example_crashed_def example_taken_eq new_proc_def)
qed

end
