(* ===== verification/Base64.thy ===== *)
theory Base64
  imports Prelude "HOL-Library.Word"
begin

text \<open>
  Bytes and their base64, as \<open>Buffer\<close> writes and reads it. Reading skips what is no digit and stops at the
  padding; the sources accept a text only when it is what writing its bytes gives.
\<close>

type_synonym byte = "8 word"

definition b64_digit :: "int \<Rightarrow> cu" where
  "b64_digit i = (if i < 26 then 65 + i else if i < 52 then 71 + i else if i < 62 then i - 4 else if i = 62 then 43 else 47)"

definition b64_value :: "cu \<Rightarrow> int option" where
  "b64_value c =
     (if 65 \<le> c \<and> c \<le> 90 then Some (c - 65)
      else if 97 \<le> c \<and> c \<le> 122 then Some (c - 71)
      else if 48 \<le> c \<and> c \<le> 57 then Some (c + 4)
      else if c = 43 \<or> c = 45 then Some 62
      else if c = 47 \<or> c = 95 then Some 63 else None)"

text \<open>Three bytes are four numbers of six bits.\<close>

fun sextets :: "byte list \<Rightarrow> int list" where
  "sextets [] = []"
| "sextets [a] = [uint a div 4, uint a mod 4 * 16]"
| "sextets [a, b] = [uint a div 4, uint a mod 4 * 16 + uint b div 16, uint b mod 16 * 4]"
| "sextets (a # b # c # r) =
     [uint a div 4, uint a mod 4 * 16 + uint b div 16, uint b mod 16 * 4 + uint c div 64, uint c mod 64] @ sextets r"

fun bytes_of :: "int list \<Rightarrow> byte list" where
  "bytes_of (p # q # r # s # ss) =
     [word_of_int (p * 4 + q div 16), word_of_int (q mod 16 * 16 + r div 4), word_of_int (r mod 4 * 64 + s)] @ bytes_of ss"
| "bytes_of [p, q, r] = [word_of_int (p * 4 + q div 16), word_of_int (q mod 16 * 16 + r div 4)]"
| "bytes_of [p, q] = [word_of_int (p * 4 + q div 16)]"
| "bytes_of _ = []"

definition b64_encode :: "byte list \<Rightarrow> jstring" where
  "b64_encode bs =
     map b64_digit (sextets bs) @ replicate ((3 - length bs mod 3) mod 3) (ch CHR ''='')"

definition b64_decode :: "jstring \<Rightarrow> byte list" where
  "b64_decode t = bytes_of (List.map_filter b64_value (takeWhile (\<lambda>c. c \<noteq> ch CHR ''='') t))"

lemma uint_byte: "0 \<le> uint (b :: byte)" "uint (b :: byte) < 256"
  using unsigned_less [of b] by simp_all

lemma sextets_range: "s \<in> set (sextets bs) \<Longrightarrow> 0 \<le> s \<and> s < 64"
proof (induction bs rule: sextets.induct)
  case (2 a)
  then show ?case using uint_byte [of a] by (auto simp: pos_imp_zdiv_nonneg_iff)
next
  case (3 a b)
  then show ?case using uint_byte [of a] uint_byte [of b] by (auto simp: pos_imp_zdiv_nonneg_iff; linarith?)
next
  case (4 a b c r)
  then show ?case using uint_byte [of a] uint_byte [of b] uint_byte [of c] by (auto simp: pos_imp_zdiv_nonneg_iff; linarith?)
qed simp

lemma value_digit: "0 \<le> i \<Longrightarrow> i < 64 \<Longrightarrow> b64_value (b64_digit i) = Some i \<and> b64_digit i \<noteq> 61"
  by (auto simp: b64_value_def b64_digit_def)

lemma high_part: "0 \<le> l \<Longrightarrow> l < n \<Longrightarrow> (h * n + l) div n = (h :: int)"
  by (simp add: div_add1_eq)

lemma low_part: "0 \<le> l \<Longrightarrow> l < n \<Longrightarrow> (h * n + l) mod n = (l :: int)"
  by simp

lemma two_parts:
  fixes a b :: byte
  shows "uint a div 4 * 4 + (uint a mod 4 * 16 + uint b div 16) div 16 = uint a"
    "(uint a mod 4 * 16 + uint b div 16) mod 16 = uint b div 16"
    "uint b div 16 * 16 + (uint b mod 16 * 4 + uint c div 64) div 4 = uint b"
    "(uint b mod 16 * 4 + uint (c :: byte) div 64) mod 4 = uint c div 64"
    "uint b div 16 * 16 + (uint b mod 16 * 4) div 4 = uint b" "uint a div 4 * 4 + (uint a mod 4 * 16) div 16 = uint a"
proof -
  have lt: "uint b div 16 < 16" "0 \<le> uint b div 16" "uint c div 64 < 4" "0 \<le> uint c div 64"
    using uint_byte [of b] uint_byte [of c] by (auto simp: pos_imp_zdiv_nonneg_iff)
  show "uint a div 4 * 4 + (uint a mod 4 * 16 + uint b div 16) div 16 = uint a"
    "uint b div 16 * 16 + (uint b mod 16 * 4 + uint c div 64) div 4 = uint b"
    using lt by (simp_all only: high_part) simp_all
  show "(uint a mod 4 * 16 + uint b div 16) mod 16 = uint b div 16" "(uint b mod 16 * 4 + uint c div 64) mod 4 = uint c div 64"
    using lt by (simp_all only: low_part)
qed simp_all

lemma bytes_sextets: "bytes_of (sextets bs) = bs"
  by (induction bs rule: sextets.induct)
    (simp_all only: sextets.simps bytes_of.simps append.simps two_parts word_of_int_uint high_part [symmetric] div_mult_mod_eq)

lemma filter_values: "(\<And>s. s \<in> set ss \<Longrightarrow> 0 \<le> s \<and> s < 64) \<Longrightarrow> List.map_filter b64_value (map b64_digit ss) = ss"
  by (induction ss) (simp_all add: map_filter_simps value_digit)

lemma b64_decode_encode [simp]: "b64_decode (b64_encode bs) = bs"
proof -
  let ?ds = "map b64_digit (sextets bs)"
  have "\<forall>c \<in> set ?ds. c \<noteq> ch CHR ''=''" using sextets_range value_digit by (auto simp: js_simps)
  then have "takeWhile (\<lambda>c. c \<noteq> ch CHR ''='') (b64_encode bs) = ?ds"
    unfolding b64_encode_def by (subst takeWhile_append2) (auto intro: takeWhile_eq_Nil_iff [THEN iffD2])
  then show ?thesis using filter_values [of "sextets bs"] sextets_range by (simp add: b64_decode_def bytes_sextets)
qed

lemma b64_length: "length (b64_encode bs) = 4 * ((length bs + 2) div 3)"
proof (induction bs rule: sextets.induct)
  case (4 a b c r)
  have "length (a # b # c # r) = length r + 3" by simp
  moreover have "(n + 3) mod 3 = n mod 3" "(n + 3 + 2) div 3 = Suc ((n + 2) div 3)" for n :: nat by presburger+
  ultimately have "length (a # b # c # r) mod 3 = length r mod 3" "(length (a # b # c # r) + 2) div 3 = Suc ((length r + 2) div 3)"
    by simp_all
  then show ?case using 4 by (simp only: b64_encode_def length_append length_map length_replicate) simp
qed (simp_all add: b64_encode_def)

lemma b64_encode_inject [simp]: "b64_encode a = b64_encode b \<longleftrightarrow> a = b"
  by (metis b64_decode_encode)

end
