(* ===== verification/Uploads.thy ===== *)
theory Uploads
  imports Base64
begin

text \<open>
  Images that a client stages for a message (\<open>packages/cli/src/server/uploads.ts\<close>, \<open>images.ts\<close>,
  \<open>file-support.ts\<close>, \<open>upload-send.ts\<close>): begun with their size and digest, filled in chunks, finished, and
  locked by the message that carries them until it is accepted or not. The digest is an argument; the
  clock, the session's generation and drawn identifiers are given with each call.
\<close>

section \<open>Images\<close>

definition MAX_IMAGE_BYTES :: nat where
  "MAX_IMAGE_BYTES = 5 * 1024 * 1024"

definition MAX_UPLOAD_CHUNK_BYTES :: nat where
  "MAX_UPLOAD_CHUNK_BYTES = 128 * 1024"

datatype mime = Png | Jpeg | Gif | Webp

text \<open>\<open>path.extname\<close> of a name without slashes.\<close>

definition extname :: "jstring \<Rightarrow> jstring" where
  "extname n =
     (let ext = rev (takeWhile (\<lambda>c. c \<noteq> ch CHR ''.'') (rev n));
          stem = length n - length ext
      in if stem \<le> 1 \<or> n = js ''..'' then [] else ch CHR ''.'' # ext)"

definition mime_of :: "jstring \<Rightarrow> mime option" where
  "mime_of ext =
     (if ext = js ''.png'' then Some Png
      else if ext = js ''.jpg'' \<or> ext = js ''.jpeg'' then Some Jpeg
      else if ext = js ''.gif'' then Some Gif
      else if ext = js ''.webp'' then Some Webp else None)"

text \<open>Reading bytes as ASCII drops their highest bit.\<close>

definition ascii :: "byte list \<Rightarrow> jstring" where
  "ascii bs = map (\<lambda>b. uint b mod 128) bs"

definition signature_ok :: "mime \<Rightarrow> byte list \<Rightarrow> bool" where
  "signature_ok m bs =
     (case m of
        Png \<Rightarrow> take 8 bs = [137, 80, 78, 71, 13, 10, 26, 10]
      | Jpeg \<Rightarrow> take 3 bs = [255, 216, 255]
      | Gif \<Rightarrow> ascii (take 6 bs) = js ''GIF87a'' \<or> ascii (take 6 bs) = js ''GIF89a''
      | Webp \<Rightarrow> ascii (take 4 bs) = js ''RIFF'' \<and> ascii (take 4 (drop 8 bs)) = js ''WEBP'')"

datatype upload_error = Cancelled | StaleSession | Refused string

definition checkedImage :: "byte list \<Rightarrow> jstring \<Rightarrow> mime \<Rightarrow> upload_error option" where
  "checkedImage bs name m =
     (if bs = [] \<or> MAX_IMAGE_BYTES < length bs then Some (Refused ''Images are limited to 5 MiB'')
      else if mime_of (to_lower (extname name)) \<noteq> Some m then Some (Refused ''Unsupported image format'')
      else if \<not> signature_ok m bs then Some (Refused ''Image data does not match its MIME type'')
      else None)"

section \<open>Calls\<close>

text \<open>What a call sees: the clock, the generation, what it was made for, and whether it was cancelled.\<close>

record moment =
  mo_now :: int
  mo_generation :: nat
  mo_expected :: "nat option"
  mo_aborted :: bool

definition operationGuard :: "moment \<Rightarrow> upload_error option" where
  "operationGuard e =
     (if mo_aborted e then Some Cancelled
      else if (case mo_expected e of None \<Rightarrow> mo_generation e | Some g \<Rightarrow> g) \<noteq> mo_generation e then Some StaleSession
      else None)"

record upload =
  up_id :: jstring
  up_attachmentId :: "jstring option"
  up_generation :: nat
  up_expires :: int
  up_name :: jstring
  up_mimeType :: mime
  up_hash :: jstring
  up_buffer :: "byte list"
  up_received :: nat
  up_locked :: "nat option"

record image =
  im_name :: jstring
  im_mimeType :: mime
  im_data :: jstring

text \<open>What \<open>prepare\<close> gives out; its place in the list is its symbol.\<close>

datatype fate = Open | Committed | RolledBack

record ticket =
  tk_selected :: "jstring list"
  tk_images :: "image list"
  tk_fate :: fate

record staging =
  sg_uploads :: "upload list"
  sg_tickets :: "ticket list"

definition prune_uploads :: "moment \<Rightarrow> staging \<Rightarrow> staging" where
  "prune_uploads e s = s\<lparr>sg_uploads :=
     filter (\<lambda>u. up_locked u \<noteq> None \<or> \<not> (up_expires u \<le> mo_now e \<or> up_generation u \<noteq> mo_generation e)) (sg_uploads s)\<rparr>"

definition get_upload :: "jstring \<Rightarrow> staging \<Rightarrow> upload option" where
  "get_upload i s = find (\<lambda>u. up_id u = i) (sg_uploads s)"

definition delete_upload :: "jstring \<Rightarrow> staging \<Rightarrow> staging" where
  "delete_upload i s = s\<lparr>sg_uploads := filter (\<lambda>u. up_id u \<noteq> i) (sg_uploads s)\<rparr>"

definition change_upload :: "jstring \<Rightarrow> (upload \<Rightarrow> upload) \<Rightarrow> staging \<Rightarrow> staging" where
  "change_upload i f s = s\<lparr>sg_uploads := map (\<lambda>u. if up_id u = i then f u else u) (sg_uploads s)\<rparr>"

definition find_upload :: "moment \<Rightarrow> jstring \<Rightarrow> staging \<Rightarrow> upload_error + upload" where
  "find_upload e i s =
     (case get_upload i s of
        None \<Rightarrow> Inl (Refused ''The upload expired'')
      | Some u \<Rightarrow> if up_generation u \<noteq> mo_generation e then Inl (Refused ''The upload expired'') else Inr u)"

definition total_bytes :: "upload list \<Rightarrow> nat" where
  "total_bytes us = sum_list (map (\<lambda>u. length (up_buffer u)) us)"

section \<open>Operations\<close>

text \<open>The parameters as their schemas allow them.\<close>

definition opaque_id :: "jstring \<Rightarrow> bool" where
  "opaque_id t \<longleftrightarrow> 1 \<le> length t \<and> length t \<le> 128"

definition image_name :: "jstring \<Rightarrow> bool" where
  "image_name t \<longleftrightarrow>
     1 \<le> length t \<and> length t \<le> 255 \<and> list_all (\<lambda>c. c \<noteq> ch CHR ''/'' \<and> c \<noteq> 92 \<and> \<not> (0 \<le> c \<and> c \<le> 31) \<and> c \<noteq> 127) t"

definition sha256_text :: "jstring \<Rightarrow> bool" where
  "sha256_text t \<longleftrightarrow> length t = 64 \<and> list_all (\<lambda>c. (97 \<le> c \<and> c \<le> 102) \<or> is_digit c) t"

definition chunk_text :: "jstring \<Rightarrow> bool" where
  "chunk_text t \<longleftrightarrow> 4 \<le> length t \<and> length t \<le> 4 * ((MAX_UPLOAD_CHUNK_BYTES + 2) div 3)"

definition invalid :: upload_error where
  "invalid = Refused ''Invalid file operation parameters''"

definition uploads_begin ::
  "int \<Rightarrow> moment \<Rightarrow> jstring \<Rightarrow> mime \<Rightarrow> nat \<Rightarrow> jstring \<Rightarrow> jstring \<Rightarrow> staging \<Rightarrow> (upload_error + jstring) \<times> staging" where
  "uploads_begin ttl e name m bytes hash i s =
     (if \<not> (image_name name \<and> 1 \<le> bytes \<and> bytes \<le> MAX_IMAGE_BYTES \<and> sha256_text hash) then (Inl invalid, s)
      else case operationGuard e of
        Some x \<Rightarrow> (Inl x, s)
      | None \<Rightarrow>
          let s1 = prune_uploads e s;
              used = total_bytes (sg_uploads s1)
          in if 8 \<le> length (sg_uploads s1) \<or> MAX_IMAGE_BYTES < used + bytes
             then (Inl (Refused ''Image upload capacity exceeded''), s1)
             else (Inr i, s1\<lparr>sg_uploads := sg_uploads s1 @
               [\<lparr>up_id = i, up_attachmentId = None, up_generation = mo_generation e, up_expires = mo_now e + ttl, up_name = name,
                 up_mimeType = m, up_hash = hash, up_buffer = replicate bytes 0, up_received = 0, up_locked = None\<rparr>]\<rparr>))"

definition uploads_chunk ::
  "int \<Rightarrow> moment \<Rightarrow> jstring \<Rightarrow> nat \<Rightarrow> jstring \<Rightarrow> staging \<Rightarrow> (upload_error + nat) \<times> staging" where
  "uploads_chunk ttl e i off data s =
     (if \<not> (opaque_id i \<and> chunk_text data) then (Inl invalid, s)
      else case operationGuard e of
        Some x \<Rightarrow> (Inl x, s)
      | None \<Rightarrow>
          let s1 = prune_uploads e s
          in case find_upload e i s1 of
               Inl x \<Rightarrow> (Inl x, s1)
             | Inr u \<Rightarrow>
                 if up_attachmentId u \<noteq> None \<or> up_locked u \<noteq> None \<or> off \<noteq> up_received u
                 then (Inl (Refused ''Invalid upload offset or state''), s1)
                 else
                   let bs = b64_decode data
                   in if bs = [] \<or> MAX_UPLOAD_CHUNK_BYTES < length bs \<or> b64_encode bs \<noteq> data
                         \<or> length (up_buffer u) < off + length bs
                      then (Inl (Refused ''Invalid upload chunk''), s1)
                      else (Inr (up_received u + length bs),
                        change_upload i (\<lambda>u. u\<lparr>up_buffer := take off (up_buffer u) @ bs @ drop (off + length bs) (up_buffer u),
                          up_received := up_received u + length bs, up_expires := mo_now e + ttl\<rparr>) s1))"

definition uploads_finish ::
  "(byte list \<Rightarrow> jstring) \<Rightarrow> int \<Rightarrow> moment \<Rightarrow> jstring \<Rightarrow> jstring \<Rightarrow> staging \<Rightarrow> (upload_error + jstring) \<times> staging" where
  "uploads_finish digest ttl e i fresh s =
     (if \<not> opaque_id i then (Inl invalid, s)
      else case operationGuard e of
        Some x \<Rightarrow> (Inl x, s)
      | None \<Rightarrow>
          let s1 = prune_uploads e s
          in case find_upload e i s1 of
               Inl x \<Rightarrow> (Inl x, s1)
             | Inr u \<Rightarrow>
                 (case up_attachmentId u of
                    Some a \<Rightarrow> (Inr a, s1)
                  | None \<Rightarrow>
                      if up_received u \<noteq> length (up_buffer u) \<or> digest (up_buffer u) \<noteq> up_hash u
                      then (Inl (Refused ''Image upload length or checksum mismatch''), delete_upload i s1)
                      else case checkedImage (up_buffer u) (up_name u) (up_mimeType u) of
                          Some x \<Rightarrow> (Inl x, delete_upload i s1)
                        | None \<Rightarrow>
                            (Inr fresh, change_upload i (\<lambda>u. u\<lparr>up_attachmentId := Some fresh, up_expires := mo_now e + ttl\<rparr>) s1)))"

definition uploads_cancel :: "moment \<Rightarrow> jstring \<Rightarrow> staging \<Rightarrow> (upload_error + bool) \<times> staging" where
  "uploads_cancel e i s =
     (if \<not> opaque_id i then (Inl invalid, s)
      else case operationGuard e of
        Some x \<Rightarrow> (Inl x, s)
      | None \<Rightarrow>
          let s1 = prune_uploads e s
          in case get_upload i s1 of
               None \<Rightarrow> (Inr False, s1)
             | Some u \<Rightarrow> if up_locked u \<noteq> None then (Inr False, s1) else (Inr True, delete_upload i s1))"

text \<open>The attachments of a message, in its order; one named twice is there twice.\<close>

fun select :: "moment \<Rightarrow> jstring list \<Rightarrow> upload list \<Rightarrow> upload list option" where
  "select e [] us = Some []"
| "select e (a # as) us =
     (case find (\<lambda>u. up_attachmentId u = Some a) us of
        None \<Rightarrow> None
      | Some u \<Rightarrow>
          if up_generation u \<noteq> mo_generation e \<or> up_locked u \<noteq> None then None
          else (case select e as us of None \<Rightarrow> None | Some r \<Rightarrow> Some (u # r)))"

definition image_of :: "upload \<Rightarrow> image" where
  "image_of u = \<lparr>im_name = up_name u, im_mimeType = up_mimeType u, im_data = b64_encode (up_buffer u)\<rparr>"

definition prepare_uploads :: "moment \<Rightarrow> jstring list \<Rightarrow> staging \<Rightarrow> (upload_error + nat) \<times> staging" where
  "prepare_uploads e as s =
     (case operationGuard e of
        Some x \<Rightarrow> (Inl x, s)
      | None \<Rightarrow>
          let s1 = prune_uploads e s
          in case select e as (sg_uploads s1) of
               None \<Rightarrow> (Inl (Refused ''The attachment expired or is in use''), s1)
             | Some us \<Rightarrow>
                 if MAX_IMAGE_BYTES < total_bytes us then (Inl (Refused ''Images in a message are limited to 5 MiB total''), s1)
                 else
                   let token = length (sg_tickets s1); ids = map up_id us
                   in (Inr token,
                       \<lparr>sg_uploads = map (\<lambda>u. if up_id u \<in> set ids then u\<lparr>up_locked := Some token\<rparr> else u) (sg_uploads s1),
                        sg_tickets = sg_tickets s1 @ [\<lparr>tk_selected = ids, tk_images = map image_of us, tk_fate = Open\<rparr>]\<rparr>))"

definition settle_ticket :: "nat \<Rightarrow> fate \<Rightarrow> staging \<Rightarrow> staging" where
  "settle_ticket k f s = s\<lparr>sg_tickets := (sg_tickets s)[k := (sg_tickets s ! k)\<lparr>tk_fate := f\<rparr>]\<rparr>"

definition commit_uploads :: "nat \<Rightarrow> staging \<Rightarrow> staging" where
  "commit_uploads k s =
     (if length (sg_tickets s) \<le> k \<or> tk_fate (sg_tickets s ! k) \<noteq> Open then s
      else (settle_ticket k Committed s)\<lparr>sg_uploads :=
        filter (\<lambda>u. up_id u \<notin> set (tk_selected (sg_tickets s ! k))) (sg_uploads s)\<rparr>)"

definition rollback_uploads :: "moment \<Rightarrow> nat \<Rightarrow> staging \<Rightarrow> staging" where
  "rollback_uploads e k s =
     (if length (sg_tickets s) \<le> k \<or> tk_fate (sg_tickets s ! k) \<noteq> Open then s
      else prune_uploads e ((settle_ticket k RolledBack s)\<lparr>sg_uploads :=
        map (\<lambda>u. if up_id u \<in> set (tk_selected (sg_tickets s ! k)) \<and> up_locked u = Some k then u\<lparr>up_locked := None\<rparr> else u)
          (sg_uploads s)\<rparr>))"

definition dispose_uploads :: "staging \<Rightarrow> staging" where
  "dispose_uploads s = s\<lparr>sg_uploads := []\<rparr>"

section \<open>Runs\<close>

datatype upload_call =
  UBegin moment jstring mime nat jstring jstring
| UChunk moment jstring nat jstring
| UFinish moment jstring jstring
| UCancel moment jstring
| UPrepare moment "jstring list"
| UCommit nat
| URollback moment nat
| UDispose

fun upload_step :: "(byte list \<Rightarrow> jstring) \<Rightarrow> int \<Rightarrow> upload_call \<Rightarrow> staging \<Rightarrow> staging" where
  "upload_step digest ttl (UBegin e name m bytes hash i) s = snd (uploads_begin ttl e name m bytes hash i s)"
| "upload_step digest ttl (UChunk e i off data) s = snd (uploads_chunk ttl e i off data s)"
| "upload_step digest ttl (UFinish e i fresh) s = snd (uploads_finish digest ttl e i fresh s)"
| "upload_step digest ttl (UCancel e i) s = snd (uploads_cancel e i s)"
| "upload_step digest ttl (UPrepare e as) s = snd (prepare_uploads e as s)"
| "upload_step digest ttl (UCommit k) s = commit_uploads k s"
| "upload_step digest ttl (URollback e k) s = rollback_uploads e k s"
| "upload_step digest ttl UDispose s = dispose_uploads s"

fun upload_run :: "(byte list \<Rightarrow> jstring) \<Rightarrow> int \<Rightarrow> upload_call list \<Rightarrow> staging \<Rightarrow> staging" where
  "upload_run digest ttl [] s = s"
| "upload_run digest ttl (c # cs) s = upload_run digest ttl cs (upload_step digest ttl c s)"

definition no_uploads :: staging where
  "no_uploads = \<lparr>sg_uploads = [], sg_tickets = []\<rparr>"

section \<open>Capacity\<close>

definition upload_ok :: "(byte list \<Rightarrow> jstring) \<Rightarrow> upload \<Rightarrow> bool" where
  "upload_ok digest u \<longleftrightarrow>
     up_received u \<le> length (up_buffer u)
     \<and> (up_attachmentId u \<noteq> None \<longrightarrow>
          up_received u = length (up_buffer u) \<and> digest (up_buffer u) = up_hash u
          \<and> checkedImage (up_buffer u) (up_name u) (up_mimeType u) = None)"

definition capacity_ok :: "(byte list \<Rightarrow> jstring) \<Rightarrow> upload list \<Rightarrow> bool" where
  "capacity_ok digest us \<longleftrightarrow> length us \<le> 8 \<and> total_bytes us \<le> MAX_IMAGE_BYTES \<and> list_all (upload_ok digest) us"

lemma total_filter: "total_bytes (filter P us) \<le> total_bytes us"
  by (induction us) (auto simp: total_bytes_def)

lemma total_map: "(\<And>u. u \<in> set us \<Longrightarrow> length (up_buffer (f u)) = length (up_buffer u)) \<Longrightarrow> total_bytes (map f us) = total_bytes us"
  by (induction us) (simp_all add: total_bytes_def)

lemma fits_filter: "capacity_ok digest us \<Longrightarrow> capacity_ok digest (filter P us)"
  using total_filter [of P us] unfolding capacity_ok_def list_all_iff by (auto intro: le_trans [OF length_filter_le])

lemma fits_map:
  "capacity_ok digest us \<Longrightarrow> (\<And>u. u \<in> set us \<Longrightarrow> length (up_buffer (f u)) = length (up_buffer u) \<and> upload_ok digest (f u)) \<Longrightarrow>
     capacity_ok digest (map f us)"
  by (auto simp: capacity_ok_def list_all_iff total_map)

lemma fits_ok: "capacity_ok digest us \<Longrightarrow> u \<in> set us \<Longrightarrow> upload_ok digest u"
  by (simp add: capacity_ok_def list_all_iff)

lemma fits_prune [intro]: "capacity_ok digest (sg_uploads s) \<Longrightarrow> capacity_ok digest (sg_uploads (prune_uploads e s))"
  by (simp add: prune_uploads_def fits_filter)

lemma fits_delete [intro]: "capacity_ok digest (sg_uploads s) \<Longrightarrow> capacity_ok digest (sg_uploads (delete_upload i s))"
  by (simp add: delete_upload_def fits_filter)

lemma get_upload_in: "get_upload i s = Some u \<Longrightarrow> u \<in> set (sg_uploads s) \<and> up_id u = i"
  by (auto simp: get_upload_def find_Some_iff)

lemma find_upload_Inr: "find_upload e i s = Inr u \<Longrightarrow> get_upload i s = Some u \<and> up_generation u = mo_generation e"
  by (auto simp: find_upload_def split: option.splits if_splits)

text \<open>Identifiers are unique among the staged uploads.\<close>

lemma fits_change:
  assumes "capacity_ok digest (sg_uploads s)" "get_upload i s = Some u" "distinct (map up_id (sg_uploads s))"
    "length (up_buffer (f u)) = length (up_buffer u)" "upload_ok digest (f u)"
  shows "capacity_ok digest (sg_uploads (change_upload i f s))"
proof -
  have "v = u" if "v \<in> set (sg_uploads s)" "up_id v = i" for v
    using get_upload_in [OF assms(2)] assms(3) that unfolding distinct_map by (metis inj_onD)
  then show ?thesis using assms fits_ok by (auto simp: change_upload_def intro!: fits_map)
qed

definition named_once :: "staging \<Rightarrow> bool" where
  "named_once s \<longleftrightarrow> distinct (map up_id (sg_uploads s))"

definition upload_ids :: "staging \<Rightarrow> jstring set" where
  "upload_ids s = up_id ` set (sg_uploads s)"

lemma distinct_map_filter_ids: "distinct (map f xs) \<Longrightarrow> distinct (map f (filter P xs))"
  by (induction xs) auto

lemma named_once_simps [simp]:
  "named_once s \<Longrightarrow> named_once (prune_uploads e s)" "named_once s \<Longrightarrow> named_once (delete_upload i s)"
  by (simp_all add: named_once_def prune_uploads_def delete_upload_def distinct_map_filter_ids)

lemma ids_changed:
  "(\<And>u. up_id (f u) = up_id u) \<Longrightarrow> map up_id (map (\<lambda>u. if P u then f u else u) us) = map up_id us"
  by (induction us) auto

lemma named_once_change [simp]: "(\<And>u. up_id (f u) = up_id u) \<Longrightarrow> named_once (change_upload i f s) = named_once s"
proof -
  assume "\<And>u. up_id (f u) = up_id u"
  then have "map up_id (sg_uploads (change_upload i f s)) = map up_id (sg_uploads s)"
    by (simp add: change_upload_def ids_changed del: map_map)
  then show "named_once (change_upload i f s) = named_once s" by (simp only: named_once_def)
qed

section \<open>Tickets\<close>

definition live_ticket :: "staging \<Rightarrow> nat \<Rightarrow> bool" where
  "live_ticket s k \<longleftrightarrow> k < length (sg_tickets s) \<and> tk_fate (sg_tickets s ! k) \<noteq> RolledBack"

definition picked :: "staging \<Rightarrow> nat \<Rightarrow> jstring set" where
  "picked s k = set (tk_selected (sg_tickets s ! k))"

definition lock_ok :: "staging \<Rightarrow> upload \<Rightarrow> bool" where
  "lock_ok s u \<longleftrightarrow>
     (\<forall>k. up_locked u = Some k \<longrightarrow>
        k < length (sg_tickets s) \<and> tk_fate (sg_tickets s ! k) = Open \<and> up_id u \<in> picked s k)
     \<and> (\<forall>k. live_ticket s k \<longrightarrow> up_id u \<in> picked s k \<longrightarrow> up_locked u = Some k)"

definition locks_ok :: "staging \<Rightarrow> bool" where
  "locks_ok s \<longleftrightarrow> (\<forall>u \<in> set (sg_uploads s). lock_ok s u)"

lemma lock_ok_same:
  "sg_tickets s' = sg_tickets s \<Longrightarrow> up_id u' = up_id u \<Longrightarrow> up_locked u' = up_locked u \<Longrightarrow> lock_ok s' u' = lock_ok s u"
  by (simp add: lock_ok_def live_ticket_def picked_def)

definition tickets_ok :: "jstring set \<Rightarrow> staging \<Rightarrow> bool" where
  "tickets_ok D s \<longleftrightarrow>
     upload_ids s \<subseteq> D \<and> (\<forall>k. live_ticket s k \<longrightarrow> picked s k \<subseteq> D)
     \<and> (\<forall>j k. live_ticket s j \<longrightarrow> live_ticket s k \<longrightarrow> j \<noteq> k \<longrightarrow> picked s j \<inter> picked s k = {})"

lemma committed_gone:
  assumes "locks_ok s" "k < length (sg_tickets s)" "tk_fate (sg_tickets s ! k) = Committed"
  shows "picked s k \<inter> upload_ids s = {}"
proof -
  have False if u: "u \<in> set (sg_uploads s)" "up_id u \<in> picked s k" for u
  proof -
    have "live_ticket s k" using assms(2,3) by (simp add: live_ticket_def)
    then have "up_locked u = Some k" using assms(1) u unfolding locks_ok_def lock_ok_def by blast
    then have "tk_fate (sg_tickets s ! k) = Open" using assms(1) u(1) unfolding locks_ok_def lock_ok_def by blast
    then show False using assms(3) by simp
  qed
  then show ?thesis by (auto simp: upload_ids_def)
qed

text \<open>A call that only takes uploads away, or changes them apart from their locks.\<close>

definition no_more :: "staging \<Rightarrow> staging \<Rightarrow> bool" where
  "no_more s s' \<longleftrightarrow>
     sg_tickets s' = sg_tickets s
     \<and> (\<forall>u' \<in> set (sg_uploads s'). \<exists>u \<in> set (sg_uploads s). up_id u = up_id u' \<and> up_locked u = up_locked u')"

lemma no_more_ok:
  assumes "no_more s s'" "locks_ok s" "tickets_ok D s"
  shows "locks_ok s'" "tickets_ok D s'"
proof -
  have t: "sg_tickets s' = sg_tickets s" using assms(1) by (simp add: no_more_def)
  then have same: "live_ticket s' = live_ticket s" "picked s' = picked s" by (simp_all add: live_ticket_def picked_def fun_eq_iff)
  have old: "\<exists>u \<in> set (sg_uploads s). up_id u = up_id u' \<and> up_locked u = up_locked u'" if "u' \<in> set (sg_uploads s')" for u'
    using assms(1) that by (simp add: no_more_def)
  show "locks_ok s'" using assms(2) old lock_ok_same [OF t] unfolding locks_ok_def by metis
  show "tickets_ok D s'" using assms(3) old unfolding tickets_ok_def same upload_ids_def by (auto simp: image_iff; metis subsetD image_eqI)
qed

lemma no_more_trans: "no_more a b \<Longrightarrow> no_more b c \<Longrightarrow> no_more a c"
  unfolding no_more_def by metis

lemma no_more_simps [simp]:
  "no_more s s" "no_more s (prune_uploads e s)" "no_more s (delete_upload i s)" "no_more s (dispose_uploads s)"
  "(\<And>u. up_id (f u) = up_id u \<and> up_locked (f u) = up_locked u) \<Longrightarrow> no_more s (change_upload i f s)"
  by (auto simp: no_more_def prune_uploads_def delete_upload_def change_upload_def dispose_uploads_def)

definition staging_ok :: "(byte list \<Rightarrow> jstring) \<Rightarrow> jstring set \<Rightarrow> staging \<Rightarrow> bool" where
  "staging_ok digest D s \<longleftrightarrow> named_once s \<and> capacity_ok digest (sg_uploads s) \<and> locks_ok s \<and> tickets_ok D s"

lemma staging_ok_less:
  "staging_ok digest D s \<Longrightarrow> no_more s s' \<Longrightarrow> named_once s' \<Longrightarrow> capacity_ok digest (sg_uploads s') \<Longrightarrow> staging_ok digest D s'"
  using no_more_ok by (auto simp: staging_ok_def)

lemma staging_ok_prune [simp]: "staging_ok digest D s \<Longrightarrow> staging_ok digest D (prune_uploads e s)"
  by (rule staging_ok_less) (auto simp: staging_ok_def)

lemma staging_ok_delete [simp]: "staging_ok digest D s \<Longrightarrow> staging_ok digest D (delete_upload i s)"
  by (rule staging_ok_less) (auto simp: staging_ok_def)

lemma staging_ok_change:
  assumes "staging_ok digest D s" "get_upload i s = Some u" "\<And>v. up_id (f v) = up_id v \<and> up_locked (f v) = up_locked v"
    "length (up_buffer (f u)) = length (up_buffer u)" "upload_ok digest (f u)"
  shows "staging_ok digest D (change_upload i f s)"
proof (rule staging_ok_less [OF assms(1)])
  show "named_once (change_upload i f s)" using assms(1,3) by (simp add: staging_ok_def)
  show "capacity_ok digest (sg_uploads (change_upload i f s))"
    using assms by (intro fits_change) (auto simp: staging_ok_def named_once_def)
qed (use assms(3) in simp)

lemma staging_ok_upload: "staging_ok digest D s \<Longrightarrow> get_upload i s = Some u \<Longrightarrow> upload_ok digest u"
  by (meson fits_ok get_upload_in staging_ok_def)

lemma chunk_ok: "staging_ok digest D s \<Longrightarrow> staging_ok digest D (snd (uploads_chunk ttl e i off data s))"
proof -
  assume ok: "staging_ok digest D s"
  let ?s = "prune_uploads e s"
  have "staging_ok digest D (change_upload i (\<lambda>u. u\<lparr>up_buffer := take off (up_buffer u) @ bs @ drop (off + length bs) (up_buffer u),
      up_received := up_received u + length bs, up_expires := t\<rparr>) ?s)"
    if u: "get_upload i ?s = Some u" "up_attachmentId u = None" "off = up_received u" "off + length bs \<le> length (up_buffer u)" for u bs t
    by (rule staging_ok_change [OF staging_ok_prune [OF ok] u(1)]) (use u in \<open>auto simp: upload_ok_def\<close>)
  then show ?thesis
    using ok by (auto simp: uploads_chunk_def Let_def not_less dest!: find_upload_Inr split: option.splits sum.splits if_splits)
qed

lemma finish_ok: "staging_ok digest D s \<Longrightarrow> staging_ok digest D (snd (uploads_finish digest ttl e i fresh s))"
proof -
  assume ok: "staging_ok digest D s"
  let ?s = "prune_uploads e s"
  have "staging_ok digest D (change_upload i (\<lambda>u. u\<lparr>up_attachmentId := Some fresh, up_expires := t\<rparr>) ?s)"
    if u: "get_upload i ?s = Some u" "up_received u = length (up_buffer u)" "digest (up_buffer u) = up_hash u"
      "checkedImage (up_buffer u) (up_name u) (up_mimeType u) = None" for u t
    by (rule staging_ok_change [OF staging_ok_prune [OF ok] u(1)]) (use u in \<open>auto simp: upload_ok_def\<close>)
  then show ?thesis
    using ok by (auto simp: uploads_finish_def Let_def dest!: find_upload_Inr split: option.splits sum.splits)
qed

lemma cancel_ok: "staging_ok digest D s \<Longrightarrow> staging_ok digest D (snd (uploads_cancel e i s))"
  by (auto simp: uploads_cancel_def Let_def split: option.splits)

lemma staging_ok_mono: "staging_ok digest D s \<Longrightarrow> D \<subseteq> D' \<Longrightarrow> staging_ok digest D' s"
  unfolding staging_ok_def tickets_ok_def by blast

lemma begin_ok:
  assumes "staging_ok digest D s" "i \<notin> D"
  shows "staging_ok digest (insert i D) (snd (uploads_begin ttl e name m bytes hash i s))"
proof -
  let ?s = "prune_uploads e s"
  have ok: "staging_ok digest D ?s" using assms(1) by simp
  have "staging_ok digest (insert i D) (?s\<lparr>sg_uploads := sg_uploads ?s @ [u]\<rparr>)"
    if u: "up_id u = i" "up_locked u = None" "up_attachmentId u = None" "up_received u = 0" "length (up_buffer u) = bytes"
      "length (sg_uploads ?s) < 8" "total_bytes (sg_uploads ?s) + bytes \<le> MAX_IMAGE_BYTES" for u
  proof -
    let ?t = "?s\<lparr>sg_uploads := sg_uploads ?s @ [u]\<rparr>"
    have same: "live_ticket ?t = live_ticket ?s" "picked ?t = picked ?s" by (simp_all add: live_ticket_def picked_def fun_eq_iff)
    have new: "i \<notin> upload_ids ?s" "\<And>k. live_ticket ?s k \<Longrightarrow> i \<notin> picked ?s k"
      using ok assms(2) by (auto simp: staging_ok_def tickets_ok_def)
    have "named_once ?t" using ok new(1) u(1) by (auto simp: staging_ok_def named_once_def upload_ids_def)
    moreover have "capacity_ok digest (sg_uploads ?t)"
      using ok u by (auto simp: staging_ok_def capacity_ok_def total_bytes_def upload_ok_def)
    moreover have "locks_ok ?t"
    proof -
      have "\<forall>v \<in> set (sg_uploads ?s). lock_ok ?t v"
        using ok lock_ok_same [of ?t ?s] by (simp add: staging_ok_def locks_ok_def)
      moreover have "lock_ok ?t u" using new(2) u(1,2) by (simp add: lock_ok_def same)
      ultimately show ?thesis by (simp add: locks_ok_def)
    qed
    moreover have "tickets_ok (insert i D) ?t"
    proof -
      have "tickets_ok D ?s" using ok by (simp add: staging_ok_def)
      moreover have "upload_ids ?t = insert i (upload_ids ?s)" using u(1) by (simp add: upload_ids_def)
      ultimately show ?thesis unfolding tickets_ok_def same by (simp add: subset_insertI2)
    qed
    ultimately show ?thesis by (simp add: staging_ok_def)
  qed
  moreover have "staging_ok digest (insert i D) s" by (rule staging_ok_mono [OF assms(1)]) auto
  moreover from this have "staging_ok digest (insert i D) ?s" by simp
  ultimately show ?thesis
    by (auto simp: uploads_begin_def Let_def not_le not_less split: option.splits)
qed

lemma locks_mapI: "sg_uploads t = map f us \<Longrightarrow> (\<And>u. u \<in> set us \<Longrightarrow> lock_ok t (f u)) \<Longrightarrow> locks_ok t"
  by (auto simp: locks_ok_def)

lemma select_Some:
  "select e as us = Some r \<Longrightarrow>
     map up_attachmentId r = map Some as \<and> (\<forall>u \<in> set r. u \<in> set us \<and> up_locked u = None)"
proof (induction as arbitrary: r)
  case (Cons a as)
  then show ?case
    by (auto split: option.splits if_splits simp: find_Some_iff)
qed simp

lemma prepare_ok:
  assumes "staging_ok digest D s"
  shows "staging_ok digest D (snd (prepare_uploads e as s))"
proof -
  let ?s = "prune_uploads e s"
  have ok: "staging_ok digest D ?s" using assms by simp
  have "staging_ok digest D
      \<lparr>sg_uploads = map (\<lambda>u. if up_id u \<in> set (map up_id us) then u\<lparr>up_locked := Some (length (sg_tickets ?s))\<rparr> else u) (sg_uploads ?s),
       sg_tickets = sg_tickets ?s @ [\<lparr>tk_selected = map up_id us, tk_images = ims, tk_fate = Open\<rparr>]\<rparr>" (is "staging_ok digest D ?t")
    if sel: "select e as (sg_uploads ?s) = Some us" for us ims
  proof -
    let ?k = "length (sg_tickets ?s)" and ?lock = "\<lambda>u. if up_id u \<in> set (map up_id us) then u\<lparr>up_locked := Some (length (sg_tickets ?s))\<rparr> else u"
    have us: "u \<in> set (sg_uploads ?s)" "up_locked u = None" if "u \<in> set us" for u
      using select_Some [OF sel] that by auto
    have free: "up_locked v = None" if v: "v \<in> set (sg_uploads ?s)" "up_id v \<in> up_id ` set us" for v
    proof -
      obtain u where u: "u \<in> set us" "up_id v = up_id u" using v(2) by auto
      have "inj_on up_id (set (sg_uploads ?s))" using ok by (simp add: staging_ok_def named_once_def distinct_map)
      then have "v = u" using v(1) us(1) [OF u(1)] u(2) by (simp add: inj_on_def)
      then show ?thesis using us(2) [OF u(1)] by simp
    qed
    have locks: "lock_ok ?s v" if "v \<in> set (sg_uploads ?s)" for v using ok that by (simp add: staging_ok_def locks_ok_def)
    define t where "t = ?t"
    have len: "length (sg_tickets t) = Suc ?k" "tk_fate (sg_tickets t ! ?k) = Open"
      "\<And>j. j < ?k \<Longrightarrow> tk_fate (sg_tickets t ! j) = tk_fate (sg_tickets ?s ! j)"
      by (simp_all add: t_def nth_append)
    have old: "live_ticket t j \<longleftrightarrow> live_ticket ?s j" "picked t j = picked ?s j" if "j < ?k" for j
      using that by (simp_all add: live_ticket_def picked_def nth_append t_def)
    have new: "live_ticket t ?k" "picked t ?k = up_id ` set us" by (simp_all add: live_ticket_def picked_def t_def)
    have range: "j < ?k \<or> j = ?k" if "live_ticket t j" for j using that len(1) by (auto simp: live_ticket_def)
    have apart: "up_id v \<notin> picked ?s j" if "v \<in> set (sg_uploads ?s)" "up_id v \<in> up_id ` set us" "live_ticket ?s j" for v j
      using free [OF that(1,2)] locks [OF that(1)] that(3) unfolding lock_ok_def by (metis option.distinct(1))
    have uploads: "sg_uploads t = map ?lock (sg_uploads ?s)" by (simp add: t_def)
    have "map up_id (map ?lock (sg_uploads ?s)) = map up_id (sg_uploads ?s)" by (rule ids_changed) simp
    then have ids: "map up_id (sg_uploads t) = map up_id (sg_uploads ?s)" unfolding uploads .
    then have "named_once t" using ok by (simp add: staging_ok_def named_once_def)
    moreover have "capacity_ok digest (sg_uploads t)"
      unfolding uploads using ok fits_ok by (intro fits_map) (auto simp: staging_ok_def upload_ok_def)
    moreover have "locks_ok t"
    proof (rule locks_mapI [OF uploads])
      fix v assume v: "v \<in> set (sg_uploads ?s)"
      show "lock_ok t (?lock v)"
      proof (cases "up_id v \<in> up_id ` set us")
        case True
        have "j = ?k" if "live_ticket t j" "up_id v \<in> picked t j" for j
          using range [OF that(1)] that old [of j] apart [OF v True, of j] by blast
        then show ?thesis using True len new(2) by (simp add: lock_ok_def)
      next
        case False
        have "j < ?k \<and> tk_fate (sg_tickets ?s ! j) = Open \<and> up_id v \<in> picked ?s j" if "up_locked v = Some j" for j
          using locks [OF v] that by (simp add: lock_ok_def)
        moreover have "up_locked v = Some j" if "live_ticket t j" "up_id v \<in> picked t j" for j
          using range [OF that(1)] that old [of j] new(2) False locks [OF v] by (auto simp: lock_ok_def)
        ultimately show ?thesis using False len old(2) by (auto simp: lock_ok_def)
      qed
    qed
    moreover have "tickets_ok D t"
    proof -
      have sub: "upload_ids ?s \<subseteq> D" "\<And>j. live_ticket ?s j \<Longrightarrow> picked ?s j \<subseteq> D"
        "\<And>i j. live_ticket ?s i \<Longrightarrow> live_ticket ?s j \<Longrightarrow> i \<noteq> j \<Longrightarrow> picked ?s i \<inter> picked ?s j = {}"
        using ok unfolding staging_ok_def tickets_ok_def by blast+
      have mine: "up_id ` set us \<subseteq> upload_ids ?s" using us(1) by (auto simp: upload_ids_def)
      have apart': "up_id ` set us \<inter> picked ?s j = {}" if "live_ticket ?s j" for j
        using apart us(1) that by blast
      have "upload_ids t = upload_ids ?s" using ids unfolding upload_ids_def by (metis list.set_map)
      moreover have "picked t j \<subseteq> D" if "live_ticket t j" for j
        using range [OF that] old [of j] new mine sub(1) sub(2) [of j] that by auto
      moreover have "picked t i \<inter> picked t j = {}" if ij: "live_ticket t i" "live_ticket t j" "i \<noteq> j" for i j
      proof -
        consider "i < ?k" "j < ?k" | "i = ?k" "j < ?k" | "i < ?k" "j = ?k" using range ij by blast
        then show ?thesis
        proof cases
          case 1
          then show ?thesis using old sub(3) [of i j] ij by simp
        next
          case 2
          then show ?thesis using old [of j] new(2) apart' [of j] ij(2) by simp
        next
          case 3
          then show ?thesis using old [of i] new(2) apart' [of i] ij(1) by (simp add: Int_commute)
        qed
      qed
      ultimately show ?thesis using sub(1) by (simp add: tickets_ok_def)
    qed
    ultimately have "staging_ok digest D t" by (simp add: staging_ok_def)
    then show ?thesis by (simp only: t_def)
  qed
  then show ?thesis using assms ok by (auto simp: prepare_uploads_def Let_def split: option.splits)
qed

lemma tickets_less:
  assumes "tickets_ok D s" "\<And>j. live_ticket t j \<Longrightarrow> live_ticket s j" "\<And>j. picked t j = picked s j"
    "upload_ids t \<subseteq> upload_ids s"
  shows "tickets_ok D t"
  unfolding tickets_ok_def assms(3)
proof (intro conjI allI impI)
  show "upload_ids t \<subseteq> D" using assms(1,4) unfolding tickets_ok_def by blast
next
  fix k assume "live_ticket t k"
  then show "picked s k \<subseteq> D" using assms(1) assms(2) [of k] by (simp add: tickets_ok_def)
next
  fix j k assume "live_ticket t j" "live_ticket t k" "j \<noteq> k"
  then show "picked s j \<inter> picked s k = {}" using assms(1) assms(2) [of j] assms(2) [of k] by (simp add: tickets_ok_def)
qed

lemma settle_simps:
  assumes "k < length (sg_tickets s)"
  shows "picked ((settle_ticket k f s)\<lparr>sg_uploads := us\<rparr>) j = picked s j"
    "length (sg_tickets ((settle_ticket k f s)\<lparr>sg_uploads := us\<rparr>)) = length (sg_tickets s)"
    "tk_fate (sg_tickets ((settle_ticket k f s)\<lparr>sg_uploads := us\<rparr>) ! j) = (if j = k then f else tk_fate (sg_tickets s ! j))"
  using assms by (auto simp: picked_def settle_ticket_def nth_list_update)

lemma commit_ok:
  assumes "staging_ok digest D s"
  shows "staging_ok digest D (commit_uploads k s)"
proof (cases "k < length (sg_tickets s) \<and> tk_fate (sg_tickets s ! k) = Open")
  case True
  define us where "us = filter (\<lambda>u. up_id u \<notin> picked s k) (sg_uploads s)"
  define t where "t = (settle_ticket k Committed s)\<lparr>sg_uploads := us\<rparr>"
  have set: "picked t j = picked s j" "length (sg_tickets t) = length (sg_tickets s)"
    "tk_fate (sg_tickets t ! j) = (if j = k then Committed else tk_fate (sg_tickets s ! j))" for j
    unfolding t_def using True settle_simps [where k = k and s = s and f = Committed and us = us] by simp_all
  have live: "live_ticket t j \<longleftrightarrow> live_ticket s j" for j using True set by (simp add: live_ticket_def)
  have uploads: "sg_uploads t = us" by (simp add: t_def)
  have "lock_ok t u" if "u \<in> set us" for u
  proof -
    have "lock_ok s u" "up_id u \<notin> picked s k" using assms that by (auto simp: staging_ok_def locks_ok_def us_def)
    then show ?thesis unfolding lock_ok_def live set by (metis (full_types))
  qed
  then have "locks_ok t" by (simp add: locks_ok_def uploads)
  moreover have "tickets_ok D t"
  proof (rule tickets_less)
    show "tickets_ok D s" using assms by (simp add: staging_ok_def)
    show "upload_ids t \<subseteq> upload_ids s" unfolding upload_ids_def uploads us_def by auto
  qed (simp_all add: live set)
  moreover have "named_once t" "capacity_ok digest (sg_uploads t)"
    unfolding uploads named_once_def us_def using assms by (simp_all add: staging_ok_def named_once_def distinct_map_filter_ids fits_filter)
  ultimately have "staging_ok digest D t" by (simp add: staging_ok_def)
  then show ?thesis using True by (simp add: commit_uploads_def not_le t_def us_def picked_def)
next
  case False
  then show ?thesis using assms by (auto simp: commit_uploads_def)
qed

lemma rollback_ok:
  assumes "staging_ok digest D s"
  shows "staging_ok digest D (rollback_uploads e k s)"
proof (cases "k < length (sg_tickets s) \<and> tk_fate (sg_tickets s ! k) = Open")
  case open_ticket: True
  let ?free = "\<lambda>u. if up_id u \<in> picked s k \<and> up_locked u = Some k then u\<lparr>up_locked := None\<rparr> else u"
  define t where "t = (settle_ticket k RolledBack s)\<lparr>sg_uploads := map ?free (sg_uploads s)\<rparr>"
  have set: "picked t j = picked s j" "length (sg_tickets t) = length (sg_tickets s)"
    "tk_fate (sg_tickets t ! j) = (if j = k then RolledBack else tk_fate (sg_tickets s ! j))" for j
    unfolding t_def using open_ticket settle_simps [where k = k and s = s and f = RolledBack and us = "map ?free (sg_uploads s)"]
    by simp_all
  have live: "live_ticket t j \<longleftrightarrow> live_ticket s j \<and> j \<noteq> k" for j using open_ticket set by (auto simp: live_ticket_def)
  have uploads: "sg_uploads t = map ?free (sg_uploads s)" by (simp add: t_def)
  have "locks_ok t"
  proof (rule locks_mapI [OF uploads])
    fix u assume u: "u \<in> set (sg_uploads s)"
    have ok: "lock_ok s u" using assms u by (simp add: staging_ok_def locks_ok_def)
    show "lock_ok t (?free u)"
    proof (cases "up_locked u = Some k")
      case True
      then have "up_id u \<in> picked s k" using ok by (simp add: lock_ok_def)
      moreover have "j = k" if "live_ticket s j" "up_id u \<in> picked s j" for j
        using ok True that by (auto simp: lock_ok_def)
      ultimately show ?thesis using True by (auto simp: lock_ok_def live set)
    next
      case False
      then have "?free u = u" by simp
      moreover have "lock_ok t u" using ok False unfolding lock_ok_def live set by (metis (full_types))
      ultimately show ?thesis by simp
    qed
  qed
  moreover have "map up_id (sg_uploads t) = map up_id (sg_uploads s)" unfolding uploads by (rule ids_changed) simp
  then have ids: "named_once t" "upload_ids t = upload_ids s"
    using assms by (simp add: staging_ok_def named_once_def, metis upload_ids_def list.set_map)
  moreover have "capacity_ok digest (sg_uploads t)"
    unfolding uploads using assms fits_ok by (intro fits_map) (auto simp: staging_ok_def upload_ok_def)
  moreover have "tickets_ok D t"
  proof (rule tickets_less)
    show "tickets_ok D s" using assms by (simp add: staging_ok_def)
  qed (simp_all add: live set ids(2))
  ultimately have "staging_ok digest D t" by (simp add: staging_ok_def)
  then show ?thesis using open_ticket by (simp add: rollback_uploads_def not_le t_def picked_def)
next
  case False
  then show ?thesis using assms by (auto simp: rollback_uploads_def)
qed

fun drawn_ids :: "upload_call list \<Rightarrow> jstring list" where
  "drawn_ids [] = []"
| "drawn_ids (UBegin e name m bytes hash i # cs) = i # drawn_ids cs"
| "drawn_ids (c # cs) = drawn_ids cs"

lemma run_ok:
  "staging_ok digest D s \<Longrightarrow> distinct (drawn_ids cs) \<Longrightarrow> set (drawn_ids cs) \<inter> D = {} \<Longrightarrow>
     staging_ok digest (D \<union> set (drawn_ids cs)) (upload_run digest ttl cs s)"
proof (induction cs arbitrary: s D)
  case (Cons c cs)
  have step: "staging_ok digest (D \<union> set (drawn_ids [c])) (upload_step digest ttl c s)"
  proof (cases c)
    case (UBegin e name m bytes hash i)
    then show ?thesis using begin_ok [OF Cons.prems(1)] Cons.prems(3) by simp
  next
    case UDispose
    have "staging_ok digest D (dispose_uploads s)"
      by (rule staging_ok_less [OF Cons.prems(1)]) (simp_all add: dispose_uploads_def named_once_def capacity_ok_def total_bytes_def no_more_def)
    then show ?thesis using UDispose by simp
  qed (use Cons.prems(1) in \<open>simp_all add: chunk_ok finish_ok cancel_ok prepare_ok commit_ok rollback_ok\<close>)
  have "drawn_ids (c # cs) = drawn_ids [c] @ drawn_ids cs" by (cases c) simp_all
  then have "distinct (drawn_ids cs)" "set (drawn_ids cs) \<inter> (D \<union> set (drawn_ids [c])) = {}"
    "D \<union> set (drawn_ids (c # cs)) = (D \<union> set (drawn_ids [c])) \<union> set (drawn_ids cs)"
    using Cons.prems(2,3) by auto
  then show ?case using Cons.IH [OF step] by simp
qed simp

lemma no_uploads_ok: "staging_ok digest {} no_uploads"
  by (simp add: staging_ok_def no_uploads_def named_once_def capacity_ok_def total_bytes_def locks_ok_def tickets_ok_def upload_ids_def
      live_ticket_def)

section \<open>An image on its way\<close>

text \<open>The only upload with its identifier, and with its attachment.\<close>

definition staged :: "jstring \<Rightarrow> jstring \<Rightarrow> upload \<Rightarrow> staging \<Rightarrow> bool" where
  "staged i a u s \<longleftrightarrow>
     u \<in> set (sg_uploads s) \<and> up_id u = i \<and> up_locked u = None
     \<and> (\<forall>v \<in> set (sg_uploads s). up_id v = i \<or> up_attachmentId v = Some a \<longrightarrow> v = u)"

text \<open>A moment at which an upload that was last touched before is still there.\<close>

definition in_time :: "int \<Rightarrow> nat \<Rightarrow> int \<Rightarrow> moment \<Rightarrow> bool" where
  "in_time ttl g t e \<longleftrightarrow> operationGuard e = None \<and> mo_generation e = g \<and> mo_now e < t + ttl"

fun timely :: "int \<Rightarrow> nat \<Rightarrow> int \<Rightarrow> moment list \<Rightarrow> bool" where
  "timely ttl g t [] = True"
| "timely ttl g t (e # es) = (in_time ttl g t e \<and> timely ttl g (mo_now e) es)"

fun chunk_calls :: "jstring \<Rightarrow> nat \<Rightarrow> (moment \<times> byte list) list \<Rightarrow> upload_call list" where
  "chunk_calls i off [] = []"
| "chunk_calls i off ((e, p) # eps) = UChunk e i off (b64_encode p) # chunk_calls i (off + length p) eps"

definition sized :: "byte list \<Rightarrow> bool" where
  "sized p \<longleftrightarrow> p \<noteq> [] \<and> length p \<le> MAX_UPLOAD_CHUNK_BYTES"

lemma sized_text: "sized p \<Longrightarrow> chunk_text (b64_encode p)"
proof -
  assume "sized p"
  then have "1 \<le> length p" "length p \<le> MAX_UPLOAD_CHUNK_BYTES" by (auto simp: sized_def Suc_le_eq)
  moreover have "1 \<le> (n + 2) div 3" if "1 \<le> n" for n :: nat using that by simp
  ultimately show ?thesis by (auto simp: chunk_text_def b64_length intro!: div_le_mono)
qed

lemma staged_prune:
  "staged i a u s \<Longrightarrow> in_time ttl g t e \<Longrightarrow> up_generation u = g \<Longrightarrow> up_expires u = t + ttl \<Longrightarrow> staged i a u (prune_uploads e s)"
  by (auto simp: staged_def in_time_def prune_uploads_def)

lemma find_only:
  assumes "u \<in> set us" "P u" "\<And>v. v \<in> set us \<Longrightarrow> P v \<Longrightarrow> v = u"
  shows "find P us = Some u"
proof (cases "find P us")
  case None
  then show ?thesis using assms(1,2) by (auto simp: find_None_iff)
next
  case (Some v)
  then have "v \<in> set us" "P v" by (auto simp: find_Some_iff)
  then show ?thesis using Some assms(3) by simp
qed

lemma staged_get: "staged i a u s \<Longrightarrow> get_upload i s = Some u"
  unfolding get_upload_def by (rule find_only) (auto simp: staged_def)

lemma staged_find: "staged i a u s \<Longrightarrow> up_generation u = mo_generation e \<Longrightarrow> find_upload e i s = Inr u"
  by (simp add: find_upload_def staged_get)

lemma staged_change:
  "staged i a u s \<Longrightarrow> up_id (f u) = i \<Longrightarrow> up_locked (f u) = None \<Longrightarrow> staged i a (f u) (change_upload i f s)"
  by (auto simp: staged_def change_upload_def)

lemma chunk_staged:
  assumes "staged i a u s" "up_attachmentId u = None" "up_buffer u = done @ replicate n 0" "up_received u = length done"
    "up_generation u = g" "up_expires u = t + ttl" "in_time ttl g t e" "sized p" "length p \<le> n" "opaque_id i"
  shows "staged i a (u\<lparr>up_buffer := (done @ p) @ replicate (n - length p) 0, up_received := length (done @ p),
      up_expires := mo_now e + ttl\<rparr>) (upload_step digest ttl (UChunk e i (length done) (b64_encode p)) s)"
proof -
  have st: "staged i a u (prune_uploads e s)" using staged_prune [OF assms(1,7,5,6)] .
  have e: "operationGuard e = None" "mo_generation e = g" using assms(7) by (auto simp: in_time_def)
  let ?f = "\<lambda>v. v\<lparr>up_buffer := take (length done) (up_buffer v) @ p @ drop (length done + length p) (up_buffer v),
      up_received := up_received v + length p, up_expires := mo_now e + ttl\<rparr>"
  have "upload_step digest ttl (UChunk e i (length done) (b64_encode p)) s = change_upload i ?f (prune_uploads e s)"
    using assms(2-5,8-10) e staged_find [OF st] st
    by (simp add: uploads_chunk_def Let_def sized_text sized_def not_less staged_def)
  moreover have "staged i a (?f u) (change_upload i ?f (prune_uploads e s))"
    using st by (intro staged_change) (auto simp: staged_def)
  moreover have "?f u = u\<lparr>up_buffer := (done @ p) @ replicate (n - length p) 0, up_received := length (done @ p), up_expires := mo_now e + ttl\<rparr>"
    using assms(3,4) by simp
  ultimately show ?thesis by simp
qed

lemma chunks_staged:
  assumes "staged i a u s" "up_attachmentId u = None" "up_buffer u = done @ replicate (length (concat (map snd eps))) 0"
    "up_received u = length done" "up_generation u = g" "up_expires u = t + ttl" "timely ttl g t (map fst eps @ rest)"
    "list_all (\<lambda>(e, p). sized p) eps" "opaque_id i"
  shows "\<exists>t'. timely ttl g t' rest \<and>
      staged i a (u\<lparr>up_buffer := done @ concat (map snd eps), up_received := length (done @ concat (map snd eps)), up_expires := t' + ttl\<rparr>)
        (upload_run digest ttl (chunk_calls i (length done) eps) s)"
  using assms
proof (induction eps arbitrary: s u "done" t)
  case Nil
  then have eq: "u\<lparr>up_buffer := done, up_received := length done, up_expires := t + ttl\<rparr> = u" by simp
  show ?case using Nil.prems(1,7) by (intro exI [of _ t]) (simp add: eq)
next
  case (Cons ep eps)
  obtain e p where ep: "ep = (e, p)" by fastforce
  let ?n = "length (concat (map snd (ep # eps)))"
  let ?u = "u\<lparr>up_buffer := (done @ p) @ replicate (?n - length p) 0, up_received := length (done @ p), up_expires := mo_now e + ttl\<rparr>"
  have st: "staged i a ?u (upload_step digest ttl (UChunk e i (length done) (b64_encode p)) s)"
    using Cons.prems ep by (intro chunk_staged [where t = t and g = g]) auto
  have "\<exists>t'. timely ttl g t' rest \<and>
      staged i a (?u\<lparr>up_buffer := (done @ p) @ concat (map snd eps), up_received := length ((done @ p) @ concat (map snd eps)), up_expires := t' + ttl\<rparr>)
        (upload_run digest ttl (chunk_calls i (length (done @ p)) eps) (upload_step digest ttl (UChunk e i (length done) (b64_encode p)) s))"
    by (rule Cons.IH [OF st, of "done @ p" "mo_now e"]) (use Cons.prems ep in auto)
  then show ?case by (simp add: ep)
qed

lemma finish_staged:
  assumes "staged i a u s" "up_attachmentId u = None" "up_received u = length (up_buffer u)" "digest (up_buffer u) = up_hash u"
    "checkedImage (up_buffer u) (up_name u) (up_mimeType u) = None" "up_generation u = g" "up_expires u = t + ttl"
    "in_time ttl g t e" "opaque_id i"
  shows "staged i a (u\<lparr>up_attachmentId := Some a, up_expires := mo_now e + ttl\<rparr>) (upload_step digest ttl (UFinish e i a) s)"
proof -
  have st: "staged i a u (prune_uploads e s)" using staged_prune [OF assms(1,8,6,7)] .
  have e: "operationGuard e = None" "mo_generation e = g" using assms(8) by (auto simp: in_time_def)
  have "upload_step digest ttl (UFinish e i a) s =
      change_upload i (\<lambda>u. u\<lparr>up_attachmentId := Some a, up_expires := mo_now e + ttl\<rparr>) (prune_uploads e s)"
    using assms(2-6,9) e staged_find [OF st] by (simp add: uploads_finish_def Let_def)
  then show ?thesis using staged_change [OF st, of "\<lambda>u. u\<lparr>up_attachmentId := Some a, up_expires := mo_now e + ttl\<rparr>"] st
    by (simp add: staged_def)
qed

lemma prepare_staged:
  assumes "staged i a u s" "up_attachmentId u = Some a" "up_generation u = g" "up_expires u = t + ttl" "in_time ttl g t e"
    "length (up_buffer u) \<le> MAX_IMAGE_BYTES"
  shows "\<exists>k r. prepare_uploads e [a] s = (Inr k, r) \<and> tk_images (sg_tickets r ! k) = [image_of u]"
proof -
  have st: "staged i a u (prune_uploads e s)" using staged_prune [OF assms(1,5,3,4)] .
  have e: "operationGuard e = None" "mo_generation e = g" using assms(5) by (auto simp: in_time_def)
  have "find (\<lambda>v. up_attachmentId v = Some a) (sg_uploads (prune_uploads e s)) = Some u"
    using st assms(2) by (intro find_only) (auto simp: staged_def)
  then have "select e [a] (sg_uploads (prune_uploads e s)) = Some [u]"
    using st assms(3) e by (auto simp: staged_def)
  then show ?thesis using e assms(6) by (simp add: prepare_uploads_def Let_def total_bytes_def not_less)
qed

section \<open>Properties\<close>

text \<open>
  However uploads are begun, filled, finished, sent, given back and dropped, no more than eight are staged,
  with no more bytes than one image may have, none has received more than it announced, and what has an
  attachment is complete, has its digest and is an image of its type.
\<close>

theorem uploads_bounded:
  assumes "distinct (drawn_ids cs)"
  shows "length (sg_uploads (upload_run digest ttl cs no_uploads)) \<le> 8
    \<and> total_bytes (sg_uploads (upload_run digest ttl cs no_uploads)) \<le> MAX_IMAGE_BYTES
    \<and> list_all (upload_ok digest) (sg_uploads (upload_run digest ttl cs no_uploads))"
  using run_ok [OF no_uploads_ok assms, of digest ttl] by (simp add: staging_ok_def capacity_ok_def)

text \<open>
  C14. An attachment goes with one message: two messages that were accepted, or may still be, have none in
  common; only after a message was rejected is what it carried free again.
\<close>

theorem attachment_sent_once:
  assumes "distinct (drawn_ids cs)"
    "j < length (sg_tickets (upload_run digest ttl cs no_uploads))" "k < length (sg_tickets (upload_run digest ttl cs no_uploads))"
    "j \<noteq> k" "tk_fate (sg_tickets (upload_run digest ttl cs no_uploads) ! j) \<noteq> RolledBack"
    "tk_fate (sg_tickets (upload_run digest ttl cs no_uploads) ! k) \<noteq> RolledBack"
  shows "set (tk_selected (sg_tickets (upload_run digest ttl cs no_uploads) ! j))
    \<inter> set (tk_selected (sg_tickets (upload_run digest ttl cs no_uploads) ! k)) = {}"
  using run_ok [OF no_uploads_ok assms(1), of digest ttl] assms(2-6)
  by (simp add: staging_ok_def tickets_ok_def live_ticket_def picked_def)

text \<open>
  C13. An image that a client sends in chunks, each in time, arrives in the message as it was sent, with its
  name and type, whatever else is staged, provided there is room for it.
\<close>

theorem staged_image_arrives:
  assumes "image_name name" "sha256_text hash" "opaque_id i" "operationGuard e = None"
    "digest (concat (map snd eps)) = hash" "checkedImage (concat (map snd eps)) name m = None"
    "list_all (\<lambda>(e, p). sized p) eps"
    "timely ttl (mo_generation e) (mo_now e) (map fst eps @ [e1, e2])"
    "length (sg_uploads (prune_uploads e s)) < 8"
    "total_bytes (sg_uploads (prune_uploads e s)) + length (concat (map snd eps)) \<le> MAX_IMAGE_BYTES"
    "list_all (\<lambda>v. up_id v \<noteq> i \<and> up_attachmentId v \<noteq> Some a) (sg_uploads s)"
  shows "\<exists>k r. prepare_uploads e2 [a]
        (upload_run digest ttl
          (UBegin e name m (length (concat (map snd eps))) hash i # chunk_calls i 0 eps @ [UFinish e1 i a]) s) = (Inr k, r)
      \<and> tk_images (sg_tickets r ! k) = [\<lparr>im_name = name, im_mimeType = m, im_data = b64_encode (concat (map snd eps))\<rparr>]"
proof -
  let ?bs = "concat (map snd eps)" and ?g = "mo_generation e" and ?s = "prune_uploads e s"
  let ?u = "\<lparr>up_id = i, up_attachmentId = None, up_generation = ?g, up_expires = mo_now e + ttl, up_name = name,
     up_mimeType = m, up_hash = hash, up_buffer = replicate (length ?bs) 0, up_received = 0, up_locked = None\<rparr>"
  let ?t = "upload_step digest ttl (UBegin e name m (length ?bs) hash i) s"
  have size: "1 \<le> length ?bs" "length ?bs \<le> MAX_IMAGE_BYTES" using assms(6) by (auto simp: checkedImage_def Suc_le_eq split: if_splits)
  then have t: "?t = ?s\<lparr>sg_uploads := sg_uploads ?s @ [?u]\<rparr>"
    using assms(1,2,4,9,10) by (simp add: uploads_begin_def Let_def)
  have "staged i a ?u ?t" using assms(11) unfolding t by (auto simp: staged_def prune_uploads_def list_all_iff)
  from chunks_staged [OF this, of "[]" eps ?g "mo_now e" ttl "[e1, e2]"] obtain t1 where t1: "timely ttl ?g t1 [e1, e2]"
    "staged i a (?u\<lparr>up_buffer := ?bs, up_received := length ?bs, up_expires := t1 + ttl\<rparr>) (upload_run digest ttl (chunk_calls i 0 eps) ?t)"
    using assms(3,7,8) by auto
  let ?v = "?u\<lparr>up_buffer := ?bs, up_received := length ?bs, up_expires := t1 + ttl\<rparr>"
  have "staged i a (?v\<lparr>up_attachmentId := Some a, up_expires := mo_now e1 + ttl\<rparr>)
      (upload_step digest ttl (UFinish e1 i a) (upload_run digest ttl (chunk_calls i 0 eps) ?t))"
    using t1 assms(3,5,6) by (intro finish_staged [OF t1(2), of _ ?g t1]) auto
  from prepare_staged [OF this, of ?g "mo_now e1" ttl e2] obtain k r where
    "prepare_uploads e2 [a] (upload_step digest ttl (UFinish e1 i a) (upload_run digest ttl (chunk_calls i 0 eps) ?t)) = (Inr k, r)"
    "tk_images (sg_tickets r ! k) = [image_of (?v\<lparr>up_attachmentId := Some a, up_expires := mo_now e1 + ttl\<rparr>)]"
    using t1(1) size(2) by auto
  moreover have "upload_run digest ttl (xs @ ys) s = upload_run digest ttl ys (upload_run digest ttl xs s)" for xs ys s
    by (induction xs arbitrary: s) simp_all
  ultimately show ?thesis by (simp add: image_of_def)
qed

section \<open>Examples\<close>

definition now_at :: "int \<Rightarrow> moment" where
  "now_at t = \<lparr>mo_now = t, mo_generation = 1, mo_expected = None, mo_aborted = False\<rparr>"

definition png :: "byte list" where
  "png = [137, 80, 78, 71, 13, 10, 26, 10]"

definition zeros :: jstring where
  "zeros = replicate 64 48"

definition example_parts :: "(moment \<times> byte list) list" where
  "example_parts = [(now_at 1, [137, 80, 78, 71, 13]), (now_at 2, [10, 26, 10])]"

text \<open>Two images, each sent with a message that is accepted.\<close>

definition example_calls :: "upload_call list" where
  "example_calls =
     [UBegin (now_at 0) (js ''a.png'') Png 8 zeros (js ''i''), UChunk (now_at 1) (js ''i'') 0 (b64_encode png),
      UFinish (now_at 2) (js ''i'') (js ''a''), UPrepare (now_at 3) [js ''a''], UCommit 0,
      UBegin (now_at 4) (js ''b.png'') Png 8 zeros (js ''k''), UChunk (now_at 5) (js ''k'') 0 (b64_encode png),
      UFinish (now_at 6) (js ''k'') (js ''b''), UPrepare (now_at 7) [js ''b''], UCommit 1]"

lemma example_facts:
  "image_name (js ''a.png'')" "image_name (js ''b.png'')" "sha256_text zeros" "opaque_id (js ''i'')" "opaque_id (js ''k'')"
  "mime_of (to_lower (extname (js ''a.png''))) = Some Png" "mime_of (to_lower (extname (js ''b.png''))) = Some Png"
  "signature_ok Png png" "js ''i'' \<noteq> js ''k''"
  by code_simp+

lemma example_images:
  "checkedImage png (js ''a.png'') Png = None" "checkedImage png (js ''b.png'') Png = None" "sized png"
  using example_facts by (simp_all add: checkedImage_def MAX_IMAGE_BYTES_def png_def sized_def MAX_UPLOAD_CHUNK_BYTES_def)

lemma staged_image_arrives_witness:
  "\<exists>k r. prepare_uploads (now_at 4) [js ''a'']
        (upload_run (\<lambda>_. zeros) 10
          (UBegin (now_at 0) (js ''a.png'') Png (length (concat (map snd example_parts))) zeros (js ''i'')
            # chunk_calls (js ''i'') 0 example_parts @ [UFinish (now_at 3) (js ''i'') (js ''a'')]) no_uploads) = (Inr k, r)
      \<and> tk_images (sg_tickets r ! k) =
          [\<lparr>im_name = js ''a.png'', im_mimeType = Png, im_data = b64_encode (concat (map snd example_parts))\<rparr>]"
proof (rule staged_image_arrives)
  have png: "concat (map snd example_parts) = png" by (simp add: example_parts_def png_def)
  show "checkedImage (concat (map snd example_parts)) (js ''a.png'') Png = None" unfolding png by (rule example_images)
  show "total_bytes (sg_uploads (prune_uploads (now_at 0) no_uploads)) + length (concat (map snd example_parts)) \<le> MAX_IMAGE_BYTES"
    unfolding png by (simp add: no_uploads_def prune_uploads_def total_bytes_def png_def MAX_IMAGE_BYTES_def)
  show "list_all (\<lambda>(e, p). sized p) example_parts" by (simp add: example_parts_def sized_def MAX_UPLOAD_CHUNK_BYTES_def)
qed (use example_facts in \<open>simp_all add: now_at_def operationGuard_def in_time_def no_uploads_def prune_uploads_def example_parts_def\<close>)

lemma example_run:
  "upload_run (\<lambda>_. zeros) 10 example_calls no_uploads =
     \<lparr>sg_uploads = [], sg_tickets =
       [\<lparr>tk_selected = [js ''i''], tk_images = [\<lparr>im_name = js ''a.png'', im_mimeType = Png, im_data = b64_encode png\<rparr>], tk_fate = Committed\<rparr>,
        \<lparr>tk_selected = [js ''k''], tk_images = [\<lparr>im_name = js ''b.png'', im_mimeType = Png, im_data = b64_encode png\<rparr>], tk_fate = Committed\<rparr>]\<rparr>"
proof -
  have size: "length png = 8" "png \<noteq> []" by (simp_all add: png_def)
  have data: "chunk_text (b64_encode png)" using sized_text [OF example_images(3)] .
  note defs = uploads_begin_def uploads_chunk_def uploads_finish_def prepare_uploads_def commit_uploads_def settle_ticket_def
    prune_uploads_def find_upload_def get_upload_def change_upload_def operationGuard_def now_at_def total_bytes_def
    MAX_IMAGE_BYTES_def MAX_UPLOAD_CHUNK_BYTES_def image_of_def no_uploads_def
  show ?thesis
    unfolding example_calls_def using example_facts example_images size data by (simp add: defs)
qed

lemma uploads_bounded_example:
  "length (sg_uploads (upload_run (\<lambda>_. zeros) 10 example_calls no_uploads)) \<le> 8
    \<and> total_bytes (sg_uploads (upload_run (\<lambda>_. zeros) 10 example_calls no_uploads)) \<le> MAX_IMAGE_BYTES
    \<and> list_all (upload_ok (\<lambda>_. zeros)) (sg_uploads (upload_run (\<lambda>_. zeros) 10 example_calls no_uploads))"
  by (rule uploads_bounded) (use example_facts in \<open>simp add: example_calls_def\<close>)

lemma attachment_sent_once_witness:
  "set (tk_selected (sg_tickets (upload_run (\<lambda>_. zeros) 10 example_calls no_uploads) ! 0))
    \<inter> set (tk_selected (sg_tickets (upload_run (\<lambda>_. zeros) 10 example_calls no_uploads) ! 1)) = {}"
proof (rule attachment_sent_once)
  show "distinct (drawn_ids example_calls)" using example_facts by (simp add: example_calls_def)
qed (simp_all add: example_run)

text \<open>A byte of the signature may have its highest bit set.\<close>

lemma signature_without_highest_bit: "signature_ok Gif [199, 201, 198, 184, 183, 225]"
  by code_simp

end
