(* ===== verification/Utf8.thy ===== *)
theory Utf8
  imports Base64 JsonText
begin

text \<open>
  Text in UTF-8, as \<open>TextEncoder\<close> writes it and a fatal \<open>TextDecoder\<close> reads it, and JSON in bytes.
\<close>

section \<open>Writing and reading\<close>

definition is_high :: "cu \<Rightarrow> bool" where
  "is_high c \<longleftrightarrow> 55296 \<le> c \<and> c \<le> 56319"

definition is_low :: "cu \<Rightarrow> bool" where
  "is_low c \<longleftrightarrow> 56320 \<le> c \<and> c \<le> 57343"

text \<open>A surrogate without its other half is written as U+FFFD.\<close>

fun utf8_write :: "jstring \<Rightarrow> int list" where
  "utf8_write [] = []"
| "utf8_write (c # r) =
     (if c < 128 then c # utf8_write r
      else if c < 2048 then [192 + c div 64, 128 + c mod 64] @ utf8_write r
      else if is_high c then
        (case r of
           d # r' \<Rightarrow>
             if is_low d then
               let p = 65536 + (c - 55296) * 1024 + (d - 56320)
               in [240 + p div 262144, 128 + p div 4096 mod 64, 128 + p div 64 mod 64, 128 + p mod 64] @ utf8_write r'
             else [239, 191, 189] @ utf8_write r
         | [] \<Rightarrow> [239, 191, 189])
      else if is_low c then [239, 191, 189] @ utf8_write r
      else [224 + c div 4096, 128 + c div 64 mod 64, 128 + c mod 64] @ utf8_write r)"

definition trail :: "int \<Rightarrow> bool" where
  "trail b \<longleftrightarrow> 128 \<le> b \<and> b \<le> 191"

definition first_trail :: "int \<Rightarrow> int \<Rightarrow> bool" where
  "first_trail a b \<longleftrightarrow>
     trail b \<and> (a = 224 \<longrightarrow> 160 \<le> b) \<and> (a = 237 \<longrightarrow> b \<le> 159) \<and> (a = 240 \<longrightarrow> 144 \<le> b) \<and> (a = 244 \<longrightarrow> b \<le> 143)"

definition consed :: "jstring \<Rightarrow> jstring option \<Rightarrow> jstring option" where
  "consed cs x = map_option (\<lambda>r. cs @ r) x"

fun utf8_read :: "int list \<Rightarrow> jstring option" where
  "utf8_read [] = Some []"
| "utf8_read (a # r) =
     (if a < 128 then consed [a] (utf8_read r)
      else if 194 \<le> a \<and> a \<le> 223 then
        (case r of
           b # s \<Rightarrow> if trail b then consed [(a - 192) * 64 + (b - 128)] (utf8_read s) else None
         | _ \<Rightarrow> None)
      else if 224 \<le> a \<and> a \<le> 239 then
        (case r of
           b # c # s \<Rightarrow>
             if first_trail a b \<and> trail c
             then consed [(a - 224) * 4096 + (b - 128) * 64 + (c - 128)] (utf8_read s) else None
         | _ \<Rightarrow> None)
      else if 240 \<le> a \<and> a \<le> 244 then
        (case r of
           b # c # d # s \<Rightarrow>
             if first_trail a b \<and> trail c \<and> trail d then
               let p = (a - 240) * 262144 + (b - 128) * 4096 + (c - 128) * 64 + (d - 128) - 65536
               in consed [55296 + p div 1024, 56320 + p mod 1024] (utf8_read s)
             else None
         | _ \<Rightarrow> None)
      else None)"

definition utf8_encode :: "jstring \<Rightarrow> byte list" where
  "utf8_encode s = map word_of_int (utf8_write s)"

text \<open>A byte order mark at the start is left out.\<close>

definition utf8_decode :: "byte list \<Rightarrow> jstring option" where
  "utf8_decode bs =
     utf8_read (if take 3 bs = [239, 187, 191] then drop 3 (map uint bs) else map uint bs)"

section \<open>The round trip\<close>

text \<open>Code units with every surrogate in a pair.\<close>

fun utf16_ok :: "jstring \<Rightarrow> bool" where
  "utf16_ok [] = True"
| "utf16_ok (c # r) =
     (if is_high c then (case r of d # r' \<Rightarrow> is_low d \<and> utf16_ok r' | [] \<Rightarrow> False)
      else 0 \<le> c \<and> c \<le> 65535 \<and> \<not> is_low c \<and> utf16_ok r)"

lemma upper_digits: "c div 4096 * 64 + c div 64 mod 64 = (c div 64 :: int)"
proof -
  have "c div 64 div 64 = c div 4096" by (simp add: zdiv_zmult2_eq [symmetric])
  then show ?thesis by (metis div_mult_mod_eq)
qed

lemma three_digits: "c div 4096 * 4096 + c div 64 mod 64 * 64 + c mod 64 = (c :: int)"
  using upper_digits [of c] div_mult_mod_eq [of c 64] by linarith

lemma lower_digits:
  "p div 262144 * 64 + p div 4096 mod 64 = (p div 4096 :: int)"
  "p div 262144 * 262144 + p div 4096 mod 64 * 4096 + p div 64 mod 64 * 64 + p mod 64 = (p :: int)"
proof -
  have "p div 4096 div 64 = p div 262144" by (simp add: zdiv_zmult2_eq [symmetric])
  then show u: "p div 262144 * 64 + p div 4096 mod 64 = p div 4096" by (metis div_mult_mod_eq)
  show "p div 262144 * 262144 + p div 4096 mod 64 * 4096 + p div 64 mod 64 * 64 + p mod 64 = p"
    using three_digits [of p] u by linarith
qed

lemma trails: "trail (128 + c mod 64)"
proof -
  have "0 \<le> c mod 64" "c mod 64 < 64" by simp_all
  then show ?thesis unfolding trail_def by linarith
qed

lemma three_bytes:
  assumes "2048 \<le> c" "c \<le> 65535" "\<not> is_high c" "\<not> is_low c"
  shows "utf8_read ([224 + c div 4096, 128 + c div 64 mod 64, 128 + c mod 64] @ s) = consed [c] (utf8_read s)"
proof -
  have a: "0 \<le> c div 4096" "c div 4096 \<le> 15" using assms by auto
  have "32 \<le> c div 64" using assms(1) by auto
  then have lo: "c div 4096 = 0 \<Longrightarrow> 32 \<le> c div 64 mod 64" using upper_digits [of c] by linarith
  have "c < 55296 \<or> 57344 \<le> c" using assms(3,4) by (auto simp: is_high_def is_low_def)
  then have "c div 64 < 864 \<or> 896 \<le> c div 64" by auto
  then have hi: "c div 4096 = 13 \<Longrightarrow> c div 64 mod 64 \<le> 31"
    using upper_digits [of c] pos_mod_bound [of 64 "c div 64"] by linarith
  have "first_trail (224 + c div 4096) (128 + c div 64 mod 64)"
    using lo hi a trails [of "c div 64"] unfolding first_trail_def by linarith
  then show ?thesis using a trails [of c] three_digits [of c] by simp
qed

lemma two_bytes: "128 \<le> c \<Longrightarrow> c < 2048 \<Longrightarrow> utf8_read ([192 + c div 64, 128 + c mod 64] @ s) = consed [c] (utf8_read s)"
proof -
  assume c: "128 \<le> c" "c < 2048"
  have "194 \<le> 192 + c div 64" "192 + c div 64 \<le> 223" using c by presburger+
  moreover have "c div 64 * 64 + c mod 64 = c" by presburger
  ultimately show ?thesis using trails [of c] by simp
qed

lemma read_four:
  assumes "0 \<le> i" "i \<le> 4" "first_trail (240 + i) (128 + j)" "trail (128 + k)" "trail (128 + l)"
    "i * 262144 + j * 4096 + k * 64 + l = p"
  shows "utf8_read ([240 + i, 128 + j, 128 + k, 128 + l] @ s) =
    consed [55296 + (p - 65536) div 1024, 56320 + (p - 65536) mod 1024] (utf8_read s)"
  using assms by (simp add: Let_def)

lemma four_bytes:
  assumes "is_high c" "is_low d" "p = 65536 + (c - 55296) * 1024 + (d - 56320)"
  shows "utf8_read ([240 + p div 262144, 128 + p div 4096 mod 64, 128 + p div 64 mod 64, 128 + p mod 64] @ s) =
    consed [c, d] (utf8_read s)"
proof -
  have p: "65536 \<le> p" "p \<le> 1114111" using assms by (auto simp: is_high_def is_low_def)
  have a: "0 \<le> p div 262144" "p div 262144 \<le> 4" using p by auto
  have "16 \<le> p div 4096" "p div 4096 \<le> 271" using p by auto
  then have "p div 262144 = 0 \<Longrightarrow> 16 \<le> p div 4096 mod 64" "p div 262144 = 4 \<Longrightarrow> p div 4096 mod 64 \<le> 15"
    using lower_digits(1) [of p] by linarith+
  then have f: "first_trail (240 + p div 262144) (128 + p div 4096 mod 64)"
    using a trails [of "p div 4096"] unfolding first_trail_def by linarith
  define l where "l = d - 56320"
  have l: "0 \<le> l" "l < 1024" "p - 65536 = (c - 55296) * 1024 + l"
    using assms(2,3) by (auto simp: is_low_def l_def)
  have "(p - 65536) div 1024 = c - 55296" "(p - 65536) mod 1024 = l"
    unfolding l(3) using high_part [OF l(1,2), of "c - 55296"] low_part [OF l(1,2), of "c - 55296"] by simp_all
  then have e: "55296 + (p - 65536) div 1024 = c" "56320 + (p - 65536) mod 1024 = d" by (simp_all add: l_def)
  show ?thesis
    using read_four [OF a f trails trails lower_digits(2), of s] unfolding e .
qed

lemma utf8_read_write: "utf16_ok s \<Longrightarrow> utf8_read (utf8_write s) = Some s"
proof (induction s rule: utf16_ok.induct)
  case (2 c r)
  show ?case
  proof (cases "is_high c")
    case True
    then obtain d r' where d: "r = d # r'" "is_low d" "utf16_ok r'" using "2.prems" by (auto split: list.splits)
    have "utf8_read (utf8_write r') = Some r'" using "2.IH"(1) [OF True d(1)] d(3) by simp
    moreover have "\<not> c < 2048" "\<not> c < 128" using True by (auto simp: is_high_def)
    ultimately show ?thesis
      using True d four_bytes [OF True d(2) refl, of "utf8_write r'"] by (simp add: Let_def consed_def del: utf8_read.simps)
  next
    case False
    then have ok: "0 \<le> c" "c \<le> 65535" "\<not> is_low c" "utf16_ok r" using "2.prems" by auto
    then have IH: "utf8_read (utf8_write r) = Some r" using "2.IH"(2) [OF False] by simp
    consider "c < 128" | "128 \<le> c" "c < 2048" | "2048 \<le> c" by linarith
    then show ?thesis
    proof cases
      case 1
      then show ?thesis using IH by (simp add: consed_def)
    next
      case 2
      then show ?thesis using IH two_bytes [OF 2, of "utf8_write r"] by (simp add: consed_def del: utf8_read.simps)
    next
      case 3
      then show ?thesis using IH three_bytes [OF 3 ok(2) False ok(3), of "utf8_write r"] False ok(3)
        by (simp add: consed_def del: utf8_read.simps)
    qed
  qed
qed simp

lemma utf8_write_bytes: "utf16_ok s \<Longrightarrow> b \<in> set (utf8_write s) \<Longrightarrow> 0 \<le> b \<and> b < 256"
proof (induction s rule: utf8_write.induct)
  case (2 c r)
  show ?case
  proof (cases "is_high c")
    case True
    then obtain d r' where d: "r = d # r'" "is_low d" "utf16_ok r'" using "2.prems" by (auto split: list.splits)
    let ?p = "65536 + (c - 55296) * 1024 + (d - 56320)"
    have "65536 \<le> ?p" "?p \<le> 1114111" "\<not> c < 128" "\<not> c < 2048" using True d(2) by (auto simp: is_high_def is_low_def)
    then have "b \<in> set (utf8_write r') \<or> (0 \<le> b \<and> b < 256)"
      using "2.prems"(2) True d by (auto simp: Let_def)
    then show ?thesis using "2.IH"(3) [OF _ _ True d(1,2) refl d(3)] \<open>\<not> c < 128\<close> \<open>\<not> c < 2048\<close> by auto
  next
    case False
    then have ok: "0 \<le> c" "c \<le> 65535" "\<not> is_low c" "utf16_ok r" using "2.prems" by auto
    have "b \<in> set (utf8_write r) \<or> (0 \<le> b \<and> b < 256)"
      using "2.prems"(2) False ok by (auto split: if_splits)
    then show ?thesis using 2 False ok by (auto split: if_splits)
  qed
qed simp

lemma utf8_low: "utf16_ok s \<Longrightarrow> b \<in> set (utf8_write s) \<Longrightarrow> b < 128 \<Longrightarrow> b \<in> set s"
proof (induction s rule: utf8_write.induct)
  case (2 c r)
  show ?case
  proof (cases "is_high c")
    case True
    then obtain d r' where d: "r = d # r'" "is_low d" "utf16_ok r'" using "2.prems" by (auto split: list.splits)
    have c: "\<not> c < 128" "\<not> c < 2048" using True by (auto simp: is_high_def)
    define p where "p = 65536 + (c - 55296) * 1024 + (d - 56320)"
    have "0 \<le> p" using True d(2) by (simp add: is_high_def is_low_def p_def)
    then have "0 \<le> p div 262144" "0 \<le> p div 4096 mod 64" "0 \<le> p div 64 mod 64" "0 \<le> p mod 64" by simp_all
    then have "b \<in> set (utf8_write r')"
      using "2.prems"(2,3) True d c unfolding p_def by (auto simp: Let_def)
    then show ?thesis using "2.IH"(3) [OF c True d(1,2) refl d(3)] "2.prems"(3) d(1) by auto
  next
    case False
    then have ok: "0 \<le> c" "\<not> is_low c" "utf16_ok r" using "2.prems" by auto
    then have "0 \<le> c div 64" "0 \<le> c div 4096" "0 \<le> c mod 64" "0 \<le> c div 64 mod 64" by (simp_all add: pos_imp_zdiv_nonneg_iff)
    then have "b = c \<or> b \<in> set (utf8_write r)"
      using "2.prems"(2,3) False ok by (auto split: if_splits)
    then show ?thesis using 2 False ok by (auto split: if_splits)
  qed
qed simp

lemma utf8_ascii: "list_all (\<lambda>c. 0 \<le> c \<and> c < 128) s \<Longrightarrow> utf8_write s = s"
  by (induction s) auto

lemma utf8_append: "utf16_ok s \<Longrightarrow> utf8_write (s @ t) = utf8_write s @ utf8_write t"
proof (induction s rule: utf16_ok.induct)
  case (2 c r)
  show ?case
  proof (cases "is_high c")
    case True
    then obtain d r' where d: "r = d # r'" "is_low d" "utf16_ok r'" using "2.prems" by (auto split: list.splits)
    have "\<not> c < 128" "\<not> c < 2048" using True by (auto simp: is_high_def)
    then show ?thesis using "2.IH"(1) [OF True d(1,3)] True d(1,2) by (simp add: Let_def)
  next
    case False
    then have "\<not> is_low c" "utf8_write (r @ t) = utf8_write r @ utf8_write t" using 2 by auto
    then show ?thesis using False by simp
  qed
qed simp

lemma utf8_encode_low:
  assumes "utf16_ok s" "uint (b :: byte) < 128" "b \<in> set (utf8_encode s)"
  shows "uint b \<in> set s"
proof -
  obtain k where k: "k \<in> set (utf8_write s)" "b = word_of_int k" using assms(3) by (auto simp: utf8_encode_def)
  then have "uint b = k" using utf8_write_bytes [OF assms(1) k(1)] by (simp add: uint_word_of_int)
  then show ?thesis using utf8_low [OF assms(1) k(1)] assms(2) by simp
qed

end
