(* ===== verification/Frames.thy ===== *)
theory Frames
  imports Utf8 Schema Base64
begin

text \<open>
  The frames of the remote connection: their validation (\<open>validateRemoteFrame\<close> of
  \<open>packages/cli/src/remote-schema.ts\<close>) and their text in bytes (\<open>packages/cli/src/remote/codec.ts\<close>). The schemas of
  the frames other than chunks, the test of a regular expression and the digest are the fields of \<open>platform\<close>.
\<close>

definition CHUNK_BYTES :: nat where "CHUNK_BYTES = 128 * 1024"
definition LINE_BYTES :: nat where "LINE_BYTES = 256 * 1024"
definition TRANSFERS :: nat where "TRANSFERS = 4"
definition TRANSFER_BYTES :: nat where "TRANSFER_BYTES = 64 * 1024 * 1024"

record platform =
  pf_hash :: "byte list \<Rightarrow> jstring"
  pf_schemas :: "jstring \<Rightarrow> schema option"
  pf_test :: "jstring \<Rightarrow> jstring \<Rightarrow> bool"

section \<open>Frames\<close>

subsection \<open>What \<open>JSON.parse\<close> makes of a text\<close>

text \<open>A whole number in the safe range is known by its digits, however it was written; of two members with
  one name the later one counts.\<close>

definition decimal_value :: "int \<times> int \<Rightarrow> int" where
  "decimal_value d = (case d of (m, e) \<Rightarrow> if 0 \<le> e then m * 10 ^ nat e else m div 10 ^ nat (- e))"

definition number_text :: "jstring \<Rightarrow> jstring" where
  "number_text n =
     (if safe_integer (decimal n) then
        let k = decimal_value (decimal n)
        in if k < 0 then ch CHR ''-'' # digits_of (nat (- k)) else digits_of (nat k)
      else n)"

fun json_value :: "json \<Rightarrow> json" where
  "json_value (JNum n) = JNum (number_text n)"
| "json_value (JArr vs) = JArr (map json_value vs)"
| "json_value (JObj kvs) = JObj (from_entries (map (\<lambda>(k, v). (k, json_value v)) kvs))"
| "json_value v = v"

subsection \<open>Validation\<close>

definition frame_base :: "jstring \<Rightarrow> (jstring \<times> schema) list \<Rightarrow> schema" where
  "frame_base kind fs =
     object_schema ([(js ''v'', enumeration [JNum (js ''1'')]), (js ''kind'', enumeration [JStr kind])] @ fs)"

definition sha256_pattern :: jstring where
  "sha256_pattern = js ''^[a-f0-9]{64}$''"

definition base64_pattern :: jstring where
  "base64_pattern = js ''^(?:[A-Za-z0-9+/]{4})*(?:[A-Za-z0-9+/]{2}==|[A-Za-z0-9+/]{3}=)?$''"

definition chunk_schema :: schema where
  "chunk_schema = frame_base (js ''chunk'')
     [(js ''channel'', enumeration [JStr (js ''control''), JStr (js ''model''), JStr (js ''files'')]),
      (js ''transferId'', id_schema),
      (js ''index'', integer_schema),
      (js ''total'', constrain integer_schema (unbounded\<lparr>bd_minimum := Some 1, bd_maximum := Some 1024\<rparr>)),
      (js ''bytes'', constrain integer_schema
         (unbounded\<lparr>bd_minimum := Some 1, bd_maximum := Some (int LOGICAL_BYTES)\<rparr>)),
      (js ''sha256'', constrain text_schema
         (unbounded\<lparr>bd_pattern := Some sha256_pattern, bd_minLength := Some 64, bd_maxLength := Some 64\<rparr>)),
      (js ''data'', constrain text_schema
         (unbounded\<lparr>bd_maxLength := Some LINE_BYTES, bd_pattern := Some base64_pattern\<rparr>))]"

definition frame_schema :: "platform \<Rightarrow> jstring \<Rightarrow> schema option" where
  "frame_schema p kind = (if kind = js ''chunk'' then Some chunk_schema else pf_schemas p kind)"

text \<open>The facts of an error that may leave the host.\<close>

definition public_messages :: "(jstring \<times> jstring) list" where
  "public_messages = [(js ''invalid_snapshot'', js ''Workspace display state is unavailable.'')]"

definition publicErrorFacts :: "json option \<Rightarrow> jstring \<times> jstring" where
  "publicErrorFacts code =
     (let key = (case code of
            Some (JStr c) \<Rightarrow> if c \<in> fst ` set public_messages then c else js ''invalid_snapshot''
          | _ \<Rightarrow> js ''invalid_snapshot'')
      in (key, the (map_of public_messages key)))"

definition normalizeErrorUpdate :: "json \<Rightarrow> json" where
  "normalizeErrorUpdate frame =
     (case frame of
        JObj kvs \<Rightarrow>
          (case map_of kvs (js ''payload'') of
             Some (JObj ps) \<Rightarrow>
               if map_of kvs (js ''kind'') \<noteq> Some (JStr (js ''event'')) \<or> map_of ps (js ''kind'') \<noteq> Some (JStr (js ''error''))
               then frame
               else
                 let old = (case map_of ps (js ''error'') of Some (JObj es) \<Rightarrow> Some es | _ \<Rightarrow> None);
                     (code, message) = publicErrorFacts (case old of Some es \<Rightarrow> map_of es (js ''code'') | None \<Rightarrow> None);
                     error = (case old of
                         Some es \<Rightarrow> AList.update (js ''message'') (JStr message) (AList.update (js ''code'') (JStr code) es)
                       | None \<Rightarrow> [(js ''code'', JStr code), (js ''message'', JStr message)])
                 in JObj (AList.update (js ''payload'') (JObj (AList.update (js ''error'') (JObj error) ps)) kvs)
           | _ \<Rightarrow> frame)
      | _ \<Rightarrow> frame)"

definition validateRemoteFrame :: "platform \<Rightarrow> bool \<Rightarrow> raw \<Rightarrow> remote_error + json" where
  "validateRemoteFrame p outgoing value =
     (case copyRemoteJson value of
        Inl e \<Rightarrow> Inl e
      | Inr copied \<Rightarrow>
          (case (if outgoing then normalizeErrorUpdate copied else copied) of
             JObj kvs \<Rightarrow>
               if map_of kvs (js ''v'') \<noteq> Some (JNum (js ''1'')) then Inl IncompatibleProtocol
               else
                 (case (case map_of kvs (js ''kind'') of Some (JStr kind) \<Rightarrow> frame_schema p kind | _ \<Rightarrow> None) of
                    None \<Rightarrow> Inl InvalidFrame
                  | Some schema \<Rightarrow> if matches (pf_test p) (JObj kvs) schema then Inr (JObj kvs) else Inl InvalidFrame)
           | _ \<Rightarrow> Inl InvalidFrame))"

text \<open>\<open>parse\<close>: every failure of the decoder or of \<open>JSON.parse\<close> is an invalid frame.\<close>

definition parse_frame :: "platform \<Rightarrow> byte list \<Rightarrow> remote_error + json" where
  "parse_frame p bytes =
     (case utf8_decode bytes of
        None \<Rightarrow> Inl InvalidFrame
      | Some t \<Rightarrow>
          (case JSON_parse t of None \<Rightarrow> Inl InvalidFrame | Some v \<Rightarrow> validateRemoteFrame p False (raw_of (json_value v))))"

definition frame_member :: "jstring \<Rightarrow> json \<Rightarrow> json option" where
  "frame_member k frame = (case frame of JObj kvs \<Rightarrow> map_of kvs k | _ \<Rightarrow> None)"

definition string_member :: "jstring \<Rightarrow> json \<Rightarrow> jstring" where
  "string_member k frame = (case frame_member k frame of Some (JStr s) \<Rightarrow> s | _ \<Rightarrow> [])"

definition number_member :: "jstring \<Rightarrow> json \<Rightarrow> nat" where
  "number_member k frame = (case frame_member k frame of Some (JNum n) \<Rightarrow> nat (decimal_value (decimal n)) | _ \<Rightarrow> 0)"

definition is_chunk :: "json \<Rightarrow> bool" where
  "is_chunk frame \<longleftrightarrow> frame_member (js ''kind'') frame = Some (JStr (js ''chunk''))"

definition remoteChannel :: "json \<Rightarrow> jstring" where
  "remoteChannel frame =
     (if frame_member (js ''channel'') frame \<noteq> None then string_member (js ''channel'') frame
      else if string_member (js ''kind'') frame = js ''model.event'' \<or> string_member (js ''kind'') frame = js ''model.frame''
      then js ''model'' else js ''control'')"

record remote_chunk =
  ck_channel :: jstring
  ck_transferId :: jstring
  ck_index :: nat
  ck_total :: nat
  ck_bytes :: nat
  ck_sha256 :: jstring
  ck_data :: jstring

definition chunk_of :: "json \<Rightarrow> remote_chunk" where
  "chunk_of frame =
     \<lparr>ck_channel = string_member (js ''channel'') frame, ck_transferId = string_member (js ''transferId'') frame,
      ck_index = number_member (js ''index'') frame, ck_total = number_member (js ''total'') frame,
      ck_bytes = number_member (js ''bytes'') frame, ck_sha256 = string_member (js ''sha256'') frame,
      ck_data = string_member (js ''data'') frame\<rparr>"

definition number_json :: "nat \<Rightarrow> json" where
  "number_json n = JNum (digits_of n)"

definition chunk_json :: "remote_chunk \<Rightarrow> json" where
  "chunk_json c = JObj
     [(js ''v'', JNum (js ''1'')), (js ''kind'', JStr (js ''chunk'')), (js ''channel'', JStr (ck_channel c)),
      (js ''transferId'', JStr (ck_transferId c)), (js ''index'', number_json (ck_index c)),
      (js ''total'', number_json (ck_total c)), (js ''bytes'', number_json (ck_bytes c)),
      (js ''sha256'', JStr (ck_sha256 c)), (js ''data'', JStr (ck_data c))]"

section \<open>Messages to send\<close>

definition prepareRemoteMessage :: "platform \<Rightarrow> raw \<Rightarrow> remote_error + json \<times> byte list" where
  "prepareRemoteMessage p message =
     (case validateRemoteFrame p True message of
        Inl e \<Rightarrow> Inl e
      | Inr frame \<Rightarrow>
          if is_chunk frame then Inl InvalidFrame
          else
            let bytes = utf8_encode (stringify frame)
            in if LOGICAL_BYTES < length bytes then Inl LimitExceeded else Inr (frame, bytes))"


section \<open>A frame read back\<close>

definition units16 :: "jstring \<Rightarrow> bool" where
  "units16 s \<longleftrightarrow> list_all (\<lambda>c. 0 \<le> c \<and> c < 65536) s"

text \<open>A value whose text says all of it: members with different names, numbers as they are printed.\<close>

fun wire_json :: "json \<Rightarrow> bool" where
  "wire_json (JNum n) \<longleftrightarrow> written_number n \<and> number_text n = n"
| "wire_json (JStr s) \<longleftrightarrow> units16 s"
| "wire_json (JArr vs) \<longleftrightarrow> list_all wire_json vs"
| "wire_json (JObj kvs) \<longleftrightarrow> distinct (map fst kvs) \<and> list_all (\<lambda>(k, v). units16 k \<and> wire_json v) kvs"
| "wire_json _ \<longleftrightarrow> True"

lemma wire_written: "wire_json v \<Longrightarrow> written_json v"
proof (induction v rule: wire_json.induct)
  case (4 kvs)
  then show ?case by (fastforce simp: list_all_iff units16_def)
qed (auto simp: list_all_iff units16_def)

lemma wire_value: "wire_json v \<Longrightarrow> json_value v = v"
proof (induction v rule: wire_json.induct)
  case (3 vs)
  then show ?case by (simp add: list_all_iff map_idI)
next
  case (4 kvs)
  have "map (\<lambda>(k, v). (k, json_value v)) kvs = kvs" using 4 by (intro map_idI) (auto simp: list_all_iff)
  then show ?case using 4 by (simp add: from_entries_distinct)
qed simp_all

lemma utf16_append: "utf16_ok a \<Longrightarrow> utf16_ok b \<Longrightarrow> utf16_ok (a @ b)"
  by (induction a rule: utf16_ok.induct) (auto split: list.splits)

lemma utf16_ascii: "list_all (\<lambda>c. 0 \<le> c \<and> c < 128) s \<Longrightarrow> utf16_ok s"
  by (induction s) (auto simp: is_high_def is_low_def)

lemma hex_ascii: "0 \<le> hex_digit (x mod 16) \<and> hex_digit (x mod 16) < 128"
proof -
  define y where "y = x mod 16"
  have "0 \<le> y" "y < 16" by (simp_all add: y_def)
  then show ?thesis unfolding y_def [symmetric] by (auto simp: hex_digit_def)
qed

lemma escape_ascii: "list_all (\<lambda>c. 0 \<le> c \<and> c < 128) (json_escape c)"
  using hex_ascii by (simp add: json_escape_def hex4_def)

lemma char_utf16: "0 \<le> c \<Longrightarrow> c < 65536 \<Longrightarrow> \<not> is_high c \<Longrightarrow> \<not> is_low c \<Longrightarrow> utf16_ok (json_char c)"
  using utf16_ascii [OF escape_ascii [of c]] by (auto simp: json_char_def is_high_def is_low_def)

lemma chars_utf16: "units16 s \<Longrightarrow> utf16_ok (json_chars s)"
proof (induction s rule: json_chars.induct)
  case (2 c r)
  note esc = utf16_ascii [OF escape_ascii [of c]]
  have c: "0 \<le> c" "c < 65536" and r: "units16 r" using "2.prems" by (simp_all add: units16_def)
  show ?case
  proof (cases "is_high c")
    case True
    then have h: "55296 \<le> c \<and> c \<le> 56319" by (simp add: is_high_def)
    show ?thesis
    proof (cases r)
      case Nil
      then show ?thesis using h esc by simp
    next
      case (Cons d r')
      have u: "units16 r'" using r Cons by (simp add: units16_def)
      show ?thesis
      proof (cases "56320 \<le> d \<and> d \<le> 57343")
        case d: True
        have "utf16_ok (json_chars r')" using "2.IH"(1) [OF h Cons d u] .
        then show ?thesis using h d True Cons by (simp add: is_low_def)
      next
        case d: False
        have "utf16_ok (json_chars r)" using "2.IH"(2) [OF h Cons d r] .
        moreover have "json_chars (c # r) = json_escape c @ json_chars r"
          unfolding json_chars.simps(2) [of c] if_P [OF h] by (simp only: Cons list.case if_not_P [OF d])
        ultimately show ?thesis using utf16_append [OF esc] by (simp only:)
      qed
    qed
  next
    case False
    then have h: "\<not> (55296 \<le> c \<and> c \<le> 56319)" by (simp add: is_high_def)
    show ?thesis
    proof (cases "56320 \<le> c \<and> c \<le> 57343")
      case l: True
      then show ?thesis using h utf16_append [OF esc "2.IH"(3) [OF h l r]] by simp
    next
      case l: False
      then have "\<not> is_low c" by (simp add: is_low_def)
      have "json_chars (c # r) = json_char c @ json_chars r" by (simp only: json_chars.simps(2) if_not_P [OF h] if_not_P [OF l])
      then show ?thesis using utf16_append [OF char_utf16 [OF c False \<open>\<not> is_low c\<close>] "2.IH"(4) [OF h l r]] by (simp only:)
    qed
  qed
qed simp

lemma string_utf16: "units16 s \<Longrightarrow> utf16_ok (json_string s)"
  using chars_utf16 [of s] by (auto simp: json_string_def is_high_def is_low_def intro!: utf16_append)

lemma number_ascii: "written_number n \<Longrightarrow> utf16_ok n"
  by (rule utf16_ascii) (auto simp: written_number_def list_all_iff number_char_def is_digit_def)

lemma join_utf16: "utf16_ok sep \<Longrightarrow> list_all utf16_ok ws \<Longrightarrow> utf16_ok (join_with sep ws)"
  by (induction sep ws rule: join_with.induct) (auto intro!: utf16_append)

lemma stringify_utf16: "wire_json v \<Longrightarrow> utf16_ok (stringify v)"
proof (induction v rule: wire_json.induct)
  case (1 n)
  then show ?case by (simp add: number_ascii)
next
  case (2 s)
  then show ?case by (simp add: string_utf16)
next
  case (3 vs)
  then show ?case by (auto simp: js_simps is_high_def is_low_def list_all_iff intro!: utf16_append join_utf16)
next
  case (4 kvs)
  have "utf16_ok (json_string k @ 58 # stringify v)" if "(k, v) \<in> set kvs" for k v
    using 4 that string_utf16 [of k] by (fastforce simp: list_all_iff is_high_def is_low_def intro!: utf16_append)
  then have "list_all utf16_ok (map (\<lambda>(k, v). json_string k @ 58 # stringify v) kvs)" by (auto simp: list_all_iff)
  then show ?case by (auto simp: js_simps is_high_def is_low_def intro!: utf16_append join_utf16)
qed (auto simp: js_simps is_high_def is_low_def)

lemma no_bom: "s = c # t \<Longrightarrow> c < 128 \<Longrightarrow> utf16_ok s \<Longrightarrow> utf8_decode (utf8_encode s) = Some s"
proof -
  assume s: "s = c # t" "c < 128" "utf16_ok s"
  have u: "uint (word_of_int b :: byte) = b" if "b \<in> set (utf8_write s)" for b
    using utf8_write_bytes [OF s(3) that] by (simp add: uint_word_of_int)
  then have "map uint (utf8_encode s) = utf8_write s" by (auto simp: utf8_encode_def intro!: map_idI)
  moreover have "take 3 (utf8_encode s) \<noteq> [239, 187, 191]"
  proof
    assume t: "take 3 (utf8_encode s) = [239, 187, 191]"
    then have "uint (hd (utf8_encode s)) = 239" by (cases "utf8_encode s") auto
    then show False using u [of c] s(1,2) by (simp add: utf8_encode_def)
  qed
  ultimately show ?thesis using utf8_read_write [OF s(3)] by (simp add: utf8_decode_def)
qed

lemma parse_frame_text:
  assumes "wire_json (JObj kvs)"
  shows "parse_frame p (utf8_encode (stringify (JObj kvs))) = validateRemoteFrame p False (raw_of (JObj kvs))"
proof -
  obtain t where t: "stringify (JObj kvs) = 123 # t" by (simp add: js_simps)
  have "utf8_decode (utf8_encode (stringify (JObj kvs))) = Some (stringify (JObj kvs))"
    using t stringify_utf16 [OF assms] by (intro no_bom [OF t]) simp_all
  then show ?thesis
    unfolding parse_frame_def using JSON_parse_stringify [OF wire_written [OF assms]] wire_value [OF assms]
    by (simp only: option.case)
qed

lemma copy_fits: "json_fits 0 j \<Longrightarrow> json_nodes j < NODES \<Longrightarrow> copyRemoteJson (raw_of j) = Inr j"
  using copy_json_raw_of [of 0 j 0] by (simp add: copyRemoteJson_def)

subsection \<open>Numbers\<close>

lemma digits_all: "takeWhile is_digit (digits_of n) = digits_of n" "dropWhile is_digit (digits_of n) = []"
  using digits_of_form [of n] by (auto simp: list_all_iff takeWhile_eq_all_conv dropWhile_eq_Nil_conv)

lemma digits_written: "written_number (digits_of n)"
proof -
  obtain c t where d: "digits_of n = c # t" "is_digit c" using digits_of_form [of n] by (cases "digits_of n") auto
  have all: "list_all is_digit (digits_of n)" using digits_of_form [of n] by blast
  have "t = []" if "c = 48" using that digits_of_form [of n] d by (simp add: digits_of.simps [of 0])
  then have "read_integer (digits_of n) = Some (digits_of n, [])"
    using digits_all [of n] by (auto simp: read_integer_def JsonText.read_digits_def d(1))
  moreover have "c \<noteq> 45" using d(2) by (auto simp: is_digit_def)
  ultimately have "read_number (digits_of n) = Some (digits_of n, [])"
    using d(1) by (simp add: read_number_def read_fraction_def read_exponent_def)
  then show ?thesis using all by (auto simp: written_number_def list_all_iff number_char_def)
qed

lemma read_digits_int: "list_all is_digit ds \<Longrightarrow> foldl (\<lambda>v c. v * 10 + (c - 48)) (int k) ds = int (foldl (\<lambda>v c. v * 10 + nat (c - 48)) k ds)"
proof (induction ds arbitrary: k)
  case (Cons c ds)
  then have "int k * 10 + (c - 48) = int (k * 10 + nat (c - 48))" by (auto simp: is_digit_def)
  then show ?case using Cons by (simp del: of_nat_add of_nat_mult)
qed simp

lemma decimal_digits: "decimal (digits_of n) = (int n, 0)"
proof -
  have h: "digits_of n \<noteq> []" "hd (digits_of n) \<noteq> 45"
    using digits_of_form [of n] by (cases "digits_of n"; auto simp: is_digit_def)+
  have "Schema.read_digits (digits_of n) = int n"
    using read_digits_int [of "digits_of n" 0] digits_of_form [of n] digits_of_value [of n]
    by (simp add: Schema.read_digits_def)
  then show ?thesis using h by (simp add: decimal_def js_simps Let_def digits_all)
qed

lemma decimal_value_digits [simp]: "decimal_value (decimal (digits_of n)) = int n"
  by (simp add: decimal_digits decimal_value_def)

lemma safe_digits: "int n \<le> MAX_SAFE_INTEGER \<Longrightarrow> safe_integer (decimal (digits_of n))"
  by (simp add: decimal_digits safe_integer_def at_least_def at_most_def MAX_SAFE_INTEGER_def)

lemma wire_number: "int n \<le> MAX_SAFE_INTEGER \<Longrightarrow> wire_json (number_json n)"
  using safe_digits [of n] digits_written [of n] by (simp add: number_json_def number_text_def)

lemma matches_number:
  assumes "int n \<le> MAX_SAFE_INTEGER"
  shows "matches test (number_json n) integer_schema"
    "int k \<le> int n \<Longrightarrow> int n \<le> m \<Longrightarrow>
      matches test (number_json n) (constrain integer_schema (unbounded\<lparr>bd_minimum := Some (int k), bd_maximum := Some m\<rparr>))"
  using assms safe_digits [OF assms]
  by (simp_all add: matches.simps number_json_def integer_schema_def constrain_def or_else_def decimal_digits
      at_least_def at_most_def unbounded_def)

subsection \<open>Chunks\<close>

text \<open>What the schema of a chunk asks of its members.\<close>

definition chunk_ok :: "platform \<Rightarrow> remote_chunk \<Rightarrow> bool" where
  "chunk_ok p c \<longleftrightarrow>
     ck_channel c \<in> {js ''control'', js ''model'', js ''files''}
     \<and> units16 (ck_transferId c) \<and> 1 \<le> length (ck_transferId c) \<and> length (ck_transferId c) \<le> 128
     \<and> pf_test p (js ''^[a-zA-Z0-9_.:-]+$'') (ck_transferId c)
     \<and> ck_index c \<le> 1024 \<and> 1 \<le> ck_total c \<and> ck_total c \<le> 1024 \<and> 1 \<le> ck_bytes c \<and> ck_bytes c \<le> LOGICAL_BYTES
     \<and> units16 (ck_sha256 c) \<and> length (ck_sha256 c) = 64 \<and> pf_test p sha256_pattern (ck_sha256 c)
     \<and> units16 (ck_data c) \<and> length (ck_data c) \<le> LINE_BYTES \<and> pf_test p base64_pattern (ck_data c)"

lemma small_safe: "n \<le> LOGICAL_BYTES \<Longrightarrow> int n \<le> MAX_SAFE_INTEGER"
  by (simp add: LOGICAL_BYTES_def MAX_SAFE_INTEGER_def)

lemma chunk_wire: "chunk_ok p c \<Longrightarrow> wire_json (chunk_json c)"
proof -
  assume c: "chunk_ok p c"
  have n: "wire_json (number_json (ck_index c))" "wire_json (number_json (ck_total c))" "wire_json (number_json (ck_bytes c))"
    using c by (intro wire_number small_safe; simp add: chunk_ok_def LOGICAL_BYTES_def)+
  have one: "wire_json (JNum (js ''1''))" using wire_number [of 1]
    by (simp add: number_json_def digits_of.simps [of "Suc 0"] js_simps MAX_SAFE_INTEGER_def)
  show ?thesis using c n one by (auto simp: chunk_json_def chunk_ok_def units16_def js_simps)
qed

lemma chunk_matches:
  assumes c: "chunk_ok p c"
  shows "matches (pf_test p) (chunk_json c) chunk_schema"
proof -
  have le: "ck_index c \<le> LOGICAL_BYTES" "ck_total c \<le> LOGICAL_BYTES" "ck_bytes c \<le> LOGICAL_BYTES"
    using c by (auto simp: chunk_ok_def LOGICAL_BYTES_def)
  have n: "matches (pf_test p) (number_json (ck_index c)) integer_schema"
    "matches (pf_test p) (number_json (ck_total c))
       (constrain integer_schema (unbounded\<lparr>bd_minimum := Some 1, bd_maximum := Some 1024\<rparr>))"
    "matches (pf_test p) (number_json (ck_bytes c))
       (constrain integer_schema (unbounded\<lparr>bd_minimum := Some 1, bd_maximum := Some (int LOGICAL_BYTES)\<rparr>))"
    using matches_number(1) [OF small_safe [OF le(1)]] matches_number(2) [OF small_safe [OF le(2)], of 1]
      matches_number(2) [OF small_safe [OF le(3)], of 1] c
    by (simp_all add: chunk_ok_def)
  have t: "matches (pf_test p) (JStr (ck_transferId c)) id_schema"
    "matches (pf_test p) (JStr (ck_sha256 c)) (constrain text_schema
         (unbounded\<lparr>bd_pattern := Some sha256_pattern, bd_minLength := Some 64, bd_maxLength := Some 64\<rparr>))"
    "matches (pf_test p) (JStr (ck_data c)) (constrain text_schema
         (unbounded\<lparr>bd_maxLength := Some LINE_BYTES, bd_pattern := Some base64_pattern\<rparr>))"
    using c by (simp_all add: chunk_ok_def matches.simps id_schema_def text_schema_def plain_schema_def constrain_def
        or_else_def unbounded_def lower_def upper_def)
  have ch: "matches (pf_test p) (JStr (ck_channel c)) (enumeration [JStr (js ''control''), JStr (js ''model''), JStr (js ''files'')])"
    using c by (auto simp: chunk_ok_def)
  show ?thesis
    unfolding chunk_schema_def frame_base_def
    by (subst matches_object; simp add: field_name_def optional_key_def js_simps; use n t ch in \<open>simp add: chunk_json_def js_simps\<close>)
qed

lemma chunk_members [simp]:
  "frame_member (js ''v'') (chunk_json c) = Some (JNum (js ''1''))"
  "frame_member (js ''kind'') (chunk_json c) = Some (JStr (js ''chunk''))"
  "chunk_of (chunk_json c) = c" "is_chunk (chunk_json c)"
  by (simp_all add: frame_member_def chunk_json_def chunk_of_def is_chunk_def string_member_def number_member_def
      number_json_def js_simps)

lemma chunk_parses:
  assumes c: "chunk_ok p c"
  shows "parse_frame p (utf8_encode (stringify (chunk_json c))) = Inr (chunk_json c)"
proof -
  obtain kvs where k: "chunk_json c = JObj kvs" by (simp add: chunk_json_def)
  have "length (ck_channel c) \<le> 7" using c by (auto simp: chunk_ok_def js_simps)
  then have fits: "json_fits 0 (chunk_json c)" "json_nodes (chunk_json c) < NODES"
    using c by (simp_all add: chunk_json_def number_json_def chunk_ok_def DEPTH_def NODES_def LOGICAL_BYTES_def LINE_BYTES_def js_simps)
  have copy: "copyRemoteJson (raw_of (chunk_json c)) = Inr (chunk_json c)" by (rule copy_fits [OF fits])
  have m: "map_of kvs (js ''v'') = Some (JNum (js ''1''))" "map_of kvs (js ''kind'') = Some (JStr (js ''chunk''))"
    using chunk_members(1,2) [of c] unfolding k by (simp_all add: frame_member_def)
  have "validateRemoteFrame p False (raw_of (JObj kvs)) = Inr (JObj kvs)"
    using copy chunk_matches [OF c] m unfolding k by (simp add: validateRemoteFrame_def frame_schema_def)
  then show ?thesis using parse_frame_text [of kvs p] chunk_wire [OF c] unfolding k by simp
qed

section \<open>The line of a frame\<close>

lemma object_line:
  assumes "wire_json (JObj kvs)" "bytes = utf8_encode (stringify (JObj kvs))"
  shows "10 \<notin> set bytes" "13 \<notin> set bytes" "bytes \<noteq> []" "utf8_decode bytes = Some (stringify (JObj kvs))"
    "utf8_encode (stringify (JObj kvs) @ [10]) = bytes @ [10]"
proof -
  obtain t where t: "stringify (JObj kvs) = 123 # t" by (simp add: js_simps)
  note u = stringify_utf16 [OF assms(1)]
  have low: "x \<notin> set bytes" if "uint (x :: byte) < 32" for x
    using utf8_encode_low [OF u, of x] stringify_no_control [OF _ wire_written [OF assms(1)], of "uint x"] that
    unfolding assms(2) by (auto simp del: stringify.simps)
  show "10 \<notin> set bytes" "13 \<notin> set bytes" by (rule low; simp)+
  show "bytes \<noteq> []" using t assms(2) by (simp add: utf8_encode_def)
  show "utf8_decode bytes = Some (stringify (JObj kvs))" unfolding assms(2) by (rule no_bom [OF t _ u]) simp
  show "utf8_encode (stringify (JObj kvs) @ [10]) = bytes @ [10]"
    unfolding assms(2) utf8_encode_def utf8_append [OF u] by simp
qed

definition plain_char :: "cu \<Rightarrow> bool" where
  "plain_char c \<longleftrightarrow> 32 \<le> c \<and> c < 127 \<and> c \<noteq> 34 \<and> c \<noteq> 92"

lemma plain_string: "list_all plain_char s \<Longrightarrow> json_string s = 34 # s @ [34]"
proof -
  have "list_all plain_char s \<Longrightarrow> json_chars s = s"
    by (induction s) (auto simp: plain_char_def json_char_def)
  then show "list_all plain_char s \<Longrightarrow> json_string s = 34 # s @ [34]" by (simp add: json_string_def)
qed

lemma plain_units: "list_all plain_char s \<Longrightarrow> units16 s"
  by (auto simp: units16_def plain_char_def list_all_iff)

lemma digits_plain: "list_all plain_char (digits_of n)"
  using digits_of_form [of n] by (auto simp: list_all_iff plain_char_def is_digit_def)

lemma digits_length: "n < 10 ^ k \<Longrightarrow> 0 < k \<Longrightarrow> length (digits_of n) \<le> k"
proof (induction n arbitrary: k rule: digits_of.induct)
  case (1 n)
  show ?case
  proof (cases "n < 10")
    case True
    then show ?thesis using 1 by (simp add: digits_of.simps [of n])
  next
    case False
    then obtain m where m: "k = Suc m" "0 < m" using "1.prems" by (cases k; cases "k - 1") auto
    then have "n div 10 < 10 ^ m" using "1.prems" by (simp add: less_mult_imp_div_less)
    then show ?thesis using "1.IH" [OF False] m False by (simp add: digits_of.simps [of n])
  qed
qed

definition ascii_text :: "jstring \<Rightarrow> bool" where
  "ascii_text s \<longleftrightarrow> list_all (\<lambda>c. 0 \<le> c \<and> c < 128) s"

lemma ascii_plain: "list_all plain_char s \<Longrightarrow> ascii_text s" "list_all plain_char s \<Longrightarrow> ascii_text (json_string s)"
  by (auto simp: ascii_text_def list_all_iff plain_char_def plain_string)

lemma join_ascii: "ascii_text sep \<Longrightarrow> list_all ascii_text ws \<Longrightarrow> ascii_text (join_with sep ws)"
  by (induction sep ws rule: join_with.induct) (auto simp: ascii_text_def)

lemma join_length: "length (join_with [c] ws) \<le> sum_list (map (\<lambda>w. Suc (length w)) ws)"
  by (induction "[c]" ws rule: join_with.induct) auto

lemma plain_object:
  assumes "list_all (\<lambda>(k, v). list_all plain_char k \<and> ascii_text (stringify v)) kvs"
  shows "ascii_text (stringify (JObj kvs))"
    "length (stringify (JObj kvs)) \<le> 2 + sum_list (map (\<lambda>(k, v). length k + length (stringify v) + 4) kvs)"
proof -
  let ?ws = "map (\<lambda>(k, v). json_string k @ 58 # stringify v) kvs"
  have st: "stringify (JObj kvs) = 123 # join_with [44] ?ws @ [125]" by (simp add: js_simps)
  have "list_all ascii_text ?ws" using assms ascii_plain(2) by (fastforce simp: list_all_iff ascii_text_def)
  then show "ascii_text (stringify (JObj kvs))" unfolding st using join_ascii [of "[44]" ?ws] by (simp add: ascii_text_def)
  have "map (\<lambda>w. Suc (length w)) ?ws = map (\<lambda>(k, v). length k + length (stringify v) + 4) kvs"
    using assms by (auto simp: list_all_iff plain_string)
  then have "length (join_with [44] ?ws) \<le> sum_list (map (\<lambda>(k, v). length k + length (stringify v) + 4) kvs)"
    using join_length [of 44 ?ws] by (simp only:)
  then show "length (stringify (JObj kvs)) \<le> 2 + sum_list (map (\<lambda>(k, v). length k + length (stringify v) + 4) kvs)"
    unfolding st by simp
qed

text \<open>A chunk whose strings need no escapes fits a line.\<close>

lemma chunk_line_length:
  assumes "list_all plain_char (ck_channel c)" "list_all plain_char (ck_transferId c)" "list_all plain_char (ck_sha256 c)"
    "list_all plain_char (ck_data c)" "length (ck_channel c) \<le> 7" "length (ck_transferId c) \<le> 128"
    "length (ck_sha256 c) = 64" "length (ck_data c) \<le> 174764" "ck_index c < 10000" "ck_total c < 10000"
    "ck_bytes c < 100000000"
  shows "length (utf8_encode (stringify (chunk_json c))) \<le> LINE_BYTES"
proof -
  have d: "length (digits_of (ck_index c)) \<le> 4" "length (digits_of (ck_total c)) \<le> 4" "length (digits_of (ck_bytes c)) \<le> 8"
    using assms(9-11) by (auto intro!: digits_length)
  obtain kvs where k: "chunk_json c = JObj kvs" by (simp add: chunk_json_def)
  have "list_all (\<lambda>(k, v). list_all plain_char k \<and> ascii_text (stringify v)) kvs"
    using k [symmetric] assms(1-4) ascii_plain digits_plain
    by (simp add: chunk_json_def number_json_def plain_char_def js_simps ascii_text_def)
  note o = plain_object [OF this]
  have "sum_list (map (\<lambda>(k, v). length k + length (stringify v) + 4) kvs) \<le> 200000"
    using k [symmetric] d assms(1-8) by (simp add: chunk_json_def number_json_def plain_string plain_char_def js_simps)
  moreover have "utf8_write (stringify (JObj kvs)) = stringify (JObj kvs)" using o(1) by (intro utf8_ascii) (simp add: ascii_text_def)
  ultimately show ?thesis using o(2) unfolding k by (simp add: utf8_encode_def LINE_BYTES_def del: stringify.simps)
qed

section \<open>What the platform promises\<close>

definition id_unit :: "cu \<Rightarrow> bool" where
  "id_unit c \<longleftrightarrow> is_digit c \<or> (65 \<le> c \<and> c \<le> 90) \<or> (97 \<le> c \<and> c \<le> 122) \<or> c = 95 \<or> c = 46 \<or> c = 58 \<or> c = 45"

text \<open>The regular expressions accept what they describe, and a digest is 64 digits.\<close>

definition platform_ok :: "platform \<Rightarrow> bool" where
  "platform_ok p \<longleftrightarrow>
     (\<forall>s. s \<noteq> [] \<longrightarrow> list_all id_unit s \<longrightarrow> pf_test p (js ''^[a-zA-Z0-9_.:-]+$'') s)
     \<and> (\<forall>bytes. length (pf_hash p bytes) = 64 \<and> list_all id_unit (pf_hash p bytes) \<and> pf_test p sha256_pattern (pf_hash p bytes))
     \<and> (\<forall>bytes. pf_test p base64_pattern (b64_encode bytes))"

lemma id_plain: "list_all id_unit s \<Longrightarrow> list_all plain_char s"
  by (auto simp: list_all_iff id_unit_def plain_char_def is_digit_def)

lemma b64_plain: "list_all plain_char (b64_encode bytes)"
proof -
  have "plain_char (b64_digit i)" if "i \<in> set (sextets bytes)" for i
    using sextets_range [OF that] by (auto simp: b64_digit_def plain_char_def)
  then show ?thesis by (auto simp: b64_encode_def list_all_iff plain_char_def js_simps)
qed

end
