(* ===== verification/Codec.thy ===== *)
theory Codec
  imports Frames "HOL-Library.Multiset"
begin

text \<open>
  The bytes of the remote connection (\<open>packages/cli/src/remote/codec.ts\<close>): a message that fits a line is one
  line, a larger one is cut into chunks, and the lines of several messages may be mixed. The decoder puts
  them together again.
\<close>

section \<open>Writing\<close>

definition chunk_total :: "nat \<Rightarrow> nat" where
  "chunk_total bytes = (bytes + CHUNK_BYTES - 1) div CHUNK_BYTES"

definition nth_chunk :: "platform \<Rightarrow> jstring \<Rightarrow> jstring \<Rightarrow> byte list \<Rightarrow> nat \<Rightarrow> remote_chunk" where
  "nth_chunk p channel transferId bytes index =
     \<lparr>ck_channel = channel, ck_transferId = transferId, ck_index = index, ck_total = chunk_total (length bytes),
      ck_bytes = length bytes, ck_sha256 = pf_hash p bytes,
      ck_data = b64_encode (take CHUNK_BYTES (drop (index * CHUNK_BYTES) bytes))\<rparr>"

text \<open>The lines of a message, each with its line break; \<open>None\<close> when its bytes are no text.\<close>

definition encodeRemoteBytes :: "platform \<Rightarrow> jstring \<Rightarrow> byte list \<Rightarrow> jstring \<Rightarrow> byte list list option" where
  "encodeRemoteBytes p transferId bytes channel =
     (if length bytes \<le> LINE_BYTES then map_option (\<lambda>t. [utf8_encode (t @ [10])]) (utf8_decode bytes)
      else Some (map (\<lambda>index. utf8_encode (stringify (chunk_json (nth_chunk p channel transferId bytes index)) @ [10]))
                   [0..<chunk_total (length bytes)]))"

section \<open>The decoder\<close>

record transfer =
  tr_header :: remote_chunk
  tr_parts :: "byte list list"
  tr_received :: nat

record decoder =
  dc_parts :: "byte list list"
  dc_lineBytes :: nat
  dc_transfers :: "(jstring \<times> transfer) list"
  dc_transferBytes :: nat
  dc_failed :: bool

definition new_decoder :: decoder where
  "new_decoder = \<lparr>dc_parts = [], dc_lineBytes = 0, dc_transfers = [], dc_transferBytes = 0, dc_failed = False\<rparr>"

definition clear_decoder :: "decoder \<Rightarrow> decoder" where
  "clear_decoder d = d\<lparr>dc_parts := [], dc_lineBytes := 0, dc_transfers := [], dc_transferBytes := 0\<rparr>"

definition append_line :: "decoder \<Rightarrow> byte list \<Rightarrow> remote_error + decoder" where
  "append_line d bytes =
     (if bytes = [] then Inr d
      else if LINE_BYTES < dc_lineBytes d + length bytes then Inl LimitExceeded
      else Inr (d\<lparr>dc_lineBytes := dc_lineBytes d + length bytes, dc_parts := dc_parts d @ [bytes]\<rparr>))"

text \<open>The transfer a chunk belongs to, which its first chunk opens.\<close>

definition open_transfer :: "decoder \<Rightarrow> remote_chunk \<Rightarrow> remote_error + transfer \<times> decoder" where
  "open_transfer d f =
     (case map_of (dc_transfers d) (ck_transferId f) of
        Some t \<Rightarrow> Inr (t, d)
      | None \<Rightarrow>
          if ck_index f \<noteq> 0 then Inl InvalidFrame
          else if TRANSFERS \<le> length (dc_transfers d) \<or> TRANSFER_BYTES < dc_transferBytes d + ck_bytes f
          then Inl LimitExceeded
          else
            let t = \<lparr>tr_header = f, tr_parts = [], tr_received = 0\<rparr>
            in Inr (t, d\<lparr>dc_transfers := AList.update (ck_transferId f) t (dc_transfers d),
                         dc_transferBytes := dc_transferBytes d + ck_bytes f\<rparr>))"

definition take_chunk :: "platform \<Rightarrow> decoder \<Rightarrow> remote_chunk \<Rightarrow> remote_error + json option \<times> decoder" where
  "take_chunk p d f =
     (if ck_total f \<noteq> chunk_total (ck_bytes f) \<or> ck_total f \<le> ck_index f then Inl InvalidFrame
      else
        (case open_transfer d f of
           Inl e \<Rightarrow> Inl e
         | Inr (t, d1) \<Rightarrow>
             let h = tr_header t in
             if ck_index f \<noteq> length (tr_parts t) \<or> ck_total f \<noteq> ck_total h \<or> ck_bytes f \<noteq> ck_bytes h
                \<or> ck_sha256 f \<noteq> ck_sha256 h \<or> ck_channel f \<noteq> ck_channel h
             then Inl InvalidFrame
             else
               let part = b64_decode (ck_data f);
                   expected = min CHUNK_BYTES (ck_bytes f - ck_index f * CHUNK_BYTES)
               in
               if length part \<noteq> expected \<or> b64_encode part \<noteq> ck_data f then Inl InvalidFrame
               else
                 let t1 = t\<lparr>tr_parts := tr_parts t @ [part], tr_received := tr_received t + length part\<rparr> in
                 if length (tr_parts t1) \<noteq> ck_total h
                 then Inr (None, d1\<lparr>dc_transfers := AList.update (ck_transferId f) t1 (dc_transfers d1)\<rparr>)
                 else
                   let bytes = take (tr_received t1) (concat (tr_parts t1));
                       d2 = d1\<lparr>dc_transfers := AList.delete (ck_transferId f) (dc_transfers d1),
                               dc_transferBytes := dc_transferBytes d1 - ck_bytes h\<rparr>
                   in
                   if pf_hash p bytes \<noteq> ck_sha256 h then Inl InvalidFrame
                   else
                     (case parse_frame p bytes of
                        Inl e \<Rightarrow> Inl e
                      | Inr message \<Rightarrow>
                          if is_chunk message \<or> remoteChannel message \<noteq> ck_channel h then Inl InvalidFrame
                          else Inr (Some message, d2))))"

definition drop_cr :: "byte list \<Rightarrow> byte list" where
  "drop_cr line = (if line \<noteq> [] \<and> last line = 13 then butlast line else line)"

definition take_line :: "platform \<Rightarrow> decoder \<Rightarrow> remote_error + json option \<times> decoder" where
  "take_line p d =
     (let line = take (dc_lineBytes d) (concat (dc_parts d));
          d1 = d\<lparr>dc_parts := [], dc_lineBytes := 0\<rparr>
      in
      (case parse_frame p (drop_cr line) of
         Inl e \<Rightarrow> Inl e
       | Inr frame \<Rightarrow> if is_chunk frame then take_chunk p d1 (chunk_of frame) else Inr (Some frame, d1)))"

lemma rest_shorter: "dropWhile P bs = b # r \<Longrightarrow> length r < length bs"
  using length_dropWhile_le [of P bs] by simp

function decode_loop :: "platform \<Rightarrow> decoder \<Rightarrow> byte list \<Rightarrow> remote_error + json list \<times> decoder" where
  "decode_loop p d bytes =
     (case append_line d (takeWhile (\<lambda>b. b \<noteq> 10) bytes) of
        Inl e \<Rightarrow> Inl e
      | Inr d1 \<Rightarrow>
          (case dropWhile (\<lambda>b. b \<noteq> 10) bytes of
             [] \<Rightarrow> Inr ([], d1)
           | _ # r \<Rightarrow>
               (case take_line p d1 of
                  Inl e \<Rightarrow> Inl e
                | Inr (m, d2) \<Rightarrow>
                    (case decode_loop p d2 r of
                       Inl e \<Rightarrow> Inl e
                     | Inr (ms, d3) \<Rightarrow> Inr ((case m of Some x \<Rightarrow> x # ms | None \<Rightarrow> ms), d3)))))"
  by pat_completeness auto
termination by (relation "measure (\<lambda>(p, d, bytes). length bytes)") (auto dest: rest_shorter)

declare decode_loop.simps [simp del]

definition decoder_push :: "platform \<Rightarrow> decoder \<Rightarrow> byte list \<Rightarrow> decoder \<times> (remote_error + json list)" where
  "decoder_push p d bytes =
     (if dc_failed d then (d, Inl Disconnected)
      else
        (case decode_loop p d bytes of
           Inl e \<Rightarrow> (clear_decoder (d\<lparr>dc_failed := True\<rparr>), Inl e)
         | Inr (ms, d1) \<Rightarrow> (d1, Inr ms)))"

definition decoder_finish :: "decoder \<Rightarrow> decoder \<times> (remote_error + unit)" where
  "decoder_finish d =
     (let incomplete = (dc_lineBytes d \<noteq> 0 \<or> dc_transfers d \<noteq> [])
      in (clear_decoder (d\<lparr>dc_failed := True\<rparr>), if incomplete then Inl Disconnected else Inr ()))"

section \<open>Lines of any pieces\<close>

text \<open>Pieces pushed one after the other, as the connection reads them.\<close>

fun push_all :: "platform \<Rightarrow> decoder \<Rightarrow> byte list list \<Rightarrow> decoder \<times> (remote_error + json list)" where
  "push_all p d [] = (d, Inr [])"
| "push_all p d (b # bs) =
     (case decoder_push p d b of
        (d1, Inl e) \<Rightarrow> (d1, Inl e)
      | (d1, Inr ms) \<Rightarrow> (case push_all p d1 bs of (d2, Inl e) \<Rightarrow> (d2, Inl e) | (d2, Inr ns) \<Rightarrow> (d2, Inr (ms @ ns))))"

text \<open>The decoder between two lines, and whole lines given to it one after the other.\<close>

definition between :: "decoder \<Rightarrow> decoder" where
  "between d = d\<lparr>dc_parts := [], dc_lineBytes := 0\<rparr>"

definition holds_line :: "decoder \<Rightarrow> byte list \<Rightarrow> bool" where
  "holds_line d q \<longleftrightarrow> concat (dc_parts d) = q \<and> dc_lineBytes d = length q \<and> [] \<notin> set (dc_parts d)"

definition whole_line :: "platform \<Rightarrow> decoder \<Rightarrow> byte list \<Rightarrow> remote_error + json option \<times> decoder" where
  "whole_line p d l =
     (case parse_frame p (drop_cr l) of
        Inl e \<Rightarrow> Inl e
      | Inr frame \<Rightarrow> if is_chunk frame then take_chunk p d (chunk_of frame) else Inr (Some frame, d))"

fun feed_lines :: "platform \<Rightarrow> decoder \<Rightarrow> byte list list \<Rightarrow> remote_error + json list \<times> decoder" where
  "feed_lines p d [] = Inr ([], d)"
| "feed_lines p d (l # ls) =
     (case whole_line p d l of
        Inl e \<Rightarrow> Inl e
      | Inr (m, d1) \<Rightarrow>
          (case feed_lines p d1 ls of Inl e \<Rightarrow> Inl e
           | Inr (ms, d2) \<Rightarrow> Inr ((case m of Some x \<Rightarrow> x # ms | None \<Rightarrow> ms), d2)))"

lemma take_line_whole: "holds_line d q \<Longrightarrow> take_line p d = whole_line p (between d) q"
  by (simp add: take_line_def whole_line_def between_def holds_line_def Let_def)

lemma between_between [simp]: "between (between d) = between d" "holds_line (between d) []"
  by (simp_all add: between_def holds_line_def)

lemma take_chunk_between: "take_chunk p (between d) f = Inr (m, d1) \<Longrightarrow> between d1 = d1"
  by (auto simp: take_chunk_def open_transfer_def between_def Let_def split: if_splits option.splits sum.splits)

lemma whole_line_between: "whole_line p (between d) q = Inr (m, d1) \<Longrightarrow> between d1 = d1"
  by (auto simp: whole_line_def dest: take_chunk_between split: if_splits sum.splits)

lemma append_line_holds:
  "holds_line d q \<Longrightarrow> length q + length s \<le> LINE_BYTES \<Longrightarrow>
   \<exists>d1. append_line d s = Inr d1 \<and> holds_line d1 (q @ s) \<and> between d1 = between d"
  by (auto simp: append_line_def holds_line_def between_def)

abbreviation terminated :: "byte list list \<Rightarrow> byte list" where
  "terminated ls \<equiv> concat (map (\<lambda>l. l @ [10]) ls)"

lemma feed_lines_append:
  "feed_lines p d (xs @ ys) = (case feed_lines p d xs of Inl e \<Rightarrow> Inl e
     | Inr (ms, d1) \<Rightarrow> (case feed_lines p d1 ys of Inl e \<Rightarrow> Inl e | Inr (ns, d2) \<Rightarrow> Inr (ms @ ns, d2)))"
  by (induction xs arbitrary: d) (auto split: sum.splits option.splits)

definition line_ok :: "byte list \<Rightarrow> bool" where
  "line_ok l \<longleftrightarrow> 10 \<notin> set l \<and> length l \<le> LINE_BYTES"

lemma first_line:
  assumes "s @ 10 # r = terminated ls" "10 \<notin> set s" "list_all line_ok ls"
  shows "\<exists>ls'. ls = s # ls' \<and> r = terminated ls'"
proof -
  obtain l ls' where l: "ls = l # ls'" using assms(1) by (cases ls) auto
  then have n: "10 \<notin> set l" "s @ 10 # r = l @ 10 # terminated ls'" using assms by (simp_all add: line_ok_def)
  from n(2) obtain us where "s = l @ us \<and> us @ 10 # r = 10 # terminated ls' \<or> s @ us = l \<and> 10 # r = us @ 10 # terminated ls'"
    by (auto simp: append_eq_append_conv2)
  then have "s = l \<and> r = terminated ls'" using assms(2) n(1) by (cases us) auto
  then show ?thesis using l by simp
qed

lemma part_line:
  assumes "s @ r = terminated ls" "10 \<notin> set s" "list_all line_ok ls"
  shows "length s \<le> LINE_BYTES"
proof (cases ls)
  case Nil
  then show ?thesis using assms(1) by simp
next
  case (Cons l ls')
  have "s @ r = l @ 10 # terminated ls'" using assms(1) Cons by simp
  then obtain us where "s = l @ us \<and> us @ r = 10 # terminated ls' \<or> s @ us = l \<and> r = us @ 10 # terminated ls'"
    by (auto simp: append_eq_append_conv2)
  then have "length s \<le> length l" using assms(2) by (cases us) auto
  then show ?thesis using assms(3) Cons by (simp add: line_ok_def)
qed

lemma loop_piece:
  assumes "holds_line d q" "10 \<notin> set q" "q @ b @ r = terminated ls" "list_all line_ok ls"
    "feed_lines p (between d) ls = Inr (ms, dn)"
  shows "\<exists>past ls2 ms1 d1 q1. decode_loop p d b = Inr (ms1, d1) \<and> ls = past @ ls2 \<and>
    feed_lines p (between d) past = Inr (ms1, between d1) \<and> holds_line d1 q1 \<and> 10 \<notin> set q1 \<and> q1 @ r = terminated ls2"
  using assms
proof (induction p d b arbitrary: q ls ms rule: decode_loop.induct)
  case (1 p d b)
  define s where "s = takeWhile (\<lambda>b. b \<noteq> 10) b"
  have s: "10 \<notin> set s" unfolding s_def by (auto dest: set_takeWhileD)
  obtain u where u: "dropWhile (\<lambda>b. b \<noteq> 10) b = u" by simp
  then have b: "b = s @ u" unfolding s_def by (metis takeWhile_dropWhile_id)
  have qs: "10 \<notin> set (q @ s)" using "1.prems"(2) s by simp
  have "(q @ s) @ (u @ r) = terminated ls" using "1.prems"(3) unfolding b by simp
  then have len: "length q + length s \<le> LINE_BYTES" using part_line [OF _ qs "1.prems"(4)] by simp
  obtain d1 where d1: "append_line d s = Inr d1" "holds_line d1 (q @ s)" "between d1 = between d"
    using append_line_holds [OF "1.prems"(1) len] by blast
  show ?case
  proof (cases "dropWhile (\<lambda>b. b \<noteq> 10) b")
    case Nil
    have "decode_loop p d b = Inr ([], d1)" by (subst decode_loop.simps) (simp add: d1(1) [unfolded s_def] Nil)
    moreover have "(q @ s) @ r = terminated ls" using \<open>(q @ s) @ (u @ r) = terminated ls\<close> u [unfolded Nil] by simp
    ultimately show ?thesis using d1 s "1.prems"(2) by (intro exI [of _ "[]"] exI [of _ ls]) (auto intro!: exI [of _ d1])
  next
    case (Cons c r')
    have c: "c = 10" using Cons by (metis (mono_tags, lifting) dropWhile_eq_Cons_conv)
    have "u = 10 # r'" using u Cons c by simp
    with \<open>(q @ s) @ (u @ r) = terminated ls\<close> have "(q @ s) @ 10 # (r' @ r) = terminated ls" by (simp only: append_Cons)
    then obtain ls' where ls: "ls = (q @ s) # ls'" "r' @ r = terminated ls'"
      using first_line [OF _ qs "1.prems"(4)] by blast
    obtain m d2 ns where m: "whole_line p (between d) (q @ s) = Inr (m, d2)" "feed_lines p d2 ls' = Inr (ns, dn)"
      "ms = (case m of Some x \<Rightarrow> x # ns | None \<Rightarrow> ns)"
      using "1.prems"(5) ls(1) by (auto split: sum.splits)
    have tl: "take_line p d1 = Inr (m, d2)" using take_line_whole [OF d1(2)] d1(3) m(1) by simp
    have b2: "between d2 = d2" using whole_line_between [OF m(1)] .
    have h2: "holds_line d2 []" using between_between(2) [of d2] b2 by simp
    obtain past ls2 ms1 d3 q1 where IH: "decode_loop p d2 r' = Inr (ms1, d3)" "ls' = past @ ls2"
      "feed_lines p (between d2) past = Inr (ms1, between d3)" "holds_line d3 q1" "10 \<notin> set q1" "q1 @ r = terminated ls2"
      using "1.IH" [OF d1(1) [unfolded s_def] Cons tl refl h2, of ls' ns] ls(2) "1.prems"(4) m(2) b2 ls(1) by auto
    have "decode_loop p d b = Inr ((case m of Some x \<Rightarrow> x # ms1 | None \<Rightarrow> ms1), d3)"
      by (subst decode_loop.simps) (simp add: d1(1) [unfolded s_def] Cons tl IH(1) split: option.split)
    moreover have "feed_lines p (between d) ((q @ s) # past) = Inr ((case m of Some x \<Rightarrow> x # ms1 | None \<Rightarrow> ms1), between d3)"
      using m(1) IH(3) b2 by simp
    moreover have "ls = ((q @ s) # past) @ ls2" using ls(1) IH(2) by simp
    ultimately show ?thesis using IH(4,5,6) by blast
  qed
qed

lemma feed_between: "feed_lines p (between d) ls = Inr (ms, d1) \<Longrightarrow> between d1 = d1"
proof (induction ls arbitrary: d ms)
  case (Cons l ls)
  obtain m d2 ns where m: "whole_line p (between d) l = Inr (m, d2)" "feed_lines p d2 ls = Inr (ns, d1)"
    using Cons.prems by (auto split: sum.splits)
  show ?case using Cons.IH [of d2 ns] whole_line_between [OF m(1)] m(2) by simp
qed auto

lemma take_chunk_failed: "take_chunk p d f = Inr (m, d1) \<Longrightarrow> dc_failed d1 = dc_failed d"
  by (auto simp: take_chunk_def open_transfer_def Let_def split: if_splits option.splits sum.splits)

lemma feed_failed: "feed_lines p d ls = Inr (ms, d1) \<Longrightarrow> dc_failed d1 = dc_failed d"
proof (induction ls arbitrary: d ms)
  case (Cons l ls)
  obtain m d2 ns where m: "whole_line p d l = Inr (m, d2)" "feed_lines p d2 ls = Inr (ns, d1)"
    using Cons.prems by (auto split: sum.splits)
  show ?case using Cons.IH [OF m(2)] m(1) by (auto simp: whole_line_def dest: take_chunk_failed split: sum.splits if_splits)
qed auto

text \<open>Whatever the pieces, the decoder does what it would do with the lines.\<close>

lemma push_lines:
  assumes "holds_line d q" "10 \<notin> set q" "q @ concat pieces = terminated ls" "list_all line_ok ls"
    "feed_lines p (between d) ls = Inr (ms, dn)" "\<not> dc_failed d"
  shows "push_all p d pieces = (dn, Inr ms)"
  using assms
proof (induction pieces arbitrary: d q ls ms)
  case Nil
  then have e: "ls = [] \<and> q = []" by (cases ls) auto
  then have "dc_parts d = [] \<and> dc_lineBytes d = 0" using Nil(1) by (cases "dc_parts d") (auto simp: holds_line_def)
  then have "between d = d" by (simp add: between_def)
  then show ?case using Nil e by simp
next
  case (Cons b bs)
  have e: "q @ b @ concat bs = terminated ls" using Cons.prems(3) by simp
  obtain past ls2 ms1 d1 q1 where s: "decode_loop p d b = Inr (ms1, d1)" "ls = past @ ls2"
    "feed_lines p (between d) past = Inr (ms1, between d1)" "holds_line d1 q1" "10 \<notin> set q1" "q1 @ concat bs = terminated ls2"
    using loop_piece [OF Cons.prems(1,2) e Cons.prems(4,5)] by blast
  obtain ns where ns: "feed_lines p (between d1) ls2 = Inr (ns, dn)" "ms = ms1 @ ns"
    using Cons.prems(5) s(2,3) by (auto simp: feed_lines_append split: sum.splits)
  have "dc_failed (between d1) = dc_failed (between d)" by (rule feed_failed [OF s(3)])
  then have f: "\<not> dc_failed d1" using Cons.prems(6) by (simp add: between_def)
  have "push_all p d1 bs = (dn, Inr ns)"
    using Cons.IH [OF s(4,5,6) _ ns(1) f] Cons.prems(4) s(2) by simp
  then show ?case using s(1) ns(2) Cons.prems(6) by (simp add: decoder_push_def)
qed

section \<open>Lines of several messages\<close>

text \<open>Messages to send, with the identity of their transfer.\<close>

record remote_job =
  jb_id :: jstring
  jb_message :: json
  jb_bytes :: "byte list"

definition job_chunk :: "platform \<Rightarrow> remote_job \<Rightarrow> nat \<Rightarrow> remote_chunk" where
  "job_chunk p j = nth_chunk p (remoteChannel (jb_message j)) (jb_id j) (jb_bytes j)"

definition job_part :: "remote_job \<Rightarrow> nat \<Rightarrow> byte list" where
  "job_part j n = take CHUNK_BYTES (drop (n * CHUNK_BYTES) (jb_bytes j))"

definition job_total :: "remote_job \<Rightarrow> nat" where
  "job_total j = chunk_total (length (jb_bytes j))"

text \<open>The decoder while the messages \<open>i\<close> in \<open>op\<close> have sent their first \<open>k\<close> chunks.\<close>

definition transfer_at :: "platform \<Rightarrow> remote_job \<Rightarrow> nat \<Rightarrow> transfer" where
  "transfer_at p j k =
     \<lparr>tr_header = job_chunk p j 0, tr_parts = map (job_part j) [0..<k], tr_received = min (k * CHUNK_BYTES) (length (jb_bytes j))\<rparr>"

definition decoder_for :: "platform \<Rightarrow> remote_job list \<Rightarrow> (nat \<times> nat) list \<Rightarrow> decoder" where
  "decoder_for p jobs op =
     \<lparr>dc_parts = [], dc_lineBytes = 0,
      dc_transfers = map (\<lambda>(i, k). (jb_id (jobs ! i), transfer_at p (jobs ! i) k)) op,
      dc_transferBytes = sum_list (map (\<lambda>(i, k). length (jb_bytes (jobs ! i))) op), dc_failed = False\<rparr>"

definition job_ok :: "platform \<Rightarrow> remote_job \<Rightarrow> bool" where
  "job_ok p j \<longleftrightarrow> parse_frame p (jb_bytes j) = Inr (jb_message j) \<and> \<not> is_chunk (jb_message j) \<and> jb_bytes j \<noteq> []"

lemma chunk_steps:
  assumes "0 < k"
  shows "(chunk_total k - 1) * CHUNK_BYTES < k \<and> k \<le> chunk_total k * CHUNK_BYTES \<and> 0 < chunk_total k"
proof -
  define r where "r = (k + CHUNK_BYTES - 1) mod CHUNK_BYTES"
  have "chunk_total k * CHUNK_BYTES + r = k + CHUNK_BYTES - 1" unfolding chunk_total_def r_def by (rule div_mult_mod_eq)
  moreover have "r < CHUNK_BYTES" by (simp add: r_def CHUNK_BYTES_def)
  ultimately show ?thesis using assms by (cases "chunk_total k") (simp_all add: CHUNK_BYTES_def)
qed

lemma part_sizes:
  assumes "k < job_total j" "jb_bytes j \<noteq> []"
  shows "length (job_part j k) = min CHUNK_BYTES (length (jb_bytes j) - k * CHUNK_BYTES)"
    "min (k * CHUNK_BYTES) (length (jb_bytes j)) + length (job_part j k) = min (Suc k * CHUNK_BYTES) (length (jb_bytes j))"
  by (auto simp: job_part_def min_def)

lemma parts_concat: "concat (map (job_part j) [0..<k]) = take (k * CHUNK_BYTES) (jb_bytes j)"
proof (induction k)
  case (Suc k)
  have "Suc k * CHUNK_BYTES = k * CHUNK_BYTES + CHUNK_BYTES" by simp
  then show ?case using Suc by (simp only: take_add) (simp add: job_part_def)
qed simp

lemma whole_message: "take (min (job_total j * CHUNK_BYTES) (length (jb_bytes j))) (concat (map (job_part j) [0..<job_total j])) = jb_bytes j"
proof (cases "jb_bytes j = []")
  case False
  then have "length (jb_bytes j) \<le> job_total j * CHUNK_BYTES"
    using chunk_steps [of "length (jb_bytes j)"] by (simp add: job_total_def)
  then show ?thesis by (simp add: parts_concat)
qed (simp add: parts_concat)

lemma job_chunk_simps [simp]:
  "ck_channel (job_chunk p j k) = remoteChannel (jb_message j)" "ck_transferId (job_chunk p j k) = jb_id j"
  "ck_index (job_chunk p j k) = k" "ck_total (job_chunk p j k) = job_total j"
  "ck_bytes (job_chunk p j k) = length (jb_bytes j)" "ck_sha256 (job_chunk p j k) = pf_hash p (jb_bytes j)"
  "ck_data (job_chunk p j k) = b64_encode (job_part j k)"
  by (simp_all add: job_chunk_def nth_chunk_def job_total_def job_part_def)

text \<open>What a chunk does to a transfer that is open.\<close>

lemma next_part:
  assumes "job_ok p j" "k < job_total j" "open_transfer d (job_chunk p j k) = Inr (transfer_at p j k, d1)"
  shows "take_chunk p d (job_chunk p j k) =
    (if Suc k = job_total j
     then Inr (Some (jb_message j), d1\<lparr>dc_transfers := AList.delete (jb_id j) (dc_transfers d1),
        dc_transferBytes := dc_transferBytes d1 - length (jb_bytes j)\<rparr>)
     else Inr (None, d1\<lparr>dc_transfers := AList.update (jb_id j) (transfer_at p j (Suc k)) (dc_transfers d1)\<rparr>))"
proof -
  have b: "jb_bytes j \<noteq> []" using assms(1) by (simp add: job_ok_def)
  have t1: "transfer_at p j k\<lparr>tr_parts := tr_parts (transfer_at p j k) @ [job_part j k],
      tr_received := tr_received (transfer_at p j k) + length (job_part j k)\<rparr> = transfer_at p j (Suc k)"
    using part_sizes(2) [OF assms(2) b] by (simp add: transfer_at_def)
  have head: "tr_header (transfer_at p j m) = job_chunk p j 0" "length (tr_parts (transfer_at p j m)) = m" for m
    by (simp_all add: transfer_at_def)
  have whole: "take (tr_received (transfer_at p j (Suc k))) (concat (tr_parts (transfer_at p j (Suc k)))) = jb_bytes j"
    if "Suc k = job_total j"
    using whole_message [of j] unfolding that [symmetric] by (simp only: transfer_at_def transfer.simps)
  show ?thesis
    unfolding take_chunk_def Let_def assms(3) sum.case prod.case job_chunk_simps b64_decode_encode t1 head
    using assms(1,2) whole part_sizes(1) [OF assms(2) b]
    by (simp add: job_total_def [symmetric] job_ok_def)
qed

subsection \<open>The transfers that are open\<close>

definition op_ok :: "remote_job list \<Rightarrow> (nat \<times> nat) list \<Rightarrow> bool" where
  "op_ok jobs op \<longleftrightarrow> distinct (map fst op) \<and> (\<forall>(i, k) \<in> set op. i < length jobs \<and> k < job_total (jobs ! i))"

definition jobs_ok :: "platform \<Rightarrow> remote_job list \<Rightarrow> bool" where
  "jobs_ok p jobs \<longleftrightarrow> list_all (job_ok p) jobs \<and> distinct (map jb_id jobs)"

lemma alist_image:
  assumes "\<And>n. n \<in> fst ` set op \<Longrightarrow> f n = f i \<Longrightarrow> n = i"
  shows "map_of (map (\<lambda>(n, k). (f n, g n k)) op) (f i) = map_option (g i) (map_of op i)"
    "AList.update (f i) (g i k) (map (\<lambda>(n, k). (f n, g n k)) op) = map (\<lambda>(n, k). (f n, g n k)) (AList.update i k op)"
    "AList.delete (f i) (map (\<lambda>(n, k). (f n, g n k)) op) = map (\<lambda>(n, k). (f n, g n k)) (AList.delete i op)"
proof -
  have same: "f n = f i \<longleftrightarrow> n = i" if "n \<in> fst ` set op" for n using assms that by blast
  then show "map_of (map (\<lambda>(n, k). (f n, g n k)) op) (f i) = map_option (g i) (map_of op i)"
    "AList.update (f i) (g i k) (map (\<lambda>(n, k). (f n, g n k)) op) = map (\<lambda>(n, k). (f n, g n k)) (AList.update i k op)"
    "AList.delete (f i) (map (\<lambda>(n, k). (f n, g n k)) op) = map (\<lambda>(n, k). (f n, g n k)) (AList.delete i op)"
    by (induction op; force simp: AList.delete_eq)+
qed

lemma ids_differ:
  assumes "jobs_ok p jobs" "op_ok jobs op" "i < length jobs" "n \<in> fst ` set op" "jb_id (jobs ! n) = jb_id (jobs ! i)"
  shows "n = i"
proof -
  have "n < length jobs" using assms(2,4) by (force simp: op_ok_def)
  then show ?thesis
    using assms(1,3,5) nth_eq_iff_index_eq [of "map jb_id jobs" n i] by (simp add: jobs_ok_def)
qed

lemma update_last: "i \<notin> fst ` set al \<Longrightarrow> AList.update i x (al @ [(i, y)]) = al @ [(i, x)]"
  by (induction al) auto

lemma sum_update: "map_of op i = Some k \<Longrightarrow> sum_list (map (\<lambda>(i, k). h i) (AList.update i m op)) = sum_list (map (\<lambda>(i, k). h i) op)"
  by (induction op) (auto split: if_splits)

lemma sum_delete:
  "distinct (map fst op) \<Longrightarrow> map_of op i = Some k \<Longrightarrow>
   sum_list (map (\<lambda>(i, k). h i) (AList.delete i op)) = sum_list (map (\<lambda>(i, k). h i) op) - (h i :: nat)"
proof (induction op)
  case (Cons x op)
  obtain n m where x: "x = (n, m)" by (cases x)
  show ?case
  proof (cases "n = i")
    case True
    then have "filter (\<lambda>(k', _). i \<noteq> k') op = op" using Cons.prems(1) x by (force intro: filter_True)
    then show ?thesis using True x by (simp add: AList.delete_eq)
  next
    case False
    then have m: "map_of op i = Some k" using Cons.prems(2) x by simp
    then have "h i \<le> sum_list (map (\<lambda>(i, k). h i) op)" by (force dest: map_of_SomeD intro: member_le_sum_list)
    then show ?thesis using Cons False x m by (simp add: AList.delete_eq)
  qed
qed simp

lemma decoder_update:
  assumes "jobs_ok p jobs" "op_ok jobs op" "i < length jobs" "map_of op i = Some k"
  shows "(decoder_for p jobs op)\<lparr>dc_transfers := AList.update (jb_id (jobs ! i)) (transfer_at p (jobs ! i) m)
      (dc_transfers (decoder_for p jobs op))\<rparr> = decoder_for p jobs (AList.update i m op)"
  using alist_image(2) [of op "\<lambda>n. jb_id (jobs ! n)" i "\<lambda>n. transfer_at p (jobs ! n)" m] ids_differ [OF assms(1-3)]
    sum_update [OF assms(4), of "\<lambda>i. length (jb_bytes (jobs ! i))" m]
  by (simp add: decoder_for_def)

lemma decoder_delete:
  assumes "jobs_ok p jobs" "op_ok jobs op" "i < length jobs" "map_of op i = Some k"
  shows "(decoder_for p jobs op)\<lparr>dc_transfers := AList.delete (jb_id (jobs ! i)) (dc_transfers (decoder_for p jobs op)),
      dc_transferBytes := dc_transferBytes (decoder_for p jobs op) - length (jb_bytes (jobs ! i))\<rparr>
    = decoder_for p jobs (AList.delete i op)"
  using alist_image(3) [of op "\<lambda>n. jb_id (jobs ! n)" i "\<lambda>n. transfer_at p (jobs ! n)"] ids_differ [OF assms(1-3)]
    sum_delete [OF _ assms(4), of "\<lambda>i. length (jb_bytes (jobs ! i))"] assms(2)
  by (simp add: decoder_for_def op_ok_def)

definition has_room :: "remote_job list \<Rightarrow> (nat \<times> nat) list \<Rightarrow> remote_job \<Rightarrow> bool" where
  "has_room jobs op j \<longleftrightarrow> length op < TRANSFERS
     \<and> sum_list (map (\<lambda>(i, k). length (jb_bytes (jobs ! i))) op) + length (jb_bytes j) \<le> TRANSFER_BYTES"

lemma open_again:
  assumes "jobs_ok p jobs" "op_ok jobs op" "i < length jobs" "map_of op i = Some k"
  shows "open_transfer (decoder_for p jobs op) (job_chunk p (jobs ! i) k) = Inr (transfer_at p (jobs ! i) k, decoder_for p jobs op)"
  using alist_image(1) [of op "\<lambda>n. jb_id (jobs ! n)" i "\<lambda>n. transfer_at p (jobs ! n)"] ids_differ [OF assms(1-3)] assms(4)
  by (simp add: open_transfer_def decoder_for_def)

lemma open_first:
  assumes "jobs_ok p jobs" "op_ok jobs op" "i < length jobs" "map_of op i = None" "has_room jobs op (jobs ! i)"
  shows "open_transfer (decoder_for p jobs op) (job_chunk p (jobs ! i) 0)
    = Inr (transfer_at p (jobs ! i) 0, decoder_for p jobs (op @ [(i, 0)]))"
proof -
  have n: "map_of (dc_transfers (decoder_for p jobs op)) (jb_id (jobs ! i)) = None"
    using alist_image(1) [of op "\<lambda>n. jb_id (jobs ! n)" i "\<lambda>n. transfer_at p (jobs ! n)"] ids_differ [OF assms(1-3)] assms(4)
    by (simp add: decoder_for_def)
  have u: "AList.update (jb_id (jobs ! i)) (transfer_at p (jobs ! i) 0) (dc_transfers (decoder_for p jobs op))
      = dc_transfers (decoder_for p jobs op) @ [(jb_id (jobs ! i), (transfer_at p (jobs ! i) 0))]"
    using n by (intro update_new) (simp add: map_of_eq_None_iff)
  have t: "\<lparr>tr_header = job_chunk p (jobs ! i) 0, tr_parts = [], tr_received = 0\<rparr> = transfer_at p (jobs ! i) 0" by (simp add: transfer_at_def)
  have d: "(decoder_for p jobs op)\<lparr>dc_transfers := dc_transfers (decoder_for p jobs op) @ [(jb_id (jobs ! i), (transfer_at p (jobs ! i) 0))],
      dc_transferBytes := dc_transferBytes (decoder_for p jobs op) + length (jb_bytes (jobs ! i))\<rparr>
    = decoder_for p jobs (op @ [(i, 0)])"
    by (simp add: decoder_for_def)
  have r: "\<not> (TRANSFERS \<le> length (dc_transfers (decoder_for p jobs op))
      \<or> TRANSFER_BYTES < dc_transferBytes (decoder_for p jobs op) + length (jb_bytes (jobs ! i)))"
    using assms(5) by (simp add: decoder_for_def has_room_def)
  show ?thesis unfolding open_transfer_def job_chunk_simps n option.case Let_def if_not_P [OF r] t u d by simp
qed

text \<open>One chunk of one message, whatever others are open.\<close>

lemma chunk_step:
  assumes "jobs_ok p jobs" "op_ok jobs op" "i < length jobs" "map_of op i = None \<Longrightarrow> k = 0 \<and> has_room jobs op (jobs ! i)"
    "\<And>m. map_of op i = Some m \<Longrightarrow> m = k" "k < job_total (jobs ! i)"
  shows "take_chunk p (decoder_for p jobs op) (job_chunk p (jobs ! i) k) =
    (if Suc k = job_total (jobs ! i) then Inr (Some (jb_message (jobs ! i)), decoder_for p jobs (AList.delete i op))
     else Inr (None, decoder_for p jobs (AList.update i (Suc k) op)))"
proof -
  have j: "job_ok p (jobs ! i)" using assms(1,3) by (simp add: jobs_ok_def list_all_length)
  show ?thesis
  proof (cases "map_of op i")
    case None
    define op1 where "op1 = op @ [(i, 0 :: nat)]"
    have k: "k = 0" "has_room jobs op (jobs ! i)" using assms(4) None by auto
    have new: "i \<notin> fst ` set op" using None by (simp add: map_of_eq_None_iff)
    have ok: "op_ok jobs op1" "map_of op1 i = Some 0"
      using assms(2,3,6) None new k(1) by (auto simp: op_ok_def op1_def map_add_def)
    have o1: "AList.update i (Suc 0) op1 = AList.update i (Suc 0) op" "AList.delete i op1 = AList.delete i op"
      using update_new [OF new, of "Suc 0"] update_last [OF new] by (simp_all add: op1_def AList.delete_eq)
    show ?thesis
      unfolding next_part [OF j assms(6) open_first [OF assms(1-3) None k(2), folded k(1) op1_def]]
        decoder_update [OF assms(1) ok(1) assms(3) ok(2)] decoder_delete [OF assms(1) ok(1) assms(3) ok(2)]
      using o1 k(1) by simp
  next
    case (Some m)
    then have m: "map_of op i = Some k" using assms(5) by simp
    show ?thesis
      unfolding next_part [OF j assms(6) open_again [OF assms(1-3) m]] decoder_update [OF assms(1-3) m]
        decoder_delete [OF assms(1-3) m] ..
  qed
qed

subsection \<open>Messages that are ready\<close>

definition channels :: "jstring list" where
  "channels = [js ''control'', js ''model'', js ''files'']"

text \<open>A message that was prepared from a value of the host, and an identity for its transfer.\<close>

definition job_ready :: "platform \<Rightarrow> raw \<Rightarrow> remote_job \<Rightarrow> bool" where
  "job_ready p value j \<longleftrightarrow>
     prepareRemoteMessage p value = Inr (jb_message j, jb_bytes j)
     \<and> wire_json (jb_message j) \<and> json_fits 0 (jb_message j) \<and> json_nodes (jb_message j) < NODES
     \<and> remoteChannel (jb_message j) \<in> set channels
     \<and> jb_id j \<noteq> [] \<and> length (jb_id j) \<le> 128 \<and> list_all id_unit (jb_id j)"

lemma validate_accepts:
  assumes "validateRemoteFrame p outgoing value = Inr m"
  shows "\<exists>kvs kind schema. m = JObj kvs \<and> map_of kvs (js ''v'') = Some (JNum (js ''1''))
     \<and> map_of kvs (js ''kind'') = Some (JStr kind) \<and> frame_schema p kind = Some schema \<and> matches (pf_test p) (JObj kvs) schema"
proof -
  obtain c where c: "copyRemoteJson value = Inr c" using assms by (cases "copyRemoteJson value") (auto simp: validateRemoteFrame_def)
  obtain n where n: "n = (if outgoing then normalizeErrorUpdate c else c)" by simp
  show ?thesis
    using assms c unfolding validateRemoteFrame_def c sum.case n [symmetric]
    by (cases n) (auto split: json.splits option.splits if_splits)
qed

lemma ready_object:
  assumes "job_ready p value j"
  obtains kvs where "jb_message j = JObj kvs" "jb_bytes j = utf8_encode (stringify (JObj kvs))" "wire_json (JObj kvs)"
    "length (jb_bytes j) \<le> LOGICAL_BYTES" "validateRemoteFrame p False (raw_of (JObj kvs)) = Inr (JObj kvs)"
proof -
  have v: "validateRemoteFrame p True value = Inr (jb_message j)" "jb_bytes j = utf8_encode (stringify (jb_message j))"
    "length (jb_bytes j) \<le> LOGICAL_BYTES"
    using assms by (auto simp: job_ready_def prepareRemoteMessage_def Let_def split: sum.splits if_splits)
  then obtain kvs where k: "jb_message j = JObj kvs" "map_of kvs (js ''v'') = Some (JNum (js ''1''))"
    "\<exists>kind schema. map_of kvs (js ''kind'') = Some (JStr kind) \<and> frame_schema p kind = Some schema \<and> matches (pf_test p) (JObj kvs) schema"
    using validate_accepts [OF v(1)] by blast
  have "copyRemoteJson (raw_of (JObj kvs)) = Inr (JObj kvs)"
    using assms k(1) by (intro copy_fits) (simp_all add: job_ready_def)
  then have "validateRemoteFrame p False (raw_of (JObj kvs)) = Inr (JObj kvs)"
    using k(2,3) by (auto simp: validateRemoteFrame_def)
  then show ?thesis using that [of kvs] v k(1) assms by (simp add: job_ready_def)
qed

lemma ready_ok: "job_ready p value j \<Longrightarrow> job_ok p j"
proof -
  assume r: "job_ready p value j"
  obtain kvs where k: "jb_message j = JObj kvs" "jb_bytes j = utf8_encode (stringify (JObj kvs))" "wire_json (JObj kvs)"
    "validateRemoteFrame p False (raw_of (JObj kvs)) = Inr (JObj kvs)"
    using ready_object [OF r] by metis
  have "\<not> is_chunk (jb_message j)"
    using r by (auto simp: job_ready_def prepareRemoteMessage_def Let_def split: sum.splits if_splits)
  then show ?thesis
    unfolding job_ok_def using parse_frame_text [OF k(3), of p] object_line(3) [OF k(3) k(2)] k(1,2,4) by (simp only: simp_thms)
qed

lemma ready_chunk:
  assumes "platform_ok p" "job_ready p value j" "k < job_total j"
  shows "chunk_ok p (job_chunk p j k)" "length (utf8_encode (stringify (chunk_json (job_chunk p j k)))) \<le> LINE_BYTES"
proof -
  have b: "jb_bytes j \<noteq> []" using ready_ok [OF assms(2)] by (simp add: job_ok_def)
  have len: "length (jb_bytes j) \<le> LOGICAL_BYTES" using ready_object [OF assms(2)] by metis
  then have "length (jb_bytes j) + CHUNK_BYTES - 1 \<le> 512 * CHUNK_BYTES + (CHUNK_BYTES - 1)"
    by (simp add: LOGICAL_BYTES_def CHUNK_BYTES_def)
  from div_le_mono [OF this, of CHUNK_BYTES] have total: "job_total j \<le> 512"
    unfolding job_total_def chunk_total_def by (simp add: CHUNK_BYTES_def)
  have part: "length (b64_encode (job_part j k)) \<le> 174764"
    using part_sizes(1) [OF assms(3) b] by (simp add: b64_length CHUNK_BYTES_def)
  have id: "jb_id j \<noteq> []" "length (jb_id j) \<le> 128" "list_all id_unit (jb_id j)" "remoteChannel (jb_message j) \<in> set channels"
    using assms(2) by (simp_all add: job_ready_def)
  have ch: "list_all plain_char (remoteChannel (jb_message j))" "length (remoteChannel (jb_message j)) \<le> 7"
    using id(4) by (auto simp: channels_def js_simps plain_char_def)
  have pf: "pf_test p (js ''^[a-zA-Z0-9_.:-]+$'') (jb_id j)" "pf_test p base64_pattern (b64_encode (job_part j k))"
    "length (pf_hash p (jb_bytes j)) = 64" "list_all id_unit (pf_hash p (jb_bytes j))"
    "pf_test p sha256_pattern (pf_hash p (jb_bytes j))"
    using assms(1) id(1,3) by (auto simp: platform_ok_def)
  have bytes: "1 \<le> length (jb_bytes j)" "1 \<le> length (jb_id j)" using b id(1) by (simp_all add: Suc_le_eq)
  show "chunk_ok p (job_chunk p j k)"
    unfolding chunk_ok_def job_chunk_simps
    using id(2,4) pf bytes len total assms(3) part plain_units [OF b64_plain] plain_units [OF id_plain [OF id(3)]]
      plain_units [OF id_plain [OF pf(4)]]
    by (auto simp: channels_def LINE_BYTES_def)
  show "length (utf8_encode (stringify (chunk_json (job_chunk p j k)))) \<le> LINE_BYTES"
    by (rule chunk_line_length, unfold job_chunk_simps)
      (use ch id id_plain pf part len total assms(3) b64_plain in \<open>auto simp: LOGICAL_BYTES_def\<close>)
qed

definition job_lines :: "platform \<Rightarrow> remote_job \<Rightarrow> byte list list" where
  "job_lines p j =
     (case encodeRemoteBytes p (jb_id j) (jb_bytes j) (remoteChannel (jb_message j)) of Some ls \<Rightarrow> ls | None \<Rightarrow> [])"

definition job_inner :: "platform \<Rightarrow> remote_job \<Rightarrow> byte list list" where
  "job_inner p j =
     (if length (jb_bytes j) \<le> LINE_BYTES then [jb_bytes j]
      else map (\<lambda>k. utf8_encode (stringify (chunk_json (job_chunk p j k)))) [0..<job_total j])"

lemma chunk_object: "\<exists>kvs. chunk_json c = JObj kvs"
  by (simp add: chunk_json_def)

lemma chunk_line:
  assumes "chunk_ok p c" "b = utf8_encode (stringify (chunk_json c))"
  shows "10 \<notin> set b" "13 \<notin> set b" "utf8_encode (stringify (chunk_json c) @ [10]) = b @ [10]"
proof -
  obtain kvs where k: "chunk_json c = JObj kvs" using chunk_object by blast
  have w: "wire_json (JObj kvs)" using chunk_wire [OF assms(1)] k by simp
  show "10 \<notin> set b" "13 \<notin> set b" "utf8_encode (stringify (chunk_json c) @ [10]) = b @ [10]"
    using object_line [OF w assms(2) [unfolded k]] k by (simp_all only: not_False_eq_True)
qed

lemma ready_lines:
  assumes "platform_ok p" "job_ready p value j"
  shows "job_lines p j = map (\<lambda>l. l @ [10]) (job_inner p j)" "list_all line_ok (job_inner p j)"
    "l \<in> set (job_inner p j) \<Longrightarrow> drop_cr l = l" "job_inner p j \<noteq> []"
    "LINE_BYTES < length (jb_bytes j) \<Longrightarrow> 1 < length (job_inner p j) \<and> length (job_inner p j) = job_total j"
proof -
  obtain kvs where k: "jb_message j = JObj kvs" "jb_bytes j = utf8_encode (stringify (JObj kvs))" "wire_json (JObj kvs)"
    using ready_object [OF assms(2)] by metis
  note o = object_line [OF k(3) k(2)]
  note c = ready_chunk [OF assms]
  note cl = chunk_line [OF c(1) refl]
  have big: "2 < job_total j" if "LINE_BYTES < length (jb_bytes j)"
  proof -
    have "0 < length (jb_bytes j)" using that by (rule le_less_trans [OF le0])
    from chunk_steps [OF this] have "length (jb_bytes j) \<le> job_total j * CHUNK_BYTES" by (simp add: job_total_def)
    then show ?thesis using that by (simp add: LINE_BYTES_def CHUNK_BYTES_def)
  qed
  show "job_lines p j = map (\<lambda>l. l @ [10]) (job_inner p j)"
    using o(4,5) cl(3) by (simp add: job_lines_def encodeRemoteBytes_def job_inner_def job_chunk_def job_total_def del: stringify.simps)
  have clean: "10 \<notin> set l \<and> 13 \<notin> set l \<and> length l \<le> LINE_BYTES" if "l \<in> set (job_inner p j)" for l
    using that o(1,2) cl(1,2) c(2) by (auto simp: job_inner_def split: if_splits)
  then show "list_all line_ok (job_inner p j)" by (simp add: line_ok_def list_all_iff)
  show "drop_cr l = l" if "l \<in> set (job_inner p j)" for l using clean [OF that] by (metis drop_cr_def last_in_set)
  show "job_inner p j \<noteq> []" using big by (auto simp: job_inner_def)
  show "LINE_BYTES < length (jb_bytes j) \<Longrightarrow> 1 < length (job_inner p j) \<and> length (job_inner p j) = job_total j"
    using big by (auto simp: job_inner_def)
qed

text \<open>Messages in turns: at each turn one message sends its next line. A message of several lines begins only while
  there is room for one more transfer. The result is the lines in their order, the messages that were sent to
  their end, and how far the others have come.\<close>

fun run_schedule ::
  "platform \<Rightarrow> remote_job list \<Rightarrow> (nat \<times> nat) list \<Rightarrow> nat list \<Rightarrow> (byte list list \<times> nat list \<times> (nat \<times> nat) list) option" where
  "run_schedule p jobs op [] = Some ([], [], op)"
| "run_schedule p jobs op (i # turns) =
     (if length jobs \<le> i then None
      else
        let ls = job_lines p (jobs ! i);
            k = (case map_of op i of Some k \<Rightarrow> k | None \<Rightarrow> 0)
        in
        if map_of op i = None \<and> 1 < length ls \<and> \<not> has_room jobs op (jobs ! i) then None
        else
          (case run_schedule p jobs (if Suc k = length ls then AList.delete i op else AList.update i (Suc k) op) turns of
             None \<Rightarrow> None
           | Some (sent, over, op') \<Rightarrow> Some (ls ! k # sent, (if Suc k = length ls then i # over else over), op')))"

definition op_inv :: "remote_job list \<Rightarrow> (nat \<times> nat) list \<Rightarrow> bool" where
  "op_inv jobs op \<longleftrightarrow> op_ok jobs op \<and> (\<forall>(i, k) \<in> set op. 0 < k \<and> LINE_BYTES < length (jb_bytes (jobs ! i)))"

definition all_ready :: "platform \<Rightarrow> raw list \<Rightarrow> remote_job list \<Rightarrow> bool" where
  "all_ready p values jobs \<longleftrightarrow> platform_ok p \<and> list_all2 (job_ready p) values jobs \<and> distinct (map jb_id jobs)"

lemma all_ready_ok:
  assumes "all_ready p values jobs"
  shows "jobs_ok p jobs" "i < length jobs \<Longrightarrow> job_ready p (values ! i) (jobs ! i)" "platform_ok p"
  using assms ready_ok by (auto simp: all_ready_def jobs_ok_def list_all_length list_all2_conv_all_nth)

lemma in_update: "(n, m) \<in> set (AList.update i x op) \<Longrightarrow> n = i \<and> m = x \<or> (n, m) \<in> set op"
  by (induction op) (auto split: if_splits)

lemma op_inv_next:
  assumes "op_inv jobs op"
  shows "op_inv jobs (AList.delete i op)"
    "i < length jobs \<Longrightarrow> Suc k < job_total (jobs ! i) \<Longrightarrow> LINE_BYTES < length (jb_bytes (jobs ! i)) \<Longrightarrow>
     op_inv jobs (AList.update i (Suc k) op)"
proof -
  show "op_inv jobs (AList.delete i op)"
    using assms distinct_delete [of op i] by (auto simp: op_inv_def op_ok_def AList.delete_eq)
  show "op_inv jobs (AList.update i (Suc k) op)"
    if "i < length jobs" "Suc k < job_total (jobs ! i)" "LINE_BYTES < length (jb_bytes (jobs ! i))"
    using assms that distinct_update [of op i "Suc k"] by (auto simp: op_inv_def op_ok_def dest!: in_update)
qed

lemma inner_step:
  assumes r: "all_ready p values jobs" and inv: "op_inv jobs op" and i: "i < length jobs"
    and room: "map_of op i = None \<Longrightarrow> 1 < length (job_inner p (jobs ! i)) \<Longrightarrow> has_room jobs op (jobs ! i)"
    and k: "k = (case map_of op i of Some k \<Rightarrow> k | None \<Rightarrow> 0)"
  shows "k < length (job_inner p (jobs ! i))"
    "whole_line p (decoder_for p jobs op) (job_inner p (jobs ! i) ! k) =
      (if Suc k = length (job_inner p (jobs ! i)) then Inr (Some (jb_message (jobs ! i)), decoder_for p jobs (AList.delete i op))
       else Inr (None, decoder_for p jobs (AList.update i (Suc k) op)))"
    "op_inv jobs (if Suc k = length (job_inner p (jobs ! i)) then AList.delete i op else AList.update i (Suc k) op)"
proof -
  note ok = all_ready_ok [OF r]
  note rd = ok(2) [OF i]
  note lines = ready_lines [OF ok(3) rd]
  note j = ready_ok [OF rd]
  have some: "map_of op i = Some m \<Longrightarrow> LINE_BYTES < length (jb_bytes (jobs ! i)) \<and> m < job_total (jobs ! i)" for m
    using inv by (force simp: op_inv_def op_ok_def dest: map_of_SomeD)
  show k1: "k < length (job_inner p (jobs ! i))"
    using some lines(4,5) k by (auto split: option.splits)
  have dc: "drop_cr (job_inner p (jobs ! i) ! k) = job_inner p (jobs ! i) ! k" using lines(3) k1 by simp
  show "whole_line p (decoder_for p jobs op) (job_inner p (jobs ! i) ! k) =
      (if Suc k = length (job_inner p (jobs ! i)) then Inr (Some (jb_message (jobs ! i)), decoder_for p jobs (AList.delete i op))
       else Inr (None, decoder_for p jobs (AList.update i (Suc k) op)))"
  proof (cases "length (jb_bytes (jobs ! i)) \<le> LINE_BYTES")
    case True
    then have n: "map_of op i = None" using some by (cases "map_of op i") auto
    then have "AList.delete i op = op" by (simp add: AList.delete_eq map_of_eq_None_iff filter_id_conv) (force simp: image_iff)
    then show ?thesis
      using True k n j dc by (simp add: job_inner_def whole_line_def job_ok_def)
  next
    case False
    then have big: "LINE_BYTES < length (jb_bytes (jobs ! i))" by simp
    have len: "length (job_inner p (jobs ! i)) = job_total (jobs ! i)" "k < job_total (jobs ! i)"
      using lines(5) [OF big] k1 by auto
    have line: "job_inner p (jobs ! i) ! k = utf8_encode (stringify (chunk_json (job_chunk p (jobs ! i) k)))"
      using False len(2) by (simp add: job_inner_def del: stringify.simps)
    have "whole_line p (decoder_for p jobs op) (job_inner p (jobs ! i) ! k)
        = take_chunk p (decoder_for p jobs op) (job_chunk p (jobs ! i) k)"
      using dc chunk_parses [OF ready_chunk(1) [OF ok(3) rd len(2)]] unfolding line whole_line_def by simp
    also have "\<dots> = (if Suc k = job_total (jobs ! i) then Inr (Some (jb_message (jobs ! i)), decoder_for p jobs (AList.delete i op))
     else Inr (None, decoder_for p jobs (AList.update i (Suc k) op)))"
      using inv room lines(5) [OF big] k len(2) by (intro chunk_step [OF ok(1) _ i]) (auto simp: op_inv_def)
    finally show ?thesis unfolding len(1) .
  qed
  show "op_inv jobs (if Suc k = length (job_inner p (jobs ! i)) then AList.delete i op else AList.update i (Suc k) op)"
  proof (cases "length (jb_bytes (jobs ! i)) \<le> LINE_BYTES")
    case True
    then have "Suc k = length (job_inner p (jobs ! i))" using k1 by (simp add: job_inner_def)
    then show ?thesis using op_inv_next(1) [OF inv] by simp
  next
    case False
    then show ?thesis using op_inv_next [OF inv] i k1 lines(5) by (simp add: not_le)
  qed
qed

lemma feed_schedule:
  assumes "all_ready p values jobs" "op_inv jobs op" "run_schedule p jobs op turns = Some (ls, over, op')"
  shows "\<exists>inner. ls = map (\<lambda>l. l @ [10]) inner \<and> list_all line_ok inner
      \<and> feed_lines p (decoder_for p jobs op) inner = Inr (map (\<lambda>i. jb_message (jobs ! i)) over, decoder_for p jobs op')
      \<and> op_inv jobs op'"
  using assms(2,3)
proof (induction turns arbitrary: op ls over)
  case (Cons i turns)
  define k where "k = (case map_of op i of Some k \<Rightarrow> k | None \<Rightarrow> 0)"
  have i: "i < length jobs" using Cons.prems(2) by (auto split: if_splits)
  note lines = ready_lines [OF all_ready_ok(3) [OF assms(1)] all_ready_ok(2) [OF assms(1) i]]
  have len: "length (job_lines p (jobs ! i)) = length (job_inner p (jobs ! i))" using lines(1) by simp
  have room: "map_of op i = None \<Longrightarrow> 1 < length (job_inner p (jobs ! i)) \<Longrightarrow> has_room jobs op (jobs ! i)"
    using Cons.prems(2) len by (auto simp: Let_def split: if_splits)
  note step = inner_step [OF assms(1) Cons.prems(1) i room k_def]
  define op1 where "op1 = (if Suc k = length (job_inner p (jobs ! i)) then AList.delete i op else AList.update i (Suc k) op)"
  obtain sent over1 where rest: "run_schedule p jobs op1 turns = Some (sent, over1, op')"
    "ls = job_lines p (jobs ! i) ! k # sent" "over = (if Suc k = length (job_inner p (jobs ! i)) then i # over1 else over1)"
    using Cons.prems(2) unfolding run_schedule.simps Let_def k_def [symmetric] len op1_def [symmetric]
    by (auto split: if_splits option.splits)
  obtain inner where IH: "sent = map (\<lambda>l. l @ [10]) inner" "list_all line_ok inner"
    "feed_lines p (decoder_for p jobs op1) inner = Inr (map (\<lambda>i. jb_message (jobs ! i)) over1, decoder_for p jobs op')"
    "op_inv jobs op'"
    using Cons.IH [OF _ rest(1)] step(3) by (auto simp: op1_def [symmetric])
  let ?l = "job_inner p (jobs ! i) ! k"
  have "ls = map (\<lambda>l. l @ [10]) (?l # inner)" using rest(2) lines(1) step(1) IH(1) by simp
  moreover have "list_all line_ok (?l # inner)" using lines(2) step(1) IH(2) by (simp add: list_all_iff)
  moreover have "feed_lines p (decoder_for p jobs op) (?l # inner)
      = Inr (map (\<lambda>i. jb_message (jobs ! i)) over, decoder_for p jobs op')"
    using step(2) IH(3) rest(3) by (auto simp: op1_def split: if_splits)
  ultimately show ?case using IH(4) by blast
qed simp

lemma decoder_for_nil: "decoder_for p jobs [] = new_decoder"
  by (simp add: decoder_for_def new_decoder_def)

subsection \<open>Every message once\<close>

definition sent_of :: "(nat \<times> nat) list \<Rightarrow> nat \<Rightarrow> nat" where
  "sent_of op i = (case map_of op i of Some k \<Rightarrow> k | None \<Rightarrow> 0)"

lemma sent_of_update: "sent_of (AList.update i k op) n = (if n = i then k else sent_of op n)"
  by (simp add: sent_of_def AList.update_conv)

lemma sent_of_delete: "distinct (map fst op) \<Longrightarrow> sent_of (AList.delete i op) n = (if n = i then 0 else sent_of op n)"
  by (simp add: sent_of_def AList.delete_conv)

lemma turns_count:
  assumes "all_ready p values jobs" "op_inv jobs op" "run_schedule p jobs op turns = Some (ls, over, op')"
  shows "count_list turns n + sent_of op n = count_list over n * length (job_lines p (jobs ! n)) + sent_of op' n"
  using assms(2,3)
proof (induction turns arbitrary: op ls over)
  case (Cons i turns)
  define k where "k = sent_of op i"
  have i: "i < length jobs" using Cons.prems(2) by (auto split: if_splits)
  note lines = ready_lines [OF all_ready_ok(3) [OF assms(1)] all_ready_ok(2) [OF assms(1) i]]
  have len: "length (job_lines p (jobs ! i)) = length (job_inner p (jobs ! i))" using lines(1) by simp
  have room: "map_of op i = None \<Longrightarrow> 1 < length (job_inner p (jobs ! i)) \<Longrightarrow> has_room jobs op (jobs ! i)"
    using Cons.prems(2) len by (auto simp: Let_def split: if_splits)
  note step = inner_step [OF assms(1) Cons.prems(1) i room k_def [unfolded sent_of_def]]
  define op1 where "op1 = (if Suc k = length (job_inner p (jobs ! i)) then AList.delete i op else AList.update i (Suc k) op)"
  obtain sent over1 where rest: "run_schedule p jobs op1 turns = Some (sent, over1, op')"
    "over = (if Suc k = length (job_inner p (jobs ! i)) then i # over1 else over1)"
    using Cons.prems(2) unfolding run_schedule.simps Let_def k_def [unfolded sent_of_def, symmetric] len op1_def [symmetric]
    by (auto split: if_splits option.splits)
  have IH: "count_list turns n + sent_of op1 n = count_list over1 n * length (job_lines p (jobs ! n)) + sent_of op' n"
    using Cons.IH [OF _ rest(1)] step(3) by (simp add: op1_def [symmetric])
  have d: "distinct (map fst op)" using Cons.prems(1) by (simp add: op_inv_def op_ok_def)
  show ?case
    using IH rest(2) len by (auto simp: op1_def sent_of_update sent_of_delete [OF d] k_def split: if_splits)
qed simp

lemma count_once: "(\<And>i. count_list xs i = (if i < n then 1 else 0)) \<Longrightarrow> mset xs = mset [0..<n]"
  by (rule multiset_eqI) (auto simp: count_mset)

lemma turns_range: "run_schedule p jobs op turns = Some (ls, over, op') \<Longrightarrow> set turns \<subseteq> {..<length jobs} \<and> set over \<subseteq> {..<length jobs}"
proof (induction turns arbitrary: op ls over)
  case (Cons i turns)
  obtain op1 sent over1 where rest: "run_schedule p jobs op1 turns = Some (sent, over1, op')" "i < length jobs"
    "over = i # over1 \<or> over = over1"
    using Cons.prems by (auto simp: Let_def split: if_splits option.splits)
  show ?case using Cons.IH [OF rest(1)] rest(2,3) by auto
qed simp

text \<open>
  C15. Messages sent over one connection arrive. However large they are, in whatever turns their lines are sent and
  into whatever pieces the bytes fall, the decoder gives each message exactly once and as it was prepared, in the
  order in which the messages end, and the end of the input finds nothing left over. A large message may only
  begin while fewer than four others are open and all together stay within the limit, as \<open>run_schedule\<close> asks.
\<close>

theorem remote_messages_arrive:
  assumes "all_ready p values jobs" "run_schedule p jobs [] turns = Some (ls, over, op)"
    "\<forall>i < length jobs. count_list turns i = length (job_lines p (jobs ! i))" "concat pieces = concat ls"
  shows "\<exists>d. push_all p new_decoder pieces = (d, Inr (map (\<lambda>i. jb_message (jobs ! i)) over))
    \<and> mset (map (\<lambda>i. jb_message (jobs ! i)) over) = mset (map jb_message jobs) \<and> snd (decoder_finish d) = Inr ()"
proof -
  have inv: "op_inv jobs []" by (simp add: op_inv_def op_ok_def)
  obtain inner where f: "ls = map (\<lambda>l. l @ [10]) inner" "list_all line_ok inner"
    "feed_lines p (decoder_for p jobs []) inner = Inr (map (\<lambda>i. jb_message (jobs ! i)) over, decoder_for p jobs op)" "op_inv jobs op"
    using feed_schedule [OF assms(1) inv assms(2)] by blast
  have once: "count_list over i = 1 \<and> map_of op i = None" if i: "i < length jobs" for i
  proof -
    note lines = ready_lines [OF all_ready_ok(3) [OF assms(1)] all_ready_ok(2) [OF assms(1) i]]
    have l: "0 < length (job_lines p (jobs ! i))" using lines(1,4) by simp
    have c: "length (job_lines p (jobs ! i)) = count_list over i * length (job_lines p (jobs ! i)) + sent_of op i"
      using turns_count [OF assms(1) inv assms(2), of i] assms(3) i by (simp add: sent_of_def)
    have s: "sent_of op i < length (job_lines p (jobs ! i)) \<and> (map_of op i \<noteq> None \<longrightarrow> 0 < sent_of op i)"
      using f(4) lines(1,5) l by (cases "map_of op i") (force simp: sent_of_def op_inv_def op_ok_def dest: map_of_SomeD)+
    show ?thesis using c s l by (cases "count_list over i"; cases "count_list over i - 1") auto
  qed
  have nil: "op = []"
  proof (cases op)
    case (Cons x r)
    then have "fst x < length jobs" "map_of op (fst x) \<noteq> None" using f(4) by (auto simp: op_inv_def op_ok_def)
    then show ?thesis using once [of "fst x"] by simp
  qed simp
  have "count_list over i = (if i < length jobs then 1 else 0)" for i
    using once [of i] turns_range [OF assms(2)] by (auto simp: count_list_0_iff)
  then have "mset over = mset [0..<length jobs]" by (rule count_once)
  then have "mset (map (\<lambda>i. jb_message (jobs ! i)) over) = mset (map (\<lambda>i. jb_message (jobs ! i)) [0..<length jobs])"
    by (simp only: mset_map)
  also have "map (\<lambda>i. jb_message (jobs ! i)) [0..<length jobs] = map jb_message jobs"
    by (rule nth_equalityI) simp_all
  finally have m: "mset (map (\<lambda>i. jb_message (jobs ! i)) over) = mset (map jb_message jobs)" .
  have "push_all p new_decoder pieces = (decoder_for p jobs op, Inr (map (\<lambda>i. jb_message (jobs ! i)) over))"
    using assms(4) f(1-3) decoder_for_nil [of p jobs]
    by (intro push_lines [where q = "[]" and ls = inner]) (simp_all add: holds_line_def new_decoder_def between_def)
  then show ?thesis using m nil by (simp add: decoder_finish_def decoder_for_nil) (simp add: new_decoder_def)
qed

subsection \<open>A message of one line among the chunks of another\<close>

definition sample_platform :: platform where
  "sample_platform =
     \<lparr>pf_hash = \<lambda>_. replicate 64 97, pf_schemas = \<lambda>k. if k = js ''note'' then Some json_schema else None,
      pf_test = \<lambda>_ _. True\<rparr>"

definition sample_note :: "nat \<Rightarrow> json" where
  "sample_note n = JObj [(js ''v'', JNum (js ''1'')), (js ''kind'', JStr (js ''note'')), (js ''body'', JStr (replicate n 97))]"

definition sample_job :: "jstring \<Rightarrow> nat \<Rightarrow> remote_job" where
  "sample_job i n = \<lparr>jb_id = i, jb_message = sample_note n, jb_bytes = utf8_encode (stringify (sample_note n))\<rparr>"

lemma sample_platform_ok: "platform_ok sample_platform"
  by (simp add: platform_ok_def sample_platform_def id_unit_def list_all_iff)

lemma sample_text:
  "stringify (sample_note n) = js ''{\"v\":1,\"kind\":\"note\",\"body\":\"'' @ replicate n 97 @ js ''\"}''"
proof -
  have "list_all plain_char (replicate n 97)" by (simp add: list_all_iff plain_char_def)
  note plain_string [OF this]
  moreover have "json_string (js ''note'') = js ''\"note\"''" "json_string (js ''v'') = js ''\"v\"''"
    "json_string (js ''kind'') = js ''\"kind\"''" "json_string (js ''body'') = js ''\"body\"''"
    by (simp_all add: plain_string plain_char_def js_simps)
  ultimately show ?thesis by (simp add: sample_note_def js_simps)
qed

lemma sample_length: "length (utf8_encode (stringify (sample_note n))) = n + 31"
proof -
  have "list_all (\<lambda>c. 0 \<le> c \<and> c < 128) (stringify (sample_note n))"
    unfolding sample_text by (simp add: js_simps list_all_iff)
  then have "utf8_write (stringify (sample_note n)) = stringify (sample_note n)" by (rule utf8_ascii)
  then show ?thesis unfolding utf8_encode_def by (simp add: sample_text js_simps)
qed

lemma sample_ready:
  assumes "n \<le> 1000000" "i \<noteq> []" "length i \<le> 128" "list_all id_unit i"
  shows "job_ready sample_platform (raw_of (sample_note n)) (sample_job i n)"
proof -
  have fits: "json_fits 0 (sample_note n)" "json_nodes (sample_note n) < NODES"
    using assms(1) by (simp_all add: sample_note_def DEPTH_def LOGICAL_BYTES_def NODES_def js_simps)
  have norm: "normalizeErrorUpdate (sample_note n) = sample_note n"
    by (simp add: normalizeErrorUpdate_def sample_note_def js_simps)
  have valid: "validateRemoteFrame sample_platform True (raw_of (sample_note n)) = Inr (sample_note n)"
    unfolding validateRemoteFrame_def copy_fits [OF fits] using norm
    by (simp add: sample_note_def frame_schema_def sample_platform_def js_simps)
  have "\<not> is_chunk (sample_note n)" by (simp add: is_chunk_def frame_member_def sample_note_def js_simps)
  then have "prepareRemoteMessage sample_platform (raw_of (sample_note n)) = Inr (jb_message (sample_job i n), jb_bytes (sample_job i n))"
    unfolding prepareRemoteMessage_def valid using sample_length [of n] assms(1)
    by (simp add: sample_job_def LOGICAL_BYTES_def)
  moreover have "wire_json (sample_note n)"
    using wire_number [of 1] by (simp add: sample_note_def units16_def js_simps list_all_iff number_json_def
        digits_of.simps [of "Suc 0"] MAX_SAFE_INTEGER_def)
  moreover have "remoteChannel (sample_note n) = js ''control''"
    by (simp add: remoteChannel_def frame_member_def string_member_def sample_note_def js_simps)
  ultimately show ?thesis using assms fits by (simp add: job_ready_def sample_job_def channels_def)
qed

definition sample_jobs :: "remote_job list" where
  "sample_jobs = [sample_job (js ''a'') 1, sample_job (js ''b'') 300000]"

lemma sample_all_ready: "all_ready sample_platform [raw_of (sample_note 1), raw_of (sample_note 300000)] sample_jobs"
proof -
  have "job_ready sample_platform (raw_of (sample_note 1)) (sample_job (js ''a'') 1)"
    "job_ready sample_platform (raw_of (sample_note 300000)) (sample_job (js ''b'') 300000)"
    by (rule sample_ready; simp add: js_simps id_unit_def)+
  moreover have "distinct (map jb_id sample_jobs)" by (simp add: sample_jobs_def sample_job_def js_simps)
  ultimately show ?thesis using sample_platform_ok by (simp add: all_ready_def sample_jobs_def)
qed

lemma sample_lines:
  "length (job_lines sample_platform (sample_jobs ! 0)) = 1" "length (job_lines sample_platform (sample_jobs ! 1)) = 3"
proof -
  have len: "length (jb_bytes (sample_jobs ! 0)) = 32" "length (jb_bytes (sample_jobs ! 1)) = 300031"
    using sample_length [of 1] sample_length [of 300000] by (simp_all add: sample_jobs_def sample_job_def)
  have n: "i < 2 \<Longrightarrow> job_ready sample_platform ([raw_of (sample_note 1), raw_of (sample_note 300000)] ! i) (sample_jobs ! i)" for i
    using all_ready_ok(2) [OF sample_all_ready, of i] by (simp add: sample_jobs_def)
  show "length (job_lines sample_platform (sample_jobs ! 0)) = 1"
    using ready_lines(1) [OF sample_platform_ok n [of 0]] len(1) by (simp add: job_inner_def LINE_BYTES_def)
  show "length (job_lines sample_platform (sample_jobs ! 1)) = 3"
    using ready_lines(1) [OF sample_platform_ok n [of 1]] len(2)
    by (simp add: job_inner_def LINE_BYTES_def job_total_def chunk_total_def CHUNK_BYTES_def)
qed

definition sample_sent :: "byte list list" where
  "sample_sent = map (\<lambda>(i, k). job_lines sample_platform (sample_jobs ! i) ! k) [(1, 0), (0, 0), (1, 1), (1, 2)]"

lemma sample_schedule: "run_schedule sample_platform sample_jobs [] [1, 0, 1, 1] = Some (sample_sent, [0, 1], [])"
proof -
  have len: "length (jb_bytes (sample_jobs ! 1)) = 300031"
    using sample_length [of 300000] by (simp add: sample_jobs_def sample_job_def)
  have "length sample_jobs = 2" by (simp add: sample_jobs_def)
  then show ?thesis
    using sample_lines len by (simp add: sample_sent_def has_room_def TRANSFERS_def TRANSFER_BYTES_def Let_def numeral_2_eq_2)
qed

theorem remote_messages_arrive_witness:
  "\<exists>d. push_all sample_platform new_decoder [take 1000 (concat sample_sent), drop 1000 (concat sample_sent)]
      = (d, Inr [sample_note 1, sample_note 300000])
    \<and> mset [sample_note 1, sample_note 300000] = mset (map jb_message sample_jobs) \<and> snd (decoder_finish d) = Inr ()"
proof -
  have m: "map (\<lambda>i. jb_message (sample_jobs ! i)) [0, 1] = [sample_note 1, sample_note 300000]"
    by (simp add: sample_jobs_def sample_job_def)
  have c: "\<forall>i < length sample_jobs. count_list [1, 0, 1, 1] i = length (job_lines sample_platform (sample_jobs ! i))"
    using sample_lines by (simp add: sample_jobs_def less_Suc_eq numeral_2_eq_2)
  have p: "concat [take 1000 (concat sample_sent), drop 1000 (concat sample_sent)] = concat sample_sent"
    by (simp only: concat.simps append_Nil2 append_take_drop_id)
  show ?thesis using remote_messages_arrive [OF sample_all_ready sample_schedule c p] unfolding m .
qed

section \<open>What the decoder keeps\<close>

definition transfer_wf :: "transfer \<Rightarrow> bool" where
  "transfer_wf t \<longleftrightarrow>
     ck_total (tr_header t) = chunk_total (ck_bytes (tr_header t)) \<and> length (tr_parts t) < ck_total (tr_header t)
     \<and> length (concat (tr_parts t)) = length (tr_parts t) * CHUNK_BYTES \<and> length (concat (tr_parts t)) \<le> ck_bytes (tr_header t)"

definition decoder_wf :: "decoder \<Rightarrow> bool" where
  "decoder_wf d \<longleftrightarrow>
     dc_lineBytes d = length (concat (dc_parts d)) \<and> dc_lineBytes d \<le> LINE_BYTES
     \<and> distinct (map fst (dc_transfers d)) \<and> length (dc_transfers d) \<le> TRANSFERS
     \<and> dc_transferBytes d = sum_list (map (\<lambda>(i, t). ck_bytes (tr_header t)) (dc_transfers d))
     \<and> dc_transferBytes d \<le> TRANSFER_BYTES \<and> (\<forall>(i, t) \<in> set (dc_transfers d). transfer_wf t)"

lemma sum_header_update:
  "map_of al i = Some s \<Longrightarrow> (h t :: nat) = h s \<Longrightarrow> sum_list (map (\<lambda>(i, t). h t) (AList.update i t al)) = sum_list (map (\<lambda>(i, t). h t) al)"
  by (induction al) (auto split: if_splits)

lemma sum_header_delete:
  "distinct (map fst al) \<Longrightarrow> map_of al i = Some s \<Longrightarrow>
   sum_list (map (\<lambda>(i, t). h t) (AList.delete i al)) = sum_list (map (\<lambda>(i, t). h t) al) - (h s :: nat)"
proof (induction al)
  case (Cons x al)
  obtain n t where x: "x = (n, t)" by (cases x)
  show ?case
  proof (cases "n = i")
    case True
    then have "filter (\<lambda>(k', _). i \<noteq> k') al = al" using Cons.prems(1) x by (force intro: filter_True)
    then show ?thesis using True x Cons.prems by (simp add: AList.delete_eq)
  next
    case False
    then have m: "map_of al i = Some s" using Cons.prems(2) x by simp
    then have "h s \<le> sum_list (map (\<lambda>(i, t). h t) al)" by (force dest: map_of_SomeD intro: member_le_sum_list)
    then show ?thesis using Cons False x m by (simp add: AList.delete_eq)
  qed
qed simp

lemma length_update: "length (AList.update i t al) = (if i \<in> fst ` set al then length al else Suc (length al))"
  by (induction al) auto

text \<open>A transfer that is open, or opened here, is well-formed up to its next part.\<close>

lemma open_transfer_wf:
  assumes "decoder_wf d" "open_transfer d f = Inr (t, d1)" "ck_total f = chunk_total (ck_bytes f)" "ck_index f < ck_total f"
  shows "map_of (dc_transfers d1) (ck_transferId f) = Some t" "transfer_wf t" "decoder_wf d1"
proof -
  have "map_of (dc_transfers d1) (ck_transferId f) = Some t \<and> transfer_wf t \<and> decoder_wf d1"
  proof (cases "map_of (dc_transfers d) (ck_transferId f)")
    case None
    define t0 where "t0 = \<lparr>tr_header = f, tr_parts = [], tr_received = 0\<rparr>"
    have new: "ck_transferId f \<notin> fst ` set (dc_transfers d)" using None by (simp add: map_of_eq_None_iff)
    have o: "t = t0" "d1 = d\<lparr>dc_transfers := dc_transfers d @ [(ck_transferId f, t0)], dc_transferBytes := dc_transferBytes d + ck_bytes f\<rparr>"
      "length (dc_transfers d) < TRANSFERS" "dc_transferBytes d + ck_bytes f \<le> TRANSFER_BYTES"
      using assms(2) None update_new [OF new] by (auto simp: open_transfer_def t0_def Let_def split: if_splits)
    have w: "transfer_wf t0" using assms(3,4) by (simp add: transfer_wf_def t0_def)
    have h: "ck_bytes (tr_header t0) = ck_bytes f" by (simp add: t0_def)
    show ?thesis
      using assms(1) o w new None h by (auto simp: decoder_wf_def map_add_def)
  next
    case (Some s)
    then have "s = t" "d1 = d" using assms(2) by (auto simp: open_transfer_def)
    then show ?thesis using Some assms(1) map_of_SomeD [OF Some] by (auto simp: decoder_wf_def)
  qed
  then show "map_of (dc_transfers d1) (ck_transferId f) = Some t" "transfer_wf t" "decoder_wf d1" by auto
qed

lemma wf_update:
  assumes "decoder_wf d" "map_of (dc_transfers d) i = Some s" "transfer_wf t" "tr_header t = tr_header s"
  shows "decoder_wf (d\<lparr>dc_transfers := AList.update i t (dc_transfers d)\<rparr>)"
proof -
  have "i \<in> fst ` set (dc_transfers d)" using assms(2) by (force dest: map_of_SomeD)
  then have l: "length (AList.update i t (dc_transfers d)) = length (dc_transfers d)" by (simp add: length_update)
  have "\<forall>(n, u) \<in> set (AList.update i t (dc_transfers d)). transfer_wf u"
    using assms(1,3) by (auto simp: decoder_wf_def dest!: in_update)
  then show ?thesis
    using assms(1,4) l sum_header_update [OF assms(2), of "\<lambda>t. ck_bytes (tr_header t)" t] distinct_update [of "dc_transfers d" i t]
    by (simp add: decoder_wf_def)
qed

lemma wf_delete:
  assumes "decoder_wf d" "map_of (dc_transfers d) i = Some s"
  shows "decoder_wf (d\<lparr>dc_transfers := AList.delete i (dc_transfers d), dc_transferBytes := dc_transferBytes d - ck_bytes (tr_header s)\<rparr>)"
  using assms sum_header_delete [OF _ assms(2), of "\<lambda>t. ck_bytes (tr_header t)"] distinct_delete [of "dc_transfers d" i]
  by (auto simp: decoder_wf_def AList.delete_eq intro: le_trans [OF length_filter_le])

lemma next_part_wf:
  assumes "transfer_wf t" "length part = min CHUNK_BYTES (ck_bytes (tr_header t) - length (tr_parts t) * CHUNK_BYTES)"
    "Suc (length (tr_parts t)) \<noteq> ck_total (tr_header t)"
  shows "transfer_wf (t\<lparr>tr_parts := tr_parts t @ [part], tr_received := r\<rparr>)"
proof -
  have "length (tr_parts t) < chunk_total (ck_bytes (tr_header t))" "Suc (length (tr_parts t)) \<noteq> chunk_total (ck_bytes (tr_header t))"
    using assms(1,3) by (auto simp: transfer_wf_def)
  then have n: "Suc (length (tr_parts t)) \<le> chunk_total (ck_bytes (tr_header t)) - 1" by linarith
  then have "0 < ck_bytes (tr_header t)" by (cases "ck_bytes (tr_header t)") (auto simp: chunk_total_def CHUNK_BYTES_def)
  from chunk_steps [OF this] have "(chunk_total (ck_bytes (tr_header t)) - 1) * CHUNK_BYTES < ck_bytes (tr_header t)" by blast
  then have "Suc (length (tr_parts t)) * CHUNK_BYTES \<le> ck_bytes (tr_header t)"
    using mult_le_mono1 [OF n, of CHUNK_BYTES] by linarith
  then show ?thesis using assms by (simp add: transfer_wf_def)
qed

lemma take_chunk_wf:
  assumes "decoder_wf d" "take_chunk p d f = Inr (m, d1)"
  shows "decoder_wf d1"
proof -
  have f: "ck_total f = chunk_total (ck_bytes f)" "ck_index f < ck_total f"
    using assms(2) by (auto simp: take_chunk_def split: if_splits)
  obtain t d2 where o: "open_transfer d f = Inr (t, d2)"
    using assms(2) f by (cases "open_transfer d f") (auto simp: take_chunk_def)
  note w = open_transfer_wf [OF assms(1) o f]
  define part where "part = b64_decode (ck_data f)"
  have same: "ck_index f = length (tr_parts t)" "ck_total f = ck_total (tr_header t)" "ck_bytes f = ck_bytes (tr_header t)"
    "length part = min CHUNK_BYTES (ck_bytes f - ck_index f * CHUNK_BYTES)"
    using assms(2) f o by (auto simp: take_chunk_def Let_def part_def split: if_splits)
  define t1 where "t1 = t\<lparr>tr_parts := tr_parts t @ [part], tr_received := tr_received t + length part\<rparr>"
  show ?thesis
  proof (cases "Suc (length (tr_parts t)) = ck_total (tr_header t)")
    case True
    then have "d1 = d2\<lparr>dc_transfers := AList.delete (ck_transferId f) (dc_transfers d2),
        dc_transferBytes := dc_transferBytes d2 - ck_bytes (tr_header t)\<rparr>"
      using assms(2) f o by (auto simp: take_chunk_def Let_def split: if_splits sum.splits)
    then show ?thesis using wf_delete [OF w(3,1)] by simp
  next
    case False
    then have "d1 = d2\<lparr>dc_transfers := AList.update (ck_transferId f) t1 (dc_transfers d2)\<rparr>"
      using assms(2) f o by (auto simp: take_chunk_def Let_def part_def t1_def split: if_splits sum.splits)
    moreover have "transfer_wf t1" unfolding t1_def using next_part_wf [OF w(2) _ False, of part] same by simp
    moreover have "tr_header t1 = tr_header t" by (simp add: t1_def)
    ultimately show ?thesis using wf_update [OF w(3,1)] by simp
  qed
qed

lemma append_line_wf: "decoder_wf d \<Longrightarrow> append_line d s = Inr d1 \<Longrightarrow> decoder_wf d1"
  by (auto simp: append_line_def decoder_wf_def split: if_splits)

lemma take_line_wf: "decoder_wf d \<Longrightarrow> take_line p d = Inr (m, d1) \<Longrightarrow> decoder_wf d1"
proof -
  assume d: "decoder_wf d" and t: "take_line p d = Inr (m, d1)"
  have "decoder_wf (d\<lparr>dc_parts := [], dc_lineBytes := 0\<rparr>)" using d by (simp add: decoder_wf_def)
  then show "decoder_wf d1" using t take_chunk_wf by (auto simp: take_line_def Let_def split: sum.splits if_splits)
qed

lemma decode_loop_wf: "decoder_wf d \<Longrightarrow> decode_loop p d b = Inr (ms, d1) \<Longrightarrow> decoder_wf d1"
proof (induction p d b arbitrary: ms rule: decode_loop.induct)
  case (1 p d b)
  obtain d2 where a: "append_line d (takeWhile (\<lambda>b. b \<noteq> 10) b) = Inr d2"
    using "1.prems"(2) by (subst (asm) decode_loop.simps) (auto split: sum.splits)
  have w: "decoder_wf d2" by (rule append_line_wf [OF "1.prems"(1) a])
  show ?case
  proof (cases "dropWhile (\<lambda>b. b \<noteq> 10) b")
    case Nil
    have "decode_loop p d b = Inr ([], d2)" by (subst decode_loop.simps) (simp add: a Nil)
    then show ?thesis using "1.prems"(2) w by simp
  next
    case (Cons c r)
    have "decode_loop p d b = (case take_line p d2 of Inl e \<Rightarrow> Inl e | Inr (m, d2) \<Rightarrow>
        (case decode_loop p d2 r of Inl e \<Rightarrow> Inl e | Inr (ms, d3) \<Rightarrow> Inr ((case m of Some x \<Rightarrow> x # ms | None \<Rightarrow> ms), d3)))"
      by (subst decode_loop.simps) (simp add: a Cons)
    then obtain m d3 ns where t: "take_line p d2 = Inr (m, d3)" "decode_loop p d3 r = Inr (ns, d1)"
      using "1.prems"(2) by (auto split: sum.splits)
    show ?thesis by (rule "1.IH" [OF a Cons t(1) refl take_line_wf [OF w t(1)] t(2)])
  qed
qed

lemma clear_wf: "decoder_wf (clear_decoder d)" "decoder_wf new_decoder"
  by (simp_all add: decoder_wf_def clear_decoder_def new_decoder_def)

lemma push_all_wf: "decoder_wf d \<Longrightarrow> decoder_wf (fst (push_all p d pieces))"
proof (induction pieces arbitrary: d)
  case (Cons b bs)
  have w: "decoder_wf (fst (decoder_push p d b))"
    using Cons.prems decode_loop_wf [of d p b] clear_wf(1) by (auto simp: decoder_push_def split: sum.splits)
  obtain a x where a: "decoder_push p d b = (a, x)" by (cases "decoder_push p d b")
  show ?case using w Cons.IH [of a] unfolding a by (cases x) (auto simp: a split: sum.splits prod.splits)
qed simp

lemma decode_loop_failed: "decode_loop p d b = Inr (ms, d1) \<Longrightarrow> dc_failed d1 = dc_failed d"
proof (induction p d b arbitrary: ms rule: decode_loop.induct)
  case (1 p d b)
  obtain d2 where a: "append_line d (takeWhile (\<lambda>b. b \<noteq> 10) b) = Inr d2"
    using "1.prems" by (subst (asm) decode_loop.simps) (auto split: sum.splits)
  have f: "dc_failed d2 = dc_failed d" using a by (auto simp: append_line_def split: if_splits)
  show ?case
  proof (cases "dropWhile (\<lambda>b. b \<noteq> 10) b")
    case Nil
    have "decode_loop p d b = Inr ([], d2)" by (subst decode_loop.simps) (simp add: a Nil)
    then show ?thesis using "1.prems" f by simp
  next
    case (Cons c r)
    have "decode_loop p d b = (case take_line p d2 of Inl e \<Rightarrow> Inl e | Inr (m, d2) \<Rightarrow>
        (case decode_loop p d2 r of Inl e \<Rightarrow> Inl e | Inr (ms, d3) \<Rightarrow> Inr ((case m of Some x \<Rightarrow> x # ms | None \<Rightarrow> ms), d3)))"
      by (subst decode_loop.simps) (simp add: a Cons)
    then obtain m d3 ns where t: "take_line p d2 = Inr (m, d3)" "decode_loop p d3 r = Inr (ns, d1)"
      using "1.prems" by (auto split: sum.splits)
    have "dc_failed d3 = dc_failed d2"
      using t(1) by (auto simp: take_line_def Let_def dest: take_chunk_failed split: sum.splits if_splits)
    then show ?thesis using "1.IH" [OF a Cons t(1) refl t(2)] f by simp
  qed
qed

text \<open>
  C38. What the decoder keeps is bounded for any input, well-formed or not: the line it is reading and the parts
  of at most four transfers, together at most the line limit and the transfer limit.
\<close>

theorem decoder_memory:
  fixes p pieces
  defines "d \<equiv> fst (push_all p new_decoder pieces)"
  shows "length (concat (dc_parts d)) + sum_list (map (\<lambda>(i, t). length (concat (tr_parts t))) (dc_transfers d))
      \<le> LINE_BYTES + TRANSFER_BYTES \<and> length (dc_transfers d) \<le> TRANSFERS"
proof -
  have w: "decoder_wf d" unfolding d_def by (rule push_all_wf [OF clear_wf(2)])
  have "sum_list (map (\<lambda>(i, t). length (concat (tr_parts t))) (dc_transfers d))
      \<le> sum_list (map (\<lambda>(i, t). ck_bytes (tr_header t)) (dc_transfers d))"
    using w by (intro sum_list_mono) (auto simp: decoder_wf_def transfer_wf_def)
  then show ?thesis using w by (simp add: decoder_wf_def)
qed

text \<open>After an error the decoder holds nothing and takes nothing.\<close>

lemma decoder_fails_closed:
  assumes "push_all p d pieces = (d1, Inl e)" "\<not> dc_failed d"
  shows "d1 = new_decoder\<lparr>dc_failed := True\<rparr> \<and> decoder_push p d1 b = (d1, Inl Disconnected)"
proof -
  have "d1 = new_decoder\<lparr>dc_failed := True\<rparr>"
    using assms
  proof (induction pieces arbitrary: d)
    case (Cons c cs)
    show ?case
    proof (cases "decode_loop p d c")
      case (Inl x)
      then have "d1 = clear_decoder (d\<lparr>dc_failed := True\<rparr>)" using Cons.prems by (simp add: decoder_push_def)
      then show ?thesis by (simp add: clear_decoder_def new_decoder_def)
    next
      case (Inr y)
      obtain ms d2 where y: "y = (ms, d2)" by (cases y)
      have "push_all p d2 cs = (d1, Inl e)" using Cons.prems Inr y by (auto simp: decoder_push_def split: prod.splits sum.splits)
      moreover have "\<not> dc_failed d2" using Cons.prems(2) Inr y decode_loop_failed by metis
      ultimately show ?thesis by (rule Cons.IH)
    qed
  qed simp
  then show ?thesis by (simp add: decoder_push_def)
qed

end
