(* ===== verification/CommandLine.thy ===== *)
theory CommandLine
  imports Prelude
begin

text \<open>
  Command lines for Windows (\<open>packages/proc/src/cmd-line.ts\<close>): how an argument is quoted, how a line is made
  safe from \<open>cmd.exe\<close>, and when it can be started that way at all. What a program reads from such a line is
  written down after the documented conventions of the C runtime; \<open>cmd.exe\<close> is a parameter, of which only
  its documented rules for carets are used, for lines in which no variable is expanded.
\<close>

abbreviation sp :: cu where "sp \<equiv> 32"

section \<open>Quoting\<close>

text \<open>\<open>arg.replace(/(\\*)"/g, '$1$1\\"')\<close>; the number counts the backslashes just read.\<close>

fun escape_quotes :: "nat \<Rightarrow> jstring \<Rightarrow> jstring" where
  "escape_quotes n [] = replicate n cBSL"
| "escape_quotes n (c # r) =
     (if c = cBSL then escape_quotes (Suc n) r
      else if c = cDQ then replicate (n + n) cBSL @ [cBSL, cDQ] @ escape_quotes 0 r
      else replicate n cBSL @ c # escape_quotes 0 r)"

text \<open>\<open>.replace(/(\\*)$/, "$1$1")\<close>.\<close>

definition double_end :: "jstring \<Rightarrow> jstring" where
  "double_end s = s @ takeWhile (\<lambda>c. c = cBSL) (rev s)"

definition quoteArg :: "jstring \<Rightarrow> jstring" where
  "quoteArg arg =
     (if arg = [] then [cDQ, cDQ]
      else if \<not> list_ex (\<lambda>c. is_space c \<or> c = cDQ) arg then arg
      else [cDQ] @ double_end (escape_quotes 0 arg) @ [cDQ])"

definition CMD_META :: "cu \<Rightarrow> bool" where
  "CMD_META c \<longleftrightarrow> c \<in> set (js ''()][%!^\"`<>&|;, *?='')"

definition cmdCommandLine :: "jstring list \<Rightarrow> jstring" where
  "cmdCommandLine argv =
     join_with [sp] (map (\<lambda>a. concat (map (\<lambda>c. if CMD_META c then [ch CHR ''^'', c] else [c]) (quoteArg a))) argv)"

section \<open>Starting through \<open>cmd.exe\<close>\<close>

definition MAX_CMD_LINE :: nat where "MAX_CMD_LINE = 8000"

definition CMD_GATE_VAR :: jstring where "CMD_GATE_VAR = js ''AMIRA_GATE''"

text \<open>Paths and the search for programs are the runtime's.\<close>

record windows =
  win_isAbsolute :: "jstring \<Rightarrow> bool"
  win_which :: "jstring \<Rightarrow> jstring \<Rightarrow> jstring \<Rightarrow> jstring option" \<comment> \<open>program, \<open>PATH\<close>, directory\<close>
  win_extname :: "jstring \<Rightarrow> jstring"
  win_normalize :: "jstring \<Rightarrow> jstring"
  win_join :: "jstring list \<Rightarrow> jstring"
  win_upper :: "jstring \<Rightarrow> jstring"
  win_lower :: "jstring \<Rightarrow> jstring"
  win_systemRoot :: "jstring option"

type_synonym environment = "(jstring \<times> jstring option) list"

text \<open>The first name that is the given one in capitals, and its value if it has one.\<close>

definition envValue :: "windows \<Rightarrow> environment \<Rightarrow> jstring \<Rightarrow> jstring option" where
  "envValue w env name = (case filter (\<lambda>(k, v). win_upper w k = name) env of [] \<Rightarrow> None | (k, v) # _ \<Rightarrow> v)"

definition line_break :: "cu \<Rightarrow> bool" where
  "line_break c \<longleftrightarrow> c = cCR \<or> c = cNL"

definition unc_path :: "jstring \<Rightarrow> bool" where
  "unc_path s \<longleftrightarrow> 2 \<le> length s \<and> list_all (\<lambda>c. c = cBSL \<or> c = ch CHR ''/'') (take 2 s)"

definition gate_text :: "bool \<Rightarrow> jstring" where
  "gate_text gated = (if gated then js ''set /p '' @ CMD_GATE_VAR @ js ''=||exit 125&'' else [])"

text \<open>The program as it is found.\<close>

definition resolve_program :: "windows \<Rightarrow> jstring \<Rightarrow> jstring \<Rightarrow> environment \<Rightarrow> jstring option" where
  "resolve_program w program cwd env =
     (if win_isAbsolute w program then Some program
      else win_which w program (case envValue w env (js ''PATH'') of Some v \<Rightarrow> v | None \<Rightarrow> []) cwd)"

definition cmdArgv :: "windows \<Rightarrow> jstring list \<Rightarrow> jstring \<Rightarrow> environment \<Rightarrow> bool \<Rightarrow> jstring list option" where
  "cmdArgv w argv cwd env gated =
     (case argv of
        [] \<Rightarrow> None
      | program # args \<Rightarrow>
          if program = [] \<or> unc_path cwd then None
          else if list_ex (list_ex line_break) argv then None
          else
            (case resolve_program w program cwd env of
               None \<Rightarrow> None
             | Some resolved \<Rightarrow>
                 if resolved = [] \<or> win_lower w (win_extname w resolved) \<notin> {js ''.exe'', js ''.com''} then None
                 else
                   let line = [cDQ] @ gate_text gated @ cmdCommandLine (win_normalize w resolved # args) @ [cDQ]
                   in if MAX_CMD_LINE < length line then None
                      else Some
                        [win_join w [(case win_systemRoot w of Some r \<Rightarrow> r | None \<Rightarrow> js ''C:'' @ cBSL # js ''Windows''),
                                     js ''System32'', js ''cmd.exe''],
                         js ''/d'', js ''/e:on'', js ''/v:off'', js ''/s'', js ''/c'', line]))"

section \<open>How a line is read\<close>

text \<open>
  The rules of the C runtime for the arguments after the program: backslashes count only before a quote,
  where two stand for one and an odd one makes the quote a character; two quotes inside a quoted part are one.
\<close>

fun read_arg :: "bool \<Rightarrow> nat \<Rightarrow> jstring \<Rightarrow> jstring \<times> jstring" where
  "read_arg q n [] = (replicate n cBSL, [])"
| "read_arg q n (c # r) =
     (if c = cBSL then read_arg q (Suc n) r
      else if c = cDQ then
        (if odd n then apfst (\<lambda>a. replicate (n div 2) cBSL @ cDQ # a) (read_arg q 0 r)
         else
           (case r of
              d # s \<Rightarrow>
                if q \<and> d = cDQ then apfst (\<lambda>a. replicate (n div 2) cBSL @ cDQ # a) (read_arg q 0 s)
                else apfst (\<lambda>a. replicate (n div 2) cBSL @ a) (read_arg (\<not> q) 0 r)
            | [] \<Rightarrow> apfst (\<lambda>a. replicate (n div 2) cBSL @ a) (read_arg (\<not> q) 0 r)))
      else if \<not> q \<and> (c = sp \<or> c = cTAB) then (replicate n cBSL, c # r)
      else apfst (\<lambda>a. replicate n cBSL @ c # a) (read_arg q 0 r))"

definition skip_blanks :: "jstring \<Rightarrow> jstring" where
  "skip_blanks s = dropWhile (\<lambda>c. c = sp \<or> c = cTAB) s"

declare read_arg.simps(2) [simp del]

lemma read_arg_simps:
  "read_arg q n (cBSL # r) = read_arg q (Suc n) r"
  "odd n \<Longrightarrow> read_arg q n (cDQ # r) = apfst (\<lambda>a. replicate (n div 2) cBSL @ cDQ # a) (read_arg q 0 r)"
  "even n \<Longrightarrow> read_arg True n (cDQ # cDQ # r) = apfst (\<lambda>a. replicate (n div 2) cBSL @ cDQ # a) (read_arg True 0 r)"
  "even n \<Longrightarrow> \<not> q \<or> r = [] \<or> hd r \<noteq> cDQ \<Longrightarrow>
     read_arg q n (cDQ # r) = apfst (\<lambda>a. replicate (n div 2) cBSL @ a) (read_arg (\<not> q) 0 r)"
  "c = sp \<or> c = cTAB \<Longrightarrow> read_arg False n (c # r) = (replicate n cBSL, c # r)"
  "c \<noteq> cBSL \<Longrightarrow> c \<noteq> cDQ \<Longrightarrow> q \<or> c \<noteq> sp \<and> c \<noteq> cTAB \<Longrightarrow>
     read_arg q n (c # r) = apfst (\<lambda>a. replicate n cBSL @ c # a) (read_arg q 0 r)"
  by (subst read_arg.simps(2); auto split: list.split)+

lemma read_arg_shorter: "length (snd (read_arg q n s)) \<le> length s"
proof (induction q n s rule: read_arg.induct)
  case (2 q n c r)
  consider "c = cBSL" | "c = cDQ" "odd n" | "c = cDQ" "even n" "q \<and> r \<noteq> [] \<and> hd r = cDQ"
    | "c = cDQ" "even n" "\<not> q \<or> r = [] \<or> hd r \<noteq> cDQ" | "\<not> q" "c = sp \<or> c = cTAB"
    | "c \<noteq> cBSL" "c \<noteq> cDQ" "q \<or> c \<noteq> sp \<and> c \<noteq> cTAB" by blast
  then show ?case
  proof cases
    case 3
    then obtain t where t: "r = cDQ # t" by (cases r) auto
    have "length (snd (read_arg q 0 t)) \<le> length t" using 2 3 t by auto
    then show ?thesis using 3 t by (simp add: read_arg_simps)
  next
    case 4
    have "length (snd (read_arg (\<not> q) 0 r)) \<le> length r"
      using 2 4 by (cases r) auto
    then show ?thesis using 4 by (simp add: read_arg_simps)
  qed (use 2(1,2,6) in \<open>auto simp: read_arg_simps\<close>)
qed simp

lemma read_arg_consumes:
  "s = c # r \<Longrightarrow> c \<noteq> sp \<Longrightarrow> c \<noteq> cTAB \<Longrightarrow> length (snd (read_arg False 0 s)) < length s"
  using read_arg_shorter [of False "Suc 0" r] read_arg_shorter [of True 0 r] read_arg_shorter [of False 0 r]
  by (cases "c = cBSL"; cases "c = cDQ") (auto simp: read_arg_simps)

lemma skip_blanks_head: "skip_blanks s = c # r \<Longrightarrow> c \<noteq> sp \<and> c \<noteq> cTAB \<and> length (c # r) \<le> length s"
  unfolding skip_blanks_def by (metis (mono_tags, lifting) dropWhile_eq_Cons_conv length_dropWhile_le)

lemma read_args_ends: "skip_blanks s = c # r \<Longrightarrow> length (snd (read_arg False 0 (c # r))) < length s"
  using read_arg_consumes [of "c # r" c r] skip_blanks_head [of s c r] by simp

function read_args :: "jstring \<Rightarrow> jstring list" where
  "read_args s =
     (case skip_blanks s of
        [] \<Rightarrow> []
      | c # r \<Rightarrow> fst (read_arg False 0 (c # r)) # read_args (snd (read_arg False 0 (c # r))))"
  by pat_completeness auto
termination by (relation "measure length") (auto dest: read_args_ends)

declare read_args.simps [simp del]

text \<open>The program at the start of the line: up to the next quote, or to the first blank.\<close>

definition read_line :: "jstring \<Rightarrow> jstring list" where
  "read_line s =
     (case s of
        [] \<Rightarrow> []
      | c # r \<Rightarrow>
          if c = cDQ then takeWhile (\<lambda>c. c \<noteq> cDQ) r # read_args (drop 1 (dropWhile (\<lambda>c. c \<noteq> cDQ) r))
          else takeWhile (\<lambda>c. c \<noteq> sp \<and> c \<noteq> cTAB) s # read_args (dropWhile (\<lambda>c. c \<noteq> sp \<and> c \<noteq> cTAB) s))"

text \<open>
  The caret rule: a caret makes the next character one without meaning and is taken away; blanks stay. \<open>None\<close>
  if a character is left that has a meaning, or a line break.
\<close>

fun carets_off :: "jstring \<Rightarrow> jstring option" where
  "carets_off [] = Some []"
| "carets_off (c # r) =
     (if c = ch CHR ''^'' then
        (case r of d # s \<Rightarrow> if line_break d then None else map_option ((#) d) (carets_off s) | [] \<Rightarrow> None)
      else if c = sp then map_option ((#) c) (carets_off r)
      else if CMD_META c \<or> line_break c then None
      else map_option ((#) c) (carets_off r))"

text \<open>
  Variables are expanded before carets are looked at, so a caret does not keep a percent sign from being one. What
  may be looked up is the text from a percent sign to the next one (\<open>%NAME%\<close>), or to a colon before it
  (\<open>%NAME:old=new%\<close>).
\<close>

abbreviation percent :: cu where "percent \<equiv> 37"
abbreviation colon :: cu where "colon \<equiv> 58"

fun names_cut :: "cu \<Rightarrow> jstring \<Rightarrow> jstring list" where
  "names_cut stop [] = []"
| "names_cut stop (c # r) =
     (let inside = (\<lambda>d. d \<noteq> percent \<and> d \<noteq> colon)
      in if c = percent \<and> dropWhile inside r \<noteq> [] \<and> hd (dropWhile inside r) = stop then takeWhile inside r # names_cut stop r
         else names_cut stop r)"

text \<open>
  All that is taken from the interpreter, for the names that are variables: it hands a command on without its carets
  if the carets leave nothing with a meaning and nothing in the command may be looked up with success.
\<close>

definition hands_on :: "(jstring \<Rightarrow> bool) \<Rightarrow> (jstring \<Rightarrow> jstring option) \<Rightarrow> bool" where
  "hands_on variable cmd \<longleftrightarrow>
     (\<forall>s t. carets_off s = Some t \<and> \<not> list_ex variable (names_cut percent s @ names_cut colon s) \<longrightarrow> cmd s = Some t)"

section \<open>What is quoted is read back\<close>

text \<open>Both replacements at once.\<close>

fun quoted :: "nat \<Rightarrow> jstring \<Rightarrow> jstring" where
  "quoted n [] = replicate (n + n) cBSL"
| "quoted n (c # r) =
     (if c = cBSL then quoted (Suc n) r
      else if c = cDQ then replicate (Suc (n + n)) cBSL @ cDQ # quoted 0 r
      else replicate n cBSL @ c # quoted 0 r)"

lemma double_end_append:
  assumes "c \<noteq> cBSL"
  shows "double_end (s @ c # t) = s @ c # double_end t"
proof -
  have "takeWhile (\<lambda>c. c = cBSL) (rev t @ c # rev s) = takeWhile (\<lambda>c. c = cBSL) (rev t)"
    using assms by (induction "rev t" arbitrary: t rule: list.induct) (simp_all add: takeWhile_tail)
  then show ?thesis by (simp add: double_end_def)
qed

lemma double_end_slashes: "double_end (replicate n cBSL) = replicate (n + n) cBSL"
  by (simp add: double_end_def replicate_add)

lemma double_end_quoted: "double_end (escape_quotes n s) = quoted n s"
proof (induction n s rule: escape_quotes.induct)
  case (1 n)
  then show ?case by (simp add: double_end_slashes)
next
  case (2 n c r)
  have "double_end (replicate (n + n) cBSL @ [cBSL, cDQ] @ escape_quotes 0 r)
      = replicate (Suc (n + n)) cBSL @ cDQ # double_end (escape_quotes 0 r)"
    using double_end_append [of cDQ "replicate (Suc (n + n)) cBSL" "escape_quotes 0 r"]
    by (simp add: replicate_append_same del: replicate.simps) (simp add: replicate_append_same [symmetric])
  then show ?case using 2 double_end_append [of c] by simp
qed

lemma read_slashes: "read_arg q n (replicate k cBSL @ s) = read_arg q (n + k) s"
  by (induction k arbitrary: n) (simp_all add: read_arg_simps)

lemma read_quoted:
  assumes "tail = [] \<or> hd tail = sp"
  shows "read_arg True 0 (quoted n s @ cDQ # tail) = (replicate n cBSL @ s, tail)"
proof (induction n s rule: quoted.induct)
  case (1 n)
  have "read_arg False 0 tail = ([], tail)" using assms by (cases tail) (auto simp: read_arg_simps)
  moreover have "tail = [] \<or> hd tail \<noteq> cDQ" using assms by auto
  ultimately show ?case by (simp add: read_slashes read_arg_simps)
next
  case (2 n c r)
  consider "c = cBSL" | "c = cDQ" "c \<noteq> cBSL" | "c \<noteq> cBSL" "c \<noteq> cDQ" by blast
  then show ?case
  proof cases
    case 1
    have e: "replicate (Suc n) cBSL @ r = replicate n cBSL @ cBSL # r" by (simp add: replicate_app_Cons_same)
    have "quoted n (c # r) = quoted (Suc n) r" using 1 by simp
    then show ?thesis using 2(1) [OF 1] e 1 by (simp only:)
  next
    case c: 2
    have q: "quoted n (c # r) = replicate (Suc (n + n)) cBSL @ cDQ # quoted 0 r" using c by simp
    have o: "odd (Suc (n + n))" "Suc (n + n) div 2 = n" by simp_all
    have "read_arg True 0 (quoted 0 r @ cDQ # tail) = (r, tail)" using 2(2) c by simp
    then show ?thesis
      unfolding q append_assoc read_slashes append_Cons add_0 read_arg_simps(2) [OF o(1)] o(2) using c by simp
  next
    case c: 3
    have q: "quoted n (c # r) = replicate n cBSL @ c # quoted 0 r" using c by simp
    have "read_arg True 0 (quoted 0 r @ cDQ # tail) = (r, tail)" using 2(3) c by simp
    then show ?thesis unfolding q append_assoc read_slashes append_Cons using c by (simp add: read_arg_simps)
  qed
qed

lemma read_plain:
  assumes "tail = [] \<or> hd tail = sp" "list_all (\<lambda>c. c \<noteq> cDQ \<and> c \<noteq> sp \<and> c \<noteq> cTAB) a"
  shows "read_arg False n (a @ tail) = (replicate n cBSL @ a, tail)"
  using assms(2)
proof (induction a arbitrary: n)
  case Nil
  then show ?case using assms(1) by (cases tail) (auto simp: read_arg_simps)
next
  case (Cons c r)
  show ?case
  proof (cases "c = cBSL")
    case True
    have "replicate (Suc n) cBSL @ r = replicate n cBSL @ cBSL # r" by (simp add: replicate_app_Cons_same)
    then show ?thesis using Cons.IH [of "Suc n"] Cons.prems True by (simp add: read_arg_simps)
  next
    case False
    then show ?thesis using Cons.IH [of 0] Cons.prems by (simp add: read_arg_simps)
  qed
qed

lemma blanks_are_space: "is_space sp" "is_space cTAB"
  by (simp_all add: is_space_def)

lemma quoteArg_plain:
  "a \<noteq> [] \<Longrightarrow> \<not> list_ex (\<lambda>c. is_space c \<or> c = cDQ) a \<Longrightarrow>
   quoteArg a = a \<and> list_all (\<lambda>c. c \<noteq> cDQ \<and> c \<noteq> sp \<and> c \<noteq> cTAB) a"
  using blanks_are_space by (auto simp: quoteArg_def list_ex_iff list_all_iff)

lemma quoteArg_quoted:
  "a = [] \<or> list_ex (\<lambda>c. is_space c \<or> c = cDQ) a \<Longrightarrow> quoteArg a = cDQ # quoted 0 a @ [cDQ]"
  by (auto simp: quoteArg_def double_end_quoted)

lemma read_quoteArg:
  assumes "tail = [] \<or> hd tail = sp"
  shows "read_arg False 0 (quoteArg a @ tail) = (a, tail)"
proof (cases "a = [] \<or> list_ex (\<lambda>c. is_space c \<or> c = cDQ) a")
  case True
  then show ?thesis using read_quoted [OF assms, of 0 a] by (simp add: quoteArg_quoted read_arg_simps)
next
  case False
  then show ?thesis using quoteArg_plain [of a] read_plain [OF assms, of a 0] by simp
qed

lemma quoteArg_starts: "\<exists>c r. quoteArg a = c # r \<and> c \<noteq> sp \<and> c \<noteq> cTAB"
proof (cases "a = [] \<or> list_ex (\<lambda>c. is_space c \<or> c = cDQ) a")
  case True
  then show ?thesis by (simp add: quoteArg_quoted)
next
  case False
  then show ?thesis using quoteArg_plain [of a] by (cases a) auto
qed

lemma read_args_quoted: "read_args (concat (map (\<lambda>a. sp # quoteArg a) args)) = args"
proof (induction args)
  case Nil
  show ?case by (subst read_args.simps) (simp add: skip_blanks_def)
next
  case (Cons a args)
  let ?tail = "concat (map (\<lambda>a. sp # quoteArg a) args)"
  have t: "?tail = [] \<or> hd ?tail = sp" by (cases args) simp_all
  obtain c r where c: "quoteArg a = c # r" "c \<noteq> sp" "c \<noteq> cTAB" using quoteArg_starts by blast
  have s: "skip_blanks (concat (map (\<lambda>a. sp # quoteArg a) (a # args))) = c # r @ ?tail"
    using c by (simp add: skip_blanks_def)
  have "read_arg False 0 (c # r @ ?tail) = (a, ?tail)" using read_quoteArg [OF t, of a] c(1) by simp
  then show ?case by (subst read_args.simps) (simp only: s list.case fst_conv snd_conv Cons.IH)
qed

lemma join_quoted: "join_with [sp] (map quoteArg (a # args)) = quoteArg a @ concat (map (\<lambda>a. sp # quoteArg a) args)"
  by (induction args arbitrary: a) simp_all

text \<open>The path of a program has no quote and does not end in a backslash.\<close>

definition program_path :: "jstring \<Rightarrow> bool" where
  "program_path p \<longleftrightarrow> p \<noteq> [] \<and> cDQ \<notin> set p \<and> last p \<noteq> cBSL \<and> \<not> list_ex line_break p"

lemma quoted_path: "cDQ \<notin> set p \<Longrightarrow> p = [] \<or> last p \<noteq> cBSL \<Longrightarrow> p \<noteq> [] \<or> n = 0 \<Longrightarrow> quoted n p = replicate n cBSL @ p"
proof (induction n p rule: quoted.induct)
  case (2 n c r)
  show ?case
  proof (cases "c = cBSL")
    case True
    then have r: "r \<noteq> []" using 2(4,5) by auto
    have "replicate (Suc n) cBSL @ r = replicate n cBSL @ cBSL # r" by (simp add: replicate_app_Cons_same)
    then show ?thesis using 2(1) [OF True] 2(4,5) r True by simp
  next
    case False
    then show ?thesis using 2(3) 2(4,5) by (auto split: if_splits)
  qed
qed simp

lemma until_quote: "cDQ \<notin> set p \<Longrightarrow> takeWhile (\<lambda>c. c \<noteq> cDQ) (p @ cDQ # t) = p \<and> dropWhile (\<lambda>c. c \<noteq> cDQ) (p @ cDQ # t) = cDQ # t"
  by (induction p) auto

lemma read_line_quoted:
  assumes "program_path p"
  shows "read_line (join_with [sp] (map quoteArg (p # args))) = p # args"
proof -
  let ?tail = "concat (map (\<lambda>a. sp # quoteArg a) args)"
  have tail: "?tail = [] \<or> hd ?tail = sp" by (cases args) simp_all
  show ?thesis
  proof (cases "list_ex (\<lambda>c. is_space c \<or> c = cDQ) p")
    case True
    then have q: "quoteArg p = cDQ # p @ [cDQ]"
      using assms quoted_path [of p 0] quoteArg_quoted [of p] by (simp add: program_path_def)
    have "cDQ \<notin> set p" using assms by (simp add: program_path_def)
    from until_quote [OF this, of ?tail] show ?thesis
      using read_args_quoted [of args] unfolding join_quoted q by (simp add: read_line_def)
  next
    case False
    have p: "quoteArg p = p" "list_all (\<lambda>c. c \<noteq> cDQ \<and> c \<noteq> sp \<and> c \<noteq> cTAB) p" "p \<noteq> []"
      using quoteArg_plain [of p] False assms by (auto simp: program_path_def)
    have "takeWhile (\<lambda>c. c \<noteq> sp \<and> c \<noteq> cTAB) (p @ ?tail) = p" "dropWhile (\<lambda>c. c \<noteq> sp \<and> c \<noteq> cTAB) (p @ ?tail) = ?tail"
      using p(2) tail by (cases ?tail; auto simp: list_all_iff takeWhile_append dropWhile_append)+
    moreover have "hd (p @ ?tail) \<noteq> cDQ" using p(2,3) by (cases p) auto
    ultimately show ?thesis
      using read_args_quoted [of args] p(3) unfolding join_quoted p(1) by (cases p) (simp_all add: read_line_def)
  qed
qed

section \<open>What \<open>cmd.exe\<close> passes on\<close>

lemma carets_off_escaped:
  "\<not> list_ex line_break s \<Longrightarrow>
   carets_off (concat (map (\<lambda>c. if CMD_META c then [ch CHR ''^'', c] else [c]) s) @ t) = map_option ((@) s) (carets_off t)"
proof (induction s)
  case (Cons c s)
  have caret: "CMD_META (ch CHR ''^'')" "CMD_META sp" by (simp_all add: CMD_META_def js_simps)
  then show ?case using Cons by (auto simp: option.map_comp comp_def)
next
  case Nil
  then show ?case by (simp add: option.map_ident)
qed

lemma quoted_no_break: "\<not> list_ex line_break s \<Longrightarrow> \<not> list_ex line_break (quoted n s)"
  by (induction n s rule: quoted.induct) (auto simp: line_break_def list_ex_iff)

lemma quoteArg_no_break: "\<not> list_ex line_break a \<Longrightarrow> \<not> list_ex line_break (quoteArg a)"
proof (cases "a = [] \<or> list_ex (\<lambda>c. is_space c \<or> c = cDQ) a")
  case True
  assume "\<not> list_ex line_break a"
  then show ?thesis using quoted_no_break [of a 0] True by (simp add: quoteArg_quoted line_break_def)
next
  case False
  assume "\<not> list_ex line_break a"
  then show ?thesis using quoteArg_plain [of a] False by simp
qed

lemma carets_off_line: "\<not> list_ex (list_ex line_break) argv \<Longrightarrow> carets_off (cmdCommandLine argv) = Some (join_with [sp] (map quoteArg argv))"
proof (induction argv rule: induct_list012)
  case 1
  then show ?case by (simp add: cmdCommandLine_def)
next
  case (2 a)
  then show ?case using carets_off_escaped [OF quoteArg_no_break, of a "[]"] by (simp add: cmdCommandLine_def)
next
  case (3 a b argv)
  have IH: "carets_off (cmdCommandLine (b # argv)) = Some (join_with [sp] (map quoteArg (b # argv)))" using 3 by simp
  have "carets_off (sp # cmdCommandLine (b # argv)) = Some (sp # join_with [sp] (map quoteArg (b # argv)))"
    using IH by simp
  then show ?case using carets_off_escaped [OF quoteArg_no_break, of a "sp # cmdCommandLine (b # argv)"] 3(3)
    by (simp add: cmdCommandLine_def)
qed

text \<open>Every percent sign of an escaped line comes after a caret, so every name that ends at one ends in a caret.\<close>

fun careted :: "cu \<Rightarrow> jstring \<Rightarrow> bool" where
  "careted p [] = True"
| "careted p (c # r) \<longleftrightarrow> (c = percent \<longrightarrow> p = ch CHR ''^'') \<and> careted c r"

lemma careted_before: "careted p (u @ percent # v) \<Longrightarrow> last (p # u) = ch CHR ''^''"
  by (induction u arbitrary: p) auto

lemma careted_escape:
  "r = [] \<or> hd r \<noteq> percent \<Longrightarrow> (\<And>q. careted q r) \<Longrightarrow>
   careted p (concat (map (\<lambda>c. if CMD_META c then [ch CHR ''^'', c] else [c]) s) @ r)"
proof (induction s arbitrary: p)
  case (Cons c s)
  have "CMD_META percent" "ch CHR ''^'' \<noteq> percent" by (simp_all add: CMD_META_def js_simps)
  then show ?case using Cons by auto
qed simp

lemma careted_line: "careted p (cmdCommandLine argv)"
proof (induction argv arbitrary: p rule: induct_list012)
  case (2 a)
  then show ?case using careted_escape [of "[]" p "quoteArg a"] by (simp add: cmdCommandLine_def)
next
  case (3 a b argv)
  show ?case using careted_escape [of "sp # cmdCommandLine (b # argv)" p "quoteArg a"] 3(2)
    by (simp add: cmdCommandLine_def)
qed (simp add: cmdCommandLine_def)

lemma names_cut_in: "n \<in> set (names_cut stop s) \<Longrightarrow> \<exists>u v. s = u @ percent # n @ stop # v"
proof (induction s)
  case (Cons c r)
  let ?inside = "\<lambda>d. d \<noteq> percent \<and> d \<noteq> colon"
  consider "c = percent" "dropWhile ?inside r \<noteq> []" "hd (dropWhile ?inside r) = stop" "n = takeWhile ?inside r"
    | "n \<in> set (names_cut stop r)"
    using Cons.prems by (auto simp: Let_def split: if_splits)
  then show ?case
  proof cases
    case 1
    then have "c # r = [] @ percent # n @ stop # tl (dropWhile ?inside r)"
      by (metis append_Nil list.collapse takeWhile_dropWhile_id)
    then show ?thesis by blast
  next
    case 2
    then show ?thesis using Cons.IH by (metis append_Cons)
  qed
qed simp

lemma closed_name_careted:
  assumes "n \<in> set (names_cut percent (cmdCommandLine argv))"
  shows "n \<noteq> [] \<and> last n = ch CHR ''^''"
proof -
  obtain u v where "cmdCommandLine argv = (u @ percent # n) @ percent # v"
    using names_cut_in [OF assms] by auto
  then have "last (0 # u @ percent # n) = ch CHR ''^''"
    using careted_line [of 0 argv] careted_before [of 0 "u @ percent # n" v] by simp
  then show ?thesis by (cases "n = []") (simp_all add: js_simps)
qed


text \<open>What the heuristic does not cover: the name before a colon has no caret.\<close>

lemma colon_name_found:
  "names_cut percent (cmdCommandLine [js ''%NAME%'']) = [js ''NAME^'']
   \<and> names_cut colon (cmdCommandLine [js ''%NAME:a=b%'']) = [js ''NAME'']"
  by code_simp

definition sample_windows :: windows where
  "sample_windows =
     \<lparr>win_isAbsolute = \<lambda>s. starts_with s (js ''C:''), win_which = \<lambda>_ _ _. None, win_extname = \<lambda>s. drop (length s - 4) s,
      win_normalize = id, win_join = join_with [cBSL], win_upper = id, win_lower = id, win_systemRoot = None\<rparr>"

definition sample_program :: jstring where
  "sample_program = js ''C:'' @ cBSL # js ''My Tools'' @ cBSL # js ''run.exe''"

definition sample_args :: "jstring list" where
  "sample_args = [js ''a b'', [], cBSL # cDQ # js ''x%PATH%'', js ''^&| '' @ [cBSL], js ''plain'' @ [cBSL]]"

text \<open>An interpreter that expands \<open>PATH\<close>.\<close>

definition sample_variable :: "jstring \<Rightarrow> bool" where
  "sample_variable n \<longleftrightarrow> n = js ''PATH''"

definition sample_cmd :: "jstring \<Rightarrow> jstring option" where
  "sample_cmd s = (if list_ex sample_variable (names_cut percent s @ names_cut colon s) then None else carets_off s)"


end
