(* ===== verification/Descriptors.thy ===== *)
theory Descriptors
  imports Numbers "HOL-Library.Word"
begin

unbundle bit_operations_syntax

text \<open>
  Security descriptors of Windows (\<open>packages/cli/src/server/win32-sddl.ts\<close>): reading their text, and the trust
  the daemon puts in the directories and pipes they guard. Access masks are words of 32 bits.
\<close>

type_synonym access = "32 word"

record ace =
  ace_type :: jstring
  ace_flags :: "jstring list"
  ace_rights :: access
  ace_sid :: jstring

text \<open>No list was asked for, the list is null (everyone has access), or it is a list.\<close>

datatype dacl = Absent_dacl | Null_dacl | Dacl (dacl_protected: bool) (dacl_aces: "ace list")

record descriptor =
  sd_owner :: "jstring option"
  sd_dacl :: dacl
  sd_labels :: "ace list"

datatype sddl_error =
  Invalid_sddl | Invalid_ace_list | Invalid_ace | Invalid_ace_flags | Invalid_access_mask | Invalid_dacl_flags

section \<open>Tables\<close>

definition SYSTEM :: jstring where "SYSTEM = js ''S-1-5-18''"

definition ADMINISTRATORS :: jstring where "ADMINISTRATORS = js ''S-1-5-32-544''"

definition creatorOwner :: jstring where "creatorOwner = js ''S-1-3-0''"

definition trustedInstaller :: jstring where
  "trustedInstaller = js ''S-1-5-80-956008885-3418522649-1831038044-1853292631-2271478464''"

definition MEDIUM_INTEGRITY :: int where "MEDIUM_INTEGRITY = 0x2000"

definition HIGH_INTEGRITY :: int where "HIGH_INTEGRITY = 0x3000"

definition sid_aliases :: "(jstring \<times> jstring) list" where
  "sid_aliases =
     [(js ''SY'', SYSTEM), (js ''BA'', ADMINISTRATORS), (js ''BU'', js ''S-1-5-32-545''), (js ''BG'', js ''S-1-5-32-546''),
      (js ''PU'', js ''S-1-5-32-547''), (js ''CO'', creatorOwner), (js ''CG'', js ''S-1-3-1''), (js ''OW'', js ''S-1-3-4''),
      (js ''WD'', js ''S-1-1-0''), (js ''AN'', js ''S-1-5-7''), (js ''AU'', js ''S-1-5-11''), (js ''NU'', js ''S-1-5-2''),
      (js ''IU'', js ''S-1-5-4''), (js ''SU'', js ''S-1-5-6''), (js ''PS'', js ''S-1-5-10''), (js ''RC'', js ''S-1-5-12''),
      (js ''LS'', js ''S-1-5-19''), (js ''NS'', js ''S-1-5-20''), (js ''AC'', js ''S-1-15-2-1''), (js ''LW'', js ''S-1-16-4096''),
      (js ''ME'', js ''S-1-16-8192''), (js ''MP'', js ''S-1-16-8448''), (js ''HI'', js ''S-1-16-12288''), (js ''SI'', js ''S-1-16-16384'')]"

definition GENERIC_ALL :: access where "GENERIC_ALL = 0x10000000"
definition GENERIC_EXECUTE :: access where "GENERIC_EXECUTE = 0x20000000"
definition GENERIC_WRITE :: access where "GENERIC_WRITE = 0x40000000"
definition GENERIC_READ :: access where "GENERIC_READ = 0x80000000"
definition FILE_ALL_ACCESS :: access where "FILE_ALL_ACCESS = 0x1f01ff"
definition FILE_GENERIC_READ :: access where "FILE_GENERIC_READ = 0x120089"
definition FILE_GENERIC_WRITE :: access where "FILE_GENERIC_WRITE = 0x120116"
definition FILE_GENERIC_EXECUTE :: access where "FILE_GENERIC_EXECUTE = 0x1200a0"
definition DELETE :: access where "DELETE = 0x10000"
definition WRITE_DAC :: access where "WRITE_DAC = 0x40000"
definition WRITE_OWNER :: access where "WRITE_OWNER = 0x80000"
definition FILE_ADD_FILE :: access where "FILE_ADD_FILE = 0x2"
definition FILE_ADD_SUBDIRECTORY :: access where "FILE_ADD_SUBDIRECTORY = 0x4"
definition FILE_DELETE_CHILD :: access where "FILE_DELETE_CHILD = 0x40"
definition LABEL_NO_WRITE_UP :: access where "LABEL_NO_WRITE_UP = 0x1"
definition LABEL_NO_READ_UP :: access where "LABEL_NO_READ_UP = 0x2"

definition rightCodes :: "(jstring \<times> access) list" where
  "rightCodes =
     [(js ''GA'', GENERIC_ALL), (js ''GX'', GENERIC_EXECUTE), (js ''GW'', GENERIC_WRITE), (js ''GR'', GENERIC_READ),
      (js ''FA'', FILE_ALL_ACCESS), (js ''FR'', FILE_GENERIC_READ), (js ''FW'', FILE_GENERIC_WRITE),
      (js ''FX'', FILE_GENERIC_EXECUTE), (js ''SD'', DELETE), (js ''RC'', 0x20000), (js ''WD'', WRITE_DAC),
      (js ''WO'', WRITE_OWNER), (js ''CC'', 0x1), (js ''DC'', 0x2), (js ''LC'', 0x4), (js ''SW'', 0x8), (js ''RP'', 0x10),
      (js ''WP'', 0x20), (js ''DT'', 0x40), (js ''LO'', 0x80), (js ''CR'', 0x100), (js ''KA'', 0xf003f), (js ''KR'', 0x20019),
      (js ''KW'', 0x20006), (js ''KX'', 0x20019)]"

definition labelCodes :: "(jstring \<times> access) list" where
  "labelCodes = [(js ''NW'', LABEL_NO_WRITE_UP), (js ''NR'', LABEL_NO_READ_UP), (js ''NX'', 0x4)]"

section \<open>Reading\<close>

text \<open>\<open>/^S-1-\d+(?:-\d+)*$/\<close>.\<close>

definition digits_only :: "jstring \<Rightarrow> bool" where
  "digits_only s \<longleftrightarrow> s \<noteq> [] \<and> list_all is_digit s"

definition full_sid :: "jstring \<Rightarrow> bool" where
  "full_sid s \<longleftrightarrow> starts_with s (js ''S-1-'') \<and> list_all digits_only (split_by (\<lambda>c. c = 45) (drop 4 s))"

text \<open>
  The names that every object of the runtime inherits give a value that is no text; it equals itself
  and nothing else, and \<open>alias:\<close> before the name stands for it.
\<close>

definition sidOf :: "jstring \<Rightarrow> jstring" where
  "sidOf value =
     (if full_sid value then value
      else case map_of sid_aliases value of Some sid \<Rightarrow> sid | None \<Rightarrow> js ''alias:'' @ value)"

text \<open>The double nearest to a number, the even one of two: 53 bits are kept. The lowest 32 bits of a larger one are 0.\<close>

function bit_count :: "int \<Rightarrow> nat" where
  "bit_count n = (if n \<le> 0 then 0 else Suc (bit_count (n div 2)))"
  by pat_completeness auto
termination
  by (relation "measure nat") auto

declare bit_count.simps [simp del]

definition nearest_double :: "int \<Rightarrow> int" where
  "nearest_double n =
     (if n < 2 ^ 53 then n
      else let k = 2 ^ (bit_count n - 53); q = n div k; r = n mod k
           in (if k < 2 * r \<or> (k = 2 * r \<and> odd q) then q + 1 else q) * k)"

fun code_rights :: "(jstring \<times> access) list \<Rightarrow> access \<Rightarrow> jstring \<Rightarrow> sddl_error + access" where
  "code_rights codes rights [] = Inr rights"
| "code_rights codes rights [a] = Inl Invalid_access_mask"
| "code_rights codes rights (a # b # r) =
     (case map_of codes [a, b] of
        None \<Rightarrow> Inl Invalid_access_mask
      | Some right \<Rightarrow> code_rights codes (rights OR right) r)"

definition parseRights :: "jstring \<Rightarrow> bool \<Rightarrow> sddl_error + access" where
  "parseRights value label =
     (if starts_with value (js ''0x'') \<and> drop 2 value \<noteq> [] \<and> list_all is_hex (drop 2 value)
      then Inr (word_of_int (nearest_double (hex_value (drop 2 value))))
      else if odd (length value) then Inl Invalid_access_mask
      else code_rights (if label then labelCodes else rightCodes) 0 value)"

text \<open>\<open>flags.match(/.{2}/g)\<close>.\<close>

fun pairs_of :: "jstring \<Rightarrow> jstring list" where
  "pairs_of (a # b # r) =
     (if line_end a \<or> line_end b then pairs_of (b # r) else [a, b] # pairs_of r)"
| "pairs_of _ = []"

definition semicolon :: "cu \<Rightarrow> bool" where
  "semicolon c \<longleftrightarrow> c = ch CHR '';''"

text \<open>The fields of what is between the parentheses.\<close>

definition parse_ace :: "jstring \<Rightarrow> sddl_error + ace" where
  "parse_ace t =
     (let parts = split_by semicolon t
      in if length parts < 6 then Inl Invalid_ace
         else let flags = parts ! 1; flagList = pairs_of flags
              in if concat flagList \<noteq> flags then Inl Invalid_ace_flags
                 else case parseRights (parts ! 2) (parts ! 0 = js ''ML'') of
                        Inl e \<Rightarrow> Inl e
                      | Inr rights \<Rightarrow>
                          Inr \<lparr>ace_type = parts ! 0, ace_flags = flagList, ace_rights = rights, ace_sid = sidOf (parts ! 5)\<rparr>)"

function parseAces :: "jstring \<Rightarrow> sddl_error + ace list" where
  "parseAces [] = Inr []"
| "parseAces (c # r) =
     (if c \<noteq> 40 \<or> 41 \<notin> set r then Inl Invalid_ace_list
      else case parse_ace (before 41 r) of
             Inl e \<Rightarrow> Inl e
           | Inr a \<Rightarrow> (case parseAces (after 41 r) of Inl e \<Rightarrow> Inl e | Inr aces \<Rightarrow> Inr (a # aces)))"
  by pat_completeness auto
termination
  by (relation "measure length") (auto simp: less_Suc_eq_le length_after_le)

text \<open>
  The matches of \<open>/([OGDS]):/g\<close> that stand at the beginning or after a parenthesis, a digit or a letter, with
  their places; the character before the text is the first argument.
\<close>

definition tag_char :: "cu \<Rightarrow> bool" where
  "tag_char c \<longleftrightarrow> one_of c ''OGDS''"

definition ends_part :: "cu option \<Rightarrow> bool" where
  "ends_part prev = (case prev of None \<Rightarrow> True | Some c \<Rightarrow> c = 41 \<or> is_digit c \<or> is_upper c)"

fun tag_starts :: "cu option \<Rightarrow> nat \<Rightarrow> jstring \<Rightarrow> (cu \<times> nat) list" where
  "tag_starts prev i (c # d # r) =
     (if tag_char c \<and> is_colon d then (if ends_part prev then [(c, i)] else []) @ tag_starts (Some d) (i + 2) r
      else tag_starts (Some c) (i + 1) (d # r))"
| "tag_starts prev i _ = []"

definition text_slice :: "jstring \<Rightarrow> nat \<Rightarrow> nat \<Rightarrow> jstring" where
  "text_slice t i j = take (j - i) (drop i t)"

fun sddl_parts :: "jstring \<Rightarrow> (cu \<times> nat) list \<Rightarrow> (cu \<times> jstring) list \<Rightarrow> sddl_error + (cu \<times> jstring) list" where
  "sddl_parts t [] parts = Inr parts"
| "sddl_parts t ((tag, i) # starts) parts =
     (if tag \<in> fst ` set parts then Inl Invalid_sddl
      else sddl_parts t starts
             (parts @ [(tag, text_slice t (i + 2) (case starts of [] \<Rightarrow> length t | (_, j) # _ \<Rightarrow> j))]))"

text \<open>\<open>/^(?:P|AI|AR)*$/\<close>.\<close>

fun dacl_flags :: "jstring \<Rightarrow> bool" where
  "dacl_flags [] = True"
| "dacl_flags (c # r) =
     (if c = ch CHR ''P'' then dacl_flags r
      else case r of [] \<Rightarrow> False | d # r' \<Rightarrow> c = ch CHR ''A'' \<and> one_of d ''IR'' \<and> dacl_flags r')"

definition parse_dacl :: "jstring option \<Rightarrow> sddl_error + dacl" where
  "parse_dacl part =
     (case part of None \<Rightarrow> Inr Absent_dacl
      | Some dacl \<Rightarrow>
          (let flags = before 40 dacl
           in if sublist (js ''NO_ACCESS_CONTROL'') flags then Inr Null_dacl
              else if \<not> dacl_flags flags then Inl Invalid_dacl_flags
              else case parseAces (drop (length flags) dacl) of
                     Inl e \<Rightarrow> Inl e | Inr aces \<Rightarrow> Inr (Dacl (ch CHR ''P'' \<in> set flags) aces)))"

definition parse_labels :: "jstring option \<Rightarrow> sddl_error + ace list" where
  "parse_labels part =
     (case part of None \<Rightarrow> Inr []
      | Some sacl \<Rightarrow>
          (case parseAces (drop (length (before 40 sacl)) sacl) of
             Inl e \<Rightarrow> Inl e | Inr aces \<Rightarrow> Inr (filter (\<lambda>a. ace_type a = js ''ML'') aces)))"

definition parseSddl :: "jstring \<Rightarrow> sddl_error + descriptor" where
  "parseSddl t =
     (let starts = tag_starts None 0 t
      in case sddl_parts t starts [] of
           Inl e \<Rightarrow> Inl e
         | Inr parts \<Rightarrow>
             if starts = [] \<or> snd (hd starts) \<noteq> 0 then Inl Invalid_sddl
             else case parse_dacl (map_of parts (ch CHR ''D'')) of
                    Inl e \<Rightarrow> Inl e
                  | Inr dacl \<Rightarrow>
                      (case parse_labels (map_of parts (ch CHR ''S'')) of
                         Inl e \<Rightarrow> Inl e
                       | Inr labels \<Rightarrow> Inr \<lparr>sd_owner = map_option sidOf (map_of parts (ch CHR ''O'')), sd_dacl = dacl, sd_labels = labels\<rparr>))"

section \<open>Decisions\<close>

text \<open>Generic rights stand for rights to a file.\<close>

definition fileRights :: "access \<Rightarrow> access" where
  "fileRights rights =
     (rights AND 0x0fffffff)
     OR (if rights AND GENERIC_ALL \<noteq> 0 then FILE_ALL_ACCESS else 0)
     OR (if rights AND GENERIC_READ \<noteq> 0 then FILE_GENERIC_READ else 0)
     OR (if rights AND GENERIC_WRITE \<noteq> 0 then FILE_GENERIC_WRITE else 0)
     OR (if rights AND GENERIC_EXECUTE \<noteq> 0 then FILE_GENERIC_EXECUTE else 0)"

definition inheritOnly :: "ace \<Rightarrow> bool" where
  "inheritOnly a \<longleftrightarrow> js ''IO'' \<in> set (ace_flags a)"

text \<open>The number is compared with small ones only, for which rounding makes no difference.\<close>

definition integrityRid :: "jstring \<Rightarrow> int option" where
  "integrityRid sid =
     (if starts_with sid (js ''S-1-16-'') \<and> digits_only (drop 7 sid) then Some (dec_value (drop 7 sid)) else None)"

type_synonym problem = "jstring option"

definition private_ace :: "jstring \<Rightarrow> ace \<Rightarrow> problem" where
  "private_ace user a =
     (if ace_type a = js ''D'' then None
      else if ace_type a \<noteq> js ''A'' then Some (js ''unexpected ACE'')
      else if ace_sid a \<noteq> user \<and> ace_sid a \<noteq> SYSTEM then Some (js ''foreign access'')
      else None)"

definition private_label :: "ace \<Rightarrow> problem" where
  "private_label label =
     (case integrityRid (ace_sid label) of
        None \<Rightarrow> Some (js ''weak integrity label'')
      | Some rid \<Rightarrow>
          if rid < MEDIUM_INTEGRITY
             \<or> (ace_rights label AND (LABEL_NO_READ_UP OR LABEL_NO_WRITE_UP)) \<noteq> (LABEL_NO_READ_UP OR LABEL_NO_WRITE_UP)
          then Some (js ''weak integrity label'') else None)"

text \<open>An empty owner counts as none.\<close>

definition owner_among :: "descriptor \<Rightarrow> jstring list \<Rightarrow> bool" where
  "owner_among d sids = (case sd_owner d of None \<Rightarrow> False | Some sid \<Rightarrow> sid \<noteq> [] \<and> sid \<in> set sids)"

definition privateDescriptorProblem :: "descriptor \<Rightarrow> jstring \<Rightarrow> jstring list \<Rightarrow> problem" where
  "privateDescriptorProblem d user owners =
     (if \<not> owner_among d owners then Some (js ''foreign owner'')
      else case sd_dacl d of
             Dacl _ aces \<Rightarrow> first_some (map (private_ace user) aces @ map private_label (sd_labels d))
           | _ \<Rightarrow> Some (js ''missing DACL''))"

definition trustedSids :: "jstring \<Rightarrow> jstring list" where
  "trustedSids user = [user, SYSTEM, ADMINISTRATORS, trustedInstaller, creatorOwner]"

text \<open>A map from identifiers to rights, in the order in which they were entered.\<close>

fun add_grant :: "jstring \<Rightarrow> access \<Rightarrow> (jstring \<times> access) list \<Rightarrow> (jstring \<times> access) list" where
  "add_grant sid r [] = [(sid, r)]"
| "add_grant sid r ((s, q) # g) = (if s = sid then (s, q OR r) # g else (s, q) # add_grant sid r g)"

definition grant_ace :: "jstring list \<Rightarrow> (jstring \<times> access) list \<Rightarrow> ace \<Rightarrow> (jstring \<times> access) list" where
  "grant_ace trusted g a =
     (if ace_type a \<noteq> js ''A'' \<or> inheritOnly a \<or> ace_sid a \<in> set trusted then g
      else add_grant (ace_sid a) (fileRights (ace_rights a)) g)"

definition grants :: "jstring list \<Rightarrow> descriptor option \<Rightarrow> (jstring \<times> access) list" where
  "grants trusted descr =
     (case descr of None \<Rightarrow> []
      | Some d \<Rightarrow>
          (case sd_dacl d of
             Null_dacl \<Rightarrow> [(js ''*'', FILE_ALL_ACCESS)]
           | Absent_dacl \<Rightarrow> []
           | Dacl _ aces \<Rightarrow> foldl (grant_ace trusted) [] aces))"

definition grant_of :: "(jstring \<times> access) list \<Rightarrow> jstring \<Rightarrow> access" where
  "grant_of g sid = (case map_of g sid of None \<Rightarrow> 0 | Some r \<Rightarrow> r)"

definition child_problem :: "(jstring \<times> access) list \<Rightarrow> jstring \<times> access \<Rightarrow> problem" where
  "child_problem parentGrants = (\<lambda>(sid, rights).
     if rights AND (WRITE_DAC OR WRITE_OWNER OR FILE_DELETE_CHILD) \<noteq> 0 then Some (js ''foreign control'')
     else let parentRights = grant_of parentGrants sid OR grant_of parentGrants (js ''*'')
          in if rights AND DELETE \<noteq> 0 \<and> parentRights AND (FILE_ADD_FILE OR FILE_ADD_SUBDIRECTORY) \<noteq> 0
             then Some (js ''foreign rename'') else None)"

definition parent_problem :: "jstring \<times> access \<Rightarrow> problem" where
  "parent_problem = (\<lambda>(sid, rights).
     if sid = js ''*'' then None
     else if rights AND FILE_DELETE_CHILD \<noteq> 0 \<and> rights AND (FILE_ADD_FILE OR FILE_ADD_SUBDIRECTORY) \<noteq> 0
     then Some (js ''foreign rename'') else None)"

definition ancestorProblem :: "descriptor \<Rightarrow> descriptor option \<Rightarrow> jstring \<Rightarrow> problem" where
  "ancestorProblem child parent user =
     (let trusted = trustedSids user
      in if \<not> owner_among child trusted then Some (js ''foreign owner'')
         else if sd_dacl child = Absent_dacl \<or> sd_dacl child = Null_dacl then Some (js ''missing DACL'')
         else let parentGrants = grants trusted parent
              in case first_some (map (child_problem parentGrants) (grants trusted (Some child))
                                  @ map parent_problem parentGrants) of
                   Some p \<Rightarrow> Some p
                 | None \<Rightarrow> if grant_of parentGrants (js ''*'') AND FILE_DELETE_CHILD \<noteq> 0
                            then Some (js ''foreign rename'') else None)"

definition lockedPipeProblem :: "descriptor \<Rightarrow> jstring \<Rightarrow> problem" where
  "lockedPipeProblem d user =
     (if sd_owner d \<noteq> Some user then Some (js ''foreign owner'')
      else case sd_dacl d of
             Dacl True [a] \<Rightarrow>
               if ace_type a \<noteq> js ''A'' \<or> ace_flags a \<noteq> [] \<or> ace_sid a \<noteq> user \<or> fileRights (ace_rights a) \<noteq> FILE_ALL_ACCESS
               then Some (js ''unexpected DACL'')
               else (case sd_labels d of
                       [label] \<Rightarrow>
                         if integrityRid (ace_sid label) \<noteq> Some MEDIUM_INTEGRITY \<or> ace_flags label \<noteq> []
                            \<or> ace_rights label \<noteq> (LABEL_NO_READ_UP OR LABEL_NO_WRITE_UP)
                         then Some (js ''unexpected label'') else None
                     | _ \<Rightarrow> Some (js ''unexpected label''))
           | _ \<Rightarrow> Some (js ''unexpected DACL''))"

definition lockedPipeSddl :: "jstring \<Rightarrow> jstring" where
  "lockedPipeSddl user = js ''O:'' @ user @ js ''D:P(A;;GA;;;'' @ user @ js '')S:(ML;;NWNR;;;ME)''"

definition privateDirectorySddl :: "jstring \<Rightarrow> jstring" where
  "privateDirectorySddl user =
     js ''O:'' @ user @ js ''D:P(A;OICI;FA;;;'' @ user @ js '')(A;OICI;FA;;;SY)S:(ML;OICI;NRNW;;;ME)''"

definition integrityProblem :: "int \<Rightarrow> int option \<Rightarrow> problem" where
  "integrityProblem rid enableLua =
     (if rid < MEDIUM_INTEGRITY then Some (js ''low integrity'')
      else if rid < HIGH_INTEGRITY then None
      else if enableLua = Some 0 then None else Some (js ''elevated with UAC on''))"


section \<open>Reading what was written\<close>

subsection \<open>Parts\<close>

definition assemble :: "(cu \<times> jstring) list \<Rightarrow> jstring" where
  "assemble parts = concat (map (\<lambda>(tag, body). tag # 58 # body) parts)"

text \<open>Where the parts of such a text begin.\<close>

fun part_starts :: "nat \<Rightarrow> (cu \<times> jstring) list \<Rightarrow> (cu \<times> nat) list" where
  "part_starts i [] = []"
| "part_starts i ((tag, body) # parts) = (tag, i) # part_starts (i + 2 + length body) parts"

definition no_colon :: "jstring \<Rightarrow> bool" where
  "no_colon s \<longleftrightarrow> list_all (\<lambda>c. \<not> is_colon c) s"

text \<open>No colon is in a body, and a body that another part follows ends like one.\<close>

fun parts_apart :: "(cu \<times> jstring) list \<Rightarrow> bool" where
  "parts_apart [] = True"
| "parts_apart ((tag, body) # parts) =
     (tag_char tag \<and> no_colon body \<and> (parts = [] \<or> (body \<noteq> [] \<and> ends_part (Some (last body)))) \<and> parts_apart parts)"

lemma assemble_simps [simp]:
  "assemble [] = []"
  "assemble ((tag, body) # parts) = tag # 58 # body @ assemble parts"
  by (simp_all add: assemble_def)

lemma colon_is [simp]: "is_colon 58" "\<not> tag_char 58"
  by (simp_all add: is_colon_def tag_char_def text_eval)

lemma tag_not_colon: "tag_char c \<Longrightarrow> \<not> is_colon c"
  by (auto simp: is_colon_def tag_char_def text_eval)

lemma no_colon_simps [simp]:
  "no_colon []" "no_colon (c # s) \<longleftrightarrow> \<not> is_colon c \<and> no_colon s" "no_colon (s @ t) \<longleftrightarrow> no_colon s \<and> no_colon t"
  by (auto simp: no_colon_def)

lemma tag_starts_none: "no_colon s \<Longrightarrow> tag_starts prev i s = []"
  by (induction prev i s rule: tag_starts.induct) auto

lemma tag_starts_skip:
  assumes "no_colon body" "tag_char tag"
  shows "tag_starts prev i (body @ tag # 58 # r) =
     (if ends_part (if body = [] then prev else Some (last body)) then [(tag, i + length body)] else [])
     @ tag_starts (Some 58) (i + length body + 2) r"
  using assms
proof (induction body arbitrary: prev i)
  case Nil
  then show ?case by simp
next
  case (Cons c body)
  have "tag_starts prev i ((c # body) @ tag # 58 # r) =
        tag_starts (Some c) (i + 1) (body @ tag # 58 # r)"
    using Cons.prems tag_not_colon [of tag] by (cases body) auto
  then show ?case using Cons by simp
qed

lemma tag_starts_parts:
  "parts_apart parts \<Longrightarrow> no_colon body \<Longrightarrow> parts = [] \<or> ends_part (if body = [] then prev else Some (last body)) \<Longrightarrow>
   tag_starts prev i (body @ assemble parts) = part_starts (i + length body) parts"
proof (induction parts arbitrary: body prev i)
  case Nil
  then show ?case by (simp add: tag_starts_none)
next
  case (Cons p parts)
  obtain tag b where p: "p = (tag, b)" by (cases p)
  have "tag_starts (Some 58) (i + length body + 2) (b @ assemble parts)
        = part_starts (i + length body + 2 + length b) parts"
    using Cons.prems by (intro Cons.IH) (auto simp: p)
  then show ?case
    using Cons.prems by (simp add: p tag_starts_skip)
qed

lemma starts_assemble: "parts_apart parts \<Longrightarrow> tag_starts None 0 (assemble parts) = part_starts 0 parts"
  using tag_starts_parts [of parts "[]" None 0] by (simp add: ends_part_def)

lemma sddl_parts_assemble:
  "drop i t = assemble parts \<Longrightarrow> i \<le> length t \<Longrightarrow> distinct (map fst (acc @ parts)) \<Longrightarrow>
   sddl_parts t (part_starts i parts) acc = Inr (acc @ parts)"
proof (induction parts arbitrary: i acc)
  case Nil
  then show ?case by simp
next
  case (Cons p parts)
  obtain tag b where p: "p = (tag, b)" by (cases p)
  have d: "drop i t = tag # 58 # b @ assemble parts"
    using Cons.prems by (simp add: p)
  then have body: "drop (i + 2) t = b @ assemble parts"
    by (metis add.commute drop_drop drop_Suc_Cons drop0 numeral_2_eq_2)
  then have rest: "drop (i + 2 + length b) t = assemble parts"
    by (metis add.commute append_eq_conv_conj drop_drop)
  have len: "length t = i + 2 + length b + length (assemble parts)"
    using arg_cong [OF d, of length] Cons.prems(2) by simp
  have sl: "text_slice t (i + 2) (case part_starts (i + 2 + length b) parts of [] \<Rightarrow> length t | (_, j) # _ \<Rightarrow> j) = b"
    using body len by (cases parts) (auto simp: text_slice_def)
  have "sddl_parts t (part_starts (i + 2 + length b) parts) (acc @ [(tag, b)]) = Inr ((acc @ [(tag, b)]) @ parts)"
    using Cons.prems rest len by (intro Cons.IH) (auto simp: p)
  then show ?case
    using Cons.prems sl by (simp add: p)
qed

lemma parseSddl_assemble:
  assumes "parts_apart parts" "distinct (map fst parts)" "parts \<noteq> []"
  shows "parseSddl (assemble parts) =
    (case parse_dacl (map_of parts 68) of
       Inl e \<Rightarrow> Inl e
     | Inr dacl \<Rightarrow>
         (case parse_labels (map_of parts 83) of
            Inl e \<Rightarrow> Inl e
          | Inr labels \<Rightarrow> Inr \<lparr>sd_owner = map_option sidOf (map_of parts 79), sd_dacl = dacl, sd_labels = labels\<rparr>))"
proof -
  have "sddl_parts (assemble parts) (part_starts 0 parts) [] = Inr parts"
    using sddl_parts_assemble [of 0 "assemble parts" parts "[]"] assms by simp
  moreover have "part_starts 0 parts \<noteq> []" "snd (hd (part_starts 0 parts)) = 0"
    using assms(3) by (cases parts; auto)+
  ultimately show ?thesis
    by (simp add: parseSddl_def starts_assemble [OF assms(1)] Let_def split: sum.split)
qed


subsection \<open>Identifiers\<close>

lemma digits_join:
  "list_all digits_only ws \<Longrightarrow> ws \<noteq> [] \<Longrightarrow>
   join_with [45] ws \<noteq> [] \<and> is_digit (last (join_with [45] ws)) \<and> list_all (\<lambda>c. c = 45 \<or> is_digit c) (join_with [45] ws)"
proof (induction "[45 :: cu]" ws rule: join_with.induct)
  case 1
  then show ?case by simp
next
  case (2 w)
  then show ?case by (auto simp: digits_only_def list_all_iff)
next
  case (3 w v ws)
  then show ?case by (auto simp: digits_only_def list_all_iff)
qed

lemma full_sid_text:
  assumes "full_sid s"
  shows "s \<noteq> []" "is_digit (last s)" "list_all (\<lambda>c. c = 83 \<or> c = 45 \<or> is_digit c) s"
proof -
  let ?d = "drop 4 s"
  have "take 4 s = js ''S-1-''"
    using assms by (simp add: full_sid_def starts_with_def js_simps numeral_eq_Suc)
  then have s: "s = js ''S-1-'' @ ?d"
    using append_take_drop_id [of 4 s] by simp
  have joined: "join_with [45] (split_by (\<lambda>c. c = 45) ?d) = ?d"
    by (rule join_split_by) simp
  have "list_all digits_only (split_by (\<lambda>c. c = 45) ?d)"
    using assms by (simp add: full_sid_def)
  from digits_join [OF this split_by_ne]
  have d: "?d \<noteq> [] \<and> is_digit (last ?d) \<and> list_all (\<lambda>c. c = 45 \<or> is_digit c) ?d"
    unfolding joined .
  show "s \<noteq> []" using d by auto
  show "is_digit (last s)" using d s by (metis last_appendR)
  show "list_all (\<lambda>c. c = 83 \<or> c = 45 \<or> is_digit c) s"
    using d by (subst s) (auto simp: js_simps is_digit_def list_all_iff)
qed

lemma full_sid_Nil [simp]: "\<not> full_sid []"
  using full_sid_text(1) by blast

lemma sidOf_full [simp]: "full_sid s \<Longrightarrow> sidOf s = s"
  by (simp add: sidOf_def)

subsection \<open>Entries\<close>

text \<open>No character that ends a field or an entry, and no colon.\<close>

definition field_text :: "jstring \<Rightarrow> bool" where
  "field_text s \<longleftrightarrow> list_all (\<lambda>c. \<not> semicolon c \<and> c \<noteq> 40 \<and> c \<noteq> 41 \<and> \<not> is_colon c) s"

lemma field_text_simps [simp]:
  "field_text []" "field_text (c # s) \<longleftrightarrow> (\<not> semicolon c \<and> c \<noteq> 40 \<and> c \<noteq> 41 \<and> \<not> is_colon c) \<and> field_text s"
  "field_text (s @ t) \<longleftrightarrow> field_text s \<and> field_text t"
  by (auto simp: field_text_def)

lemma field_text_colon: "field_text s \<Longrightarrow> no_colon s"
  by (simp add: field_text_def no_colon_def list_all_iff)

lemma full_sid_field: "full_sid s \<Longrightarrow> field_text s"
  using full_sid_text(3) [of s]
  by (auto simp: field_text_def list_all_iff semicolon_def is_colon_def is_digit_def)

definition ace_inner :: "jstring \<Rightarrow> jstring \<Rightarrow> jstring \<Rightarrow> jstring \<Rightarrow> jstring" where
  "ace_inner ty flags rights sid = ty @ 59 # flags @ 59 # rights @ 59 # 59 # 59 # sid"

definition ace_text :: "jstring \<Rightarrow> jstring \<Rightarrow> jstring \<Rightarrow> jstring \<Rightarrow> jstring" where
  "ace_text ty flags rights sid = 40 # ace_inner ty flags rights sid @ [41]"

lemma split_field: "field_text s \<Longrightarrow> split_by semicolon (s @ 59 # r) = s # split_by semicolon r"
proof -
  assume "field_text s"
  then have "split_by semicolon s = [s]"
    by (intro split_by_plain) (auto simp: field_text_def list_all_iff)
  then show ?thesis
    using split_by_append_sep [of semicolon 59 s r] by (simp add: semicolon_def)
qed

lemma split_ace_inner:
  assumes "field_text ty" "field_text flags" "field_text rights" "field_text sid"
  shows "split_by semicolon (ace_inner ty flags rights sid) = [ty, flags, rights, [], [], sid]"
proof -
  have "split_by semicolon sid = [sid]"
    using assms(4) by (intro split_by_plain) (auto simp: field_text_def list_all_iff)
  then show ?thesis
    using split_field [of "[]"] by (simp add: ace_inner_def split_field assms)
qed

lemma parse_ace_inner:
  assumes "field_text ty" "field_text flags" "field_text rights" "field_text sid" "concat (pairs_of flags) = flags"
    "parseRights rights (ty = js ''ML'') = Inr r"
  shows "parse_ace (ace_inner ty flags rights sid) = Inr \<lparr>ace_type = ty, ace_flags = pairs_of flags, ace_rights = r, ace_sid = sidOf sid\<rparr>"
  using assms by (simp add: parse_ace_def split_ace_inner Let_def)

lemma parseAces_text:
  assumes "field_text ty" "field_text flags" "field_text rights" "field_text sid"
    "parse_ace (ace_inner ty flags rights sid) = Inr a"
  shows "parseAces (ace_text ty flags rights sid @ rest) =
    (case parseAces rest of Inl e \<Rightarrow> Inl e | Inr aces \<Rightarrow> Inr (a # aces))"
proof -
  let ?i = "ace_inner ty flags rights sid"
  have no: "41 \<notin> set ?i"
    using assms by (auto simp: ace_inner_def field_text_def list_all_iff)
  then have "before 41 (?i @ 41 # rest) = ?i" "after 41 (?i @ 41 # rest) = rest"
    by (auto simp: before_def after_def takeWhile_append dropWhile_append)
  then show ?thesis
    using assms(5) by (simp add: ace_text_def)
qed

lemma ace_text_ends: "ace_text ty flags rights sid \<noteq> []" "last (ace_text ty flags rights sid) = 41" "hd (ace_text ty flags rights sid) = 40"
  by (simp_all add: ace_text_def)

lemma ace_text_colon:
  "field_text ty \<Longrightarrow> field_text flags \<Longrightarrow> field_text rights \<Longrightarrow> field_text sid \<Longrightarrow> no_colon (ace_text ty flags rights sid)"
  by (simp add: ace_text_def ace_inner_def field_text_colon is_colon_def)


subsection \<open>Descriptors\<close>

text \<open>An entry with its mask in hexadecimal digits, as Windows writes masks without a name.\<close>

definition written_ace :: "ace \<Rightarrow> jstring" where
  "written_ace a = ace_text (ace_type a) (concat (ace_flags a)) (js ''0x'' @ hex_of (unat (ace_rights a))) (ace_sid a)"

definition written_dacl :: "dacl \<Rightarrow> (cu \<times> jstring) list" where
  "written_dacl d =
     (case d of Absent_dacl \<Rightarrow> []
      | Null_dacl \<Rightarrow> [(68, js ''NO_ACCESS_CONTROL'')]
      | Dacl protected aces \<Rightarrow> [(68, (if protected then js ''P'' else []) @ concat (map written_ace aces))])"

definition written_descriptor :: "descriptor \<Rightarrow> jstring" where
  "written_descriptor d =
     assemble ((case sd_owner d of None \<Rightarrow> [] | Some sid \<Rightarrow> [(79, sid)]) @ written_dacl (sd_dacl d)
               @ (if sd_labels d = [] then [] else [(83, concat (map written_ace (sd_labels d)))]))"

definition ace_ok :: "ace \<Rightarrow> bool" where
  "ace_ok a \<longleftrightarrow> field_text (ace_type a) \<and> full_sid (ace_sid a)
     \<and> list_all (\<lambda>f. length f = 2 \<and> field_text f \<and> list_all (\<lambda>c. \<not> line_end c) f) (ace_flags a)"

text \<open>
  Something is in the descriptor, labels are labels, and an empty list that is not protected stands last: the
  reader does not see a part that follows it at once.
\<close>

definition descriptor_ok :: "descriptor \<Rightarrow> bool" where
  "descriptor_ok d \<longleftrightarrow>
     (case sd_owner d of None \<Rightarrow> sd_dacl d \<noteq> Absent_dacl \<or> sd_labels d \<noteq> [] | Some sid \<Rightarrow> full_sid sid)
     \<and> (case sd_dacl d of Dacl protected aces \<Rightarrow> list_all ace_ok aces \<and> (aces = [] \<and> \<not> protected \<longrightarrow> sd_labels d = []) | _ \<Rightarrow> True)
     \<and> list_all (\<lambda>a. ace_ok a \<and> ace_type a = js ''ML'') (sd_labels d)"

lemma pairs_of_flags:
  "list_all (\<lambda>f. length f = 2 \<and> field_text f \<and> list_all (\<lambda>c. \<not> line_end c) f) fs \<Longrightarrow> pairs_of (concat fs) = fs"
proof (induction fs)
  case Nil
  then show ?case by simp
next
  case (Cons f fs)
  then obtain a b where "f = [a, b]"
    by (auto simp: numeral_2_eq_2 length_Suc_conv)
  then show ?case using Cons by simp
qed

lemma nearest_double_small: "n < 2 ^ 53 \<Longrightarrow> nearest_double n = n"
  by (simp add: nearest_double_def)

lemma parseRights_hex: "parseRights (js ''0x'' @ hex_of (unat r)) label = Inr r"
proof -
  have "int (unat r) < 2 ^ 53"
    using uint_lt2p [of r] by simp
  then show ?thesis
    using hex_of_writes [of "unat r"]
    by (simp add: parseRights_def js_simps starts_with_def nearest_double_small)
qed

lemma hex_field: "field_text (hex_of n)"
proof -
  have "\<not> semicolon c \<and> c \<noteq> 40 \<and> c \<noteq> 41 \<and> \<not> is_colon c" if "is_hex c" for c
    using that by (auto simp: is_hex_def is_digit_def semicolon_def is_colon_def)
  then show ?thesis
    using hex_of_writes [of n] by (auto simp: field_text_def list_all_iff)
qed

lemma field_text_concat: "list_all field_text fs \<Longrightarrow> field_text (concat fs)"
  by (induction fs) auto

lemma written_ace_fields:
  "ace_ok a \<Longrightarrow> field_text (ace_type a) \<and> field_text (concat (ace_flags a)) \<and> field_text (js ''0x'' @ hex_of (unat (ace_rights a)))
     \<and> field_text (ace_sid a)"
  using full_sid_field [of "ace_sid a"] field_text_concat [of "ace_flags a"]
  by (simp add: ace_ok_def hex_field js_simps semicolon_def is_colon_def list_all_iff)

lemma parseAces_written: "list_all ace_ok aces \<Longrightarrow> parseAces (concat (map written_ace aces)) = Inr aces"
proof (induction aces)
  case Nil
  then show ?case by simp
next
  case (Cons a aces)
  then have ok: "ace_ok a" by simp
  then have "pairs_of (concat (ace_flags a)) = ace_flags a"
    by (intro pairs_of_flags) (simp add: ace_ok_def)
  then have "parse_ace (ace_inner (ace_type a) (concat (ace_flags a)) (js ''0x'' @ hex_of (unat (ace_rights a))) (ace_sid a)) = Inr a"
    using ok written_ace_fields [OF ok] parse_ace_inner parseRights_hex by (simp add: ace_ok_def)
  then show ?case
    using Cons written_ace_fields [OF ok] by (simp add: written_ace_def parseAces_text)
qed

lemma written_aces_shape:
  assumes "list_all ace_ok aces"
  shows "no_colon (concat (map written_ace aces))"
    "aces \<noteq> [] \<Longrightarrow> concat (map written_ace aces) \<noteq> []"
    "aces \<noteq> [] \<Longrightarrow> last (concat (map written_ace aces)) = 41"
    "aces \<noteq> [] \<Longrightarrow> hd (concat (map written_ace aces)) = 40"
proof -
  show "no_colon (concat (map written_ace aces))"
    using assms written_ace_fields by (induction aces) (auto simp: written_ace_def ace_text_colon)
  have ne: "written_ace a \<noteq> []" "last (written_ace a) = 41" "hd (written_ace a) = 40" for a
    by (simp_all add: written_ace_def ace_text_ends)
  show "aces \<noteq> [] \<Longrightarrow> concat (map written_ace aces) \<noteq> []"
    using ne by (cases aces) auto
  show "aces \<noteq> [] \<Longrightarrow> hd (concat (map written_ace aces)) = 40"
    using ne by (cases aces) auto
  show "aces \<noteq> [] \<Longrightarrow> last (concat (map written_ace aces)) = 41"
    using ne by (cases aces rule: rev_cases) auto
qed

lemma before_open: "40 \<notin> set p \<Longrightarrow> t = [] \<or> hd t = 40 \<Longrightarrow> before 40 (p @ t) = p"
  by (cases t) (auto simp: before_def takeWhile_append)

lemma parse_dacl_text:
  assumes "t = [] \<or> hd t = 40"
  shows "parse_dacl (Some ((if protected then js ''P'' else []) @ t)) =
    (case parseAces t of Inl e \<Rightarrow> Inl e | Inr aces \<Rightarrow> Inr (Dacl protected aces))"
proof -
  let ?p = "if protected then js ''P'' else []"
  have "before 40 (?p @ t) = ?p"
    using assms by (intro before_open) (auto simp: js_simps)
  moreover have "\<not> sublist (js ''NO_ACCESS_CONTROL'') ?p"
    by (auto simp: js_simps dest: sublist_length_le)
  ultimately show ?thesis
    by (simp add: parse_dacl_def js_simps split: sum.split)
qed

lemma parse_labels_text:
  assumes "t = [] \<or> hd t = 40"
  shows "parse_labels (Some t) =
    (case parseAces t of Inl e \<Rightarrow> Inl e | Inr aces \<Rightarrow> Inr (filter (\<lambda>a. ace_type a = js ''ML'') aces))"
  using before_open [of "[]" t] assms by (simp add: parse_labels_def)


lemma written_dacl_apart:
  assumes "parts_apart l"
    and "\<And>protected aces. dacl = Dacl protected aces \<Longrightarrow> list_all ace_ok aces \<and> (aces = [] \<and> \<not> protected \<longrightarrow> l = [])"
  shows "parts_apart (written_dacl dacl @ l)"
proof (cases dacl)
  case (Dacl protected aces)
  define t where "t = concat (map written_ace aces)"
  have ok: "list_all ace_ok aces" "aces = [] \<and> \<not> protected \<longrightarrow> l = []"
    using assms(2) [OF Dacl] by auto
  have "no_colon t" "aces \<noteq> [] \<Longrightarrow> t \<noteq> [] \<and> last t = 41" "aces = [] \<Longrightarrow> t = []"
    using written_aces_shape(1-3) [OF ok(1)] by (auto simp: t_def)
  then show ?thesis
    using assms(1) ok(2)
    by (cases "aces = []")
      (auto simp: written_dacl_def Dacl t_def [symmetric] tag_char_def text_eval ends_part_def is_upper_def is_colon_def)
qed (use assms(1) in \<open>auto simp: written_dacl_def tag_char_def text_eval ends_part_def is_upper_def is_colon_def\<close>)

lemma parse_dacl_written:
  assumes "\<And>protected aces. dacl = Dacl protected aces \<Longrightarrow> list_all ace_ok aces"
  shows "parse_dacl (map_of (written_dacl dacl) 68) = Inr dacl"
proof (cases dacl)
  case Null_dacl
  have "parse_dacl (Some (js ''NO_ACCESS_CONTROL'')) = Inr Null_dacl"
    by code_simp
  with Null_dacl show ?thesis by (simp add: written_dacl_def)
next
  case (Dacl protected aces)
  have "parse_dacl (Some ((if protected then js ''P'' else []) @ concat (map written_ace aces))) = Inr dacl"
    using assms [OF Dacl] written_aces_shape(4) [of aces]
    by (subst parse_dacl_text) (cases "aces = []"; auto simp: parseAces_written Dacl)+
  then show ?thesis by (simp add: written_dacl_def Dacl)
qed (simp add: written_dacl_def parse_dacl_def)

text \<open>The reader gives back every descriptor from the text that stands for it.\<close>

theorem parseSddl_reads_back:
  assumes "descriptor_ok d"
  shows "parseSddl (written_descriptor d) = Inr d"
proof -
  let ?o = "case sd_owner d of None \<Rightarrow> [] | Some sid \<Rightarrow> [(79, sid)]"
  let ?l = "if sd_labels d = [] then [] else [(83 :: cu, concat (map written_ace (sd_labels d)))]"
  let ?parts = "?o @ written_dacl (sd_dacl d) @ ?l"
  have labels: "list_all ace_ok (sd_labels d)" "filter (\<lambda>a. ace_type a = js ''ML'') (sd_labels d) = sd_labels d"
    using assms by (auto simp: descriptor_ok_def list_all_iff filter_id_conv)
  have l: "parts_apart ?l"
    using written_aces_shape(1) [OF labels(1)] by (simp add: tag_char_def text_eval)
  have "parts_apart (written_dacl (sd_dacl d) @ ?l)"
    using assms by (intro written_dacl_apart [OF l]) (auto simp: descriptor_ok_def)
  then have "parts_apart ?parts"
    using assms full_sid_text full_sid_field field_text_colon
    by (auto simp: descriptor_ok_def tag_char_def text_eval ends_part_def split: option.split)
  moreover have "?parts \<noteq> []"
    using assms by (auto simp: descriptor_ok_def written_dacl_def split: option.splits dacl.splits)
  moreover have "distinct (map fst ?parts)"
    by (auto simp: written_dacl_def split: option.splits dacl.splits)
  moreover have "map_of ?parts 79 = sd_owner d" "map_of ?parts 83 = map_of ?l 83" "map_of ?parts 68 = map_of (written_dacl (sd_dacl d)) 68"
    by (auto simp: written_dacl_def map_add_def split: option.splits dacl.splits)
  moreover have "parse_dacl (map_of (written_dacl (sd_dacl d)) 68) = Inr (sd_dacl d)"
    using assms by (intro parse_dacl_written) (auto simp: descriptor_ok_def)
  moreover have "parse_labels (map_of ?l 83) = Inr (sd_labels d)"
    using labels written_aces_shape(4) [OF labels(1)]
    by (simp add: parse_labels_text parseAces_written) (simp add: parse_labels_def)
  moreover have "map_option sidOf (sd_owner d) = sd_owner d"
    using assms by (auto simp: descriptor_ok_def split: option.splits)
  ultimately have "parseSddl (assemble ?parts) =
      Inr \<lparr>sd_owner = sd_owner d, sd_dacl = sd_dacl d, sd_labels = sd_labels d\<rparr>"
    using parseSddl_assemble [of ?parts] by (simp only: sum.case simp_thms)
  then show ?thesis by (simp add: written_descriptor_def)
qed


lemma parseSddl_reads_back_example:
  "parseSddl (written_descriptor \<lparr>sd_owner = Some SYSTEM,
     sd_dacl = Dacl True [\<lparr>ace_type = js ''A'', ace_flags = [js ''OI'', js ''CI''], ace_rights = 0x1301bf, ace_sid = SYSTEM\<rparr>],
     sd_labels = [\<lparr>ace_type = js ''ML'', ace_flags = [], ace_rights = 3, ace_sid = js ''S-1-16-8192''\<rparr>]\<rparr>)
   = Inr \<lparr>sd_owner = Some SYSTEM,
     sd_dacl = Dacl True [\<lparr>ace_type = js ''A'', ace_flags = [js ''OI'', js ''CI''], ace_rights = 0x1301bf, ace_sid = SYSTEM\<rparr>],
     sd_labels = [\<lparr>ace_type = js ''ML'', ace_flags = [], ace_rights = 3, ace_sid = js ''S-1-16-8192''\<rparr>]\<rparr>"
  by (rule parseSddl_reads_back) code_simp

section \<open>What the daemon writes\<close>

lemma lockedPipe_parts:
  "lockedPipeSddl user =
     assemble [(79, user), (68, js ''P'' @ ace_text (js ''A'') [] (js ''GA'') user),
               (83, ace_text (js ''ML'') [] (js ''NWNR'') (js ''ME''))]"
  by (simp add: lockedPipeSddl_def ace_text_def ace_inner_def js_simps)

lemma privateDirectory_parts:
  "privateDirectorySddl user =
     assemble [(79, user),
               (68, js ''P'' @ ace_text (js ''A'') (js ''OICI'') (js ''FA'') user @ ace_text (js ''A'') (js ''OICI'') (js ''FA'') (js ''SY'')),
               (83, ace_text (js ''ML'') (js ''OICI'') (js ''NRNW'') (js ''ME''))]"
  by (simp add: privateDirectorySddl_def ace_text_def ace_inner_def js_simps)

lemma plain_fields [simp]:
  "field_text (js ''A'')" "field_text (js ''ML'')" "field_text (js ''OICI'')" "field_text (js ''GA'')" "field_text (js ''FA'')"
  "field_text (js ''NWNR'')" "field_text (js ''NRNW'')" "field_text (js ''ME'')" "field_text (js ''SY'')"
  by (simp_all add: js_simps semicolon_def is_colon_def)

lemma plain_rights [simp]:
  "parseRights (js ''GA'') False = Inr GENERIC_ALL" "parseRights (js ''FA'') False = Inr FILE_ALL_ACCESS"
  "parseRights (js ''NWNR'') True = Inr 3" "parseRights (js ''NRNW'') True = Inr 3"
  by code_simp+

lemma plain_flags [simp]: "pairs_of (js ''OICI'') = [js ''OI'', js ''CI'']"
  by code_simp

lemma plain_sids [simp]: "sidOf (js ''SY'') = SYSTEM" "sidOf (js ''ME'') = js ''S-1-16-8192''"
  by code_simp+

text \<open>One entry, then the rest.\<close>

lemma parseAces_entry:
  assumes "field_text ty" "field_text flags" "field_text rights" "field_text sid" "concat (pairs_of flags) = flags"
    "parseRights rights (ty = js ''ML'') = Inr r"
  shows "parseAces (ace_text ty flags rights sid @ rest) =
    (case parseAces rest of Inl e \<Rightarrow> Inl e
     | Inr aces \<Rightarrow> Inr (\<lparr>ace_type = ty, ace_flags = pairs_of flags, ace_rights = r, ace_sid = sidOf sid\<rparr> # aces))"
  using parseAces_text [OF assms(1-4) parse_ace_inner [OF assms]] .

lemma parse_lockedPipe:
  assumes "full_sid user"
  shows "parseSddl (lockedPipeSddl user) = Inr \<lparr>sd_owner = Some user,
     sd_dacl = Dacl True [\<lparr>ace_type = js ''A'', ace_flags = [], ace_rights = GENERIC_ALL, ace_sid = user\<rparr>],
     sd_labels = [\<lparr>ace_type = js ''ML'', ace_flags = [], ace_rights = 3, ace_sid = js ''S-1-16-8192''\<rparr>]\<rparr>"
proof -
  have a: "parse_dacl (Some (js ''P'' @ ace_text (js ''A'') [] (js ''GA'') user)) =
      Inr (Dacl True [\<lparr>ace_type = js ''A'', ace_flags = [], ace_rights = GENERIC_ALL, ace_sid = user\<rparr>])"
    using parse_dacl_text [of "ace_text (js ''A'') [] (js ''GA'') user" True]
      parseAces_entry [of "js ''A''" "[]" "js ''GA''" user GENERIC_ALL "[]"] full_sid_field [OF assms] assms
    by (simp add: ace_text_ends)
  have l: "parse_labels (Some (ace_text (js ''ML'') [] (js ''NWNR'') (js ''ME''))) =
      Inr [\<lparr>ace_type = js ''ML'', ace_flags = [], ace_rights = 3, ace_sid = js ''S-1-16-8192''\<rparr>]"
    using parse_labels_text [of "ace_text (js ''ML'') [] (js ''NWNR'') (js ''ME'')"]
      parseAces_entry [of "js ''ML''" "[]" "js ''NWNR''" "js ''ME''" 3 "[]"]
    by (simp add: ace_text_ends)
  show ?thesis
    unfolding lockedPipe_parts
    using full_sid_field [OF assms] full_sid_text [OF assms] assms a l
    by (subst parseSddl_assemble)
      (simp_all add: tag_char_def text_eval ends_part_def is_upper_def is_colon_def semicolon_def ace_text_ends ace_text_colon field_text_colon)
qed


lemma parse_privateDirectory:
  assumes "full_sid user"
  shows "parseSddl (privateDirectorySddl user) = Inr \<lparr>sd_owner = Some user,
     sd_dacl = Dacl True
       [\<lparr>ace_type = js ''A'', ace_flags = [js ''OI'', js ''CI''], ace_rights = FILE_ALL_ACCESS, ace_sid = user\<rparr>,
        \<lparr>ace_type = js ''A'', ace_flags = [js ''OI'', js ''CI''], ace_rights = FILE_ALL_ACCESS, ace_sid = SYSTEM\<rparr>],
     sd_labels = [\<lparr>ace_type = js ''ML'', ace_flags = [js ''OI'', js ''CI''], ace_rights = 3, ace_sid = js ''S-1-16-8192''\<rparr>]\<rparr>"
proof -
  let ?f = "js ''OICI''"
  have s: "concat (pairs_of ?f) = ?f" by code_simp
  have "parseAces (ace_text (js ''A'') ?f (js ''FA'') (js ''SY'')) =
      Inr [\<lparr>ace_type = js ''A'', ace_flags = [js ''OI'', js ''CI''], ace_rights = FILE_ALL_ACCESS, ace_sid = SYSTEM\<rparr>]"
    using parseAces_entry [OF _ _ _ _ s, of "js ''A''" "js ''FA''" "js ''SY''" FILE_ALL_ACCESS "[]"] by simp
  then have "parseAces (ace_text (js ''A'') ?f (js ''FA'') user @ ace_text (js ''A'') ?f (js ''FA'') (js ''SY'')) =
      Inr [\<lparr>ace_type = js ''A'', ace_flags = [js ''OI'', js ''CI''], ace_rights = FILE_ALL_ACCESS, ace_sid = user\<rparr>,
           \<lparr>ace_type = js ''A'', ace_flags = [js ''OI'', js ''CI''], ace_rights = FILE_ALL_ACCESS, ace_sid = SYSTEM\<rparr>]"
    using parseAces_entry [OF _ _ _ _ s, of "js ''A''" "js ''FA''" user FILE_ALL_ACCESS] full_sid_field [OF assms] assms by simp
  then have a: "parse_dacl (Some (js ''P'' @ ace_text (js ''A'') ?f (js ''FA'') user @ ace_text (js ''A'') ?f (js ''FA'') (js ''SY''))) =
      Inr (Dacl True [\<lparr>ace_type = js ''A'', ace_flags = [js ''OI'', js ''CI''], ace_rights = FILE_ALL_ACCESS, ace_sid = user\<rparr>,
        \<lparr>ace_type = js ''A'', ace_flags = [js ''OI'', js ''CI''], ace_rights = FILE_ALL_ACCESS, ace_sid = SYSTEM\<rparr>])"
    using parse_dacl_text [of "ace_text (js ''A'') ?f (js ''FA'') user @ ace_text (js ''A'') ?f (js ''FA'') (js ''SY'')" True]
    by (simp add: ace_text_ends)
  have l: "parse_labels (Some (ace_text (js ''ML'') ?f (js ''NRNW'') (js ''ME''))) =
      Inr [\<lparr>ace_type = js ''ML'', ace_flags = [js ''OI'', js ''CI''], ace_rights = 3, ace_sid = js ''S-1-16-8192''\<rparr>]"
    using parse_labels_text [of "ace_text (js ''ML'') ?f (js ''NRNW'') (js ''ME'')"]
      parseAces_entry [OF _ _ _ _ s, of "js ''ML''" "js ''NRNW''" "js ''ME''" 3 "[]"]
    by (simp add: ace_text_ends)
  show ?thesis
    unfolding privateDirectory_parts
    using full_sid_field [OF assms] full_sid_text [OF assms] assms a l
    by (subst parseSddl_assemble)
      (simp_all add: tag_char_def text_eval ends_part_def is_upper_def is_colon_def semicolon_def ace_text_ends ace_text_colon field_text_colon)
qed

section \<open>What the decisions mean\<close>

text \<open>The rights that the entries of a list may give to someone with these identifiers; denials only take away.\<close>

definition ace_grant :: "jstring set \<Rightarrow> ace \<Rightarrow> access" where
  "ace_grant sids a = (if ace_type a = js ''A'' \<and> \<not> inheritOnly a \<and> ace_sid a \<in> sids then fileRights (ace_rights a) else 0)"

fun aces_grant :: "jstring set \<Rightarrow> ace list \<Rightarrow> access" where
  "aces_grant sids [] = 0"
| "aces_grant sids (a # aces) = ace_grant sids a OR aces_grant sids aces"

definition may_access :: "jstring set \<Rightarrow> descriptor option \<Rightarrow> access" where
  "may_access sids descr =
     (case descr of None \<Rightarrow> 0
      | Some d \<Rightarrow> (case sd_dacl d of Absent_dacl \<Rightarrow> 0 | Null_dacl \<Rightarrow> FILE_ALL_ACCESS | Dacl _ aces \<Rightarrow> aces_grant sids aces))"

text \<open>
  Someone can put another directory in the place of a child: change its security or its owner, or what is in it,
  or remove or rename it and make another one.
\<close>

definition can_replace :: "jstring set \<Rightarrow> descriptor \<Rightarrow> descriptor option \<Rightarrow> bool" where
  "can_replace sids child parent \<longleftrightarrow>
     may_access sids (Some child) AND (WRITE_DAC OR WRITE_OWNER OR FILE_DELETE_CHILD) \<noteq> 0
     \<or> (may_access sids (Some child) AND DELETE \<noteq> 0 \<or> may_access sids parent AND FILE_DELETE_CHILD \<noteq> 0)
       \<and> may_access sids parent AND (FILE_ADD_FILE OR FILE_ADD_SUBDIRECTORY) \<noteq> 0"

lemma first_some_None: "first_some xs = None \<longleftrightarrow> list_all (\<lambda>x. x = None) xs"
  by (induction xs) (auto split: option.splits)

lemma aces_grant_none: "list_all (\<lambda>a. ace_grant sids a = 0) aces \<Longrightarrow> aces_grant sids aces = 0"
  by (induction aces) auto

lemma private_grants_none:
  assumes "privateDescriptorProblem d user owners = None" "user \<notin> sids" "SYSTEM \<notin> sids"
  shows "may_access sids (Some d) = 0"
proof -
  obtain p aces where d: "sd_dacl d = Dacl p aces" and all: "list_all (\<lambda>a. private_ace user a = None) aces"
    using assms(1) by (auto simp: privateDescriptorProblem_def first_some_None list_all_iff split: if_splits dacl.splits)
  have "list_all (\<lambda>a. ace_grant sids a = 0) aces"
    using all assms(2,3) by (auto simp: list_all_iff private_ace_def ace_grant_def js_simps split: if_splits)
  then show ?thesis
    by (simp add: may_access_def d aces_grant_none)
qed

lemma locked_grants_none:
  assumes "lockedPipeProblem d user = None" "user \<notin> sids"
  shows "may_access sids (Some d) = 0"
  using assms by (auto simp: lockedPipeProblem_def may_access_def ace_grant_def split: if_splits dacl.splits list.splits bool.splits)

lemma locked_pipe_facts:
  "integrityRid (js ''S-1-16-8192'') = Some MEDIUM_INTEGRITY" "fileRights GENERIC_ALL = FILE_ALL_ACCESS"
  "(3 :: access) AND (LABEL_NO_READ_UP OR LABEL_NO_WRITE_UP) = LABEL_NO_READ_UP OR LABEL_NO_WRITE_UP"
  "(3 :: access) = LABEL_NO_READ_UP OR LABEL_NO_WRITE_UP"
  by code_simp+

text \<open>
  C27. What the daemon writes on its directory and its pipe reads back as it demands, and what passes its checks
  gives nothing to anyone who is neither the user nor the system.
\<close>

theorem private_to_user:
  assumes "full_sid user" "user \<in> set owners"
  shows "(\<exists>pipe dir. parseSddl (lockedPipeSddl user) = Inr pipe \<and> lockedPipeProblem pipe user = None
            \<and> parseSddl (privateDirectorySddl user) = Inr dir \<and> privateDescriptorProblem dir user owners = None)
    \<and> (lockedPipeProblem d user = None \<or> privateDescriptorProblem d user owners = None \<longrightarrow>
         user \<notin> sids \<and> SYSTEM \<notin> sids \<longrightarrow> may_access sids (Some d) = 0)"
proof -
  have "user \<noteq> []" using assms(1) by auto
  then show ?thesis
    using parse_lockedPipe [OF assms(1)] parse_privateDirectory [OF assms(1)] assms(2) private_grants_none [of d user owners sids]
      locked_grants_none [of d user sids]
    by (auto simp: lockedPipeProblem_def privateDescriptorProblem_def owner_among_def private_ace_def private_label_def locked_pipe_facts)
qed


theorem private_to_user_witness:
  "\<exists>pipe dir. parseSddl (lockedPipeSddl (js ''S-1-5-21-1001'')) = Inr pipe
      \<and> lockedPipeProblem pipe (js ''S-1-5-21-1001'') = None
      \<and> parseSddl (privateDirectorySddl (js ''S-1-5-21-1001'')) = Inr dir
      \<and> privateDescriptorProblem dir (js ''S-1-5-21-1001'') [js ''S-1-5-21-1001''] = None"
proof -
  have "full_sid (js ''S-1-5-21-1001'')" by code_simp
  then show ?thesis
    using private_to_user [of "js ''S-1-5-21-1001''" "[js ''S-1-5-21-1001'']"] by simp
qed

subsection \<open>Grants to strangers\<close>

lemma grant_of_add [simp]: "grant_of (add_grant sid r g) s = (if s = sid then grant_of g s OR r else grant_of g s)"
  by (induction sid r g rule: add_grant.induct) (auto simp: grant_of_def)

lemma add_grant_keys [simp]: "fst ` set (add_grant sid r g) = insert sid (fst ` set g)"
  by (induction sid r g rule: add_grant.induct) auto

lemma add_grant_distinct: "distinct (map fst g) \<Longrightarrow> distinct (map fst (add_grant sid r g))"
  by (induction sid r g rule: add_grant.induct) (simp_all, metis)

lemma grants_fold:
  "distinct (map fst g) \<and> fst ` set g \<inter> set trusted = {} \<Longrightarrow>
   distinct (map fst (foldl (grant_ace trusted) g aces)) \<and> fst ` set (foldl (grant_ace trusted) g aces) \<inter> set trusted = {}
   \<and> fst ` set (foldl (grant_ace trusted) g aces) \<subseteq> fst ` set g \<union> ace_sid ` set aces
   \<and> (\<forall>s. s \<notin> set trusted \<longrightarrow> grant_of (foldl (grant_ace trusted) g aces) s = grant_of g s OR aces_grant {s} aces)"
proof (induction aces arbitrary: g)
  case Nil
  then show ?case by simp
next
  case (Cons a aces)
  have g: "distinct (map fst (grant_ace trusted g a)) \<and> fst ` set (grant_ace trusted g a) \<inter> set trusted = {}"
    using Cons.prems by (auto simp: grant_ace_def add_grant_distinct)
  have k: "fst ` set (grant_ace trusted g a) \<subseteq> insert (ace_sid a) (fst ` set g)"
    by (auto simp: grant_ace_def)
  have v: "grant_of (grant_ace trusted g a) s = grant_of g s OR ace_grant {s} a" if "s \<notin> set trusted" for s
    using that by (auto simp: grant_ace_def ace_grant_def)
  note IH = Cons.IH [OF g]
  have "fst ` set (foldl (grant_ace trusted) g (a # aces)) \<subseteq> fst ` set g \<union> ace_sid ` set (a # aces)"
    using IH k by (simp only: foldl_Cons list.set image_insert) blast
  then show ?case
    using IH v by (simp add: or.assoc)
qed

lemma sidOf_not_star: "sidOf v \<noteq> js ''*''"
proof -
  have "list_all (\<lambda>(a, s). s \<noteq> js ''*'') sid_aliases" by code_simp
  then have "map_of sid_aliases v = Some s \<Longrightarrow> s \<noteq> js ''*''" for s
    by (auto simp: list_all_iff dest!: map_of_SomeD)
  moreover have "\<not> full_sid (js ''*'')" by code_simp
  ultimately show ?thesis
    by (auto simp: sidOf_def js_simps split: option.split)
qed


text \<open>What the two loops look for, said of every stranger instead of every entry of the maps.\<close>

definition control_problem :: "access \<Rightarrow> access \<Rightarrow> bool" where
  "control_problem rights parentRights \<longleftrightarrow>
     rights AND (WRITE_DAC OR WRITE_OWNER OR FILE_DELETE_CHILD) \<noteq> 0
     \<or> rights AND DELETE \<noteq> 0 \<and> parentRights AND (FILE_ADD_FILE OR FILE_ADD_SUBDIRECTORY) \<noteq> 0"

lemma all_grants:
  assumes "distinct (map fst g)" "fst ` set g \<inter> set trusted = {}" "\<And>sid. \<not> P sid 0"
  shows "list_all (\<lambda>(sid, r). \<not> P sid r) g \<longleftrightarrow> (\<forall>sid. sid \<notin> set trusted \<longrightarrow> \<not> P sid (grant_of g sid))"
proof -
  have m: "(sid, r) \<in> set g \<Longrightarrow> grant_of g sid = r" for sid r
    using assms(1) by (simp add: grant_of_def)
  have z: "sid \<notin> fst ` set g \<Longrightarrow> grant_of g sid = 0" for sid
    by (simp add: grant_of_def flip: map_of_eq_None_iff)
  show ?thesis
  proof
    assume l: "list_all (\<lambda>(sid, r). \<not> P sid r) g"
    show "\<forall>sid. sid \<notin> set trusted \<longrightarrow> \<not> P sid (grant_of g sid)"
    proof (intro allI impI)
      fix sid
      show "\<not> P sid (grant_of g sid)"
        using l m z assms(3) by (cases "sid \<in> fst ` set g") (auto simp: list_all_iff)
    qed
  next
    assume r: "\<forall>sid. sid \<notin> set trusted \<longrightarrow> \<not> P sid (grant_of g sid)"
    have "\<not> P sid q" if "(sid, q) \<in> set g" for sid q
      using r m [OF that] assms(2) that by (metis disjoint_iff fst_conv image_eqI)
    then show "list_all (\<lambda>(sid, r). \<not> P sid r) g"
      by (auto simp: list_all_iff)
  qed
qed

lemma child_problem_None:
  "child_problem pg (sid, r) = None \<longleftrightarrow> \<not> control_problem r (grant_of pg sid OR grant_of pg (js ''*''))"
  by (simp add: child_problem_def control_problem_def Let_def)

lemma parent_problem_None:
  "parent_problem (sid, r) = None \<longleftrightarrow>
     \<not> (sid \<noteq> js ''*'' \<and> r AND FILE_DELETE_CHILD \<noteq> 0 \<and> r AND (FILE_ADD_FILE OR FILE_ADD_SUBDIRECTORY) \<noteq> 0)"
  by (simp add: parent_problem_def)

lemma grants_list:
  assumes "sd_dacl d = Dacl p aces"
  shows "distinct (map fst (grants trusted (Some d)))" "fst ` set (grants trusted (Some d)) \<inter> set trusted = {}"
    "sid \<notin> set trusted \<Longrightarrow> grant_of (grants trusted (Some d)) sid = may_access {sid} (Some d)"
    "fst ` set (grants trusted (Some d)) \<subseteq> ace_sid ` set aces"
  using grants_fold [of "[]" trusted aces] assms by (auto simp: grants_def may_access_def grant_of_def)


text \<open>The entries of a list that is there.\<close>

definition entries :: "descriptor \<Rightarrow> ace list" where
  "entries d = (case sd_dacl d of Dacl _ aces \<Rightarrow> aces | _ \<Rightarrow> [])"

definition star_free :: "descriptor option \<Rightarrow> bool" where
  "star_free parent \<longleftrightarrow> (case parent of None \<Rightarrow> True | Some q \<Rightarrow> js ''*'' \<notin> ace_sid ` set (entries q))"

definition null_list :: "descriptor option \<Rightarrow> bool" where
  "null_list parent \<longleftrightarrow> (case parent of None \<Rightarrow> False | Some q \<Rightarrow> sd_dacl q = Null_dacl)"

lemma strangers_grants:
  assumes "star_free parent" "\<not> null_list parent"
  shows "distinct (map fst (grants trusted parent))" "fst ` set (grants trusted parent) \<inter> set trusted = {}"
    "sid \<notin> set trusted \<Longrightarrow> grant_of (grants trusted parent) sid = may_access {sid} parent"
    "js ''*'' \<notin> fst ` set (grants trusted parent)"
proof -
  have "distinct (map fst (grants trusted parent)) \<and> fst ` set (grants trusted parent) \<inter> set trusted = {}
    \<and> (sid \<notin> set trusted \<longrightarrow> grant_of (grants trusted parent) sid = may_access {sid} parent)
    \<and> js ''*'' \<notin> fst ` set (grants trusted parent)"
  proof (cases "\<exists>q p aces. parent = Some q \<and> sd_dacl q = Dacl p aces")
    case True
    then obtain q p aces where q: "parent = Some q" "sd_dacl q = Dacl p aces" by blast
    have "js ''*'' \<notin> ace_sid ` set aces"
      using assms(1) q by (simp add: star_free_def entries_def)
    then have "js ''*'' \<notin> fst ` set (grants trusted parent)"
      using grants_list(4) [OF q(2)] unfolding q(1) by blast
    then show ?thesis
      using grants_list(1-3) [OF q(2), where trusted = trusted] unfolding q(1) by blast
  next
    case False
    then have "grants trusted parent = [] \<and> may_access {sid} parent = 0"
      using assms(2) by (auto simp: null_list_def grants_def may_access_def split: option.splits dacl.splits)
    then show ?thesis by (simp add: grant_of_def)
  qed
  then show "distinct (map fst (grants trusted parent))" "fst ` set (grants trusted parent) \<inter> set trusted = {}"
    "sid \<notin> set trusted \<Longrightarrow> grant_of (grants trusted parent) sid = may_access {sid} parent"
    "js ''*'' \<notin> fst ` set (grants trusted parent)"
    by blast+
qed

lemma star_free_zero: "js ''*'' \<notin> fst ` set g \<Longrightarrow> grant_of g (js ''*'') = 0"
  by (simp add: grant_of_def flip: map_of_eq_None_iff)

lemma null_parent:
  assumes "null_list parent"
  shows "ancestorProblem child parent user \<noteq> None" "can_replace sids child parent"
proof -
  obtain q where q: "parent = Some q" "sd_dacl q = Null_dacl"
    using assms by (auto simp: null_list_def split: option.splits)
  have full: "FILE_ALL_ACCESS AND FILE_DELETE_CHILD \<noteq> 0" "FILE_ALL_ACCESS AND (FILE_ADD_FILE OR FILE_ADD_SUBDIRECTORY) \<noteq> 0"
    by code_simp+
  show "can_replace sids child parent"
    using q full by (simp add: can_replace_def may_access_def)
  show "ancestorProblem child parent user \<noteq> None"
    using q full by (simp add: ancestorProblem_def Let_def grants_def grant_of_def split: option.split)
qed

lemma ancestor_list:
  assumes "star_free parent" "owner_among child (trustedSids user)" "sd_dacl child = Dacl p aces"
  shows "ancestorProblem child parent user = None \<longleftrightarrow> (\<forall>sid. sid \<notin> set (trustedSids user) \<longrightarrow> \<not> can_replace {sid} child parent)"
proof (cases "null_list parent")
  case True
  obtain sid where "sid \<notin> set (trustedSids user)"
    using ex_new_if_finite [OF infinite_UNIV_listI finite_set] by blast
  then show ?thesis
    using null_parent [OF True] by metis
next
  case False
  let ?t = "trustedSids user"
  let ?g = "grants ?t (Some child)" and ?p = "grants ?t parent"
  let ?strict = "\<lambda>sid r. sid \<noteq> js ''*'' \<and> r AND FILE_DELETE_CHILD \<noteq> 0 \<and> r AND (FILE_ADD_FILE OR FILE_ADD_SUBDIRECTORY) \<noteq> 0"
  note pg = strangers_grants [OF assms(1) False, where trusted = ?t] and g = grants_list [OF assms(3), where trusted = ?t]
  have star: "grant_of ?p (js ''*'') = 0" by (rule star_free_zero [OF pg(4)])
  have c: "child_problem ?p x = None \<longleftrightarrow> (case x of (sid, r) \<Rightarrow> \<not> control_problem r (grant_of ?p sid))" for x
    by (cases x) (simp add: child_problem_None star)
  have q: "parent_problem x = None \<longleftrightarrow> (case x of (sid, r) \<Rightarrow> \<not> ?strict sid r)" for x
    by (cases x) (simp add: parent_problem_None)
  have "ancestorProblem child parent user = None \<longleftrightarrow> first_some (map (child_problem ?p) ?g @ map parent_problem ?p) = None"
    using assms(2,3) by (simp add: ancestorProblem_def Let_def star split: option.split)
  also have "\<dots> \<longleftrightarrow> list_all (\<lambda>x. child_problem ?p x = None) ?g \<and> list_all (\<lambda>x. parent_problem x = None) ?p"
    by (auto simp: first_some_None list_all_iff)
  also have "\<dots> \<longleftrightarrow> list_all (\<lambda>(sid, r). \<not> control_problem r (grant_of ?p sid)) ?g \<and> list_all (\<lambda>(sid, r). \<not> ?strict sid r) ?p"
    unfolding c q ..
  also have "list_all (\<lambda>(sid, r). \<not> control_problem r (grant_of ?p sid)) ?g \<longleftrightarrow>
      (\<forall>sid. sid \<notin> set ?t \<longrightarrow> \<not> control_problem (grant_of ?g sid) (grant_of ?p sid))"
    by (rule all_grants [OF g(1,2)]) (simp add: control_problem_def)
  also have "list_all (\<lambda>(sid, r). \<not> ?strict sid r) ?p \<longleftrightarrow> (\<forall>sid. sid \<notin> set ?t \<longrightarrow> \<not> ?strict sid (grant_of ?p sid))"
    by (rule all_grants [OF pg(1,2)]) simp
  also have "((\<forall>sid. sid \<notin> set ?t \<longrightarrow> \<not> control_problem (grant_of ?g sid) (grant_of ?p sid)) \<and>
      (\<forall>sid. sid \<notin> set ?t \<longrightarrow> \<not> ?strict sid (grant_of ?p sid))) \<longleftrightarrow>
      (\<forall>sid. sid \<notin> set ?t \<longrightarrow> \<not> can_replace {sid} child parent)"
    using pg(3) g(3) star by (auto simp: can_replace_def control_problem_def)
  finally show ?thesis .
qed


lemma parsed_star_free:
  assumes "parseSddl t = Inr q"
  shows "star_free (Some q)"
proof -
  have ace: "parse_ace u = Inr a \<Longrightarrow> ace_sid a \<noteq> js ''*''" for u a
    using sidOf_not_star by (auto simp: parse_ace_def Let_def split: if_splits sum.splits)
  have "parseAces u = Inr aces \<Longrightarrow> js ''*'' \<notin> ace_sid ` set aces" for u aces
    using ace by (induction u arbitrary: aces rule: parseAces.induct) (fastforce split: if_splits sum.splits)+
  then have "parse_dacl part = Inr (Dacl p aces) \<Longrightarrow> js ''*'' \<notin> ace_sid ` set aces" for part p aces
    by (auto simp: parse_dacl_def Let_def split: option.splits if_splits sum.splits)
  then show ?thesis
    using assms
    by (fastforce simp: parseSddl_def star_free_def entries_def Let_def split: sum.splits if_splits dacl.split)
qed

lemma ancestor_problem_None:
  assumes "star_free parent"
  shows "ancestorProblem child parent user = None \<longleftrightarrow>
    owner_among child (trustedSids user) \<and> sd_dacl child \<noteq> Absent_dacl \<and> sd_dacl child \<noteq> Null_dacl
    \<and> (\<forall>sid. sid \<notin> set (trustedSids user) \<longrightarrow> \<not> can_replace {sid} child parent)"
  using ancestor_list [OF assms, of child user]
  by (cases "sd_dacl child") (auto simp: ancestorProblem_def Let_def)

text \<open>
  C21. A directory passes the check above it exactly when its owner is trusted, its list is there, and no
  identifier outside the trusted ones can replace it, on its own, in the directory above.
\<close>

theorem ancestor_not_replaced:
  assumes "\<And>q. parent = Some q \<Longrightarrow> \<exists>t. parseSddl t = Inr q"
  shows "ancestorProblem child parent user = None \<longleftrightarrow>
    owner_among child (trustedSids user) \<and> sd_dacl child \<noteq> Absent_dacl \<and> sd_dacl child \<noteq> Null_dacl
    \<and> (\<forall>sid. sid \<notin> set (trustedSids user) \<longrightarrow> \<not> can_replace {sid} child parent)"
  using assms parsed_star_free by (intro ancestor_problem_None) (cases parent; auto simp: star_free_def)

theorem ancestor_not_replaced_witness:
  "\<exists>child parent.
     parseSddl (js ''O:SYD:P(A;;0x10000;;;WD)'') = Inr child \<and> parseSddl (js ''O:SYD:AI(A;OICIIO;GA;;;WD)'') = Inr parent
     \<and> ancestorProblem child (Some parent) (js ''S-1-5-21-1001'') = None
     \<and> \<not> can_replace {js ''S-1-1-0''} child (Some parent)"
proof -
  let ?child = "\<lparr>sd_owner = Some SYSTEM,
    sd_dacl = Dacl True [\<lparr>ace_type = js ''A'', ace_flags = [], ace_rights = DELETE, ace_sid = js ''S-1-1-0''\<rparr>], sd_labels = []\<rparr>"
  let ?parent = "\<lparr>sd_owner = Some SYSTEM,
    sd_dacl = Dacl False [\<lparr>ace_type = js ''A'', ace_flags = [js ''OI'', js ''CI'', js ''IO''], ace_rights = GENERIC_ALL, ace_sid = js ''S-1-1-0''\<rparr>],
    sd_labels = []\<rparr>"
  have c: "parseSddl (js ''O:SYD:P(A;;0x10000;;;WD)'') = Inr ?child" by code_simp
  have p: "parseSddl (js ''O:SYD:AI(A;OICIIO;GA;;;WD)'') = Inr ?parent" by code_simp
  have n: "ancestorProblem ?child (Some ?parent) (js ''S-1-5-21-1001'') = None" by code_simp
  have s: "js ''S-1-1-0'' \<notin> set (trustedSids (js ''S-1-5-21-1001''))" by code_simp
  have "\<not> can_replace {js ''S-1-1-0''} ?child (Some ?parent)"
    using ancestor_not_replaced [of "Some ?parent" ?child "js ''S-1-5-21-1001''"] p n s by blast
  with c p n show ?thesis by blast
qed

text \<open>
  What every identifier lacks on its own, several lack together: a list gives to a group of identifiers what it gives
  to some of them. It is only where two different rights are needed that a group can do more than its members.
\<close>

lemma aces_grant_group:
  assumes "\<forall>sid \<in> sids. aces_grant {sid} aces AND m = 0"
  shows "aces_grant sids aces AND m = 0"
  using assms
proof (induction aces)
  case (Cons a aces)
  have each: "aces_grant {sid} aces AND m = 0" "ace_grant {sid} a AND m = 0" if "sid \<in> sids" for sid
    using Cons.prems that by (auto simp: bit.conj_disj_distrib2 or_eq_0_iff)
  then have "ace_grant sids a AND m = 0"
    using each(2) [of "ace_sid a"] by (auto simp: ace_grant_def)
  then show ?case
    using Cons.IH each(1) by (simp add: bit.conj_disj_distrib2)
qed simp

lemma may_access_group:
  assumes "sd_dacl d \<noteq> Null_dacl" "\<forall>sid \<in> sids. may_access {sid} (Some d) AND m = 0"
  shows "may_access sids (Some d) AND m = 0"
proof (cases "sd_dacl d")
  case (Dacl p aces)
  then show ?thesis
    using aces_grant_group [of sids aces m] assms(2) by (simp add: may_access_def)
qed (use assms(1) in \<open>simp_all add: may_access_def\<close>)

lemma ancestor_control_none:
  assumes "star_free parent" "ancestorProblem child parent user = None" "sids \<inter> set (trustedSids user) = {}"
  shows "may_access sids (Some child) AND (WRITE_DAC OR WRITE_OWNER OR FILE_DELETE_CHILD) = 0"
  using assms(2,3) unfolding ancestor_problem_None [OF assms(1)]
  by (intro may_access_group) (auto simp: can_replace_def)

text \<open>Two identifiers together can: the check follows each of them alone, and one person may have both.\<close>

lemma two_groups_replace:
  "\<exists>child parent.
     parseSddl (js ''O:SYD:P(A;;SD;;;WD)'') = Inr child \<and> parseSddl (js ''O:SYD:P(A;;DC;;;BU)'') = Inr parent
     \<and> ancestorProblem child (Some parent) (js ''S-1-5-21-1001'') = None
     \<and> can_replace {js ''S-1-1-0'', js ''S-1-5-32-545''} child (Some parent)"
proof -
  let ?child = "\<lparr>sd_owner = Some SYSTEM,
    sd_dacl = Dacl True [\<lparr>ace_type = js ''A'', ace_flags = [], ace_rights = DELETE, ace_sid = js ''S-1-1-0''\<rparr>], sd_labels = []\<rparr>"
  let ?parent = "\<lparr>sd_owner = Some SYSTEM,
    sd_dacl = Dacl True [\<lparr>ace_type = js ''A'', ace_flags = [], ace_rights = 2, ace_sid = js ''S-1-5-32-545''\<rparr>], sd_labels = []\<rparr>"
  have "parseSddl (js ''O:SYD:P(A;;SD;;;WD)'') = Inr ?child" by code_simp
  moreover have "parseSddl (js ''O:SYD:P(A;;DC;;;BU)'') = Inr ?parent" by code_simp
  moreover have "ancestorProblem ?child (Some ?parent) (js ''S-1-5-21-1001'') = None" by code_simp
  moreover have "can_replace {js ''S-1-1-0'', js ''S-1-5-32-545''} ?child (Some ?parent)" by code_simp
  ultimately show ?thesis by blast
qed

end
