(* ===== verification/PrivateLayout.thy ===== *)
theory PrivateLayout
  imports Descriptors
begin

text \<open>
  Where the daemon keeps its files on Windows (\<open>packages/cli/src/server/win32-layout.ts\<close>) and how it locks its pipe
  (\<open>win32-platform.ts\<close>): the checks of the directories, which rest on \<open>Descriptors\<close>. The calls of the operating
  system are parameters, and \<open>None\<close> is an exception of theirs.
\<close>

datatype entry_kind = Directory_entry | File_entry | Link_entry | Other_entry

record windows_host =
  wh_lstat :: "jstring \<Rightarrow> entry_kind option"
  wh_attributes :: "jstring \<Rightarrow> access option"
  wh_sddl :: "jstring \<Rightarrow> jstring option"
  wh_dirname :: "jstring \<Rightarrow> jstring"

datatype layout_error = Host_error | Sddl_error sddl_error | Unavailable jstring | Not_private jstring | Not_locked jstring

section \<open>Names, drives and integrity\<close>

text \<open>\<open>/^\\\\\.\\pipe\\amira-[0-9a-f]{32}$/\<close>.\<close>

definition lower_hex_digit :: "cu \<Rightarrow> bool" where
  "lower_hex_digit c \<longleftrightarrow> is_digit c \<or> (97 \<le> c \<and> c \<le> 102)"

definition pipe_prefix :: jstring where
  "pipe_prefix = [cBSL, cBSL] @ js ''.'' @ [cBSL] @ js ''pipe'' @ [cBSL] @ js ''amira-''"

definition validPipeName :: "jstring \<Rightarrow> bool" where
  "validPipeName value \<longleftrightarrow>
     starts_with value pipe_prefix
     \<and> length (drop (length pipe_prefix) value) = 32 \<and> list_all lower_hex_digit (drop (length pipe_prefix) value)"

definition DRIVE_REMOTE :: int where "DRIVE_REMOTE = 4"

definition drive_path :: "jstring \<Rightarrow> bool" where
  "drive_path p \<longleftrightarrow> (case p of a # b # c # _ \<Rightarrow> is_alpha a \<and> is_colon b \<and> c = cBSL | _ \<Rightarrow> False)"

text \<open>The first letter of a drive path is a letter of ASCII.\<close>

definition windowsWorkspace :: "jstring \<Rightarrow> (jstring \<Rightarrow> int) \<Rightarrow> layout_error + jstring" where
  "windowsWorkspace real typeOfDrive =
     (if \<not> drive_path real then Inl (Unavailable (js ''network''))
      else let workspace = (if is_lower (hd real) then hd real - 32 else hd real) # tl real;
               type = typeOfDrive (take 3 workspace)
           in if type = DRIVE_REMOTE \<or> type < 2 then Inl (Unavailable (js ''network'')) else Inr workspace)"

text \<open>The operation fails with a code or gives a result, each time it is tried; the pause between is left out.\<close>

definition busyCodes :: "jstring list" where
  "busyCodes = [js ''EPERM'', js ''EBUSY'', js ''EACCES'']"

function retrySharingViolations :: "(nat \<Rightarrow> jstring + 'a) \<Rightarrow> nat \<Rightarrow> nat \<Rightarrow> jstring + 'a" where
  "retrySharingViolations operation attempt attempts =
     (case operation attempt of
        Inr v \<Rightarrow> Inr v
      | Inl code \<Rightarrow>
          if attempts \<le> attempt \<or> code \<notin> set busyCodes then Inl code
          else retrySharingViolations operation (Suc attempt) attempts)"
  by pat_completeness auto
termination
  by (relation "measure (\<lambda>(_, attempt, attempts). attempts - attempt)") auto

declare retrySharingViolations.simps [simp del]

definition assertDaemonIntegrity :: "int \<Rightarrow> int option \<Rightarrow> layout_error + unit" where
  "assertDaemonIntegrity rid lua =
     (if integrityProblem rid (if HIGH_INTEGRITY \<le> rid then lua else None) \<noteq> None
      then Inl (Unavailable (js ''integrity'')) else Inr ())"

section \<open>Directories\<close>

definition REPARSE_POINT :: access where "REPARSE_POINT = 0x400"

definition descriptor_of :: "windows_host \<Rightarrow> jstring \<Rightarrow> layout_error + descriptor" where
  "descriptor_of h file =
     (case wh_sddl h file of
        None \<Rightarrow> Inl Host_error
      | Some t \<Rightarrow> (case parseSddl t of Inl e \<Rightarrow> Inl (Sddl_error e) | Inr d \<Rightarrow> Inr d))"

definition parent_of :: "windows_host \<Rightarrow> jstring \<Rightarrow> layout_error + descriptor option" where
  "parent_of h file =
     (let parent = wh_dirname h file
      in if parent = file then Inr None
         else case descriptor_of h parent of Inl e \<Rightarrow> Inl e | Inr d \<Rightarrow> Inr (Some d))"

definition checkAncestor :: "windows_host \<Rightarrow> jstring \<Rightarrow> jstring \<Rightarrow> layout_error + unit" where
  "checkAncestor h user file =
     (case wh_lstat h file of
        None \<Rightarrow> Inl Host_error
      | Some kind \<Rightarrow>
          if kind \<noteq> Directory_entry then Inl (Unavailable (js ''ancestor''))
          else case wh_attributes h file of
                 None \<Rightarrow> Inl Host_error
               | Some attributes \<Rightarrow>
                   if attributes AND REPARSE_POINT \<noteq> 0 then Inl (Unavailable (js ''ancestor''))
                   else case descriptor_of h file of
                          Inl e \<Rightarrow> Inl e
                        | Inr child \<Rightarrow>
                            (case parent_of h file of
                               Inl e \<Rightarrow> Inl e
                             | Inr parent \<Rightarrow>
                                 if ancestorProblem child parent user \<noteq> None then Inl (Unavailable (js ''ancestor''))
                                 else Inr ()))"

definition entryProblem :: "windows_host \<Rightarrow> jstring \<Rightarrow> jstring list \<Rightarrow> jstring \<Rightarrow> bool \<Rightarrow> layout_error + problem" where
  "entryProblem h user owners file directory =
     (let wrong = js ''not a private directory or file''
      in case wh_lstat h file of
           None \<Rightarrow> Inl Host_error
         | Some kind \<Rightarrow>
             if kind \<noteq> (if directory then Directory_entry else File_entry) then Inr (Some wrong)
             else case wh_attributes h file of
                    None \<Rightarrow> Inl Host_error
                  | Some attributes \<Rightarrow>
                      if attributes AND REPARSE_POINT \<noteq> 0 then Inr (Some wrong)
                      else case descriptor_of h file of
                             Inl e \<Rightarrow> Inl e
                           | Inr d \<Rightarrow> Inr (privateDescriptorProblem d user owners))"

definition checkEntry :: "windows_host \<Rightarrow> jstring \<Rightarrow> jstring list \<Rightarrow> jstring \<Rightarrow> bool \<Rightarrow> layout_error + unit" where
  "checkEntry h user owners file directory =
     (case entryProblem h user owners file directory of
        Inl e \<Rightarrow> Inl e | Inr (Some p) \<Rightarrow> Inl (Not_private p) | Inr None \<Rightarrow> Inr ())"

text \<open>Up to the root of the drive, which is its own parent.\<close>

partial_function (option) check_up :: "windows_host \<Rightarrow> jstring \<Rightarrow> jstring \<Rightarrow> (layout_error + unit) option" where
  "check_up h user current =
     (case checkAncestor h user current of
        Inl e \<Rightarrow> Some (Inl e)
      | Inr _ \<Rightarrow> if wh_dirname h current = current then Some (Inr ()) else check_up h user (wh_dirname h current))"

declare check_up.simps [code]

definition checkTop :: "windows_host \<Rightarrow> jstring \<Rightarrow> jstring list \<Rightarrow> jstring \<Rightarrow> jstring \<Rightarrow> (layout_error + unit) option" where
  "checkTop h user owners root stableRoot =
     (case check_up h user root of
        None \<Rightarrow> None
      | Some (Inl e) \<Rightarrow> Some (Inl e)
      | Some (Inr _) \<Rightarrow>
          Some (case entryProblem h user owners stableRoot True of
                  Inl e \<Rightarrow> Inl e
                | Inr (Some _) \<Rightarrow> Inl (Unavailable (js ''ancestor''))
                | Inr None \<Rightarrow> checkAncestor h user stableRoot))"

definition checkPrivate ::
  "windows_host \<Rightarrow> jstring \<Rightarrow> jstring list \<Rightarrow> jstring \<Rightarrow> jstring \<Rightarrow> jstring \<Rightarrow> bool \<Rightarrow> (layout_error + unit) option" where
  "checkPrivate h user owners root stableRoot file directory =
     (if directory \<and> file = stableRoot then checkTop h user owners root stableRoot
      else Some (checkEntry h user owners file directory))"

section \<open>The pipe\<close>

definition KILL_ON_JOB_CLOSE :: access where "KILL_ON_JOB_CLOSE = 0x2000"

definition SILENT_BREAKAWAY_OK :: access where "SILENT_BREAKAWAY_OK = 0x1000"

definition jobProblem :: "access option \<Rightarrow> problem" where
  "jobProblem flags =
     (case flags of None \<Rightarrow> None
      | Some f \<Rightarrow>
          if f AND KILL_ON_JOB_CLOSE = 0 then None
          else if f AND SILENT_BREAKAWAY_OK \<noteq> 0 then None else Some (js ''kill on job close''))"


text \<open>
  The error of opening the pipe, if any, and the text that is read back after one was set; the pipe is locked,
  or somebody else has it.
\<close>

datatype locked = Locked | Contended

definition contendedLockdown :: "int list" where
  "contendedLockdown = [231, 5, 121]"

definition lockdown :: "int option \<Rightarrow> (jstring \<Rightarrow> jstring option) \<Rightarrow> jstring \<Rightarrow> layout_error + locked" where
  "lockdown failed read_back user =
     (case failed of
        Some e \<Rightarrow> if e \<in> set contendedLockdown then Inr Contended else Inl Host_error
      | None \<Rightarrow>
          (case read_back (lockedPipeSddl user) of
             None \<Rightarrow> Inl Host_error
           | Some t \<Rightarrow>
               (case parseSddl t of
                  Inl e \<Rightarrow> Inl (Sddl_error e)
                | Inr d \<Rightarrow> (case lockedPipeProblem d user of Some p \<Rightarrow> Inl (Not_locked p) | None \<Rightarrow> Inr Locked))))"

section \<open>Lemmas\<close>

lemma lockdown_keeps_others_out:
  assumes "lockdown failed read_back user = Inr Locked" "user \<notin> sids"
  shows "\<exists>t d. read_back (lockedPipeSddl user) = Some t \<and> parseSddl t = Inr d \<and> may_access sids (Some d) = 0"
  using assms locked_grants_none
  by (fastforce simp: lockdown_def split: option.splits sum.splits if_splits)

text \<open>A pipe that keeps what was written on it is locked.\<close>

lemma lockdown_succeeds: "full_sid user \<Longrightarrow> lockdown None Some user = Inr Locked"
proof -
  have "lockedPipeProblem \<lparr>sd_owner = Some user,
     sd_dacl = Dacl True [\<lparr>ace_type = js ''A'', ace_flags = [], ace_rights = GENERIC_ALL, ace_sid = user\<rparr>],
     sd_labels = [\<lparr>ace_type = js ''ML'', ace_flags = [], ace_rights = 3, ace_sid = js ''S-1-16-8192''\<rparr>]\<rparr> user = None"
    using locked_pipe_facts by (simp add: lockedPipeProblem_def)
  then show "full_sid user \<Longrightarrow> ?thesis"
    by (simp add: lockdown_def parse_lockedPipe)
qed

text \<open>An operation is tried again only after a sharing violation, and at most so often.\<close>

lemma retry_outcome:
  "attempt \<le> attempts \<Longrightarrow>
   \<exists>n. attempt \<le> n \<and> n \<le> attempts \<and> retrySharingViolations operation attempt attempts = operation n
     \<and> (\<forall>m. attempt \<le> m \<longrightarrow> m < n \<longrightarrow> (\<exists>code \<in> set busyCodes. operation m = Inl code))"
proof (induction operation attempt attempts rule: retrySharingViolations.induct)
  case (1 operation attempt attempts)
  show ?case
  proof (cases "\<exists>code. operation attempt = Inl code \<and> attempt < attempts \<and> code \<in> set busyCodes")
    case True
    then obtain code where c: "operation attempt = Inl code" "attempt < attempts" "code \<in> set busyCodes" by blast
    then obtain n where n: "Suc attempt \<le> n" "n \<le> attempts" "retrySharingViolations operation (Suc attempt) attempts = operation n"
      "\<forall>m. Suc attempt \<le> m \<longrightarrow> m < n \<longrightarrow> (\<exists>code \<in> set busyCodes. operation m = Inl code)"
      using "1.IH" [OF c(1)] by auto
    have "\<exists>code \<in> set busyCodes. operation m = Inl code" if "attempt \<le> m" "m < n" for m
      using n(4) c that by (cases "m = attempt") auto
    then show ?thesis
      using n c by (intro exI [of _ n]) (simp add: retrySharingViolations.simps [of operation attempt])
  next
    case False
    then show ?thesis
      using "1.prems"
      by (intro exI [of _ attempt])
        (auto simp: retrySharingViolations.simps [of operation attempt] split: sum.split)
  qed
qed

subsection \<open>Directories that are checked\<close>

text \<open>
  A directory, no link, whose owner is trusted. Strangers, whatever identifiers outside the trusted ones they have
  together, have no right to change its security or its owner or to delete what is in it; and no single identifier
  gives the rights to replace it. (Two identifiers of one person may: \<open>two_groups_replace\<close>.)
\<close>

definition held_fast :: "windows_host \<Rightarrow> jstring \<Rightarrow> jstring \<Rightarrow> bool" where
  "held_fast h user file \<longleftrightarrow>
     wh_lstat h file = Some Directory_entry
     \<and> (\<exists>child parent. descriptor_of h file = Inr child \<and> parent_of h file = Inr parent
          \<and> owner_among child (trustedSids user)
          \<and> (\<forall>sids. sids \<inter> set (trustedSids user) = {} \<longrightarrow>
               may_access sids (Some child) AND (WRITE_DAC OR WRITE_OWNER OR FILE_DELETE_CHILD) = 0)
          \<and> (\<forall>sid. sid \<notin> set (trustedSids user) \<longrightarrow> \<not> can_replace {sid} child parent))"

lemma descriptor_of_parsed: "descriptor_of h file = Inr d \<Longrightarrow> \<exists>t. parseSddl t = Inr d"
  by (auto simp: descriptor_of_def split: option.splits sum.splits)

lemma parent_of_star_free: "parent_of h file = Inr parent \<Longrightarrow> star_free parent"
  using descriptor_of_parsed parsed_star_free
  by (fastforce simp: parent_of_def Let_def star_free_def split: if_splits sum.splits)

lemma checkAncestor_held:
  assumes "checkAncestor h user file = Inr u"
  shows "held_fast h user file"
proof -
  obtain child parent where c: "wh_lstat h file = Some Directory_entry" "descriptor_of h file = Inr child"
    "parent_of h file = Inr parent" "ancestorProblem child parent user = None"
    using assms by (auto simp: checkAncestor_def split: option.splits if_splits sum.splits)
  then show ?thesis
    using ancestor_control_none [OF parent_of_star_free [OF c(3)] c(4)] ancestor_problem_None [OF parent_of_star_free [OF c(3)], of child user]
    unfolding held_fast_def by blast
qed

text \<open>
  The top directory gives nothing to strangers, so only the directory above it could let them replace it; if that
  one is held fast, it does not.
\<close>

lemma private_child_held:
  assumes "\<forall>sids. user \<notin> sids \<and> SYSTEM \<notin> sids \<longrightarrow> may_access sids (Some child) = 0"
    and "parent_of h file = Inr parent" "held_fast h user (wh_dirname h file)" "sids \<inter> set (trustedSids user) = {}"
  shows "\<not> can_replace sids child parent"
proof -
  have "user \<notin> sids" "SYSTEM \<notin> sids" using assms(4) by (auto simp: trustedSids_def)
  then have "may_access sids (Some child) = 0" using assms(1) by blast
  moreover have "may_access sids parent AND FILE_DELETE_CHILD = 0"
  proof (cases "wh_dirname h file = file")
    case True
    then show ?thesis using assms(2) by (simp add: parent_of_def may_access_def)
  next
    case False
    then obtain q where q: "parent = Some q" "descriptor_of h (wh_dirname h file) = Inr q"
      using assms(2) by (auto simp: parent_of_def Let_def split: sum.splits)
    then have "may_access sids (Some q) AND (WRITE_DAC OR WRITE_OWNER OR FILE_DELETE_CHILD) = 0"
      using assms(3,4) by (auto simp: held_fast_def)
    then show ?thesis by (simp add: q(1) bit.conj_disj_distrib or_eq_0_iff)
  qed
  ultimately show ?thesis by (simp add: can_replace_def)
qed

lemma check_up_held:
  "check_up h user root = Some r \<Longrightarrow> r = Inr () \<Longrightarrow> held_fast h user ((wh_dirname h ^^ n) root)"
proof (induction arbitrary: n rule: check_up.raw_induct [rotated, consumes 1])
  case (1 check h user current r)
  obtain u where ok: "checkAncestor h user current = Inr u"
    using 1 by (auto split: sum.splits)
  show ?case
  proof (cases "wh_dirname h current = current")
    case True
    then have "(wh_dirname h ^^ n) current = current"
      by (induction n) auto
    then show ?thesis using checkAncestor_held [OF ok] by simp
  next
    case False
    then have up: "check h user (wh_dirname h current) = Some r"
      using 1 ok by simp
    show ?thesis
    proof (cases n)
      case 0
      then show ?thesis using checkAncestor_held [OF ok] by simp
    next
      case (Suc m)
      then show ?thesis using 1(1) [OF up 1(3), of m] by (simp add: funpow_swap1)
    qed
  qed
qed

text \<open>The walk ends where a directory has a shorter name than what is in it, but for the root.\<close>

lemma check_up_returns:
  assumes "\<And>p. wh_dirname h p = p \<or> length (wh_dirname h p) < length p"
  shows "\<exists>r. check_up h user root = Some r"
proof (induction root rule: measure_induct_rule [of length])
  case (less root)
  show ?case
    using less [of "wh_dirname h root"] assms [of root]
    by (subst check_up.simps) (auto split: sum.split)
qed

text \<open>
  C20. The check of the top directory returns, and when it passes: nobody but the user and the system has access to
  the top one, whatever identifiers they have together, nor can strangers replace it in the root above it; and from
  there to the root of the drive, strangers cannot change the security or the owner of any directory or delete what
  is in it, and no single identifier outside the trusted ones can replace any, on its own.
\<close>

theorem top_not_replaced:
  assumes "\<And>p. wh_dirname h p = p \<or> length (wh_dirname h p) < length p" "wh_dirname h stableRoot = root"
  shows "\<exists>r. checkPrivate h user owners root stableRoot stableRoot True = Some r
    \<and> (r = Inr () \<longrightarrow>
         held_fast h user stableRoot \<and> (\<forall>n. held_fast h user ((wh_dirname h ^^ n) root))
         \<and> (\<exists>top above. descriptor_of h stableRoot = Inr top \<and> parent_of h stableRoot = Inr above
              \<and> (\<forall>sids. user \<notin> sids \<and> SYSTEM \<notin> sids \<longrightarrow> may_access sids (Some top) = 0)
              \<and> (\<forall>sids. sids \<inter> set (trustedSids user) = {} \<longrightarrow> \<not> can_replace sids top above)))"
proof -
  obtain c where c: "check_up h user root = Some c"
    using check_up_returns [OF assms(1)] by blast
  show ?thesis
  proof (cases c)
    case (Inl e)
    then show ?thesis using c by (simp add: checkPrivate_def checkTop_def)
  next
    case (Inr u)
    then have up: "held_fast h user ((wh_dirname h ^^ n) root)" for n
      using check_up_held [OF c] by simp
    have "held_fast h user stableRoot
        \<and> (\<exists>top above. descriptor_of h stableRoot = Inr top \<and> parent_of h stableRoot = Inr above
              \<and> (\<forall>sids. user \<notin> sids \<and> SYSTEM \<notin> sids \<longrightarrow> may_access sids (Some top) = 0)
              \<and> (\<forall>sids. sids \<inter> set (trustedSids user) = {} \<longrightarrow> \<not> can_replace sids top above))"
      if entry: "entryProblem h user owners stableRoot True = Inr None" and ancestor: "checkAncestor h user stableRoot = Inr ()"
    proof -
      obtain top where top: "descriptor_of h stableRoot = Inr top" "privateDescriptorProblem top user owners = None"
        using entry by (auto simp: entryProblem_def Let_def split: option.splits if_splits sum.splits)
      moreover obtain above where above: "parent_of h stableRoot = Inr above"
        using checkAncestor_held [OF ancestor] by (auto simp: held_fast_def)
      moreover have none: "\<forall>sids. user \<notin> sids \<and> SYSTEM \<notin> sids \<longrightarrow> may_access sids (Some top) = 0"
        using private_grants_none [OF top(2)] by blast
      moreover have "held_fast h user (wh_dirname h stableRoot)" using up [of 0] assms(2) by simp
      ultimately show ?thesis
        using checkAncestor_held [OF ancestor] private_child_held [OF none above] by blast
    qed
    then show ?thesis
      using c Inr up by (auto simp: checkPrivate_def checkTop_def split: sum.split option.split)
  qed
qed


text \<open>A drive \<open>C:\<close> that only the system and administrators may write, with the directories of a user on it.\<close>

definition sample_host :: windows_host where
  "sample_host = \<lparr>wh_lstat = \<lambda>_. Some Directory_entry, wh_attributes = \<lambda>_. Some 0x10,
     wh_sddl = \<lambda>p. Some (if p = js ''R'' then js ''O:SYD:P(A;;FA;;;SY)(A;;0x1200a9;;;WD)''
                          else privateDirectorySddl (js ''S-1-5-21-1001'')),
     wh_dirname = \<lambda>p. if length p \<le> 1 then p else butlast p\<rparr>"

theorem top_not_replaced_witness:
  "checkPrivate sample_host (js ''S-1-5-21-1001'') [js ''S-1-5-21-1001''] (js ''RU'') (js ''RUA'') (js ''RUA'') True = Some (Inr ())
   \<and> held_fast sample_host (js ''S-1-5-21-1001'') (js ''R'')"
proof -
  let ?u = "js ''S-1-5-21-1001''"
  have r: "checkPrivate sample_host ?u [?u] (js ''RU'') (js ''RUA'') (js ''RUA'') True = Some (Inr ())"
    by code_simp
  have d: "wh_dirname sample_host p = p \<or> length (wh_dirname sample_host p) < length p" for p
    by (auto simp: sample_host_def)
  have above: "wh_dirname sample_host (js ''RUA'') = js ''RU''" by code_simp
  have "\<forall>n. held_fast sample_host ?u ((wh_dirname sample_host ^^ n) (js ''RU''))"
    using top_not_replaced [OF d above, of ?u "[?u]"] r by auto
  then have "held_fast sample_host ?u ((wh_dirname sample_host ^^ 1) (js ''RU''))" by (rule spec)
  moreover have "(wh_dirname sample_host ^^ 1) (js ''RU'') = js ''R''"
    by (simp add: sample_host_def js_simps)
  ultimately show ?thesis using r by simp
qed

end
