(* ===== verification/Spec2Isabelle.thy ===== *)
theory Spec2Isabelle
  imports Permissions OperationLedger PatchFormat Journal Scheduler EventBus Interceptors Semver Address Hold PromptHistory
    Controller Diff Sse Masks StringHistory Schema Gate Uploads Codec CommandLine PrivateLayout
begin

text \<open>
  A verification library for Amira, a coding agent for the terminal with a daemon that remote clients
  attach to. It models the parts whose correctness is a matter of logic rather than of input and
  output: what decides whether a tool call may run, what the daemon promises about remote operations
  and display events, what an edit does to a file, and how sessions schedule, queue and deliver.

  Every definition follows the TypeScript source named by its theory, function by function and in the
  order of the code. Paths below are under \<open>packages/\<close> unless they begin with \<open>extensions/\<close>.

  \<^bold>\<open>Conventions.\<close> A string is a list of UTF-16 code units (\<open>jstring\<close>), so the string methods and
  regular expressions of the sources are functions on lists (\<open>Prelude\<close>). Classes and interfaces are
  records, unions are datatypes, thrown errors are \<open>Inl\<close>, \<open>undefined\<close> is \<open>None\<close>. A method that changes
  its object takes and returns the record; objects that refer to each other are numbered in a store.
  What happens asynchronously is either a step of a relation or a call in a list, so a theorem about
  all reachable states or all lists is about every interleaving of whole synchronous calls.

  \<^bold>\<open>Theories.\<close>

  \<^item> \<open>Prelude\<close>, \<open>Numbers\<close>: strings, character classes, splitting and joining, collections of facts.
  \<^item> \<open>LineReader\<close>: the locale of readers that take a script line by line, and what holds of each.
  \<^item> \<open>ShellParse\<close>, \<open>ShellPower\<close>: \<open>core/src/permissions/shell-parse.ts\<close>. \<open>parseBash\<close> and
    \<open>parsePowerShell\<close> split a script into commands or give the reason why it is complex. Both interpret
    the locale of \<open>LineReader\<close>; the lemmas show that a line neither hides nor alters another, and, for
    bash, that quoted words are read back exactly and that grouping is never missed.
  \<^item> \<open>NodePath\<close>, \<open>Protected\<close>: \<open>path.resolve\<close> on POSIX and
    \<open>core/src/permissions/protected.ts\<close>, \<open>path-containment.ts\<close>, which name the files that are never
    written silently. The file system is the parameter \<open>host\<close>.
  \<^item> \<open>Permissions\<close>: \<open>core/src/permissions/policy.ts\<close>, the settings behind it, the traits of tools and the
    classification of shell calls. Verdicts are ordered by strictness; the lemmas show which rule
    decides and that adding rules, a stricter mode or an untrusted project only tightens.
  \<^item> \<open>Json\<close>, \<open>JsonText\<close>: inert JSON and its text, \<open>cli/src/remote/schema/json.ts\<close>, and
    \<open>JSON.parse\<close> with its round trip.
  \<^item> \<open>OperationLedger\<close>: the daemon's record of remote operations
    (\<open>cli/src/server/operation-ledger.ts\<close>), which makes a resent operation run at most once.
  \<^item> \<open>Journal\<close>: \<open>cli/src/server/journal.ts\<close> and \<open>cli/src/remote/replay.ts\<close>, the numbered history of display
    events, its listeners, and the client that follows it: a step relation with appends, opens, closes
    and each call of a listener as steps of their own.
  \<^item> \<open>Controller\<close>: \<open>cli/src/server/controller.ts\<close>, who controls a workspace: leases, generations, takeovers
    and grace, refined to an authority that judges what may happen next.
  \<^item> \<open>PatchFormat\<close>: \<open>extensions/builtin-tools/src/patch-format.ts\<close>, reading a patch and applying an update to a file,
    each line with the ending it has there.
  \<^item> \<open>Diff\<close>: \<open>extensions/builtin-tools/src/diff.ts\<close>, Myers' algorithm and the hunks shown for an edit.
  \<^item> \<open>Sse\<close>: \<open>ai/src/sse.ts\<close>, the reader of server-sent events.
  \<^item> \<open>Masks\<close>: \<open>cli/src/remote/model-string-masks.ts\<close>, the masking of secrets in what a model sends to a
    remote client. Its loop is a partial function; the lemmas say when it ends and that nothing is left
    then, and \<open>masking_may_not_end\<close> gives secrets for which it runs for ever.
  \<^item> \<open>StringHistory\<close>: \<open>cli/src/remote/model-string-history.ts\<close>, which keeps how far each secret could already
    have been published; the main lemma reads what is kept as a cut of the secret into published pieces.
  \<^item> \<open>Base64\<close>, \<open>Uploads\<close>: \<open>cli/src/server/uploads.ts\<close>, \<open>images.ts\<close>, \<open>file-support.ts\<close>, the staging of images for
    a message. Bytes are words of eight bits; an invariant bounds what is staged and shows that an attachment
    goes with one message, and a run of calls that an image arrives as it was sent.
  \<^item> \<open>Schema\<close>: \<open>cli/src/remote/schema/base.ts\<close>, the builders of wire schemas and the check of a value
    against one. What passes has the type that TypeScript infers, and the tag of a union decides.
  \<^item> \<open>Utf8\<close>, \<open>Frames\<close>, \<open>Codec\<close>: \<open>cli/src/remote/codec.ts\<close>, \<open>remote-schema.ts\<close>, \<open>remote/public-errors.ts\<close>: the lines
    of a remote connection. A large message is cut into chunks, the lines of several messages may be mixed, and
    the bytes arrive in pieces of any size. The decoder is taken a line, a piece or a stream at a time, with an
    invariant of its transfers; a run of it is compared with the messages that were sent.
  \<^item> \<open>Scheduler\<close>: \<open>core/src/subagents/scheduler.ts\<close>, admission of children and consultations.
  \<^item> \<open>Gate\<close>: \<open>core/src/file-lock-gate.ts\<close>, \<open>file-lock-owner.ts\<close>, the directory that guards a file lock,
    with each call of the file system a step of one of many processes. An invariant over all reachable
    worlds gives mutual exclusion; a run of one process shows that a crash does not lock it for ever.
  \<^item> \<open>EventBus\<close>: \<open>core/src/event-bus.ts\<close>, bounded queues and markers of what they lost.
  \<^item> \<open>Interceptors\<close>: \<open>core/src/interceptors.ts\<close>, the handlers a tool call has to pass: those that stand after
    any registrations and disposals.
  \<^item> \<open>Notices\<close>, \<open>Hold\<close>: \<open>core/src/agent/notices.ts\<close>, \<open>notice-input.ts\<close>, \<open>messages.ts\<close>, \<open>hold.ts\<close>,
    \<open>held-input.ts\<close>: what waits for a session's next turn. \<open>Hold\<close> releases into \<open>Notices\<close>.
  \<^item> \<open>Semver\<close>: \<open>cli/src/update/semver.ts\<close>, with a locale of comparisons interpreted on identifiers and
    on versions.
  \<^item> \<open>Address\<close>: \<open>net/src/address.ts\<close>, which hosts a tool may connect to.
  \<^item> \<open>CommandLine\<close>: \<open>proc/src/cmd-line.ts\<close>, quoting for programs that are started through \<open>cmd.exe\<close>,
    read back by the conventions of the C runtime. The interpreter is a parameter that keeps its caret rule where
    it finds nothing to expand; \<open>colon_name_found\<close> shows what the caret before a percent sign does not hide.
  \<^item> \<open>Descriptors\<close>, \<open>PrivateLayout\<close>: \<open>cli/src/server/win32-sddl.ts\<close>, \<open>win32-layout.ts\<close>, \<open>win32-platform.ts\<close>: the text of
    Windows security descriptors, and whom the daemon trusts with its directories and its pipe. The checks are
    compared with the rights that the entries give to one identifier and to several; \<open>two_groups_replace\<close>
    shows what they miss.
  \<^item> \<open>PromptHistory\<close>: \<open>tui/src/prompt-history.ts\<close> on \<open>JsonText\<close>, the sent prompts and their file.

  \<^bold>\<open>What is shown.\<close> Safety: a denied or protected action is not reached by rewriting the command, the
  path, the settings or the address; two processes never hold a gate together; no secret is put together
  from what was published. Refinement: the journal with its client against the plain history of events, the
  controller against an authority, the prompt file against the list in memory. Invariants over every
  sequence of calls: the ledger, the scheduler's limits, the bus's accounts, the inbox and held input, the
  capacity of the uploads, the memory of the decoder. Round trips: patches, diffs, quoted scripts, command
  lines, events of a stream, uploads, chunked messages, source lines, operation keys, hooks paths, JSON.
  Types: what a schema accepts has the inferred type. Equivalences: rule words with subsequences, the
  parent walk with ancestry, private addresses with a table of networks, version comparison with the
  precedence of semantic versions, Myers' rounds with the shortest script. Progress: masking ends, a dead gate is taken over, the
  scheduler leaves nothing queued that could start.

  \<^bold>\<open>Bounds and fuel.\<close> The readers of shell text recurse on what is left of the line and are total. The
  parent walk of the scheduler has one more unit of fuel than there are parents, and a set of visited
  nodes; \<open>under_is_ancestor\<close> shows that to be enough, cycles included. Eviction from the journal
  recurses on the number of entries. \<open>JSON_parse\<close> gives the parser twice the length of the text and one
  call more: two nested calls read at least one character. The loops over streams, base64 and diffs recurse on what is left of their input;
  \<open>maskModelFragments\<close> is a partial function, proved to return for secrets that the marker does not
  complete. The arrays that Myers' algorithm indexes by diagonal are functions. Limits of the sources (windows, bytes,
  nodes, queue lengths) are the arguments or constants the sources use. A queue of the event bus of one
  place is left out of its theorem: \<open>marker_alone_overcounts\<close> shows that it counts an event as lost
  that it delivers. That admission leaves no place empty is shown for children that are one thread of work
  each (\<open>tidy\<close>); \<open>late_consultation_leaves_place\<close> shows what happens otherwise. The limits of the scheduler are
  shown for runs in which groups stay as they are and no child that gave its place away is paused (\<open>orderly\<close>).

  \<^bold>\<open>Parameters.\<close> The digest of an operation, whether an operation is still in use, the file system, the
  host's snapshot, the resolver and \<open>isIP\<close>, what an interceptor or a held work answers, drawn
  identifiers and the clock are arguments. So are, of the remote codec, the hash, the schemas of frames
  that are not chunks and the test of a pattern (the record \<open>platform\<close>); of the gate, the probe that tells
  whether a process lives and the fresh nonces; of the Windows layout, every native call (\<open>windows_host\<close>); of a command line, the paths, the search for programs and the
  change of case (the record \<open>windows\<close>), the names that are variables and \<open>cmd.exe\<close> itself, of which \<open>hands_on\<close>
  says what is relied on; of an upload, its digest. The theorems state what they need of them.

  \<^bold>\<open>Not modelled.\<close> Windows branches of the path checks, and the report of what a tool wrote; the
  relocation of gates that were released; the schemas of single frames; numeric forms and retention of
  secrets, and the filter that holds outgoing items back; numbers beyond decimals that a double represents
  exactly; what \<open>cmd.exe\<close> makes of a line in which it expands a variable; promises,
  timers and abort signals beyond the order of the calls they cause; the wording of the patch mismatch
  diagnostic; calls that re-enter a component from inside one of its own listeners, except in the
  journal, where they are steps. Whole parts left out: the terminal interface, the dialects of model
  providers, the asynchronous agent loop, transport and process management of the daemon, and the
  extensions other than patch editing; they are mostly input and output around the parts above.
\<close>

end
